(* ===== verification/Prelude.thy ===== *)
theory Prelude
  imports Main "HOL-Library.Word"
begin

unbundle bit_operations_syntax

text \<open>
  The vocabulary the component theories share: machine integers, byte strings, the
  result type of fallible code, and generic lemmas on lists and words.

  Machine integers are words. A Rust \<open>i64\<close> and a Rust \<open>u64\<close> are both \<open>64 word\<close>: an
  \<open>as\<close> cast between them keeps the bits, wrapping arithmetic is word arithmetic, and
  where the source compares or shifts a signed value the model uses the signed
  operation (\<open>sint\<close>, \<open>word_sle\<close>, \<open>signed_drop_bit\<close>). A \<open>usize\<close> that counts or indexes
  a buffer is a \<open>nat\<close>; the target is a 64-bit one, so \<open>usize::try_from(u64)\<close> succeeds
  and a buffer's length is below \<open>2 ^ 63\<close>, as Rust guarantees of every allocation.
  An \<open>f64\<close> is its bit pattern, a \<open>64 word\<close>. A Rust \<open>str\<close> is its UTF-8 bytes.
\<close>

section \<open>Types\<close>

type_synonym byte = "8 word"
type_synonym u16 = "16 word"
type_synonym u32 = "32 word"
type_synonym i32 = "32 word"
type_synonym u64 = "64 word"
type_synonym i64 = "64 word"
type_synonym i128 = "128 word"
type_synonym u128 = "128 word"
type_synonym f64 = "64 word"
type_synonym rstr = "byte list"

text \<open>The bytes of an ASCII literal.\<close>

definition lit :: "string \<Rightarrow> rstr" where
  "lit s = map of_char s"

section \<open>Collections of facts\<close>

text \<open>
  \<open>rd_safe_intros\<close>: readers that keep the cursor inside its buffer.
  \<open>append_only\<close>: writers that only append.
\<close>

named_theorems rd_safe_intros \<open>cursor readers that stay within their buffer\<close>
named_theorems append_only \<open>sink writers that only append\<close>

section \<open>Lists\<close>

lemma take_drop_append_exact [simp]:
  "length xs = n \<Longrightarrow> take n (xs @ ys) = xs"
  "length xs = n \<Longrightarrow> drop n (xs @ ys) = ys"
  by auto

lemma drop_eq_appendD:
  "drop p xs = ys @ zs \<Longrightarrow> drop (p + length ys) xs = zs"
  by (metis add.commute append_eq_conv_conj drop_drop)

lemma drop_eq_append_le:
  "p \<le> length xs \<Longrightarrow> drop p xs = ys @ zs \<Longrightarrow> p + length ys \<le> length xs"
  by (metis append_take_drop_id le_add1 length_append length_take min.absorb2 nat_add_left_cancel_le)

lemma length_concat_same:
  "(\<And>x. x \<in> set xs \<Longrightarrow> length (f x) = k) \<Longrightarrow> length (concat (map f xs)) = k * length xs"
  by (induction xs) auto

lemma nth_concat_same:
  assumes "\<And>x. x \<in> set xs \<Longrightarrow> length (f x) = k" and "i < k * length xs" and "0 < k"
  shows "concat (map f xs) ! i = f (xs ! (i div k)) ! (i mod k)"
  using assms
proof (induction xs arbitrary: i)
  case Nil
  then show ?case by simp
next
  case (Cons x xs)
  then have lx: "length (f x) = k" by simp
  show ?case
  proof (cases "i < k")
    case True
    with lx show ?thesis by (simp add: nth_append)
  next
    case False
    with Cons.prems have "i - k < k * length xs" by simp
    with Cons have "concat (map f xs) ! (i - k) = f (xs ! ((i - k) div k)) ! ((i - k) mod k)"
      by simp
    moreover from False Cons.prems(3) have "i div k = Suc ((i - k) div k)" and "(i - k) mod k = i mod k"
      by (simp_all add: le_div_geq le_mod_geq)
    ultimately show ?thesis using False lx by (simp add: nth_append)
  qed
qed

section \<open>Division\<close>

lemma div_mod_add_less:
  assumes "p mod k + j < (k :: nat)"
  shows "(p + j) div k = p div k" and "(p + j) mod k = p mod k + j"
proof -
  have "p + j = (p mod k + j) + k * (p div k)" by simp
  then have "(p + j) div k = (p mod k + j) div k + p div k \<and> (p + j) mod k = (p mod k + j) mod k"
    by (metis add.commute assms div_mult_self4 mod_mult_self2 not_less_zero)
  with assms show "(p + j) div k = p div k" "(p + j) mod k = p mod k + j" by simp_all
qed

lemma ceil_div_step:
  assumes "0 < t" "n mod k + t \<le> (k :: nat)"
  shows "(n + t + (k - 1)) div k = Suc (n div k)"
proof -
  have "n + t + (k - 1) = (n mod k + t - 1) + k * Suc (n div k)"
    using assms mult_div_mod_eq [of k n] by (simp only: mult_Suc_right)
  moreover have "n mod k + t - 1 < k" using assms by linarith
  ultimately show ?thesis by (simp only: div_mult_self4 div_mult_self2) simp
qed

lemma ceil_div_exact:
  assumes "n mod k = 0" "0 < (k :: nat)"
  shows "(n + (k - 1)) div k = n div k"
proof -
  have "n + (k - 1) = (k - 1) + k * (n div k)" using assms(1) by (simp add: minus_mod_eq_mult_div [symmetric])
  then show ?thesis using assms(2) by (simp only: div_mult_self2) simp
qed

lemma ceil_div_partial:
  assumes "n mod k \<noteq> 0" "0 < (k :: nat)"
  shows "(n + (k - 1)) div k = Suc (n div k)"
proof -
  have "n + (k - 1) = (n mod k - 1) + k * Suc (n div k)"
    using assms mult_div_mod_eq [of k n] by (simp only: mult_Suc_right)
  moreover have "n mod k - 1 < k" using mod_less_divisor [OF assms(2), of n] by linarith
  ultimately show ?thesis using assms(2) by (simp only: div_mult_self2) simp
qed

lemma le_ceil_div:
  assumes "0 < (k :: nat)"
  shows "n \<le> k * ((n + (k - 1)) div k)"
proof -
  have "n + (k - 1) < k * ((n + (k - 1)) div k) + k"
    by (metis add_less_cancel_left assms mod_less_divisor mult_div_mod_eq)
  then show ?thesis using assms by linarith
qed

lemma ceil_div_bound:
  assumes "i < n" "0 < (k :: nat)"
  shows "i div k < (n + (k - 1)) div k"
proof -
  have "Suc (i div k) = (i + k) div k" using assms(2) by (simp add: div_add_self2)
  also have "\<dots> \<le> (n + (k - 1)) div k" using assms by (intro div_le_mono) linarith
  finally show ?thesis by simp
qed

section \<open>Words\<close>

lemma unat_less_2p: "unat (w :: 'a::len word) < 2 ^ LENGTH('a)"
  by (rule unsigned_less)

lemma bit_ucast_byte [simp]:
  "bit (ucast (w :: 'a::len word) :: byte) k \<longleftrightarrow> k < 8 \<and> bit w k"
  by (auto simp: bit_ucast_iff)

lemma bit_byte_less: "bit (b :: byte) k \<Longrightarrow> k < 8"
  using bit_imp_le_length [of b k] by simp

lemma bit_u64_less: "bit (b :: u64) k \<Longrightarrow> k < 64"
  using bit_imp_le_length [of b k] by simp

lemma word_of_nat_unat_u64 [simp]:
  "n < 2 ^ 64 \<Longrightarrow> unat (word_of_nat n :: u64) = n"
  by (simp add: unat_of_nat take_bit_nat_eq_self)

lemma unat_drop_bit_less:
  assumes "drop_bit k (v :: u64) \<noteq> 0" and "0 < k"
  shows "unat (drop_bit k v) < unat v"
proof -
  have "unat (drop_bit k v) = unat v div 2 ^ k"
    by (simp add: unat_drop_bit_eq flip: drop_bit_eq_div)
  moreover have "unat v \<noteq> 0" using assms(1) by (metis drop_bit_of_0 unat_eq_zero)
  moreover have "(1::nat) < 2 ^ k" using assms(2) by (intro one_less_power) simp_all
  ultimately show ?thesis by (metis div_less_dividend neq0_conv)
qed

end
