(* ===== verification/Wire.thy ===== *)
theory Wire
  imports Prelude
begin

text \<open>
  The wire primitives of \<open>src/storage/segment/wire.rs\<close>: the append-only byte builder
  \<open>Sink\<close>, the checked read cursor \<open>Cursor\<close>, LEB128 varints, zigzag, length-prefixed
  bytes and records. A \<open>Sink\<close> is the byte list it has built; its methods are functions
  from sink to sink. A \<open>Cursor\<close> is a record of its buffer and position; its methods are
  readers, functions from a cursor to an error or a value and the advanced cursor.

  Two interfaces are stated here and interpreted for every codec of the segment format:
  \<open>append_writer\<close> (a writer only appends) and \<open>codec\<close> (a reader stays inside its buffer
  and gives back what the writer wrote, whatever follows it).
\<close>

section \<open>Errors and readers\<close>

datatype decode_error =
    Truncated
  | Malformed string
  | UnknownTypeId u64
  | UnknownEncoding u64

record cursor =
  cur_buf :: "byte list"
  cur_pos :: nat

type_synonym ('e, 'a) reader = "cursor \<Rightarrow> 'e + 'a \<times> cursor"
type_synonym 'a rd = "(decode_error, 'a) reader"
type_synonym sink = "byte list"

text \<open>The \<open>?\<close> operator on a cursor method, and \<open>Ok\<close>/\<open>Err\<close>.\<close>

definition rbind :: "('e, 'a) reader \<Rightarrow> ('a \<Rightarrow> ('e, 'b) reader) \<Rightarrow> ('e, 'b) reader" where
  "rbind m f = (\<lambda>c. case m c of Inl e \<Rightarrow> Inl e | Inr (x, c') \<Rightarrow> f x c')"

definition rret :: "'a \<Rightarrow> ('e, 'a) reader" where
  "rret x = (\<lambda>c. Inr (x, c))"

definition rerr :: "'e \<Rightarrow> ('e, 'a) reader" where
  "rerr e = (\<lambda>c. Inl e)"

text \<open>A loop \<open>for _ in 0..n { v.push(read()?) }\<close>.\<close>

fun read_n :: "('e, 'a) reader \<Rightarrow> nat \<Rightarrow> ('e, 'a list) reader" where
  "read_n r 0 = rret []"
| "read_n r (Suc n) = rbind r (\<lambda>x. rbind (read_n r n) (\<lambda>xs. rret (x # xs)))"

section \<open>Constants and zigzag\<close>

definition MAX_DECODE_ROWS :: nat where
  "MAX_DECODE_ROWS = 2 ^ 22"

definition MAX_DECODE_BYTES :: nat where
  "MAX_DECODE_BYTES = 2 ^ 30"

definition zigzag :: "i64 \<Rightarrow> u64" where
  "zigzag v = push_bit 1 v XOR signed_drop_bit 63 v"

definition unzigzag :: "u64 \<Rightarrow> i64" where
  "unzigzag v = drop_bit 1 v XOR - (v AND 1)"

section \<open>Little-endian bytes\<close>

definition to_le_bytes :: "'a::len word \<Rightarrow> byte list" where
  "to_le_bytes v = map (\<lambda>i. ucast (drop_bit (8 * i) v)) [0..<LENGTH('a) div 8]"

definition from_le_bytes :: "byte list \<Rightarrow> 'a::len word" where
  "from_le_bytes bs = foldr (\<lambda>b acc. push_bit 8 acc OR ucast b) bs 0"

section \<open>Sink\<close>

definition sink_new :: sink where
  "sink_new = []"

definition sink_u8 :: "byte \<Rightarrow> sink \<Rightarrow> sink" where
  "sink_u8 v s = s @ [v]"

definition sink_u32 :: "u32 \<Rightarrow> sink \<Rightarrow> sink" where
  "sink_u32 v s = s @ to_le_bytes v"

definition sink_u64 :: "u64 \<Rightarrow> sink \<Rightarrow> sink" where
  "sink_u64 v s = s @ to_le_bytes v"

definition sink_i32 :: "i32 \<Rightarrow> sink \<Rightarrow> sink" where
  "sink_i32 v s = s @ to_le_bytes v"

definition sink_i64 :: "i64 \<Rightarrow> sink \<Rightarrow> sink" where
  "sink_i64 v s = s @ to_le_bytes v"

definition sink_i128 :: "i128 \<Rightarrow> sink \<Rightarrow> sink" where
  "sink_i128 v s = s @ to_le_bytes v"

function sink_uvarint :: "u64 \<Rightarrow> sink \<Rightarrow> sink" where
  "sink_uvarint v s =
     (let byte = ucast (v AND 0x7f) :: byte; v' = drop_bit 7 v
      in if v' = 0 then s @ [byte] else sink_uvarint v' (s @ [byte OR 0x80]))"
  by pat_completeness auto
termination
  by (relation "measure (\<lambda>(v, s). unat v)") (auto intro: unat_drop_bit_less)

declare sink_uvarint.simps [simp del]

definition sink_svarint :: "i64 \<Rightarrow> sink \<Rightarrow> sink" where
  "sink_svarint v s = sink_uvarint (zigzag v) s"

definition sink_raw :: "byte list \<Rightarrow> sink \<Rightarrow> sink" where
  "sink_raw b s = s @ b"

definition sink_bytes :: "byte list \<Rightarrow> sink \<Rightarrow> sink" where
  "sink_bytes b s = sink_raw b (sink_uvarint (word_of_nat (length b)) s)"

definition sink_str :: "rstr \<Rightarrow> sink \<Rightarrow> sink" where
  "sink_str b s = sink_bytes b s"

definition sink_record :: "(sink \<Rightarrow> sink) \<Rightarrow> sink \<Rightarrow> sink" where
  "sink_record f s = sink_bytes (f sink_new) s"

section \<open>Cursor\<close>

definition cur_new :: "byte list \<Rightarrow> cursor" where
  "cur_new b = \<lparr>cur_buf = b, cur_pos = 0\<rparr>"

definition cur_remaining :: "cursor \<Rightarrow> nat" where
  "cur_remaining c = length (cur_buf c) - cur_pos c"

definition cur_is_empty :: "cursor \<Rightarrow> bool" where
  "cur_is_empty c \<longleftrightarrow> cur_remaining c = 0"

definition cur_advance :: "nat \<Rightarrow> cursor \<Rightarrow> cursor" where
  "cur_advance n c = c\<lparr>cur_pos := cur_pos c + n\<rparr>"

definition cur_take :: "nat \<Rightarrow> byte list rd" where
  "cur_take n c =
     (if n > cur_remaining c then Inl Truncated
      else Inr (take n (drop (cur_pos c) (cur_buf c)), cur_advance n c))"

definition cur_u8 :: "byte rd" where
  "cur_u8 = rbind (cur_take 1) (\<lambda>s. rret (s ! 0))"

definition cur_u32 :: "u32 rd" where
  "cur_u32 = rbind (cur_take 4) (\<lambda>s. rret (from_le_bytes s))"

definition cur_u64 :: "u64 rd" where
  "cur_u64 = rbind (cur_take 8) (\<lambda>s. rret (from_le_bytes s))"

definition cur_i32 :: "i32 rd" where
  "cur_i32 = rbind (cur_take 4) (\<lambda>s. rret (from_le_bytes s))"

definition cur_i64 :: "i64 rd" where
  "cur_i64 = rbind (cur_take 8) (\<lambda>s. rret (from_le_bytes s))"

definition cur_i128 :: "i128 rd" where
  "cur_i128 = rbind (cur_take 16) (\<lambda>s. rret (from_le_bytes s))"

function uvarint_loop :: "nat \<Rightarrow> u64 \<Rightarrow> u64 rd" where
  "uvarint_loop i result c =
     (if i < 10
      then (case cur_u8 c of
              Inl e \<Rightarrow> Inl e
            | Inr (byte, c') \<Rightarrow>
                if i = 9 \<and> byte > 1 then Inl (Malformed ''varint overflow'')
                else let result' = result OR push_bit (7 * i) (ucast (byte AND 0x7f))
                     in if byte AND 0x80 = 0 then Inr (result', c')
                        else uvarint_loop (Suc i) result' c')
      else Inl (Malformed ''varint overflow''))"
  by pat_completeness auto
termination
  by (relation "measure (\<lambda>(i, r, c). 10 - i)") auto

declare uvarint_loop.simps [simp del]

definition cur_uvarint :: "u64 rd" where
  "cur_uvarint = uvarint_loop 0 0"

definition cur_svarint :: "i64 rd" where
  "cur_svarint = rbind cur_uvarint (\<lambda>v. rret (unzigzag v))"

definition cur_bytes :: "byte list rd" where
  "cur_bytes = rbind cur_uvarint (\<lambda>len. cur_take (unat len))"

definition cur_raw :: "nat \<Rightarrow> byte list rd" where
  "cur_raw n = cur_take n"

text \<open>
  \<open>std::str::from_utf8\<close>: the well-formed byte sequences of Unicode's table 3-7, no
  overlong form, no surrogate, nothing above U+10FFFF.
\<close>

definition cont_byte :: "byte \<Rightarrow> bool" where
  "cont_byte b \<longleftrightarrow> 0x80 \<le> b \<and> b \<le> 0xBF"

fun utf8_valid :: "byte list \<Rightarrow> bool" where
  "utf8_valid [] = True"
| "utf8_valid (a # bs) =
     (if a < 0x80 then utf8_valid bs
      else if 0xC2 \<le> a \<and> a \<le> 0xDF then
        (case bs of b # r \<Rightarrow> cont_byte b \<and> utf8_valid r | _ \<Rightarrow> False)
      else if 0xE0 \<le> a \<and> a \<le> 0xEF then
        (case bs of
           b # c # r \<Rightarrow>
             (if a = 0xE0 then 0xA0 \<le> b \<and> b \<le> 0xBF
              else if a = 0xED then 0x80 \<le> b \<and> b \<le> 0x9F else cont_byte b)
             \<and> cont_byte c \<and> utf8_valid r
         | _ \<Rightarrow> False)
      else if 0xF0 \<le> a \<and> a \<le> 0xF4 then
        (case bs of
           b # c # d # r \<Rightarrow>
             (if a = 0xF0 then 0x90 \<le> b \<and> b \<le> 0xBF
              else if a = 0xF4 then 0x80 \<le> b \<and> b \<le> 0x8F else cont_byte b)
             \<and> cont_byte c \<and> cont_byte d \<and> utf8_valid r
         | _ \<Rightarrow> False)
      else False)"

definition cur_str :: "rstr rd" where
  "cur_str = rbind cur_bytes
     (\<lambda>b. if utf8_valid b then rret b else rerr (Malformed ''invalid utf-8''))"

definition cur_record :: "cursor rd" where
  "cur_record = rbind cur_bytes (\<lambda>b. rret (cur_new b))"

definition cur_guard_len :: "u64 \<Rightarrow> nat \<Rightarrow> nat rd" where
  "cur_guard_len n min_bytes_each c =
     (if unat n > MAX_DECODE_ROWS then Inl (Malformed ''row count exceeds MAX_DECODE_ROWS'')
      else let need = unat n * min_bytes_each
           in if need \<ge> 2 ^ 64 then Inl Truncated
              else if need > cur_remaining c then Inl Truncated
              else Inr (unat n, c))"

section \<open>Basic laws of cursors\<close>

text \<open>
  \<open>cursor_at c bs\<close>: the position is inside the buffer and \<open>bs\<close> is what is left to read.
\<close>

definition cursor_ok :: "cursor \<Rightarrow> bool" where
  "cursor_ok c \<longleftrightarrow> cur_pos c \<le> length (cur_buf c)"

definition cursor_at :: "cursor \<Rightarrow> byte list \<Rightarrow> bool" where
  "cursor_at c bs \<longleftrightarrow> cursor_ok c \<and> drop (cur_pos c) (cur_buf c) = bs"

definition rd_safe :: "('e, 'a) reader \<Rightarrow> bool" where
  "rd_safe r \<longleftrightarrow> (\<forall>c x c'. cursor_ok c \<longrightarrow> r c = Inr (x, c') \<longrightarrow>
     cursor_ok c' \<and> cur_buf c' = cur_buf c \<and> cur_pos c \<le> cur_pos c')"

lemma rd_safeI:
  "(\<And>c x c'. cursor_ok c \<Longrightarrow> r c = Inr (x, c') \<Longrightarrow>
     cursor_ok c' \<and> cur_buf c' = cur_buf c \<and> cur_pos c \<le> cur_pos c') \<Longrightarrow> rd_safe r"
  unfolding rd_safe_def by blast

lemma rd_safeD:
  "rd_safe r \<Longrightarrow> cursor_ok c \<Longrightarrow> r c = Inr (x, c') \<Longrightarrow>
     cursor_ok c' \<and> cur_buf c' = cur_buf c \<and> cur_pos c \<le> cur_pos c'"
  unfolding rd_safe_def by blast

lemma cursor_at_new [simp]: "cursor_at (cur_new b) b"
  by (simp add: cursor_at_def cursor_ok_def cur_new_def)

lemma cursor_ok_new [simp]: "cursor_ok (cur_new b)"
  by (simp add: cursor_ok_def cur_new_def)

lemma cursor_at_remaining: "cursor_at c bs \<Longrightarrow> cur_remaining c = length bs"
  by (auto simp: cursor_at_def cursor_ok_def cur_remaining_def)

lemma cursor_at_advance:
  "cursor_at c (xs @ ys) \<Longrightarrow> cursor_at (cur_advance (length xs) c) ys"
  by (auto simp: cursor_at_def cursor_ok_def cur_advance_def drop_eq_append_le drop_eq_appendD)

lemma cur_advance_add [simp]:
  "cur_advance m (cur_advance n c) = cur_advance (n + m) c"
  "cur_advance 0 c = c"
  by (simp_all add: cur_advance_def add.assoc)

lemma rret_apply [simp]: "rret x c = Inr (x, c)"
  by (simp add: rret_def)

lemma rerr_apply [simp]: "rerr e c = Inl e"
  by (simp add: rerr_def)

lemma rbind_Inr: "m c = Inr (x, c') \<Longrightarrow> rbind m f c = f x c'"
  by (simp add: rbind_def)

lemma rbind_Inl: "m c = Inl e \<Longrightarrow> rbind m f c = Inl e"
  by (simp add: rbind_def)

lemma rbind_eq_Inr_iff:
  "rbind m f c = Inr y \<longleftrightarrow> (\<exists>x c'. m c = Inr (x, c') \<and> f x c' = Inr y)"
  by (auto simp: rbind_def split: sum.splits prod.splits)

lemma cur_take_at:
  "cursor_at c (xs @ ys) \<Longrightarrow> length xs = n \<Longrightarrow> cur_take n c = Inr (xs, cur_advance n c)"
  by (auto simp: cur_take_def cursor_at_remaining) (simp add: cursor_at_def)

lemma cur_take_truncated:
  "cursor_at c bs \<Longrightarrow> length bs < n \<Longrightarrow> cur_take n c = Inl Truncated"
  by (simp add: cur_take_def cursor_at_remaining)

section \<open>Readers stay inside their buffer\<close>

lemma rd_safe_rret [rd_safe_intros]: "rd_safe (rret x)"
  by (simp add: rd_safe_def)

lemma rd_safe_rerr [rd_safe_intros]: "rd_safe (rerr e)"
  by (simp add: rd_safe_def)

lemma rd_safe_rbind [rd_safe_intros]:
  "rd_safe m \<Longrightarrow> (\<And>x. rd_safe (f x)) \<Longrightarrow> rd_safe (rbind m f)"
  by (rule rd_safeI) (fastforce simp: rbind_eq_Inr_iff dest: rd_safeD)

lemma rd_safe_if [rd_safe_intros]:
  "(b \<Longrightarrow> rd_safe m) \<Longrightarrow> (\<not> b \<Longrightarrow> rd_safe m') \<Longrightarrow> rd_safe (if b then m else m')"
  by simp

lemma rd_safe_take [rd_safe_intros]: "rd_safe (cur_take n)"
  by (rule rd_safeI)
    (auto simp: cur_take_def cur_remaining_def cur_advance_def cursor_ok_def split: if_splits)

lemma rd_safe_cases [rd_safe_intros]:
  "rd_safe a \<Longrightarrow> (\<And>y. rd_safe (f y)) \<Longrightarrow> rd_safe (case x of None \<Rightarrow> a | Some y \<Rightarrow> f y)"
  "(\<And>y z. rd_safe (g y z)) \<Longrightarrow> rd_safe (case p of (y, z) \<Rightarrow> g y z)"
  "rd_safe a \<Longrightarrow> (\<And>y ys. rd_safe (h y ys)) \<Longrightarrow> rd_safe (case l of [] \<Rightarrow> a | y # ys \<Rightarrow> h y ys)"
  "(\<And>e. rd_safe (u e)) \<Longrightarrow> (\<And>v. rd_safe (w v)) \<Longrightarrow> rd_safe (case r of Inl e \<Rightarrow> u e | Inr v \<Rightarrow> w v)"
  by (auto split: option.splits prod.splits list.splits sum.splits)

lemma rd_safe_guard_len [rd_safe_intros]: "rd_safe (cur_guard_len n m)"
  by (rule rd_safeI) (auto simp: cur_guard_len_def Let_def split: if_splits)

lemma rd_safe_read_n [rd_safe_intros]: "rd_safe r \<Longrightarrow> rd_safe (read_n r n)"
  by (induction n) (auto intro!: rd_safe_intros)

lemma rd_safe_u8 [rd_safe_intros]: "rd_safe cur_u8"
  unfolding cur_u8_def by (intro rd_safe_intros)

lemma rd_safe_u32 [rd_safe_intros]: "rd_safe cur_u32"
  unfolding cur_u32_def by (intro rd_safe_intros)

lemma rd_safe_u64 [rd_safe_intros]: "rd_safe cur_u64"
  unfolding cur_u64_def by (intro rd_safe_intros)

lemma rd_safe_i32 [rd_safe_intros]: "rd_safe cur_i32"
  unfolding cur_i32_def by (intro rd_safe_intros)

lemma rd_safe_i64 [rd_safe_intros]: "rd_safe cur_i64"
  unfolding cur_i64_def by (intro rd_safe_intros)

lemma rd_safe_i128 [rd_safe_intros]: "rd_safe cur_i128"
  unfolding cur_i128_def by (intro rd_safe_intros)

lemma rd_safe_uvarint_loop [rd_safe_intros]: "rd_safe (uvarint_loop i r)"
proof (rule rd_safeI)
  fix c x c'
  assume "cursor_ok c" "uvarint_loop i r c = Inr (x, c')"
  then show "cursor_ok c' \<and> cur_buf c' = cur_buf c \<and> cur_pos c \<le> cur_pos c'"
  proof (induction i r c rule: uvarint_loop.induct)
    case (1 i r c)
    from "1.prems"(2) obtain b c1 where b: "cur_u8 c = Inr (b, c1)"
      by (subst (asm) uvarint_loop.simps) (auto split: if_splits sum.splits prod.splits)
    note s = rd_safeD [OF rd_safe_u8 "1.prems"(1) b]
    show ?case
      using "1.prems"(2) b s "1.IH" [OF _ b refl]
      unfolding uvarint_loop.simps [of i r c]
      by (fastforce simp: Let_def split: if_splits)
  qed
qed

lemma rd_safe_uvarint [rd_safe_intros]: "rd_safe cur_uvarint"
  unfolding cur_uvarint_def by (intro rd_safe_intros)

lemma rd_safe_svarint [rd_safe_intros]: "rd_safe cur_svarint"
  unfolding cur_svarint_def by (intro rd_safe_intros)

lemma rd_safe_bytes [rd_safe_intros]: "rd_safe cur_bytes"
  unfolding cur_bytes_def by (intro rd_safe_intros)

lemma rd_safe_raw [rd_safe_intros]: "rd_safe (cur_raw n)"
  unfolding cur_raw_def by (intro rd_safe_intros)

lemma rd_safe_str [rd_safe_intros]: "rd_safe cur_str"
  unfolding cur_str_def by (intro rd_safe_intros)

lemma rd_safe_record [rd_safe_intros]: "rd_safe cur_record"
  unfolding cur_record_def by (intro rd_safe_intros)

section \<open>Interfaces\<close>

text \<open>A writer that only appends: what it adds does not depend on what is there.\<close>

locale append_writer =
  fixes enc :: "'a \<Rightarrow> sink \<Rightarrow> sink"
  assumes enc_append: "enc x s = s @ enc x []"
begin

lemma fold_concat: "fold enc xs s = s @ concat (map (\<lambda>x. enc x []) xs)"
proof (induction xs arbitrary: s)
  case Nil
  then show ?case by simp
next
  case (Cons x xs)
  have "fold enc (x # xs) s = enc x s @ concat (map (\<lambda>x. enc x []) xs)"
    by (simp add: Cons.IH)
  also have "enc x s = s @ enc x []" by (rule enc_append)
  finally show ?case by simp
qed

lemma fold_append: "fold enc xs s = s @ fold enc xs []"
  using fold_concat [of xs s] fold_concat [of xs "[]"] by simp

end

text \<open>
  A codec: the reader never leaves its buffer, and where the cursor stands at what the
  writer wrote for a value in the codec's domain, it returns that value and stops right
  after it, whatever bytes follow.
\<close>

locale codec = append_writer enc
  for enc :: "'a \<Rightarrow> sink \<Rightarrow> sink" +
  fixes dec :: "'a rd" and dom_ok :: "'a \<Rightarrow> bool"
  assumes dec_safe: "rd_safe dec"
    and dec_enc: "dom_ok x \<Longrightarrow> cursor_at c (enc x [] @ ys) \<Longrightarrow>
      dec c = Inr (x, cur_advance (length (enc x [])) c)"
begin

lemma dec_fresh:
  assumes "dom_ok x"
  shows "dec (cur_new (enc x [] @ ys)) = Inr (x, cur_advance (length (enc x [])) (cur_new (enc x [] @ ys)))"
  by (rule dec_enc [OF assms, of _ ys]) simp

text \<open>No encoding of a value is a proper prefix of another's: what is written parses one way.\<close>

lemma enc_prefix_free:
  assumes "dom_ok x" "dom_ok y" "enc x [] @ xs = enc y [] @ ys"
  shows "x = y \<and> xs = ys"
proof -
  have "x = y"
    using dec_fresh [OF assms(1), of xs] dec_fresh [OF assms(2), of ys] assms(3) by simp
  then show ?thesis using assms(3) by simp
qed

lemma read_n_enc:
  assumes "\<forall>x \<in> set xs. dom_ok x" "cursor_at c (fold enc xs [] @ ys)"
  shows "read_n dec (length xs) c = Inr (xs, cur_advance (length (fold enc xs [])) c)"
  using assms
proof (induction xs arbitrary: c)
  case Nil
  then show ?case by simp
next
  case (Cons x xs)
  let ?e = "enc x []" and ?r = "fold enc xs []"
  have split: "fold enc (x # xs) [] = ?e @ ?r" using fold_append [of xs ?e] by simp
  with Cons.prems have at: "cursor_at c (?e @ ?r @ ys)" by simp
  from Cons.prems have d: "dec c = Inr (x, cur_advance (length ?e) c)"
    using dec_enc [OF _ at] by simp
  from cursor_at_advance [OF at] Cons.prems
  have "read_n dec (length xs) (cur_advance (length ?e) c)
      = Inr (xs, cur_advance (length ?r) (cur_advance (length ?e) c))"
    by (intro Cons.IH) simp_all
  with d split show ?case by (simp add: rbind_def)
qed

end

text \<open>A codec of a value's image under an injection is a codec of the value.\<close>

lemma codec_map:
  assumes "codec enc dec D" "\<And>x. D' x \<Longrightarrow> D (f x) \<and> g (f x) = x"
  shows "codec (\<lambda>x. enc (f x)) (rbind dec (\<lambda>v. rret (g v))) D'"
proof
  show "enc (f x) s = s @ enc (f x) []" for x s
    by (rule append_writer.enc_append [OF codec.axioms(1) [OF assms(1)]])
  show "rd_safe (rbind dec (\<lambda>v. rret (g v)))"
    by (intro rd_safe_intros codec.dec_safe [OF assms(1)])
  show "rbind dec (\<lambda>v. rret (g v)) c = Inr (x, cur_advance (length (enc (f x) [])) c)"
    if "D' x" "cursor_at c (enc (f x) [] @ ys)" for x c ys
    using assms(2) [OF that(1)] codec.dec_enc [OF assms(1) _ that(2)] by (simp add: rbind_def)
qed

section \<open>Fixed-width integers\<close>

lemma bit_from_le_bytes:
  "bit (from_le_bytes bs :: 'a::len word) k \<longleftrightarrow>
     k < LENGTH('a) \<and> k div 8 < length bs \<and> bit (bs ! (k div 8)) (k mod 8)"
proof (induction bs arbitrary: k)
  case Nil
  then show ?case by (simp add: from_le_bytes_def)
next
  case (Cons b bs)
  have eq: "(from_le_bytes (b # bs) :: 'a word) = push_bit 8 (from_le_bytes bs) OR ucast b"
    by (simp add: from_le_bytes_def)
  show ?case
  proof (cases "k < 8")
    case True
    then show ?thesis by (simp add: eq bit_simps)
  next
    case False
    then have "k div 8 = Suc ((k - 8) div 8)" and "(k - 8) mod 8 = k mod 8"
      by (simp_all add: le_div_geq le_mod_geq)
    with False show ?thesis
      by (auto simp: eq bit_simps Cons.IH dest: bit_byte_less)
  qed
qed

lemma length_to_le_bytes [simp]: "length (to_le_bytes (v :: 'a::len word)) = LENGTH('a) div 8"
  by (simp add: to_le_bytes_def)

lemma from_to_le_bytes:
  assumes "8 dvd LENGTH('a::len)"
  shows "from_le_bytes (to_le_bytes (v :: 'a word)) = v"
proof (rule bit_word_eqI)
  fix k
  assume k: "k < LENGTH('a)"
  with assms have "k div 8 < LENGTH('a) div 8" by auto
  with k show "bit (from_le_bytes (to_le_bytes v) :: 'a word) k = bit v k"
    by (simp add: bit_from_le_bytes to_le_bytes_def bit_simps)
qed

lemma to_from_le_bytes:
  assumes "length bs = LENGTH('a::len) div 8" "8 dvd LENGTH('a)"
  shows "to_le_bytes (from_le_bytes bs :: 'a word) = bs"
proof (rule nth_equalityI)
  fix i
  assume "i < length (to_le_bytes (from_le_bytes bs :: 'a word))"
  then have i: "i < LENGTH('a) div 8" by simp
  show "to_le_bytes (from_le_bytes bs :: 'a word) ! i = bs ! i"
  proof (rule bit_word_eqI)
    fix k :: nat
    assume k: "k < LENGTH(8)"
    with i assms have "8 * i + k < LENGTH('a)" by auto
    with i k assms show "bit (to_le_bytes (from_le_bytes bs :: 'a word) ! i) k = bit (bs ! i) k"
      by (simp add: to_le_bytes_def bit_simps bit_from_le_bytes)
  qed
qed (simp add: assms)

lemma cur_fixed_at:
  assumes "cursor_at c (to_le_bytes (v :: 'a::len word) @ ys)" "8 dvd LENGTH('a)"
    "LENGTH('a) div 8 = n"
  shows "rbind (cur_take n) (\<lambda>s. rret (from_le_bytes s)) c = Inr (v, cur_advance n c)"
  using assms cur_take_at [OF assms(1), of n] by (simp add: rbind_def from_to_le_bytes)

interpretation u8_codec: codec sink_u8 cur_u8 "\<lambda>_. True"
proof
  fix c ys and x :: byte
  assume "cursor_at c (sink_u8 x [] @ ys)"
  then have "cur_take 1 c = Inr ([x], cur_advance 1 c)"
    using cur_take_at [of c "[x]" ys 1] by (simp add: sink_u8_def)
  then show "cur_u8 c = Inr (x, cur_advance (length (sink_u8 x [])) c)"
    by (simp add: cur_u8_def rbind_def sink_u8_def)
qed (auto simp: sink_u8_def intro: rd_safe_intros)

interpretation u32_codec: codec sink_u32 cur_u32 "\<lambda>_. True"
  by unfold_locales (auto simp: sink_u32_def cur_u32_def cur_fixed_at intro!: rd_safe_intros)

interpretation u64_codec: codec sink_u64 cur_u64 "\<lambda>_. True"
  by unfold_locales (auto simp: sink_u64_def cur_u64_def cur_fixed_at intro!: rd_safe_intros)

interpretation i32_codec: codec sink_i32 cur_i32 "\<lambda>_. True"
  by unfold_locales (auto simp: sink_i32_def cur_i32_def cur_fixed_at intro!: rd_safe_intros)

interpretation i64_codec: codec sink_i64 cur_i64 "\<lambda>_. True"
  by unfold_locales (auto simp: sink_i64_def cur_i64_def cur_fixed_at intro!: rd_safe_intros)

interpretation i128_codec: codec sink_i128 cur_i128 "\<lambda>_. True"
  by unfold_locales (auto simp: sink_i128_def cur_i128_def cur_fixed_at intro!: rd_safe_intros)

section \<open>Varints\<close>

lemma mask7: "(0x7f :: 'a::len word) = mask 7"
  by (simp add: mask_eq_exp_minus_1)

lemma bit_0x80: "bit (0x80 :: 'a::len word) n \<longleftrightarrow> n = 7 \<and> 7 < LENGTH('a)"
proof -
  have "(0x80 :: 'a word) = push_bit 7 1" by simp
  then have "bit (0x80 :: 'a word) n = bit (push_bit 7 (1 :: 'a word)) n" by (rule arg_cong)
  also have "\<dots> \<longleftrightarrow> n = 7 \<and> 7 < LENGTH('a)" unfolding bit_push_bit_iff by (auto simp: bit_1_iff)
  finally show ?thesis .
qed

lemma low7_byte:
  fixes v :: u64
  shows "(ucast (v AND 0x7f) :: byte) AND 0x7f = ucast (v AND 0x7f)"
    and "((ucast (v AND 0x7f) :: byte) OR 0x80) AND 0x7f = ucast (v AND 0x7f)"
    and "(ucast (v AND 0x7f) :: byte) AND 0x80 = 0"
    and "((ucast (v AND 0x7f) :: byte) OR 0x80) AND 0x80 = 0x80"
  unfolding mask7
  by (rule bit_word_eqI,
      simp only: bit_and_iff bit_or_iff bit_0x80 bit_mask_iff bit_ucast_iff possible_bit_word,
      fastforce)+

lemma ucast_low7: "(ucast (ucast (v AND 0x7f) :: byte) :: u64) = (v :: u64) AND 0x7f"
  unfolding mask7 by (rule bit_word_eqI) (auto simp: bit_simps)

lemma or_push_low7:
  fixes v :: u64
  shows "push_bit (7 * i) (v AND 0x7f) OR push_bit (7 * Suc i) (drop_bit 7 v) = push_bit (7 * i) v"
  unfolding mask7
proof (rule bit_word_eqI)
  fix k
  assume "k < LENGTH(64)"
  then show "bit (push_bit (7 * i) (v AND mask 7) OR push_bit (7 * Suc i) (drop_bit 7 v)) k
      = bit (push_bit (7 * i) v) k"
    by (cases "k - 7 * i < 7") (auto simp: bit_simps)
qed

lemma low7_of_small:
  fixes v :: u64
  assumes "drop_bit 7 v = 0"
  shows "v AND 0x7f = v"
  unfolding mask7
proof (rule bit_word_eqI)
  fix k
  from assms have "bit (drop_bit 7 v) (k - 7) = bit (0 :: u64) (k - 7)" by simp
  then show "bit (v AND mask 7) k = bit v k"
    by (cases "k < 7") (auto simp: bit_simps)
qed

lemma sink_uvarint_append: "sink_uvarint v s = s @ sink_uvarint v []"
proof (induction "unat v" arbitrary: v s rule: less_induct)
  case less
  show ?case
  proof (cases "drop_bit 7 v = 0")
    case True
    then show ?thesis by (simp add: sink_uvarint.simps [of v] Let_def)
  next
    case False
    let ?b = "(ucast (v AND 0x7f) :: byte) OR 0x80"
    have IH: "sink_uvarint (drop_bit 7 v) t = t @ sink_uvarint (drop_bit 7 v) []" for t
      using False by (intro less unat_drop_bit_less) simp_all
    have "sink_uvarint v s = sink_uvarint (drop_bit 7 v) (s @ [?b])"
      using False by (simp add: sink_uvarint.simps [of v] Let_def)
    also have "\<dots> = s @ ([?b] @ sink_uvarint (drop_bit 7 v) [])" by (subst IH) simp
    also have "[?b] @ sink_uvarint (drop_bit 7 v) [] = sink_uvarint (drop_bit 7 v) [?b]"
      by (subst (2) IH) simp
    also have "\<dots> = sink_uvarint v []"
      using False by (simp add: sink_uvarint.simps [of v "[]"] Let_def)
    finally show ?thesis .
  qed
qed

lemma sink_uvarint_unfold:
  "sink_uvarint v [] =
     (if drop_bit 7 v = 0 then [ucast (v AND 0x7f)]
      else (ucast (v AND 0x7f) OR 0x80) # sink_uvarint (drop_bit 7 v) [])"
  by (subst sink_uvarint.simps) (simp add: Let_def sink_uvarint_append [of _ "[_]"])

lemma length_sink_uvarint_pos: "0 < length (sink_uvarint v [])"
  by (subst sink_uvarint_unfold) simp

lemma uvarint_loop_enc:
  assumes "cursor_at c (sink_uvarint v [] @ ys)" "i < 10" "\<And>k. bit v k \<Longrightarrow> k + 7 * i < 64"
  shows "uvarint_loop i r c =
    Inr (r OR push_bit (7 * i) v, cur_advance (length (sink_uvarint v [])) c)"
  using assms
proof (induction "unat v" arbitrary: v i r c rule: less_induct)
  case less
  let ?b = "ucast (v AND 0x7f) :: byte"
  show ?case
  proof (cases "drop_bit 7 v = 0")
    case True
    then have at: "cursor_at c (sink_u8 ?b [] @ ys)"
      using less.prems(1) by (simp add: sink_uvarint_unfold [of v] sink_u8_def)
    have v: "v AND 0x7f = v" using True by (rule low7_of_small)
    have ninth: "\<not> (i = 9 \<and> 1 < ?b)"
    proof
      assume a: "i = 9 \<and> 1 < ?b"
      then have "bit v k \<Longrightarrow> k < 1" for k using less.prems(3) [of k] by simp
      then have "v = v AND 1" by (intro bit_word_eqI) (auto simp: bit_simps)
      then have "v = 0 \<or> v = 1" by (metis and_one_eq mod2_eq_if)
      then show False using a v by auto
    qed
    from u8_codec.dec_enc [OF _ at] ninth True v low7_byte [of v] ucast_low7 [of v] show ?thesis
      by (subst uvarint_loop.simps)
        (simp add: less.prems(2) Let_def sink_u8_def sink_uvarint_unfold [of v])
  next
    case False
    then have at: "cursor_at c (sink_u8 (?b OR 0x80) [] @ sink_uvarint (drop_bit 7 v) [] @ ys)"
      using less.prems(1) by (simp add: sink_uvarint_unfold [of v] sink_u8_def)
    from False obtain k where "bit (drop_bit 7 v) k" by (metis bit_eq_iff bit_0_eq bot_apply bot_bool_def)
    then have "7 + k + 7 * i < 64" using less.prems(3) [of "7 + k"] by (simp add: bit_simps)
    then have i: "Suc i < 10" by simp
    have step: "uvarint_loop (Suc i) r' (cur_advance 1 c) =
        Inr (r' OR push_bit (7 * Suc i) (drop_bit 7 v),
             cur_advance (length (sink_uvarint (drop_bit 7 v) [])) (cur_advance 1 c))" for r'
    proof (rule less.hyps [OF _ _ i])
      show "unat (drop_bit 7 v) < unat v" using False by (intro unat_drop_bit_less) simp_all
      show "cursor_at (cur_advance 1 c) (sink_uvarint (drop_bit 7 v) [] @ ys)"
        using cursor_at_advance [OF at] by (simp add: sink_u8_def)
      show "bit (drop_bit 7 v) k \<Longrightarrow> k + 7 * Suc i < 64" for k
        using less.prems(3) [of "7 + k"] by (simp add: bit_simps)
    qed
    let ?r' = "r OR push_bit (7 * i) (v AND 0x7f)"
    have "uvarint_loop i r c = uvarint_loop (Suc i) ?r' (cur_advance 1 c)"
      using u8_codec.dec_enc [OF _ at] i
      by (subst uvarint_loop.simps) (simp add: Let_def sink_u8_def low7_byte ucast_low7)
    also note step
    also have "?r' OR push_bit (7 * Suc i) (drop_bit 7 v) = r OR push_bit (7 * i) v"
      by (simp only: or.assoc or_push_low7)
    finally show ?thesis using False by (simp add: sink_uvarint_unfold [of v])
  qed
qed

interpretation uvarint_codec: codec sink_uvarint cur_uvarint "\<lambda>_. True"
proof
  fix c ys v
  assume "cursor_at c (sink_uvarint v [] @ ys)"
  then show "cur_uvarint c = Inr (v, cur_advance (length (sink_uvarint v [])) c)"
    using uvarint_loop_enc [of c v ys 0 0] by (simp add: cur_uvarint_def bit_u64_less)
qed (rule sink_uvarint_append rd_safe_uvarint)+

lemma sdrop63: "signed_drop_bit 63 (v :: u64) = (if bit v 63 then - 1 else 0)"
  by (rule bit_word_eqI) (auto simp: bit_signed_drop_bit_iff not_le dest: bit_u64_less)

lemma and_one: "(v :: u64) AND 1 = (if bit v 0 then 1 else 0)"
  by (simp add: and_one_eq bit_0 odd_iff_mod_2_eq_one even_iff_mod_2_eq_zero)

lemma bit_zigzag: "bit (zigzag v) j \<longleftrightarrow> j < 64 \<and> ((0 < j \<and> bit v (j - 1)) \<noteq> bit v 63)"
  unfolding zigzag_def sdrop63 bit_xor_iff bit_push_bit_iff by (auto simp: Suc_le_eq)

lemma bit_unzigzag: "bit (unzigzag u) j \<longleftrightarrow> j < 64 \<and> (bit u (Suc j) \<noteq> bit u 0)"
  by (auto simp: unzigzag_def and_one bit_simps dest: bit_u64_less)

lemma unzigzag_zigzag: "unzigzag (zigzag v) = v"
proof (rule bit_word_eqI)
  fix k
  assume "k < LENGTH(64)"
  then consider "k < 63" | "k = 63" by fastforce
  then show "bit (unzigzag (zigzag v)) k = bit v k"
    by cases (auto simp: bit_zigzag bit_unzigzag)
qed

lemma zigzag_unzigzag: "zigzag (unzigzag u) = u"
proof (rule bit_word_eqI)
  fix k
  assume "k < LENGTH(64)"
  then show "bit (zigzag (unzigzag u)) k = bit u k"
    by (cases k) (auto simp: bit_zigzag bit_unzigzag dest: bit_u64_less)
qed

interpretation svarint_codec: codec sink_svarint cur_svarint "\<lambda>_. True"
proof
  fix c ys v
  assume "cursor_at c (sink_svarint v [] @ ys)"
  then show "cur_svarint c = Inr (v, cur_advance (length (sink_svarint v [])) c)"
    using uvarint_codec.dec_enc [where x = "zigzag v"]
    by (simp add: sink_svarint_def cur_svarint_def rbind_def unzigzag_zigzag)
next
  show "sink_svarint v s = s @ sink_svarint v []" for v s
    unfolding sink_svarint_def by (rule sink_uvarint_append)
qed (rule rd_safe_svarint)

text \<open>A \<open>usize\<close> written as a varint.\<close>

abbreviation sink_count :: "nat \<Rightarrow> sink \<Rightarrow> sink" where
  "sink_count n \<equiv> sink_uvarint (word_of_nat n)"

interpretation count_codec: codec sink_count "rbind cur_uvarint (\<lambda>v. rret (unat v))" "\<lambda>n. n < 2 ^ 64"
  by (rule codec_map [OF uvarint_codec.codec_axioms]) simp

lemma cur_uvarint_count:
  assumes "cursor_at c (sink_count n [] @ ys)" "n < 2 ^ 64"
  shows "cur_uvarint c = Inr (word_of_nat n, cur_advance (length (sink_count n [])) c)"
    and "unat (word_of_nat n :: u64) = n"
  using uvarint_codec.dec_enc [OF _ assms(1)] assms(2) by simp_all

section \<open>Length-prefixed bytes, strings and records\<close>

lemma sink_bytes_append: "sink_bytes b s = s @ sink_bytes b []"
  unfolding sink_bytes_def sink_raw_def by (subst sink_uvarint_append) simp

interpretation bytes_codec: codec sink_bytes cur_bytes "\<lambda>b. length b < 2 ^ 64"
proof
  fix c ys and b :: "byte list"
  assume len: "length b < 2 ^ 64" and "cursor_at c (sink_bytes b [] @ ys)"
  then have at: "cursor_at c (sink_uvarint (word_of_nat (length b)) [] @ b @ ys)"
    by (simp add: sink_bytes_def sink_raw_def)
  note 1 = uvarint_codec.dec_enc [OF _ at]
  note 2 = cur_take_at [OF cursor_at_advance [OF at], of "length b"]
  from 1 2 len show "cur_bytes c = Inr (b, cur_advance (length (sink_bytes b [])) c)"
    by (simp add: cur_bytes_def rbind_def sink_bytes_def sink_raw_def)
qed (rule sink_bytes_append rd_safe_bytes)+

interpretation str_codec: codec sink_str cur_str "\<lambda>b. length b < 2 ^ 64 \<and> utf8_valid b"
proof
  fix c ys b
  assume "length b < 2 ^ 64 \<and> utf8_valid b" "cursor_at c (sink_str b [] @ ys)"
  then show "cur_str c = Inr (b, cur_advance (length (sink_str b [])) c)"
    using bytes_codec.dec_enc [of b c ys] by (simp add: sink_str_def cur_str_def rbind_def)
qed (auto simp: sink_str_def intro: sink_bytes_append rd_safe_intros)

lemma cur_str_valid: "cur_str c = Inr (b, c') \<Longrightarrow> utf8_valid b"
  by (auto simp: cur_str_def rbind_eq_Inr_iff split: if_splits)

lemma sink_record_append: "sink_record f s = s @ sink_record f []"
  unfolding sink_record_def by (rule sink_bytes_append)

lemma cur_record_at:
  assumes "cursor_at c (sink_record f [] @ ys)" "length (f []) < 2 ^ 64"
  shows "cur_record c = Inr (cur_new (f []), cur_advance (length (sink_record f [])) c)"
  using bytes_codec.dec_enc [of "f []" c ys] assms
  by (simp add: cur_record_def sink_record_def sink_new_def rbind_def)

text \<open>\<open>guard_len\<close> passes exactly the counts within both bounds, and reads nothing.\<close>

lemma guard_len_ok_iff:
  "cur_guard_len n m c = Inr (k, c') \<longleftrightarrow>
     k = unat n \<and> c' = c \<and> unat n \<le> MAX_DECODE_ROWS \<and> unat n * m < 2 ^ 64 \<and>
     unat n * m \<le> cur_remaining c"
  by (auto simp: cur_guard_len_def Let_def split: if_splits)

lemma guard_len_at:
  assumes "cursor_at c bs" "n \<le> MAX_DECODE_ROWS" "n * m \<le> length bs" "length bs < 2 ^ 64"
  shows "cur_guard_len (word_of_nat n) m c = Inr (n, c)"
proof -
  have "n < 2 ^ 64" using assms(2) by (simp add: MAX_DECODE_ROWS_def)
  then have "unat (word_of_nat n :: u64) = n" by simp
  then show ?thesis using assms by (simp add: guard_len_ok_iff cursor_at_remaining)
qed

section \<open>Properties\<close>

text \<open>The varint is the shortest one: its length is the number of seven-bit groups.\<close>

lemma uvarint_length_bounds:
  "unat v < 2 ^ (7 * length (sink_uvarint v [])) \<and>
   (length (sink_uvarint v []) = 1 \<or> 2 ^ (7 * (length (sink_uvarint v []) - 1)) \<le> unat v)"
proof (induction "unat v" arbitrary: v rule: less_induct)
  case less
  have div: "unat (drop_bit 7 v) = unat v div 128"
    unfolding unat_drop_bit_eq by (simp add: drop_bit_eq_div)
  show ?case
  proof (cases "drop_bit 7 v = 0")
    case True
    then have "unat v div 128 = 0" using div by simp
    then have "unat v < 128" by (simp add: div_eq_0_iff)
    then show ?thesis using True by (subst (1 2 3) sink_uvarint_unfold) simp
  next
    case False
    let ?l = "length (sink_uvarint (drop_bit 7 v) [])"
    have l: "length (sink_uvarint v []) = Suc ?l" using False by (subst sink_uvarint_unfold) simp
    have IH: "unat v div 128 < 2 ^ (7 * ?l)" "?l = 1 \<or> 2 ^ (7 * (?l - 1)) \<le> unat v div 128"
      using less.hyps [OF unat_drop_bit_less [OF False]] div by simp_all
    from IH(1) have "unat v < 2 ^ (7 * Suc ?l)" by (simp add: div_less_iff_less_mult power_add)
    moreover have "2 ^ (7 * ?l) \<le> unat v"
    proof (cases "?l = 1")
      case True
      have "unat v div 128 \<noteq> 0" using False div unat_eq_zero by metis
      then show ?thesis using True by (simp add: div_eq_0_iff)
    next
      case l1: False
      obtain k where k: "?l = Suc k" using length_sink_uvarint_pos by (cases ?l) auto
      with IH(2) l1 have "2 ^ (7 * k) \<le> unat v div 128" by simp
      then have "2 ^ (7 * k) * 128 \<le> unat v" by (simp add: less_eq_div_iff_mult_less_eq)
      then show ?thesis by (simp add: k power_add)
    qed
    ultimately show ?thesis by (simp add: l)
  qed
qed

lemma uvarint_length_le_10: "length (sink_uvarint v []) \<le> 10"
proof (rule ccontr)
  assume long: "\<not> length (sink_uvarint v []) \<le> 10"
  then have "(2 :: nat) ^ 70 \<le> 2 ^ (7 * (length (sink_uvarint v []) - 1))"
    by (intro power_increasing) auto
  also have "\<dots> \<le> unat v"
    using uvarint_length_bounds [of v] long by auto
  finally show False using unat_less_2p [of v] by simp
qed

text \<open>
  C18. The LEB128 varint of \<open>Sink::uvarint\<close> and \<open>Cursor::uvarint\<close>: every 64-bit value is
  written in at most ten bytes and in as few as its significant bits allow, seven to a
  byte, and the reader gives the value back and stops right behind it, whatever bytes
  follow.
\<close>

theorem uvarint_roundtrip:
  "cur_uvarint (cur_new (sink_uvarint v [] @ ys)) =
     Inr (v, cur_advance (length (sink_uvarint v [])) (cur_new (sink_uvarint v [] @ ys))) \<and>
   length (sink_uvarint v []) \<le> 10 \<and> unat v < 2 ^ (7 * length (sink_uvarint v [])) \<and>
   (length (sink_uvarint v []) = 1 \<or> 2 ^ (7 * (length (sink_uvarint v []) - 1)) \<le> unat v)"
  using uvarint_codec.dec_fresh [where x = v] uvarint_length_bounds [of v] uvarint_length_le_10 [of v]
  by simp

lemma uint_le_sint: "uint (v :: i64) = (if sint v < 0 then sint v + 2 ^ 64 else sint v)"
proof -
  have "uint v = sint v mod 2 ^ 64" by (simp add: uint_sint take_bit_eq_mod)
  moreover have "- (2 ^ 63) \<le> sint v" "sint v < 2 ^ 63"
    using sint_greater_eq [of v] sint_less [of v] by simp_all
  moreover have "sint v mod 2 ^ 64 = (sint v + 2 ^ 64) mod 2 ^ 64" by simp
  ultimately show ?thesis
    by (cases "sint v < 0") (simp_all add: mod_pos_pos_trivial del: mod_add_self2)
qed

text \<open>
  \<open>zigzag\<close> interleaves the signed integers by magnitude: a non-negative \<open>v\<close> goes to
  \<open>2 v\<close>, a negative one to \<open>- 2 v - 1\<close>, with no wrap-around at either end of the range,
  and \<open>unzigzag\<close> is its two-sided inverse.
\<close>

lemma zigzag_spec:
  "uint (zigzag v) = (if 0 \<le> sint v then 2 * sint v else - 2 * sint v - 1) \<and>
   unzigzag (zigzag v) = v \<and> zigzag (unzigzag u) = u"
proof (intro conjI unzigzag_zigzag zigzag_unzigzag)
  have bound: "- (2 ^ 63) \<le> sint v" "sint v < 2 ^ 63"
    using sint_greater_eq [of v] sint_less [of v] by simp_all
  show "uint (zigzag v) = (if 0 \<le> sint v then 2 * sint v else - 2 * sint v - 1)"
  proof (cases "0 \<le> sint v")
    case True
    then have "\<not> bit v 63" using bit_last_iff [of v] by simp
    then have "zigzag v = push_bit 1 v" by (simp add: zigzag_def sdrop63)
    then have "uint (zigzag v) = 2 * uint v mod 2 ^ 64"
      by (simp add: uint_word_ariths mult.commute)
    then show ?thesis using True bound by (simp add: uint_le_sint)
  next
    case False
    then have "bit v 63" using bit_last_iff [of v] by simp
    then have "zigzag v = NOT (push_bit 1 v)" by (simp add: zigzag_def sdrop63)
    then have "uint (zigzag v) = (- (uint v * 2) - 1) mod 2 ^ 64"
      by (simp add: not_eq_complement uint_word_ariths mod_simps)
    also have "\<dots> = (- 2 * sint v - 1 - 2 ^ 65) mod 2 ^ 64" using False by (simp add: uint_le_sint mult.commute)
    also have "\<dots> = (- 2 * sint v - 1) mod 2 ^ 64" by (simp add: mod_eq_dvd_iff)
    finally show ?thesis using False bound by simp
  qed
qed

end
