(* ===== verification/Codecs.thy ===== *)
theory Codecs
  imports Wire
begin

text \<open>
  Composition of writers and readers: a writer that appends, a reader that consumes a given
  run of bytes, and the rules by which a sequence of fields is written and read back. The
  value, type, directory, footer and manifest codecs are built from them.
\<close>

named_theorems appends_intros
named_theorems reads_intros

section \<open>Writers that append\<close>

definition appends :: "(sink \<Rightarrow> sink) \<Rightarrow> bool" where
  "appends w \<longleftrightarrow> (\<forall>s. w s = s @ w [])"

lemma appendsD: "appends w \<Longrightarrow> w s = s @ w []"
  unfolding appends_def by blast

lemma appends_id [appends_intros]: "appends (\<lambda>s. s)"
  by (simp add: appends_def)

lemma appends_comp: "appends w1 \<Longrightarrow> appends w2 \<Longrightarrow> appends (\<lambda>s. w2 (w1 s))"
  unfolding appends_def by (metis append.assoc)

lemma comp_bytes: "appends w2 \<Longrightarrow> w2 (w1 []) = w1 [] @ w2 []"
  by (rule appendsD)

lemma appends_codec: "codec enc dec D \<Longrightarrow> appends (enc x)"
  unfolding appends_def by (metis append_writer.enc_append codec.axioms(1))

lemma appends_fold: "(\<And>x. x \<in> set xs \<Longrightarrow> appends (w x)) \<Longrightarrow> appends (fold w xs)"
proof (induction xs)
  case (Cons x xs)
  have "appends (\<lambda>s. fold w xs (w x s))" by (rule appends_comp) (use Cons in simp_all)
  then show ?case by (simp add: comp_def)
qed (simp add: appends_def)

lemma fold_bytes:
  assumes "\<And>x. x \<in> set xs \<Longrightarrow> appends (w x)"
  shows "fold w xs [] = concat (map (\<lambda>x. w x []) xs)"
  using assms
proof (induction xs)
  case (Cons x xs)
  have "appends (fold w xs)" by (rule appends_fold) (use Cons.prems in simp)
  then have "fold w xs (w x []) = w x [] @ fold w xs []" by (rule appendsD)
  then show ?case using Cons by simp
qed simp

text \<open>Rules by the outermost writer, down to the identity.\<close>

lemmas appends_prims [appends_intros] =
  appends_comp [OF _ appends_codec [OF u8_codec.codec_axioms]] appends_comp [OF _ appends_codec [OF u32_codec.codec_axioms]]
  appends_comp [OF _ appends_codec [OF u64_codec.codec_axioms]] appends_comp [OF _ appends_codec [OF i32_codec.codec_axioms]]
  appends_comp [OF _ appends_codec [OF i64_codec.codec_axioms]] appends_comp [OF _ appends_codec [OF i128_codec.codec_axioms]]
  appends_comp [OF _ appends_codec [OF uvarint_codec.codec_axioms]] appends_comp [OF _ appends_codec [OF svarint_codec.codec_axioms]]
  appends_comp [OF _ appends_codec [OF bytes_codec.codec_axioms]] appends_comp [OF _ appends_codec [OF str_codec.codec_axioms]]

lemma appends_raw_record: "appends (sink_raw bs)" "appends (sink_record f)"
  by (simp add: appends_def sink_raw_def) (unfold appends_def, intro allI, rule sink_record_append)

lemmas appends_raw [appends_intros] = appends_comp [OF _ appends_raw_record(1)] appends_comp [OF _ appends_raw_record(2)]

lemma appends_folds [appends_intros]:
  "appends w \<Longrightarrow> (\<And>x. x \<in> set xs \<Longrightarrow> appends (g x)) \<Longrightarrow> appends (\<lambda>s. fold g xs (w s))"
  by (rule appends_comp [OF _ appends_fold])

section \<open>Readers of a run of bytes\<close>

definition reads :: "('e, 'a) reader \<Rightarrow> byte list \<Rightarrow> 'a \<Rightarrow> bool" where
  "reads r bs x \<longleftrightarrow> (\<forall>c ys. cursor_at c (bs @ ys) \<longrightarrow> r c = Inr (x, cur_advance (length bs) c))"

lemma readsI: "(\<And>c ys. cursor_at c (bs @ ys) \<Longrightarrow> r c = Inr (x, cur_advance (length bs) c)) \<Longrightarrow> reads r bs x"
  unfolding reads_def by blast

lemma readsD: "reads r bs x \<Longrightarrow> cursor_at c (bs @ ys) \<Longrightarrow> r c = Inr (x, cur_advance (length bs) c)"
  unfolding reads_def by blast

lemma reads_new: "reads r bs x \<Longrightarrow> r (cur_new bs) = Inr (x, cur_advance (length bs) (cur_new bs))"
  by (rule readsD [where ys = "[]"]) simp_all

lemma reads_rret [reads_intros]: "reads (rret x) [] x"
  by (rule readsI) (simp add: cur_advance_def)

lemma reads_rbind:
  assumes "reads r bs x" "reads (f x) bs' y"
  shows "reads (rbind r f) (bs @ bs') y"
proof (rule readsI)
  fix c ys
  assume "cursor_at c ((bs @ bs') @ ys)"
  then have at: "cursor_at c (bs @ bs' @ ys)" by simp
  show "rbind r f c = Inr (y, cur_advance (length (bs @ bs')) c)"
    using readsD [OF assms(1) at] readsD [OF assms(2) cursor_at_advance [OF at]] by (simp add: rbind_def)
qed

lemma reads_codec: "codec enc dec D \<Longrightarrow> D x \<Longrightarrow> reads dec (enc x []) x"
  by (rule readsI) (rule codec.dec_enc)

text \<open>The usual step: a field by its codec, then the rest.\<close>

lemma reads_step:
  assumes "codec enc dec D" "D x" "appends w" "reads (f x) (w []) y"
  shows "reads (rbind dec f) (w (enc x [])) y"
  unfolding appendsD [OF assms(3), of "enc x []"]
  by (rule reads_rbind [where x = x, OF reads_codec [OF assms(1,2)]]) (rule assms(4))

lemma guard_len_pass:
  assumes "n \<le> MAX_DECODE_ROWS" "m \<le> 2 ^ 32" "cursor_at c bs" "n * m \<le> length bs"
  shows "cur_guard_len (word_of_nat n) m c = Inr (n, c)"
proof -
  have u: "unat (word_of_nat n :: u64) = n" using assms(1) by (simp add: MAX_DECODE_ROWS_def)
  have "n * m \<le> MAX_DECODE_ROWS * 2 ^ 32" using assms(1,2) by (rule mult_le_mono)
  then have "n * m < 2 ^ 64" by (simp add: MAX_DECODE_ROWS_def)
  then show ?thesis using assms by (simp add: guard_len_ok_iff u cursor_at_remaining)
qed

lemma reads_guard:
  assumes "n \<le> MAX_DECODE_ROWS" "m \<le> 2 ^ 32" "n * m \<le> length bs" "reads (f n) bs x"
  shows "reads (rbind (cur_guard_len (word_of_nat n) m) f) bs x"
proof (rule readsI)
  fix c ys
  assume at: "cursor_at c (bs @ ys)"
  have "cur_guard_len (word_of_nat n) m c = Inr (n, c)"
    by (rule guard_len_pass [OF assms(1,2) at]) (use assms(3) in simp)
  then show "rbind (cur_guard_len (word_of_nat n) m) f c = Inr (x, cur_advance (length bs) c)"
    using readsD [OF assms(4) at] by (simp add: rbind_def)
qed

lemma reads_read_n:
  assumes "\<And>x. x \<in> set xs \<Longrightarrow> reads r (w x) x"
  shows "reads (read_n r (length xs)) (concat (map w xs)) xs"
  using assms
proof (induction xs)
  case (Cons x xs)
  have "reads (read_n r (length xs)) (concat (map w xs)) xs" by (rule Cons.IH) (use Cons.prems in simp)
  then have "reads (rbind (read_n r (length xs)) (\<lambda>ys. rret (x # ys))) (concat (map w xs) @ []) (x # xs)"
    by (rule reads_rbind) (rule reads_rret)
  then have "reads (rbind r (\<lambda>y. rbind (read_n r (length xs)) (\<lambda>ys. rret (y # ys)))) (w x @ concat (map w xs) @ []) (x # xs)"
    using reads_rbind [of r "w x" x "\<lambda>y. rbind (read_n r (length xs)) (\<lambda>ys. rret (y # ys))"] Cons.prems by simp
  then show ?case by simp
qed (simp add: reads_rret)

lemma concat_min_length: "(\<And>x. x \<in> set xs \<Longrightarrow> m \<le> length (w x)) \<Longrightarrow> length xs * m \<le> length (concat (map w xs))"
  by (induction xs) (auto intro: add_mono)

text \<open>A counted sequence, its length checked against the bytes that are left.\<close>

lemma reads_counted:
  assumes "\<And>x. x \<in> set xs \<Longrightarrow> reads r (w x []) x \<and> appends (w x) \<and> m \<le> length (w x [])"
    "length xs \<le> MAX_DECODE_ROWS" "m \<le> 2 ^ 32" "appends k" "reads (f xs) (k []) y"
  shows "reads (rbind cur_uvarint (\<lambda>n. rbind (cur_guard_len n m) (\<lambda>n. rbind (read_n r n) f)))
    (k (fold w xs (sink_uvarint (word_of_nat (length xs)) []))) y"
proof -
  let ?b = "concat (map (\<lambda>x. w x []) xs)" and ?u = "sink_uvarint (word_of_nat (length xs)) []"
  have f: "fold w xs s = s @ ?b" for s
    using appendsD [OF appends_fold, of xs w s] fold_bytes [of xs w] assms(1) by simp
  have "length xs * m \<le> length ?b"
    by (rule concat_min_length) (use assms(1) in simp)
  then have "reads (rbind (cur_guard_len (word_of_nat (length xs)) m) (\<lambda>n. rbind (read_n r n) f)) (?b @ k []) y"
    using assms reads_rbind [OF reads_read_n, of xs r "\<lambda>x. w x []"] by (intro reads_guard) simp_all
  then have "reads (rbind cur_uvarint (\<lambda>n. rbind (cur_guard_len n m) (\<lambda>n. rbind (read_n r n) f))) (?u @ ?b @ k []) y"
    using reads_rbind [OF reads_codec [OF uvarint_codec.codec_axioms, of "word_of_nat (length xs)"],
        of "\<lambda>n. rbind (cur_guard_len n m) (\<lambda>n. rbind (read_n r n) f)"] by blast
  then show ?thesis using appendsD [OF assms(4), of "?u @ ?b"] by (simp add: f)
qed

lemma codecI:
  assumes "\<And>x. appends (enc x)" "rd_safe dec" "\<And>x. D x \<Longrightarrow> reads dec (enc x []) x"
  shows "codec enc dec D"
proof
  show "enc x s = s @ enc x []" for x s by (rule appendsD [OF assms(1)])
  show "rd_safe dec" by (rule assms(2))
  show "dec c = Inr (x, cur_advance (length (enc x [])) c)" if "D x" "cursor_at c (enc x [] @ ys)" for x c ys
    by (rule readsD [OF assms(3) [OF that(1)] that(2)])
qed

section \<open>Readers of a whole buffer\<close>

definition reads_end :: "('e, 'a) reader \<Rightarrow> byte list \<Rightarrow> 'a \<Rightarrow> bool" where
  "reads_end r bs x \<longleftrightarrow> (\<forall>c. cursor_at c bs \<longrightarrow> (\<exists>c'. r c = Inr (x, c')))"

lemma reads_end_new: "reads_end r bs x \<Longrightarrow> \<exists>c'. r (cur_new bs) = Inr (x, c')"
  unfolding reads_end_def by simp

lemma reads_end_rbind:
  assumes "reads r bs x" "reads_end (f x) bs' y"
  shows "reads_end (rbind r f) (bs @ bs') y"
  unfolding reads_end_def
proof (intro allI impI)
  fix c
  assume at: "cursor_at c (bs @ bs')"
  show "\<exists>c'. rbind r f c = Inr (y, c')"
    using readsD [OF assms(1) at] assms(2) cursor_at_advance [OF at] by (auto simp: rbind_def reads_end_def)
qed

lemma reads_end_guard:
  assumes "n \<le> MAX_DECODE_ROWS" "m \<le> 2 ^ 32" "n * m \<le> length bs" "reads_end (f n) bs x"
  shows "reads_end (rbind (cur_guard_len (word_of_nat n) m) f) bs x"
proof -
  have "cur_guard_len (word_of_nat n) m c = Inr (n, c)" if "cursor_at c bs" for c
    by (rule guard_len_pass [OF assms(1,2) that assms(3)])
  then show ?thesis using assms(4) by (auto simp: reads_end_def rbind_def)
qed

lemma cursor_at_end: "cursor_at c [] \<Longrightarrow> cur_is_empty c"
  by (simp add: cur_is_empty_def cursor_at_remaining)

lemma reads_end_check:
  "(\<And>c. cur_is_empty c \<Longrightarrow> \<exists>c'. r c = Inr (x, c')) \<Longrightarrow> reads_end r [] x"
  unfolding reads_end_def using cursor_at_end by blast

end
