(* ===== verification/Checksum.thy ===== *)
theory Checksum
  imports Wire
begin

text \<open>
  The checksum of every frame, CRC32C (\<open>storage/segment/crc.rs\<close>), and the hash of the bloom
  filters, XXH64 (\<open>storage/segment/hash.rs\<close>).
\<close>

unbundle bit_operations_syntax

section \<open>CRC32C\<close>

definition POLY :: u32 where
  "POLY = 0x82F63B78"

text \<open>One turn of the inner loop of \<open>build_table\<close>.\<close>

definition crc_bit :: "u32 \<Rightarrow> u32" where
  "crc_bit c = (if c AND 1 \<noteq> 0 then POLY XOR drop_bit 1 c else drop_bit 1 c)"

definition build_table :: "u32 list" where
  "build_table = map (\<lambda>i. (crc_bit ^^ 8) (word_of_nat i)) [0..<256]"

definition crc_step :: "byte \<Rightarrow> u32 \<Rightarrow> u32" where
  "crc_step b crc = build_table ! unat ((crc XOR ucast b) AND 0xff) XOR drop_bit 8 crc"

definition crc32c :: "byte list \<Rightarrow> u32" where
  "crc32c bytes = NOT (fold crc_step bytes (NOT 0))"

section \<open>XXH64\<close>

definition P1 :: u64 where "P1 = 0x9E3779B185EBCA87"
definition P2 :: u64 where "P2 = 0xC2B2AE3D27D4EB4F"
definition P3 :: u64 where "P3 = 0x165667B19E3779F9"
definition P4 :: u64 where "P4 = 0x85EBCA77C2B2AE63"
definition P5 :: u64 where "P5 = 0x27D4EB2F165667C5"

definition xxh_round :: "u64 \<Rightarrow> u64 \<Rightarrow> u64" where
  "xxh_round acc input = word_rotl 31 (acc + input * P2) * P1"

definition merge_round :: "u64 \<Rightarrow> u64 \<Rightarrow> u64" where
  "merge_round acc v = (acc XOR xxh_round 0 v) * P1 + P4"

definition le64 :: "byte list \<Rightarrow> u64" where
  "le64 b = from_le_bytes (take 8 b)"

definition le32 :: "byte list \<Rightarrow> u64" where
  "le32 b = ucast (from_le_bytes (take 4 b) :: u32)"

text \<open>The loops of \<open>xxh64\<close>, each over the bytes from its index on.\<close>

function xxh_stripes :: "u64 \<times> u64 \<times> u64 \<times> u64 \<Rightarrow> byte list \<Rightarrow> (u64 \<times> u64 \<times> u64 \<times> u64) \<times> byte list" where
  "xxh_stripes (v1, v2, v3, v4) b =
     (if length b < 32 then ((v1, v2, v3, v4), b)
      else xxh_stripes (xxh_round v1 (le64 b), xxh_round v2 (le64 (drop 8 b)),
             xxh_round v3 (le64 (drop 16 b)), xxh_round v4 (le64 (drop 24 b))) (drop 32 b))"
  by pat_completeness auto
termination by (relation "measure (\<lambda>(_, b). length b)") auto

function xxh_tail8 :: "u64 \<Rightarrow> byte list \<Rightarrow> u64 \<times> byte list" where
  "xxh_tail8 h b =
     (if length b < 8 then (h, b)
      else xxh_tail8 (word_rotl 27 (h XOR xxh_round 0 (le64 b)) * P1 + P4) (drop 8 b))"
  by pat_completeness auto
termination by (relation "measure (\<lambda>(_, b). length b)") auto

definition xxh_tail4 :: "u64 \<Rightarrow> byte list \<Rightarrow> u64 \<times> byte list" where
  "xxh_tail4 h b =
     (if length b < 4 then (h, b)
      else (word_rotl 23 (h XOR le32 b * P1) * P2 + P3, drop 4 b))"

fun xxh_tail1 :: "u64 \<Rightarrow> byte list \<Rightarrow> u64" where
  "xxh_tail1 h [] = h"
| "xxh_tail1 h (b # bs) = xxh_tail1 (word_rotl 11 (h XOR ucast b * P5) * P1) bs"

definition xxh_avalanche :: "u64 \<Rightarrow> u64" where
  "xxh_avalanche h =
     (let h = h XOR drop_bit 33 h; h = h * P2; h = h XOR drop_bit 29 h; h = h * P3
      in h XOR drop_bit 32 h)"

definition xxh64 :: "byte list \<Rightarrow> u64 \<Rightarrow> u64" where
  "xxh64 bytes seed =
     (let (h, rest) =
        (if length bytes \<ge> 32
         then let ((v1, v2, v3, v4), rest) = xxh_stripes (seed + P1 + P2, seed + P2, seed, seed - P1) bytes;
                  h = word_rotl 1 v1 + word_rotl 7 v2 + word_rotl 12 v3 + word_rotl 18 v4
              in (merge_round (merge_round (merge_round (merge_round h v1) v2) v3) v4, rest)
         else (seed + P5, bytes));
        (h, rest) = xxh_tail8 (h + word_of_nat (length bytes)) rest;
        (h, rest) = xxh_tail4 h rest
      in xxh_avalanche (xxh_tail1 h rest))"

section \<open>The table is the polynomial division\<close>

lemma odd_bit: "c AND 1 \<noteq> (0 :: u32) \<longleftrightarrow> bit c 0"
  by (simp add: and_one_eq odd_iff_mod_2_eq_one [symmetric] bit_0 mod_2_eq_odd)

lemma bit_crc_bit: "bit (crc_bit c) k \<longleftrightarrow> (bit c 0 \<and> bit POLY k) \<noteq> bit c (Suc k)"
  unfolding crc_bit_def odd_bit by (simp add: bit_xor_iff bit_drop_bit_eq)

lemma crc_bit_xor: "crc_bit (a XOR b) = crc_bit a XOR crc_bit b"
  by (rule bit_word_eqI) (auto simp: bit_crc_bit bit_xor_iff)

lemma crc_bits_xor: "(crc_bit ^^ n) (a XOR b) = (crc_bit ^^ n) a XOR (crc_bit ^^ n) b"
  by (induction n) (simp_all add: crc_bit_xor)

lemma crc_bits_shift: "(\<And>k. k < n \<Longrightarrow> \<not> bit c k) \<Longrightarrow> (crc_bit ^^ n) c = drop_bit n c"
proof (induction n)
  case (Suc n)
  then have "(crc_bit ^^ Suc n) c = crc_bit (drop_bit n c)" by simp
  moreover have "\<not> bit (drop_bit n c) 0" using Suc.prems [of n] by (simp add: bit_drop_bit_eq)
  ultimately show ?case
    by (intro bit_word_eqI) (simp only: bit_crc_bit bit_drop_bit_eq, simp add: bit_drop_bit_eq)
qed simp

lemma xor_left_cancel: "a XOR x = a XOR y \<longleftrightarrow> x = (y :: 'a::len word)"
  by (auto simp: bit_eq_iff bit_xor_iff)

lemma crc_bits_push:
  assumes "\<And>k. LENGTH(32) \<le> k + 8 \<Longrightarrow> \<not> bit v k"
  shows "(crc_bit ^^ 8) (push_bit 8 v) = v"
proof -
  have "(crc_bit ^^ 8) (push_bit 8 v) = drop_bit 8 (push_bit 8 v)"
    by (rule crc_bits_shift) (simp only: bit_push_bit_iff, simp)
  also have "\<dots> = v"
  proof (rule bit_word_eqI)
    fix n
    show "bit (drop_bit 8 (push_bit 8 v)) n = bit v n"
      using assms [of n] by (cases "n < 24") (simp_all only: bit_drop_bit_eq bit_push_bit_iff comp_def, simp_all)
  qed
  finally show ?thesis .
qed

lemma crc_low_byte: "(crc_bit ^^ 8) x = (crc_bit ^^ 8) (x AND 0xff) XOR drop_bit 8 x"
proof -
  have "x = (x AND 0xff) XOR push_bit 8 (drop_bit 8 x)"
  proof (rule bit_word_eqI)
    fix k
    have "bit (0xff :: u32) k \<longleftrightarrow> k < 8" if "k < 32"
      using bit_mask_iff [of 8 k, where ?'a = "32 word"] that by (simp add: mask_eq_exp_minus_1)
    moreover assume "k < LENGTH(32)"
    ultimately show "bit x k = bit ((x AND 0xff) XOR push_bit 8 (drop_bit 8 x)) k"
      by (auto simp: bit_xor_iff bit_and_iff bit_push_bit_iff bit_drop_bit_eq)
  qed
  moreover have "(crc_bit ^^ 8) (push_bit 8 (drop_bit 8 x)) = drop_bit 8 x"
    by (rule crc_bits_push) (auto simp: bit_drop_bit_eq dest: bit_imp_le_length)
  ultimately show ?thesis using crc_bits_xor [of 8 "x AND 0xff" "push_bit 8 (drop_bit 8 x)"] by metis
qed

lemma crc_step_bits: "crc_step b crc = (crc_bit ^^ 8) (crc XOR ucast b)"
proof -
  define x where "x = crc XOR ucast b"
  have "x AND 0xff = take_bit 8 x" by (simp add: take_bit_eq_mask mask_eq_exp_minus_1)
  moreover have "unat (take_bit 8 x) < 2 ^ 8" by (metis take_bit_nat_less_exp unsigned_take_bit_eq)
  ultimately have lt: "unat (x AND 0xff) < 256" by simp
  have "drop_bit 8 x = drop_bit 8 crc"
    unfolding x_def by (rule bit_word_eqI) (auto simp: bit_drop_bit_eq bit_xor_iff bit_ucast_iff dest: bit_imp_le_length)
  then have "(crc_bit ^^ 8) x = (crc_bit ^^ 8) (x AND 0xff) XOR drop_bit 8 crc" using crc_low_byte [of x] by simp
  then show ?thesis using lt by (simp add: crc_step_def build_table_def flip: x_def)
qed

section \<open>Errors the checksum catches\<close>

lemma bit_POLY_31: "bit POLY 31"
  by (simp add: POLY_def)

lemma inj_crc_bit: "inj crc_bit"
proof (rule injI)
  fix a b
  assume eq: "crc_bit a = crc_bit b"
  have "bit (crc_bit c) 31 = bit c 0" for c
    using bit_imp_le_length [of c 32] by (auto simp: bit_crc_bit bit_POLY_31)
  then have z: "bit a 0 = bit b 0" using eq by metis
  show "a = b"
  proof (rule bit_word_eqI)
    fix k
    show "bit a k = bit b k"
    proof (cases k)
      case (Suc j)
      then show ?thesis using z arg_cong [OF eq, of "\<lambda>c. bit c j"] by (auto simp: bit_crc_bit)
    qed (simp add: z)
  qed
qed

lemma inj_crc_bits: "inj (crc_bit ^^ n)"
proof (induction n)
  case (Suc n)
  then show ?case using inj_compose [OF inj_crc_bit Suc] by (simp only: funpow.simps)
qed simp

text \<open>Up to four bytes as the little-endian word they are folded in as.\<close>

lemma crc_fold_word:
  "length w \<le> 4 \<Longrightarrow> fold crc_step w crc = (crc_bit ^^ (8 * length w)) (crc XOR from_le_bytes w)"
proof (induction w arbitrary: crc)
  case Nil
  then show ?case by (simp add: from_le_bytes_def)
next
  case (Cons b w)
  let ?v = "from_le_bytes w :: u32"
  have sh: "(crc_bit ^^ 8) (push_bit 8 ?v) = ?v"
    by (rule crc_bits_push) (use Cons.prems in \<open>auto simp: bit_from_le_bytes\<close>)
  have word: "from_le_bytes (b # w) = ucast b XOR push_bit 8 ?v"
  proof (rule bit_word_eqI)
    fix k
    assume k: "k < LENGTH(32)"
    show "bit (from_le_bytes (b # w) :: u32) k = bit (ucast b XOR push_bit 8 ?v) k"
    proof (cases "k < 8")
      case True
      then show ?thesis using k by (simp only: bit_from_le_bytes bit_xor_iff bit_ucast_iff bit_push_bit_iff) simp
    next
      case False
      then obtain j where j: "k = 8 + j" by (metis le_add_diff_inverse not_less)
      have "k div 8 = Suc (j div 8)" "k mod 8 = j mod 8" by (simp_all add: j)
      then show ?thesis using k j bit_imp_le_length [of b k]
        by (simp only: bit_from_le_bytes bit_xor_iff bit_ucast_iff bit_push_bit_iff) auto
    qed
  qed
  have "fold crc_step (b # w) crc = (crc_bit ^^ (8 * length w)) ((crc_bit ^^ 8) (crc XOR ucast b) XOR ?v)"
    using Cons.IH [of "crc_step b crc"] Cons.prems by simp (simp add: crc_step_bits [of b crc])
  also have "(crc_bit ^^ 8) (crc XOR ucast b) XOR ?v = (crc_bit ^^ 8) (crc XOR from_le_bytes (b # w))"
    using crc_bits_xor [of 8 "crc XOR ucast b" "push_bit 8 ?v"] sh by (simp add: word xor.assoc)
  finally have "fold crc_step (b # w) crc = (crc_bit ^^ (8 * length w)) ((crc_bit ^^ 8) (crc XOR from_le_bytes (b # w)))" .
  moreover have "8 * length (b # w) = 8 * length w + 8" by simp
  ultimately show ?case by (simp only: funpow_add comp_def)
qed

lemma inj_fold_step: "inj (fold crc_step w)"
proof (induction w)
  case (Cons b w)
  have "inj (crc_step b)"
  proof (rule injI)
    fix x y
    assume "crc_step b x = crc_step b y"
    then have "x XOR ucast b = y XOR ucast b" unfolding crc_step_bits by (rule injD [OF inj_crc_bits])
    then show "x = y" by (simp add: xor_left_cancel xor.commute [of _ "ucast b"])
  qed
  from inj_compose [OF Cons this] show ?case by (simp only: fold_simps comp_def)
qed simp

lemma from_le_bytes_inj:
  assumes "length v = length w" "length w \<le> 4" "(from_le_bytes v :: u32) = from_le_bytes w"
  shows "v = w"
proof (rule nth_equalityI [OF assms(1)])
  fix i
  assume i: "i < length v"
  show "v ! i = w ! i"
  proof (rule bit_word_eqI)
    fix n
    assume "n < LENGTH(8)"
    then show "bit (v ! i) n = bit (w ! i) n"
      using arg_cong [OF assms(3), of "\<lambda>x. bit x (8 * i + n)"] i assms(1,2) by (simp add: bit_from_le_bytes)
  qed
qed

text \<open>
  C30. The table-driven \<open>crc32c\<close> is the bit-by-bit division by the Castagnoli polynomial.
\<close>

theorem crc32c_is_division:
  "crc32c bytes = NOT (fold (\<lambda>b crc. (crc_bit ^^ 8) (crc XOR ucast b)) bytes (NOT 0))"
  by (simp add: crc32c_def crc_step_bits [abs_def])

text \<open>
  C31. A frame checksum catches every error burst that lies within four consecutive bytes,
  wherever in a frame of any length: no other bytes there give the same checksum.
\<close>

theorem crc32c_catches_bursts:
  assumes "length v = length w" "length w \<le> 4" "v \<noteq> w"
  shows "crc32c (pre @ v @ post) \<noteq> crc32c (pre @ w @ post)"
proof
  assume "crc32c (pre @ v @ post) = crc32c (pre @ w @ post)"
  then have "fold crc_step (pre @ v @ post) (NOT 0) = fold crc_step (pre @ w @ post) (NOT 0)"
    unfolding crc32c_def by (metis bit.double_compl)
  then have "fold crc_step v (fold crc_step pre (NOT 0)) = fold crc_step w (fold crc_step pre (NOT 0))"
    using injD [OF inj_fold_step [of post]] by simp
  then have "fold crc_step pre (NOT 0) XOR (from_le_bytes v :: u32) = fold crc_step pre (NOT 0) XOR from_le_bytes w"
    using injD [OF inj_crc_bits] assms(1,2) by (simp add: crc_fold_word)
  then have "(from_le_bytes v :: u32) = from_le_bytes w" by (simp only: xor_left_cancel)
  then show False using from_le_bytes_inj assms by blast
qed

theorem crc32c_catches_bursts_witness:
  "crc32c ([1, 2] @ [3, 4] @ [5]) \<noteq> crc32c ([1, 2] @ [4, 3] @ [5])"
  by (rule crc32c_catches_bursts) simp_all

text \<open>The published check values of both algorithms.\<close>

lemma xxh64_known: "xxh64 [] 0 = 0xEF46DB3751D8E999" "xxh64 [97, 98, 99] 0 = 0x44BC2CF5AD770999"
  by code_simp+

end
