(* ===== verification/Types.thy ===== *)
theory Types
  imports Wire
begin

text \<open>
  The type set and the runtime values (\<open>src/types/datatype.rs\<close>, \<open>value.rs\<close>), the total
  order and SQL equality (\<open>order.rs\<close>) and the lossless coercion on write (\<open>fit.rs\<close>).

  A \<open>[u8; 16]\<close> is a byte list whose length the invariant \<open>value_ok\<close> fixes, as it fixes the
  ranges that \<open>Decimal::new\<close> and the UTF-8 validity that \<open>String\<close> guarantee. A float is its
  bit pattern. Its numeric reading, exact for every finite value, is \<open>f64_scaled\<close>: the value
  times two to the power 1074, an integer for every double; an infinity reads as an
  integer beyond every finite one, which is all that comparison asks of it.
\<close>

section \<open>Types and values\<close>

datatype type_error =
    DecimalPrecision byte
  | DecimalScale byte byte
  | NestedList

record decimal_type =
  dt_precision :: byte
  dt_scale :: byte

definition decimal_type_new :: "byte \<Rightarrow> byte \<Rightarrow> type_error + decimal_type" where
  "decimal_type_new precision scale =
     (if precision = 0 \<or> precision > 38 then Inl (DecimalPrecision precision)
      else if scale > precision then Inl (DecimalScale precision scale)
      else Inr \<lparr>dt_precision = precision, dt_scale = scale\<rparr>)"

datatype data_type =
    TBool
  | TInt64
  | TUInt64
  | TFloat64
  | TDecimal decimal_type
  | TString
  | TBytes
  | TTimestamp
  | TDate
  | TUuid
  | TIp
  | TList data_type

definition list_type_new :: "data_type \<Rightarrow> type_error + data_type" where
  "list_type_new elem = (case elem of TList _ \<Rightarrow> Inl NestedList | _ \<Rightarrow> Inr elem)"

definition data_type_decimal :: "byte \<Rightarrow> byte \<Rightarrow> type_error + data_type" where
  "data_type_decimal precision scale =
     (case decimal_type_new precision scale of Inl e \<Rightarrow> Inl e | Inr dt \<Rightarrow> Inr (TDecimal dt))"

definition data_type_list :: "data_type \<Rightarrow> type_error + data_type" where
  "data_type_list elem = (case list_type_new elem of Inl e \<Rightarrow> Inl e | Inr lt \<Rightarrow> Inr (TList lt))"

record decimal =
  dec_unscaled :: i128
  dec_scale :: byte

text \<open>\<open>10i128.pow\<close>: exact up to the exponent 38, which is as far as it is called.\<close>

definition pow10 :: "byte \<Rightarrow> i128" where
  "pow10 e = 10 ^ unat e"

definition unsigned_abs :: "i128 \<Rightarrow> u128" where
  "unsigned_abs u = word_of_int \<bar>sint u\<bar>"

definition decimal_new :: "i128 \<Rightarrow> byte \<Rightarrow> type_error + decimal" where
  "decimal_new unscaled scale =
     (if scale > 38 then Inl (DecimalScale 38 scale)
      else if unsigned_abs unscaled \<ge> pow10 38 then Inl (DecimalPrecision 39)
      else Inr \<lparr>dec_unscaled = unscaled, dec_scale = scale\<rparr>)"

datatype val =
    VNull
  | VBool bool
  | VInt64 i64
  | VUInt64 u64
  | VFloat64 f64
  | VDecimal decimal
  | VString rstr
  | VBytes "byte list"
  | VTimestamp i64
  | VDate i32
  | VUuid "byte list"
  | VIp "byte list"
  | VList "val list"

definition is_null :: "val \<Rightarrow> bool" where
  "is_null v = (case v of VNull \<Rightarrow> True | _ \<Rightarrow> False)"

section \<open>Floats\<close>

definition f64_sign :: "f64 \<Rightarrow> bool" where
  "f64_sign f = bit f 63"

definition f64_exp :: "f64 \<Rightarrow> nat" where
  "f64_exp f = unat (drop_bit 52 f AND 0x7ff)"

definition f64_mant :: "f64 \<Rightarrow> nat" where
  "f64_mant f = unat (f AND mask 52)"

definition f64_is_nan :: "f64 \<Rightarrow> bool" where
  "f64_is_nan f \<longleftrightarrow> f64_exp f = 2047 \<and> f64_mant f \<noteq> 0"

definition f64_is_finite :: "f64 \<Rightarrow> bool" where
  "f64_is_finite f \<longleftrightarrow> f64_exp f \<noteq> 2047"

definition f64_scaled :: "f64 \<Rightarrow> int" where
  "f64_scaled f =
     (let m = (if f64_exp f = 0 then int (f64_mant f)
               else (2 ^ 52 + int (f64_mant f)) * 2 ^ (f64_exp f - 1))
      in if f64_sign f then - m else m)"

text \<open>
  \<open>n as f64\<close> for \<open>|n| \<le> 2 ^ 53\<close>, where the conversion is exact: normalise the magnitude to
  53 bits and store the 52 below the leading one.
\<close>

fun log2_floor :: "nat \<Rightarrow> nat" where
  "log2_floor n = (if n \<le> 1 then 0 else Suc (log2_floor (n div 2)))"

declare log2_floor.simps [simp del]

definition f64_of_int :: "int \<Rightarrow> f64" where
  "f64_of_int n =
     (if n = 0 then 0
      else let a = nat \<bar>n\<bar>;
               e = log2_floor a;
               m = a * 2 ^ 52 div 2 ^ e - 2 ^ 52
           in (if n < 0 then push_bit 63 1 else 0) OR push_bit 52 (word_of_nat (1023 + e)) OR word_of_nat m)"

section \<open>The total order\<close>

datatype ordering = Less | Equal | Greater

definition cmp :: "'a::linorder \<Rightarrow> 'a \<Rightarrow> ordering" where
  "cmp a b = (if a < b then Less else if a = b then Equal else Greater)"

definition then_with :: "ordering \<Rightarrow> ordering \<Rightarrow> ordering" where
  "then_with a b = (case a of Equal \<Rightarrow> b | _ \<Rightarrow> a)"

text \<open>\<open>Ord::cmp\<close> of byte slices and byte arrays: lexicographic, a proper prefix first.\<close>

fun bytes_cmp :: "byte list \<Rightarrow> byte list \<Rightarrow> ordering" where
  "bytes_cmp [] [] = Equal"
| "bytes_cmp [] (y # ys) = Less"
| "bytes_cmp (x # xs) [] = Greater"
| "bytes_cmp (x # xs) (y # ys) = then_with (cmp x y) (bytes_cmp xs ys)"

definition f64_norm :: "f64 \<Rightarrow> f64" where
  "f64_norm f = (if f64_scaled f = 0 then 0 else f)"

definition float_total_cmp :: "f64 \<Rightarrow> f64 \<Rightarrow> ordering" where
  "float_total_cmp a b =
     (if f64_is_nan a then (if f64_is_nan b then Equal else Greater)
      else if f64_is_nan b then Less
      else cmp (f64_scaled (f64_norm a)) (f64_scaled (f64_norm b)))"

definition div_euclid :: "i128 \<Rightarrow> i128 \<Rightarrow> i128" where
  "div_euclid a p = word_of_int (sint a div sint p)"

definition rem_euclid :: "i128 \<Rightarrow> i128 \<Rightarrow> i128" where
  "rem_euclid a p = word_of_int (sint a mod sint p)"

definition dec_split :: "decimal \<Rightarrow> i128 \<times> i128" where
  "dec_split d =
     (let p = pow10 (dec_scale d) in (div_euclid (dec_unscaled d) p, rem_euclid (dec_unscaled d) p))"

definition decimal_cmp :: "decimal \<Rightarrow> decimal \<Rightarrow> ordering" where
  "decimal_cmp a b =
     (let (ia, fa) = dec_split a; (ib, fb) = dec_split b
      in then_with (cmp (sint ia) (sint ib))
           (cmp (sint (fa * pow10 (38 - dec_scale a))) (sint (fb * pow10 (38 - dec_scale b)))))"

fun total_cmp :: "val \<Rightarrow> val \<Rightarrow> ordering option"
  and list_cmp :: "val list \<Rightarrow> val list \<Rightarrow> ordering option" where
  "total_cmp (VBool x) b = (case b of VBool y \<Rightarrow> Some (cmp x y) | _ \<Rightarrow> None)"
| "total_cmp (VInt64 x) b = (case b of VInt64 y \<Rightarrow> Some (cmp (sint x) (sint y)) | _ \<Rightarrow> None)"
| "total_cmp (VUInt64 x) b = (case b of VUInt64 y \<Rightarrow> Some (cmp x y) | _ \<Rightarrow> None)"
| "total_cmp (VFloat64 x) b = (case b of VFloat64 y \<Rightarrow> Some (float_total_cmp x y) | _ \<Rightarrow> None)"
| "total_cmp (VDecimal x) b = (case b of VDecimal y \<Rightarrow> Some (decimal_cmp x y) | _ \<Rightarrow> None)"
| "total_cmp (VString x) b = (case b of VString y \<Rightarrow> Some (bytes_cmp x y) | _ \<Rightarrow> None)"
| "total_cmp (VBytes x) b = (case b of VBytes y \<Rightarrow> Some (bytes_cmp x y) | _ \<Rightarrow> None)"
| "total_cmp (VTimestamp x) b = (case b of VTimestamp y \<Rightarrow> Some (cmp (sint x) (sint y)) | _ \<Rightarrow> None)"
| "total_cmp (VDate x) b = (case b of VDate y \<Rightarrow> Some (cmp (sint x) (sint y)) | _ \<Rightarrow> None)"
| "total_cmp (VUuid x) b = (case b of VUuid y \<Rightarrow> Some (bytes_cmp x y) | _ \<Rightarrow> None)"
| "total_cmp (VIp x) b = (case b of VIp y \<Rightarrow> Some (bytes_cmp x y) | _ \<Rightarrow> None)"
| "total_cmp (VList x) b = (case b of VList y \<Rightarrow> list_cmp x y | _ \<Rightarrow> None)"
| "total_cmp VNull b = None"
| "list_cmp [] [] = Some Equal"
| "list_cmp [] (y # ys) = Some Less"
| "list_cmp (x # xs) [] = Some Greater"
| "list_cmp (x # xs) (y # ys) =
     (case (if x = VNull then Some (if y = VNull then Equal else Greater)
            else if y = VNull then Some Less
            else total_cmp x y) of
        None \<Rightarrow> None
      | Some Equal \<Rightarrow> list_cmp xs ys
      | Some other \<Rightarrow> Some other)"

text \<open>\<open>list_elem_cmp\<close>: a NULL element sorts after every other and equals itself.\<close>

definition list_elem_cmp :: "val \<Rightarrow> val \<Rightarrow> ordering option" where
  "list_elem_cmp x y =
     (if x = VNull then Some (if y = VNull then Equal else Greater)
      else if y = VNull then Some Less
      else total_cmp x y)"

section \<open>SQL equality\<close>

definition f64_eq :: "f64 \<Rightarrow> f64 \<Rightarrow> bool" where
  "f64_eq x y \<longleftrightarrow> \<not> f64_is_nan x \<and> \<not> f64_is_nan y \<and> f64_scaled x = f64_scaled y"

fun sql_eq :: "val \<Rightarrow> val \<Rightarrow> bool option"
  and list_sql_eq_loop :: "bool \<Rightarrow> val list \<Rightarrow> val list \<Rightarrow> bool option" where
  "sql_eq VNull b = None"
| "sql_eq (VBool x) b = (case b of VBool y \<Rightarrow> Some (x = y) | _ \<Rightarrow> None)"
| "sql_eq (VInt64 x) b = (case b of VInt64 y \<Rightarrow> Some (x = y) | _ \<Rightarrow> None)"
| "sql_eq (VUInt64 x) b = (case b of VUInt64 y \<Rightarrow> Some (x = y) | _ \<Rightarrow> None)"
| "sql_eq (VFloat64 x) b =
     (case b of VFloat64 y \<Rightarrow> Some (\<not> f64_is_nan x \<and> \<not> f64_is_nan y \<and> f64_eq x y) | _ \<Rightarrow> None)"
| "sql_eq (VDecimal x) b = (case b of VDecimal y \<Rightarrow> Some (decimal_cmp x y = Equal) | _ \<Rightarrow> None)"
| "sql_eq (VString x) b = (case b of VString y \<Rightarrow> Some (x = y) | _ \<Rightarrow> None)"
| "sql_eq (VBytes x) b = (case b of VBytes y \<Rightarrow> Some (x = y) | _ \<Rightarrow> None)"
| "sql_eq (VTimestamp x) b = (case b of VTimestamp y \<Rightarrow> Some (x = y) | _ \<Rightarrow> None)"
| "sql_eq (VDate x) b = (case b of VDate y \<Rightarrow> Some (x = y) | _ \<Rightarrow> None)"
| "sql_eq (VUuid x) b = (case b of VUuid y \<Rightarrow> Some (x = y) | _ \<Rightarrow> None)"
| "sql_eq (VIp x) b = (case b of VIp y \<Rightarrow> Some (x = y) | _ \<Rightarrow> None)"
| "sql_eq (VList x) b =
     (case b of
        VList y \<Rightarrow> if length x \<noteq> length y then Some False else list_sql_eq_loop False x y
      | _ \<Rightarrow> None)"
| "list_sql_eq_loop unknown (x # xs) (y # ys) =
     (case sql_eq x y of
        Some False \<Rightarrow> Some False
      | None \<Rightarrow> list_sql_eq_loop True xs ys
      | Some True \<Rightarrow> list_sql_eq_loop unknown xs ys)"
| "list_sql_eq_loop unknown _ _ = (if unknown then None else Some True)"

section \<open>Coercion on write\<close>

definition i128_fits :: "int \<Rightarrow> bool" where
  "i128_fits n \<longleftrightarrow> - (2 ^ 127) \<le> n \<and> n < 2 ^ 127"

definition checked_mul_i128 :: "i128 \<Rightarrow> i128 \<Rightarrow> i128 option" where
  "checked_mul_i128 a b = (if i128_fits (sint a * sint b) then Some (a * b) else None)"

definition decimal_ok :: "i128 \<Rightarrow> byte \<Rightarrow> decimal option" where
  "decimal_ok u s = (case decimal_new u s of Inl e \<Rightarrow> None | Inr d \<Rightarrow> Some d)"

definition rescale :: "decimal \<Rightarrow> decimal_type \<Rightarrow> decimal option" where
  "rescale d dt =
     (let target = dt_scale dt;
          unscaled =
            (if target \<ge> dec_scale d then checked_mul_i128 (dec_unscaled d) (pow10 (target - dec_scale d))
             else let drp = pow10 (dec_scale d - target)
                  in if rem_euclid (dec_unscaled d) drp \<noteq> 0 then None
                     else Some (div_euclid (dec_unscaled d) drp))
      in case unscaled of
           None \<Rightarrow> None
         | Some u \<Rightarrow> if unsigned_abs u \<ge> pow10 (dt_precision dt) then None else decimal_ok u target)"

definition int_to_decimal :: "i128 \<Rightarrow> decimal_type \<Rightarrow> val option" where
  "int_to_decimal n dt =
     (case checked_mul_i128 n (pow10 (dt_scale dt)) of
        None \<Rightarrow> None
      | Some unscaled \<Rightarrow>
          if unsigned_abs unscaled \<ge> pow10 (dt_precision dt) then None
          else map_option VDecimal (decimal_ok unscaled (dt_scale dt)))"

definition float_to_int :: "f64 \<Rightarrow> val option" where
  "float_to_int f =
     (if \<not> f64_is_finite f \<or> f64_scaled f mod 2 ^ 1074 \<noteq> 0 then None
      else if \<not> (- (2 ^ 63) * 2 ^ 1074 \<le> f64_scaled f \<and> f64_scaled f < 2 ^ 63 * 2 ^ 1074) then None
      else Some (VInt64 (word_of_int (f64_scaled f div 2 ^ 1074))))"

definition float_to_uint :: "f64 \<Rightarrow> val option" where
  "float_to_uint f =
     (if \<not> f64_is_finite f \<or> f64_scaled f mod 2 ^ 1074 \<noteq> 0 then None
      else if \<not> (0 \<le> f64_scaled f \<and> f64_scaled f < 2 ^ 64 * 2 ^ 1074) then None
      else Some (VUInt64 (word_of_int (f64_scaled f div 2 ^ 1074))))"

definition decimal_to_int :: "decimal \<Rightarrow> val option" where
  "decimal_to_int d =
     (let p = pow10 (dec_scale d)
      in if rem_euclid (dec_unscaled d) p \<noteq> 0 then None
         else let n = div_euclid (dec_unscaled d) p
              in if \<not> (- (2 ^ 63) \<le> sint n \<and> sint n \<le> 2 ^ 63 - 1) then None
                 else Some (VInt64 (ucast n)))"

definition decimal_to_uint :: "decimal \<Rightarrow> val option" where
  "decimal_to_uint d =
     (let p = pow10 (dec_scale d)
      in if rem_euclid (dec_unscaled d) p \<noteq> 0 then None
         else let n = div_euclid (dec_unscaled d) p
              in if \<not> (0 \<le> sint n \<and> sint n \<le> 2 ^ 64 - 1) then None
                 else Some (VUInt64 (ucast n)))"

definition date_to_timestamp :: "i32 \<Rightarrow> val option" where
  "date_to_timestamp days =
     (let ns = (scast days :: i128) * 86400000000000
      in if \<not> (- (2 ^ 63) \<le> sint ns \<and> sint ns \<le> 2 ^ 63 - 1) then None
         else Some (VTimestamp (ucast ns)))"

fun coerce :: "val \<Rightarrow> data_type \<Rightarrow> val option" where
  "coerce VNull ty = Some VNull"
| "coerce (VBool b) ty = (case ty of TBool \<Rightarrow> Some (VBool b) | _ \<Rightarrow> None)"
| "coerce (VInt64 n) ty =
     (case ty of
        TInt64 \<Rightarrow> Some (VInt64 n)
      | TUInt64 \<Rightarrow> if sint n \<ge> 0 then Some (VUInt64 n) else None
      | TFloat64 \<Rightarrow> if \<bar>sint n\<bar> \<le> 2 ^ 53 then Some (VFloat64 (f64_of_int (sint n))) else None
      | TDecimal dt \<Rightarrow> int_to_decimal (scast n) dt
      | _ \<Rightarrow> None)"
| "coerce (VUInt64 n) ty =
     (case ty of
        TUInt64 \<Rightarrow> Some (VUInt64 n)
      | TInt64 \<Rightarrow> if uint n \<le> 2 ^ 63 - 1 then Some (VInt64 n) else None
      | TFloat64 \<Rightarrow> if uint n \<le> 2 ^ 53 then Some (VFloat64 (f64_of_int (uint n))) else None
      | TDecimal dt \<Rightarrow> int_to_decimal (ucast n) dt
      | _ \<Rightarrow> None)"
| "coerce (VFloat64 f) ty =
     (case ty of
        TFloat64 \<Rightarrow> Some (VFloat64 f)
      | TInt64 \<Rightarrow> float_to_int f
      | TUInt64 \<Rightarrow> float_to_uint f
      | _ \<Rightarrow> None)"
| "coerce (VDecimal d) ty =
     (case ty of
        TDecimal dt \<Rightarrow> map_option VDecimal (rescale d dt)
      | TInt64 \<Rightarrow> decimal_to_int d
      | TUInt64 \<Rightarrow> decimal_to_uint d
      | _ \<Rightarrow> None)"
| "coerce (VString s) ty = (case ty of TString \<Rightarrow> Some (VString s) | _ \<Rightarrow> None)"
| "coerce (VBytes b) ty = (case ty of TBytes \<Rightarrow> Some (VBytes b) | _ \<Rightarrow> None)"
| "coerce (VTimestamp t) ty = (case ty of TTimestamp \<Rightarrow> Some (VTimestamp t) | _ \<Rightarrow> None)"
| "coerce (VDate d) ty =
     (case ty of TDate \<Rightarrow> Some (VDate d) | TTimestamp \<Rightarrow> date_to_timestamp d | _ \<Rightarrow> None)"
| "coerce (VUuid u) ty = (case ty of TUuid \<Rightarrow> Some (VUuid u) | _ \<Rightarrow> None)"
| "coerce (VIp i) ty = (case ty of TIp \<Rightarrow> Some (VIp i) | _ \<Rightarrow> None)"
| "coerce (VList items) ty =
     (case ty of
        TList elem \<Rightarrow> map_option VList (those (map (\<lambda>item. coerce item elem) items))
      | _ \<Rightarrow> None)"

definition fits :: "val \<Rightarrow> data_type \<Rightarrow> bool" where
  "fits v ty \<longleftrightarrow> coerce v ty \<noteq> None"

end
