(* ===== verification/Value_Order.thy ===== *)
theory Value_Order
  imports Types
begin

text \<open>
  Theorems on \<open>src/types/order.rs\<close>: \<open>total_cmp\<close> is a total preorder on the values of each
  kind, \<open>decimal_cmp\<close> compares exact values at any two scales without overflow, and
  \<open>sql_eq\<close> agrees with the order except on NaN and NULL. The contract of a comparison is
  the locale \<open>cmp_on\<close>; byte strings and values are instances of it.
\<close>


section \<open>Comparisons as total preorders\<close>

text \<open>
  What sorting, min/max and pruning rely on: on the values of one kind the comparison
  always answers, and its answers are those of a total preorder.
\<close>

definition flip :: "ordering \<Rightarrow> ordering" where
  "flip c = (case c of Less \<Rightarrow> Greater | Equal \<Rightarrow> Equal | Greater \<Rightarrow> Less)"

lemma flip_iff [simp]:
  "flip c = Less \<longleftrightarrow> c = Greater" "flip c = Equal \<longleftrightarrow> c = Equal" "flip c = Greater \<longleftrightarrow> c = Less"
  by (cases c; simp add: flip_def)+

lemma flip_simps [simp]: "flip Less = Greater" "flip Equal = Equal" "flip Greater = Less"
  by (simp_all add: flip_def)

locale cmp_on =
  fixes S :: "'a \<Rightarrow> bool" and c :: "'a \<Rightarrow> 'a \<Rightarrow> ordering option"
  assumes answers: "S a \<Longrightarrow> S b \<Longrightarrow> c a b \<noteq> None"
    and refl: "S a \<Longrightarrow> c a a = Some Equal"
    and flipped: "S a \<Longrightarrow> S b \<Longrightarrow> c b a = map_option flip (c a b)"
    and trans: "S a \<Longrightarrow> S b \<Longrightarrow> S d \<Longrightarrow> c a b \<noteq> Some Greater \<Longrightarrow> c b d \<noteq> Some Greater \<Longrightarrow>
      c a d \<noteq> Some Greater"
begin

lemma greater_iff: "S a \<Longrightarrow> S b \<Longrightarrow> c a b = Some Greater \<longleftrightarrow> c b a = Some Less"
  using flipped [of b a] by (cases "c b a") auto

lemma equal_iff: "S a \<Longrightarrow> S b \<Longrightarrow> c a b = Some Equal \<longleftrightarrow> c b a = Some Equal"
  using flipped [of b a] by (cases "c b a") auto

lemma less_or: "S a \<Longrightarrow> S b \<Longrightarrow> c a b = Some Less \<or> c a b = Some Equal \<or> c a b = Some Greater"
  using answers [of a b] by (metis not_None_eq ordering.exhaust)

lemma equal_left:
  assumes "S a" "S b" "S d" "c a b = Some Equal"
  shows "c a d = c b d"
proof -
  have ba: "c b a = Some Equal" using assms equal_iff by blast
  consider "c a d = Some Less" | "c a d = Some Equal" | "c a d = Some Greater" using less_or assms by blast
  moreover have "c b d \<noteq> Some Greater" if "c a d \<noteq> Some Greater"
    using trans [of b a d] assms ba that by simp
  moreover have "c a d \<noteq> Some Greater" if "c b d \<noteq> Some Greater"
    using trans [of a b d] assms that by simp
  moreover have "c d b \<noteq> Some Greater" if "c d a \<noteq> Some Greater"
    using trans [of d a b] assms that by simp
  moreover have "c d a \<noteq> Some Greater" if "c d b \<noteq> Some Greater"
    using trans [of d b a] assms ba that by simp
  ultimately show ?thesis
    using greater_iff [of a d] greater_iff [of d a] greater_iff [of b d] greater_iff [of d b]
      less_or [of a d] less_or [of b d] assms(1-3) by metis
qed

lemma equal_right:
  assumes "S a" "S b" "S d" "c a b = Some Equal"
  shows "c d a = c d b"
  using equal_left [OF assms] flipped [of a d] flipped [of b d] assms by simp

lemma less_trans:
  assumes "S a" "S b" "S d" "c a b = Some Less" "c b d = Some Less"
  shows "c a d = Some Less"
proof -
  have "c a d \<noteq> Some Greater" using trans [of a b d] assms by simp
  moreover have "c a d \<noteq> Some Equal"
    using equal_right [of a d b] equal_iff [of a d] greater_iff [of b a] assms by auto
  ultimately show ?thesis using less_or [of a d] assms by blast
qed

end

lemma cmp_on_key:
  fixes k :: "'a \<Rightarrow> 'k::linorder"
  assumes "\<And>a b. S a \<Longrightarrow> S b \<Longrightarrow> c a b = Some (cmp (k a) (k b))"
  shows "cmp_on S c"
  by unfold_locales (auto simp: assms cmp_def flip_def split: if_splits)

text \<open>The lexicographic extension, a proper prefix first, is again one.\<close>

fun lex_ext :: "('a \<Rightarrow> 'a \<Rightarrow> ordering option) \<Rightarrow> 'a list \<Rightarrow> 'a list \<Rightarrow> ordering option" where
  "lex_ext c [] [] = Some Equal"
| "lex_ext c [] (y # ys) = Some Less"
| "lex_ext c (x # xs) [] = Some Greater"
| "lex_ext c (x # xs) (y # ys) =
     (case c x y of None \<Rightarrow> None | Some Equal \<Rightarrow> lex_ext c xs ys | Some other \<Rightarrow> Some other)"

lemma lex_ext_cong:
  "(\<And>x y. x \<in> set xs \<Longrightarrow> y \<in> set ys \<Longrightarrow> c x y = c' x y) \<Longrightarrow> lex_ext c xs ys = lex_ext c' xs ys"
  by (induction c xs ys rule: lex_ext.induct) (auto split: option.splits ordering.splits)

lemma lex_ext_cmp_on:
  assumes "cmp_on S c"
  shows "cmp_on (\<lambda>xs. \<forall>x \<in> set xs. S x) (lex_ext c)"
proof
  note L = cmp_on.answers [OF assms] cmp_on.refl [OF assms] cmp_on.flipped [OF assms]
  fix xs ys
  assume xs: "\<forall>x \<in> set xs. S x"
  show "lex_ext c xs xs = Some Equal" using xs by (induction xs) (simp_all add: L)
  assume ys: "\<forall>x \<in> set ys. S x"
  show "lex_ext c xs ys \<noteq> None"
    using xs ys
  proof (induction xs arbitrary: ys)
    case Nil
    then show ?case by (cases ys) simp_all
  next
    case (Cons x xs)
    then show ?case using L(1) by (cases ys) (fastforce split: option.splits ordering.splits)+
  qed
  show "lex_ext c ys xs = map_option flip (lex_ext c xs ys)"
    using xs ys
  proof (induction xs arbitrary: ys)
    case Nil
    then show ?case by (cases ys) (simp_all add: flip_def)
  next
    case (Cons x xs)
    show ?case
    proof (cases ys)
      case [simp]: (Cons y ys')
      have "c y x = map_option flip (c x y)" using Cons.prems by (intro L) simp_all
      moreover have "lex_ext c ys' xs = map_option flip (lex_ext c xs ys')"
        using Cons.prems by (intro Cons.IH) simp_all
      ultimately show ?thesis by (auto split: option.splits ordering.splits)
    qed (simp add: flip_def)
  qed
next
  fix xs ys zs
  assume "\<forall>x \<in> set xs. S x" "\<forall>x \<in> set ys. S x" "\<forall>x \<in> set zs. S x"
    "lex_ext c xs ys \<noteq> Some Greater" "lex_ext c ys zs \<noteq> Some Greater"
  then show "lex_ext c xs zs \<noteq> Some Greater"
  proof (induction xs arbitrary: ys zs)
    case Nil
    then show ?case by (cases zs) simp_all
  next
    case (Cons x xs)
    obtain y ys' where [simp]: "ys = y # ys'" using Cons.prems by (cases ys) simp_all
    obtain z zs' where [simp]: "zs = z # zs'" using Cons.prems by (cases zs) simp_all
    have S: "S x" "S y" "S z" using Cons.prems by simp_all
    have IH: "lex_ext c xs zs' \<noteq> Some Greater"
      if "lex_ext c xs ys' \<noteq> Some Greater" "lex_ext c ys' zs' \<noteq> Some Greater"
      by (rule Cons.IH [of ys']) (use Cons.prems that in simp_all)
    consider "c x y = Some Equal" | "c x y = Some Less"
      using cmp_on.less_or [OF assms S(1,2)] Cons.prems by auto
    then show ?case
    proof cases
      case 1
      then have xz: "c x z = c y z" using cmp_on.equal_left [OF assms S] by blast
      consider "c y z = Some Equal" | "c y z = Some Less"
        using cmp_on.less_or [OF assms S(2,3)] Cons.prems by auto
      then show ?thesis
      proof cases
        case 1
        then have "lex_ext c xs zs' \<noteq> Some Greater" using \<open>c x y = Some Equal\<close> Cons.prems by (intro IH) simp_all
        with 1 xz show ?thesis by simp
      qed (simp add: xz)
    next
      case 2
      consider "c y z = Some Equal" | "c y z = Some Less"
        using cmp_on.less_or [OF assms S(2,3)] Cons.prems by auto
      then have "c x z = Some Less"
      proof cases
        case 1
        then show ?thesis using 2 cmp_on.equal_right [OF assms S(2,3,1)] by simp
      next
        case 2
        then show ?thesis using \<open>c x y = Some Less\<close> cmp_on.less_trans [OF assms S] by blast
      qed
      then show ?thesis by simp
    qed
  qed
qed


section \<open>128-bit arithmetic in range\<close>

lemma sint_i128_range: "- (2 ^ 127) \<le> sint (w :: i128)" "sint (w :: i128) < 2 ^ 127"
  using sint_greater_eq [of w] sint_less [of w] by simp_all

lemma sint_word_of_int_i128: "i128_fits n \<Longrightarrow> sint (word_of_int n :: i128) = n"
  by (simp add: i128_fits_def sint_sbintrunc' signed_take_bit_int_eq_self)

lemma sint_mult_i128: "i128_fits (sint a * sint b) \<Longrightarrow> sint (a * b :: i128) = sint a * sint b"
  by (simp add: i128_fits_def sint_word_ariths signed_take_bit_int_eq_self)

lemma pow10_le_38: "n \<le> 38 \<Longrightarrow> (10::int) ^ n \<le> 10 ^ 38"
  by (rule power_increasing) simp_all

lemma sint_pow10:
  assumes "e \<le> 38"
  shows "sint (pow10 e) = 10 ^ unat e"
proof -
  have "unat e \<le> 38" using assms by (simp add: word_le_nat_alt)
  then have "(10::int) ^ unat e \<le> 10 ^ 38" by (rule pow10_le_38)
  moreover have "(0::int) \<le> 10 ^ unat e" by simp
  moreover have "(10::int) ^ 38 < 2 ^ 127" "- (2 ^ 127) \<le> (0::int)" by simp_all
  ultimately have "i128_fits (10 ^ unat e)" unfolding i128_fits_def by (intro conjI; linarith)
  then show ?thesis using sint_word_of_int_i128 [of "10 ^ unat e"] by (simp add: pow10_def)
qed

lemma uint_unsigned_abs: "uint (unsigned_abs u) = \<bar>sint u\<bar>"
proof -
  have "\<bar>sint u\<bar> \<le> 2 ^ 127" using sint_i128_range [of u] by linarith
  then show ?thesis by (simp add: unsigned_abs_def uint_word_of_int mod_pos_pos_trivial)
qed

lemma unsigned_abs_ge_pow10:
  assumes "e \<le> 38"
  shows "unsigned_abs u \<ge> pow10 e \<longleftrightarrow> 10 ^ unat e \<le> \<bar>sint u\<bar>"
proof -
  have "0 \<le> sint (pow10 e)" using sint_pow10 [OF assms] by simp
  then have "uint (pow10 e) = sint (pow10 e)"
    using sint_i128_range(2) [of "pow10 e"] by (simp add: uint_sint take_bit_int_eq_self)
  then show ?thesis using sint_pow10 [OF assms] by (simp add: word_le_def uint_unsigned_abs)
qed

lemma div_mod_fits:
  assumes "0 < p"
  shows "i128_fits (sint u div p)" "p < 2 ^ 127 \<Longrightarrow> i128_fits (sint (u :: i128) mod p)"
proof -
  have "- (2 ^ 127) \<le> sint u div p"
  proof (cases "0 \<le> sint u")
    case True
    then have "0 \<le> sint u div p" using assms by (simp add: pos_imp_zdiv_nonneg_iff)
    moreover have "- (2 ^ 127) \<le> (0::int)" by simp
    ultimately show ?thesis by linarith
  next
    case False
    then have "sint u * p \<le> sint u * 1" using assms by (intro mult_left_mono_neg) auto
    then have "sint u \<le> sint u div p" using zdiv_mono1 [of "sint u * p" "sint u" p] assms by simp
    then show ?thesis using sint_i128_range(1) [of u] by linarith
  qed
  moreover have "sint u div p < 2 ^ 127"
  proof (cases "0 \<le> sint u")
    case True
    then have "sint u div p \<le> sint u" using assms zdiv_mono2 [of "sint u" 1 p] by simp
    then show ?thesis using sint_i128_range(2) [of u] by linarith
  next
    case False
    then have "sint u div p < 0" using assms by (simp add: div_neg_pos_less0)
    moreover have "(0::int) < 2 ^ 127" by simp
    ultimately show ?thesis by linarith
  qed
  ultimately show "i128_fits (sint u div p)" by (simp add: i128_fits_def)
  assume "p < 2 ^ 127"
  moreover have "0 \<le> sint u mod p" "sint u mod p < p" using assms by simp_all
  moreover have "- (2 ^ 127) \<le> (0::int)" by simp
  ultimately show "i128_fits (sint u mod p)" unfolding i128_fits_def by (intro conjI; linarith)
qed

lemma sint_euclid:
  assumes "e \<le> 38"
  shows "sint (div_euclid u (pow10 e)) = sint u div 10 ^ unat e"
    and "sint (rem_euclid u (pow10 e)) = sint u mod 10 ^ unat e"
proof -
  have "(10::int) ^ unat e < 2 ^ 127" using sint_i128_range(2) [of "pow10 e"] sint_pow10 [OF assms] by simp
  then show "sint (div_euclid u (pow10 e)) = sint u div 10 ^ unat e"
    "sint (rem_euclid u (pow10 e)) = sint u mod 10 ^ unat e"
    by (simp_all only: div_euclid_def rem_euclid_def sint_pow10 [OF assms] sint_word_of_int_i128 div_mod_fits
        zero_less_power zero_less_numeral)
qed

section \<open>Decimals\<close>

definition decimal_wf :: "decimal \<Rightarrow> bool" where
  "decimal_wf d \<longleftrightarrow> dec_scale d \<le> 38 \<and> \<bar>sint (dec_unscaled d)\<bar> < 10 ^ 38"

text \<open>The value times ten to the power 38, an integer for every decimal.\<close>

definition dec_key :: "decimal \<Rightarrow> int" where
  "dec_key d = sint (dec_unscaled d) * 10 ^ (38 - unat (dec_scale d))"

lemma unat_38_minus: "s \<le> 38 \<Longrightarrow> unat (38 - s :: byte) = 38 - unat s"
  by (simp add: unat_sub)

lemma frac_part:
  assumes "s \<le> (38 :: byte)"
  shows "sint (rem_euclid u (pow10 s) * pow10 (38 - s)) = sint u mod 10 ^ unat s * 10 ^ (38 - unat s)"
    and "0 \<le> sint u mod 10 ^ unat s * 10 ^ (38 - unat s)"
    and "sint u mod 10 ^ unat s * 10 ^ (38 - unat s) < 10 ^ 38"
proof -
  have s: "unat s \<le> 38" using assms by (simp add: word_le_nat_alt)
  then have split: "(10::int) ^ unat s * 10 ^ (38 - unat s) = 10 ^ 38" by (simp add: power_add [symmetric])
  have "38 - s \<le> 38" using s by (simp add: word_le_nat_alt unat_38_minus assms)
  then have p: "sint (pow10 (38 - s)) = 10 ^ (38 - unat s)" by (simp add: sint_pow10 unat_38_minus assms)
  show nn: "0 \<le> sint u mod 10 ^ unat s * 10 ^ (38 - unat s)" by simp
  have "sint u mod 10 ^ unat s * 10 ^ (38 - unat s) < 10 ^ unat s * 10 ^ (38 - unat s)"
    by (intro mult_strict_right_mono) simp_all
  then show lt: "sint u mod 10 ^ unat s * 10 ^ (38 - unat s) < 10 ^ 38" unfolding split .
  have "(10::int) ^ 38 < 2 ^ 127" "- (2 ^ 127) \<le> (0::int)" by simp_all
  then have "i128_fits (sint u mod 10 ^ unat s * 10 ^ (38 - unat s))"
    using nn lt unfolding i128_fits_def by (intro conjI; linarith)
  then show "sint (rem_euclid u (pow10 s) * pow10 (38 - s)) = sint u mod 10 ^ unat s * 10 ^ (38 - unat s)"
    using sint_mult_i128 [of "rem_euclid u (pow10 s)" "pow10 (38 - s)"] by (simp add: p sint_euclid [OF assms])
qed

lemma cmp_lexico:
  fixes i f j g m :: int
  assumes "0 \<le> f" "f < m" "0 \<le> g" "g < m"
  shows "then_with (cmp i j) (cmp f g) = cmp (i * m + f) (j * m + g)"
proof -
  have "i * m + f < j * m + g" if "i < j" "0 \<le> g" "f < m" for i j f g
  proof -
    have "(i + 1) * m \<le> j * m" using that assms by (intro mult_right_mono) auto
    then show ?thesis using that by (simp add: algebra_simps)
  qed
  from this [of i j g f] this [of j i f g] assms show ?thesis
    by (cases i j rule: linorder_cases) (auto simp: cmp_def then_with_def)
qed

text \<open>\<open>decimal_cmp\<close> compares the exact values, at any two scales, and never overflows.\<close>

lemma decimal_cmp_key:
  assumes "decimal_wf a" "decimal_wf b"
  shows "decimal_cmp a b = cmp (dec_key a) (dec_key b)"
proof -
  have s: "dec_scale a \<le> 38" "dec_scale b \<le> 38" using assms by (simp_all add: decimal_wf_def)
  have key: "dec_key d = (sint (dec_unscaled d) div 10 ^ unat (dec_scale d)) * 10 ^ 38 +
      sint (dec_unscaled d) mod 10 ^ unat (dec_scale d) * 10 ^ (38 - unat (dec_scale d))"
    if "dec_scale d \<le> 38" for d
  proof -
    let ?u = "sint (dec_unscaled d)" and ?s = "unat (dec_scale d)"
    have "?s \<le> 38" using that by (simp add: word_le_nat_alt)
    then have split: "(10::int) ^ 38 = 10 ^ ?s * 10 ^ (38 - ?s)" by (simp add: power_add [symmetric])
    have "?u * 10 ^ (38 - ?s) = (?u div 10 ^ ?s * 10 ^ ?s + ?u mod 10 ^ ?s) * 10 ^ (38 - ?s)"
      by (simp only: div_mult_mod_eq)
    then show ?thesis unfolding dec_key_def split by (simp only: distrib_right mult.assoc)
  qed
  show ?thesis
    unfolding key [OF s(1)] key [OF s(2)]
    using cmp_lexico [OF frac_part(2,3) [OF s(1)] frac_part(2,3) [OF s(2)]]
    by (simp only: decimal_cmp_def dec_split_def Let_def prod.case sint_euclid [OF s(1)] sint_euclid [OF s(2)]
        frac_part(1) [OF s(1)] frac_part(1) [OF s(2)])
qed


section \<open>Floats\<close>

lemma unat_take_bit_less: "unat (take_bit k w) < 2 ^ k"
  unfolding unsigned_take_bit_eq by (rule take_bit_nat_less_exp)

lemma mask11: "(0x7ff :: u64) = mask 11"
  by (simp add: mask_eq_exp_minus_1)

lemma f64_mant_less: "f64_mant f < 2 ^ 52"
  using unat_take_bit_less [of 52 f] by (simp add: f64_mant_def take_bit_eq_mask)

lemma f64_exp_less: "f64_exp f < 2048"
  using unat_take_bit_less [of 11 "drop_bit 52 f"] by (simp add: f64_exp_def mask11 take_bit_eq_mask)

lemma f64_scaled_bound: "\<bar>f64_scaled f\<bar> < 2 ^ 2099"
proof -
  let ?m = "int (f64_mant f)" and ?e = "f64_exp f"
  have m: "0 \<le> ?m" "?m < 2 ^ 52" using f64_mant_less [of f] by simp_all
  have "(2 ^ 52 + ?m) * 2 ^ (?e - 1) < 2 ^ 53 * 2 ^ 2046"
  proof (rule mult_less_le_imp_less)
    show "(2::int) ^ (?e - 1) \<le> 2 ^ 2046" using f64_exp_less [of f] by (intro power_increasing) simp_all
  qed (use m in simp_all)
  moreover have "?m < 2 ^ 53 * 2 ^ 2046" using m by (intro less_le_trans [OF m(2)]) simp
  moreover have "(2::int) ^ 53 * 2 ^ 2046 = 2 ^ 2099" unfolding power_add [symmetric] by simp
  moreover have "0 \<le> (2 ^ 52 + ?m) * 2 ^ (?e - 1)" using m by simp
  ultimately show ?thesis using m by (auto simp: f64_scaled_def Let_def abs_mult)
qed

lemma f64_scaled_0 [simp]: "f64_scaled 0 = 0"
  by (simp add: f64_scaled_def f64_exp_def f64_mant_def f64_sign_def)

lemma f64_scaled_norm [simp]: "f64_scaled (f64_norm f) = f64_scaled f"
  by (simp add: f64_norm_def)

definition f64_key :: "f64 \<Rightarrow> int" where
  "f64_key f = (if f64_is_nan f then 2 ^ 2099 else f64_scaled f)"

lemma float_total_cmp_key: "float_total_cmp a b = cmp (f64_key a) (f64_key b)"
  using f64_scaled_bound [of a] f64_scaled_bound [of b]
  by (auto simp: float_total_cmp_def f64_key_def cmp_def)

lemma log2_floor_bounds: "0 < n \<Longrightarrow> 2 ^ log2_floor n \<le> n \<and> n < 2 ^ Suc (log2_floor n)"
proof (induction n rule: log2_floor.induct)
  case (1 n)
  show ?case
  proof (cases "n \<le> 1")
    case True
    then show ?thesis using "1.prems" by (simp add: log2_floor.simps [of n])
  next
    case False
    then have "2 ^ log2_floor (n div 2) \<le> n div 2 \<and> n div 2 < 2 ^ Suc (log2_floor (n div 2))"
      by (intro "1.IH") auto
    then show ?thesis using False by (subst (1 2) log2_floor.simps) auto
  qed
qed

lemma bit_nat_less_exp:
  assumes "bit (n :: nat) k" "n < 2 ^ j"
  shows "k < j"
proof -
  have "2 ^ k \<le> n" using assms(1) by (intro leI notI) (simp add: bit_iff_odd)
  then have "(2 :: nat) ^ k < 2 ^ j" using assms(2) by linarith
  then show ?thesis by (rule power_less_imp_less_exp [rotated]) simp
qed

lemma f64_fields:
  assumes "E < 2048" "m < 2 ^ 52" and w: "w = (if s then push_bit 63 1 else 0) OR push_bit 52 (word_of_nat E) OR (word_of_nat m :: f64)"
  shows "f64_exp w = E" "f64_mant w = m" "f64_sign w = s"
proof -
  have E: "bit (word_of_nat E :: f64) k \<Longrightarrow> k < 11" and m: "bit (word_of_nat m :: f64) k \<Longrightarrow> k < 52" for k
    using assms(1,2) bit_nat_less_exp [of E k 11] bit_nat_less_exp [of m k 52] by (auto simp: bit_of_nat_iff)
  have sg: "bit (if s then push_bit 63 1 else 0 :: f64) k \<longleftrightarrow> s \<and> k = 63" for k
    by (cases s) (simp_all only: if_True if_False bit_push_bit_iff bit_1_iff bit_0_eq, auto)
  have b: "bit w k \<longleftrightarrow> (s \<and> k = 63) \<or> (52 \<le> k \<and> bit (word_of_nat E :: f64) (k - 52)) \<or> bit (word_of_nat m :: f64) k" for k
    unfolding w bit_or_iff sg bit_push_bit_iff using E [of "k - 52"] by auto
  have "drop_bit 52 w AND 0x7ff = word_of_nat E" unfolding mask11
    by (rule bit_word_eqI) (auto simp: bit_and_iff bit_mask_iff bit_drop_bit_eq b dest: E m)
  then show "f64_exp w = E" using assms(1) by (simp add: f64_exp_def)
  have "w AND mask 52 = word_of_nat m"
    by (rule bit_word_eqI) (auto simp: bit_and_iff bit_mask_iff b dest: E m)
  then show "f64_mant w = m" using assms(2) by (simp add: f64_mant_def)
  show "f64_sign w = s" using E [of 11] m [of 63] by (auto simp: f64_sign_def b)
qed

lemma f64_of_int_exact:
  assumes "\<bar>n\<bar> \<le> 2 ^ 53"
  shows "f64_scaled (f64_of_int n) = n * 2 ^ 1074 \<and> f64_is_finite (f64_of_int n)"
proof (cases "n = 0")
  case True
  then show ?thesis by (simp add: f64_of_int_def f64_is_finite_def f64_exp_def)
next
  case False
  define a where "a = nat \<bar>n\<bar>"
  define e where "e = log2_floor a"
  define M where "M = a * 2 ^ 52 div 2 ^ e"
  have a: "0 < a" "a \<le> 2 ^ 53" using assms False by (simp_all add: a_def)
  have e: "2 ^ e \<le> a" "a < 2 ^ Suc e" using log2_floor_bounds [OF a(1)] by (simp_all add: e_def)
  have "(2::nat) ^ e \<le> 2 ^ 53" using e(1) a(2) by linarith
  then have e53: "e \<le> 53" by (rule power_le_imp_le_exp [rotated]) simp
  have ex: "M * 2 ^ e = a * 2 ^ 52"
  proof (cases "e = 53")
    case True
    then have "a = 2 ^ 53" using e a by simp
    then show ?thesis using True by (simp add: M_def)
  next
    case False
    then have "(2::nat) ^ e dvd a * 2 ^ 52" using e53 by (intro dvd_mult le_imp_power_dvd) simp
    then show ?thesis by (simp add: M_def)
  qed
  have "2 ^ 52 * 2 ^ e \<le> M * 2 ^ e" using e(1) unfolding ex by simp
  then have M1: "2 ^ 52 \<le> M" by simp
  have "M * 2 ^ e < 2 ^ 53 * 2 ^ e" unfolding ex using e(2) by simp
  then have M2: "M < 2 ^ 53" by simp
  have w: "f64_of_int n = (if n < 0 then push_bit 63 1 else 0) OR push_bit 52 (word_of_nat (1023 + e)) OR word_of_nat (M - 2 ^ 52)"
    using False by (simp add: f64_of_int_def Let_def a_def e_def M_def)
  have f: "f64_exp (f64_of_int n) = 1023 + e" "f64_mant (f64_of_int n) = M - 2 ^ 52" "f64_sign (f64_of_int n) = (n < 0)"
    using f64_fields [OF _ _ w] e53 M2 by auto
  have "(2 ^ 52 + int (M - 2 ^ 52)) = int M" using M1 by simp
  then have "(2 ^ 52 + int (M - 2 ^ 52)) * 2 ^ (1023 + e - 1) = int (M * 2 ^ e) * 2 ^ 1022"
    by (simp only: mult.assoc of_nat_mult of_nat_power of_nat_numeral power_add [symmetric]) (simp add: add.commute)
  also have "\<dots> = int a * 2 ^ 1074" unfolding ex by (simp add: power_add [symmetric])
  finally have "(2 ^ 52 + int (M - 2 ^ 52)) * 2 ^ (1023 + e - 1) = \<bar>n\<bar> * 2 ^ 1074" by (simp add: a_def)
  then show ?thesis using f e53 by (auto simp: f64_scaled_def Let_def f64_is_finite_def)
qed


section \<open>The order of values is total on each kind\<close>

text \<open>
  The values of one kind. Two decimals are of one kind whatever their scales, as
  \<open>total_cmp\<close> has it; a NULL is of no kind, except as a list's element.
\<close>

fun of_kind :: "data_type \<Rightarrow> val \<Rightarrow> bool" where
  "of_kind ty VNull = False"
| "of_kind ty (VBool _) = (ty = TBool)"
| "of_kind ty (VInt64 _) = (ty = TInt64)"
| "of_kind ty (VUInt64 _) = (ty = TUInt64)"
| "of_kind ty (VFloat64 _) = (ty = TFloat64)"
| "of_kind ty (VDecimal d) = (case ty of TDecimal _ \<Rightarrow> decimal_wf d | _ \<Rightarrow> False)"
| "of_kind ty (VString _) = (ty = TString)"
| "of_kind ty (VBytes _) = (ty = TBytes)"
| "of_kind ty (VTimestamp _) = (ty = TTimestamp)"
| "of_kind ty (VDate _) = (ty = TDate)"
| "of_kind ty (VUuid _) = (ty = TUuid)"
| "of_kind ty (VIp _) = (ty = TIp)"
| "of_kind ty (VList items) =
     (case ty of TList elem \<Rightarrow> \<forall>item \<in> set items. item = VNull \<or> of_kind elem item | _ \<Rightarrow> False)"

lemma cmp_on_map:
  assumes "cmp_on S c" "\<And>a. S' a \<Longrightarrow> S (f a)" "\<And>a b. S' a \<Longrightarrow> S' b \<Longrightarrow> c' a b = c (f a) (f b)"
  shows "cmp_on S' c'"
proof
  fix a b d
  assume a: "S' a"
  then show "c' a a = Some Equal" by (simp add: assms cmp_on.refl [OF assms(1)])
  assume b: "S' b"
  show "c' a b \<noteq> None" using a b cmp_on.answers [OF assms(1)] assms(2,3) by simp
  show "c' b a = map_option flip (c' a b)"
    using a b cmp_on.flipped [OF assms(1), of "f a" "f b"] assms(2,3) by simp
  assume "S' d" "c' a b \<noteq> Some Greater" "c' b d \<noteq> Some Greater"
  then show "c' a d \<noteq> Some Greater"
    using a b cmp_on.trans [OF assms(1), of "f a" "f b" "f d"] assms(2,3) by simp
qed

lemma bytes_cmp_lex: "Some (bytes_cmp xs ys) = lex_ext (\<lambda>x y. Some (cmp x y)) xs ys"
  by (induction xs ys rule: bytes_cmp.induct) (auto simp: then_with_def split: ordering.splits)

interpretation bytes_order: cmp_on "\<lambda>_ :: byte list. True" "\<lambda>xs ys. Some (bytes_cmp xs ys)"
proof -
  have "cmp_on (\<lambda>_ :: byte. True) (\<lambda>x y. Some (cmp x y))" by (rule cmp_on_key) (rule refl)
  from lex_ext_cmp_on [OF this] show "cmp_on (\<lambda>_ :: byte list. True) (\<lambda>xs ys. Some (bytes_cmp xs ys))"
    by (simp add: bytes_cmp_lex)
qed

lemma list_cmp_lex: "list_cmp xs ys = lex_ext list_elem_cmp xs ys"
  by (induction list_elem_cmp xs ys rule: lex_ext.induct) (auto simp: list_elem_cmp_def split: option.splits ordering.splits)

lemma nullable_cmp_on:
  assumes "cmp_on S total_cmp" "\<not> S VNull"
  shows "cmp_on (\<lambda>v. v = VNull \<or> S v) list_elem_cmp"
proof
  note L = cmp_on.answers [OF assms(1)] cmp_on.refl [OF assms(1)] cmp_on.flipped [OF assms(1)]
    cmp_on.trans [OF assms(1)]
  fix a b d
  assume a: "a = VNull \<or> S a"
  then show "list_elem_cmp a a = Some Equal" by (auto simp: list_elem_cmp_def L)
  assume b: "b = VNull \<or> S b"
  show "list_elem_cmp a b \<noteq> None" using a b L(1) by (auto simp: list_elem_cmp_def)
  show "list_elem_cmp b a = map_option flip (list_elem_cmp a b)"
    using a b L(3) by (auto simp: list_elem_cmp_def)
  assume "d = VNull \<or> S d" "list_elem_cmp a b \<noteq> Some Greater" "list_elem_cmp b d \<noteq> Some Greater"
  then show "list_elem_cmp a d \<noteq> Some Greater"
    using a b L(4) [of a b d] by (auto simp: list_elem_cmp_def split: if_splits)
qed

fun val_bytes :: "val \<Rightarrow> byte list" where
  "val_bytes (VString s) = s"
| "val_bytes (VBytes s) = s"
| "val_bytes (VUuid s) = s"
| "val_bytes (VIp s) = s"
| "val_bytes _ = []"

fun val_int :: "val \<Rightarrow> int" where
  "val_int (VBool b) = (if b then 1 else 0)"
| "val_int (VInt64 n) = sint n"
| "val_int (VUInt64 n) = uint n"
| "val_int (VFloat64 f) = f64_key f"
| "val_int (VDecimal d) = dec_key d"
| "val_int (VTimestamp n) = sint n"
| "val_int (VDate n) = sint n"
| "val_int _ = 0"

fun val_items :: "val \<Rightarrow> val list" where
  "val_items (VList items) = items"
| "val_items _ = []"

lemma of_kind_cases:
  assumes "of_kind ty v"
  shows "(case ty of
      TBool \<Rightarrow> \<exists>b. v = VBool b | TInt64 \<Rightarrow> \<exists>n. v = VInt64 n | TUInt64 \<Rightarrow> \<exists>n. v = VUInt64 n
    | TFloat64 \<Rightarrow> \<exists>f. v = VFloat64 f | TDecimal _ \<Rightarrow> \<exists>d. v = VDecimal d \<and> decimal_wf d
    | TString \<Rightarrow> \<exists>s. v = VString s | TBytes \<Rightarrow> \<exists>s. v = VBytes s | TTimestamp \<Rightarrow> \<exists>n. v = VTimestamp n
    | TDate \<Rightarrow> \<exists>n. v = VDate n | TUuid \<Rightarrow> \<exists>s. v = VUuid s | TIp \<Rightarrow> \<exists>s. v = VIp s
    | TList e \<Rightarrow> \<exists>items. v = VList items \<and> (\<forall>item \<in> set items. item = VNull \<or> of_kind e item))"
  using assms by (cases v) (auto split: data_type.splits)

text \<open>
  Scalars compare as the integers \<open>val_int\<close> or as byte strings, lists lexicographically
  by their elements.
\<close>

lemma total_cmp_on: "cmp_on (of_kind ty) total_cmp"
proof (induction ty)
  case (TList e)
  have "cmp_on (\<lambda>xs. \<forall>x \<in> set xs. x = VNull \<or> of_kind e x) list_cmp"
    unfolding list_cmp_lex [abs_def] by (intro lex_ext_cmp_on nullable_cmp_on TList) simp
  then show ?case
    by (rule cmp_on_map [of _ _ _ val_items]) (fastforce dest!: of_kind_cases)+
next
  case TString
  show ?case by (rule cmp_on_map [OF bytes_order.cmp_on_axioms, where f = val_bytes]) (auto dest!: of_kind_cases)
next
  case TBytes
  show ?case by (rule cmp_on_map [OF bytes_order.cmp_on_axioms, where f = val_bytes]) (auto dest!: of_kind_cases)
next
  case TUuid
  show ?case by (rule cmp_on_map [OF bytes_order.cmp_on_axioms, where f = val_bytes]) (auto dest!: of_kind_cases)
next
  case TIp
  show ?case by (rule cmp_on_map [OF bytes_order.cmp_on_axioms, where f = val_bytes]) (auto dest!: of_kind_cases)
qed (rule cmp_on_key [where k = val_int];
    auto dest!: of_kind_cases simp: cmp_def decimal_cmp_key float_total_cmp_key word_less_def split: if_splits simp flip: word_uint_eq_iff)+

interpretation value_order: cmp_on "of_kind ty" total_cmp for ty
  by (rule total_cmp_on)


section \<open>SQL equality against the order\<close>

fun has_nan :: "val \<Rightarrow> bool" where
  "has_nan (VFloat64 f) = f64_is_nan f"
| "has_nan (VList items) = (\<exists>item \<in> set items. has_nan item)"
| "has_nan _ = False"

fun has_null :: "val \<Rightarrow> bool" where
  "has_null VNull = True"
| "has_null (VList items) = (\<exists>item \<in> set items. has_null item)"
| "has_null _ = False"

lemma bytes_cmp_Equal [simp]: "bytes_cmp xs ys = Equal \<longleftrightarrow> xs = ys"
  by (induction xs ys rule: bytes_cmp.induct) (auto simp: then_with_def cmp_def split: if_splits)

lemma sint_eq_iff: "sint (a :: 'a::len word) = sint b \<longleftrightarrow> a = b"
  by (auto dest: arg_cong [of _ _ "word_of_int :: int \<Rightarrow> 'a word"])

lemma float_equal_nan: "float_total_cmp f g = Equal \<Longrightarrow> f64_is_nan f = f64_is_nan g"
  by (auto simp: float_total_cmp_def split: if_splits)

lemma f64_eq_key: "f64_eq x y \<longleftrightarrow> \<not> f64_is_nan x \<and> \<not> f64_is_nan y \<and> float_total_cmp x y = Equal"
  by (auto simp: f64_eq_def float_total_cmp_def cmp_def)

lemma sql_eq_null [simp]: "sql_eq x VNull = None"
  by (cases x) simp_all

lemma list_sql_eq_loop_iff:
  assumes "length xs = length ys"
    "\<And>x y. x \<in> set xs \<Longrightarrow> y \<in> set ys \<Longrightarrow> sql_eq x y = Some True \<longleftrightarrow>
       list_elem_cmp x y = Some Equal \<and> \<not> has_nan x \<and> \<not> has_null x"
  shows "list_sql_eq_loop u xs ys = Some True \<longleftrightarrow>
    \<not> u \<and> list_cmp xs ys = Some Equal \<and> (\<forall>x \<in> set xs. \<not> has_nan x \<and> \<not> has_null x)"
  using assms
proof (induction xs ys arbitrary: u rule: list_induct2)
  case (Cons x xs y ys)
  note h = Cons.prems [of x y]
  have "list_sql_eq_loop u xs ys = Some True \<longleftrightarrow>
    \<not> u \<and> list_cmp xs ys = Some Equal \<and> (\<forall>x \<in> set xs. \<not> has_nan x \<and> \<not> has_null x)" for u
    using Cons by simp
  note IH = this
  have lc: "list_cmp (x # xs) (y # ys) = Some Equal \<longleftrightarrow> list_elem_cmp x y = Some Equal \<and> list_cmp xs ys = Some Equal"
    by (auto simp: list_cmp_lex split: option.splits ordering.splits)
  show ?case
  proof (cases "sql_eq x y = Some True")
    case True
    then show ?thesis using h IH [of u] unfolding lc by simp
  next
    case False
    then have "list_sql_eq_loop u (x # xs) (y # ys) \<noteq> Some True"
      using IH [of True] by (auto split: option.splits bool.splits)
    then show ?thesis using h False unfolding lc by (simp del: list_sql_eq_loop.simps) blast
  qed
qed simp_all

text \<open>
  Two values of one kind are SQL-equal exactly when the order calls them equal and
  neither a NaN nor a NULL occurs in them.
\<close>

lemma sql_eq_iff:
  assumes "of_kind ty a" "of_kind ty b"
  shows "sql_eq a b = Some True \<longleftrightarrow> total_cmp a b = Some Equal \<and> \<not> has_nan a \<and> \<not> has_null a"
  using assms
proof (induction ty arbitrary: a b)
  case (TList e)
  then obtain xs ys where [simp]: "a = VList xs" "b = VList ys"
    and xs: "\<forall>x \<in> set xs. x = VNull \<or> of_kind e x" and ys: "\<forall>x \<in> set ys. x = VNull \<or> of_kind e x"
    by (auto dest!: of_kind_cases)
  have el: "sql_eq x y = Some True \<longleftrightarrow> list_elem_cmp x y = Some Equal \<and> \<not> has_nan x \<and> \<not> has_null x"
    if "x \<in> set xs" "y \<in> set ys" for x y
    using TList.IH [of x y] that xs ys by (cases "x = VNull"; cases "y = VNull") (auto simp: list_elem_cmp_def)
  have "list_cmp xs ys = Some Equal \<Longrightarrow> length xs = length ys" for xs ys :: "val list"
    unfolding list_cmp_lex
    by (induction list_elem_cmp xs ys rule: lex_ext.induct) (auto split: option.splits ordering.splits)
  then show ?case using list_sql_eq_loop_iff [OF _ el, where u = False] by auto
qed (auto dest!: of_kind_cases simp: cmp_def f64_eq_key sint_eq_iff float_equal_nan split: if_splits)

section \<open>Properties of the order\<close>

text \<open>
  C21. \<open>total_cmp\<close> orders the values of every column type, decimals of any scale, doubles
  with NaN and signed zeros, and lists with null elements included: it never fails between
  values of one type, it is antisymmetric up to \<open>Equal\<close>, and \<open>Less\<close> and \<open>Equal\<close> are
  transitive.
\<close>

theorem total_cmp_total_order:
  assumes "of_kind ty a" "of_kind ty b" "of_kind ty c"
  shows "(\<exists>r. total_cmp a b = Some r \<and> total_cmp b a = Some (flip r)) \<and> total_cmp a a = Some Equal \<and>
    (total_cmp a b = Some Less \<longrightarrow> total_cmp b c \<in> {Some Less, Some Equal} \<longrightarrow> total_cmp a c = Some Less) \<and>
    (total_cmp a b = Some Equal \<longrightarrow> total_cmp a c = total_cmp b c)"
proof (intro conjI impI)
  show "\<exists>r. total_cmp a b = Some r \<and> total_cmp b a = Some (flip r)"
    using value_order.less_or [OF assms(1,2)] value_order.greater_iff [OF assms(1,2)]
      value_order.greater_iff [OF assms(2,1)] value_order.equal_iff [OF assms(1,2)] by auto
  show "total_cmp a a = Some Equal"
    using value_order.less_or [OF assms(1,1)] value_order.greater_iff [OF assms(1,1)] by auto
  show "total_cmp a b = Some Less \<Longrightarrow> total_cmp b c \<in> {Some Less, Some Equal} \<Longrightarrow> total_cmp a c = Some Less"
    using value_order.less_trans [OF assms] value_order.equal_right [OF assms(2,3,1)] by auto
  show "total_cmp a b = Some Equal \<Longrightarrow> total_cmp a c = total_cmp b c"
    using value_order.equal_left [OF assms] .
qed

theorem total_cmp_total_order_witness:
  "total_cmp (VList [VInt64 3, VNull]) (VList [VInt64 3]) = Some Greater \<and>
   (\<exists>r. total_cmp (VList [VInt64 3, VNull]) (VList [VInt64 3]) = Some r \<and>
        total_cmp (VList [VInt64 3]) (VList [VInt64 3, VNull]) = Some (flip r))"
  using total_cmp_total_order [of "TList TInt64" "VList [VInt64 3, VNull]" "VList [VInt64 3]" "VList []"]
  by (simp add: list_elem_cmp_def cmp_def)

text \<open>
  C22. \<open>decimal_cmp\<close> compares two decimals of any scales by their exact values
  \<open>unscaled / 10 ^ scale\<close>, here over the common denominator \<open>10 ^ 38\<close>, although neither the
  rescaled values nor their difference fit 128 bits.
\<close>

theorem decimal_cmp_exact:
  assumes "decimal_wf a" "decimal_wf b"
  shows "decimal_cmp a b =
    cmp (sint (dec_unscaled a) * 10 ^ (38 - unat (dec_scale a))) (sint (dec_unscaled b) * 10 ^ (38 - unat (dec_scale b)))"
  using decimal_cmp_key [OF assms] by (simp add: dec_key_def)

theorem decimal_cmp_exact_witness:
  "decimal_cmp \<lparr>dec_unscaled = 10 ^ 38 - 1, dec_scale = 0\<rparr> \<lparr>dec_unscaled = 10 ^ 38 - 1, dec_scale = 38\<rparr> = Greater"
  using decimal_cmp_exact [of "\<lparr>dec_unscaled = 10 ^ 38 - 1, dec_scale = 0\<rparr>" "\<lparr>dec_unscaled = 10 ^ 38 - 1, dec_scale = 38\<rparr>"]
  by (simp add: decimal_wf_def cmp_def)

text \<open>
  C23. The SQL equality of two values of one type is true just when the total order calls
  them equal and neither a NaN nor a null is inside them: the two comparisons of the engine
  agree everywhere but there.
\<close>

theorem sql_eq_agrees:
  assumes "of_kind ty a" "of_kind ty b"
  shows "sql_eq a b = Some True \<longleftrightarrow> total_cmp a b = Some Equal \<and> \<not> has_nan a \<and> \<not> has_null a"
  using sql_eq_iff [OF assms] .

theorem sql_eq_agrees_witness:
  "sql_eq (VFloat64 0) (VFloat64 0x8000000000000000) = Some True \<longleftrightarrow>
   total_cmp (VFloat64 0) (VFloat64 0x8000000000000000) = Some Equal \<and> \<not> has_nan (VFloat64 0) \<and> \<not> has_null (VFloat64 0)"
  by (rule sql_eq_agrees [of TFloat64]) simp_all

end
