(* ===== verification/Fit.thy ===== *)
theory Fit
  imports Value_Order
begin

text \<open>
  Theorems on the lossless coercion of \<open>src/types/fit.rs\<close>: what \<open>coerce\<close> returns has the
  column's type, stands for exactly the value it was given, and coerces to itself.
\<close>

section \<open>Well-formed types and typed values\<close>

fun type_ok :: "data_type \<Rightarrow> bool" where
  "type_ok (TDecimal dt) \<longleftrightarrow> 0 < dt_precision dt \<and> dt_precision dt \<le> 38 \<and> dt_scale dt \<le> dt_precision dt"
| "type_ok (TList elem) \<longleftrightarrow> type_ok elem \<and> (\<forall>e. elem \<noteq> TList e)"
| "type_ok _ \<longleftrightarrow> True"

text \<open>The constructors of \<open>datatype.rs\<close> build exactly the well-formed types.\<close>

lemma data_type_decimal_ok: "data_type_decimal p s = Inr ty \<Longrightarrow> type_ok ty"
  by (auto simp: data_type_decimal_def decimal_type_new_def not_less word_gt_0 split: if_splits)

lemma data_type_list_ok: "type_ok elem \<Longrightarrow> data_type_list elem = Inr ty \<Longrightarrow> type_ok ty"
  by (auto simp: data_type_list_def list_type_new_def split: data_type.splits sum.splits)

text \<open>What the Rust types guarantee of a value by construction.\<close>

fun value_ok :: "val \<Rightarrow> bool" where
  "value_ok (VDecimal d) = decimal_wf d"
| "value_ok (VString s) = utf8_valid s"
| "value_ok (VUuid u) = (length u = 16)"
| "value_ok (VIp u) = (length u = 16)"
| "value_ok (VList items) = (\<forall>item \<in> set items. value_ok item)"
| "value_ok _ = True"

fun has_type :: "data_type \<Rightarrow> val \<Rightarrow> bool" where
  "has_type ty VNull = False"
| "has_type ty (VBool _) = (ty = TBool)"
| "has_type ty (VInt64 _) = (ty = TInt64)"
| "has_type ty (VUInt64 _) = (ty = TUInt64)"
| "has_type ty (VFloat64 _) = (ty = TFloat64)"
| "has_type ty (VDecimal d) =
     (case ty of
        TDecimal dt \<Rightarrow> dec_scale d = dt_scale dt \<and> \<bar>sint (dec_unscaled d)\<bar> < 10 ^ unat (dt_precision dt)
      | _ \<Rightarrow> False)"
| "has_type ty (VString s) = (ty = TString \<and> utf8_valid s)"
| "has_type ty (VBytes _) = (ty = TBytes)"
| "has_type ty (VTimestamp _) = (ty = TTimestamp)"
| "has_type ty (VDate _) = (ty = TDate)"
| "has_type ty (VUuid u) = (ty = TUuid \<and> length u = 16)"
| "has_type ty (VIp u) = (ty = TIp \<and> length u = 16)"
| "has_type ty (VList items) =
     (case ty of TList elem \<Rightarrow> \<forall>item \<in> set items. item = VNull \<or> has_type elem item | _ \<Rightarrow> False)"

section \<open>The number a value stands for\<close>

text \<open>
  Every numeric value as an integer at one common scale, two to the 1074 times ten to the
  38; every temporal value in nanoseconds.
\<close>

fun num_val :: "val \<Rightarrow> int option" where
  "num_val (VInt64 n) = Some (sint n * (2 ^ 1074 * 10 ^ 38))"
| "num_val (VUInt64 n) = Some (uint n * (2 ^ 1074 * 10 ^ 38))"
| "num_val (VFloat64 f) = (if f64_is_finite f then Some (f64_scaled f * 10 ^ 38) else None)"
| "num_val (VDecimal d) = Some (dec_key d * 2 ^ 1074)"
| "num_val _ = None"

fun time_val :: "val \<Rightarrow> int option" where
  "time_val (VDate d) = Some (sint d * 86400000000000)"
| "time_val (VTimestamp t) = Some (sint t)"
| "time_val _ = None"

text \<open>Equal as numbers, equal as instants, or equal outright; lists element by element.\<close>

definition same_scalar :: "val \<Rightarrow> val \<Rightarrow> bool" where
  "same_scalar v w \<longleftrightarrow> v = w \<or> (num_val v \<noteq> None \<and> num_val v = num_val w) \<or> (time_val v \<noteq> None \<and> time_val v = time_val w)"

definition same_value :: "val \<Rightarrow> val \<Rightarrow> bool" where
  "same_value v w \<longleftrightarrow> same_scalar v w \<or> (\<exists>xs ys. v = VList xs \<and> w = VList ys \<and> list_all2 same_scalar xs ys)"

section \<open>Decimals\<close>

lemma dt_bounds:
  assumes "type_ok (TDecimal dt)"
  shows "dt_precision dt \<le> 38" "dt_scale dt \<le> 38" "unat (dt_scale dt) \<le> 38"
    "(10::int) ^ unat (dt_precision dt) \<le> 10 ^ 38"
proof -
  show p: "dt_precision dt \<le> 38" and s: "dt_scale dt \<le> 38" using assms by (auto intro: order_trans)
  show "unat (dt_scale dt) \<le> 38" using s by (simp add: word_le_nat_alt)
  have "unat (dt_precision dt) \<le> 38" using p by (simp add: word_le_nat_alt)
  then show "(10::int) ^ unat (dt_precision dt) \<le> 10 ^ 38" by (rule pow10_le_38)
qed

lemma decimal_ok_iff:
  assumes "s \<le> 38"
  shows "decimal_ok u s = (if \<bar>sint u\<bar> < 10 ^ 38 then Some \<lparr>dec_unscaled = u, dec_scale = s\<rparr> else None)"
  unfolding decimal_ok_def decimal_new_def if_not_P [OF leD [OF assms]]
  using unsigned_abs_ge_pow10 [of 38 u] by simp

text \<open>The common tail of \<open>rescale\<close> and \<open>int_to_decimal\<close>: the precision check and \<open>Decimal::new\<close>.\<close>

lemma precision_check:
  assumes "type_ok (TDecimal dt)" "\<not> unsigned_abs u \<ge> pow10 (dt_precision dt)"
  shows "decimal_ok u (dt_scale dt) = Some \<lparr>dec_unscaled = u, dec_scale = dt_scale dt\<rparr>"
    "\<bar>sint u\<bar> < 10 ^ unat (dt_precision dt)"
proof -
  show "\<bar>sint u\<bar> < 10 ^ unat (dt_precision dt)"
    using assms(2) unsigned_abs_ge_pow10 [OF dt_bounds(1) [OF assms(1)]] by simp
  then show "decimal_ok u (dt_scale dt) = Some \<lparr>dec_unscaled = u, dec_scale = dt_scale dt\<rparr>"
    using dt_bounds(2,4) [OF assms(1)] by (simp add: decimal_ok_iff)
qed

lemma checked_mul_sint: "checked_mul_i128 a b = Some c \<Longrightarrow> sint c = sint a * sint b"
  by (auto simp: checked_mul_i128_def sint_mult_i128 split: if_splits)

lemma pow10_split: "a \<le> b \<Longrightarrow> (10::int) ^ b = 10 ^ a * 10 ^ (b - a)"
  by (simp add: power_add [symmetric])

lemma int_to_decimal_exact:
  assumes "type_ok (TDecimal dt)" "int_to_decimal n dt = Some w"
  shows "has_type (TDecimal dt) w \<and> num_val w = Some (sint n * (2 ^ 1074 * 10 ^ 38))"
proof -
  from assms(2) obtain u where m: "checked_mul_i128 n (pow10 (dt_scale dt)) = Some u"
    and p: "\<not> unsigned_abs u \<ge> pow10 (dt_precision dt)"
    and w: "map_option VDecimal (decimal_ok u (dt_scale dt)) = Some w"
    by (auto simp: int_to_decimal_def split: option.splits if_splits)
  have u: "sint u = sint n * 10 ^ unat (dt_scale dt)"
    using checked_mul_sint [OF m] sint_pow10 [OF dt_bounds(2) [OF assms(1)]] by simp
  then show ?thesis
    using w precision_check [OF assms(1) p] pow10_split [OF dt_bounds(3) [OF assms(1)]]
    by (auto simp: dec_key_def)
qed

lemma rescale_exact:
  assumes "type_ok (TDecimal dt)" "decimal_wf d" "rescale d dt = Some e"
  shows "has_type (TDecimal dt) (VDecimal e) \<and> dec_key e = dec_key d"
proof -
  let ?t = "dt_scale dt" and ?s = "dec_scale d"
  have s: "?s \<le> 38" using assms(2) by (simp add: decimal_wf_def)
  note t = dt_bounds(2) [OF assms(1)]
  from s t have n: "unat ?s \<le> 38" "unat ?t \<le> 38" by (simp_all add: word_le_nat_alt)
  from assms(3) obtain u where
    u: "(if ?t \<ge> ?s then checked_mul_i128 (dec_unscaled d) (pow10 (?t - ?s))
         else if rem_euclid (dec_unscaled d) (pow10 (?s - ?t)) \<noteq> 0 then None
              else Some (div_euclid (dec_unscaled d) (pow10 (?s - ?t)))) = Some u"
    and p: "\<not> unsigned_abs u \<ge> pow10 (dt_precision dt)" and e: "decimal_ok u ?t = Some e"
    by (auto simp: rescale_def Let_def split: option.splits if_splits)
  have "sint u * 10 ^ (38 - unat ?t) = dec_key d"
  proof (cases "?t \<ge> ?s")
    case True
    then have ts: "unat (?t - ?s) = unat ?t - unat ?s" "unat ?s \<le> unat ?t"
      by (simp_all add: unat_sub word_le_nat_alt)
    have "?t - ?s \<le> 38" using n ts by (simp add: word_le_nat_alt)
    then have "sint u = sint (dec_unscaled d) * 10 ^ (unat ?t - unat ?s)"
      using u True checked_mul_sint sint_pow10 ts by fastforce
    then show ?thesis using ts n by (simp add: dec_key_def mult.assoc power_add [symmetric])
  next
    case False
    then have st: "unat (?s - ?t) = unat ?s - unat ?t" "unat ?t \<le> unat ?s"
      by (simp_all add: unat_sub word_le_nat_alt)
    have le: "?s - ?t \<le> 38" using n st by (simp add: word_le_nat_alt)
    have r: "rem_euclid (dec_unscaled d) (pow10 (?s - ?t)) = 0"
      and u: "u = div_euclid (dec_unscaled d) (pow10 (?s - ?t))"
      using u False by (auto split: if_splits)
    have "sint (dec_unscaled d) mod 10 ^ (unat ?s - unat ?t) = 0"
      using arg_cong [OF r, of sint] by (simp add: sint_euclid [OF le] st)
    then have "sint u * 10 ^ (unat ?s - unat ?t) = sint (dec_unscaled d)"
      by (simp add: u sint_euclid [OF le] st mod_0_imp_dvd)
    moreover have "(10::int) ^ (38 - unat ?t) = 10 ^ (unat ?s - unat ?t) * 10 ^ (38 - unat ?s)"
      using n st by (simp add: power_add [symmetric])
    ultimately show ?thesis unfolding dec_key_def by (metis mult.assoc)
  qed
  then show ?thesis using e precision_check [OF assms(1) p] by (auto simp: dec_key_def)
qed

section \<open>Integers, floats and instants\<close>

lemma sint_i64_of_int: "- (2 ^ 63) \<le> n \<Longrightarrow> n \<le> 2 ^ 63 - 1 \<Longrightarrow> sint (word_of_int n :: i64) = n"
  by (simp add: sint_sbintrunc' signed_take_bit_int_eq_self)

lemma uint_u64_of_int: "0 \<le> n \<Longrightarrow> n \<le> 2 ^ 64 - 1 \<Longrightarrow> uint (word_of_int n :: u64) = n"
  by (simp add: uint_word_of_int mod_pos_pos_trivial)

lemma ucast_i128: "(ucast (n :: i128) :: 64 word) = word_of_int (sint n)"
  by (rule bit_word_eqI) (simp add: bit_simps bit_word_of_int_iff)

lemma sint_ucast_i128: "- (2 ^ 63) \<le> sint n \<Longrightarrow> sint n \<le> 2 ^ 63 - 1 \<Longrightarrow> sint (ucast (n :: i128) :: i64) = sint n"
  unfolding ucast_i128 by (rule sint_i64_of_int)

lemma uint_ucast_i128: "0 \<le> sint n \<Longrightarrow> sint n \<le> 2 ^ 64 - 1 \<Longrightarrow> uint (ucast (n :: i128) :: u64) = sint n"
  unfolding ucast_i128 by (rule uint_u64_of_int)

lemma decimal_div_exact:
  assumes "decimal_wf d" "rem_euclid (dec_unscaled d) (pow10 (dec_scale d)) = 0"
  shows "sint (div_euclid (dec_unscaled d) (pow10 (dec_scale d))) * 10 ^ 38 = dec_key d"
proof -
  let ?s = "dec_scale d"
  have s: "?s \<le> 38" using assms(1) by (simp add: decimal_wf_def)
  then have n: "unat ?s \<le> 38" by (simp add: word_le_nat_alt)
  have "sint (dec_unscaled d) mod 10 ^ unat ?s = 0"
    using arg_cong [OF assms(2), of sint] by (simp add: sint_euclid [OF s])
  then have "sint (dec_unscaled d) div 10 ^ unat ?s * 10 ^ unat ?s = sint (dec_unscaled d)"
    by (simp add: mod_0_imp_dvd)
  then show ?thesis unfolding sint_euclid [OF s] dec_key_def pow10_split [OF n] by (metis mult.assoc)
qed

lemma decimal_to_int_exact:
  assumes "decimal_wf d" "decimal_to_int d = Some w"
  shows "has_type TInt64 w \<and> num_val w = num_val (VDecimal d)"
  using assms(2) decimal_div_exact [OF assms(1)]
  by (auto simp: decimal_to_int_def Let_def sint_ucast_i128 ac_simps split: if_splits)

lemma decimal_to_uint_exact:
  assumes "decimal_wf d" "decimal_to_uint d = Some w"
  shows "has_type TUInt64 w \<and> num_val w = num_val (VDecimal d)"
  using assms(2) decimal_div_exact [OF assms(1)]
  by (auto simp: decimal_to_uint_def Let_def uint_ucast_i128 ac_simps split: if_splits)

lemma scaled_integral:
  assumes "f mod 2 ^ 1074 = (0::int)"
  shows "f div 2 ^ 1074 * (2 ^ 1074 * 10 ^ 38) = f * 10 ^ 38"
    and "a * 2 ^ 1074 \<le> f \<longleftrightarrow> a \<le> f div 2 ^ 1074" and "f < b * 2 ^ 1074 \<longleftrightarrow> f div 2 ^ 1074 < b"
proof -
  define K where "K = (2::int) ^ 1074"
  define q where "q = f div K"
  have K: "0 < K" by (simp add: K_def)
  have f: "f = q * K" using assms by (simp add: q_def K_def mod_0_imp_dvd)
  show "f div 2 ^ 1074 * (2 ^ 1074 * 10 ^ 38) = f * 10 ^ 38"
    unfolding K_def [symmetric] q_def [symmetric] by (simp only: f mult.assoc)
  show "a * 2 ^ 1074 \<le> f \<longleftrightarrow> a \<le> f div 2 ^ 1074" "f < b * 2 ^ 1074 \<longleftrightarrow> f div 2 ^ 1074 < b"
    unfolding K_def [symmetric] q_def [symmetric] f using K by simp_all
qed

lemma float_to_int_exact:
  assumes "float_to_int f = Some w"
  shows "has_type TInt64 w \<and> num_val w = num_val (VFloat64 f) \<and> num_val w \<noteq> None"
proof -
  let ?n = "f64_scaled f div 2 ^ 1074"
  have fin: "f64_is_finite f" and int: "f64_scaled f mod 2 ^ 1074 = 0"
    and r: "- (2 ^ 63) * 2 ^ 1074 \<le> f64_scaled f" "f64_scaled f < 2 ^ 63 * 2 ^ 1074"
    and w: "w = VInt64 (word_of_int ?n)"
    using assms unfolding float_to_int_def by (auto simp del: power_numeral split: if_splits)
  have "- (2 ^ 63) \<le> ?n" "?n < 2 ^ 63"
    using r scaled_integral(2) [OF int, of "- (2 ^ 63)"] scaled_integral(3) [OF int, of "2 ^ 63"] by blast+
  then have "sint (word_of_int ?n :: i64) = ?n" by (intro sint_i64_of_int) linarith+
  then show ?thesis using scaled_integral(1) [OF int] fin by (simp only: w has_type.simps num_val.simps if_True option.distinct) simp
qed

lemma float_to_uint_exact:
  assumes "float_to_uint f = Some w"
  shows "has_type TUInt64 w \<and> num_val w = num_val (VFloat64 f) \<and> num_val w \<noteq> None"
proof -
  let ?n = "f64_scaled f div 2 ^ 1074"
  have fin: "f64_is_finite f" and int: "f64_scaled f mod 2 ^ 1074 = 0"
    and r: "0 \<le> f64_scaled f" "f64_scaled f < 2 ^ 64 * 2 ^ 1074"
    and w: "w = VUInt64 (word_of_int ?n)"
    using assms unfolding float_to_uint_def by (auto simp del: power_numeral split: if_splits)
  have "0 \<le> ?n" "?n < 2 ^ 64"
    using r scaled_integral(2) [OF int, of 0] scaled_integral(3) [OF int, of "2 ^ 64"] by auto
  then have "uint (word_of_int ?n :: u64) = ?n" by (intro uint_u64_of_int) linarith+
  then show ?thesis using scaled_integral(1) [OF int] fin by (simp only: w has_type.simps num_val.simps if_True option.distinct) simp
qed

lemma sint_ucast_u64_i128: "sint (ucast (n :: u64) :: i128) = uint n"
proof -
  have "0 \<le> uint n" "uint n < 2 ^ 64" using uint_lt2p [of n] by simp_all
  then have "- (2 ^ 127) \<le> uint n" "uint n < 2 ^ 127" by (simp_all add: order_trans [of _ 0])
  then show ?thesis
    using uint_lt2p [of n] by (simp add: sint_uint unsigned_ucast_eq take_bit_int_eq_self signed_take_bit_int_eq_self)
qed

lemma sint_small: "uint (n :: u64) \<le> 2 ^ 63 - 1 \<Longrightarrow> sint n = uint n"
  using sint_greater_eq [of n] by (auto simp: uint_le_sint split: if_splits)

lemma sint_scast_i64_i128: "sint (scast (n :: i64) :: i128) = sint n"
proof -
  have "- (2 ^ 63) \<le> sint n" "sint n < 2 ^ 63" using sint_greater_eq [of n] sint_less [of n] by simp_all
  then show ?thesis by (simp add: signed_scast_eq signed_take_bit_int_eq_self)
qed

lemma date_to_timestamp_exact:
  assumes "date_to_timestamp d = Some w"
  shows "has_type TTimestamp w \<and> time_val w = time_val (VDate d)"
proof -
  have "- (2 ^ 31) \<le> sint d" "sint d < 2 ^ 31" using sint_greater_eq [of d] sint_less [of d] by simp_all
  moreover from this have "sint (scast d :: i128) = sint d"
    by (simp add: signed_scast_eq signed_take_bit_int_eq_self)
  ultimately have ns: "sint ((scast d :: i128) * 86400000000000) = sint d * 86400000000000"
    by (simp add: sint_word_ariths signed_take_bit_int_eq_self)
  then show ?thesis using assms
    by (auto simp: date_to_timestamp_def Let_def sint_ucast_i128 simp del: of_int_sint split: if_splits)
qed

section \<open>Coercion\<close>

lemma those_Some_iff: "those xs = Some ys \<longleftrightarrow> xs = map Some ys"
  by (induction xs arbitrary: ys) (auto split: option.splits simp: Cons_eq_map_conv)

lemma coerce_scalar:
  assumes "coerce v ty = Some w" "value_ok v" "type_ok ty" "\<And>e. ty \<noteq> TList e"
  shows "(w = VNull \<or> has_type ty w) \<and> same_scalar v w"
proof (cases v)
  case (VInt64 n)
  then show ?thesis using assms f64_of_int_exact [of "sint n"] int_to_decimal_exact [of _ "scast n" w]
    by (auto simp: same_scalar_def uint_le_sint sint_scast_i64_i128 split: data_type.splits if_splits)
next
  case (VUInt64 n)
  then show ?thesis using assms f64_of_int_exact [of "uint n"] int_to_decimal_exact [of _ "ucast n" w]
    by (auto simp: same_scalar_def sint_ucast_u64_i128 sint_small split: data_type.splits if_splits)
next
  case (VFloat64 f)
  then show ?thesis using assms float_to_int_exact [of f w] float_to_uint_exact [of f w]
    by (auto simp: same_scalar_def split: data_type.splits if_splits)
next
  case (VDecimal d)
  then show ?thesis
    using assms decimal_to_int_exact [of d w] decimal_to_uint_exact [of d w] rescale_exact [of _ d]
    by (auto simp: same_scalar_def split: data_type.splits if_splits)
next
  case (VDate d)
  then show ?thesis using assms date_to_timestamp_exact [of d w]
    by (auto simp: same_scalar_def split: data_type.splits if_splits)
qed (use assms in \<open>auto simp: same_scalar_def split: data_type.splits\<close>)

lemma coerce_has_type:
  assumes "coerce v ty = Some w" "value_ok v" "type_ok ty"
  shows "w = VNull \<or> has_type ty w" "same_value v w"
proof -
  have "(w = VNull \<or> has_type ty w) \<and> same_value v w"
  proof (cases "\<exists>e. ty = TList e")
    case True
    then obtain e where ty: "ty = TList e" by blast
    show ?thesis
    proof (cases "\<exists>items. v = VList items")
      case True
      then obtain xs where v: "v = VList xs" by blast
      then obtain ys where w: "w = VList ys" and m: "map (\<lambda>x. coerce x e) xs = map Some ys"
        using assms(1) ty by (auto simp: those_Some_iff)
      have len: "length xs = length ys" using m by (metis length_map)
      have el: "(ys ! i = VNull \<or> has_type e (ys ! i)) \<and> same_scalar (xs ! i) (ys ! i)" if "i < length xs" for i
        using coerce_scalar [of "xs ! i" e "ys ! i"] that m len assms(2,3) v ty
        by (auto simp: list_eq_iff_nth_eq)
      then have "list_all2 same_scalar xs ys" by (simp add: list_all2_conv_all_nth len)
      moreover have "\<forall>y \<in> set ys. y = VNull \<or> has_type e y" using el len by (metis in_set_conv_nth)
      ultimately show ?thesis by (simp add: v w ty same_value_def)
    next
      case False
      then have "v = VNull" using assms(1) ty by (cases v) (auto simp: date_to_timestamp_def)
      then show ?thesis using assms(1) by (simp add: same_value_def same_scalar_def)
    qed
  next
    case False
    then show ?thesis using coerce_scalar [OF assms] by (auto simp: same_value_def)
  qed
  then show "w = VNull \<or> has_type ty w" "same_value v w" by simp_all
qed

lemma has_type_value_ok:
  assumes "type_ok ty" "has_type ty v"
  shows "value_ok v"
  using assms
proof (induction ty arbitrary: v)
  case (TDecimal dt)
  then show ?case using dt_bounds [OF TDecimal(1)] by (cases v) (auto simp: decimal_wf_def)
next
  case (TList e)
  then show ?case by (cases v) fastforce+
qed (auto elim!: has_type.elims)

text \<open>A value that already has the column's type is stored as it is.\<close>

lemma coerce_id:
  assumes "type_ok ty" "has_type ty v"
  shows "coerce v ty = Some v"
  using assms
proof (induction ty arbitrary: v)
  case (TDecimal dt)
  obtain d where v: "v = VDecimal d" and s: "dec_scale d = dt_scale dt"
    and u: "\<bar>sint (dec_unscaled d)\<bar> < 10 ^ unat (dt_precision dt)"
    using TDecimal.prems by (cases v) auto
  have "checked_mul_i128 (dec_unscaled d) (pow10 0) = Some (dec_unscaled d)"
    using sint_i128_range [of "dec_unscaled d"] by (simp add: checked_mul_i128_def pow10_def i128_fits_def)
  moreover have p: "\<not> unsigned_abs (dec_unscaled d) \<ge> pow10 (dt_precision dt)"
    using u unsigned_abs_ge_pow10 [OF dt_bounds(1) [OF TDecimal.prems(1)]] by simp
  ultimately have "rescale d dt = Some \<lparr>dec_unscaled = dec_unscaled d, dec_scale = dt_scale dt\<rparr>"
    using precision_check(1) [OF TDecimal.prems(1) p] s by (simp add: rescale_def Let_def)
  then show ?case using v s by (cases d) simp
next
  case (TList e)
  then obtain xs where v: "v = VList xs" "\<forall>x \<in> set xs. x = VNull \<or> has_type e x"
    by (cases v) auto
  have "coerce x e = Some x" if "x \<in> set xs" for x
    using v(2) that TList.IH [of x] TList.prems(1) by (cases "x = VNull") auto
  then have "map (\<lambda>x. coerce x e) xs = map Some xs" by simp
  then show ?case by (simp add: v(1) those_Some_iff)
qed (auto elim!: has_type.elims)

lemma has_type_of_kind:
  assumes "type_ok ty" "has_type ty v"
  shows "of_kind ty v"
  using assms
proof (induction ty arbitrary: v)
  case (TDecimal dt)
  then show ?case using has_type_value_ok [OF TDecimal] by (cases v) auto
next
  case (TList e)
  then show ?case by (cases v) auto
qed (auto elim!: has_type.elims)

section \<open>Properties of coercion\<close>

text \<open>
  C24. \<open>coerce\<close> loses nothing: a value it accepts becomes null or a value of the target type
  that stands for the same number, instant, text or list; integers, doubles and decimals
  keep their exact value at every width and scale.
\<close>

theorem coerce_lossless:
  assumes "coerce v ty = Some w" "value_ok v" "type_ok ty"
  shows "(w = VNull \<or> has_type ty w) \<and> same_value v w"
  using coerce_has_type [OF assms] by blast

theorem coerce_lossless_witness:
  "coerce (VDecimal \<lparr>dec_unscaled = 500, dec_scale = 2\<rparr>) TInt64 = Some (VInt64 5) \<and>
   same_value (VDecimal \<lparr>dec_unscaled = 500, dec_scale = 2\<rparr>) (VInt64 5)"
proof -
  have c: "coerce (VDecimal \<lparr>dec_unscaled = 500, dec_scale = 2\<rparr>) TInt64 = Some (VInt64 5)" by code_simp
  show ?thesis using coerce_lossless [OF c] c by (simp add: decimal_wf_def)
qed

text \<open>
  A value that has a type is accepted by \<open>coerce\<close> to that type and unchanged by it, so
  coercing twice is coercing once and every value of a column can be inserted again.
\<close>

lemma coerce_idempotent:
  assumes "type_ok ty" "has_type ty v"
  shows "coerce v ty = Some v \<and> fits v ty"
  using coerce_id [OF assms] by (simp add: fits_def)

theorem coerce_idempotent_witness:
  "coerce (VList [VString [104], VNull]) (TList TString) = Some (VList [VString [104], VNull]) \<and>
   fits (VList [VString [104], VNull]) (TList TString)"
  by (rule coerce_idempotent) (simp_all add: utf8_valid.simps)

end
