(* ===== verification/Value_Codec.thy ===== *)
theory Value_Codec
  imports Codecs Fit
begin

text \<open>
  The value codec of footer statistics, value sets and bloom keys
  (\<open>storage/segment/value.rs\<close>) and the type descriptors (\<open>storage/segment/type_id.rs\<close>).
\<close>

section \<open>Values\<close>

text \<open>\<open>None\<close> is the panic on a value that does not match the type.\<close>

fun encode_value :: "val \<Rightarrow> data_type \<Rightarrow> sink \<Rightarrow> sink option" where
  "encode_value (VBool b) ty out = (if ty = TBool then Some (sink_u8 (if b then 1 else 0) out) else None)"
| "encode_value (VInt64 x) ty out = (if ty = TInt64 then Some (sink_i64 x out) else None)"
| "encode_value (VUInt64 x) ty out = (if ty = TUInt64 then Some (sink_u64 x out) else None)"
| "encode_value (VFloat64 x) ty out = (if ty = TFloat64 then Some (sink_u64 x out) else None)"
| "encode_value (VDecimal d) ty out = (case ty of TDecimal _ \<Rightarrow> Some (sink_i128 (dec_unscaled d) out) | _ \<Rightarrow> None)"
| "encode_value (VString s) ty out = (if ty = TString then Some (sink_str s out) else None)"
| "encode_value (VBytes b) ty out = (if ty = TBytes then Some (sink_bytes b out) else None)"
| "encode_value (VTimestamp x) ty out = (if ty = TTimestamp then Some (sink_i64 x out) else None)"
| "encode_value (VDate x) ty out = (if ty = TDate then Some (sink_i32 x out) else None)"
| "encode_value (VUuid u) ty out = (if ty = TUuid then Some (sink_raw u out) else None)"
| "encode_value (VIp u) ty out = (if ty = TIp then Some (sink_raw u out) else None)"
| "encode_value _ ty out = None"

fun decode_value :: "data_type \<Rightarrow> val rd" where
  "decode_value TBool = rbind cur_u8 (\<lambda>b.
     if b = 0 then rret (VBool False) else if b = 1 then rret (VBool True)
     else rerr (Malformed ''bool byte not 0 or 1''))"
| "decode_value TInt64 = rbind cur_i64 (\<lambda>x. rret (VInt64 x))"
| "decode_value TUInt64 = rbind cur_u64 (\<lambda>x. rret (VUInt64 x))"
| "decode_value TFloat64 = rbind cur_u64 (\<lambda>x. rret (VFloat64 x))"
| "decode_value (TDecimal dt) = rbind cur_i128 (\<lambda>u.
     if unsigned_abs u \<ge> pow10 (dt_precision dt) then rerr (Malformed ''decimal magnitude exceeds precision'')
     else (case decimal_new u (dt_scale dt) of
             Inl _ \<Rightarrow> rerr (Malformed ''bad decimal value'')
           | Inr d \<Rightarrow> rret (VDecimal d)))"
| "decode_value TString = rbind cur_str (\<lambda>s. rret (VString s))"
| "decode_value TBytes = rbind cur_bytes (\<lambda>b. rret (VBytes b))"
| "decode_value TTimestamp = rbind cur_i64 (\<lambda>x. rret (VTimestamp x))"
| "decode_value TDate = rbind cur_i32 (\<lambda>x. rret (VDate x))"
| "decode_value TUuid = rbind (cur_raw 16) (\<lambda>u. rret (VUuid u))"
| "decode_value TIp = rbind (cur_raw 16) (\<lambda>u. rret (VIp u))"
| "decode_value (TList _) = rerr (Malformed ''list has no value codec'')"

definition encode_opt :: "val option \<Rightarrow> data_type \<Rightarrow> sink \<Rightarrow> sink option" where
  "encode_opt v ty out = (case v of Some v \<Rightarrow> encode_value v ty (sink_u8 1 out) | None \<Rightarrow> Some (sink_u8 0 out))"

definition decode_opt :: "data_type \<Rightarrow> val option rd" where
  "decode_opt ty = rbind cur_u8 (\<lambda>tag.
     if tag = 0 then rret None
     else if tag = 1 then rbind (decode_value ty) (\<lambda>v. rret (Some v))
     else rerr (Malformed ''opt_value tag not 0 or 1''))"

definition value_bytes :: "val \<Rightarrow> data_type \<Rightarrow> byte list option" where
  "value_bytes v ty = encode_value v ty sink_new"

section \<open>Type descriptors\<close>

definition TYPE_LIST :: u64 where
  "TYPE_LIST = 12"

definition encode_raw_type :: "u64 \<Rightarrow> byte list \<Rightarrow> sink \<Rightarrow> sink" where
  "encode_raw_type i params out = sink_bytes params (sink_uvarint i out)"

fun encode_type :: "data_type \<Rightarrow> sink \<Rightarrow> sink" where
  "encode_type TBool out = encode_raw_type 1 [] out"
| "encode_type TInt64 out = encode_raw_type 2 [] out"
| "encode_type TUInt64 out = encode_raw_type 3 [] out"
| "encode_type TFloat64 out = encode_raw_type 4 [] out"
| "encode_type (TDecimal dt) out = encode_raw_type 5 [dt_precision dt, dt_scale dt] out"
| "encode_type TString out = encode_raw_type 6 [] out"
| "encode_type TBytes out = encode_raw_type 7 [] out"
| "encode_type TTimestamp out = encode_raw_type 8 [] out"
| "encode_type TDate out = encode_raw_type 9 [] out"
| "encode_type TUuid out = encode_raw_type 10 [] out"
| "encode_type TIp out = encode_raw_type 11 [] out"
| "encode_type (TList elem) out = encode_raw_type TYPE_LIST (encode_type elem sink_new) out"

text \<open>The match on the id, \<open>elem\<close> reading a list's element type from the parameters.\<close>

definition type_of_id :: "data_type rd \<Rightarrow> u64 \<Rightarrow> byte list \<Rightarrow> decode_error + data_type" where
  "type_of_id elem i params =
     (if i = 1 then Inr TBool else if i = 2 then Inr TInt64 else if i = 3 then Inr TUInt64
      else if i = 4 then Inr TFloat64
      else if i = 5 then
        (case rbind cur_u8 (\<lambda>precision. rbind cur_u8 (\<lambda>scale. rret (data_type_decimal precision scale))) (cur_new params) of
           Inl e \<Rightarrow> Inl e
         | Inr (Inl _, _) \<Rightarrow> Inl (Malformed ''bad decimal params'')
         | Inr (Inr ty, _) \<Rightarrow> Inr ty)
      else if i = 6 then Inr TString else if i = 7 then Inr TBytes else if i = 8 then Inr TTimestamp
      else if i = 9 then Inr TDate else if i = 10 then Inr TUuid else if i = 11 then Inr TIp
      else if i = TYPE_LIST then
        (case elem (cur_new params) of
           Inl e \<Rightarrow> Inl e
         | Inr (ty, _) \<Rightarrow> (case data_type_list ty of Inl _ \<Rightarrow> Inl (Malformed ''nested list'') | Inr t \<Rightarrow> Inr t))
      else Inl (UnknownTypeId i))"

definition decode_type_with :: "data_type rd \<Rightarrow> bool \<Rightarrow> data_type rd" where
  "decode_type_with elem list_ok = rbind cur_uvarint (\<lambda>i.
     if i = TYPE_LIST \<and> \<not> list_ok then rerr (Malformed ''nested list'')
     else rbind cur_bytes (\<lambda>params.
       case type_of_id elem i params of Inl e \<Rightarrow> rerr e | Inr ty \<Rightarrow> rret ty))"

text \<open>The recursion is two calls deep: an element's decoder refuses a list by its id.\<close>

definition decode_type_at :: "bool \<Rightarrow> data_type rd" where
  "decode_type_at list_ok =
     decode_type_with (decode_type_with (rerr (Malformed ''nested list'')) False) list_ok"

definition decode_type :: "data_type rd" where
  "decode_type = decode_type_at True"

section \<open>Round trips\<close>

definition storable :: "data_type \<Rightarrow> val \<Rightarrow> bool" where
  "storable ty v \<longleftrightarrow> type_ok ty \<and> has_type ty v \<and> (\<forall>e. ty \<noteq> TList e) \<and>
     (case v of VString s \<Rightarrow> length s < 2 ^ 64 | VBytes b \<Rightarrow> length b < 2 ^ 64 | _ \<Rightarrow> True)"

lemma reads_field:
  "codec enc dec D \<Longrightarrow> D x \<Longrightarrow> reads (f x) [] y \<Longrightarrow> reads (rbind dec f) (enc x []) y"
  using reads_rbind [OF reads_codec, of enc dec D x f "[]" y] by simp

lemma reads_wrap: "codec enc dec D \<Longrightarrow> D x \<Longrightarrow> reads (rbind dec (\<lambda>x. rret (f x))) (enc x []) (f x)"
  by (rule reads_field) (assumption | rule reads_rret)+

lemma reads_ret: "x = y \<Longrightarrow> reads (rret x) [] y"
  using reads_rret by simp

lemma raw_codec: "codec sink_raw (cur_raw n) (\<lambda>u. length u = n)"
proof
  show "sink_raw x s = s @ sink_raw x []" for x s by (simp add: sink_raw_def)
  show "rd_safe (cur_raw n)" by (rule rd_safe_raw)
  show "cur_raw n c = Inr (x, cur_advance (length (sink_raw x [])) c)" if "length x = n" "cursor_at c (sink_raw x [] @ ys)" for x c ys
    using cur_take_at [of c x ys] that by (simp add: sink_raw_def cur_raw_def)
qed

lemma decimal_readable:
  assumes "type_ok (TDecimal dt)" "dec_scale d = dt_scale dt" "\<bar>sint (dec_unscaled d)\<bar> < 10 ^ unat (dt_precision dt)"
  shows "\<not> unsigned_abs (dec_unscaled d) \<ge> pow10 (dt_precision dt)" "decimal_new (dec_unscaled d) (dt_scale dt) = Inr d"
proof -
  show a: "\<not> unsigned_abs (dec_unscaled d) \<ge> pow10 (dt_precision dt)"
    using unsigned_abs_ge_pow10 dt_bounds(1) [OF assms(1)] assms(3) by simp
  show "decimal_new (dec_unscaled d) (dt_scale dt) = Inr d"
    using precision_check(1) [OF assms(1) a] assms(2)
    by (auto simp: decimal_ok_def split: sum.splits)
qed

lemma encode_value_reads:
  assumes "storable ty v"
  shows "\<exists>b. (\<forall>out. encode_value v ty out = Some (out @ b)) \<and> reads (decode_value ty) b v"
proof -
  show ?thesis
  proof (cases v)
    case (VBool b)
    then have "ty = TBool" using assms by (simp add: storable_def)
    moreover have "reads (decode_value TBool) (sink_u8 (if b then 1 else 0) []) v"
      unfolding decode_value.simps by (rule reads_field [OF u8_codec.codec_axioms]) (use VBool in \<open>simp_all add: reads_rret\<close>)
    ultimately show ?thesis
      using VBool by (intro exI [of _ "sink_u8 (if b then 1 else 0) []"]) (simp add: sink_u8_def)
  next
    case (VDecimal d)
    then obtain dt where ty: "ty = TDecimal dt" and d: "dec_scale d = dt_scale dt" "\<bar>sint (dec_unscaled d)\<bar> < 10 ^ unat (dt_precision dt)"
      using assms by (auto simp: storable_def split: data_type.splits)
    have "type_ok (TDecimal dt)" using assms ty by (simp add: storable_def)
    note r = decimal_readable [OF this d]
    have "reads (decode_value ty) (sink_i128 (dec_unscaled d) []) v"
      unfolding ty decode_value.simps
      by (rule reads_field [OF i128_codec.codec_axioms]) (use r VDecimal in \<open>simp_all add: reads_rret\<close>)
    then show ?thesis using VDecimal ty by (intro exI [of _ "sink_i128 (dec_unscaled d) []"]) (simp add: sink_i128_def)
  next
    case (VInt64 x)
    then show ?thesis using assms reads_wrap [OF i64_codec.codec_axioms, where x = x and f = VInt64]
      by (intro exI [of _ "sink_i64 x []"]) (simp add: storable_def sink_i64_def)
  next
    case (VUInt64 x)
    then show ?thesis using assms reads_wrap [OF u64_codec.codec_axioms, where x = x and f = VUInt64]
      by (intro exI [of _ "sink_u64 x []"]) (simp add: storable_def sink_u64_def)
  next
    case (VFloat64 x)
    then show ?thesis using assms reads_wrap [OF u64_codec.codec_axioms, where x = x and f = VFloat64]
      by (intro exI [of _ "sink_u64 x []"]) (simp add: storable_def sink_u64_def)
  next
    case (VTimestamp x)
    then show ?thesis using assms reads_wrap [OF i64_codec.codec_axioms, where x = x and f = VTimestamp]
      by (intro exI [of _ "sink_i64 x []"]) (simp add: storable_def sink_i64_def)
  next
    case (VDate x)
    then show ?thesis using assms reads_wrap [OF i32_codec.codec_axioms, where x = x and f = VDate]
      by (intro exI [of _ "sink_i32 x []"]) (simp add: storable_def sink_i32_def)
  next
    case (VString x)
    then show ?thesis using assms reads_wrap [OF str_codec.codec_axioms, where x = x and f = VString]
      by (intro exI [of _ "sink_str x []"]) (simp add: storable_def str_codec.enc_append [of x, symmetric])
  next
    case (VBytes x)
    then show ?thesis using assms reads_wrap [OF bytes_codec.codec_axioms, where x = x and f = VBytes]
      by (intro exI [of _ "sink_bytes x []"]) (simp add: storable_def bytes_codec.enc_append [of x, symmetric])
  next
    case (VUuid x)
    then show ?thesis using assms reads_wrap [OF raw_codec [of 16], where x = x and f = VUuid]
      by (intro exI [of _ "sink_raw x []"]) (simp add: storable_def sink_raw_def)
  next
    case (VIp x)
    then show ?thesis using assms reads_wrap [OF raw_codec [of 16], where x = x and f = VIp]
      by (intro exI [of _ "sink_raw x []"]) (simp add: storable_def sink_raw_def)
  qed (use assms in \<open>auto simp: storable_def split: data_type.splits\<close>)
qed


lemma rd_safe_decode_value [rd_safe_intros]: "rd_safe (decode_value ty)"
  by (cases ty) (simp_all only: decode_value.simps, (intro rd_safe_intros)+)

lemma encode_opt_reads:
  assumes "case v of None \<Rightarrow> True | Some v \<Rightarrow> storable ty v"
  shows "\<exists>b. (\<forall>out. encode_opt v ty out = Some (out @ b)) \<and> reads (decode_opt ty) b v \<and> 1 \<le> length b"
proof (cases v)
  case None
  have "reads (decode_opt ty) (sink_u8 0 []) None"
    unfolding decode_opt_def by (rule reads_field [OF u8_codec.codec_axioms]) (simp_all add: reads_rret)
  then show ?thesis by (intro exI [of _ "[0]"]) (simp add: None encode_opt_def sink_u8_def)
next
  case (Some w)
  then obtain b where b: "\<And>out. encode_value w ty out = Some (out @ b)" "reads (decode_value ty) b w"
    using encode_value_reads assms by force
  have "reads (rbind (decode_value ty) (\<lambda>v. rret (Some v))) (b @ []) (Some w)"
    by (rule reads_rbind [where x = w, OF b(2)]) (rule reads_rret)
  then have "reads (decode_opt ty) (sink_u8 1 [] @ b) (Some w)"
    unfolding decode_opt_def
    using reads_rbind [OF reads_codec [OF u8_codec.codec_axioms, of 1], of "\<lambda>tag.
     if tag = 0 then rret None
     else if tag = 1 then rbind (decode_value ty) (\<lambda>v. rret (Some v))
     else rerr (Malformed ''opt_value tag not 0 or 1'')"] by simp
  then show ?thesis using Some b(1) by (intro exI [of _ "1 # b"]) (simp add: encode_opt_def sink_u8_def)
qed

lemma decode_value_typed:
  assumes "decode_value ty c = Inr (v, c')" "type_ok ty"
  shows "has_type ty v"
  using assms
proof (cases ty)
  case (TDecimal dt)
  then obtain u where u: "\<not> unsigned_abs u \<ge> pow10 (dt_precision dt)" "\<exists>d. decimal_new u (dt_scale dt) = Inr d \<and> v = VDecimal d"
    using assms(1) by (auto simp: rbind_eq_Inr_iff split: if_splits sum.splits)
  then show ?thesis using precision_check [OF _ u(1)] assms(2) TDecimal
    by (auto simp: decimal_ok_def split: sum.splits)
qed (auto simp: rbind_eq_Inr_iff cur_raw_def cur_take_def cur_str_valid cur_remaining_def split: if_splits)

subsection \<open>Type descriptors\<close>

lemma encode_raw_type_appends: "appends (encode_raw_type i params)"
  unfolding encode_raw_type_def by (intro appends_intros)

lemma encode_type_raw: "\<exists>i p. encode_type ty = encode_raw_type i p"
  by (cases ty) (simp_all add: fun_eq_iff, blast+)

lemma encode_type_appends [appends_intros]: "appends (encode_type ty)"
  using encode_type_raw [of ty] encode_raw_type_appends by auto

lemma decode_raw_type:
  assumes "i = TYPE_LIST \<Longrightarrow> list_ok" "length params < 2 ^ 64" "type_of_id elem i params = Inr ty"
  shows "reads (decode_type_with elem list_ok) (encode_raw_type i params []) ty"
  unfolding decode_type_with_def encode_raw_type_def
  using assms by (intro reads_step [OF uvarint_codec.codec_axioms] appends_intros) (auto intro!: reads_field [OF bytes_codec.codec_axioms] reads_rret)

lemma decimal_params: "type_ok (TDecimal dt) \<Longrightarrow> type_of_id elem 5 [dt_precision dt, dt_scale dt] = Inr (TDecimal dt)"
  by (auto simp: type_of_id_def rbind_def cur_u8_def cur_take_def cur_new_def cur_remaining_def cur_advance_def
      data_type_decimal_def decimal_type_new_def not_less word_gt_0 split: if_splits)

lemma scalar_type_reads:
  assumes "type_ok ty" "\<And>e. ty \<noteq> TList e"
  shows "reads (decode_type_with elem list_ok) (encode_type ty []) ty"
  using assms decimal_params
  by (cases ty) (auto intro!: decode_raw_type simp: TYPE_LIST_def, auto simp: type_of_id_def)

lemma encode_raw_type_length: "length (encode_raw_type i p []) \<le> 20 + length p"
  using uvarint_length_le_10 [of i] uvarint_length_le_10 [of "word_of_nat (length p)"]
    sink_bytes_append [of p "sink_uvarint i []"]
  by (simp add: encode_raw_type_def) (simp add: sink_bytes_def sink_raw_def)

lemma encode_type_length: "type_ok ty \<Longrightarrow> (\<And>e. ty \<noteq> TList e) \<Longrightarrow> length (encode_type ty []) \<le> 22"
  by (cases ty) (auto intro!: order_trans [OF encode_raw_type_length])

lemma decode_type_reads:
  assumes "type_ok ty"
  shows "reads decode_type (encode_type ty []) ty"
proof (cases "\<exists>e. ty = TList e")
  case True
  then obtain e where e: "ty = TList e" "type_ok e" "\<And>f. e \<noteq> TList f" using assms by auto
  have "reads (decode_type_with (rerr (Malformed ''nested list'')) False) (encode_type e []) e"
    by (rule scalar_type_reads [OF e(2,3)])
  from reads_new [OF this] e have "type_of_id (decode_type_with (rerr (Malformed ''nested list'')) False) TYPE_LIST (encode_type e []) = Inr (TList e)"
    by (auto simp: type_of_id_def TYPE_LIST_def data_type_list_def list_type_new_def split: data_type.splits)
  then show ?thesis
    unfolding decode_type_def decode_type_at_def e(1) encode_type.simps sink_new_def
    using encode_type_length [OF e(2,3)] by (intro decode_raw_type) simp_all
next
  case False
  then show ?thesis unfolding decode_type_def decode_type_at_def using scalar_type_reads assms by blast
qed

lemma decode_type_safe [rd_safe_intros]: "rd_safe elem \<Longrightarrow> rd_safe (decode_type_with elem list_ok)"
  unfolding decode_type_with_def by (auto intro!: rd_safe_intros split: sum.splits)

lemma rd_safe_decode_type [rd_safe_intros]: "rd_safe decode_type"
  unfolding decode_type_def decode_type_at_def by (intro rd_safe_intros)

interpretation type_codec: codec encode_type decode_type type_ok
  by (rule codecI [OF encode_type_appends rd_safe_decode_type decode_type_reads])

lemma type_of_id_ok:
  assumes "type_of_id elem i params = Inr ty" "\<And>c ty c'. elem c = Inr (ty, c') \<Longrightarrow> type_ok ty"
  shows "type_ok ty"
  using assms(1)
  by (auto simp: type_of_id_def rbind_eq_Inr_iff dest!: assms(2) intro: data_type_decimal_ok data_type_list_ok
      split: if_splits sum.splits prod.splits)

lemma decode_type_with_ok:
  assumes "decode_type_with elem list_ok c = Inr (ty, c')" "\<And>c ty c'. elem c = Inr (ty, c') \<Longrightarrow> type_ok ty"
  shows "type_ok ty"
proof -
  obtain i params c1 where "(case type_of_id elem i params of Inl e \<Rightarrow> rerr e | Inr ty \<Rightarrow> rret ty) c1 = Inr (ty, c')"
    using assms(1) by (auto simp: decode_type_with_def rbind_eq_Inr_iff split: if_splits)
  then have "type_of_id elem i params = Inr ty" by (auto split: sum.splits)
  from type_of_id_ok [OF this] assms(2) show ?thesis by blast
qed

lemma decode_type_ok: "decode_type c = Inr (ty, c') \<Longrightarrow> type_ok ty"
  unfolding decode_type_def decode_type_at_def
  by (erule decode_type_with_ok, erule decode_type_with_ok) simp

text \<open>
  C29. Values and type descriptors of a footer: a storable value, that is a value of a scalar
  type with fewer than \<open>2 ^ 64\<close> bytes, is written without a panic and read back bit for bit,
  null or not; every type that can be built is read back from its descriptor; and what a
  reader accepts as a type or a value of a type is one, whatever the bytes.
\<close>

theorem value_type_roundtrip:
  assumes "case v of None \<Rightarrow> type_ok ty | Some w \<Rightarrow> storable ty w"
  shows "\<exists>b. encode_opt v ty [] = Some b \<and>
      decode_opt ty (cur_new (b @ ys)) = Inr (v, cur_advance (length b) (cur_new (b @ ys))) \<and>
    decode_type (cur_new (encode_type ty [] @ ys)) =
      Inr (ty, cur_advance (length (encode_type ty [])) (cur_new (encode_type ty [] @ ys))) \<and>
    (decode_type c = Inr (t, c') \<longrightarrow> type_ok t) \<and> (decode_value ty c = Inr (w, c'') \<longrightarrow> has_type ty w)"
proof -
  have ty: "type_ok ty" using assms by (auto simp: storable_def split: option.splits)
  obtain b where b: "\<And>out. encode_opt v ty out = Some (out @ b)" "reads (decode_opt ty) b v"
    using encode_opt_reads [where v = v and ty = ty] assms by (auto split: option.splits)
  show ?thesis
    using b(1) [of "[]"] readsD [OF b(2) cursor_at_new] type_codec.dec_fresh [OF ty] decode_type_ok decode_value_typed [OF _ ty]
    by auto
qed

theorem value_type_roundtrip_witness:
  "\<exists>b. encode_opt (Some (VString [104, 105])) TString [] = Some b \<and>
     decode_opt TString (cur_new (b @ [9])) = Inr (Some (VString [104, 105]), cur_advance (length b) (cur_new (b @ [9])))"
proof -
  have "case Some (VString [104, 105]) of None \<Rightarrow> type_ok TString | Some w \<Rightarrow> storable TString w" by (simp add: storable_def)
  from value_type_roundtrip [OF this, of "[9]" "cur_new []" TBool "cur_new []" VNull "cur_new []"] show ?thesis by blast
qed

end
