(* ===== verification/Frames.thy ===== *)
theory Frames
  imports Codecs Checksum Value_Codec
begin

text \<open>
  Frames of the file formats: the trailer of \<open>footer.rs\<close> that closes a manifest, and the
  composition of writers that may panic, records and optional trailing fields with their
  readers, over which the manifest's codec is built.
\<close>

section \<open>The trailer\<close>

definition FORMAT_VERSION :: "16 word" where
  "FORMAT_VERSION = 1"

definition TRAILER_LEN :: nat where
  "TRAILER_LEN = 16"

definition write_trailer :: "byte list \<Rightarrow> byte list \<Rightarrow> byte list \<Rightarrow> byte list" where
  "write_trailer out magic footer =
     out @ footer @ to_le_bytes (word_of_nat (length footer) :: u32) @ to_le_bytes (crc32c footer) @ magic @
     to_le_bytes FORMAT_VERSION"

datatype trailer_error = BadMagic | TrailerVersion "16 word" | TrailerTruncated | CorruptFooter

text \<open>The footer's bounds: its first byte, and the first byte past it.\<close>

definition read_trailer :: "byte list \<Rightarrow> byte list \<Rightarrow> nat \<Rightarrow> trailer_error + nat \<times> nat" where
  "read_trailer bytes magic header_len =
     (if length bytes < header_len + TRAILER_LEN then Inl TrailerTruncated
      else
        let trailer_start = length bytes - TRAILER_LEN;
            trailer = drop trailer_start bytes;
            footer_len = unat (from_le_bytes (take 4 trailer) :: u32);
            footer_crc = from_le_bytes (take 4 (drop 4 trailer)) :: u32;
            found_magic = take 6 (drop 8 trailer);
            version = from_le_bytes (take 2 (drop 14 trailer)) :: 16 word
        in if found_magic \<noteq> magic then Inl BadMagic
           else if version > FORMAT_VERSION then Inl (TrailerVersion version)
           else if footer_len > trailer_start \<or> trailer_start - footer_len < header_len then Inl TrailerTruncated
           else if crc32c (take footer_len (drop (trailer_start - footer_len) bytes)) \<noteq> footer_crc then Inl CorruptFooter
           else Inr (trailer_start - footer_len, trailer_start))"

lemma read_write_trailer_after:
  assumes "length magic = 6" "length footer < 2 ^ 32" "header_len \<le> length out"
  shows "read_trailer (write_trailer out magic footer) magic header_len = Inr (length out, length out + length footer)"
proof -
  let ?bs = "write_trailer out magic footer"
  let ?len = "to_le_bytes (word_of_nat (length footer) :: u32)" and ?crc = "to_le_bytes (crc32c footer)" and ?v = "to_le_bytes FORMAT_VERSION"
  have len: "length ?len = 4" "length ?crc = 4" "length ?v = 2" by simp_all
  have start: "length ?bs - TRAILER_LEN = length (out @ footer)"
    using assms(1) len by (simp add: write_trailer_def TRAILER_LEN_def)
  have tr: "drop (length (out @ footer)) ?bs = ?len @ ?crc @ magic @ ?v" by (simp add: write_trailer_def)
  have f: "take 4 (?len @ ?crc @ magic @ ?v) = ?len" "take 4 (drop 4 (?len @ ?crc @ magic @ ?v)) = ?crc"
    "take 6 (drop 8 (?len @ ?crc @ magic @ ?v)) = magic" "take 2 (drop 14 (?len @ ?crc @ magic @ ?v)) = ?v"
    using len assms(1) by simp_all
  have u: "unat (from_le_bytes ?len :: u32) = length footer" using assms(2) by (simp add: from_to_le_bytes unsigned_of_nat take_bit_nat_eq_self)
  have c: "(from_le_bytes ?crc :: u32) = crc32c footer" "(from_le_bytes ?v :: 16 word) = FORMAT_VERSION"
    by (simp_all add: from_to_le_bytes)
  have body: "take (length footer) (drop (length out) ?bs) = footer" by (simp add: write_trailer_def)
  have "\<not> length ?bs < header_len + TRAILER_LEN" using assms(1,3) len by (simp add: write_trailer_def TRAILER_LEN_def)
  then show ?thesis unfolding read_trailer_def Let_def start tr f u c using body assms(3) by simp
qed

lemmas read_write_trailer = read_write_trailer_after [OF _ _ order_refl]

text \<open>What \<open>read_trailer\<close> accepts lies inside the buffer, after the header.\<close>

lemma read_trailer_bounds:
  "read_trailer bytes magic header_len = Inr (a, b) \<Longrightarrow> header_len \<le> a \<and> a \<le> b \<and> b \<le> length bytes"
  by (auto simp: read_trailer_def Let_def split: if_splits intro: diff_le_mono2)

section \<open>Writers that may panic\<close>

type_synonym wr = "sink \<Rightarrow> sink option"

definition wt :: "(sink \<Rightarrow> sink) \<Rightarrow> wr" where
  "wt f s = Some (f s)"

definition wpanic :: wr where
  "wpanic s = None"

fun wseq :: "wr list \<Rightarrow> wr" where
  "wseq [] s = Some s"
| "wseq (w # ws) s = Option.bind (w s) (wseq ws)"

definition wrecord :: "wr \<Rightarrow> wr" where
  "wrecord w s = map_option (\<lambda>b. sink_bytes b s) (w sink_new)"

definition w_nat :: "nat \<Rightarrow> wr" where
  "w_nat n = wt (sink_uvarint (word_of_nat n))"

definition w_str :: "rstr \<Rightarrow> wr" where
  "w_str s = wt (sink_str s)"

definition w_u8 :: "byte \<Rightarrow> wr" where
  "w_u8 b = wt (sink_u8 b)"

definition wlist :: "('a \<Rightarrow> wr) \<Rightarrow> 'a list \<Rightarrow> wr" where
  "wlist w xs = wseq (w_nat (length xs) # map w xs)"

section \<open>Readers with their own errors\<close>

datatype codec_error = Corrupt string | UnsupportedVersion "16 word" | UnknownSideFile u64

fun corrupt :: "decode_error \<Rightarrow> codec_error" where
  "corrupt Truncated = Corrupt ''truncated''"
| "corrupt (Malformed m) = Corrupt m"
| "corrupt (UnknownTypeId i) = Corrupt ''unknown type id''"
| "corrupt (UnknownEncoding i) = Corrupt ''unknown encoding id''"

type_synonym 'a crd = "(codec_error, 'a) reader"

text \<open>\<open>map_err\<close> lifts the errors of the cursor; the manifest maps them all by \<open>corrupt\<close>.\<close>

definition map_err :: "(decode_error \<Rightarrow> 'e) \<Rightarrow> 'a rd \<Rightarrow> ('e, 'a) reader" where
  "map_err h r c = (case r c of Inl e \<Rightarrow> Inl (h e) | Inr p \<Rightarrow> Inr p)"

definition nat_by :: "(decode_error \<Rightarrow> 'e) \<Rightarrow> ('e, nat) reader" where
  "nat_by h = rbind (map_err h cur_uvarint) (\<lambda>v. rret (unat v))"

text \<open>A record is read on a cursor of its own; bytes it has left over are skipped.\<close>

definition record_by :: "(decode_error \<Rightarrow> 'e) \<Rightarrow> ('e, 'a) reader \<Rightarrow> ('e, 'a) reader" where
  "record_by h r = rbind (map_err h cur_record) (\<lambda>body c. case r body of Inl e \<Rightarrow> Inl e | Inr (x, _) \<Rightarrow> Inr (x, c))"

definition or_empty :: "'a \<Rightarrow> ('e, 'a) reader \<Rightarrow> ('e, 'a) reader" where
  "or_empty d r c = (if cur_is_empty c then Inr (d, c) else r c)"

definition check :: "bool \<Rightarrow> string \<Rightarrow> unit crd" where
  "check b detail = (if b then rret () else rerr (Corrupt detail))"

definition list_by :: "(decode_error \<Rightarrow> 'e) \<Rightarrow> nat \<Rightarrow> ('e, 'a) reader \<Rightarrow> ('e, 'a list) reader" where
  "list_by h min_bytes r = rbind (map_err h cur_uvarint) (\<lambda>n. rbind (map_err h (cur_guard_len n min_bytes)) (\<lambda>n. read_n r n))"

abbreviation cor :: "'a rd \<Rightarrow> 'a crd" where
  "cor \<equiv> map_err corrupt"

abbreviation r_nat :: "nat crd" where
  "r_nat \<equiv> nat_by corrupt"

abbreviation in_record :: "'a crd \<Rightarrow> 'a crd" where
  "in_record \<equiv> record_by corrupt"

abbreviation rlist :: "nat \<Rightarrow> 'a crd \<Rightarrow> 'a list crd" where
  "rlist \<equiv> list_by corrupt"

fun read_all :: "('e, 'a) reader list \<Rightarrow> ('e, 'a list) reader" where
  "read_all [] = rret []"
| "read_all (r # rs) = rbind r (\<lambda>x. rbind (read_all rs) (\<lambda>xs. rret (x # xs)))"

section \<open>What a writer writes, its reader reads\<close>

text \<open>
  \<open>codes n w r x\<close>: the writer appends at least \<open>n\<close> bytes, and if their number fits 64 bits the
  reader gets \<open>x\<close> back from them. \<open>codes_end\<close> is the same for a reader that may look whether
  its record has ended.
\<close>

definition codes :: "nat \<Rightarrow> wr \<Rightarrow> ('e, 'a) reader \<Rightarrow> 'a \<Rightarrow> bool" where
  "codes n w r x \<longleftrightarrow> (\<exists>b. (\<forall>s. w s = Some (s @ b)) \<and> n \<le> length b \<and> (length b < 2 ^ 64 \<longrightarrow> reads r b x))"

definition codes_end :: "wr \<Rightarrow> ('e, 'a) reader \<Rightarrow> 'a \<Rightarrow> bool" where
  "codes_end w r x \<longleftrightarrow> (\<exists>b. (\<forall>s. w s = Some (s @ b)) \<and> (length b < 2 ^ 64 \<longrightarrow> reads_end r b x))"

lemma codes_weaken: "codes m w r x \<Longrightarrow> n \<le> m \<Longrightarrow> codes n w r x"
  unfolding codes_def by (meson le_trans)

lemma codes_done: "x = y \<Longrightarrow> codes 0 (wseq []) (rret x) y"
  unfolding codes_def by (rule exI [of _ "[]"]) (simp add: reads_rret)

lemma codes_step:
  assumes "codes m w r x" "codes n (wseq ws) (f x) y"
  shows "codes (m + n) (wseq (w # ws)) (rbind r f) y"
proof -
  from assms(1) obtain b where b: "\<And>s. w s = Some (s @ b)" "m \<le> length b" "length b < 2 ^ 64 \<longrightarrow> reads r b x"
    by (auto simp: codes_def)
  from assms(2) obtain d where d: "\<And>s. wseq ws s = Some (s @ d)" "n \<le> length d" "length d < 2 ^ 64 \<longrightarrow> reads (f x) d y"
    by (auto simp: codes_def)
  show ?thesis unfolding codes_def
    by (rule exI [of _ "b @ d"]) (use b d reads_rbind [of r b x f d y] in auto)
qed

lemma codes_end_done: "x = y \<Longrightarrow> codes_end (wseq []) (rret x) y"
  unfolding codes_end_def by (rule exI [of _ "[]"]) (simp add: reads_end_def)

lemma codes_end_step:
  assumes "codes m w r x" "codes_end (wseq ws) (f x) y"
  shows "codes_end (wseq (w # ws)) (rbind r f) y"
proof -
  from assms(1) obtain b where b: "\<And>s. w s = Some (s @ b)" "length b < 2 ^ 64 \<longrightarrow> reads r b x" by (auto simp: codes_def)
  from assms(2) obtain d where d: "\<And>s. wseq ws s = Some (s @ d)" "length d < 2 ^ 64 \<longrightarrow> reads_end (f x) d y"
    by (auto simp: codes_end_def)
  show ?thesis unfolding codes_end_def
    by (rule exI [of _ "b @ d"]) (use b d reads_end_rbind [of r b x f d y] in auto)
qed

lemma reads_imp_end:
  assumes "reads r b x"
  shows "reads_end r b x"
  unfolding reads_end_def
proof (intro allI impI)
  fix c
  assume "cursor_at c b"
  then have "cursor_at c (b @ [])" by simp
  from readsD [OF assms this] show "\<exists>c'. r c = Inr (x, c')" by blast
qed

lemma codes_imp_end: "codes n w r x \<Longrightarrow> codes_end w r x"
  unfolding codes_def codes_end_def by (elim exE conjE) (rule exI, intro conjI impI, assumption, rule reads_imp_end, simp)

lemma rbind_check [simp]: "b \<Longrightarrow> rbind (check b d) f = f ()"
  by (simp add: check_def rbind_def fun_eq_iff)

lemma reads_cor: "reads r b x \<Longrightarrow> reads (map_err h r) b x"
  by (rule readsI) (simp add: map_err_def readsD)

lemma codes_wt:
  assumes "appends f" "n \<le> length (f [])" "length (f []) < 2 ^ 64 \<Longrightarrow> reads r (f []) x"
  shows "codes n (wt f) r x"
  unfolding codes_def wt_def
proof (intro exI [of _ "f []"] conjI allI impI)
  show "Some (f s) = Some (s @ f [])" for s using appendsD [OF assms(1), of s] by (rule arg_cong)
qed (use assms in simp_all)

lemma codes_codec:
  assumes "codec enc dec D" "length (enc x []) < 2 ^ 64 \<Longrightarrow> D x" "n \<le> length (enc x [])"
  shows "codes n (wt (enc x)) (map_err h dec) x"
  by (rule codes_wt [OF appends_codec [OF assms(1)] assms(3)], rule reads_cor, rule reads_codec [OF assms(1)]) (rule assms(2))

lemma uvarint_pos: "1 \<le> length (sink_uvarint v [])"
  using length_sink_uvarint_pos [of v] by linarith

lemma codes_nat: "n < 2 ^ 64 \<Longrightarrow> codes 1 (w_nat n) (nat_by h) n"
proof -
  assume n: "n < 2 ^ 64"
  have "reads (rbind (map_err h cur_uvarint) (\<lambda>v. rret (unat v))) (sink_uvarint (word_of_nat n) [] @ []) n"
    by (rule reads_rbind [OF reads_cor [OF reads_codec [OF uvarint_codec.codec_axioms]]])
      (use n in \<open>simp_all add: reads_rret\<close>)
  then show ?thesis unfolding w_nat_def nat_by_def
    by (intro codes_wt appends_codec [OF uvarint_codec.codec_axioms] uvarint_pos) simp
qed

lemma length_sink_bytes: "length (sink_bytes b []) = length (sink_uvarint (word_of_nat (length b)) []) + length b"
  by (simp add: sink_bytes_def sink_raw_def)

lemma codes_str: "utf8_valid s \<Longrightarrow> codes 1 (w_str s) (map_err h cur_str) s"
  unfolding w_str_def
  by (rule codes_codec [OF str_codec.codec_axioms])
    (use uvarint_pos [of "word_of_nat (length s)"] in \<open>auto simp: sink_str_def length_sink_bytes\<close>)

lemma codes_u8: "codes 1 (w_u8 b) (map_err h cur_u8) b"
  unfolding w_u8_def by (rule codes_codec [OF u8_codec.codec_axioms]) (simp_all add: sink_u8_def)

lemma codes_record:
  assumes "codes_end w r x"
  shows "codes 1 (wrecord w) (record_by h r) x"
proof -
  from assms obtain b where b: "\<And>s. w s = Some (s @ b)" "length b < 2 ^ 64 \<longrightarrow> reads_end r b x" by (auto simp: codes_end_def)
  have "reads (record_by h r) (sink_bytes b []) x" if "length (sink_bytes b []) < 2 ^ 64"
  proof (rule readsI)
    fix c ys
    assume at: "cursor_at c (sink_bytes b [] @ ys)"
    have l: "length b < 2 ^ 64" using that by (simp add: length_sink_bytes)
    from b(2) l have "reads_end r b x" by (rule mp)
    from reads_end_new [OF this] obtain c' where c': "r (cur_new b) = Inr (x, c')" ..
    have "cur_bytes c = Inr (b, cur_advance (length (sink_bytes b [])) c)" by (rule bytes_codec.dec_enc [OF l at])
    then show "record_by h r c = Inr (x, cur_advance (length (sink_bytes b [])) c)"
      by (simp add: record_by_def map_err_def cur_record_def rbind_def c')
  qed
  moreover have "1 \<le> length (sink_bytes b [])"
    unfolding length_sink_bytes using uvarint_pos [of "word_of_nat (length b)"] by (rule trans_le_add1)
  ultimately have "codes 1 (wt (sink_bytes b)) (record_by h r) x"
    by (intro codes_wt [OF appends_codec [OF bytes_codec.codec_axioms]])
  moreover have "wrecord w = wt (sink_bytes b)" using b(1) [of "[]"] by (simp add: wrecord_def wt_def sink_new_def fun_eq_iff)
  ultimately show ?thesis by simp
qed

lemma codes_or_empty:
  assumes "codes n w r x" "0 < n"
  shows "codes n w (or_empty d r) x"
proof -
  have "reads (or_empty d r) b x" if b: "reads r b x" "n \<le> length b" for b
  proof (rule readsI)
    fix c ys
    assume at: "cursor_at c (b @ ys)"
    then have "\<not> cur_is_empty c" using assms(2) b(2) by (auto simp: cur_is_empty_def cursor_at_remaining)
    then show "or_empty d r c = Inr (x, cur_advance (length b) c)" using readsD [OF b(1) at] by (simp add: or_empty_def)
  qed
  with assms(1) show ?thesis unfolding codes_def by blast
qed

lemma wseq_Nil: "wseq [] = Some"
  by (rule ext) simp

lemma codes_read_all:
  assumes "list_all2 (\<lambda>(w, r) x. codes m w r x) (zip ws rs) xs" "length ws = length rs"
  shows "codes (m * length xs) (wseq ws) (read_all rs) xs"
  using assms
proof (induction rs arbitrary: ws xs)
  case Nil
  then have "ws = []" "xs = []" by auto
  then show ?case using codes_done [OF HOL.refl, of "[]"] by (simp only: list.size mult_0_right read_all.simps)
next
  case (Cons r rs)
  then obtain w ws' where ws: "ws = w # ws'" by (cases ws) auto
  with Cons.prems obtain x xs' where xs: "xs = x # xs'" "codes m w r x"
    "list_all2 (\<lambda>(w, r) x. codes m w r x) (zip ws' rs) xs'" by (cases xs) auto
  have rest: "codes (m * length xs') (wseq ws') (read_all rs) xs'" using Cons ws xs(3) by simp
  have "codes (m * length xs' + 0) (wseq (wseq ws' # [])) (rbind (read_all rs) (\<lambda>xs. rret (x # xs))) (x # xs')"
    by (rule codes_step [OF rest codes_done]) simp
  moreover have "wseq (wseq ws' # []) = wseq ws'" by (rule ext) (simp add: wseq_Nil)
  ultimately have "codes (m * length xs') (wseq ws') (rbind (read_all rs) (\<lambda>xs. rret (x # xs))) (x # xs')" by simp
  from codes_step [OF xs(2), of _ _ "\<lambda>x. rbind (read_all rs) (\<lambda>xs. rret (x # xs))", OF this]
  show ?case by (simp add: ws xs(1) del: wseq.simps)
qed

lemma read_n_replicate: "read_n r n = read_all (replicate n r)"
  by (induction n) auto

text \<open>A count, checked against what is left, and then what it counts.\<close>

lemma codes_counted:
  assumes rest: "codes (m * k) (wseq ws) (f k) y" and k: "k \<le> MAX_DECODE_ROWS" and m: "m \<le> 2 ^ 32"
  shows "codes 1 (wseq (w_nat k # ws)) (rbind (map_err h cur_uvarint) (\<lambda>n. rbind (map_err h (cur_guard_len n m)) f)) y"
proof -
  from rest obtain b where b: "\<And>s. wseq ws s = Some (s @ b)" "m * k \<le> length b"
    "length b < 2 ^ 64 \<longrightarrow> reads (f k) b y" by (auto simp: codes_def)
  let ?u = "sink_uvarint (word_of_nat k) []" and ?r = "rbind (map_err h cur_uvarint) (\<lambda>n. rbind (map_err h (cur_guard_len n m)) f)"
  have "reads ?r (?u @ b) y" if "length (?u @ b) < 2 ^ 64"
  proof (rule reads_rbind [OF reads_cor [OF reads_codec [OF uvarint_codec.codec_axioms]]])
    show "reads (rbind (map_err h (cur_guard_len (word_of_nat k) m)) f) b y"
    proof (rule readsI)
      fix c ys
      assume at: "cursor_at c (b @ ys)"
      have "cur_guard_len (word_of_nat k) m c = Inr (k, c)"
        by (rule guard_len_pass [OF k m at]) (use b(2) in \<open>simp add: mult.commute\<close>)
      then show "rbind (map_err h (cur_guard_len (word_of_nat k) m)) f c = Inr (y, cur_advance (length b) c)"
        using readsD [OF _ at] b(3) that by (simp add: rbind_def map_err_def)
    qed
  qed simp
  moreover have "wseq (w_nat k # ws) s = Some (s @ ?u @ b)" for s
    using appendsD [OF appends_codec [OF uvarint_codec.codec_axioms], of "word_of_nat k" s] b(1)
    by (simp add: w_nat_def wt_def)
  ultimately show ?thesis unfolding codes_def
    using uvarint_pos [of "word_of_nat k"] by (intro exI [of _ "?u @ b"]) (simp del: wseq.simps)
qed

lemma codes_list:
  assumes "\<And>x. x \<in> set xs \<Longrightarrow> codes m (w x) r x" "length xs \<le> MAX_DECODE_ROWS" "m \<le> 2 ^ 32"
  shows "codes 1 (wlist w xs) (list_by h m r) xs"
  unfolding wlist_def list_by_def
proof (rule codes_counted)
  show "codes (m * length xs) (wseq (map w xs)) (read_n r (length xs)) xs"
    unfolding read_n_replicate by (rule codes_read_all) (use assms(1) in \<open>auto simp: list_all2_conv_all_nth\<close>)
qed (rule assms)+

lemma codes_u32: "codes 4 (wt (sink_u32 v)) (map_err h cur_u32) v"
  by (rule codes_codec [OF u32_codec.codec_axioms]) (simp_all add: sink_u32_def)

lemma codes_u64: "codes 8 (wt (sink_u64 v)) (map_err h cur_u64) v"
  by (rule codes_codec [OF u64_codec.codec_axioms]) (simp_all add: sink_u64_def)

lemma codes_type: "type_ok ty \<Longrightarrow> codes 0 (wt (encode_type ty)) (map_err h decode_type) ty"
  by (rule codes_codec [OF type_codec.codec_axioms]) simp_all

lemma wseq_single: "wseq [w] = w"
  by (rule ext) (simp add: wseq_Nil)

lemma codes_map:
  assumes "codes n w r x"
  shows "codes n w (rbind r (\<lambda>x. rret (f x))) (f x)"
proof -
  have "codes (n + 0) (wseq [w]) (rbind r (\<lambda>x. rret (f x))) (f x)" by (rule codes_step [OF assms codes_done]) simp
  then show ?thesis by (simp only: wseq_single add_0_right)
qed

definition bound_codable :: "data_type \<Rightarrow> val option \<Rightarrow> bool" where
  "bound_codable ty v \<longleftrightarrow> (case v of None \<Rightarrow> True | Some v \<Rightarrow> storable ty v)"

lemma codes_opt_value:
  assumes "bound_codable ty v"
  shows "codes 1 (encode_opt v ty) (map_err h (decode_opt ty)) v"
  using encode_opt_reads [of ty v] assms unfolding codes_def bound_codable_def by (auto intro: reads_cor)

end
