(* ===== verification/Bitmap.thy ===== *)
theory Bitmap
  imports Prelude
begin

text \<open>
  Row validity bitmaps (\<open>src/exec/bitmap.rs\<close>): one bit per row, packed LSB first into
  64-bit words, with every bit at or past the length zero. The asserting accessors \<open>get\<close>
  and \<open>set\<close> return \<open>None\<close> where the code panics; \<open>bm_at\<close> and \<open>bm_put\<close> are their bodies
  after the assertion.

  The contract of a bitmap is a list of booleans (\<open>bm_bits\<close>). It is stated as the locale
  \<open>bool_seq\<close>, which the clients that build bitmaps bit by bit rely on, and interpreted on
  the packed representation.
\<close>

section \<open>Model\<close>

record bitmap =
  bm_words :: "u64 list"
  bm_len :: nat

definition word_count :: "nat \<Rightarrow> nat" where
  "word_count len = (len + 63) div 64"

definition mask_trailing :: "u64 list \<Rightarrow> nat \<Rightarrow> u64 list" where
  "mask_trailing words len =
     (let rem = len mod 64
      in if rem \<noteq> 0 \<and> words \<noteq> []
         then words[length words - 1 := last words AND (push_bit rem 1 - 1)]
         else words)"

definition bm_new_valid :: "nat \<Rightarrow> bitmap" where
  "bm_new_valid len = \<lparr>bm_words = mask_trailing (replicate (word_count len) (- 1)) len, bm_len = len\<rparr>"

definition bm_new_null :: "nat \<Rightarrow> bitmap" where
  "bm_new_null len = \<lparr>bm_words = replicate (word_count len) 0, bm_len = len\<rparr>"

definition bm_is_empty :: "bitmap \<Rightarrow> bool" where
  "bm_is_empty bm \<longleftrightarrow> bm_len bm = 0"

definition bm_at :: "bitmap \<Rightarrow> nat \<Rightarrow> bool" where
  "bm_at bm i \<longleftrightarrow> drop_bit (i mod 64) (bm_words bm ! (i div 64)) AND 1 = 1"

definition bm_get :: "bitmap \<Rightarrow> nat \<Rightarrow> bool option" where
  "bm_get bm i = (if i < bm_len bm then Some (bm_at bm i) else None)"

definition bm_put :: "bitmap \<Rightarrow> nat \<Rightarrow> bool \<Rightarrow> bitmap" where
  "bm_put bm i valid =
     (let w = bm_words bm ! (i div 64);
          w' = (if valid then w OR push_bit (i mod 64) 1 else w AND NOT (push_bit (i mod 64) 1))
      in bm\<lparr>bm_words := (bm_words bm)[i div 64 := w']\<rparr>)"

definition bm_set :: "bitmap \<Rightarrow> nat \<Rightarrow> bool \<Rightarrow> bitmap option" where
  "bm_set bm i valid = (if i < bm_len bm then Some (bm_put bm i valid) else None)"

definition bm_push :: "bitmap \<Rightarrow> bool \<Rightarrow> bitmap" where
  "bm_push bm valid =
     (let words = (if bm_len bm mod 64 = 0 then bm_words bm @ [0] else bm_words bm)
      in bm_put \<lparr>bm_words = words, bm_len = bm_len bm + 1\<rparr> (bm_len bm) valid)"

definition count_ones :: "u64 \<Rightarrow> nat" where
  "count_ones w = length (filter (bit w) [0..<64])"

definition bm_count_valid :: "bitmap \<Rightarrow> nat" where
  "bm_count_valid bm = sum_list (map count_ones (bm_words bm))"

definition bm_from_words :: "u64 list \<Rightarrow> nat \<Rightarrow> bitmap option" where
  "bm_from_words words len =
     (if length words \<noteq> word_count len then None
      else if mask_trailing words len = words then Some \<lparr>bm_words = words, bm_len = len\<rparr>
      else None)"

section \<open>Abstraction and invariant\<close>

definition words_bit :: "u64 list \<Rightarrow> nat \<Rightarrow> bool" where
  "words_bit ws i \<longleftrightarrow> i div 64 < length ws \<and> bit (ws ! (i div 64)) (i mod 64)"

definition bm_bits :: "bitmap \<Rightarrow> bool list" where
  "bm_bits bm = map (words_bit (bm_words bm)) [0..<bm_len bm]"

definition bm_wf :: "bitmap \<Rightarrow> bool" where
  "bm_wf bm \<longleftrightarrow> length (bm_words bm) = word_count (bm_len bm) \<and>
     (\<forall>i \<ge> bm_len bm. \<not> words_bit (bm_words bm) i)"

text \<open>An optional validity bitmap for \<open>rows\<close> rows.\<close>

definition validity_ok :: "nat \<Rightarrow> bitmap option \<Rightarrow> bool" where
  "validity_ok rows v \<longleftrightarrow> (case v of None \<Rightarrow> True | Some bm \<Rightarrow> bm_wf bm \<and> bm_len bm = rows)"

lemma length_bm_bits [simp]: "length (bm_bits bm) = bm_len bm"
  by (simp add: bm_bits_def)

lemma word_count_bound: "i < n \<Longrightarrow> i div 64 < word_count n"
  using ceil_div_bound [of i n 64] by (simp add: word_count_def)

lemma word_count_Suc: "word_count (Suc n) = (if n mod 64 = 0 then Suc (word_count n) else word_count n)"
proof (cases "n mod 64 = 0")
  case True
  then show ?thesis
    using ceil_div_exact [of n 64] ceil_div_step [of 1 n 64] by (simp add: word_count_def)
next
  case False
  then have "n mod 64 + 1 \<le> 64" by simp
  with False show ?thesis
    using ceil_div_partial [of n 64] ceil_div_step [of 1 n 64] by (simp add: word_count_def)
qed

lemma bm_at_bit: "bm_at bm i \<longleftrightarrow> bit (bm_words bm ! (i div 64)) (i mod 64)"
proof -
  have "drop_bit k (w :: u64) AND 1 = 1 \<longleftrightarrow> bit w k" for k w
    by (simp add: and_one_eq bit_iff_odd_drop_bit odd_iff_mod_2_eq_one)
  then show ?thesis by (simp add: bm_at_def)
qed

lemma bm_at_eq_bits: "bm_wf bm \<Longrightarrow> i < bm_len bm \<Longrightarrow> bm_at bm i = bm_bits bm ! i"
  by (simp add: bm_at_bit bm_bits_def words_bit_def bm_wf_def word_count_bound)

text \<open>A word is determined by its 64 bits, so a well-formed bitmap by its rows.\<close>

lemma words_eqI:
  assumes "length ws = length ws'" "\<And>i. i < 64 * length ws \<Longrightarrow> words_bit ws i = words_bit ws' i"
  shows "ws = ws'"
proof (rule nth_equalityI [OF assms(1)])
  fix j
  assume j: "j < length ws"
  show "ws ! j = ws' ! j"
  proof (rule bit_word_eqI)
    fix k
    assume "k < LENGTH(64)"
    then have "(64 * j + k) div 64 = j" "(64 * j + k) mod 64 = k" "64 * j + k < 64 * length ws"
      using j by auto
    then show "bit (ws ! j) k = bit (ws' ! j) k"
      using assms(2) [of "64 * j + k"] j assms(1) by (simp add: words_bit_def)
  qed
qed

lemma bm_eqI:
  assumes "bm_wf b" "bm_wf b'" "bm_bits b = bm_bits b'"
  shows "b = b'"
proof -
  have len: "bm_len b = bm_len b'" using arg_cong [OF assms(3), of length] by simp
  have bit: "words_bit (bm_words b) i = words_bit (bm_words b') i" for i
  proof (cases "i < bm_len b")
    case True
    then show ?thesis using assms(3) len by (simp add: bm_bits_def)
  next
    case False
    then show ?thesis using assms(1,2) len by (simp add: bm_wf_def)
  qed
  have "bm_words b = bm_words b'"
    using assms(1,2) len bit by (intro words_eqI) (simp_all add: bm_wf_def)
  with len show ?thesis by simp
qed

section \<open>Operations against the abstraction\<close>

lemma bm_put_bit:
  assumes "i div 64 < length (bm_words bm)"
  shows "words_bit (bm_words (bm_put bm i v)) j = (if j = i then v else words_bit (bm_words bm) j)"
proof (cases "j div 64 = i div 64")
  case True
  then have "j = i \<longleftrightarrow> j mod 64 = i mod 64" by (metis mult_div_mod_eq)
  with True assms show ?thesis
    by (auto simp: words_bit_def bm_put_def Let_def bit_or_iff bit_and_iff bit_not_iff bit_exp_iff)
next
  case False
  then have "j \<noteq> i" by auto
  with False show ?thesis by (simp add: words_bit_def bm_put_def Let_def)
qed

lemma bm_put_len [simp]: "bm_len (bm_put bm i v) = bm_len bm" "length (bm_words (bm_put bm i v)) = length (bm_words bm)"
  by (simp_all add: bm_put_def Let_def)

lemma bm_set_spec:
  assumes "bm_wf bm" "i < bm_len bm"
  shows "\<exists>bm'. bm_set bm i v = Some bm' \<and> bm_wf bm' \<and> bm_bits bm' = (bm_bits bm)[i := v]"
proof -
  have i: "i div 64 < length (bm_words bm)" using assms by (simp add: bm_wf_def word_count_bound)
  have "bm_wf (bm_put bm i v)" using assms by (auto simp: bm_wf_def bm_put_bit [OF i])
  moreover have "bm_bits (bm_put bm i v) = (bm_bits bm)[i := v]"
    by (rule nth_equalityI) (auto simp: bm_bits_def bm_put_bit [OF i] nth_list_update)
  ultimately show ?thesis using assms(2) by (simp add: bm_set_def)
qed

lemma words_bit_snoc0: "words_bit (ws @ [0]) = words_bit ws"
  by (auto simp: words_bit_def nth_append fun_eq_iff)

lemma bm_push_wf:
  assumes "bm_wf bm"
  shows "bm_wf (bm_push bm v)" and "bm_bits (bm_push bm v) = bm_bits bm @ [v]"
proof -
  define ws where "ws = (if bm_len bm mod 64 = 0 then bm_words bm @ [0] else bm_words bm)"
  let ?b = "\<lparr>bm_words = ws, bm_len = bm_len bm + 1\<rparr>"
  have push: "bm_push bm v = bm_put ?b (bm_len bm) v" by (simp add: bm_push_def Let_def ws_def)
  have len: "length ws = word_count (Suc (bm_len bm))"
    using assms by (simp add: bm_wf_def word_count_Suc ws_def)
  have bits: "words_bit ws = words_bit (bm_words bm)" by (simp add: words_bit_snoc0 ws_def)
  have i: "bm_len bm div 64 < length (bm_words ?b)"
    using word_count_bound [of "bm_len bm" "Suc (bm_len bm)"] len by simp
  have put: "words_bit (bm_words (bm_push bm v)) j = (if j = bm_len bm then v else words_bit (bm_words bm) j)" for j
    using bm_put_bit [OF i, of v j] by (simp add: push bits)
  show "bm_wf (bm_push bm v)"
    using assms len by (simp add: bm_wf_def put) (simp add: push)
  show "bm_bits (bm_push bm v) = bm_bits bm @ [v]"
    by (rule nth_equalityI) (auto simp: bm_bits_def put nth_append, auto simp: push)
qed

lemma mask_trailing_bit:
  assumes "length ws = word_count n"
  shows "words_bit (mask_trailing ws n) i \<longleftrightarrow> i < n \<and> words_bit ws i"
proof (cases "n mod 64 = 0")
  case True
  then have n: "64 * length ws = n"
    using assms ceil_div_exact [of n 64] by (simp add: word_count_def)
  have "i div 64 < length ws \<longleftrightarrow> i < n"
    unfolding n [symmetric] by (simp add: div_less_iff_less_mult mult.commute)
  with True show ?thesis by (auto simp: mask_trailing_def words_bit_def)
next
  case False
  then have len: "length ws = Suc (n div 64)"
    using assms ceil_div_partial [of n 64] by (simp add: word_count_def)
  then have ne: "ws \<noteq> []" by auto
  have eq: "mask_trailing ws n = ws[n div 64 := ws ! (n div 64) AND mask (n mod 64)]"
    using False ne len by (simp add: mask_trailing_def Let_def last_conv_nth mask_eq_exp_minus_1)
  consider "i div 64 < n div 64" | "i div 64 = n div 64" | "n div 64 < i div 64" by linarith
  then show ?thesis
  proof cases
    case 1
    then have "i < n" by (metis div_le_mono leD leI)
    with 1 show ?thesis by (simp add: eq words_bit_def)
  next
    case 2
    then have "i < n \<longleftrightarrow> i mod 64 < n mod 64" by (metis add_less_cancel_left mult_div_mod_eq)
    with 2 len show ?thesis by (auto simp: eq words_bit_def bit_simps)
  next
    case 3
    then show ?thesis by (simp add: eq words_bit_def len)
  qed
qed

lemma length_mask_trailing [simp]: "length (mask_trailing ws n) = length ws"
  by (simp add: mask_trailing_def Let_def)

lemma bm_new_valid_spec: "bm_wf (bm_new_valid n)" "bm_bits (bm_new_valid n) = replicate n True"
proof -
  let ?ws = "replicate (word_count n) (- 1 :: u64)"
  have b: "words_bit (mask_trailing ?ws n) i \<longleftrightarrow> i < n" for i
    by (subst mask_trailing_bit) (auto simp: words_bit_def word_count_bound)
  then show "bm_wf (bm_new_valid n)" by (simp add: bm_wf_def bm_new_valid_def)
  show "bm_bits (bm_new_valid n) = replicate n True"
    by (rule nth_equalityI) (simp_all add: bm_bits_def bm_new_valid_def b)
qed

lemma bm_new_null_spec: "bm_wf (bm_new_null n)" "bm_bits (bm_new_null n) = replicate n False"
proof -
  have b: "\<not> words_bit (replicate k (0 :: u64)) i" for i k by (auto simp: words_bit_def)
  then show "bm_wf (bm_new_null n)" by (simp add: bm_wf_def bm_new_null_def)
  show "bm_bits (bm_new_null n) = replicate n False"
    by (rule nth_equalityI) (simp_all add: bm_bits_def bm_new_null_def b)
qed

text \<open>\<open>from_words\<close> accepts exactly the well-formed pairs of words and length.\<close>

lemma bm_from_words_iff:
  "bm_from_words ws n = Some bm \<longleftrightarrow> bm = \<lparr>bm_words = ws, bm_len = n\<rparr> \<and> bm_wf bm"
proof (cases "length ws = word_count n")
  case True
  have "mask_trailing ws n = ws \<longleftrightarrow> (\<forall>i \<ge> n. \<not> words_bit ws i)"
  proof
    assume "mask_trailing ws n = ws"
    then show "\<forall>i \<ge> n. \<not> words_bit ws i" using mask_trailing_bit [OF True] by (metis leD)
  next
    assume "\<forall>i \<ge> n. \<not> words_bit ws i"
    then show "mask_trailing ws n = ws"
      by (intro words_eqI) (auto simp: mask_trailing_bit [OF True], metis not_le)
  qed
  with True show ?thesis by (auto simp: bm_from_words_def bm_wf_def)
next
  case False
  then show ?thesis by (auto simp: bm_from_words_def bm_wf_def)
qed

text \<open>\<open>count_valid\<close> counts the valid rows: the padding bits are zero.\<close>

definition all_bits :: "u64 list \<Rightarrow> bool list" where
  "all_bits ws = concat (map (\<lambda>w. map (bit w) [0..<64]) ws)"

lemma all_bits_nth: "i < 64 * length ws \<Longrightarrow> all_bits ws ! i = words_bit ws i"
  using nth_concat_same [of ws "\<lambda>w. map (bit w) [0..<64]" 64 i]
  by (simp add: all_bits_def words_bit_def div_less_iff_less_mult mult.commute)

lemma length_all_bits [simp]: "length (all_bits ws) = 64 * length ws"
  unfolding all_bits_def by (rule length_concat_same) simp

lemma sum_count_ones: "sum_list (map count_ones ws) = length (filter id (all_bits ws))"
proof (induction ws)
  case (Cons w ws)
  have "count_ones w = length (filter id (map (bit w) [0..<64]))"
    by (simp only: count_ones_def filter_map length_map o_def id_apply)
  then show ?case using Cons by (simp add: all_bits_def o_def id_def del: upt_Suc)
qed (simp add: all_bits_def)

lemma bm_count_valid_spec:
  assumes "bm_wf bm"
  shows "bm_count_valid bm = length (filter id (bm_bits bm))"
proof -
  let ?ws = "bm_words bm" and ?n = "bm_len bm"
  have le: "?n \<le> 64 * length ?ws"
    using assms le_ceil_div [of 64 ?n] by (simp add: bm_wf_def word_count_def)
  have "all_bits ?ws = bm_bits bm @ replicate (64 * length ?ws - ?n) False"
  proof (rule nth_equalityI)
    fix i
    assume "i < length (all_bits ?ws)"
    then show "all_bits ?ws ! i = (bm_bits bm @ replicate (64 * length ?ws - ?n) False) ! i"
      using assms by (auto simp: all_bits_nth nth_append bm_wf_def bm_bits_def)
  qed (simp add: le)
  then show ?thesis by (simp add: bm_count_valid_def sum_count_ones)
qed

section \<open>The contract of a growing boolean sequence\<close>

text \<open>
  What the decoders that build a bitmap bit by bit need of it: an empty sequence, a
  \<open>push\<close> that appends, an indexed read, and that the rows determine the value.
\<close>

locale bool_seq =
  fixes empty :: 'b and push :: "'b \<Rightarrow> bool \<Rightarrow> 'b" and at :: "'b \<Rightarrow> nat \<Rightarrow> bool"
    and bits :: "'b \<Rightarrow> bool list" and wf :: "'b \<Rightarrow> bool"
  assumes wf_empty: "wf empty" and bits_empty: "bits empty = []"
    and wf_push: "wf b \<Longrightarrow> wf (push b v)"
    and bits_push: "wf b \<Longrightarrow> bits (push b v) = bits b @ [v]"
    and at_bits: "wf b \<Longrightarrow> i < length (bits b) \<Longrightarrow> at b i = bits b ! i"
    and eq_bits: "wf b \<Longrightarrow> wf b' \<Longrightarrow> bits b = bits b' \<Longrightarrow> b = b'"
begin

lemma push_all:
  "wf b \<Longrightarrow> wf (fold (\<lambda>v b. push b v) vs b) \<and> bits (fold (\<lambda>v b. push b v) vs b) = bits b @ vs"
  by (induction vs arbitrary: b) (simp_all add: wf_push bits_push)

lemma rebuild:
  assumes "wf b"
  shows "fold (\<lambda>v b. push b v) (bits b) empty = b"
  using push_all [OF wf_empty, of "bits b"] assms by (intro eq_bits) (simp_all add: bits_empty)

lemma scan_bits: "wf b \<Longrightarrow> map (at b) [0..<length (bits b)] = bits b"
  by (rule nth_equalityI) (simp_all add: at_bits)

end

interpretation bm_seq: bool_seq "bm_new_null 0" bm_push bm_at bm_bits bm_wf
proof
  show "bm_wf (bm_new_null 0)" "bm_bits (bm_new_null 0) = []"
    using bm_new_null_spec [of 0] by simp_all
qed (simp_all add: bm_push_wf bm_at_eq_bits bm_eqI)

lemma bm_len_push_all: "bm_wf b \<Longrightarrow> bm_len (fold (\<lambda>v b. bm_push b v) vs b) = bm_len b + length vs"
  using arg_cong [OF conjunct2 [OF bm_seq.push_all [of b vs]], of length] by simp

lemma bm_new_valid_0: "bm_new_valid 0 = bm_new_null 0"
  by (simp add: bm_new_valid_def bm_new_null_def mask_trailing_def word_count_def)

section \<open>Properties of the bitmap\<close>

text \<open>
  C20. \<open>Bitmap\<close> refines a vector of booleans: \<open>push\<close> appends, \<open>set\<close> replaces one element and
  refuses an index past the end, \<open>get\<close> reads an element, \<open>count_valid\<close> counts the set
  ones, and the bits past the last row stay clear, which makes equal bitmaps have equal
  words.
\<close>

theorem bitmap_refines:
  assumes "bm_wf bm"
  shows "bm_wf (bm_push bm v) \<and> bm_bits (bm_push bm v) = bm_bits bm @ [v] \<and>
    (case bm_set bm i v of None \<Rightarrow> bm_len bm \<le> i
      | Some bm' \<Rightarrow> i < bm_len bm \<and> bm_wf bm' \<and> bm_bits bm' = (bm_bits bm)[i := v]) \<and>
    bm_get bm i = (if i < bm_len bm then Some (bm_bits bm ! i) else None) \<and>
    bm_count_valid bm = length (filter id (bm_bits bm)) \<and>
    (bm_wf bm' \<and> bm_bits bm' = bm_bits bm \<longrightarrow> bm' = bm)"
proof (intro conjI impI)
  show "case bm_set bm i v of None \<Rightarrow> bm_len bm \<le> i
      | Some bm' \<Rightarrow> i < bm_len bm \<and> bm_wf bm' \<and> bm_bits bm' = (bm_bits bm)[i := v]"
    using bm_set_spec [OF assms, of i v] by (cases "i < bm_len bm") (auto simp: bm_set_def)
  show "bm_get bm i = (if i < bm_len bm then Some (bm_bits bm ! i) else None)"
    using bm_at_eq_bits [OF assms] by (simp add: bm_get_def)
qed (use bm_push_wf [OF assms] bm_count_valid_spec [OF assms] bm_eqI [OF _ assms] in simp_all)

theorem bitmap_refines_witness:
  "bm_wf (bm_push (bm_new_valid 64) False) \<and> bm_bits (bm_push (bm_new_valid 64) False) = replicate 64 True @ [False]"
  using bitmap_refines [OF bm_new_valid_spec(1) [of 64], of False] by (simp add: bm_new_valid_spec(2))

end
