(* ===== verification/Column.thy ===== *)
theory Column
  imports Bitmap Fit
begin

text \<open>
  Typed columns (\<open>src/exec/column.rs\<close>): one physical layout per type, an optional validity
  bitmap, a cached null count. A reader that would panic returns \<open>None\<close>. \<open>OwnedValues\<close> and
  \<open>ColumnValues\<close> have the constructors of \<open>ColumnData\<close>, so the three are one datatype.

  The invariant \<open>col_wf\<close> is what \<open>from_parts\<close> checks of untrusted parts, and what makes
  every read succeed with a value of the column's type.
\<close>

section \<open>Model\<close>

datatype column =
  Column (col_ty: data_type) (col_data: column_data) (col_validity: "bitmap option") (col_null_count: nat)
and column_data =
    CBool bitmap
  | CInt64 "i64 list"
  | CUInt64 "u64 list"
  | CFloat64 "f64 list"
  | CDecimal "i128 list"
  | CTimestamp "i64 list"
  | CDate "i32 list"
  | CUuid "byte list list"
  | CIp "byte list list"
  | CString "u32 list" "byte list"
  | CBytes "u32 list" "byte list"
  | CList "u32 list" column

datatype column_error =
    DoesNotFit val data_type
  | TooLarge
  | LengthMismatch nat nat
  | NotString data_type
  | ColMalformed string

fun data_len :: "column_data \<Rightarrow> nat" where
  "data_len (CBool bm) = bm_len bm"
| "data_len (CInt64 v) = length v"
| "data_len (CUInt64 v) = length v"
| "data_len (CFloat64 v) = length v"
| "data_len (CDecimal v) = length v"
| "data_len (CTimestamp v) = length v"
| "data_len (CDate v) = length v"
| "data_len (CUuid v) = length v"
| "data_len (CIp v) = length v"
| "data_len (CString offsets data) = length offsets - 1"
| "data_len (CBytes offsets data) = length offsets - 1"
| "data_len (CList offsets values) = length offsets - 1"

definition col_len :: "column \<Rightarrow> nat" where
  "col_len col = data_len (col_data col)"

text \<open>An indexed read and a slice, \<open>None\<close> where Rust panics.\<close>

definition nth_opt :: "'a list \<Rightarrow> nat \<Rightarrow> 'a option" where
  "nth_opt xs i = (if i < length xs then Some (xs ! i) else None)"

definition slice_opt :: "'a list \<Rightarrow> nat \<Rightarrow> nat \<Rightarrow> 'a list option" where
  "slice_opt xs a b = (if a \<le> b \<and> b \<le> length xs then Some (take (b - a) (drop a xs)) else None)"

definition row_range :: "u32 list \<Rightarrow> nat \<Rightarrow> (nat \<times> nat) option" where
  "row_range offsets i = (if i + 1 < length offsets then Some (unat (offsets ! i), unat (offsets ! (i + 1))) else None)"

definition row_bytes :: "u32 list \<Rightarrow> byte list \<Rightarrow> nat \<Rightarrow> byte list option" where
  "row_bytes offsets data i = (case row_range offsets i of None \<Rightarrow> None | Some (a, b) \<Rightarrow> slice_opt data a b)"

definition col_is_null :: "column \<Rightarrow> nat \<Rightarrow> bool option" where
  "col_is_null col i =
     (if i < col_len col
      then (case col_validity col of None \<Rightarrow> Some False | Some b \<Rightarrow> map_option Not (bm_get b i))
      else None)"

definition get_decimal :: "data_type \<Rightarrow> i128 \<Rightarrow> val option" where
  "get_decimal ty u =
     (case ty of TDecimal dt \<Rightarrow> map_option VDecimal (decimal_ok u (dt_scale dt)) | _ \<Rightarrow> None)"

fun col_get :: "column \<Rightarrow> nat \<Rightarrow> val option"
  and data_get :: "data_type \<Rightarrow> column_data \<Rightarrow> nat \<Rightarrow> val option" where
  "col_get (Column ty data validity nulls) i =
     (case col_is_null (Column ty data validity nulls) i of
        None \<Rightarrow> None
      | Some True \<Rightarrow> Some VNull
      | Some False \<Rightarrow> data_get ty data i)"
| "data_get ty (CBool bm) i = map_option VBool (bm_get bm i)"
| "data_get ty (CInt64 v) i = map_option VInt64 (nth_opt v i)"
| "data_get ty (CUInt64 v) i = map_option VUInt64 (nth_opt v i)"
| "data_get ty (CFloat64 v) i = map_option VFloat64 (nth_opt v i)"
| "data_get ty (CDecimal v) i = (case nth_opt v i of None \<Rightarrow> None | Some u \<Rightarrow> get_decimal ty u)"
| "data_get ty (CTimestamp v) i = map_option VTimestamp (nth_opt v i)"
| "data_get ty (CDate v) i = map_option VDate (nth_opt v i)"
| "data_get ty (CUuid v) i = map_option VUuid (nth_opt v i)"
| "data_get ty (CIp v) i = map_option VIp (nth_opt v i)"
| "data_get ty (CString offsets data) i =
     (case row_bytes offsets data i of
        None \<Rightarrow> None
      | Some b \<Rightarrow> if utf8_valid b then Some (VString b) else None)"
| "data_get ty (CBytes offsets data) i = map_option VBytes (row_bytes offsets data i)"
| "data_get ty (CList offsets values) i =
     (case row_range offsets i of
        None \<Rightarrow> None
      | Some (start, fin) \<Rightarrow> map_option VList (those (map (\<lambda>j. col_get values j) [start..<fin])))"

subsection \<open>Validated construction\<close>

definition validate_offsets :: "u32 list \<Rightarrow> nat \<Rightarrow> column_error + nat" where
  "validate_offsets offsets end_len =
     (case offsets of
        [] \<Rightarrow> Inl (ColMalformed ''empty offsets'')
      | first # _ \<Rightarrow>
          if first \<noteq> 0 then Inl (ColMalformed ''offsets do not start at zero'')
          else if (\<exists>(a, b) \<in> set (zip offsets (tl offsets)). a > b) then Inl (ColMalformed ''decreasing offsets'')
          else if unat (last offsets) \<noteq> end_len then Inl (ColMalformed ''final offset does not match data length'')
          else Inr (length offsets - 1))"

definition variant_mismatch :: "column_error + column_data \<times> nat" where
  "variant_mismatch = Inl (ColMalformed ''value variant does not match column type'')"

fun build_data :: "data_type \<Rightarrow> column_data \<Rightarrow> column_error + column_data \<times> nat" where
  "build_data ty (CBool bm) = (if ty = TBool then Inr (CBool bm, bm_len bm) else variant_mismatch)"
| "build_data ty (CInt64 v) = (if ty = TInt64 then Inr (CInt64 v, length v) else variant_mismatch)"
| "build_data ty (CUInt64 v) = (if ty = TUInt64 then Inr (CUInt64 v, length v) else variant_mismatch)"
| "build_data ty (CFloat64 v) = (if ty = TFloat64 then Inr (CFloat64 v, length v) else variant_mismatch)"
| "build_data ty (CDecimal v) =
     (case ty of
        TDecimal dt \<Rightarrow>
          if (\<exists>u \<in> set v. unsigned_abs u \<ge> pow10 (dt_precision dt))
          then Inl (ColMalformed ''decimal value exceeds precision'')
          else Inr (CDecimal v, length v)
      | _ \<Rightarrow> variant_mismatch)"
| "build_data ty (CTimestamp v) = (if ty = TTimestamp then Inr (CTimestamp v, length v) else variant_mismatch)"
| "build_data ty (CDate v) = (if ty = TDate then Inr (CDate v, length v) else variant_mismatch)"
| "build_data ty (CUuid v) = (if ty = TUuid then Inr (CUuid v, length v) else variant_mismatch)"
| "build_data ty (CIp v) = (if ty = TIp then Inr (CIp v, length v) else variant_mismatch)"
| "build_data ty (CString offsets data) =
     (if ty = TString
      then (case validate_offsets offsets (length data) of
              Inl e \<Rightarrow> Inl e
            | Inr rows \<Rightarrow>
                if (\<forall>i \<in> set [0..<rows]. case row_bytes offsets data i of None \<Rightarrow> False | Some b \<Rightarrow> utf8_valid b)
                then Inr (CString offsets data, rows)
                else Inl (ColMalformed ''string row is not valid utf-8''))
      else variant_mismatch)"
| "build_data ty (CBytes offsets data) =
     (if ty = TBytes
      then (case validate_offsets offsets (length data) of
              Inl e \<Rightarrow> Inl e
            | Inr rows \<Rightarrow> Inr (CBytes offsets data, rows))
      else variant_mismatch)"
| "build_data ty (CList offsets values) =
     (case ty of
        TList elem \<Rightarrow>
          if col_ty values \<noteq> elem then Inl (ColMalformed ''list child type does not match element type'')
          else (case validate_offsets offsets (col_len values) of
                  Inl e \<Rightarrow> Inl e
                | Inr rows \<Rightarrow> Inr (CList offsets values, rows))
      | _ \<Rightarrow> variant_mismatch)"

definition from_parts :: "data_type \<Rightarrow> column_data \<Rightarrow> bitmap option \<Rightarrow> column_error + column" where
  "from_parts ty values validity =
     (case build_data ty values of
        Inl e \<Rightarrow> Inl e
      | Inr (data, rows) \<Rightarrow>
          if (case validity of None \<Rightarrow> False | Some v \<Rightarrow> bm_len v \<noteq> rows)
          then Inl (ColMalformed ''validity length does not match row count'')
          else Inr (Column ty data validity
                 (case validity of None \<Rightarrow> 0 | Some v \<Rightarrow> rows - bm_count_valid v)))"

section \<open>Invariant\<close>

text \<open>What a \<open>u32\<close> offset vector promises its reader.\<close>

definition offsets_wf :: "u32 list \<Rightarrow> nat \<Rightarrow> bool" where
  "offsets_wf offsets n \<longleftrightarrow> offsets \<noteq> [] \<and> hd offsets = 0 \<and> sorted offsets \<and> unat (last offsets) = n"

fun col_wf :: "column \<Rightarrow> bool" and data_wf :: "data_type \<Rightarrow> column_data \<Rightarrow> bool" where
  "col_wf (Column ty data validity nulls) \<longleftrightarrow>
     type_ok ty \<and> data_wf ty data \<and> validity_ok (data_len data) validity \<and>
     nulls = (case validity of None \<Rightarrow> 0 | Some v \<Rightarrow> data_len data - bm_count_valid v)"
| "data_wf ty (CBool bm) \<longleftrightarrow> ty = TBool \<and> bm_wf bm"
| "data_wf ty (CInt64 v) \<longleftrightarrow> ty = TInt64"
| "data_wf ty (CUInt64 v) \<longleftrightarrow> ty = TUInt64"
| "data_wf ty (CFloat64 v) \<longleftrightarrow> ty = TFloat64"
| "data_wf ty (CDecimal v) \<longleftrightarrow>
     (case ty of TDecimal dt \<Rightarrow> \<forall>u \<in> set v. \<bar>sint u\<bar> < 10 ^ unat (dt_precision dt) | _ \<Rightarrow> False)"
| "data_wf ty (CTimestamp v) \<longleftrightarrow> ty = TTimestamp"
| "data_wf ty (CDate v) \<longleftrightarrow> ty = TDate"
| "data_wf ty (CUuid v) \<longleftrightarrow> ty = TUuid \<and> (\<forall>u \<in> set v. length u = 16)"
| "data_wf ty (CIp v) \<longleftrightarrow> ty = TIp \<and> (\<forall>u \<in> set v. length u = 16)"
| "data_wf ty (CString offsets data) \<longleftrightarrow> ty = TString \<and> offsets_wf offsets (length data) \<and>
     (\<forall>i < length offsets - 1. \<exists>b. row_bytes offsets data i = Some b \<and> utf8_valid b)"
| "data_wf ty (CBytes offsets data) \<longleftrightarrow> ty = TBytes \<and> offsets_wf offsets (length data)"
| "data_wf ty (CList offsets values) \<longleftrightarrow>
     ty = TList (col_ty values) \<and> offsets_wf offsets (col_len values) \<and> col_wf values"

lemma sorted_windows: "sorted xs \<longleftrightarrow> (\<forall>(a, b) \<in> set (zip xs (tl xs)). a \<le> b)"
  by (induction xs rule: induct_list012) (auto simp: sorted2)

lemma validate_offsets_iff:
  "validate_offsets offsets n = Inr rows \<longleftrightarrow> offsets_wf offsets n \<and> rows = length offsets - 1"
proof (cases offsets)
  case (Cons o1 os)
  have "(\<exists>(a, b) \<in> set (zip offsets (tl offsets)). a > b) \<longleftrightarrow> \<not> sorted offsets"
    unfolding sorted_windows by (auto simp: not_le Ball_def Bex_def split_beta)
  then show ?thesis unfolding validate_offsets_def offsets_wf_def by (auto simp: Cons)
qed (simp add: validate_offsets_def offsets_wf_def)

lemma validate_offsets_ok: "offsets_wf offsets n \<Longrightarrow> validate_offsets offsets n = Inr (length offsets - 1)"
  by (simp add: validate_offsets_iff)

lemma validate_offsets_cases: "offsets_wf offsets n \<or> (\<exists>e. validate_offsets offsets n = Inl e \<and> \<not> offsets_wf offsets n)"
  using validate_offsets_iff [of offsets n] by (metis old.sum.exhaust)

text \<open>
  What holds of any parts by the Rust types alone: bitmaps come from \<open>Bitmap\<close>'s own
  constructors, arrays have sixteen bytes, a child is a column.
\<close>

fun rep_ok :: "column_data \<Rightarrow> bool" where
  "rep_ok (CBool bm) = bm_wf bm"
| "rep_ok (CUuid v) = (\<forall>u \<in> set v. length u = 16)"
| "rep_ok (CIp v) = (\<forall>u \<in> set v. length u = 16)"
| "rep_ok (CList offsets values) = col_wf values"
| "rep_ok _ = True"

lemma case_option_ex: "(case x of None \<Rightarrow> False | Some b \<Rightarrow> P b) \<longleftrightarrow> (\<exists>b. x = Some b \<and> P b)"
  by (cases x) simp_all

lemma build_data_iff:
  assumes "type_ok ty" "rep_ok data"
  shows "build_data ty data = Inr (data', rows) \<longleftrightarrow> data_wf ty data \<and> data' = data \<and> rows = data_len data"
proof (cases data)
  case (CDecimal v)
  show ?thesis
  proof (cases "\<exists>dt. ty = TDecimal dt")
    case True
    then obtain dt where ty: "ty = TDecimal dt" by blast
    then have "unsigned_abs u \<ge> pow10 (dt_precision dt) \<longleftrightarrow> \<not> \<bar>sint u\<bar> < 10 ^ unat (dt_precision dt)" for u
      using unsigned_abs_ge_pow10 [OF dt_bounds(1)] assms(1) by (simp add: not_less)
    then show ?thesis unfolding CDecimal ty by auto
  qed (auto simp: CDecimal variant_mismatch_def split: data_type.splits)
next
  case (CString offsets b)
  show ?thesis using validate_offsets_cases [of offsets "length b"]
    by (auto simp: CString variant_mismatch_def validate_offsets_ok case_option_ex split: if_splits)
next
  case (CBytes offsets b)
  show ?thesis using validate_offsets_cases [of offsets "length b"]
    by (auto simp: CBytes variant_mismatch_def validate_offsets_ok)
next
  case (CList offsets child)
  show ?thesis using assms validate_offsets_cases [of offsets "col_len child"]
    by (auto simp: CList variant_mismatch_def validate_offsets_ok split: data_type.splits)
qed (use assms in \<open>auto simp: variant_mismatch_def\<close>)

lemma data_wf_rep_ok: "data_wf ty data \<Longrightarrow> rep_ok data"
  by (cases data) auto

lemma from_parts_iff:
  assumes "type_ok ty" "rep_ok data" "\<And>bm. validity = Some bm \<Longrightarrow> bm_wf bm"
  shows "from_parts ty data validity = Inr col \<longleftrightarrow>
    col_wf col \<and> col_ty col = ty \<and> col_data col = data \<and> col_validity col = validity"
proof -
  have *: "build_data ty data = (if data_wf ty data then Inr (data, data_len data) else build_data ty data)"
    and **: "\<not> data_wf ty data \<Longrightarrow> \<exists>e. build_data ty data = Inl e"
    using build_data_iff [OF assms(1,2)] by (auto, metis old.prod.exhaust old.sum.exhaust)
  show ?thesis
  proof (cases "data_wf ty data")
    case True
    then show ?thesis using * assms
      by (cases col) (auto simp: from_parts_def validity_ok_def split: option.splits if_splits)
  next
    case False
    then show ?thesis using ** by (cases col) (auto simp: from_parts_def)
  qed
qed

section \<open>Reading a well-formed column\<close>

lemma offsets_wf_mono:
  assumes "offsets_wf offsets n" "i \<le> j" "j < length offsets"
  shows "unat (offsets ! i) \<le> unat (offsets ! j)" "unat (offsets ! j) \<le> n"
proof -
  have s: "sorted offsets" using assms(1) by (simp add: offsets_wf_def)
  show "unat (offsets ! i) \<le> unat (offsets ! j)"
    using sorted_nth_mono [OF s assms(2,3)] by (simp add: word_le_nat_alt)
  have "offsets ! j \<le> last offsets"
    using sorted_nth_mono [OF s, of j "length offsets - 1"] assms(1,3) by (auto simp: last_conv_nth offsets_wf_def)
  then show "unat (offsets ! j) \<le> n" using assms(1) by (simp add: word_le_nat_alt offsets_wf_def)
qed

lemma row_range_wf:
  assumes "offsets_wf offsets n" "i < length offsets - 1"
  obtains a b where "row_range offsets i = Some (a, b)" "a \<le> b" "b \<le> n"
proof -
  have "i + 1 < length offsets" using assms(2) by simp
  then show ?thesis
    using that offsets_wf_mono [OF assms(1), of i "i + 1"] by (simp add: row_range_def)
qed

lemma row_bytes_wf:
  assumes "offsets_wf offsets (length data)" "i < length offsets - 1"
  shows "\<exists>b. row_bytes offsets data i = Some b"
proof -
  obtain a b where "row_range offsets i = Some (a, b)" "a \<le> b" "b \<le> length data"
    using row_range_wf [OF assms] .
  then show ?thesis by (simp add: row_bytes_def slice_opt_def)
qed

lemma those_map_ex: "(\<forall>x \<in> set xs. \<exists>y. f x = Some y \<and> P y) \<Longrightarrow> \<exists>ys. those (map f xs) = Some ys \<and> (\<forall>y \<in> set ys. P y)"
  by (induction xs) auto

lemma bm_get_wf: "bm_wf bm \<Longrightarrow> i < bm_len bm \<Longrightarrow> bm_get bm i = Some (bm_bits bm ! i)"
  by (simp add: bm_get_def bm_at_eq_bits)

text \<open>Every row of a well-formed column reads, as NULL or as a value of the column's type.\<close>

lemma col_get_typed:
  "col_wf col \<Longrightarrow> i < col_len col \<Longrightarrow> \<exists>v. col_get col i = Some v \<and> (v = VNull \<or> has_type (col_ty col) v)"
  and data_get_typed:
  "type_ok ty \<Longrightarrow> data_wf ty data \<Longrightarrow> i < data_len data \<Longrightarrow> \<exists>v. data_get ty data i = Some v \<and> has_type ty v"
proof (induction col and ty data arbitrary: i and i rule: col_wf_data_wf.induct)
  case (1 ty data validity nulls)
  then have d: "\<exists>v. data_get ty data i = Some v \<and> has_type ty v" by (simp add: col_len_def)
  show ?case
  proof (cases validity)
    case None
    then show ?thesis using d "1.prems" by (auto simp: col_is_null_def col_len_def)
  next
    case (Some bm)
    then have "bm_get bm i = Some (bm_bits bm ! i)"
      using "1.prems" by (intro bm_get_wf) (simp_all add: validity_ok_def col_len_def)
    then show ?thesis using d "1.prems" Some by (cases "bm_bits bm ! i") (auto simp: col_is_null_def col_len_def)
  qed
next
  case (6 ty v)
  then obtain dt where ty: "ty = TDecimal dt" and u: "\<bar>sint (v ! i)\<bar> < 10 ^ unat (dt_precision dt)"
    by (auto split: data_type.splits)
  note b = dt_bounds [OF "6.prems"(1) [unfolded ty]]
  have "decimal_ok (v ! i) (dt_scale dt) = Some \<lparr>dec_unscaled = v ! i, dec_scale = dt_scale dt\<rparr>"
    using u b by (simp add: decimal_ok_iff)
  then show ?case using 6 u ty by (simp add: nth_opt_def get_decimal_def)
next
  case (11 ty offsets data)
  then show ?case by fastforce
next
  case (12 ty offsets data)
  then show ?case using row_bytes_wf [of offsets data i] by auto
next
  case (13 ty offsets child)
  have ofs: "offsets_wf offsets (col_len child)" using "13.prems" by simp
  obtain a b where r: "row_range offsets i = Some (a, b)" "b \<le> col_len child"
    using row_range_wf [OF ofs, of i] "13.prems"(3) by (metis data_len.simps(12))
  have "\<forall>j \<in> set [a..<b]. \<exists>v. col_get child j = Some v \<and> (v = VNull \<or> has_type (col_ty child) v)"
    using "13.IH" "13.prems" r(2) by auto
  from those_map_ex [OF this] r "13.prems" show ?case by auto
qed (auto simp: nth_opt_def bm_get_def)

section \<open>Properties of columns\<close>

text \<open>
  C25. \<open>Column::from_parts\<close> accepts parts exactly when they form a well-formed column: the
  variant is the type's, offsets start at zero, never decrease and end at the data's
  length, every string row is UTF-8 on its own, decimals are within their precision, the
  child of a list has the element type, and the bitmap has one bit per row.
\<close>

theorem from_parts_exact:
  assumes "type_ok ty" "rep_ok data" "\<And>bm. validity = Some bm \<Longrightarrow> bm_wf bm"
  shows "from_parts ty data validity = Inr col \<longleftrightarrow>
    col_wf col \<and> col_ty col = ty \<and> col_data col = data \<and> col_validity col = validity"
  using from_parts_iff [OF assms] .

theorem from_parts_exact_witness:
  "from_parts TString (CString [0, 2] [195, 169]) None = Inr (Column TString (CString [0, 2] [195, 169]) None 0) \<longleftrightarrow>
    col_wf (Column TString (CString [0, 2] [195, 169]) None 0)"
  using from_parts_exact [of TString "CString [0, 2] [195, 169]" None "Column TString (CString [0, 2] [195, 169]) None 0"]
  by simp

text \<open>
  A well-formed column answers for every row: \<open>get\<close> does not panic inside its length,
  and what it returns is null or a value of the column's type.
\<close>

lemma col_get_safe:
  assumes "col_wf col" "i < col_len col"
  shows "\<exists>v. col_get col i = Some v \<and> (v = VNull \<or> has_type (col_ty col) v)"
  by (rule col_get_typed [OF assms])

lemma col_get_safe_witness:
  "\<exists>v. col_get (Column TInt64 (CInt64 [7, 8]) None 0) 1 = Some v \<and> (v = VNull \<or> has_type TInt64 v)"
  using col_get_safe [of "Column TInt64 (CInt64 [7, 8]) None 0" 1] by (simp add: col_len_def validity_ok_def)

end
