(* ===== verification/Column_Ops.thy ===== *)
theory Column_Ops
  imports Column
begin

text \<open>
  Slicing and concatenation of columns (\<open>Column::slice\<close>, \<open>Column::concat\<close> of
  \<open>src/exec/column.rs\<close>). Rows of a slice are the rows of the column from its start; rows of
  a concatenation are the rows of its parts in order; both keep the column invariant.
\<close>

section \<open>Slice\<close>

definition slice_bitmap :: "bitmap \<Rightarrow> nat \<Rightarrow> nat \<Rightarrow> bitmap" where
  "slice_bitmap bm start len = fold (\<lambda>i out. bm_push out (bm_at bm i)) [start..<start + len] (bm_new_valid 0)"

definition rebase_offsets :: "u32 list \<Rightarrow> nat \<Rightarrow> nat \<Rightarrow> u32 list" where
  "rebase_offsets offsets start fin =
     (let base = offsets ! start in map (\<lambda>p. p - base) (take (fin + 1 - start) (drop start offsets)))"

definition slice_varwidth :: "u32 list \<Rightarrow> byte list \<Rightarrow> nat \<Rightarrow> nat \<Rightarrow> (u32 list \<times> byte list) option" where
  "slice_varwidth offsets data start fin =
     map_option (\<lambda>d. (rebase_offsets offsets start fin, d))
       (slice_opt data (unat (offsets ! start)) (unat (offsets ! fin)))"

definition null_count_of :: "nat \<Rightarrow> bitmap option \<Rightarrow> nat" where
  "null_count_of rows validity = (case validity of None \<Rightarrow> 0 | Some v \<Rightarrow> rows - bm_count_valid v)"

fun col_slice :: "column \<Rightarrow> nat \<Rightarrow> nat \<Rightarrow> column option"
  and data_slice :: "column_data \<Rightarrow> nat \<Rightarrow> nat \<Rightarrow> column_data option" where
  "col_slice (Column ty data validity nulls) start len =
     (if start + len \<le> data_len data
      then let v = map_option (\<lambda>bm. slice_bitmap bm start len) validity
           in map_option (\<lambda>d. Column ty d v (null_count_of len v)) (data_slice data start len)
      else None)"
| "data_slice (CBool bm) start len = Some (CBool (slice_bitmap bm start len))"
| "data_slice (CInt64 v) start len = map_option CInt64 (slice_opt v start (start + len))"
| "data_slice (CUInt64 v) start len = map_option CUInt64 (slice_opt v start (start + len))"
| "data_slice (CFloat64 v) start len = map_option CFloat64 (slice_opt v start (start + len))"
| "data_slice (CDecimal v) start len = map_option CDecimal (slice_opt v start (start + len))"
| "data_slice (CTimestamp v) start len = map_option CTimestamp (slice_opt v start (start + len))"
| "data_slice (CDate v) start len = map_option CDate (slice_opt v start (start + len))"
| "data_slice (CUuid v) start len = map_option CUuid (slice_opt v start (start + len))"
| "data_slice (CIp v) start len = map_option CIp (slice_opt v start (start + len))"
| "data_slice (CString offsets data) start len =
     map_option (\<lambda>(p, d). CString p d) (slice_varwidth offsets data start (start + len))"
| "data_slice (CBytes offsets data) start len =
     map_option (\<lambda>(p, d). CBytes p d) (slice_varwidth offsets data start (start + len))"
| "data_slice (CList offsets values) start len =
     (let child_start = unat (offsets ! start); child_end = unat (offsets ! (start + len))
      in if child_end < child_start then None
         else map_option (CList (rebase_offsets offsets start (start + len)))
                (col_slice values child_start (child_end - child_start)))"

section \<open>Concat\<close>

text \<open>An empty column of a type, \<open>ColumnBuilder::new(ty).finish()\<close>.\<close>

fun empty_column :: "data_type \<Rightarrow> column" and empty_data :: "data_type \<Rightarrow> column_data" where
  "empty_column ty = Column ty (empty_data ty) None 0"
| "empty_data TBool = CBool (bm_new_valid 0)"
| "empty_data TInt64 = CInt64 []"
| "empty_data TUInt64 = CUInt64 []"
| "empty_data TFloat64 = CFloat64 []"
| "empty_data (TDecimal dt) = CDecimal []"
| "empty_data TTimestamp = CTimestamp []"
| "empty_data TDate = CDate []"
| "empty_data TUuid = CUuid []"
| "empty_data TIp = CIp []"
| "empty_data TString = CString [0] []"
| "empty_data TBytes = CBytes [0] []"
| "empty_data (TList elem) = CList [0] (empty_column elem)"

definition concat_mismatch :: column_error where
  "concat_mismatch = ColMalformed ''column variant mismatch in concat''"

fun concat_scalar :: "(column_data \<Rightarrow> 'a list option) \<Rightarrow> column list \<Rightarrow> 'a list \<Rightarrow> column_error + 'a list" where
  "concat_scalar extract [] out = Inr out"
| "concat_scalar extract (c # cs) out =
     (case extract (col_data c) of
        None \<Rightarrow> Inl concat_mismatch
      | Some v \<Rightarrow> concat_scalar extract cs (out @ v))"

text \<open>The inner loop over \<open>&o[1..]\<close>, each offset added to \<open>base\<close> with \<open>checked_add\<close>.\<close>

definition push_rebased :: "u32 list \<Rightarrow> u32 list \<Rightarrow> column_error + u32 list" where
  "push_rebased offsets p =
     (let base = last offsets
      in if (\<exists>off \<in> set (tl p). unat base + unat off \<ge> 2 ^ 32) then Inl TooLarge
         else Inr (offsets @ map (\<lambda>off. base + off) (tl p)))"

fun concat_varwidth :: "(column_data \<Rightarrow> (u32 list \<times> byte list) option) \<Rightarrow> column list \<Rightarrow>
    u32 list \<Rightarrow> byte list \<Rightarrow> column_error + u32 list \<times> byte list" where
  "concat_varwidth extract [] offsets data = Inr (offsets, data)"
| "concat_varwidth extract (c # cs) offsets data =
     (case extract (col_data c) of
        None \<Rightarrow> Inl concat_mismatch
      | Some (p, d) \<Rightarrow>
          (case push_rebased offsets p of
             Inl e \<Rightarrow> Inl e
           | Inr offsets' \<Rightarrow> concat_varwidth extract cs offsets' (data @ d)))"

fun concat_list :: "column list \<Rightarrow> u32 list \<Rightarrow> column list \<Rightarrow> column_error + u32 list \<times> column list" where
  "concat_list [] offsets children = Inr (offsets, children)"
| "concat_list (c # cs) offsets children =
     (case col_data c of
        CList p values \<Rightarrow>
          (case push_rebased offsets p of
             Inl e \<Rightarrow> Inl e
           | Inr offsets' \<Rightarrow> concat_list cs offsets' (children @ [values]))
      | _ \<Rightarrow> Inl concat_mismatch)"

fun concat_bool :: "column list \<Rightarrow> bitmap \<Rightarrow> column_error + bitmap" where
  "concat_bool [] bm = Inr bm"
| "concat_bool (c # cs) bm =
     (case col_data c of
        CBool cb \<Rightarrow> concat_bool cs (fold (\<lambda>i bm. bm_push bm (bm_at cb i)) [0..<bm_len cb] bm)
      | _ \<Rightarrow> Inl concat_mismatch)"

definition concat_validity :: "column list \<Rightarrow> bitmap option" where
  "concat_validity cols =
     (if (\<exists>c \<in> set cols. col_validity c \<noteq> None)
      then Some (fold (\<lambda>c bm.
             case col_validity c of
               Some v \<Rightarrow> fold (\<lambda>i bm. bm_push bm (bm_at v i)) [0..<col_len c] bm
             | None \<Rightarrow> fold (\<lambda>i bm. bm_push bm True) [0..<col_len c] bm) cols (bm_new_valid 0))
      else None)"

fun ex_i64 :: "column_data \<Rightarrow> i64 list option" where "ex_i64 (CInt64 v) = Some v" | "ex_i64 _ = None"
fun ex_u64 :: "column_data \<Rightarrow> u64 list option" where "ex_u64 (CUInt64 v) = Some v" | "ex_u64 _ = None"
fun ex_f64 :: "column_data \<Rightarrow> f64 list option" where "ex_f64 (CFloat64 v) = Some v" | "ex_f64 _ = None"
fun ex_dec :: "column_data \<Rightarrow> i128 list option" where "ex_dec (CDecimal v) = Some v" | "ex_dec _ = None"
fun ex_ts :: "column_data \<Rightarrow> i64 list option" where "ex_ts (CTimestamp v) = Some v" | "ex_ts _ = None"
fun ex_date :: "column_data \<Rightarrow> i32 list option" where "ex_date (CDate v) = Some v" | "ex_date _ = None"
fun ex_uuid :: "column_data \<Rightarrow> byte list list option" where "ex_uuid (CUuid v) = Some v" | "ex_uuid _ = None"
fun ex_ip :: "column_data \<Rightarrow> byte list list option" where "ex_ip (CIp v) = Some v" | "ex_ip _ = None"
fun ex_str :: "column_data \<Rightarrow> (u32 list \<times> byte list) option" where "ex_str (CString p d) = Some (p, d)" | "ex_str _ = None"
fun ex_bytes :: "column_data \<Rightarrow> (u32 list \<times> byte list) option" where "ex_bytes (CBytes p d) = Some (p, d)" | "ex_bytes _ = None"

definition rmap :: "('a \<Rightarrow> 'b) \<Rightarrow> 'e + 'a \<Rightarrow> 'e + 'b" where
  "rmap f r = (case r of Inl e \<Rightarrow> Inl e | Inr x \<Rightarrow> Inr (f x))"

fun col_concat :: "data_type \<Rightarrow> column list \<Rightarrow> column_error + column"
  and concat_data :: "data_type \<Rightarrow> column list \<Rightarrow> column_error + column_data" where
  "col_concat ty cols =
     (if cols = [] then Inr (empty_column ty)
      else let rows = sum_list (map col_len cols); validity = concat_validity cols
           in rmap (\<lambda>data. Column ty data validity (null_count_of rows validity)) (concat_data ty cols))"
| "concat_data TBool cols = rmap CBool (concat_bool cols (bm_new_valid 0))"
| "concat_data TInt64 cols = rmap CInt64 (concat_scalar ex_i64 cols [])"
| "concat_data TUInt64 cols = rmap CUInt64 (concat_scalar ex_u64 cols [])"
| "concat_data TFloat64 cols = rmap CFloat64 (concat_scalar ex_f64 cols [])"
| "concat_data (TDecimal dt) cols = rmap CDecimal (concat_scalar ex_dec cols [])"
| "concat_data TTimestamp cols = rmap CTimestamp (concat_scalar ex_ts cols [])"
| "concat_data TDate cols = rmap CDate (concat_scalar ex_date cols [])"
| "concat_data TUuid cols = rmap CUuid (concat_scalar ex_uuid cols [])"
| "concat_data TIp cols = rmap CIp (concat_scalar ex_ip cols [])"
| "concat_data TString cols = rmap (\<lambda>(p, d). CString p d) (concat_varwidth ex_str cols [0] [])"
| "concat_data TBytes cols = rmap (\<lambda>(p, d). CBytes p d) (concat_varwidth ex_bytes cols [0] [])"
| "concat_data (TList elem) cols =
     (case concat_list cols [0] [] of
        Inl e \<Rightarrow> Inl e
      | Inr (offsets, children) \<Rightarrow> rmap (CList offsets) (col_concat elem children))"

section \<open>Slices read the rows from their start\<close>

lemma slice_bitmap_spec:
  assumes "bm_wf bm" "s + n \<le> bm_len bm"
  shows "bm_wf (slice_bitmap bm s n)" "bm_bits (slice_bitmap bm s n) = take n (drop s (bm_bits bm))"
    "bm_len (slice_bitmap bm s n) = n"
proof -
  have f: "slice_bitmap bm s n = fold (\<lambda>v b. bm_push b v) (map (bm_at bm) [s..<s + n]) (bm_new_valid 0)"
    by (simp add: slice_bitmap_def fold_map comp_def)
  note p = bm_seq.push_all [of "bm_new_valid 0" "map (bm_at bm) [s..<s + n]"]
  show w: "bm_wf (slice_bitmap bm s n)" using p by (simp add: f bm_new_valid_spec)
  have "map (bm_at bm) [s..<s + n] = take n (drop s (bm_bits bm))"
    using assms by (intro nth_equalityI) (auto simp: bm_at_eq_bits)
  then show b: "bm_bits (slice_bitmap bm s n) = take n (drop s (bm_bits bm))"
    using p by (simp add: f bm_new_valid_spec)
  have "length (bm_bits (slice_bitmap bm s n)) = n" unfolding b using assms(2) by simp
  then show "bm_len (slice_bitmap bm s n) = n" by simp
qed

lemma bm_get_slice:
  assumes "bm_wf bm" "s + n \<le> bm_len bm" "i < n"
  shows "bm_get (slice_bitmap bm s n) i = bm_get bm (s + i)"
  using slice_bitmap_spec [OF assms(1,2)] assms by (simp add: bm_get_wf)

lemma unat_sub_le: "b \<le> (a :: 'a::len word) \<Longrightarrow> unat (a - b) = unat a - unat b"
  by (simp add: unat_sub)

lemma rebase_offsets_spec:
  assumes "offsets_wf offsets m" "s + n < length offsets"
  shows "length (rebase_offsets offsets s (s + n)) = n + 1"
    and "i \<le> n \<Longrightarrow> unat (rebase_offsets offsets s (s + n) ! i) = unat (offsets ! (s + i)) - unat (offsets ! s)"
    and "offsets_wf (rebase_offsets offsets s (s + n)) (unat (offsets ! (s + n)) - unat (offsets ! s))"
proof -
  let ?r = "rebase_offsets offsets s (s + n)"
  show len: "length ?r = n + 1" using assms(2) by (simp add: rebase_offsets_def Let_def)
  have nth: "?r ! i = offsets ! (s + i) - offsets ! s" if "i \<le> n" for i
    using that assms(2) by (simp add: rebase_offsets_def Let_def)
  have le: "offsets ! (s + i) \<le> offsets ! (s + j)" if "i \<le> j" "j \<le> n" for i j
    using offsets_wf_mono(1) [OF assms(1), of "s + i" "s + j"] that assms(2) by (simp add: word_le_nat_alt)
  have base: "offsets ! s \<le> offsets ! (s + i)" if "i \<le> n" for i using le [of 0 i] that by simp
  show u: "unat (?r ! i) = unat (offsets ! (s + i)) - unat (offsets ! s)" if "i \<le> n" for i
    using nth [OF that] base [OF that] by (simp add: unat_sub_le)
  have ne: "?r \<noteq> []" using len by auto
  have "sorted ?r" unfolding sorted_iff_nth_mono
    using len u le by (auto simp: word_le_nat_alt diff_le_mono)
  moreover have "hd ?r = 0" using nth [of 0] ne by (simp add: hd_conv_nth)
  moreover have "unat (last ?r) = unat (offsets ! (s + n)) - unat (offsets ! s)"
    using u [of n] len ne by (simp add: last_conv_nth)
  ultimately show "offsets_wf ?r (unat (offsets ! (s + n)) - unat (offsets ! s))"
    using ne by (simp add: offsets_wf_def)
qed

lemma slice_opt_slice:
  assumes "a \<le> b" "b \<le> length xs" "a \<le> x" "x \<le> y" "y \<le> b"
  shows "slice_opt (take (b - a) (drop a xs)) (x - a) (y - a) = slice_opt xs x y"
proof -
  have "y - a - (x - a) = y - x" "b - a - (x - a) = b - x" "x - a + a = x" "min (y - x) (b - x) = y - x"
    using assms by simp_all
  then have "take (y - a - (x - a)) (drop (x - a) (take (b - a) (drop a xs))) = take (y - x) (drop x xs)"
    by (simp only: drop_take take_take drop_drop)
  then show ?thesis using assms unfolding slice_opt_def by auto
qed

lemma row_range_rebase:
  assumes "offsets_wf offsets m" "s + n < length offsets" "i < n"
  shows "row_range (rebase_offsets offsets s (s + n)) i =
    Some (unat (offsets ! (s + i)) - unat (offsets ! s), unat (offsets ! (s + i + 1)) - unat (offsets ! s))"
    and "row_range offsets (s + i) = Some (unat (offsets ! (s + i)), unat (offsets ! (s + i + 1)))"
    and "unat (offsets ! s) \<le> unat (offsets ! (s + i))" "unat (offsets ! (s + i)) \<le> unat (offsets ! (s + i + 1))"
    and "unat (offsets ! (s + i + 1)) \<le> unat (offsets ! (s + n))" "unat (offsets ! (s + n)) \<le> m"
  using assms rebase_offsets_spec [OF assms(1,2)] offsets_wf_mono [OF assms(1), of s "s + i"]
    offsets_wf_mono [OF assms(1), of "s + i" "s + i + 1"] offsets_wf_mono [OF assms(1), of "s + i + 1" "s + n"]
  by (simp_all add: row_range_def)

lemma slice_varwidth_spec:
  assumes "offsets_wf offsets (length data)" "s + n < length offsets"
  obtains d where "slice_varwidth offsets data s (s + n) = Some (rebase_offsets offsets s (s + n), d)"
    "offsets_wf (rebase_offsets offsets s (s + n)) (length d)"
    "\<forall>i < n. row_bytes (rebase_offsets offsets s (s + n)) d i = row_bytes offsets data (s + i)"
proof -
  let ?a = "unat (offsets ! s)" and ?b = "unat (offsets ! (s + n))"
  have ab: "?a \<le> ?b" "?b \<le> length data" using offsets_wf_mono [OF assms(1), of s "s + n"] assms(2) by simp_all
  let ?d = "take (?b - ?a) (drop ?a data)"
  show thesis
  proof (rule that [of ?d])
    show "slice_varwidth offsets data s (s + n) = Some (rebase_offsets offsets s (s + n), ?d)"
      using ab by (simp add: slice_varwidth_def slice_opt_def)
    show "offsets_wf (rebase_offsets offsets s (s + n)) (length ?d)"
      using rebase_offsets_spec(3) [OF assms] ab by simp
    show "\<forall>i < n. row_bytes (rebase_offsets offsets s (s + n)) ?d i = row_bytes offsets data (s + i)"
    proof (intro allI impI)
      fix i
      assume "i < n"
      note r = row_range_rebase [OF assms this]
      show "row_bytes (rebase_offsets offsets s (s + n)) ?d i = row_bytes offsets data (s + i)"
        using slice_opt_slice [OF ab r(3,4)] r by (simp add: row_bytes_def)
    qed
  qed
qed

lemma nth_opt_slice: "s + n \<le> length xs \<Longrightarrow> i < n \<Longrightarrow> nth_opt (take n (drop s xs)) i = nth_opt xs (s + i)"
  by (simp add: nth_opt_def)

lemma slice_opt_len: "s + n \<le> length xs \<Longrightarrow> slice_opt xs s (s + n) = Some (take n (drop s xs))"
  by (simp add: slice_opt_def)

lemma col_slice_spec:
  "col_wf col \<Longrightarrow> s + n \<le> col_len col \<Longrightarrow> \<exists>c. col_slice col s n = Some c \<and> col_wf c \<and> col_ty c = col_ty col \<and>
     col_len c = n \<and> (\<forall>i < n. col_get c i = col_get col (s + i))"
  and data_slice_spec:
  "data_wf ty data \<Longrightarrow> s + n \<le> data_len data \<Longrightarrow> \<exists>d. data_slice data s n = Some d \<and> data_wf ty d \<and>
     data_len d = n \<and> (\<forall>i < n. data_get ty d i = data_get ty data (s + i))"
proof (induction col and ty data arbitrary: s n and s n rule: col_wf_data_wf.induct)
  case (1 ty data validity nulls)
  have "data_wf ty data" "s + n \<le> data_len data" "validity_ok (data_len data) validity"
    using "1.prems" by (simp_all add: col_len_def)
  then obtain d where d: "data_slice data s n = Some d" "data_wf ty d" "data_len d = n"
    "\<forall>i < n. data_get ty d i = data_get ty data (s + i)" using "1.IH" by blast
  let ?v = "map_option (\<lambda>bm. slice_bitmap bm s n) validity"
  have v: "validity_ok n ?v" using slice_bitmap_spec [of _ s n] "1.prems"
    by (auto simp: validity_ok_def col_len_def split: option.splits)
  have "col_is_null (Column ty d ?v nc) i = col_is_null (Column ty data validity nulls) (s + i)" if "i < n" for i nc
    using that "1.prems" d(3) bm_get_slice [of _ s n i]
    by (auto simp: col_is_null_def col_len_def validity_ok_def split: option.splits)
  then show ?case using d v "1.prems"
    by (auto simp: col_len_def null_count_of_def split: option.splits bool.splits)
next
  case (2 ty bm)
  then show ?case using slice_bitmap_spec [of bm s n] bm_get_slice [of bm s n] by simp
next
  case (6 ty v)
  then show ?case
    by (auto simp: slice_opt_len nth_opt_slice split: data_type.splits dest!: in_set_takeD in_set_dropD)
next
  case (9 ty v)
  then show ?case by (auto simp: slice_opt_len nth_opt_slice dest!: in_set_takeD in_set_dropD)
next
  case (10 ty v)
  then show ?case by (auto simp: slice_opt_len nth_opt_slice dest!: in_set_takeD in_set_dropD)
next
  case (11 ty offsets data)
  have wf: "offsets_wf offsets (length data)" using "11.prems" by simp
  then have "0 < length offsets" by (simp add: offsets_wf_def)
  then have n: "s + n < length offsets" using "11.prems"(2) by (cases offsets) simp_all
  obtain d where d: "slice_varwidth offsets data s (s + n) = Some (rebase_offsets offsets s (s + n), d)"
    "offsets_wf (rebase_offsets offsets s (s + n)) (length d)"
    "\<forall>i < n. row_bytes (rebase_offsets offsets s (s + n)) d i = row_bytes offsets data (s + i)"
    by (rule slice_varwidth_spec [OF wf n])
  have "\<exists>b. row_bytes offsets data (s + i) = Some b \<and> utf8_valid b" if "i < n" for i
    using "11.prems" n that by simp
  then show ?case using d rebase_offsets_spec(1) [OF wf n] "11.prems" by simp
next
  case (12 ty offsets data)
  have wf: "offsets_wf offsets (length data)" using "12.prems" by simp
  then have "0 < length offsets" by (simp add: offsets_wf_def)
  then have n: "s + n < length offsets" using "12.prems"(2) by (cases offsets) simp_all
  obtain d where d: "slice_varwidth offsets data s (s + n) = Some (rebase_offsets offsets s (s + n), d)"
    "offsets_wf (rebase_offsets offsets s (s + n)) (length d)"
    "\<forall>i < n. row_bytes (rebase_offsets offsets s (s + n)) d i = row_bytes offsets data (s + i)"
    by (rule slice_varwidth_spec [OF wf n])
  then show ?case using rebase_offsets_spec(1) [OF wf n] "12.prems" by simp
next
  case (13 ty offsets child)
  have wf: "offsets_wf offsets (col_len child)" using "13.prems" by simp
  then have "0 < length offsets" by (simp add: offsets_wf_def)
  then have n: "s + n < length offsets" using "13.prems"(2) by (cases offsets) simp_all
  let ?a = "unat (offsets ! s)" and ?b = "unat (offsets ! (s + n))"
  have ab: "?a \<le> ?b" "?b \<le> col_len child" using offsets_wf_mono [OF wf, of s "s + n"] n by simp_all
  then obtain c where c: "col_slice child ?a (?b - ?a) = Some c" "col_wf c" "col_ty c = col_ty child" "col_len c = ?b - ?a"
    "\<forall>i < ?b - ?a. col_get c i = col_get child (?a + i)"
    using "13.IH" [of ?a "?b - ?a"] "13.prems" by auto
  have g: "data_get ty (CList (rebase_offsets offsets s (s + n)) c) i = data_get ty (CList offsets child) (s + i)"
    if "i < n" for i
  proof -
    note r = row_range_rebase [OF wf n that]
    have "map (col_get c) [unat (offsets ! (s + i)) - ?a..<unat (offsets ! (s + i + 1)) - ?a] =
        map (col_get child) [unat (offsets ! (s + i))..<unat (offsets ! (s + i + 1))]"
      using r(3-5) c(5) by (intro nth_equalityI) auto
    then show ?thesis using r(1,2) by simp
  qed
  then show ?case using c ab rebase_offsets_spec [OF wf n] "13.prems" by simp
qed (auto simp: slice_opt_len nth_opt_slice)

section \<open>Property of slices\<close>

text \<open>
  \<open>Column::slice\<close> inside the column's rows gives a well-formed column of the same type
  whose row \<open>i\<close> is row \<open>start + i\<close> of the original, offsets rebased and nested lists sliced
  along.
\<close>

lemma col_slice_rows:
  assumes "col_wf col" "start + n \<le> col_len col"
  shows "\<exists>c. col_slice col start n = Some c \<and> col_wf c \<and> col_ty c = col_ty col \<and> col_len c = n \<and>
    (\<forall>i < n. col_get c i = col_get col (start + i))"
  using col_slice_spec [OF assms] .

lemma col_slice_rows_witness:
  "\<exists>c. col_slice (Column TInt64 (CInt64 [7, 8, 9]) None 0) 1 2 = Some c \<and> col_wf c \<and> col_ty c = TInt64 \<and> col_len c = 2 \<and>
    (\<forall>i < 2. col_get c i = col_get (Column TInt64 (CInt64 [7, 8, 9]) None 0) (1 + i))"
  using col_slice_rows [of "Column TInt64 (CInt64 [7, 8, 9]) None 0" 1 2] by (simp add: col_len_def validity_ok_def)

end
