(* ===== verification/Column_Concat.thy ===== *)
theory Column_Concat
  imports Column_Ops
begin

text \<open>
  Concatenation of columns (\<open>Column::concat\<close> of \<open>exec/column.rs\<close>): the rows of the result are
  the rows of the parts, in order.
\<close>

section \<open>Concatenations read the rows of their parts\<close>

definition data_rows :: "data_type \<Rightarrow> column_data \<Rightarrow> val option list" where
  "data_rows ty d = map (data_get ty d) [0..<data_len d]"

definition col_rows :: "column \<Rightarrow> val option list" where
  "col_rows c = map (col_get c) [0..<col_len c]"

definition valid_bits :: "column \<Rightarrow> bool list" where
  "valid_bits c = (case col_validity c of None \<Rightarrow> replicate (col_len c) True | Some v \<Rightarrow> bm_bits v)"

definition mask_null :: "bool \<Rightarrow> val option \<Rightarrow> val option" where
  "mask_null b r = (if b then r else Some VNull)"

lemma col_rows_split:
  assumes "col_wf c"
  shows "col_rows c = map2 mask_null (valid_bits c) (data_rows (col_ty c) (col_data c))"
    and "length (valid_bits c) = col_len c"
proof -
  obtain ty d v n where c: "c = Column ty d v n" by (cases c)
  show "length (valid_bits c) = col_len c"
    using assms by (auto simp: c valid_bits_def col_len_def validity_ok_def split: option.splits)
  then show "col_rows c = map2 mask_null (valid_bits c) (data_rows (col_ty c) (col_data c))"
    using assms
    by (intro nth_equalityI)
      (auto simp: c col_rows_def data_rows_def col_len_def valid_bits_def mask_null_def col_is_null_def validity_ok_def bm_get_wf
        split: option.splits bool.splits)
qed

lemma map2_concat:
  "length xss = length yss \<Longrightarrow> (\<And>i. i < length xss \<Longrightarrow> length (xss ! i) = length (yss ! i)) \<Longrightarrow>
   map2 f (concat xss) (concat yss) = concat (map2 (map2 f) xss yss)"
proof (induction xss yss rule: list_induct2)
  case (Cons xs xss ys yss)
  have "length xs = length ys" using Cons.prems [of 0] by simp
  moreover have "map2 f (concat xss) (concat yss) = concat (map2 (map2 f) xss yss)"
    using Cons.prems [of "Suc _"] by (intro Cons.IH) auto
  ultimately show ?case by (simp add: zip_append)
qed simp

lemma concat_validity_bits:
  assumes "\<forall>c \<in> set cols. col_wf c"
  shows "case concat_validity cols of
      None \<Rightarrow> concat (map valid_bits cols) = replicate (sum_list (map col_len cols)) True
    | Some bm \<Rightarrow> bm_wf bm \<and> bm_bits bm = concat (map valid_bits cols)"
proof -
  have step: "(case col_validity c of Some v \<Rightarrow> fold (\<lambda>i bm. bm_push bm (bm_at v i)) [0..<col_len c] bm
      | None \<Rightarrow> fold (\<lambda>i bm. bm_push bm True) [0..<col_len c] bm) = fold (\<lambda>b bm. bm_push bm b) (valid_bits c) bm"
    if "col_wf c" for c bm
  proof (cases "col_validity c")
    case None
    have "fold (\<lambda>i bm. bm_push bm True) xs bm = fold (\<lambda>b bm. bm_push bm b) (replicate (length xs) True) bm" for xs :: "nat list" and bm
      by (induction xs arbitrary: bm) simp_all
    from this [of "[0..<col_len c]"] None show ?thesis by (simp add: valid_bits_def)
  next
    case (Some v)
    then have "bm_wf v" "bm_len v = col_len c" using that by (cases c; simp add: validity_ok_def col_len_def)+
    then have "valid_bits c = map (bm_at v) [0..<col_len c]"
      using bm_seq.scan_bits [of v] Some by (simp add: valid_bits_def)
    then show ?thesis using Some by (simp add: fold_map comp_def)
  qed
  have "fold (\<lambda>c bm. case col_validity c of Some v \<Rightarrow> fold (\<lambda>i bm. bm_push bm (bm_at v i)) [0..<col_len c] bm
      | None \<Rightarrow> fold (\<lambda>i bm. bm_push bm True) [0..<col_len c] bm) cols bm
    = fold (\<lambda>b bm. bm_push bm b) (concat (map valid_bits cols)) bm" for bm
    using assms step by (induction cols arbitrary: bm) (simp_all add: fold_append)
  then have "concat_validity cols = (if \<exists>c \<in> set cols. col_validity c \<noteq> None
      then Some (fold (\<lambda>b bm. bm_push bm b) (concat (map valid_bits cols)) (bm_new_valid 0)) else None)"
    by (simp add: concat_validity_def)
  moreover have "concat (map valid_bits cols) = replicate (sum_list (map col_len cols)) True"
    if "\<forall>c \<in> set cols. col_validity c = None"
    using that by (induction cols) (simp_all add: valid_bits_def replicate_add)
  ultimately show ?thesis
    using bm_seq.push_all [of "bm_new_valid 0" "concat (map valid_bits cols)"] by (auto simp: bm_new_valid_spec)
qed

subsection \<open>Scalars and offsets\<close>

lemma concat_scalar_spec:
  "concat_scalar ex cols out = Inr v \<Longrightarrow> \<exists>vs. map (\<lambda>c. ex (col_data c)) cols = map Some vs \<and> v = out @ concat vs"
proof (induction cols arbitrary: out)
  case (Cons c cols)
  then obtain x where "ex (col_data c) = Some x" "concat_scalar ex cols (out @ x) = Inr v"
    by (auto split: option.splits)
  moreover from this(2) obtain vs where "map (\<lambda>c. ex (col_data c)) cols = map Some vs" "v = (out @ x) @ concat vs"
    using Cons.IH by blast
  ultimately show ?case by (intro exI [of _ "x # vs"]) simp
qed simp

lemma sorted_last: "sorted xs \<Longrightarrow> x \<in> set xs \<Longrightarrow> x \<le> last xs"
  by (induction xs) auto

lemma push_rebased_spec:
  assumes "push_rebased offsets p = Inr q" "offsets_wf offsets m" "offsets_wf p k"
  shows "offsets_wf q (m + k)" "length q = length offsets + (length p - 1)"
    "\<And>i. i < length offsets \<Longrightarrow> q ! i = offsets ! i"
    "\<And>i. i < length p \<Longrightarrow> unat (q ! (length offsets - 1 + i)) = m + unat (p ! i)"
proof -
  let ?b = "last offsets"
  have q: "q = offsets @ map (\<lambda>off. ?b + off) (tl p)" and small: "\<And>off. off \<in> set (tl p) \<Longrightarrow> unat ?b + unat off < 2 ^ 32"
    using assms(1) by (auto simp: push_rebased_def Let_def split: if_splits)
  have ne: "offsets \<noteq> []" "p \<noteq> []" "unat ?b = m" "hd offsets = 0" "hd p = 0" "sorted offsets" "sorted p" "unat (last p) = k"
    using assms(2,3) by (simp_all add: offsets_wf_def)
  have add: "unat (?b + off) = m + unat off" if "off \<in> set p" for off
  proof -
    have "off = 0 \<or> off \<in> set (tl p)" using that ne(2,5) by (cases p) auto
    then show ?thesis using small ne(3) by (elim disjE) (simp, simp add: unat_word_ariths)
  qed
  show len: "length q = length offsets + (length p - 1)" by (simp add: q)
  show "\<And>i. i < length offsets \<Longrightarrow> q ! i = offsets ! i" by (simp add: q nth_append)
  show u: "unat (q ! (length offsets - 1 + i)) = m + unat (p ! i)" if "i < length p" for i
  proof (cases i)
    case 0
    then show ?thesis using ne by (simp add: q nth_append last_conv_nth hd_conv_nth)
  next
    case (Suc j)
    then have "q ! (length offsets - 1 + i) = ?b + p ! i"
      using that ne(1,2) by (cases offsets; cases p) (simp_all add: q nth_append)
    then show ?thesis using add [of "p ! i"] that by simp
  qed
  have "last q = q ! (length offsets - 1 + (length p - 1))"
    using len ne(1,2) by (cases offsets; cases p) (simp_all add: last_conv_nth q)
  then have "unat (last q) = m + k" using u [of "length p - 1"] ne by (simp add: last_conv_nth)
  moreover have "sorted q"
  proof -
    have tl: "off \<in> set p" if "off \<in> set (tl p)" for off using that by (rule list.set_sel(2) [OF ne(2)])
    have "sorted_wrt (\<lambda>x y. ?b + x \<le> ?b + y) (tl p)"
      by (rule sorted_wrt_mono_rel [OF _ sorted_tl [OF ne(7)]]) (simp add: word_le_nat_alt add tl)
    moreover have "x \<le> ?b + off" if "x \<in> set offsets" "off \<in> set (tl p)" for x off
    proof -
      have "x \<le> ?b" by (rule sorted_last [OF ne(6) that(1)])
      then show ?thesis using add [OF tl [OF that(2)]] ne(3) by (simp add: word_le_nat_alt)
    qed
    ultimately show ?thesis unfolding q sorted_append sorted_map using ne(6) by auto
  qed
  ultimately show "offsets_wf q (m + k)" using ne by (simp add: offsets_wf_def q)
qed

lemma row_range_push:
  assumes "push_rebased offsets p = Inr q" "offsets_wf offsets m" "offsets_wf p k"
  shows "map (row_range q) [0..<length q - 1] =
    map (row_range offsets) [0..<length offsets - 1] @
    map (\<lambda>i. map_option (\<lambda>(a, b). (m + a, m + b)) (row_range p i)) [0..<length p - 1]"
proof (rule nth_equalityI)
  note s = push_rebased_spec [OF assms]
  have ne: "offsets \<noteq> []" "p \<noteq> []" using assms(2,3) by (simp_all add: offsets_wf_def)
  then show "length (map (row_range q) [0..<length q - 1]) = length (map (row_range offsets) [0..<length offsets - 1] @
      map (\<lambda>i. map_option (\<lambda>(a, b). (m + a, m + b)) (row_range p i)) [0..<length p - 1])"
    using s(2) by (cases offsets; cases p) simp_all
  fix i
  assume "i < length (map (row_range q) [0..<length q - 1])"
  then have i: "i < length q - 1" by simp
  show "map (row_range q) [0..<length q - 1] ! i = (map (row_range offsets) [0..<length offsets - 1] @
      map (\<lambda>i. map_option (\<lambda>(a, b). (m + a, m + b)) (row_range p i)) [0..<length p - 1]) ! i"
  proof (cases "i < length offsets - 1")
    case True
    then have "Suc i < length offsets" "Suc i < length q" using i by simp_all
    then show ?thesis using True i s(3) [of i] s(3) [of "i + 1"] by (simp add: nth_append row_range_def)
  next
    case False
    define j where "j = i - (length offsets - 1)"
    have j: "i = length offsets - 1 + j" "j < length p - 1" using False i s(2) ne by (auto simp: j_def)
    moreover have "Suc j < length p" "Suc i < length q" using j i by simp_all
    ultimately show ?thesis using i s(4) [of j] s(4) [of "j + 1"] by (simp add: nth_append row_range_def)
  qed
qed

definition byte_rows :: "u32 list \<Rightarrow> byte list \<Rightarrow> byte list option list" where
  "byte_rows offsets data = map (row_bytes offsets data) [0..<length offsets - 1]"

lemma byte_rows_ranges: "byte_rows offsets data =
    map (\<lambda>r. case r of None \<Rightarrow> None | Some (a, b) \<Rightarrow> slice_opt data a b) (map (row_range offsets) [0..<length offsets - 1])"
  by (simp add: byte_rows_def row_bytes_def [abs_def])

lemma byte_rows_push:
  assumes "push_rebased offsets p = Inr q" "offsets_wf offsets (length data)" "offsets_wf p (length d)"
  shows "byte_rows q (data @ d) = byte_rows offsets data @ byte_rows p d"
proof -
  have "(case row_range offsets i of None \<Rightarrow> None | Some (a, b) \<Rightarrow> slice_opt (data @ d) a b) =
      (case row_range offsets i of None \<Rightarrow> None | Some (a, b) \<Rightarrow> slice_opt data a b)" if "i < length offsets - 1" for i
  proof -
    note i = that
    obtain a b where "row_range offsets i = Some (a, b)" "a \<le> b" "b \<le> length data"
      by (rule row_range_wf [OF assms(2) i])
    then show ?thesis by (simp add: slice_opt_def)
  qed
  moreover have "(case map_option (\<lambda>(a, b). (length data + a, length data + b)) (row_range p i) of
        None \<Rightarrow> None | Some (a, b) \<Rightarrow> slice_opt (data @ d) a b) =
      (case row_range p i of None \<Rightarrow> None | Some (a, b) \<Rightarrow> slice_opt d a b)" for i
    by (auto simp: slice_opt_def split: option.splits)
  ultimately show ?thesis
    unfolding byte_rows_ranges row_range_push [OF assms] by simp
qed

lemma concat_varwidth_spec:
  assumes "concat_varwidth ex cols offsets data = Inr (q, e)" "offsets_wf offsets (length data)"
    "\<forall>c \<in> set cols. \<forall>p d. ex (col_data c) = Some (p, d) \<longrightarrow> offsets_wf p (length d)"
  shows "\<exists>vs. map (\<lambda>c. ex (col_data c)) cols = map Some vs \<and> offsets_wf q (length e) \<and>
    byte_rows q e = byte_rows offsets data @ concat (map (\<lambda>(p, d). byte_rows p d) vs)"
  using assms
proof (induction cols arbitrary: offsets data)
  case (Cons c cols)
  then obtain p d offsets' where pd: "ex (col_data c) = Some (p, d)" and pr: "push_rebased offsets p = Inr offsets'"
    and r: "concat_varwidth ex cols offsets' (data @ d) = Inr (q, e)"
    by (auto split: option.splits sum.splits)
  have wf: "offsets_wf p (length d)" using Cons.prems(3) pd by simp
  have "offsets_wf offsets' (length (data @ d))" using push_rebased_spec(1) [OF pr Cons.prems(2) wf] by simp
  then obtain vs where "map (\<lambda>c. ex (col_data c)) cols = map Some vs" "offsets_wf q (length e)"
    "byte_rows q e = byte_rows offsets' (data @ d) @ concat (map (\<lambda>(p, d). byte_rows p d) vs)"
    using Cons.IH [OF r] Cons.prems(3) by (metis list.set_intros(2))
  then show ?case using pd byte_rows_push [OF pr Cons.prems(2) wf] by (intro exI [of _ "(p, d) # vs"]) simp
qed (auto simp: exI [of _ "[]"])

lemma concat_list_spec:
  assumes "concat_list cols offsets chs = Inr (q, out)" "offsets_wf offsets m"
    "\<forall>c \<in> set cols. \<forall>p ch. col_data c = CList p ch \<longrightarrow> offsets_wf p (col_len ch)"
  shows "\<exists>ps. map col_data cols = map (\<lambda>(p, ch). CList p ch) ps \<and> out = chs @ map snd ps \<and>
    offsets_wf q (m + sum_list (map (col_len \<circ> snd) ps)) \<and>
    length q = length offsets + sum_list (map (\<lambda>(p, ch). length p - 1) ps)"
  using assms
proof (induction cols arbitrary: offsets chs m)
  case (Cons c cols)
  then obtain p ch offsets' where pd: "col_data c = CList p ch" and pr: "push_rebased offsets p = Inr offsets'"
    and r: "concat_list cols offsets' (chs @ [ch]) = Inr (q, out)"
    by (auto split: column_data.splits sum.splits)
  have wf: "offsets_wf p (col_len ch)" using Cons.prems(3) pd by simp
  note s = push_rebased_spec [OF pr Cons.prems(2) wf]
  obtain ps where "map col_data cols = map (\<lambda>(p, ch). CList p ch) ps" "out = (chs @ [ch]) @ map snd ps"
    "offsets_wf q ((m + col_len ch) + sum_list (map (col_len \<circ> snd) ps))"
    "length q = length offsets' + sum_list (map (\<lambda>(p, ch). length p - 1) ps)"
    using Cons.IH [OF r s(1)] Cons.prems(3) by (metis list.set_intros(2))
  then show ?case using pd s(2) by (intro exI [of _ "(p, ch) # ps"]) (simp add: add.assoc comp_def)
qed (auto simp: exI [of _ "[]"])

text \<open>The ranges of a concatenation of lists: each part's ranges, moved to where its child starts.\<close>

fun shifted :: "nat \<Rightarrow> (u32 list \<times> column) list \<Rightarrow> (nat \<times> nat) option list" where
  "shifted m [] = []"
| "shifted m ((p, ch) # ps) =
     map (\<lambda>i. map_option (\<lambda>(a, b). (m + a, m + b)) (row_range p i)) [0..<length p - 1] @ shifted (m + col_len ch) ps"

lemma concat_list_ranges:
  assumes "concat_list cols offsets chs = Inr (q, out)" "offsets_wf offsets m"
    "map col_data cols = map (\<lambda>(p, ch). CList p ch) ps" "\<forall>(p, ch) \<in> set ps. offsets_wf p (col_len ch)"
  shows "map (row_range q) [0..<length q - 1] = map (row_range offsets) [0..<length offsets - 1] @ shifted m ps"
  using assms
proof (induction cols arbitrary: offsets chs m ps)
  case (Cons c cols)
  then obtain p ch ps' where ps: "ps = (p, ch) # ps'" by (cases ps) auto
  then obtain offsets' where pd: "col_data c = CList p ch" and pr: "push_rebased offsets p = Inr offsets'"
    and r: "concat_list cols offsets' (chs @ [ch]) = Inr (q, out)"
    using Cons.prems by (auto split: sum.splits)
  have wf: "offsets_wf p (col_len ch)" using Cons.prems(4) ps by simp
  have "map (row_range q) [0..<length q - 1] = map (row_range offsets') [0..<length offsets' - 1] @ shifted (m + col_len ch) ps'"
    by (rule Cons.IH [OF r push_rebased_spec(1) [OF pr Cons.prems(2) wf]]) (use Cons.prems ps in auto)
  then show ?case using row_range_push [OF pr Cons.prems(2) wf] ps by simp
qed (cases ps; simp)+

lemma shifted_rows:
  assumes "\<forall>(p, ch) \<in> set ps. offsets_wf p (col_len ch)" "\<And>i. i < length (concat (map (col_rows \<circ> snd) ps)) \<Longrightarrow>
      g (m + i) = concat (map (col_rows \<circ> snd) ps) ! i"
  shows "map (\<lambda>r. case r of None \<Rightarrow> None | Some (a, b) \<Rightarrow> map_option VList (those (map g [a..<b]))) (shifted m ps) =
    concat (map (\<lambda>(p, ch). data_rows (TList ty) (CList p ch)) ps)"
  using assms
proof (induction ps arbitrary: m)
  case (Cons x ps)
  obtain p ch where x: "x = (p, ch)" by (cases x)
  have wf: "offsets_wf p (col_len ch)" using Cons.prems(1) x by simp
  have l: "length (col_rows ch) = col_len ch" by (simp add: col_rows_def)
  have g: "g (m + j) = col_get ch j" if "j < col_len ch" for j
    using Cons.prems(2) [of j] that x l by (simp add: nth_append) (simp add: col_rows_def)
  have "map_option VList (those (map g [m + a..<m + b])) = map_option VList (those (map (col_get ch) [a..<b]))"
    if "b \<le> col_len ch" for a b
  proof -
    have "map g [m + a..<m + b] = map (col_get ch) [a..<b]"
      using g that by (intro nth_equalityI) (auto simp: add.assoc)
    then show ?thesis by simp
  qed
  note shift = this
  have "(case map_option (\<lambda>(a, b). (m + a, m + b)) (row_range p i) of None \<Rightarrow> None
      | Some (a, b) \<Rightarrow> map_option VList (those (map g [a..<b]))) = data_get (TList ty) (CList p ch) i" if "i < length p - 1" for i
  proof -
    note i = that
    obtain a b where "row_range p i = Some (a, b)" "a \<le> b" "b \<le> col_len ch" by (rule row_range_wf [OF wf i])
    then show ?thesis using shift [of b a] by simp
  qed
  moreover have "map (\<lambda>r. case r of None \<Rightarrow> None | Some (a, b) \<Rightarrow> map_option VList (those (map g [a..<b]))) (shifted (m + col_len ch) ps) =
    concat (map (\<lambda>(p, ch). data_rows (TList ty) (CList p ch)) ps)"
  proof (rule Cons.IH)
    fix i
    assume "i < length (concat (map (col_rows \<circ> snd) ps))"
    then show "g (m + col_len ch + i) = concat (map (col_rows \<circ> snd) ps) ! i"
      using Cons.prems(2) [of "col_len ch + i"] x l by (simp add: add.assoc comp_def nth_append)
  qed (use Cons.prems(1) in simp)
  ultimately show ?case by (simp add: x data_rows_def)
qed simp

subsection \<open>Columns\<close>

definition concat_data_ok :: "data_type \<Rightarrow> bool" where
  "concat_data_ok ty \<longleftrightarrow> (\<forall>cols d. (\<forall>c \<in> set cols. col_wf c \<and> col_ty c = ty) \<longrightarrow> concat_data ty cols = Inr d \<longrightarrow>
     data_wf ty d \<and> data_rows ty d = concat (map (\<lambda>c. data_rows ty (col_data c)) cols))"

lemma length_data_rows [simp]: "length (data_rows ty d) = data_len d"
  by (simp add: data_rows_def)

lemma empty_column_spec: "type_ok ty \<Longrightarrow> col_wf (empty_column ty) \<and> col_ty (empty_column ty) = ty \<and> col_len (empty_column ty) = 0"
  by (induction ty) (auto simp: col_len_def validity_ok_def offsets_wf_def bm_new_valid_spec, simp_all add: bm_new_valid_def)

lemma col_concat_from_data:
  assumes "concat_data_ok ty" "type_ok ty" "\<forall>c \<in> set cols. col_wf c \<and> col_ty c = ty" "col_concat ty cols = Inr c"
  shows "col_wf c \<and> col_ty c = ty \<and> col_rows c = concat (map col_rows cols)"
proof (cases "cols = []")
  case True
  then show ?thesis using assms empty_column_spec [of ty] by (auto simp: col_rows_def)
next
  case False
  then obtain d where d: "concat_data ty cols = Inr d"
    and c: "c = Column ty d (concat_validity cols) (null_count_of (sum_list (map col_len cols)) (concat_validity cols))"
    using assms(4) by (auto simp: rmap_def Let_def split: sum.splits)
  have wf: "data_wf ty d" and rows: "data_rows ty d = concat (map (\<lambda>c. data_rows ty (col_data c)) cols)"
    using assms(1,3) d by (auto simp: concat_data_ok_def)
  have len: "data_len d = sum_list (map col_len cols)"
    using arg_cong [OF rows, of length] by (simp add: length_concat comp_def col_len_def [abs_def])
  have bits: "case concat_validity cols of
      None \<Rightarrow> concat (map valid_bits cols) = replicate (sum_list (map col_len cols)) True
    | Some bm \<Rightarrow> bm_wf bm \<and> bm_bits bm = concat (map valid_bits cols)"
    using concat_validity_bits assms(3) by blast
  have vlen: "length (concat (map valid_bits cols)) = sum_list (map col_len cols)"
    using assms(3) col_rows_split(2) by (simp add: length_concat comp_def cong: map_cong)
  have v: "validity_ok (data_len d) (concat_validity cols)"
    using bits vlen len by (auto simp: validity_ok_def split: option.splits) (metis length_bm_bits)
  have cwf: "col_wf c" using wf v assms(2) by (simp add: c len null_count_of_def cong: option.case_cong)
  have vb: "valid_bits c = concat (map valid_bits cols)"
    using bits len by (auto simp: valid_bits_def c col_len_def split: option.splits)
  have "col_rows c = map2 mask_null (concat (map valid_bits cols)) (concat (map (\<lambda>c. data_rows ty (col_data c)) cols))"
    using col_rows_split(1) [OF cwf] vb rows by (simp add: c)
  also have "\<dots> = concat (map2 (map2 mask_null) (map valid_bits cols) (map (\<lambda>c. data_rows ty (col_data c)) cols))"
    using assms(3) col_rows_split(2) by (intro map2_concat) (auto simp: col_len_def)
  also have "map2 (map2 mask_null) (map valid_bits cols) (map (\<lambda>c. data_rows ty (col_data c)) cols) = map col_rows cols"
    using assms(3) col_rows_split(1) by (intro nth_equalityI) (auto simp: col_rows_split(1))
  finally show ?thesis using cwf by (simp add: c)
qed

lemma col_wf_data: "col_wf c \<Longrightarrow> data_wf (col_ty c) (col_data c)"
  by (cases c) simp

lemma map_ex_rows:
  assumes "map (\<lambda>c. ex (col_data c)) cols = map Some vs" "\<And>d v. ex d = Some v \<Longrightarrow> d = con v"
  shows "map (\<lambda>c. g (col_data c)) cols = map (\<lambda>v. g (con v)) vs" "\<forall>v \<in> set vs. \<exists>c \<in> set cols. col_data c = con v"
proof -
  have l: "length cols = length vs" using arg_cong [OF assms(1), of length] by simp
  have d: "col_data (cols ! i) = con (vs ! i)" if "i < length vs" for i
    using arg_cong [OF assms(1), of "\<lambda>l. l ! i"] that l assms(2) by simp
  show "map (\<lambda>c. g (col_data c)) cols = map (\<lambda>v. g (con v)) vs" using l d by (intro nth_equalityI) simp_all
  show "\<forall>v \<in> set vs. \<exists>c \<in> set cols. col_data c = con v" using l d by (metis in_set_conv_nth)
qed

lemma scalar_rows:
  "data_rows ty (CInt64 v) = map (Some \<circ> VInt64) v" "data_rows ty (CUInt64 w) = map (Some \<circ> VUInt64) w"
  "data_rows ty (CFloat64 w) = map (Some \<circ> VFloat64) w" "data_rows ty (CDecimal x) = map (get_decimal ty) x"
  "data_rows ty (CTimestamp v) = map (Some \<circ> VTimestamp) v" "data_rows ty (CDate y) = map (Some \<circ> VDate) y"
  "data_rows ty (CUuid z) = map (Some \<circ> VUuid) z" "data_rows ty (CIp z) = map (Some \<circ> VIp) z"
  by (rule nth_equalityI; simp add: data_rows_def nth_opt_def)+

lemma concat_scalar_ok:
  assumes "concat_scalar ex cols [] = Inr v" "\<forall>c \<in> set cols. col_wf c \<and> col_ty c = ty"
    "\<And>d v. ex d = Some v \<Longrightarrow> d = con v" "\<And>v. data_rows ty (con v) = map f v"
    "\<And>v. data_wf ty (con v) \<longleftrightarrow> (\<forall>u \<in> set v. P u)"
  shows "data_wf ty (con v) \<and> data_rows ty (con v) = concat (map (\<lambda>c. data_rows ty (col_data c)) cols)"
proof -
  obtain vs where vs: "map (\<lambda>c. ex (col_data c)) cols = map Some vs" "v = concat vs"
    using concat_scalar_spec [OF assms(1)] by auto
  have "data_wf ty (con w)" if "w \<in> set vs" for w
  proof -
    obtain c where "c \<in> set cols" "col_data c = con w" using map_ex_rows(2) [where con = con, OF vs(1) assms(3)] \<open>w \<in> set vs\<close> by blast
    then show ?thesis using assms(2) col_wf_data [of c] by auto
  qed
  then have "data_wf ty (con v)" using assms(5) vs(2) by auto
  moreover have "data_rows ty (con v) = concat (map (\<lambda>c. data_rows ty (col_data c)) cols)"
    using map_ex_rows(1) [where con = con, OF vs(1) assms(3), of "data_rows ty"] assms(4) by (simp add: vs(2) map_concat)
  ultimately show ?thesis ..
qed

lemma ex_SomeD:
  "ex_i64 d = Some v \<Longrightarrow> d = CInt64 v" "ex_u64 d = Some w \<Longrightarrow> d = CUInt64 w" "ex_f64 d = Some w \<Longrightarrow> d = CFloat64 w"
  "ex_dec d = Some x \<Longrightarrow> d = CDecimal x" "ex_ts d = Some v \<Longrightarrow> d = CTimestamp v" "ex_date d = Some y \<Longrightarrow> d = CDate y"
  "ex_uuid d = Some z \<Longrightarrow> d = CUuid z" "ex_ip d = Some z \<Longrightarrow> d = CIp z"
  "ex_str d = Some p \<Longrightarrow> d = (case p of (p, b) \<Rightarrow> CString p b)" "ex_bytes d = Some p \<Longrightarrow> d = (case p of (p, b) \<Rightarrow> CBytes p b)"
  by (cases d; auto; fail)+

lemma rmap_Inr: "rmap f r = Inr y \<longleftrightarrow> (\<exists>x. r = Inr x \<and> y = f x)"
  by (auto simp: rmap_def split: sum.splits)

lemma concat_data_ok_scalarI:
  assumes "\<And>cols. concat_data ty cols = rmap con (concat_scalar ex cols [])" "\<And>d v. ex d = Some v \<Longrightarrow> d = con v"
    "\<And>v. data_rows ty (con v) = map f v" "\<And>v. data_wf ty (con v) \<longleftrightarrow> (\<forall>u \<in> set v. P u)"
  shows "concat_data_ok ty"
  unfolding concat_data_ok_def assms(1) rmap_Inr
  using concat_scalar_ok [where con = con and f = f and P = P and ty = ty, OF _ _ assms(2,3,4)] by blast

lemma concat_data_ok_scalar:
  "concat_data_ok TInt64" "concat_data_ok TUInt64" "concat_data_ok TFloat64" "concat_data_ok (TDecimal dt)"
  "concat_data_ok TTimestamp" "concat_data_ok TDate" "concat_data_ok TUuid" "concat_data_ok TIp"
  using concat_data_ok_scalarI [where ty = TInt64 and P = "\<lambda>_. True", OF _ ex_SomeD(1) scalar_rows(1)]
    concat_data_ok_scalarI [where ty = TUInt64 and P = "\<lambda>_. True", OF _ ex_SomeD(2) scalar_rows(2)]
    concat_data_ok_scalarI [where ty = TFloat64 and P = "\<lambda>_. True", OF _ ex_SomeD(3) scalar_rows(3)]
    concat_data_ok_scalarI [where ty = "TDecimal dt" and P = "\<lambda>u. \<bar>sint u\<bar> < 10 ^ unat (dt_precision dt)", OF _ ex_SomeD(4) scalar_rows(4)]
    concat_data_ok_scalarI [where ty = TTimestamp and P = "\<lambda>_. True", OF _ ex_SomeD(5) scalar_rows(5)]
    concat_data_ok_scalarI [where ty = TDate and P = "\<lambda>_. True", OF _ ex_SomeD(6) scalar_rows(6)]
    concat_data_ok_scalarI [where ty = TUuid and P = "\<lambda>u. length u = 16", OF _ ex_SomeD(7) scalar_rows(7)]
    concat_data_ok_scalarI [where ty = TIp and P = "\<lambda>u. length u = 16", OF _ ex_SomeD(8) scalar_rows(8)]
  by simp_all

lemma concat_bool_spec:
  assumes "concat_bool cols bm = Inr out" "bm_wf bm" "\<forall>c \<in> set cols. col_wf c \<and> col_ty c = TBool"
  shows "bm_wf out \<and> map (Some \<circ> VBool) (bm_bits out) =
    map (Some \<circ> VBool) (bm_bits bm) @ concat (map (\<lambda>c. data_rows TBool (col_data c)) cols)"
  using assms
proof (induction cols arbitrary: bm)
  case (Cons c cols)
  then obtain cb where cb: "col_data c = CBool cb" "bm_wf cb"
    and r: "concat_bool cols (fold (\<lambda>i bm. bm_push bm (bm_at cb i)) [0..<bm_len cb] bm) = Inr out"
    by (cases c) (auto split: column_data.splits)
  let ?bm = "fold (\<lambda>i bm. bm_push bm (bm_at cb i)) [0..<bm_len cb] bm"
  have f: "?bm = fold (\<lambda>v b. bm_push b v) (bm_bits cb) bm"
  proof -
    have "?bm = fold (\<lambda>v b. bm_push b v) (map (bm_at cb) [0..<bm_len cb]) bm" by (simp add: fold_map comp_def)
    then show ?thesis using bm_seq.scan_bits [OF cb(2)] by simp
  qed
  have w: "bm_wf ?bm" "bm_bits ?bm = bm_bits bm @ bm_bits cb"
    using bm_seq.push_all [OF Cons.prems(2), of "bm_bits cb"] by (simp_all add: f)
  have d: "data_rows TBool (CBool cb) = map (Some \<circ> VBool) (bm_bits cb)"
    using cb(2) by (intro nth_equalityI) (simp_all add: data_rows_def bm_get_wf)
  show ?case using Cons.IH [OF r w(1)] Cons.prems(3) by (simp add: w(2) cb(1) d)
qed simp

lemma concat_data_ok_bool: "concat_data_ok TBool"
  unfolding concat_data_ok_def
proof (intro allI impI)
  fix cols d
  assume wf: "\<forall>c \<in> set cols. col_wf c \<and> col_ty c = TBool" and "concat_data TBool cols = Inr d"
  then obtain bm where bm: "concat_bool cols (bm_new_valid 0) = Inr bm" "d = CBool bm" by (auto simp: rmap_Inr)
  have "bm_wf bm" "map (Some \<circ> VBool) (bm_bits bm) = concat (map (\<lambda>c. data_rows TBool (col_data c)) cols)"
    using concat_bool_spec [OF bm(1) _ wf] by (simp_all add: bm_new_valid_spec)
  moreover from this(1) have "data_rows TBool (CBool bm) = map (Some \<circ> VBool) (bm_bits bm)"
    by (intro nth_equalityI) (simp_all add: data_rows_def bm_get_wf)
  ultimately show "data_wf TBool d \<and> data_rows TBool d = concat (map (\<lambda>c. data_rows TBool (col_data c)) cols)"
    by (simp add: bm(2))
qed


lemma concat_varwidth_ok:
  assumes "concat_varwidth ex cols [0] [] = Inr (q, e)" "\<forall>c \<in> set cols. col_wf c \<and> col_ty c = ty"
    "\<And>d p. ex d = Some p \<Longrightarrow> d = (case p of (p, b) \<Rightarrow> con p b)" "\<And>p b. data_rows ty (con p b) = map f (byte_rows p b)"
    "\<And>p b. data_wf ty (con p b) \<longleftrightarrow> offsets_wf p (length b) \<and> (\<forall>x \<in> set (byte_rows p b). P x)"
  shows "data_wf ty (con q e) \<and> data_rows ty (con q e) = concat (map (\<lambda>c. data_rows ty (col_data c)) cols)"
proof -
  have wf: "offsets_wf p (length d)" if "c \<in> set cols" "ex (col_data c) = Some (p, d)" for c p d
    using assms(2,5) col_wf_data [of c] assms(3) [OF that(2)] that(1) by auto
  have z: "offsets_wf [0] (length ([] :: byte list))" "byte_rows [0] [] = []"
    by (simp_all add: offsets_wf_def byte_rows_def)
  obtain vs where vs: "map (\<lambda>c. ex (col_data c)) cols = map Some vs" "offsets_wf q (length e)"
    "byte_rows q e = concat (map (\<lambda>(p, d). byte_rows p d) vs)"
    using concat_varwidth_spec [OF assms(1) z(1)] wf z(2) by auto
  note conv = map_ex_rows [where con = "\<lambda>p. case p of (p, b) \<Rightarrow> con p b", OF vs(1) assms(3)]
  have "P x" if "(p, b) \<in> set vs" "x \<in> set (byte_rows p b)" for p b x
  proof -
    have "\<exists>c \<in> set cols. col_data c = con p b" using conv(2) that(1) by force
    then obtain c where "c \<in> set cols" "col_data c = con p b" by blast
    then show ?thesis using assms(2,5) col_wf_data [of c] that(2) by auto
  qed
  then have "data_wf ty (con q e)" using assms(5) vs(2,3) by auto
  moreover have "data_rows ty (con q e) = concat (map (\<lambda>c. data_rows ty (col_data c)) cols)"
    using conv(1) [of "data_rows ty"] assms(4) vs(3) by (simp add: map_concat case_prod_unfold comp_def)
  ultimately show ?thesis ..
qed

lemma byte_data_rows:
  "data_rows ty (CString p b) = map (\<lambda>x. case x of None \<Rightarrow> None | Some b \<Rightarrow> if utf8_valid b then Some (VString b) else None) (byte_rows p b)"
  "data_rows ty (CBytes p b) = map (map_option VBytes) (byte_rows p b)"
  by (simp_all add: data_rows_def byte_rows_def)

lemma concat_data_ok_var: "concat_data_ok TString" "concat_data_ok TBytes"
proof -
  have s: "data_wf TString (CString p b) \<longleftrightarrow> offsets_wf p (length b) \<and> (\<forall>x \<in> set (byte_rows p b). \<exists>s. x = Some s \<and> utf8_valid s)" for p b
    by (auto simp: byte_rows_def)
  have y: "data_wf TBytes (CBytes p b) \<longleftrightarrow> offsets_wf p (length b) \<and> (\<forall>x \<in> set (byte_rows p b). True)" for p b
    by simp
  note S = concat_varwidth_ok [where con = CString and ty = TString, OF _ _ ex_SomeD(9) byte_data_rows(1) s]
  note Y = concat_varwidth_ok [where con = CBytes and ty = TBytes, OF _ _ ex_SomeD(10) byte_data_rows(2) y]
  show "concat_data_ok TString" "concat_data_ok TBytes"
    unfolding concat_data_ok_def concat_data.simps rmap_Inr using S Y by (auto simp del: data_wf.simps)
qed

lemma concat_data_ok_list:
  assumes "concat_data_ok elem" "type_ok elem"
  shows "concat_data_ok (TList elem)"
  unfolding concat_data_ok_def
proof (intro allI impI)
  fix cols d
  assume wf: "\<forall>c \<in> set cols. col_wf c \<and> col_ty c = TList elem" and "concat_data (TList elem) cols = Inr d"
  then obtain q chs child where q: "concat_list cols [0] [] = Inr (q, chs)" and child: "col_concat elem chs = Inr child"
    and d: "d = CList q child" by (auto simp: rmap_Inr split: sum.splits)
  have data: "data_wf (TList elem) (col_data c)" if "c \<in> set cols" for c using wf col_wf_data [of c] that by auto
  have z: "offsets_wf [0] 0" by (simp add: offsets_wf_def)
  obtain ps where ps: "map col_data cols = map (\<lambda>(p, ch). CList p ch) ps" "chs = map snd ps"
    "offsets_wf q (sum_list (map (col_len \<circ> snd) ps))"
    using concat_list_spec [OF q z] data by fastforce
  have parts: "offsets_wf p (col_len ch) \<and> col_wf ch \<and> col_ty ch = elem" if "(p, ch) \<in> set ps" for p ch
  proof -
    have "CList p ch \<in> set (map col_data cols)" unfolding ps(1) using that by force
    then obtain c where "c \<in> set cols" "col_data c = CList p ch" by auto
    then show ?thesis using data [of c] by simp
  qed
  have c: "col_wf child" "col_ty child = elem" "col_rows child = concat (map (col_rows \<circ> snd) ps)"
  proof -
    have "\<forall>c \<in> set chs. col_wf c \<and> col_ty c = elem" using parts by (auto simp: ps(2))
    from col_concat_from_data [OF assms this child]
    show "col_wf child" "col_ty child = elem" "col_rows child = concat (map (col_rows \<circ> snd) ps)" by (simp_all add: ps(2))
  qed
  have len: "col_len child = sum_list (map (col_len \<circ> snd) ps)"
    using arg_cong [OF c(3), of length] by (simp add: length_concat comp_def col_rows_def)
  have g: "col_get child (0 + i) = concat (map (col_rows \<circ> snd) ps) ! i" if "i < length (concat (map (col_rows \<circ> snd) ps))" for i
    using that unfolding c(3) [symmetric] by (simp add: col_rows_def)
  have ranges: "map (row_range q) [0..<length q - 1] = shifted 0 ps"
    using concat_list_ranges [OF q z ps(1)] parts by auto
  have "data_rows (TList elem) d =
      map (\<lambda>r. case r of None \<Rightarrow> None | Some (a, b) \<Rightarrow> map_option VList (those (map (col_get child) [a..<b])))
        (map (row_range q) [0..<length q - 1])"
    by (simp add: d data_rows_def)
  also have "\<dots> = concat (map (\<lambda>(p, ch). data_rows (TList elem) (CList p ch)) ps)"
    unfolding ranges by (rule shifted_rows [OF _ g]) (use parts in auto)
  also have "\<dots> = concat (map (data_rows (TList elem)) (map col_data cols))"
    by (simp add: ps(1) case_prod_unfold comp_def)
  finally have "data_rows (TList elem) d = concat (map (\<lambda>c. data_rows (TList elem) (col_data c)) cols)" by (simp add: comp_def)
  moreover have "data_wf (TList elem) d" using c ps(3) len by (simp add: d)
  ultimately show "data_wf (TList elem) d \<and> data_rows (TList elem) d = concat (map (\<lambda>c. data_rows (TList elem) (col_data c)) cols)"
    by simp
qed

lemma concat_data_ok_all: "type_ok ty \<Longrightarrow> concat_data_ok ty"
  by (induction ty) (simp_all add: concat_data_ok_scalar concat_data_ok_bool concat_data_ok_var concat_data_ok_list)

text \<open>
  C26. \<open>Column::concat\<close> of well-formed columns of one type, when it succeeds, is a well-formed
  column of that type whose rows are the rows of the parts in order: a part with no validity
  bitmap counts as all valid, offsets are rebased, and the children of lists are concatenated
  along.
\<close>

theorem col_concat_rows:
  assumes "\<forall>c \<in> set cols. col_wf c \<and> col_ty c = ty" "type_ok ty" "col_concat ty cols = Inr c"
  shows "col_wf c \<and> col_ty c = ty \<and>
    map (col_get c) [0..<col_len c] = concat (map (\<lambda>c. map (col_get c) [0..<col_len c]) cols)"
  using col_concat_from_data [OF concat_data_ok_all [OF assms(2)] assms(2,1,3)] by (simp add: col_rows_def [abs_def])

theorem col_concat_rows_witness:
  "\<exists>c. col_concat TInt64 [Column TInt64 (CInt64 [7]) None 0, Column TInt64 (CInt64 [8, 9]) None 0] = Inr c \<and> col_wf c \<and>
    map (col_get c) [0..<col_len c] = [Some (VInt64 7), Some (VInt64 8), Some (VInt64 9)]"
proof -
  let ?cols = "[Column TInt64 (CInt64 [7]) None 0, Column TInt64 (CInt64 [8, 9]) None 0]"
  have c: "col_concat TInt64 ?cols = Inr (Column TInt64 (CInt64 [7, 8, 9]) None 0)" by code_simp
  have wf: "\<forall>c \<in> set ?cols. col_wf c \<and> col_ty c = TInt64" by (simp add: validity_ok_def)
  show ?thesis using col_concat_rows [OF wf _ c] c by (simp add: col_len_def col_is_null_def nth_opt_def)
qed

end
