(* ===== verification/Builder.thy ===== *)
theory Builder
  imports Column_Concat
begin

text \<open>
  \<open>ColumnBuilder\<close> (\<open>src/exec/column.rs\<close>): a column under construction, one physical layout
  per type, that coerces what is pushed to its type. An operation returns the outcome and
  the builder as it leaves it, also when it fails; \<open>None\<close> is a panic.
\<close>

section \<open>Model\<close>

datatype builder =
  Builder (bd_ty: data_type) (bd_data: builder_data) (bd_validity: "bitmap option") (bd_nulls: nat) (bd_len: nat)
and builder_data =
    BBool bitmap
  | BInt64 "i64 list"
  | BUInt64 "u64 list"
  | BFloat64 "f64 list"
  | BDecimal "i128 list"
  | BTimestamp "i64 list"
  | BDate "i32 list"
  | BUuid "byte list list"
  | BIp "byte list list"
  | BString "u32 list" "byte list"
  | BBytes "u32 list" "byte list"
  | BList "u32 list" builder

fun with_capacity :: "data_type \<Rightarrow> builder" and builder_data_new :: "data_type \<Rightarrow> builder_data" where
  "with_capacity ty = Builder ty (builder_data_new ty) None 0 0"
| "builder_data_new TBool = BBool (bm_new_valid 0)"
| "builder_data_new TInt64 = BInt64 []"
| "builder_data_new TUInt64 = BUInt64 []"
| "builder_data_new TFloat64 = BFloat64 []"
| "builder_data_new (TDecimal _) = BDecimal []"
| "builder_data_new TTimestamp = BTimestamp []"
| "builder_data_new TDate = BDate []"
| "builder_data_new TUuid = BUuid []"
| "builder_data_new TIp = BIp []"
| "builder_data_new TString = BString [0] []"
| "builder_data_new TBytes = BBytes [0] []"
| "builder_data_new (TList elem) = BList [0] (with_capacity elem)"

definition checked_offset :: "nat \<Rightarrow> column_error + u32" where
  "checked_offset n = (if n < 2 ^ 32 then Inr (of_nat n) else Inl TooLarge)"

text \<open>\<open>offsets.push(*offsets.last().expect(..))\<close>.\<close>

definition repeat_last :: "u32 list \<Rightarrow> u32 list option" where
  "repeat_last offsets = (if offsets = [] then None else Some (offsets @ [last offsets]))"

fun push_default :: "builder_data \<Rightarrow> builder_data option" where
  "push_default (BBool bm) = Some (BBool (bm_push bm False))"
| "push_default (BInt64 v) = Some (BInt64 (v @ [0]))"
| "push_default (BUInt64 v) = Some (BUInt64 (v @ [0]))"
| "push_default (BFloat64 v) = Some (BFloat64 (v @ [0]))"
| "push_default (BDecimal v) = Some (BDecimal (v @ [0]))"
| "push_default (BTimestamp v) = Some (BTimestamp (v @ [0]))"
| "push_default (BDate v) = Some (BDate (v @ [0]))"
| "push_default (BUuid v) = Some (BUuid (v @ [replicate 16 0]))"
| "push_default (BIp v) = Some (BIp (v @ [replicate 16 0]))"
| "push_default (BString offsets data) = map_option (\<lambda>p. BString p data) (repeat_last offsets)"
| "push_default (BBytes offsets data) = map_option (\<lambda>p. BBytes p data) (repeat_last offsets)"
| "push_default (BList offsets child) = map_option (\<lambda>p. BList p child) (repeat_last offsets)"

definition push_null :: "builder \<Rightarrow> builder option" where
  "push_null b =
     (case push_default (bd_data b) of
        None \<Rightarrow> None
      | Some d \<Rightarrow>
          let v = (case bd_validity b of None \<Rightarrow> bm_new_valid (bd_len b) | Some v \<Rightarrow> v)
          in Some (Builder (bd_ty b) d (Some (bm_push v False)) (bd_nulls b + 1) (bd_len b + 1)))"

type_synonym 'b push_result = "((column_error + unit) \<times> 'b) option"

text \<open>The tail of \<open>push_coerced\<close> once the value is in the buffer.\<close>

definition pushed :: "builder \<Rightarrow> builder_data \<Rightarrow> builder push_result" where
  "pushed b d =
     Some (Inr (), Builder (bd_ty b) d (map_option (\<lambda>v. bm_push v True) (bd_validity b)) (bd_nulls b) (bd_len b + 1))"

definition push_bytes :: "(u32 list \<Rightarrow> byte list \<Rightarrow> builder_data) \<Rightarrow> builder \<Rightarrow> u32 list \<Rightarrow> byte list \<Rightarrow>
    byte list \<Rightarrow> builder push_result" where
  "push_bytes con b offsets data s =
     (case checked_offset (length data + length s) of
        Inl e \<Rightarrow> Some (Inl e, b)
      | Inr off \<Rightarrow> pushed b (con (offsets @ [off]) (data @ s)))"

fun push_coerced :: "val \<Rightarrow> builder \<Rightarrow> builder push_result"
  and push_items :: "val list \<Rightarrow> builder \<Rightarrow> builder push_result" where
  "push_coerced VNull b = None"
| "push_coerced (VBool x) b = (case bd_data b of BBool bm \<Rightarrow> pushed b (BBool (bm_push bm x)) | _ \<Rightarrow> None)"
| "push_coerced (VInt64 n) b = (case bd_data b of BInt64 buf \<Rightarrow> pushed b (BInt64 (buf @ [n])) | _ \<Rightarrow> None)"
| "push_coerced (VUInt64 n) b = (case bd_data b of BUInt64 buf \<Rightarrow> pushed b (BUInt64 (buf @ [n])) | _ \<Rightarrow> None)"
| "push_coerced (VFloat64 f) b = (case bd_data b of BFloat64 buf \<Rightarrow> pushed b (BFloat64 (buf @ [f])) | _ \<Rightarrow> None)"
| "push_coerced (VDecimal d) b = (case bd_data b of BDecimal buf \<Rightarrow> pushed b (BDecimal (buf @ [dec_unscaled d])) | _ \<Rightarrow> None)"
| "push_coerced (VTimestamp n) b = (case bd_data b of BTimestamp buf \<Rightarrow> pushed b (BTimestamp (buf @ [n])) | _ \<Rightarrow> None)"
| "push_coerced (VDate d) b = (case bd_data b of BDate buf \<Rightarrow> pushed b (BDate (buf @ [d])) | _ \<Rightarrow> None)"
| "push_coerced (VUuid u) b = (case bd_data b of BUuid buf \<Rightarrow> pushed b (BUuid (buf @ [u])) | _ \<Rightarrow> None)"
| "push_coerced (VIp u) b = (case bd_data b of BIp buf \<Rightarrow> pushed b (BIp (buf @ [u])) | _ \<Rightarrow> None)"
| "push_coerced (VString s) b = (case bd_data b of BString offsets data \<Rightarrow> push_bytes BString b offsets data s | _ \<Rightarrow> None)"
| "push_coerced (VBytes s) b = (case bd_data b of BBytes offsets data \<Rightarrow> push_bytes BBytes b offsets data s | _ \<Rightarrow> None)"
| "push_coerced (VList items) b =
     (case bd_data b of
        BList offsets child \<Rightarrow>
          (case checked_offset (bd_len child + length items) of
             Inl e \<Rightarrow> Some (Inl e, b)
           | Inr _ \<Rightarrow>
               (case push_items items child of
                  None \<Rightarrow> None
                | Some (Inl e, child') \<Rightarrow>
                    Some (Inl e, Builder (bd_ty b) (BList offsets child') (bd_validity b) (bd_nulls b) (bd_len b))
                | Some (Inr _, child') \<Rightarrow>
                    (case checked_offset (bd_len child') of
                       Inl e \<Rightarrow> Some (Inl e, Builder (bd_ty b) (BList offsets child') (bd_validity b) (bd_nulls b) (bd_len b))
                     | Inr off \<Rightarrow> pushed b (BList (offsets @ [off]) child'))))
      | _ \<Rightarrow> None)"
| "push_items [] b = Some (Inr (), b)"
| "push_items (item # items) b =
     (case (if is_null item then map_option (\<lambda>b. (Inr (), b)) (push_null b) else push_coerced item b) of
        None \<Rightarrow> None
      | Some (Inl e, b') \<Rightarrow> Some (Inl e, b')
      | Some (Inr _, b') \<Rightarrow> push_items items b')"

definition push :: "val \<Rightarrow> builder \<Rightarrow> builder push_result" where
  "push v b =
     (if is_null v then map_option (\<lambda>b. (Inr (), b)) (push_null b)
      else case coerce v (bd_ty b) of
             None \<Rightarrow> Some (Inl (DoesNotFit v (bd_ty b)), b)
           | Some coerced \<Rightarrow> push_coerced coerced b)"

fun builder_finish :: "builder \<Rightarrow> column" and finish_data :: "builder_data \<Rightarrow> column_data" where
  "builder_finish (Builder ty data validity nulls len) = Column ty (finish_data data) validity nulls"
| "finish_data (BBool bm) = CBool bm"
| "finish_data (BInt64 v) = CInt64 v"
| "finish_data (BUInt64 v) = CUInt64 v"
| "finish_data (BFloat64 v) = CFloat64 v"
| "finish_data (BDecimal v) = CDecimal v"
| "finish_data (BTimestamp v) = CTimestamp v"
| "finish_data (BDate v) = CDate v"
| "finish_data (BUuid v) = CUuid v"
| "finish_data (BIp v) = CIp v"
| "finish_data (BString offsets data) = CString offsets data"
| "finish_data (BBytes offsets data) = CBytes offsets data"
| "finish_data (BList offsets child) = CList offsets (builder_finish child)"

section \<open>Growing a column by one row\<close>

lemma valid_bits_snoc:
  assumes "col_wf (Column ty data validity nulls)"
  shows "valid_bits (Column ty data' (map_option (\<lambda>v. bm_push v True) validity) n) =
      valid_bits (Column ty data validity nulls) @ [True] \<or> data_len data' \<noteq> data_len data + 1"
    "valid_bits (Column ty data' (Some (bm_push (case validity of None \<Rightarrow> bm_new_valid (data_len data) | Some v \<Rightarrow> v) False)) n) =
      valid_bits (Column ty data validity nulls) @ [False]"
  using assms
  by (auto simp: valid_bits_def col_len_def validity_ok_def bm_push_wf bm_new_valid_spec replicate_append_same
      split: option.splits)

lemma grow_column:
  assumes wf: "col_wf (Column ty data validity nulls)" and d: "data_wf ty data'"
    "data_rows ty data' = data_rows ty data @ [r]"
  shows "let c = Column ty data' (map_option (\<lambda>v. bm_push v True) validity) nulls in
      col_wf c \<and> col_rows c = col_rows (Column ty data validity nulls) @ [r]"
    and "let c = Column ty data' (Some (bm_push (case validity of None \<Rightarrow> bm_new_valid (data_len data) | Some v \<Rightarrow> v) False)) (nulls + 1) in
      col_wf c \<and> col_rows c = col_rows (Column ty data validity nulls) @ [Some VNull]"
proof -
  let ?old = "Column ty data validity nulls"
  have l: "data_len data' = data_len data + 1" using arg_cong [OF d(2), of length] by simp
  have old: "length (valid_bits ?old) = length (data_rows ty data)" using col_rows_split(2) [OF wf] by (simp add: col_len_def)
  have cnt: "bm_wf v \<Longrightarrow> bm_count_valid (bm_push v x) = bm_count_valid v + (if x then 1 else 0)" for v x
    by (simp add: bm_count_valid_spec bm_push_wf)
  have le: "bm_wf v \<Longrightarrow> bm_count_valid v \<le> bm_len v" for v
    using length_filter_le [of id "bm_bits v"] by (simp add: bm_count_valid_spec)
  have plen: "bm_wf v \<Longrightarrow> bm_len (bm_push v x) = bm_len v + 1" for v x
    using arg_cong [OF bm_push_wf(2), of v length x] by simp
  have nv: "bm_wf (bm_new_valid m)" "bm_len (bm_new_valid m) = m" "bm_count_valid (bm_new_valid m) = m" for m
    using bm_new_valid_spec [of m] by (simp_all add: bm_count_valid_spec bm_new_valid_def)
  have w1: "col_wf (Column ty data' (map_option (\<lambda>v. bm_push v True) validity) nulls)"
    using wf d(1) l by (auto simp: validity_ok_def plen cnt bm_push_wf split: option.splits)
  have w2: "col_wf (Column ty data' (Some (bm_push (case validity of None \<Rightarrow> bm_new_valid (data_len data) | Some v \<Rightarrow> v) False)) (nulls + 1))"
    using wf d(1) l le by (force simp: validity_ok_def plen cnt bm_push_wf nv Suc_diff_le split: option.splits)
  show "let c = Column ty data' (map_option (\<lambda>v. bm_push v True) validity) nulls in
      col_wf c \<and> col_rows c = col_rows ?old @ [r]"
    using w1 valid_bits_snoc(1) [OF wf, of data'] l old
    by (simp add: Let_def col_rows_split(1) [OF w1] col_rows_split(1) [OF wf] d(2) mask_null_def del: col_wf.simps)
  show "let c = Column ty data' (Some (bm_push (case validity of None \<Rightarrow> bm_new_valid (data_len data) | Some v \<Rightarrow> v) False)) (nulls + 1) in
      col_wf c \<and> col_rows c = col_rows ?old @ [Some VNull]"
    unfolding Let_def col_rows_split(1) [OF w2] col_rows_split(1) [OF wf] using w2 old
    by (simp add: d(2) valid_bits_snoc(2) [OF wf] mask_null_def del: col_wf.simps)
qed

lemma offsets_snoc:
  assumes "offsets_wf offsets m" "m + k < 2 ^ 32"
  shows "push_rebased offsets [0, of_nat k] = Inr (offsets @ [of_nat (m + k)])" "offsets_wf [0, of_nat k] k"
proof -
  have l: "unat (last offsets) = m" using assms(1) by (simp add: offsets_wf_def)
  have k: "unat (of_nat k :: u32) = k" using assms(2) by (simp add: unat_of_nat)
  have "last offsets = of_nat m" using l by (metis of_nat_unat ucast_id)
  then show "push_rebased offsets [0, of_nat k] = Inr (offsets @ [of_nat (m + k)])"
    using assms(2) l k by (simp add: push_rebased_def Let_def)
  show "offsets_wf [0, of_nat k] k" using k by (simp add: offsets_wf_def)
qed

section \<open>The builder as a list of rows\<close>

fun builder_wf :: "builder \<Rightarrow> bool" where
  "builder_wf (Builder ty data validity nulls len) \<longleftrightarrow>
     col_wf (Column ty (finish_data data) validity nulls) \<and> len = data_len (finish_data data) \<and>
     (case data of BList _ child \<Rightarrow> builder_wf child | _ \<Rightarrow> True)"

definition builder_rows :: "builder \<Rightarrow> val option list" where
  "builder_rows b = col_rows (builder_finish b)"

definition child_wf :: "builder_data \<Rightarrow> bool" where
  "child_wf d \<longleftrightarrow> (case d of BList _ child \<Rightarrow> builder_wf child | _ \<Rightarrow> True)"

lemma pushed_spec:
  assumes "builder_wf b" "data_wf (bd_ty b) (finish_data d)" "child_wf d"
    "data_rows (bd_ty b) (finish_data d) = data_rows (bd_ty b) (finish_data (bd_data b)) @ [Some v]"
  shows "\<exists>b'. pushed b d = Some (Inr (), b') \<and> bd_ty b' = bd_ty b \<and> builder_wf b' \<and> builder_rows b' = builder_rows b @ [Some v] \<and> bd_data b' = d"
proof (cases b)
  case (Builder ty data validity nulls len)
  then have wf: "col_wf (Column ty (finish_data data) validity nulls)" and l: "len = data_len (finish_data data)"
    using assms(1) by simp_all
  have "data_len (finish_data d) = len + 1" using arg_cong [OF assms(4), of length] Builder l by simp
  then show ?thesis using grow_column(1) [OF wf, of "finish_data d" "Some v"] assms(2,3,4) Builder
    by (simp add: pushed_def builder_rows_def child_wf_def Let_def del: col_wf.simps)
qed

lemma push_null_spec:
  assumes "builder_wf b" "push_default (bd_data b) = Some d" "data_wf (bd_ty b) (finish_data d)" "child_wf d"
    "data_rows (bd_ty b) (finish_data d) = data_rows (bd_ty b) (finish_data (bd_data b)) @ [r]"
  shows "\<exists>b'. push_null b = Some b' \<and> bd_ty b' = bd_ty b \<and> builder_wf b' \<and> builder_rows b' = builder_rows b @ [Some VNull] \<and> bd_data b' = d"
proof (cases b)
  case (Builder ty data validity nulls len)
  then have wf: "col_wf (Column ty (finish_data data) validity nulls)" and l: "len = data_len (finish_data data)"
    using assms(1) by simp_all
  have "data_len (finish_data d) = len + 1" using arg_cong [OF assms(5), of length] Builder l by simp
  then show ?thesis using grow_column(2) [OF wf, of "finish_data d" r] assms(2,3,4,5) Builder l
    by (simp add: push_null_def builder_rows_def child_wf_def Let_def del: col_wf.simps cong: option.case_cong)
qed

lemma byte_rows_snoc:
  assumes "offsets_wf offsets (length data)" "length data + length s < 2 ^ 32"
  shows "offsets_wf (offsets @ [of_nat (length data + length s)]) (length (data @ s))"
    "byte_rows (offsets @ [of_nat (length data + length s)]) (data @ s) = byte_rows offsets data @ [Some s]"
proof -
  note sn = offsets_snoc [OF assms]
  show "offsets_wf (offsets @ [of_nat (length data + length s)]) (length (data @ s))"
    using push_rebased_spec(1) [OF sn(1) assms(1) sn(2)] by simp
  have "unat (of_nat (length s) :: u32) = length s" using assms(2) by (simp add: unat_of_nat)
  then have "byte_rows [0, of_nat (length s)] s = [Some s]"
    by (simp add: byte_rows_def row_bytes_def row_range_def slice_opt_def)
  then show "byte_rows (offsets @ [of_nat (length data + length s)]) (data @ s) = byte_rows offsets data @ [Some s]"
    using byte_rows_push [OF sn(1) assms(1) sn(2)] by simp
qed

lemma varwidth_rows:
  "data_rows ty (CString offsets data) = map (\<lambda>r. case r of None \<Rightarrow> None | Some b \<Rightarrow> if utf8_valid b then Some (VString b) else None) (byte_rows offsets data)"
  "data_rows ty (CBytes offsets data) = map (map_option VBytes) (byte_rows offsets data)"
  by (simp_all add: data_rows_def byte_rows_def)

lemma string_wf_rows: "data_wf ty (CString offsets data) \<longleftrightarrow> ty = TString \<and> offsets_wf offsets (length data) \<and>
    (\<forall>r \<in> set (byte_rows offsets data). \<exists>b. r = Some b \<and> utf8_valid b)"
  by (auto simp: byte_rows_def)

lemma bool_rows: "bm_wf bm \<Longrightarrow> data_rows ty (CBool bm) = map (Some \<circ> VBool) (bm_bits bm)"
  by (rule nth_equalityI) (simp_all add: data_rows_def bm_get_wf)

lemma list_rows:
  "data_rows ty (CList offsets child) = map (\<lambda>r. case r of None \<Rightarrow> None
      | Some (a, b) \<Rightarrow> map_option VList (those (map (col_get child) [a..<b]))) (map (row_range offsets) [0..<length offsets - 1])"
  by (simp add: data_rows_def)

lemma last_offset: "offsets_wf offsets m \<Longrightarrow> last offsets = of_nat m \<and> m < 2 ^ 32"
  using unsigned_less [of "last offsets"] by (auto simp: offsets_wf_def)

lemma push_default_spec:
  assumes "builder_wf b"
  shows "\<exists>d r. push_default (bd_data b) = Some d \<and> data_wf (bd_ty b) (finish_data d) \<and> child_wf d \<and>
    data_rows (bd_ty b) (finish_data d) = data_rows (bd_ty b) (finish_data (bd_data b)) @ [r]"
proof -
  obtain ty data v n len where b: "b = Builder ty data v n len" by (cases b)
  show ?thesis
  proof (cases data)
    case (BString offsets s)
    then have o: "offsets_wf offsets (length s)" and w: "data_wf ty (CString offsets s)" using assms b by simp_all
    have "repeat_last offsets = Some (offsets @ [of_nat (length s + length ([] :: byte list))])"
      using last_offset [OF o] o by (auto simp: repeat_last_def offsets_wf_def)
    then show ?thesis using byte_rows_snoc [OF o, of "[]"] last_offset [OF o] w BString b
      by (auto simp: child_wf_def varwidth_rows string_wf_rows utf8_valid.simps simp del: data_wf.simps)
  next
    case (BBytes offsets s)
    then have o: "offsets_wf offsets (length s)" and w: "data_wf ty (CBytes offsets s)" using assms b by simp_all
    have "repeat_last offsets = Some (offsets @ [of_nat (length s + length ([] :: byte list))])"
      using last_offset [OF o] o by (auto simp: repeat_last_def offsets_wf_def)
    then show ?thesis using byte_rows_snoc [OF o, of "[]"] last_offset [OF o] w BBytes b
      by (auto simp: child_wf_def varwidth_rows)
  next
    case (BList offsets child)
    then have o: "offsets_wf offsets (col_len (builder_finish child))" and w: "data_wf ty (finish_data data)"
      using assms b by simp_all
    note sn = offsets_snoc [OF o, of 0] and lo = last_offset [OF o]
    have "repeat_last offsets = Some (offsets @ [of_nat (col_len (builder_finish child) + 0)])"
      using lo o by (auto simp: repeat_last_def offsets_wf_def)
    then show ?thesis using push_rebased_spec(1) [OF sn(1) o sn(2)] row_range_push [OF sn(1) o sn(2)] w lo BList b assms
      by (auto simp: child_wf_def list_rows simp del: map_map)
  qed (use assms b in \<open>auto simp: child_wf_def scalar_rows bool_rows bm_push_wf split: data_type.splits\<close>)
qed

text \<open>
  Bytes and list elements a builder holds, and those a value adds: what the 32-bit offsets
  have to reach.
\<close>

fun data_payload :: "builder_data \<Rightarrow> nat" where
  "data_payload (BString offsets data) = length data"
| "data_payload (BBytes offsets data) = length data"
| "data_payload (BList offsets (Builder ty d v n len)) = len + data_payload d"
| "data_payload _ = 0"

lemma data_payload_list [simp]: "data_payload (BList offsets child) = bd_len child + data_payload (bd_data child)"
  by (cases child) simp

fun val_payload :: "val \<Rightarrow> nat" where
  "val_payload (VString s) = length s"
| "val_payload (VBytes s) = length s"
| "val_payload (VList items) = length items + sum_list (map val_payload items)"
| "val_payload _ = 0"

lemma push_null_ok:
  assumes "builder_wf b"
  obtains b' where "push_null b = Some b'" "bd_ty b' = bd_ty b" "builder_wf b'" "builder_rows b' = builder_rows b @ [Some VNull]"
    "data_payload (bd_data b') = data_payload (bd_data b)"
proof -
  obtain d r where d: "push_default (bd_data b) = Some d" "data_wf (bd_ty b) (finish_data d)" "child_wf d"
    "data_rows (bd_ty b) (finish_data d) = data_rows (bd_ty b) (finish_data (bd_data b)) @ [r]"
    using push_default_spec [OF assms] by blast
  have "data_payload d = data_payload (bd_data b)" using d(1) by (cases "bd_data b") auto
  then show thesis using push_null_spec [OF assms d] that by blast
qed

lemma those_map_Some: "those (map Some xs) = Some xs"
  by (induction xs) simp_all

lemma get_rows: "map (col_get c) [a..<b] = take (b - a) (drop a (col_rows c))" if "b \<le> col_len c"
  using that by (cases "a \<le> b") (simp_all add: col_rows_def take_map drop_map drop_upt)

lemma list_rows_snoc:
  assumes o: "offsets_wf offsets (col_len c)" and rows: "col_rows c' = col_rows c @ map Some items"
    and l: "col_len c + length items < 2 ^ 32"
  shows "offsets_wf (offsets @ [of_nat (col_len c')]) (col_len c')"
    "data_rows ty (CList (offsets @ [of_nat (col_len c')]) c') = data_rows ty (CList offsets c) @ [Some (VList items)]"
proof -
  have len: "col_len c' = col_len c + length items" using arg_cong [OF rows, of length] by (simp add: col_rows_def)
  have lc: "length (col_rows c) = col_len c" by (simp add: col_rows_def)
  note sn = offsets_snoc [OF o l]
  show "offsets_wf (offsets @ [of_nat (col_len c')]) (col_len c')" using push_rebased_spec(1) [OF sn(1) o sn(2)] len by simp
  have k: "unat (of_nat (length items) :: u32) = length items" using l by (simp add: unat_of_nat)
  have new: "those (map (col_get c') [col_len c..<col_len c']) = Some items"
    using rows lc by (simp add: get_rows len those_map_Some)
  have old: "map (col_get c') [a..<b] = map (col_get c) [a..<b]" if "b \<le> col_len c" for a b
    using that rows len lc by (simp add: get_rows)
  have "b \<le> col_len c" if "row_range offsets i = Some (a, b)" "i < length offsets - 1" for i a b
    by (rule row_range_wf [OF o that(2)]) (use that(1) in simp)
  then have "(case row_range offsets i of None \<Rightarrow> None | Some (a, b) \<Rightarrow> map_option VList (those (map (col_get c') [a..<b]))) =
      (case row_range offsets i of None \<Rightarrow> None | Some (a, b) \<Rightarrow> map_option VList (those (map (col_get c) [a..<b])))"
    if "i < length offsets - 1" for i using that old by (simp split: option.splits del: map_eq_conv)
  then show "data_rows ty (CList (offsets @ [of_nat (col_len c')]) c') = data_rows ty (CList offsets c) @ [Some (VList items)]"
    using row_range_push [OF sn(1) o sn(2)] new k
    by (simp add: list_rows len [symmetric] row_range_def [of "[0, of_nat (length items)]"] del: map_map)
qed

section \<open>Pushing\<close>

text \<open>What a push promises of a well-formed builder: the row is there, or \<open>TooLarge\<close>.\<close>

definition push_ok :: "builder \<Rightarrow> val list \<Rightarrow> builder push_result \<Rightarrow> bool" where
  "push_ok b vs res \<longleftrightarrow> (\<exists>r b'. res = Some (r, b') \<and> bd_ty b' = bd_ty b \<and>
     (r = Inr () \<longrightarrow> builder_wf b' \<and> builder_rows b' = builder_rows b @ map Some vs \<and>
        data_payload (bd_data b') = data_payload (bd_data b) + sum_list (map val_payload vs)) \<and>
     (r \<noteq> Inr () \<longrightarrow> r = Inl TooLarge \<and> 2 ^ 32 \<le> data_payload (bd_data b) + sum_list (map val_payload vs) \<and>
        ((\<forall>e. bd_ty b \<noteq> TList e) \<longrightarrow> length vs = 1 \<longrightarrow> b' = b)))"

lemma push_ok_pushed:
  assumes "builder_wf b" "data_wf (bd_ty b) (finish_data d)" "child_wf d"
    "data_rows (bd_ty b) (finish_data d) = data_rows (bd_ty b) (finish_data (bd_data b)) @ [Some v]"
    and "data_payload d = data_payload (bd_data b) + val_payload v"
  shows "push_ok b [v] (pushed b d)"
  using pushed_spec [OF assms(1-4)] assms(5) by (auto simp: push_ok_def)

lemma push_ok_bytes:
  assumes wf: "builder_wf b" and d: "finish_data (bd_data b) = con offsets data" "\<And>p d. finish_data (bcon p d) = con p d"
    "\<And>p d. child_wf (bcon p d)" and o: "offsets_wf offsets (length data)"
    and pay: "\<And>p d. data_payload (bcon p d) = length d" "bd_data b = bcon offsets data" "val_payload v = length s"
    and r: "\<And>p d. data_rows (bd_ty b) (con p d) = map f (byte_rows p d)" "f (Some s) = Some v"
    and w: "offsets_wf (offsets @ [of_nat (length data + length s)]) (length (data @ s)) \<Longrightarrow>
      byte_rows (offsets @ [of_nat (length data + length s)]) (data @ s) = byte_rows offsets data @ [Some s] \<Longrightarrow>
      data_wf (bd_ty b) (con (offsets @ [of_nat (length data + length s)]) (data @ s))"
  shows "push_ok b [v] (push_bytes bcon b offsets data s)"
proof (cases "length data + length s < 2 ^ 32")
  case True
  note sn = byte_rows_snoc [OF o True]
  have "push_bytes bcon b offsets data s = pushed b (bcon (offsets @ [of_nat (length data + length s)]) (data @ s))"
    using True by (simp add: push_bytes_def checked_offset_def)
  then show ?thesis using push_ok_pushed [OF wf, of "bcon (offsets @ [of_nat (length data + length s)]) (data @ s)" v] sn w [OF sn] r d pay
    by simp
qed (use pay in \<open>simp add: push_bytes_def checked_offset_def push_ok_def\<close>)

lemma builder_wf_data: "builder_wf b \<Longrightarrow> type_ok (bd_ty b) \<and> data_wf (bd_ty b) (finish_data (bd_data b)) \<and> child_wf (bd_data b) \<and>
    bd_len b = col_len (builder_finish b) \<and> col_wf (builder_finish b) \<and> col_ty (builder_finish b) = bd_ty b"
  by (cases b) (auto simp: child_wf_def col_len_def)

lemma push_decimal_ok:
  assumes "builder_wf b" "has_type (bd_ty b) (VDecimal d)"
  shows "push_ok b [VDecimal d] (push_coerced (VDecimal d) b)"
proof -
  note w = builder_wf_data [OF assms(1)]
  obtain dt where ty: "bd_ty b = TDecimal dt" "dec_scale d = dt_scale dt" "\<bar>sint (dec_unscaled d)\<bar> < 10 ^ unat (dt_precision dt)"
    using assms(2) by (auto split: data_type.splits)
  note bnd = dt_bounds [of dt]
  have "get_decimal (TDecimal dt) (dec_unscaled d) = Some (VDecimal d)"
    using bnd w ty by (simp add: get_decimal_def decimal_ok_iff)
  then show ?thesis using assms(1) w ty
    by (cases "bd_data b") (auto intro!: push_ok_pushed simp: child_wf_def scalar_rows)
qed

lemma push_list_ok:
  assumes wf: "builder_wf b" and d: "bd_data b = BList offsets child"
    and items: "push_ok child items (push_items items child)"
  shows "push_ok b [VList items] (push_coerced (VList items) b)"
proof (cases "bd_len child + length items < 2 ^ 32")
  case True
  note w = builder_wf_data [OF wf]
  have wc: "builder_wf child" using w d by (simp add: child_wf_def)
  have o: "offsets_wf offsets (col_len (builder_finish child))" and ty: "bd_ty b = TList (col_ty (builder_finish child))"
    using w d by auto
  obtain r child' where r: "push_items items child = Some (r, child')" "bd_ty child' = bd_ty child"
    "r = Inr () \<Longrightarrow> builder_wf child' \<and> builder_rows child' = builder_rows child @ map Some items \<and>
       data_payload (bd_data child') = data_payload (bd_data child) + sum_list (map val_payload items)"
    "r \<noteq> Inr () \<Longrightarrow> r = Inl TooLarge \<and> 2 ^ 32 \<le> data_payload (bd_data child) + sum_list (map val_payload items)"
    using items unfolding push_ok_def by blast
  show ?thesis
  proof (cases "r = Inr ()")
    case ok: True
    then have c': "builder_wf child'" "col_rows (builder_finish child') = col_rows (builder_finish child) @ map Some items"
      using r(3) by (simp_all add: builder_rows_def)
    have l: "col_len (builder_finish child) + length items < 2 ^ 32" using True builder_wf_data [OF wc] by simp
    have l': "bd_len child' = bd_len child + length items"
      using arg_cong [OF c'(2), of length] builder_wf_data [OF wc] builder_wf_data [OF c'(1)] by (simp add: col_rows_def)
    note sn = list_rows_snoc [OF o c'(2) l]
    have e: "push_coerced (VList items) b = pushed b (BList (offsets @ [of_nat (col_len (builder_finish child'))]) child')"
      using d True r(1) ok l' builder_wf_data [OF c'(1)] by (simp add: checked_offset_def)
    show ?thesis unfolding e
      using sn c'(1) builder_wf_data [OF wc] builder_wf_data [OF c'(1)] ty d r(2) r(3) [OF ok] l'
      by (intro push_ok_pushed [OF wf]) (simp_all add: child_wf_def)
  next
    case False
    then show ?thesis using d True r ty by (auto simp: checked_offset_def push_ok_def)
  qed
next
  case False
  then show ?thesis using d by (simp add: checked_offset_def push_ok_def)
qed

lemma push_ok_null: "builder_wf b \<Longrightarrow> push_ok b [VNull] (map_option (\<lambda>b. (Inr (), b)) (push_null b))"
  using push_null_ok [of b] by (auto simp: push_ok_def)

lemma push_coerced_ok:
  "builder_wf b \<Longrightarrow> has_type (bd_ty b) v \<Longrightarrow> push_ok b [v] (push_coerced v b)"
  and push_items_ok:
  "builder_wf b \<Longrightarrow> \<forall>v \<in> set vs. v = VNull \<or> has_type (bd_ty b) v \<Longrightarrow> push_ok b vs (push_items vs b)"
proof (induction v b and vs b rule: push_coerced_push_items.induct)
  case (6 d b)
  then show ?case by (rule push_decimal_ok)
next
  case (11 s b)
  note w = builder_wf_data [OF 11(1)]
  obtain offsets data where d: "bd_data b = BString offsets data" using 11 w by (cases "bd_data b") auto
  have "push_ok b [VString s] (push_bytes BString b offsets data s)"
    using 11 w d by (intro push_ok_bytes [OF _ _ _ _ _ _ _ _ varwidth_rows(1)]) (auto simp: child_wf_def string_wf_rows simp del: data_wf.simps)
  then show ?case using d by simp
next
  case (12 s b)
  note w = builder_wf_data [OF 12(1)]
  obtain offsets data where d: "bd_data b = BBytes offsets data" using 12 w by (cases "bd_data b") auto
  have "push_ok b [VBytes s] (push_bytes BBytes b offsets data s)"
    using 12 w d by (intro push_ok_bytes [OF _ _ _ _ _ _ _ _ varwidth_rows(2)]) (auto simp: child_wf_def)
  then show ?case using d by simp
next
  case (13 items b)
  note w = builder_wf_data [OF 13(2)]
  obtain e where e: "bd_ty b = TList e" "\<forall>item \<in> set items. item = VNull \<or> has_type e item"
    using 13(3) by (auto split: data_type.splits)
  obtain offsets child where d: "bd_data b = BList offsets child" using e w by (cases "bd_data b") auto
  have c: "builder_wf child" "bd_ty child = e" using w d e builder_wf_data [of child] by (auto simp: child_wf_def)
  show ?case
  proof (cases "bd_len child + length items < 2 ^ 32")
    case True
    have "push_ok child items (push_items items child)"
      using 13(1) [OF d, of "of_nat (bd_len child + length items)"] True c e(2) by (simp add: checked_offset_def)
    then show ?thesis by (rule push_list_ok [OF 13(2) d])
  qed (use d in \<open>simp add: checked_offset_def push_ok_def\<close>)
next
  case (15 item items b)
  let ?first = "if is_null item then map_option (\<lambda>b. (Inr (), b)) (push_null b) else push_coerced item b"
  have "push_ok b [item] ?first"
    using 15(1,3,4) push_ok_null [OF 15(3)] by (cases item) (auto simp: is_null_def)
  then obtain r b' where r: "?first = Some (r, b')" "bd_ty b' = bd_ty b" 
    "r \<noteq> Inr () \<Longrightarrow> r = Inl TooLarge \<and> 2 ^ 32 \<le> data_payload (bd_data b) + val_payload item \<and> ((\<forall>e. bd_ty b \<noteq> TList e) \<longrightarrow> b' = b)"
    "r = Inr () \<Longrightarrow> builder_wf b' \<and> builder_rows b' = builder_rows b @ [Some item] \<and>
       data_payload (bd_data b') = data_payload (bd_data b) + val_payload item"
    unfolding push_ok_def by fastforce
  show ?case
  proof (cases "r = Inr ()")
    case True
    then have "push_ok b' items (push_items items b')" using 15(2) [OF r(1)] r 15(4) by simp
    then show ?thesis using r True by (auto simp: push_ok_def)
  next
    case False
    then show ?thesis using r 15(3) by (auto simp: push_ok_def)
  qed
qed (auto intro!: push_ok_pushed simp: child_wf_def scalar_rows bool_rows bm_push_wf push_ok_def [of _ "[]"]
     dest: builder_wf_data split: builder_data.splits)

lemma builder_new_wf: "type_ok ty \<Longrightarrow> builder_wf (with_capacity ty) \<and> builder_rows (with_capacity ty) = [] \<and> bd_ty (with_capacity ty) = ty"
proof (induction ty)
  case (TList ty)
  then have c: "builder_wf (with_capacity ty)" "builder_rows (with_capacity ty) = []" "type_ok ty" by auto
  have "col_len (builder_finish (with_capacity ty)) = 0"
    using arg_cong [OF c(2), of length] by (simp add: builder_rows_def col_rows_def del: with_capacity.simps)
  then show ?case using TList c builder_wf_data [OF c(1)]
    by (simp add: builder_rows_def col_rows_def col_len_def [of "Column _ (CList _ _) _ _"] validity_ok_def offsets_wf_def)
qed (auto simp: builder_rows_def col_rows_def col_len_def validity_ok_def offsets_wf_def bm_new_valid_spec, auto simp: bm_new_valid_def)

section \<open>Properties of the builder\<close>

text \<open>
  C37. \<open>ColumnBuilder::push\<close> never panics on a well-formed builder and appends exactly the
  coerced value as a row. A value that the type cannot hold losslessly is \<open>DoesNotFit\<close> and
  changes nothing; the only other failure is \<open>TooLarge\<close>, reached only when the bytes and
  elements held pass what a 32-bit offset can address, and it changes nothing either unless
  the column is a LIST.
\<close>

theorem builder_push:
  assumes "builder_wf b" "value_ok v"
  shows "\<exists>r b'. push v b = Some (r, b') \<and> bd_ty b' = bd_ty b \<and>
    (case coerce v (bd_ty b) of
       None \<Rightarrow> r = Inl (DoesNotFit v (bd_ty b)) \<and> b' = b
     | Some w \<Rightarrow>
         if r = Inr () then builder_wf b' \<and> builder_rows b' = builder_rows b @ [Some w]
         else r = Inl TooLarge \<and> 2 ^ 32 \<le> data_payload (bd_data b) + val_payload w \<and>
           ((\<forall>e. bd_ty b \<noteq> TList e) \<longrightarrow> b' = b))"
proof (cases "coerce v (bd_ty b)")
  case None
  then have "\<not> is_null v" by (cases v) (auto simp: is_null_def)
  then show ?thesis using None by (simp add: push_def)
next
  case (Some w)
  have ty: "type_ok (bd_ty b)" using builder_wf_data [OF assms(1)] by simp
  have "push_ok b [w] (push v b)"
  proof (cases "is_null v")
    case True
    then show ?thesis using push_ok_null [OF assms(1)] Some by (cases v) (auto simp: is_null_def push_def)
  next
    case False
    moreover have "w \<noteq> VNull" using coerce_has_type(2) [OF Some assms(2) ty] False
      by (auto simp: is_null_def same_value_def same_scalar_def)
    ultimately show ?thesis using coerce_has_type(1) [OF Some assms(2) ty] push_coerced_ok [OF assms(1)] Some
      by (simp add: push_def)
  qed
  then show ?thesis using Some by (auto simp: push_ok_def)
qed

theorem builder_push_witness:
  "\<exists>r b'. push (VInt64 7) (with_capacity TUInt64) = Some (r, b') \<and> bd_ty b' = TUInt64 \<and>
     (if r = Inr () then builder_wf b' \<and> builder_rows b' = [Some (VUInt64 7)] else 2 ^ 32 \<le> (0 :: nat))"
  using builder_push [of "with_capacity TUInt64" "VInt64 7"] builder_new_wf [of TUInt64] by (fastforce split: if_splits)

end
