(* ===== verification/Sorting_By.thy ===== *)
theory Sorting_By
  imports Value_Order "HOL-Library.Multiset"
begin

text \<open>
  The sorting of the standard library by a comparator (\<open>slice::sort_by\<close>, stable),
  \<open>Vec::dedup_by\<close> and \<open>slice::binary_search_by\<close>, with what they give for a comparator that is
  a total order on the elements at hand (locale \<open>cmp_on\<close> of \<open>Value_Order\<close>).
\<close>

section \<open>Definitions\<close>

fun insert_by :: "('a \<Rightarrow> 'a \<Rightarrow> bool) \<Rightarrow> 'a \<Rightarrow> 'a list \<Rightarrow> 'a list" where
  "insert_by le x [] = [x]"
| "insert_by le x (y # ys) = (if le x y then x # y # ys else y # insert_by le x ys)"

text \<open>The stable sort: an element goes in front of the later ones it is not above.\<close>

definition sort_by :: "('a \<Rightarrow> 'a \<Rightarrow> bool) \<Rightarrow> 'a list \<Rightarrow> 'a list" where
  "sort_by le xs = foldr (insert_by le) xs []"

text \<open>\<open>dedup_by\<close> keeps the first of every run of elements the test calls the same.\<close>

fun dedup_by :: "('a \<Rightarrow> 'a \<Rightarrow> bool) \<Rightarrow> 'a list \<Rightarrow> 'a list" where
  "dedup_by same [] = []"
| "dedup_by same [x] = [x]"
| "dedup_by same (x # y # ys) = (if same y x then dedup_by same (x # ys) else x # dedup_by same (y # ys))"

text \<open>The search for an element the probe calls \<open>Equal\<close> in the window \<open>[lo, hi)\<close>.\<close>

function bsearch :: "('a \<Rightarrow> ordering) \<Rightarrow> 'a list \<Rightarrow> nat \<Rightarrow> nat \<Rightarrow> bool" where
  "bsearch probe xs lo hi =
     (if lo < hi
      then let mid = lo + (hi - lo) div 2
           in case probe (xs ! mid) of
                Equal \<Rightarrow> True
              | Less \<Rightarrow> bsearch probe xs (mid + 1) hi
              | Greater \<Rightarrow> bsearch probe xs lo mid
      else False)"
  by pat_completeness auto
termination by (relation "measure (\<lambda>(_, _, lo, hi). hi - lo)") auto

declare bsearch.simps [simp del]

definition binary_search_by :: "('a \<Rightarrow> ordering) \<Rightarrow> 'a list \<Rightarrow> bool" where
  "binary_search_by probe xs = bsearch probe xs 0 (length xs)"

section \<open>Permutation\<close>

lemma mset_insert_by [simp]: "mset (insert_by le x xs) = add_mset x (mset xs)"
  by (induction xs) simp_all

lemma mset_sort_by [simp]: "mset (sort_by le xs) = mset xs"
  by (induction xs) (simp_all add: sort_by_def)

lemma set_sort_by [simp]: "set (sort_by le xs) = set xs"
  by (metis mset_sort_by set_mset_mset)

lemma set_insert_by [simp]: "set (insert_by le x xs) = insert x (set xs)"
  by (induction xs) auto

section \<open>Order\<close>

text \<open>\<open>not_above c a b\<close>: the comparator does not call \<open>a\<close> greater.\<close>

abbreviation not_above :: "('a \<Rightarrow> 'a \<Rightarrow> ordering option) \<Rightarrow> 'a \<Rightarrow> 'a \<Rightarrow> bool" where
  "not_above c a b \<equiv> c a b \<noteq> Some Greater"

context cmp_on
begin

lemma below_trans: "S a \<Longrightarrow> S b \<Longrightarrow> S d \<Longrightarrow> not_above c a b \<Longrightarrow> not_above c b d \<Longrightarrow> not_above c a d"
  using less_or [of a b] less_or [of b d] less_trans [of a b d] equal_left [of a b d] equal_right [of b d a] by auto

lemma sorted_insert_by:
  assumes "sorted_wrt (not_above c) xs" "\<forall>y \<in> set xs. S y" "S x"
  shows "sorted_wrt (not_above c) (insert_by (not_above c) x xs)"
  using assms
proof (induction xs)
  case (Cons y ys)
  show ?case
  proof (cases "not_above c x y")
    case True
    then show ?thesis using Cons.prems below_trans [of x y] by auto
  next
    case False
    then have "c y x = Some Less" using greater_iff [of x y] Cons.prems by auto
    then show ?thesis using Cons False by auto
  qed
qed simp

lemma sorted_sort_by: "\<forall>x \<in> set xs. S x \<Longrightarrow> sorted_wrt (not_above c) (sort_by (not_above c) xs)"
proof (induction xs)
  case (Cons x xs)
  have "sort_by (not_above c) (x # xs) = insert_by (not_above c) x (sort_by (not_above c) xs)" by (simp add: sort_by_def)
  then show ?case using sorted_insert_by [of "sort_by (not_above c) xs" x] Cons by simp
qed (simp add: sort_by_def)

lemma dedup_strict:
  assumes "sorted_wrt (not_above c) xs" "\<forall>x \<in> set xs. S x"
  shows "sorted_wrt (\<lambda>a b. c a b = Some Less) (dedup_by (\<lambda>a b. c a b = Some Equal) xs)
    \<and> set (dedup_by (\<lambda>a b. c a b = Some Equal) xs) \<subseteq> set xs
    \<and> (\<forall>x \<in> set xs. \<exists>y \<in> set (dedup_by (\<lambda>a b. c a b = Some Equal) xs). c x y = Some Equal)
    \<and> (xs \<noteq> [] \<longrightarrow> (\<exists>ys. dedup_by (\<lambda>a b. c a b = Some Equal) xs = hd xs # ys))"
  using assms
proof (induction "\<lambda>a b. c a b = Some Equal" xs rule: dedup_by.induct)
  case (2 x)
  then show ?case using less_or [of x x] greater_iff [of x x] by auto
next
  case (3 x y ys)
  show ?case
  proof (cases "c y x = Some Equal")
    case True
    have "sorted_wrt (not_above c) (x # ys)" using 3 by auto
    with 3(1) [OF True] 3(4) True equal_iff [of x y]
    show ?thesis by auto
  next
    case False
    then have lt: "c x y = Some Less" using 3 less_or [of x y] equal_iff [of x y] by auto
    let ?d = "dedup_by (\<lambda>a b. c a b = Some Equal) (y # ys)"
    have ih: "sorted_wrt (\<lambda>a b. c a b = Some Less) ?d" "set ?d \<subseteq> set (y # ys)"
      "\<forall>x \<in> set (y # ys). \<exists>y \<in> set ?d. c x y = Some Equal" "\<exists>zs. ?d = y # zs"
      using 3(2) [OF False] 3(3,4) by auto
    have "c x z = Some Less" if "z \<in> set ?d" for z
    proof -
      have "z = y \<or> c y z = Some Less" using ih(1,4) that by auto
      then show ?thesis using lt less_trans [of x y z] ih(2) that 3(4) by auto
    qed
    then show ?thesis using ih False 3(4) less_or [of x x] greater_iff [of x x] by auto
  qed
qed simp

lemma bsearch_iff:
  assumes "sorted_wrt (\<lambda>a b. c a b = Some Less) xs" "\<forall>x \<in> set xs. S x" "S v" "hi \<le> length xs"
    "\<And>x. x \<in> set xs \<Longrightarrow> c x v = Some (probe x)"
  shows "bsearch probe xs lo hi \<longleftrightarrow> (\<exists>i. lo \<le> i \<and> i < hi \<and> probe (xs ! i) = Equal)"
  using assms(4)
proof (induction "hi - lo" arbitrary: lo hi rule: less_induct)
  case less
  let ?mid = "lo + (hi - lo) div 2"
  show ?case
  proof (cases "lo < hi")
    case True
    then have mid: "lo \<le> ?mid" "?mid < hi" by auto
    have S: "S (xs ! i)" "c (xs ! i) v = Some (probe (xs ! i))" if "i < length xs" for i using assms(2,5) that by auto
    have lt: "c (xs ! i) (xs ! j) = Some Less" if "i < j" "j < length xs" for i j
      using assms(1) that by (simp add: sorted_wrt_iff_nth_less)
    have m: "?mid < length xs" using mid less.prems by simp
    show ?thesis
    proof (cases "probe (xs ! ?mid)")
      case Equal
      then have "\<exists>i. lo \<le> i \<and> i < hi \<and> probe (xs ! i) = Equal" using mid by blast
      then show ?thesis using True Equal by (subst bsearch.simps) (simp add: Let_def)
    next
      case Less
      have less_all: "probe (xs ! i) = Less" if "i \<le> ?mid" for i
        using that lt [of i ?mid] S [of i] S [of ?mid] m less_trans [of "xs ! i" "xs ! ?mid" v] Less assms(3)
        by (cases "i = ?mid") auto
      have "(\<exists>i. lo \<le> i \<and> i < hi \<and> probe (xs ! i) = Equal) \<longleftrightarrow> (\<exists>i. ?mid + 1 \<le> i \<and> i < hi \<and> probe (xs ! i) = Equal)"
      proof (intro iffI; elim exE conjE)
        fix i
        assume i: "lo \<le> i" "i < hi" "probe (xs ! i) = Equal"
        then have "\<not> i \<le> ?mid" using less_all [of i] by auto
        then show "\<exists>i. ?mid + 1 \<le> i \<and> i < hi \<and> probe (xs ! i) = Equal" using i by (intro exI [of _ i]) simp
      next
        fix i
        assume "?mid + 1 \<le> i" "i < hi" "probe (xs ! i) = Equal"
        then show "\<exists>i. lo \<le> i \<and> i < hi \<and> probe (xs ! i) = Equal" using mid by (intro exI [of _ i]) simp
      qed
      then show ?thesis using True Less less.hyps [of hi "?mid + 1"] less.prems mid
        by (subst bsearch.simps) (simp add: Let_def)
    next
      case Greater
      have gr_all: "probe (xs ! i) = Greater" if "?mid \<le> i" "i < hi" for i
      proof (cases "i = ?mid")
        case False
        have i: "i < length xs" using that less.prems by simp
        have "c v (xs ! ?mid) = Some Less" using Greater S [of ?mid] m greater_iff [of "xs ! ?mid" v] assms(3) by simp
        then have "c v (xs ! i) = Some Less" using less_trans [of v "xs ! ?mid" "xs ! i"] lt [of ?mid i] S i m assms(3) that False by simp
        then show ?thesis using S [OF i] greater_iff [of "xs ! i" v] assms(3) by simp
      qed (simp add: Greater)
      have "(\<exists>i. lo \<le> i \<and> i < hi \<and> probe (xs ! i) = Equal) \<longleftrightarrow> (\<exists>i. lo \<le> i \<and> i < ?mid \<and> probe (xs ! i) = Equal)"
      proof (intro iffI; elim exE conjE)
        fix i
        assume i: "lo \<le> i" "i < hi" "probe (xs ! i) = Equal"
        then have "\<not> ?mid \<le> i" using gr_all [of i] by auto
        then show "\<exists>i. lo \<le> i \<and> i < ?mid \<and> probe (xs ! i) = Equal" using i by (intro exI [of _ i]) simp
      next
        fix i
        assume "lo \<le> i" "i < ?mid" "probe (xs ! i) = Equal"
        then show "\<exists>i. lo \<le> i \<and> i < hi \<and> probe (xs ! i) = Equal" using mid by (intro exI [of _ i]) simp
      qed
      then show ?thesis using True Greater less.hyps [of ?mid lo] less.prems mid
        by (subst bsearch.simps) (simp add: Let_def)
    qed
  qed (subst bsearch.simps, simp)
qed

lemma binary_search_iff:
  assumes "sorted_wrt (\<lambda>a b. c a b = Some Less) xs" "\<forall>x \<in> set xs. S x" "S v"
    "\<And>x. x \<in> set xs \<Longrightarrow> c x v = Some (probe x)"
  shows "binary_search_by probe xs \<longleftrightarrow> (\<exists>x \<in> set xs. c x v = Some Equal)"
proof -
  have "(\<exists>i<length xs. probe (xs ! i) = Equal) \<longleftrightarrow> (\<exists>x \<in> set xs. probe x = Equal)" by (metis in_set_conv_nth)
  then show ?thesis
    unfolding binary_search_by_def
    using bsearch_iff [OF assms(1-3) _ assms(4), of "length xs" 0] assms(4) by auto
qed

end

end
