(* ===== verification/Stats.thy ===== *)
theory Stats
  imports Column_Concat Sorting_By
begin

text \<open>
  Column statistics (\<open>Column::stats\<close>, \<open>src/exec/column.rs\<close>): the row and null counts and
  the least and greatest value, the numbers that segment footers, the manifest and pruning
  rest on. The scan of a column with a validity bitmap goes word by word and skips a word
  with no valid row.
\<close>

section \<open>Model\<close>

record column_stats =
  st_rows :: nat
  st_null_count :: nat
  st_min :: "val option"
  st_max :: "val option"

fun get_non_null :: "column \<Rightarrow> nat \<Rightarrow> val option" where
  "get_non_null (Column ty data validity nulls) i =
     (case data of
        CString _ _ \<Rightarrow> col_get (Column ty data validity nulls) i
      | CBytes _ _ \<Rightarrow> col_get (Column ty data validity nulls) i
      | CList _ _ \<Rightarrow> None
      | _ \<Rightarrow> data_get ty data i)"

fun consider_min :: "val \<Rightarrow> val option \<Rightarrow> val option" where
  "consider_min v m = (if m = None \<or> total_cmp v (the m) = Some Less then Some v else m)"

fun consider_max :: "val \<Rightarrow> val option \<Rightarrow> val option" where
  "consider_max v m = (if m = None \<or> total_cmp v (the m) = Some Greater then Some v else m)"

text \<open>The rows that one word of the bitmap marks valid, in the order the scan visits them.\<close>

definition word_rows :: "nat \<Rightarrow> nat \<Rightarrow> u64 \<Rightarrow> nat list" where
  "word_rows len word_idx word =
     (if word = 0 then []
      else filter (\<lambda>i. drop_bit (i - word_idx * 64) word AND 1 = 1)
             (takeWhile (\<lambda>i. i < len) (map (\<lambda>b. word_idx * 64 + b) [0..<64])))"

definition scan_rows :: "column \<Rightarrow> nat list" where
  "scan_rows col =
     (case col_validity col of
        None \<Rightarrow> [0..<col_len col]
      | Some bm \<Rightarrow> concat (map (\<lambda>(k, w). word_rows (col_len col) k w) (enumerate 0 (bm_words bm))))"

fun scan_loop :: "column \<Rightarrow> nat list \<Rightarrow> val option \<times> val option \<Rightarrow> (val option \<times> val option) option" where
  "scan_loop col [] mm = Some mm"
| "scan_loop col (i # is) (mn, mx) =
     (case get_non_null col i of
        None \<Rightarrow> None
      | Some v \<Rightarrow> scan_loop col is (consider_min v mn, consider_max v mx))"

definition scan_min_max :: "column \<Rightarrow> (val option \<times> val option) option" where
  "scan_min_max col = scan_loop col (scan_rows col) (None, None)"

definition col_stats :: "column \<Rightarrow> column_stats option" where
  "col_stats col =
     map_option (\<lambda>(mn, mx). \<lparr>st_rows = col_len col, st_null_count = col_null_count col, st_min = mn, st_max = mx\<rparr>)
       (case col_ty col of TList _ \<Rightarrow> Some (None, None) | _ \<Rightarrow> scan_min_max col)"

section \<open>The rows the scan visits\<close>

lemma takeWhile_less_upt: "takeWhile (\<lambda>i. i < n) [a..<m] = [a..<min n m]"
proof (induction m)
  case (Suc m)
  show ?case
  proof (cases "a \<le> m \<and> m < n")
    case True
    then have "\<forall>i \<in> set [a..<Suc m]. i < n" by auto
    then show ?thesis using True by (metis Suc_leI min_absorb2 takeWhile_eq_all_conv)
  next
    case False
    then show ?thesis using Suc takeWhile_tail [of "\<lambda>i. i < n" m "[a..<m]" "[]"] by (auto simp: min_def)
  qed
qed simp

lemma block_upt: "map (\<lambda>b. a + b) [0..<k] = [a..<a + k]"
  using map_add_upt [of a k] by (simp add: add.commute)

lemma word_rows_filter:
  assumes "k < length ws"
  shows "word_rows len k (ws ! k) = filter (words_bit ws) [k * 64..<min len (k * 64 + 64)]"
proof -
  have "drop_bit (i - k * 64) (ws ! k) AND 1 = 1 \<longleftrightarrow> words_bit ws i" if "k * 64 \<le> i" "i < k * 64 + 64" for i
  proof -
    have "i div 64 = k" using that by (simp add: div_nat_eqI)
    moreover from this have "i mod 64 = i - k * 64" by (metis minus_div_mult_eq_mod)
    ultimately show ?thesis using assms by (simp add: words_bit_def and_one_eq bit_iff_odd_drop_bit odd_iff_mod_2_eq_one)
  qed
  then have f: "filter (\<lambda>i. drop_bit (i - k * 64) (ws ! k) AND 1 = 1) [k * 64..<min len (k * 64 + 64)] =
      filter (words_bit ws) [k * 64..<min len (k * 64 + 64)]" by (intro filter_cong) auto
  show ?thesis
  proof (cases "ws ! k = 0")
    case True
    then have "filter (words_bit ws) [k * 64..<min len (k * 64 + 64)] = []" using f by simp
    then show ?thesis using True by (simp add: word_rows_def)
  next
    case False
    then show ?thesis using f by (simp add: word_rows_def block_upt takeWhile_less_upt)
  qed
qed

lemma blocks_concat:
  "n \<le> 64 * m \<Longrightarrow> concat (map (\<lambda>k. filter P [k * 64..<min n (k * 64 + 64)]) [0..<m]) = filter P [0..<n]"
proof (induction m arbitrary: n)
  case (Suc m)
  show ?case
  proof (cases "n \<le> 64 * m")
    case True
    then show ?thesis using Suc.IH [OF True] by (simp add: min_def)
  next
    case False
    have "concat (map (\<lambda>k. filter P [k * 64..<min n (k * 64 + 64)]) [0..<m]) =
        concat (map (\<lambda>k. filter P [k * 64..<min (64 * m) (k * 64 + 64)]) [0..<m])"
    proof (intro arg_cong [of _ _ concat] map_cong refl)
      fix k
      assume "k \<in> set [0..<m]"
      then have "min n (k * 64 + 64) = min (64 * m) (k * 64 + 64)" using False by auto
      then show "filter P [k * 64..<min n (k * 64 + 64)] = filter P [k * 64..<min (64 * m) (k * 64 + 64)]" by simp
    qed
    also have "\<dots> = filter P [0..<64 * m]" using Suc.IH [of "64 * m"] by simp
    finally have "concat (map (\<lambda>k. filter P [k * 64..<min n (k * 64 + 64)]) [0..<Suc m]) =
        filter P ([0..<64 * m] @ [64 * m..<n])"
      using Suc.prems False by (simp add: min_def mult.commute)
    also have "[0..<64 * m] @ [64 * m..<n] = [0..<n]" using False upt_add_eq_append [of 0 "64 * m" "n - 64 * m"] by simp
    finally show ?thesis .
  qed
qed simp

lemma enumerate_rows: "map (\<lambda>(k, w). f k w) (enumerate 0 ws) = map (\<lambda>k. f k (ws ! k)) [0..<length ws]"
  by (rule nth_equalityI) (simp_all add: nth_enumerate_eq)

lemma scan_rows_spec:
  assumes "col_wf col"
  shows "scan_rows col = filter (\<lambda>i. col_is_null col i = Some False) [0..<col_len col]"
proof (cases "col_validity col")
  case None
  then show ?thesis by (simp add: scan_rows_def col_is_null_def cong: filter_cong)
next
  case (Some bm)
  then have bm: "bm_wf bm" "bm_len bm = col_len col" using assms by (cases col, auto simp: validity_ok_def col_len_def)+
  have "scan_rows col = concat (map (\<lambda>k. word_rows (col_len col) k (bm_words bm ! k)) [0..<length (bm_words bm)])"
    using Some by (simp add: scan_rows_def enumerate_rows)
  also have "\<dots> = concat (map (\<lambda>k. filter (words_bit (bm_words bm)) [k * 64..<min (col_len col) (k * 64 + 64)]) [0..<length (bm_words bm)])"
    by (intro arg_cong [of _ _ concat] map_cong) (simp_all add: word_rows_filter)
  also have "\<dots> = filter (words_bit (bm_words bm)) [0..<col_len col]"
    using bm by (intro blocks_concat) (simp add: bm_wf_def word_count_def)
  also have "\<dots> = filter (\<lambda>i. col_is_null col i = Some False) [0..<col_len col]"
    using bm Some by (intro filter_cong) (auto simp: col_is_null_def bm_get_wf bm_bits_def)
  finally show ?thesis .
qed

section \<open>Least and greatest\<close>

text \<open>
  What a scanned set of values and a bound have to do with each other: the bound is one of
  the values and none is beyond it, and there is no bound exactly when there is no value.
\<close>

definition least_of :: "val set \<Rightarrow> val option \<Rightarrow> bool" where
  "least_of vs m \<longleftrightarrow> (m = None \<longleftrightarrow> vs = {}) \<and> (\<forall>x. m = Some x \<longrightarrow> x \<in> vs \<and> (\<forall>v \<in> vs. total_cmp v x \<noteq> Some Less))"

definition greatest_of :: "val set \<Rightarrow> val option \<Rightarrow> bool" where
  "greatest_of vs m \<longleftrightarrow> (m = None \<longleftrightarrow> vs = {}) \<and> (\<forall>x. m = Some x \<longrightarrow> x \<in> vs \<and> (\<forall>v \<in> vs. total_cmp v x \<noteq> Some Greater))"

context cmp_on
begin

lemma new_least:
  assumes "S v" "S x" "S w" "c v x = Some Less" "c w x \<noteq> Some Less"
  shows "c w v \<noteq> Some Less"
  using less_trans [OF assms(3,1,2) _ assms(4)] assms(5) by blast

lemma new_greatest:
  assumes "S v" "S x" "S w" "c v x = Some Greater" "c w x \<noteq> Some Greater"
  shows "c w v \<noteq> Some Greater"
proof
  assume "c w v = Some Greater"
  then have "c x w = Some Less"
    by (intro less_trans [OF assms(2,1,3)] greater_iff [OF assms(1,2), THEN iffD1, OF assms(4)] greater_iff [OF assms(3,1), THEN iffD1])
  from greater_iff [OF assms(3,2), THEN iffD2, OF this] show False using assms(5) by contradiction
qed

lemma not_less_self: "S a \<Longrightarrow> c a a \<noteq> Some Less \<and> c a a \<noteq> Some Greater"
  by (simp add: refl)

end

lemma consider_spec:
  assumes "of_kind ty v" "\<forall>w \<in> vs. of_kind ty w"
  shows "least_of vs m \<Longrightarrow> least_of (insert v vs) (consider_min v m)"
    "greatest_of vs m \<Longrightarrow> greatest_of (insert v vs) (consider_max v m)"
proof -
  have self: "total_cmp v v \<noteq> Some Less" "total_cmp v v \<noteq> Some Greater"
    using value_order.not_less_self [OF assms(1)] by blast+
  show "least_of (insert v vs) (consider_min v m)" if l: "least_of vs m"
  proof (cases m)
    case (Some x)
    have "total_cmp w v \<noteq> Some Less" if "w \<in> vs" "total_cmp v x = Some Less" for w
      using value_order.new_least [OF assms(1) _ _ that(2)] l that(1) assms(2) Some by (simp add: least_of_def)
    then show ?thesis using l self Some by (auto simp: least_of_def)
  qed (use l self in \<open>simp add: least_of_def\<close>)
  show "greatest_of (insert v vs) (consider_max v m)" if l: "greatest_of vs m"
  proof (cases m)
    case (Some x)
    have "total_cmp w v \<noteq> Some Greater" if "w \<in> vs" "total_cmp v x = Some Greater" for w
      using value_order.new_greatest [OF assms(1) _ _ that(2)] l that(1) assms(2) Some by (simp add: greatest_of_def)
    then show ?thesis using l self Some by (auto simp: greatest_of_def)
  qed (use l self in \<open>simp add: greatest_of_def\<close>)
qed

lemma scan_loop_spec:
  assumes "\<forall>i \<in> set is. \<exists>v. get_non_null col i = Some v \<and> of_kind ty v" "\<forall>w \<in> vs. of_kind ty w"
    "least_of vs mn" "greatest_of vs mx"
  shows "\<exists>mn' mx'. scan_loop col is (mn, mx) = Some (mn', mx') \<and>
    least_of (vs \<union> {v. \<exists>i \<in> set is. get_non_null col i = Some v}) mn' \<and>
    greatest_of (vs \<union> {v. \<exists>i \<in> set is. get_non_null col i = Some v}) mx'"
  using assms
proof (induction "is" arbitrary: vs mn mx)
  case (Cons i "is")
  then obtain v where v: "get_non_null col i = Some v" "of_kind ty v" by auto
  have eq: "vs \<union> {v. \<exists>i \<in> set (i # is). get_non_null col i = Some v} =
      insert v vs \<union> {v. \<exists>i \<in> set is. get_non_null col i = Some v}" using v by auto
  show ?case unfolding eq
    using Cons.IH [of "insert v vs" "consider_min v mn" "consider_max v mx"] Cons.prems v
      consider_spec [OF v(2) Cons.prems(2)] by simp
qed simp

text \<open>The values of the rows that are not null.\<close>

definition col_values :: "column \<Rightarrow> val set" where
  "col_values col = {v. v \<noteq> VNull \<and> (\<exists>i < col_len col. col_get col i = Some v)}"

lemma get_non_null_get:
  assumes "col_wf col" "i < col_len col" "col_is_null col i = Some False" "\<forall>e. col_ty col \<noteq> TList e"
  shows "get_non_null col i = col_get col i"
proof (cases col)
  case (Column ty data validity nulls)
  then show ?thesis using assms by (cases data) auto
qed

lemma is_null_total:
  assumes "col_wf col" "i < col_len col"
  shows "col_is_null col i = Some (col_get col i = Some VNull)"
proof -
  obtain v where v: "col_get col i = Some v" "v = VNull \<or> has_type (col_ty col) v" using col_get_typed [OF assms] by blast
  obtain b where b: "col_is_null col i = Some b" using v by (cases col) (auto split: option.splits)
  have "\<not> b \<Longrightarrow> v \<noteq> VNull"
    using v b assms data_get_typed [of "col_ty col" "col_data col" i] by (cases col) (auto simp: col_len_def)
  then show ?thesis using v b by (cases col) (auto split: if_splits)
qed

lemma null_count_spec:
  assumes "col_wf col"
  shows "col_null_count col = length (filter (\<lambda>i. col_get col i = Some VNull) [0..<col_len col])"
proof -
  have "filter (\<lambda>i. col_get col i = Some VNull) [0..<col_len col] = filter (\<lambda>i. col_is_null col i = Some True) [0..<col_len col]"
    using is_null_total [OF assms] by (intro filter_cong) auto
  also have "length \<dots> = col_null_count col"
  proof (cases "col_validity col")
    case None
    then show ?thesis using assms by (cases col) (simp add: col_is_null_def cong: filter_cong)
  next
    case (Some bm)
    then have bm: "bm_wf bm" "bm_len bm = col_len col" "col_null_count col = col_len col - bm_count_valid bm"
      using assms by (cases col, auto simp: validity_ok_def col_len_def)+
    have "filter (\<lambda>i. col_is_null col i = Some True) [0..<col_len col] = filter (\<lambda>i. \<not> bm_bits bm ! i) [0..<col_len col]"
      using bm Some by (intro filter_cong) (auto simp: col_is_null_def bm_get_wf)
    moreover have "length (filter (\<lambda>i. \<not> bm_bits bm ! i) [0..<col_len col]) = length (filter Not (bm_bits bm))"
      using bm(2) map_nth [of "bm_bits bm"] by (metis (no_types, lifting) comp_def filter_cong filter_map length_bm_bits length_map)
    moreover have "length (filter id (bm_bits bm)) + length (filter Not (bm_bits bm)) = col_len col"
      using sum_length_filter_compl [of id "bm_bits bm"] bm(2) by simp
    ultimately show ?thesis using bm by (simp add: bm_count_valid_spec)
  qed
  finally show ?thesis ..
qed

lemma col_stats_spec:
  assumes "col_wf col"
  shows "\<exists>st. col_stats col = Some st \<and> st_rows st = col_len col \<and>
    st_null_count st = length (filter (\<lambda>i. col_get col i = Some VNull) [0..<col_len col]) \<and>
    (if (\<exists>e. col_ty col = TList e) then st_min st = None \<and> st_max st = None
     else least_of (col_values col) (st_min st) \<and> greatest_of (col_values col) (st_max st))"
proof (cases "\<exists>e. col_ty col = TList e")
  case True
  then show ?thesis using null_count_spec [OF assms] by (auto simp: col_stats_def)
next
  case False
  have kind: "\<exists>v. get_non_null col i = Some v \<and> of_kind (col_ty col) v" if "i \<in> set (scan_rows col)" for i
  proof -
    have i: "i < col_len col" "col_is_null col i = Some False" using that by (auto simp: scan_rows_spec [OF assms])
    then show ?thesis using get_non_null_get [OF assms i] False is_null_total [OF assms i(1)] col_get_typed [OF assms i(1)]
      has_type_of_kind [of "col_ty col"] assms by (cases col) auto
  qed
  have "{v. \<exists>i \<in> set (scan_rows col). get_non_null col i = Some v} = col_values col"
    using False is_null_total [OF assms] get_non_null_get [OF assms]
    by (auto simp: scan_rows_spec [OF assms] col_values_def)
  then show ?thesis
    using scan_loop_spec [of "scan_rows col" col "col_ty col" "{}" None None] kind False null_count_spec [OF assms]
    by (auto simp: col_stats_def scan_min_max_def least_of_def greatest_of_def split: data_type.splits)
qed

section \<open>Properties of the statistics\<close>

text \<open>
  C36. \<open>Column::stats\<close> never panics on a well-formed column and is exact: the counts are those
  of the rows and of the null rows, and for a column that is not a LIST the minimum and
  maximum are values of the column with no value below or above them, absent exactly when
  every row is null. Skipping the empty words of the bitmap skips no row.
\<close>

theorem stats_exact:
  assumes "col_wf col"
  shows "\<exists>st. col_stats col = Some st \<and> st_rows st = col_len col \<and>
    st_null_count st = length (filter (\<lambda>i. col_get col i = Some VNull) [0..<col_len col]) \<and>
    (if (\<exists>e. col_ty col = TList e) then st_min st = None \<and> st_max st = None
     else least_of (col_values col) (st_min st) \<and> greatest_of (col_values col) (st_max st))"
  using col_stats_spec [OF assms] .

theorem stats_exact_witness:
  "\<exists>st. col_stats (Column TInt64 (CInt64 [7, 8]) None 0) = Some st \<and> st_rows st = 2 \<and>
    least_of (col_values (Column TInt64 (CInt64 [7, 8]) None 0)) (st_min st)"
  using stats_exact [of "Column TInt64 (CInt64 [7, 8]) None 0"] by (auto simp: col_len_def validity_ok_def)

end
