(* ===== verification/Kernels.thy ===== *)
theory Kernels
  imports Builder Stats
begin

text \<open>
  The boolean and comparison kernels (\<open>src/exec/kernels/boolean.rs\<close>, \<open>compare.rs\<close>), which
  every predicate is evaluated with: Kleene logic over BOOL columns and the six comparison
  operators. \<open>None\<close> is a panic, \<open>Some (Inl e)\<close> the error \<open>e\<close>; the text of \<open>Plan\<close> is
  shortened to its fixed part.
\<close>

section \<open>Errors\<close>

datatype exec_error =
    BudgetExceeded nat nat nat
  | Cancelled
  | Timeout
  | Plan string
  | CastError val data_type
  | Overflow string
  | Invalid string
  | SourceError

text \<open>\<open>From<ColumnError>\<close>: a column error inside a plan is a malformed plan.\<close>

fun plan_of_column_error :: "column_error \<Rightarrow> exec_error" where
  "plan_of_column_error (DoesNotFit v ty) = Plan ''value does not losslessly fit''"
| "plan_of_column_error TooLarge = Plan ''column exceeds u32::MAX bytes or elements''"
| "plan_of_column_error (LengthMismatch a b) = Plan ''column length mismatch''"
| "plan_of_column_error (NotString ty) = Plan ''expected STRING''"
| "plan_of_column_error (ColMalformed m) = Plan m"

type_synonym 'a exec = "(exec_error + 'a) option"

definition eret :: "'a \<Rightarrow> ('e + 'a) option" where
  "eret x = Some (Inr x)"

definition efail :: "'e \<Rightarrow> ('e + 'a) option" where
  "efail e = Some (Inl e)"

definition ebind :: "('e + 'a) option \<Rightarrow> ('a \<Rightarrow> ('e + 'b) option) \<Rightarrow> ('e + 'b) option" where
  "ebind m f = (case m of None \<Rightarrow> None | Some (Inl e) \<Rightarrow> Some (Inl e) | Some (Inr x) \<Rightarrow> f x)"

lemma ebind_simps [simp]:
  "ebind (eret x) f = f x" "ebind (efail e) f = efail e" "ebind None f = None" "ebind (Some (Inr x)) f = f x"
  "ebind (Some (Inl e)) f = Some (Inl e)"
  by (simp_all add: ebind_def eret_def efail_def)

lemma ebind_eq [simp]: "ebind m f = Some (Inr y) \<longleftrightarrow> (\<exists>x. m = Some (Inr x) \<and> f x = Some (Inr y))"
  by (auto simp: ebind_def split: option.splits sum.splits)

lemma eret_eq [simp]: "eret x = Some (Inr y) \<longleftrightarrow> x = y" "efail e \<noteq> Some (Inr y)"
  by (auto simp: eret_def efail_def)

text \<open>A value that panics when it is absent, as an expected one.\<close>

definition expect :: "'a option \<Rightarrow> ('e + 'a) option" where
  "expect r = map_option Inr r"

lemma expect_eq [simp]: "expect r = Some (Inr y) \<longleftrightarrow> r = Some y" "expect (Some x) = eret x" "expect None = None"
  by (auto simp: expect_def eret_def)

section \<open>Building a BOOL column\<close>

record bool_builder =
  bb_bits :: bitmap
  bb_validity :: "bitmap option"
  bb_len :: nat

definition bb_new :: bool_builder where
  "bb_new = \<lparr>bb_bits = bm_new_valid 0, bb_validity = None, bb_len = 0\<rparr>"

definition bb_push :: "bool option \<Rightarrow> bool_builder \<Rightarrow> bool_builder" where
  "bb_push outcome b =
     \<lparr>bb_bits = bm_push (bb_bits b) (case outcome of None \<Rightarrow> False | Some x \<Rightarrow> x),
      bb_validity =
        (case bb_validity b of
           Some v \<Rightarrow> Some (bm_push v (outcome \<noteq> None))
         | None \<Rightarrow> if outcome = None then Some (bm_push (bm_new_valid (bb_len b)) False) else None),
      bb_len = bb_len b + 1\<rparr>"

definition bool_column :: "bitmap \<Rightarrow> bitmap option \<Rightarrow> column option" where
  "bool_column values validity = (case from_parts TBool (CBool values) validity of Inl e \<Rightarrow> None | Inr c \<Rightarrow> Some c)"

definition bb_finish :: "bool_builder \<Rightarrow> column option" where
  "bb_finish b = bool_column (bb_bits b) (bb_validity b)"

text \<open>The loop of every kernel: one outcome per row, a panic of a row is a panic of the kernel.\<close>

fun bb_loop :: "(nat \<Rightarrow> bool option option) \<Rightarrow> nat list \<Rightarrow> bool_builder \<Rightarrow> bool_builder option" where
  "bb_loop f [] b = Some b"
| "bb_loop f (i # is) b = (case f i of None \<Rightarrow> None | Some outcome \<Rightarrow> bb_loop f is (bb_push outcome b))"

definition bool_rows_column :: "(nat \<Rightarrow> bool option option) \<Rightarrow> nat \<Rightarrow> column option" where
  "bool_rows_column f n = (case bb_loop f [0..<n] bb_new of None \<Rightarrow> None | Some b \<Rightarrow> bb_finish b)"

section \<open>Kleene logic\<close>

definition row_bool :: "column \<Rightarrow> nat \<Rightarrow> bool option option" where
  "row_bool col i =
     (case col_is_null col i of
        None \<Rightarrow> None
      | Some True \<Rightarrow> Some None
      | Some False \<Rightarrow> (case col_get col i of Some (VBool b) \<Rightarrow> Some (Some b) | _ \<Rightarrow> None))"

fun kleene_and :: "bool option \<Rightarrow> bool option \<Rightarrow> bool option" where
  "kleene_and (Some False) b = Some False"
| "kleene_and a (Some False) = Some False"
| "kleene_and (Some True) (Some True) = Some True"
| "kleene_and a b = None"

fun kleene_or :: "bool option \<Rightarrow> bool option \<Rightarrow> bool option" where
  "kleene_or (Some True) b = Some True"
| "kleene_or a (Some True) = Some True"
| "kleene_or (Some False) (Some False) = Some False"
| "kleene_or a b = None"

definition both_rows :: "(bool option \<Rightarrow> bool option \<Rightarrow> bool option) \<Rightarrow> column \<Rightarrow> column \<Rightarrow> nat \<Rightarrow> bool option option" where
  "both_rows f a b i =
     (case row_bool a i of None \<Rightarrow> None | Some x \<Rightarrow> (case row_bool b i of None \<Rightarrow> None | Some y \<Rightarrow> Some (f x y)))"

definition col_and :: "column \<Rightarrow> column \<Rightarrow> column option" where
  "col_and a b = (if col_len a \<noteq> col_len b then None else bool_rows_column (both_rows kleene_and a b) (col_len a))"

definition col_or :: "column \<Rightarrow> column \<Rightarrow> column option" where
  "col_or a b = (if col_len a \<noteq> col_len b then None else bool_rows_column (both_rows kleene_or a b) (col_len a))"

definition col_not :: "column \<Rightarrow> column option" where
  "col_not a = bool_rows_column (\<lambda>i. map_option (map_option Not) (row_bool a i)) (col_len a)"

definition truthy :: "column \<Rightarrow> bitmap option" where
  "truthy col =
     (case those (map (row_bool col) [0..<col_len col]) of
        None \<Rightarrow> None
      | Some rs \<Rightarrow> Some (fold (\<lambda>r bm. bm_push bm (r = Some True)) rs (bm_new_valid 0)))"

section \<open>Comparison\<close>

datatype cmp_op = Eq | Ne | Lt | Le | Gt | Ge

fun cmp_flip :: "cmp_op \<Rightarrow> cmp_op" where
  "cmp_flip Eq = Eq"
| "cmp_flip Ne = Ne"
| "cmp_flip Lt = Gt"
| "cmp_flip Le = Ge"
| "cmp_flip Gt = Lt"
| "cmp_flip Ge = Le"

fun apply_cmp :: "cmp_op \<Rightarrow> val \<Rightarrow> val \<Rightarrow> bool option" where
  "apply_cmp Eq a b = sql_eq a b"
| "apply_cmp Ne a b = map_option Not (sql_eq a b)"
| "apply_cmp Lt a b = map_option (\<lambda>r. r = Less) (total_cmp a b)"
| "apply_cmp Le a b = map_option (\<lambda>r. r \<noteq> Greater) (total_cmp a b)"
| "apply_cmp Gt a b = map_option (\<lambda>r. r = Greater) (total_cmp a b)"
| "apply_cmp Ge a b = map_option (\<lambda>r. r \<noteq> Less) (total_cmp a b)"

fun matches_kind :: "data_type \<Rightarrow> val \<Rightarrow> bool" where
  "matches_kind ty VNull = False"
| "matches_kind ty (VBool _) = (ty = TBool)"
| "matches_kind ty (VInt64 _) = (ty = TInt64)"
| "matches_kind ty (VUInt64 _) = (ty = TUInt64)"
| "matches_kind ty (VFloat64 _) = (ty = TFloat64)"
| "matches_kind ty (VDecimal _) = (case ty of TDecimal _ \<Rightarrow> True | _ \<Rightarrow> False)"
| "matches_kind ty (VString _) = (ty = TString)"
| "matches_kind ty (VBytes _) = (ty = TBytes)"
| "matches_kind ty (VTimestamp _) = (ty = TTimestamp)"
| "matches_kind ty (VDate _) = (ty = TDate)"
| "matches_kind ty (VUuid _) = (ty = TUuid)"
| "matches_kind ty (VIp _) = (ty = TIp)"
| "matches_kind ty (VList items) =
     (case ty of TList elem \<Rightarrow> \<forall>item \<in> set items. is_null item \<or> matches_kind elem item | _ \<Rightarrow> False)"

fun same_kind :: "data_type \<Rightarrow> data_type \<Rightarrow> bool" where
  "same_kind (TDecimal _) (TDecimal _) = True"
| "same_kind a b = (a = b)"

text \<open>NULL on either side gives NULL.\<close>

definition null_or :: "bool option \<Rightarrow> bool option option \<Rightarrow> bool option option" where
  "null_or n r = (case n of None \<Rightarrow> None | Some True \<Rightarrow> Some None | Some False \<Rightarrow> r)"

definition compare_scalar :: "column \<Rightarrow> cmp_op \<Rightarrow> val \<Rightarrow> column exec" where
  "compare_scalar col op v =
     (if is_null v then expect (bool_rows_column (\<lambda>_. Some None) (col_len col))
      else if \<not> matches_kind (col_ty col) v then efail (Plan ''cannot compare column to value'')
      else expect (bool_rows_column
        (\<lambda>i. null_or (col_is_null col i)
          (case col_get col i of None \<Rightarrow> None | Some x \<Rightarrow> map_option Some (apply_cmp op x v))) (col_len col)))"

definition compare :: "column \<Rightarrow> cmp_op \<Rightarrow> column \<Rightarrow> column exec" where
  "compare left op right =
     (if col_len left \<noteq> col_len right then efail (Plan ''compare length mismatch'')
      else if \<not> same_kind (col_ty left) (col_ty right) then efail (Plan ''cannot compare'')
      else expect (bool_rows_column
        (\<lambda>i. null_or (col_is_null left i) (null_or (col_is_null right i)
          (case col_get left i of
             None \<Rightarrow> None
           | Some x \<Rightarrow> (case col_get right i of None \<Rightarrow> None | Some y \<Rightarrow> map_option Some (apply_cmp op x y))))) (col_len left)))"

section \<open>Rows of a BOOL column\<close>

definition kleene_row :: "column \<Rightarrow> nat \<Rightarrow> bool option" where
  "kleene_row col i = (case col_get col i of Some (VBool b) \<Rightarrow> Some b | _ \<Rightarrow> None)"

definition bool_col :: "column \<Rightarrow> nat \<Rightarrow> bool" where
  "bool_col c n \<longleftrightarrow> col_wf c \<and> col_ty c = TBool \<and> col_len c = n"

definition bb_inv :: "bool_builder \<Rightarrow> bool option list \<Rightarrow> bool" where
  "bb_inv b xs \<longleftrightarrow> bm_wf (bb_bits b) \<and> bm_bits (bb_bits b) = map (\<lambda>x. x = Some True) xs \<and> bb_len b = length xs \<and>
     (case bb_validity b of
        None \<Rightarrow> None \<notin> set xs
      | Some v \<Rightarrow> bm_wf v \<and> bm_bits v = map (\<lambda>x. x \<noteq> None) xs)"

lemma bb_new_inv: "bb_inv bb_new []"
  by (simp add: bb_inv_def bb_new_def bm_new_valid_spec)

lemma bb_push_inv: "bb_inv b xs \<Longrightarrow> bb_inv (bb_push x b) (xs @ [x])"
proof -
  have "None \<notin> set xs \<Longrightarrow> replicate (length xs) True = map (\<lambda>x. x \<noteq> None) xs"
    by (induction xs) (auto, metis not_None_eq)
  then show "bb_inv b xs \<Longrightarrow> bb_inv (bb_push x b) (xs @ [x])"
    by (cases x; cases "bb_validity b") (auto simp: bb_inv_def bb_push_def bm_push_wf bm_new_valid_spec)
qed

lemma bb_loop_inv:
  "\<forall>i \<in> set is. f i \<noteq> None \<Longrightarrow> bb_inv b xs \<Longrightarrow> \<exists>b'. bb_loop f is b = Some b' \<and> bb_inv b' (xs @ map (the \<circ> f) is)"
proof (induction "is" arbitrary: b xs)
  case (Cons i "is")
  then obtain x where x: "f i = Some x" by auto
  then show ?case using Cons.IH [of "bb_push x b" "xs @ [x]"] Cons.prems bb_push_inv by simp
qed simp

lemma bb_finish_spec:
  assumes "bb_inv b xs"
  obtains c where "bb_finish b = Some c" "bool_col c (length xs)" "\<And>i. i < length xs \<Longrightarrow> kleene_row c i = xs ! i"
proof -
  let ?v = "bb_validity b"
  have wf: "bm_wf (bb_bits b)" "\<And>v. ?v = Some v \<Longrightarrow> bm_wf v" using assms by (auto simp: bb_inv_def)
  have len: "bm_len (bb_bits b) = length xs" "\<And>v. ?v = Some v \<Longrightarrow> bm_len v = length xs"
    using assms by (auto simp: bb_inv_def simp flip: length_bm_bits)
  define c where "c = Column TBool (CBool (bb_bits b)) ?v (case ?v of None \<Rightarrow> 0 | Some v \<Rightarrow> bm_len (bb_bits b) - bm_count_valid v)"
  have c: "col_wf c" using wf len by (auto simp: c_def validity_ok_def split: option.splits)
  then have "from_parts TBool (CBool (bb_bits b)) ?v = Inr c"
    using from_parts_iff [of TBool "CBool (bb_bits b)" ?v c] wf by (simp add: c_def)
  then have 1: "bb_finish b = Some c" by (simp add: bb_finish_def bool_column_def)
  have 2: "bool_col c (length xs)" using c len by (simp add: bool_col_def c_def col_len_def)
  have "kleene_row c i = xs ! i" if "i < length xs" for i
    using that assms wf len
    by (cases "xs ! i"; cases ?v) (auto simp: kleene_row_def c_def col_is_null_def col_len_def bm_get_wf bb_inv_def dest: nth_mem [of i xs] split: option.splits)
  from that [OF 1 2 this] show thesis .
qed

lemma bool_rows_column_spec:
  assumes "\<And>i. i < n \<Longrightarrow> f i \<noteq> None"
  obtains c where "bool_rows_column f n = Some c" "bool_col c n" "\<And>i. i < n \<Longrightarrow> Some (kleene_row c i) = f i"
proof -
  obtain b where b: "bb_loop f [0..<n] bb_new = Some b" "bb_inv b (map (the \<circ> f) [0..<n])"
    using bb_loop_inv [OF _ bb_new_inv, of "[0..<n]" f] assms by auto
  obtain c where c: "bb_finish b = Some c" "bool_col c n" "\<And>i. i < n \<Longrightarrow> kleene_row c i = the (f i)"
    using bb_finish_spec [OF b(2)] by simp blast
  have "Some (kleene_row c i) = f i" if "i < n" for i using c(3) [OF that] assms [OF that] by auto
  with that b(1) c show thesis by (simp add: bool_rows_column_def)
qed

lemma row_bool_spec: "bool_col c n \<Longrightarrow> i < n \<Longrightarrow> row_bool c i = Some (kleene_row c i)"
  using col_get_typed [of c i] is_null_total [of c i]
  by (auto simp: bool_col_def row_bool_def kleene_row_def elim: has_type.elims)

lemma both_rows_spec:
  "bool_col a n \<Longrightarrow> bool_col b n \<Longrightarrow> i < n \<Longrightarrow> both_rows f a b i = Some (f (kleene_row a i) (kleene_row b i))"
  by (simp add: both_rows_def row_bool_spec)

text \<open>The kernels as Kleene logic row by row; none of them panics on BOOL columns of one length.\<close>

lemma col_and_spec:
  assumes "bool_col a n" "bool_col b n"
  obtains c where "col_and a b = Some c" "bool_col c n" "\<And>i. i < n \<Longrightarrow> kleene_row c i = kleene_and (kleene_row a i) (kleene_row b i)"
  using bool_rows_column_spec [of n "both_rows kleene_and a b"] assms by (auto simp: both_rows_spec col_and_def bool_col_def)

lemma col_or_spec:
  assumes "bool_col a n" "bool_col b n"
  obtains c where "col_or a b = Some c" "bool_col c n" "\<And>i. i < n \<Longrightarrow> kleene_row c i = kleene_or (kleene_row a i) (kleene_row b i)"
  using bool_rows_column_spec [of n "both_rows kleene_or a b"] assms by (auto simp: both_rows_spec col_or_def bool_col_def)

lemma col_not_spec:
  assumes "bool_col a n"
  obtains c where "col_not a = Some c" "bool_col c n" "\<And>i. i < n \<Longrightarrow> kleene_row c i = map_option Not (kleene_row a i)"
  using bool_rows_column_spec [of n "\<lambda>i. map_option (map_option Not) (row_bool a i)"] assms
  by (auto simp: row_bool_spec col_not_def bool_col_def)

lemma truthy_spec:
  assumes "bool_col a n"
  obtains bm where "truthy a = Some bm" "bm_wf bm" "bm_bits bm = map (\<lambda>i. kleene_row a i = Some True) [0..<n]"
proof -
  have "map (row_bool a) [0..<n] = map Some (map (kleene_row a) [0..<n])" using row_bool_spec [OF assms] by simp
  then have r: "those (map (row_bool a) [0..<n]) = Some (map (kleene_row a) [0..<n])" by (simp only: those_map_Some)
  let ?xs = "map (\<lambda>i. kleene_row a i = Some True) [0..<n]"
  have f: "fold (\<lambda>r bm. bm_push bm (r = Some True)) (map (kleene_row a) [0..<n]) (bm_new_valid 0) = fold (\<lambda>v b. bm_push b v) ?xs (bm_new_null 0)"
    by (simp add: fold_map bm_new_valid_0 comp_def)
  have "truthy a = Some (fold (\<lambda>v b. bm_push b v) ?xs (bm_new_null 0))"
    using r f assms by (simp add: truthy_def bool_col_def)
  then show thesis using that bm_seq.push_all [OF bm_seq.wf_empty, of ?xs] by (simp add: bm_seq.bits_empty)
qed

section \<open>Comparison row by row\<close>

definition cmp_rows :: "cmp_op \<Rightarrow> val \<Rightarrow> val \<Rightarrow> bool option" where
  "cmp_rows op x y = (if x = VNull \<or> y = VNull then None else apply_cmp op x y)"

lemma bb_loop_SomeD: "bb_loop f is b = Some b' \<Longrightarrow> i \<in> set is \<Longrightarrow> f i \<noteq> None"
  by (induction "is" arbitrary: b) (auto split: option.splits)

lemma bool_rows_column_SomeD:
  assumes "bool_rows_column f n = Some c"
  shows "bool_col c n" "i < n \<Longrightarrow> f i = Some (kleene_row c i)"
proof -
  have f: "i < n \<Longrightarrow> f i \<noteq> None" for i
    using assms bb_loop_SomeD [of f "[0..<n]" bb_new] by (auto simp: bool_rows_column_def split: option.splits)
  obtain c' where c': "bool_rows_column f n = Some c'" "bool_col c' n" "\<And>i. i < n \<Longrightarrow> Some (kleene_row c' i) = f i"
    by (rule bool_rows_column_spec [of n f]) (use f in auto)
  then have "c' = c" using assms by simp
  with c'(2) show "bool_col c n" by simp
  show "i < n \<Longrightarrow> f i = Some (kleene_row c i)" using c'(3) [of i, symmetric] \<open>c' = c\<close> by simp
qed

lemma is_null_iff [simp]: "is_null v \<longleftrightarrow> v = VNull"
  by (cases v) (simp_all add: is_null_def)

lemma compare_scalar_rows:
  assumes "compare_scalar col op v = Some (Inr c)" "col_wf col"
  shows "bool_col c (col_len col)"
    "i < col_len col \<Longrightarrow> \<exists>x. col_get col i = Some x \<and> kleene_row c i = cmp_rows op x v"
proof -
  show "bool_col c (col_len col)" using assms by (auto simp: compare_scalar_def dest: bool_rows_column_SomeD split: if_splits)
  assume i: "i < col_len col"
  obtain x where x: "col_get col i = Some x" using col_get_typed [OF assms(2) i] by blast
  show "\<exists>x. col_get col i = Some x \<and> kleene_row c i = cmp_rows op x v"
    using assms(1) i x is_null_total [OF assms(2) i]
    by (auto simp: compare_scalar_def cmp_rows_def null_or_def dest!: bool_rows_column_SomeD(2) [OF _ i] split: if_splits)
qed

lemma compare_rows:
  assumes "compare l op r = Some (Inr c)" "col_wf l" "col_wf r"
  shows "bool_col c (col_len l)" "col_len r = col_len l"
    "i < col_len l \<Longrightarrow> \<exists>x y. col_get l i = Some x \<and> col_get r i = Some y \<and> kleene_row c i = cmp_rows op x y"
proof -
  show "bool_col c (col_len l)" "col_len r = col_len l"
    using assms by (auto simp: compare_def dest: bool_rows_column_SomeD split: if_splits)
  assume i: "i < col_len l"
  have i': "i < col_len r" using i assms(1) by (auto simp: compare_def split: if_splits)
  obtain x y where x: "col_get l i = Some x" "col_get r i = Some y"
    using col_get_typed [OF assms(2) i] col_get_typed [OF assms(3) i'] by blast
  then show "\<exists>x y. col_get l i = Some x \<and> col_get r i = Some y \<and> kleene_row c i = cmp_rows op x y"
    using assms(1) i x is_null_total [OF assms(2) i] is_null_total [OF assms(3) i']
    by (auto simp: compare_def cmp_rows_def null_or_def dest!: bool_rows_column_SomeD(2) [OF _ i'] split: if_splits bool.splits)
qed

section \<open>Properties of the kernels\<close>

lemma kleene_iff:
  "kleene_and p q = Some True \<longleftrightarrow> p = Some True \<and> q = Some True"
  "kleene_and p q = Some False \<longleftrightarrow> p = Some False \<or> q = Some False"
  by (induction p q rule: kleene_and.induct) simp_all

lemma kleene_or_iff:
  "kleene_or p q = Some True \<longleftrightarrow> p = Some True \<or> q = Some True"
  "kleene_or p q = Some False \<longleftrightarrow> p = Some False \<and> q = Some False"
  by (induction p q rule: kleene_or.induct) simp_all

text \<open>
  C39. The boolean kernels are Kleene logic: on BOOL columns of equal length \<open>and\<close>, \<open>or\<close> and
  \<open>not\<close> do not panic, and every row of the result is the three-valued connective of the
  rows, so that \<open>and\<close> is false as soon as one side is, \<open>or\<close> true as soon as one side is, and
  \<open>truthy\<close> keeps exactly the rows that are true.
\<close>

theorem kernels_are_kleene:
  assumes "bool_col a n" "bool_col b n"
  shows "\<exists>x y z t. col_and a b = Some x \<and> col_or a b = Some y \<and> col_not a = Some z \<and> truthy a = Some t \<and>
    bool_col x n \<and> bool_col y n \<and> bool_col z n \<and> bm_wf t \<and>
    (\<forall>i < n. (kleene_row x i = Some True \<longleftrightarrow> kleene_row a i = Some True \<and> kleene_row b i = Some True) \<and>
       (kleene_row x i = Some False \<longleftrightarrow> kleene_row a i = Some False \<or> kleene_row b i = Some False) \<and>
       (kleene_row y i = Some True \<longleftrightarrow> kleene_row a i = Some True \<or> kleene_row b i = Some True) \<and>
       (kleene_row y i = Some False \<longleftrightarrow> kleene_row a i = Some False \<and> kleene_row b i = Some False) \<and>
       kleene_row z i = map_option Not (kleene_row a i) \<and> bm_bits t ! i = (kleene_row a i = Some True))"
proof -
  obtain x where x: "col_and a b = Some x" "bool_col x n" "\<And>i. i < n \<Longrightarrow> kleene_row x i = kleene_and (kleene_row a i) (kleene_row b i)"
    using col_and_spec [OF assms] by blast
  obtain y where y: "col_or a b = Some y" "bool_col y n" "\<And>i. i < n \<Longrightarrow> kleene_row y i = kleene_or (kleene_row a i) (kleene_row b i)"
    using col_or_spec [OF assms] by blast
  obtain z where z: "col_not a = Some z" "bool_col z n" "\<And>i. i < n \<Longrightarrow> kleene_row z i = map_option Not (kleene_row a i)"
    using col_not_spec [OF assms(1)] by blast
  obtain t where t: "truthy a = Some t" "bm_wf t" "bm_bits t = map (\<lambda>i. kleene_row a i = Some True) [0..<n]"
    using truthy_spec [OF assms(1)] by blast
  show ?thesis
    using x(1,2) y(1,2) z(1,2) t(1,2) by (simp add: x(3) y(3) z(3) t(3) kleene_iff kleene_or_iff)
qed

theorem kernels_are_kleene_witness:
  "\<exists>x. col_and (Column TBool (CBool (bm_new_valid 1)) None 0) (Column TBool (CBool (bm_new_valid 1)) None 0) = Some x \<and>
     kleene_row x 0 = Some True"
proof -
  let ?c = "Column TBool (CBool (bm_new_valid 1)) None 0"
  have l: "bm_len (bm_new_valid 1) = 1" by (simp add: bm_new_valid_def)
  have c: "bool_col ?c 1" using bm_new_valid_spec(1) [of 1] l by (simp add: bool_col_def col_len_def validity_ok_def)
  have "kleene_row ?c 0 = Some True"
    using bm_new_valid_spec [of 1] l by (simp add: kleene_row_def col_is_null_def col_len_def bm_get_wf)
  then show ?thesis using kernels_are_kleene [OF c c] by fastforce
qed


end
