(* ===== verification/Like.thy ===== *)
theory Like
  imports Kernels
begin

text \<open>
  LIKE and ILIKE (\<open>src/exec/expr/like.rs\<close>): the pattern compiler and the greedy two-pointer
  matcher with one remembered \<open>%\<close>. The matcher's loop has no structural argument, so it is a
  \<open>partial_function\<close>: that it returns is part of what is proved. A character is its code
  point; \<open>char::to_lowercase\<close>, a Unicode table of the standard library, is the argument
  \<open>lower\<close>.
\<close>

section \<open>Model\<close>

datatype token = AnyRun | AnyOne | Exactly nat

text \<open>\<open>str::chars\<close> of a valid UTF-8 string.\<close>

fun utf8_chars :: "byte list \<Rightarrow> nat list" where
  "utf8_chars [] = []"
| "utf8_chars (b # bs) =
     (if b < 0x80 then unat b # utf8_chars bs
      else let n = (if b < 0xE0 then 1 else if b < 0xF0 then 2 else 3);
               lead = unat (b AND mask (if b < 0xE0 then 5 else if b < 0xF0 then 4 else 3))
           in foldl (\<lambda>c x. c * 64 + unat (x AND mask 6)) lead (take n bs) # utf8_chars (drop n bs))"

fun like_compile :: "nat list \<Rightarrow> exec_error + token list" where
  "like_compile [] = Inr []"
| "like_compile (c # cs) =
     (if c = 37 then rmap ((#) AnyRun) (like_compile cs)
      else if c = 95 then rmap ((#) AnyOne) (like_compile cs)
      else if c = 92 then
        (case cs of
           [] \<Rightarrow> Inl (Invalid ''LIKE pattern ends with an escape'')
         | escaped # rest \<Rightarrow> rmap ((#) (Exactly escaped)) (like_compile rest))
      else rmap ((#) (Exactly c)) (like_compile cs))"

definition char_eq :: "(nat \<Rightarrow> nat list) \<Rightarrow> bool \<Rightarrow> nat \<Rightarrow> nat \<Rightarrow> bool" where
  "char_eq lower case_insensitive a b = (if case_insensitive then lower a = lower b else a = b)"

definition literal_match :: "(nat \<Rightarrow> nat \<Rightarrow> bool) \<Rightarrow> nat list \<Rightarrow> token list \<Rightarrow> nat \<Rightarrow> nat \<Rightarrow> bool" where
  "literal_match eq s p si pi =
     (case nth_opt p pi of Some AnyOne \<Rightarrow> True | Some (Exactly pc) \<Rightarrow> eq pc (s ! si) | _ \<Rightarrow> False)"

definition rest_is_any :: "token list \<Rightarrow> nat \<Rightarrow> bool" where
  "rest_is_any p pi \<longleftrightarrow> pi + length (takeWhile (\<lambda>t. t = AnyRun) (drop pi p)) = length p"

partial_function (option) like_loop :: "(nat \<Rightarrow> nat \<Rightarrow> bool) \<Rightarrow> nat list \<Rightarrow> token list \<Rightarrow> nat \<Rightarrow> nat \<Rightarrow> nat option \<Rightarrow> nat \<Rightarrow> bool option" where
  "like_loop eq s p si pi star match_from =
     (if si < length s then
        if literal_match eq s p si pi then like_loop eq s p (si + 1) (pi + 1) star match_from
        else if nth_opt p pi = Some AnyRun then like_loop eq s p si (pi + 1) (Some pi) si
        else (case star of
                Some star_pos \<Rightarrow> like_loop eq s p (match_from + 1) (star_pos + 1) star (match_from + 1)
              | None \<Rightarrow> Some False)
      else Some (rest_is_any p pi))"

definition like_match :: "(nat \<Rightarrow> nat \<Rightarrow> bool) \<Rightarrow> nat list \<Rightarrow> token list \<Rightarrow> bool option" where
  "like_match eq s p = like_loop eq s p 0 0 None 0"

definition like :: "(nat \<Rightarrow> nat list) \<Rightarrow> column \<Rightarrow> byte list \<Rightarrow> bool \<Rightarrow> column exec" where
  "like lower col pattern case_insensitive =
     (if col_ty col \<noteq> TString then efail (Plan ''LIKE operand must be STRING'')
      else case like_compile (utf8_chars pattern) of
             Inl e \<Rightarrow> efail e
           | Inr tokens \<Rightarrow> expect (bool_rows_column
               (\<lambda>i. null_or (col_is_null col i)
                 (case col_get col i of
                    Some (VString s) \<Rightarrow> map_option Some (like_match (char_eq lower case_insensitive) (utf8_chars s) tokens)
                  | _ \<Rightarrow> None)) (col_len col)))"

section \<open>What a pattern means\<close>

fun wild :: "(nat \<Rightarrow> nat \<Rightarrow> bool) \<Rightarrow> token list \<Rightarrow> nat list \<Rightarrow> bool" where
  "wild eq [] s = (s = [])"
| "wild eq (AnyRun # ps) s = (\<exists>k \<le> length s. wild eq ps (drop k s))"
| "wild eq (AnyOne # ps) s = (s \<noteq> [] \<and> wild eq ps (tl s))"
| "wild eq (Exactly c # ps) s = (s \<noteq> [] \<and> eq c (hd s) \<and> wild eq ps (tl s))"

lemma wild_empty: "wild eq ps [] \<longleftrightarrow> (\<forall>t \<in> set ps. t = AnyRun)"
  by (induction eq ps "[] :: nat list" rule: wild.induct) auto

lemma wild_literals:
  "AnyRun \<notin> set ts \<Longrightarrow> wild eq (ts @ ps) s \<Longrightarrow> length ts \<le> length s \<and> wild eq ps (drop (length ts) s)"
proof (induction ts arbitrary: s)
  case (Cons t ts)
  then show ?case by (cases t; cases s) auto
qed simp

lemma wild_any_mono:
  assumes "wild eq (AnyRun # ps) (drop b s)" "a \<le> b" "b \<le> length s"
  shows "wild eq (AnyRun # ps) (drop a s)"
proof -
  obtain k where k: "k \<le> length s - b" "wild eq ps (drop (k + b) s)" using assms(1) by auto
  have "b - a + k \<le> length (drop a s) \<and> wild eq ps (drop (b - a + k) (drop a s))"
    using k assms(2,3) by (simp add: add.commute)
  then show ?thesis unfolding wild.simps by blast
qed

lemma rest_is_any_iff: "pi \<le> length p \<Longrightarrow> rest_is_any p pi \<longleftrightarrow> (\<forall>t \<in> set (drop pi p). t = AnyRun)"
proof -
  assume "pi \<le> length p"
  then have "rest_is_any p pi \<longleftrightarrow> length (takeWhile (\<lambda>t. t = AnyRun) (drop pi p)) = length (drop pi p)"
    by (auto simp: rest_is_any_def)
  also have "\<dots> \<longleftrightarrow> takeWhile (\<lambda>t. t = AnyRun) (drop pi p) = drop pi p"
    by (metis takeWhile_eq_take take_all order_refl)
  finally show ?thesis by (simp add: takeWhile_eq_all_conv)
qed

section \<open>The loop\<close>

text \<open>
  The remembered \<open>%\<close> and what has been matched since: the tokens after it up to \<open>pi\<close> are all
  literals, one for each character between \<open>match_from\<close> and \<open>si\<close>.
\<close>

definition star_inv :: "nat list \<Rightarrow> token list \<Rightarrow> nat \<Rightarrow> nat \<Rightarrow> nat option \<Rightarrow> nat \<Rightarrow> bool" where
  "star_inv s p si pi star mf \<longleftrightarrow> si \<le> length s \<and> pi \<le> length p \<and>
     (\<forall>sp. star = Some sp \<longrightarrow> sp < pi \<and> p ! sp = AnyRun \<and> AnyRun \<notin> set (take (pi - (sp + 1)) (drop (sp + 1) p)) \<and>
        si = mf + (pi - (sp + 1)))"

text \<open>What the loop has left to decide.\<close>

definition loop_goal :: "(nat \<Rightarrow> nat \<Rightarrow> bool) \<Rightarrow> nat list \<Rightarrow> token list \<Rightarrow> nat \<Rightarrow> nat \<Rightarrow> nat option \<Rightarrow> nat \<Rightarrow> bool" where
  "loop_goal eq s p si pi star mf \<longleftrightarrow> wild eq (drop pi p) (drop si s) \<or>
     (\<exists>sp k. star = Some sp \<and> mf < k \<and> k \<le> length s \<and> wild eq (drop (sp + 1) p) (drop k s))"

lemma drop_nth: "i < length xs \<Longrightarrow> drop i xs = xs ! i # drop (i + 1) xs"
  by (simp add: Cons_nth_drop_Suc)

lemma nth_opt_Some: "nth_opt xs i = Some x \<longleftrightarrow> i < length xs \<and> xs ! i = x"
  by (auto simp: nth_opt_def)

lemma literal_matchD:
  assumes "literal_match eq s p si pi"
  obtains t where "pi < length p" "p ! pi = t" "t = AnyOne \<or> (\<exists>c. t = Exactly c \<and> eq c (s ! si))"
  using assms by (auto simp: literal_match_def nth_opt_Some split: option.splits token.splits)

lemma star_inv_literal:
  assumes "star_inv s p si pi star mf" "si < length s" "pi < length p" "p ! pi \<noteq> AnyRun"
  shows "star_inv s p (si + 1) (pi + 1) star mf"
proof -
  have "take (pi + 1 - (sp + 1)) (drop (sp + 1) p) = take (pi - (sp + 1)) (drop (sp + 1) p) @ [p ! pi]" if "sp < pi" for sp
  proof -
    have "pi + 1 - (sp + 1) = Suc (pi - (sp + 1))" using that by simp
    then show ?thesis using that assms(3) by (simp add: take_Suc_conv_app_nth)
  qed
  then show ?thesis using assms by (auto simp: star_inv_def)
qed

text \<open>Backing up past a new \<open>%\<close> is never needed: what it could absorb, the new one can.\<close>

lemma loop_goal_any:
  assumes "star_inv s p si pi star mf" "pi < length p" "p ! pi = AnyRun" "si \<le> length s"
  shows "loop_goal eq s p si pi star mf \<longleftrightarrow> loop_goal eq s p si (pi + 1) (Some pi) si"
proof
  assume "loop_goal eq s p si pi star mf"
  then have "wild eq (drop pi p) (drop si s)" unfolding loop_goal_def
  proof (elim disjE exE conjE)
    fix sp k
    assume k: "star = Some sp" "mf < k" "k \<le> length s" "wild eq (drop (sp + 1) p) (drop k s)"
    let ?ts = "take (pi - (sp + 1)) (drop (sp + 1) p)"
    have i: "sp < pi" "AnyRun \<notin> set ?ts" "si = mf + (pi - (sp + 1))" using assms(1) k(1) by (auto simp: star_inv_def)
    have len: "length ?ts = pi - (sp + 1)" using assms(2) by simp
    have "drop (sp + 1) p = ?ts @ drop pi p" using i(1) by (metis Suc_eq_plus1 Suc_leI append_take_drop_id drop_drop le_add_diff_inverse2)
    then have l: "length ?ts \<le> length (drop k s)" "wild eq (drop pi p) (drop (length ?ts + k) s)"
      using wild_literals [OF i(2), of eq "drop pi p" "drop k s"] k(4) by simp_all
    have "si \<le> length ?ts + k" "length ?ts + k \<le> length s" using i(3) k(2,3) l(1) len by auto
    then show ?thesis using wild_any_mono [of eq "drop (pi + 1) p" "length ?ts + k" s si] l(2) assms(2,3)
      by (simp add: drop_nth)
  qed
  then obtain k where k: "k \<le> length s - si" "wild eq (drop (pi + 1) p) (drop (si + k) s)"
    using assms(2,3) by (auto simp: drop_nth add.commute)
  show "loop_goal eq s p si (pi + 1) (Some pi) si"
    using k assms(4) by (cases "k = 0") (auto simp: loop_goal_def intro!: exI [of _ "si + k"])
next
  assume "loop_goal eq s p si (pi + 1) (Some pi) si"
  then have "\<exists>k. si \<le> k \<and> k \<le> length s \<and> wild eq (drop (pi + 1) p) (drop k s)"
    unfolding loop_goal_def using assms(4) less_imp_le by blast
  then obtain k where "si \<le> k" "k \<le> length s" "wild eq (drop (pi + 1) p) (drop k s)" by blast
  then have "k - si \<le> length (drop si s) \<and> wild eq (drop (pi + 1) p) (drop (k - si) (drop si s))" by simp
  then have "wild eq (AnyRun # drop (pi + 1) p) (drop si s)" unfolding wild.simps by blast
  then show "loop_goal eq s p si pi star mf" using assms(2,3) by (simp add: loop_goal_def drop_nth)
qed

lemma loop_goal_literal:
  assumes "literal_match eq s p si pi" "si < length s"
  shows "loop_goal eq s p si pi star mf \<longleftrightarrow> loop_goal eq s p (si + 1) (pi + 1) star mf"
proof -
  obtain t where t: "pi < length p" "p ! pi = t" "t = AnyOne \<or> (\<exists>c. t = Exactly c \<and> eq c (s ! si))"
    using literal_matchD [OF assms(1)] .
  then have "wild eq (drop pi p) (drop si s) \<longleftrightarrow> wild eq (drop (pi + 1) p) (drop (si + 1) s)"
    unfolding drop_nth [OF t(1)] drop_nth [OF assms(2)] t(2) by auto
  then show ?thesis by (simp add: loop_goal_def)
qed

lemma mismatch_not_wild:
  assumes "\<not> literal_match eq s p si pi" "nth_opt p pi \<noteq> Some AnyRun" "si < length s"
  shows "\<not> wild eq (drop pi p) (drop si s)"
proof (cases "pi < length p")
  case True
  then show ?thesis using assms
    by (cases "p ! pi") (auto simp: drop_nth literal_match_def nth_opt_def hd_drop_conv_nth)
qed (use assms in simp)

lemma loop_goal_backtrack:
  assumes "\<not> wild eq (drop pi p) (drop si s)" "mf < length s"
  shows "loop_goal eq s p si pi (Some sp) mf \<longleftrightarrow> loop_goal eq s p (mf + 1) (sp + 1) (Some sp) (mf + 1)"
proof -
  have "mf < k \<longleftrightarrow> k = mf + 1 \<or> mf + 1 < k" for k by auto
  then show ?thesis using assms unfolding loop_goal_def by (metis Suc_eq_plus1 Suc_leI option.inject)
qed

lemma loop_goal_end:
  assumes "star_inv s p (length s) pi star mf"
  shows "loop_goal eq s p (length s) pi star mf \<longleftrightarrow> rest_is_any p pi"
proof -
  have False if k: "star = Some sp" "mf < k" "k \<le> length s" "wild eq (drop (sp + 1) p) (drop k s)" for sp k
  proof -
    let ?ts = "take (pi - (sp + 1)) (drop (sp + 1) p)"
    have i: "sp < pi" "AnyRun \<notin> set ?ts" "length s = mf + (pi - (sp + 1))" "pi \<le> length p"
      using assms k(1) by (auto simp: star_inv_def)
    have "drop (sp + 1) p = ?ts @ drop pi p" using i(1) by (metis Suc_eq_plus1 Suc_leI append_take_drop_id drop_drop le_add_diff_inverse2)
    then have "length ?ts \<le> length (drop k s)"
      using wild_literals [OF i(2), of eq "drop pi p" "drop k s"] k(4) by simp
    then show False using i(3,4) k(2,3) by auto
  qed
  moreover have "pi \<le> length p" using assms by (simp add: star_inv_def)
  ultimately show ?thesis by (auto simp: loop_goal_def rest_is_any_iff wild_empty)
qed

text \<open>Every turn moves on the star, the place to resume from, or the character.\<close>

definition loop_measures :: "nat list \<Rightarrow> token list \<Rightarrow> (nat \<times> nat \<times> nat option \<times> nat \<Rightarrow> nat) list" where
  "loop_measures s p =
     [\<lambda>(si, pi, star, mf). (case star of None \<Rightarrow> length p + 1 | Some sp \<Rightarrow> length p - sp),
      \<lambda>(si, pi, star, mf). length s - mf,
      \<lambda>(si, pi, star, mf). length s - si]"

lemma like_loop_returns:
  "star_inv s p si pi star mf \<Longrightarrow> like_loop eq s p si pi star mf = Some (loop_goal eq s p si pi star mf)"
proof (induction "(si, pi, star, mf)" arbitrary: si pi star mf rule: wf_induct_rule [OF wf_measures [of "loop_measures s p"]])
  case 1
  note IH = 1(1) and inv = 1(2)
  show ?case
  proof (cases "si < length s")
    case si: True
    consider (lit) "literal_match eq s p si pi"
      | (run) "\<not> literal_match eq s p si pi" "nth_opt p pi = Some AnyRun"
      | (resume) sp where "\<not> literal_match eq s p si pi" "nth_opt p pi \<noteq> Some AnyRun" "star = Some sp"
      | (stuck) "\<not> literal_match eq s p si pi" "nth_opt p pi \<noteq> Some AnyRun" "star = None"
      by blast
    then show ?thesis
    proof cases
      case lit
      have "star_inv s p (si + 1) (pi + 1) star mf"
        by (rule literal_matchD [OF lit]) (use star_inv_literal [OF inv si] in auto)
      then have "like_loop eq s p (si + 1) (pi + 1) star mf = Some (loop_goal eq s p (si + 1) (pi + 1) star mf)"
        using si by (intro IH) (auto simp: loop_measures_def)
      then show ?thesis using si lit loop_goal_literal [OF lit si] by (simp add: like_loop.simps [of eq s p si])
    next
      case run
      then have pi: "pi < length p" "p ! pi = AnyRun" by (simp_all add: nth_opt_Some)
      have "star_inv s p si (pi + 1) (Some pi) si" using inv pi by (simp add: star_inv_def)
      then have "like_loop eq s p si (pi + 1) (Some pi) si = Some (loop_goal eq s p si (pi + 1) (Some pi) si)"
        using pi inv by (intro IH) (auto simp: loop_measures_def star_inv_def split: option.splits)
      then show ?thesis using si run loop_goal_any [OF inv pi] by (simp add: like_loop.simps [of eq s p si pi])
    next
      case resume
      have i: "sp < pi" "pi \<le> length p" "p ! sp = AnyRun" "si = mf + (pi - (sp + 1))" using inv resume(3) by (auto simp: star_inv_def)
      have mf: "mf < length s" using i(4) si by simp
      have "star_inv s p (mf + 1) (sp + 1) (Some sp) (mf + 1)" using i mf by (simp add: star_inv_def)
      then have "like_loop eq s p (mf + 1) (sp + 1) star (mf + 1) = Some (loop_goal eq s p (mf + 1) (sp + 1) star (mf + 1))"
        unfolding resume(3) using resume(3) mf by (intro IH) (auto simp: loop_measures_def)
      then show ?thesis
        using si resume loop_goal_backtrack [OF mismatch_not_wild [OF resume(1,2) si] mf] by (simp add: like_loop.simps [of eq s p si pi])
    next
      case stuck
      then show ?thesis using si mismatch_not_wild [OF stuck(1,2) si] by (simp add: like_loop.simps loop_goal_def)
    qed
  next
    case False
    then have "si = length s" using inv by (simp add: star_inv_def)
    then show ?thesis using loop_goal_end inv by (simp add: like_loop.simps)
  qed
qed

lemma like_match_wild: "like_match eq s p = Some (wild eq p s)"
  using like_loop_returns [of s p 0 0 None 0 eq] by (simp add: like_match_def star_inv_def loop_goal_def)

text \<open>Over a STRING column the kernel answers every row, NULL for NULL.\<close>

lemma like_rows:
  assumes "col_wf col" "col_ty col = TString" "like_compile (utf8_chars pattern) = Inr tokens"
  obtains c where "like lower col pattern ci = Some (Inr c)" "bool_col c (col_len col)"
    "\<And>i. i < col_len col \<Longrightarrow> kleene_row c i =
      (case col_get col i of Some (VString s) \<Rightarrow> Some (wild (char_eq lower ci) tokens (utf8_chars s)) | _ \<Rightarrow> None)"
proof -
  let ?f = "\<lambda>i. null_or (col_is_null col i)
    (case col_get col i of
       Some (VString s) \<Rightarrow> map_option Some (like_match (char_eq lower ci) (utf8_chars s) tokens) | _ \<Rightarrow> None)"
  have f: "?f i = Some (case col_get col i of Some (VString s) \<Rightarrow> Some (wild (char_eq lower ci) tokens (utf8_chars s)) | _ \<Rightarrow> None)"
    if "i < col_len col" for i
    using col_get_typed [OF assms(1) that] is_null_total [OF assms(1) that] assms(2)
    by (auto simp: null_or_def like_match_wild elim: has_type.elims)
  obtain c where c: "bool_rows_column ?f (col_len col) = Some c" "bool_col c (col_len col)"
    "\<And>i. i < col_len col \<Longrightarrow> Some (kleene_row c i) = ?f i"
    by (rule bool_rows_column_spec [of "col_len col" ?f]) (use f in auto)
  show thesis using that [of c] c assms f by (simp add: like_def eret_def)
qed

section \<open>Properties of LIKE\<close>

text \<open>
  C38. The greedy matcher always returns, and what it returns is what the pattern means: each
  \<open>%\<close> stands for some run of characters, each \<open>_\<close> for one character, everything else for
  itself. Remembering only the last \<open>%\<close> loses no match, whatever the pattern.
\<close>

theorem like_match_is_wild:
  "like_match eq s p = Some (wild eq p s)"
  by (rule like_match_wild)

end
