(* ===== verification/Expr.thy ===== *)
theory Expr
  imports Like
begin

text \<open>
  The expression tree and its typing (\<open>src/exec/expr/mod.rs\<close>, the signature table of
  \<open>func.rs\<close> and the cast table of \<open>cast.rs\<close>), and batches (\<open>src/exec/batch.rs\<close>). A compiled
  \<open>Regex\<close> stands for its pattern, which is all that equality of regexes looks at.
\<close>

section \<open>Batches\<close>

record field =
  fd_name :: rstr
  fd_ty :: data_type

record batch =
  bt_fields :: "field list"
  bt_columns :: "column list"
  bt_rows :: nat

datatype batch_error =
    ColumnCount nat nat
  | TypeMismatch rstr data_type data_type
  | RowCount rstr nat nat
  | DuplicateField rstr

fun check_types :: "(field \<times> column) list \<Rightarrow> batch_error option" where
  "check_types [] = None"
| "check_types ((f, c) # fcs) =
     (if col_ty c \<noteq> fd_ty f then Some (TypeMismatch (fd_name f) (fd_ty f) (col_ty c)) else check_types fcs)"

fun check_rows :: "nat \<Rightarrow> (field \<times> column) list \<Rightarrow> batch_error option" where
  "check_rows rows [] = None"
| "check_rows rows ((f, c) # fcs) =
     (if col_len c \<noteq> rows then Some (RowCount (fd_name f) rows (col_len c)) else check_rows rows fcs)"

fun check_names :: "rstr list \<Rightarrow> field list \<Rightarrow> batch_error option" where
  "check_names before [] = None"
| "check_names before (f # fs) =
     (if fd_name f \<in> set before then Some (DuplicateField (fd_name f)) else check_names (before @ [fd_name f]) fs)"

definition batch_new :: "field list \<Rightarrow> column list \<Rightarrow> batch_error + batch" where
  "batch_new fs cs =
     (if length fs \<noteq> length cs then Inl (ColumnCount (length fs) (length cs))
      else case check_types (zip fs cs) of
             Some e \<Rightarrow> Inl e
           | None \<Rightarrow>
               let rows = (case cs of [] \<Rightarrow> 0 | c # _ \<Rightarrow> col_len c)
               in case check_rows rows (zip fs cs) of
                    Some e \<Rightarrow> Inl e
                  | None \<Rightarrow>
                      (case check_names [] fs of
                         Some e \<Rightarrow> Inl e
                       | None \<Rightarrow> Inr \<lparr>bt_fields = fs, bt_columns = cs, bt_rows = rows\<rparr>))"

definition batch_wf :: "batch \<Rightarrow> bool" where
  "batch_wf b \<longleftrightarrow> length (bt_fields b) = length (bt_columns b) \<and> distinct (map fd_name (bt_fields b)) \<and>
     (bt_columns b = [] \<longrightarrow> bt_rows b = 0) \<and>
     (\<forall>i < length (bt_columns b). col_wf (bt_columns b ! i) \<and> col_ty (bt_columns b ! i) = fd_ty (bt_fields b ! i) \<and>
        col_len (bt_columns b ! i) = bt_rows b)"

section \<open>Expressions\<close>

datatype arith_op = Add | Sub | Mul | Div | Mod

datatype trunc_unit =
  TuMicrosecond | TuMillisecond | TuSecond | TuMinute | TuHour | TuDay | TuWeek | TuMonth | TuQuarter | TuYear

datatype date_part =
    DpYear | DpQuarter | DpMonth | DpWeek | DpDay | DpDayOfWeek | DpDayOfYear | DpHour | DpMinute | DpSecond
  | DpMillisecond | DpMicrosecond | DpEpoch

datatype scalar_func =
    Lower
  | Upper
  | Length
  | Substr
  | Concat
  | RegexpMatch rstr
  | DateTrunc trunc_unit
  | TimeBucket i64 i64
  | Extract date_part
  | CoalesceText

datatype expr =
    EColumn nat
  | ELiteral val data_type
  | ECmp cmp_op expr expr
  | EAnd "expr list"
  | EOr "expr list"
  | ENot expr
  | EIsNull expr
  | EIsNotNull expr
  | EInList expr "val list" bool
  | EBetween expr expr expr bool
  | ELike expr rstr bool bool
  | EArith arith_op expr expr
  | ENeg expr
  | ECase "(expr \<times> expr) list" "expr option"
  | ECast expr data_type
  | EFunc scalar_func "expr list"

section \<open>Typing\<close>

definition sbind :: "'e + 'a \<Rightarrow> ('a \<Rightarrow> 'e + 'b) \<Rightarrow> 'e + 'b" where
  "sbind r f = (case r of Inl e \<Rightarrow> Inl e | Inr x \<Rightarrow> f x)"

lemma sbind_Inr [simp]: "sbind r f = Inr y \<longleftrightarrow> (\<exists>x. r = Inr x \<and> f x = Inr y)"
  by (auto simp: sbind_def split: sum.splits)

lemma sbind_simps [simp]: "sbind (Inl e) f = Inl e" "sbind (Inr x) f = f x"
  by (simp_all add: sbind_def)

definition is_numeric :: "data_type \<Rightarrow> bool" where
  "is_numeric ty = (case ty of TInt64 \<Rightarrow> True | TUInt64 \<Rightarrow> True | TFloat64 \<Rightarrow> True | TDecimal _ \<Rightarrow> True | _ \<Rightarrow> False)"

definition add_sub_precision :: "byte \<Rightarrow> decimal_type \<Rightarrow> decimal_type \<Rightarrow> byte" where
  "add_sub_precision scale a b =
     (let int_digits = max (uint (dt_precision a) - uint (dt_scale a)) (uint (dt_precision b) - uint (dt_scale b))
      in word_of_int (min (int_digits + uint scale + 1) 38))"

text \<open>A decimal type that is expected to be valid; \<open>None\<close> is the panic of \<open>expect\<close>.\<close>

definition expect_decimal :: "byte \<Rightarrow> byte \<Rightarrow> data_type exec" where
  "expect_decimal precision scale = (case data_type_decimal precision scale of Inl e \<Rightarrow> None | Inr ty \<Rightarrow> eret ty)"

text \<open>Two scales are at most 38 each, so their sum fits a byte.\<close>

definition decimal_arith_type :: "arith_op \<Rightarrow> decimal_type \<Rightarrow> decimal_type \<Rightarrow> data_type exec" where
  "decimal_arith_type op a b =
     (if op = Div then eret TFloat64
      else if op = Mul then
        (if dt_scale a + dt_scale b > 38 then efail (Plan ''DECIMAL multiply scale exceeds 38'')
         else expect_decimal (word_of_int (min (uint (dt_precision a) + uint (dt_precision b)) 38)) (dt_scale a + dt_scale b))
      else let scale = max (dt_scale a) (dt_scale b)
           in expect_decimal (add_sub_precision scale a b) scale)"

definition arith_type :: "arith_op \<Rightarrow> data_type \<Rightarrow> data_type \<Rightarrow> data_type exec" where
  "arith_type op lt rt =
     (if \<not> is_numeric lt \<or> \<not> is_numeric rt then efail (Plan ''arithmetic operands must be numeric'')
      else case (lt, rt) of
             (TDecimal a, TDecimal b) \<Rightarrow> decimal_arith_type op a b
           | _ \<Rightarrow> if lt = rt then eret lt else efail (Plan ''arithmetic operands must be the same numeric kind''))"

definition is_list :: "data_type \<Rightarrow> bool" where
  "is_list ty = (case ty of TList _ \<Rightarrow> True | _ \<Rightarrow> False)"

definition castable :: "data_type \<Rightarrow> data_type \<Rightarrow> bool" where
  "castable from to =
     (if from = to then True
      else if is_list from \<or> is_list to then False
      else (is_numeric from \<and> is_numeric to) \<or> (from = TBool \<and> to \<in> {TInt64, TUInt64}) \<or>
        (from \<in> {TInt64, TUInt64} \<and> to = TBool) \<or> (from = TTimestamp \<and> to = TDate) \<or> (from = TDate \<and> to = TTimestamp) \<or>
        (from \<in> {TUuid, TIp} \<and> to = TBytes) \<or> to = TString \<or> from = TString)"

definition expect_args :: "data_type list \<Rightarrow> data_type list \<Rightarrow> data_type \<Rightarrow> data_type exec" where
  "expect_args args want result = (if args = want then eret result else efail (Plan ''no such signature''))"

fun func_type :: "scalar_func \<Rightarrow> data_type list \<Rightarrow> data_type exec" where
  "func_type Lower args = expect_args args [TString] TString"
| "func_type Upper args = expect_args args [TString] TString"
| "func_type Length args = expect_args args [TString] TInt64"
| "func_type Substr args =
     (if args = [TString, TInt64] \<or> args = [TString, TInt64, TInt64] then eret TString
      else efail (Plan ''no such signature''))"
| "func_type Concat args = expect_args args [TString, TString] TString"
| "func_type (RegexpMatch re) args = expect_args args [TString] TBool"
| "func_type (DateTrunc unit) args = expect_args args [TTimestamp] TTimestamp"
| "func_type (TimeBucket width_ns origin_ns) args =
     ebind (expect_args args [TTimestamp] TTimestamp)
       (\<lambda>ty. if sint width_ns \<le> 0 then efail (Plan ''time_bucket width_ns must be positive'') else eret ty)"
| "func_type (Extract part) args =
     (if args = [TTimestamp] \<or> args = [TDate] then eret TInt64 else efail (Plan ''no such signature''))"
| "func_type CoalesceText args =
     (case args of
        [_, t] \<Rightarrow> if t = TString then eret TString else efail (Plan ''coalesce_text companion must be STRING'')
      | _ \<Rightarrow> efail (Plan ''no such signature''))"

text \<open>The loops of \<open>data_type\<close> over operands, branches and arguments, on the types found for them.\<close>

fun all_bool :: "data_type exec list \<Rightarrow> data_type exec" where
  "all_bool [] = eret TBool"
| "all_bool (t # ts) = ebind t (\<lambda>ty. if ty \<noteq> TBool then efail (Plan ''AND/OR operand must be BOOL'') else all_bool ts)"

fun case_type :: "(data_type exec \<times> data_type exec) list \<Rightarrow> data_type option \<Rightarrow> data_type option exec" where
  "case_type [] result = eret result"
| "case_type ((cond, res) # bs) result =
     ebind cond (\<lambda>ct. if ct \<noteq> TBool then efail (Plan ''CASE condition must be BOOL'')
       else ebind res (\<lambda>rt.
         case result of
           None \<Rightarrow> case_type bs (Some rt)
         | Some prev \<Rightarrow> if prev = rt then case_type bs result else efail (Plan ''CASE results disagree'')))"

fun collect_exec :: "'a exec list \<Rightarrow> 'a list exec" where
  "collect_exec [] = eret []"
| "collect_exec (x # xs) = ebind x (\<lambda>y. ebind (collect_exec xs) (\<lambda>ys. eret (y # ys)))"

lemma size_list_mem: "x \<in> set xs \<Longrightarrow> size x < size_list size xs"
  by (induction xs) auto

lemma size_pair_list1: "(c, r) \<in> set bs \<Longrightarrow> size c < size_list (size_prod size size) bs"
  and size_pair_list2: "(c, r) \<in> set bs \<Longrightarrow> size r < size_list (size_prod size size) bs"
  by (induction bs) auto

function expr_type :: "field list \<Rightarrow> expr \<Rightarrow> data_type exec" where
  "expr_type input (EColumn i) =
     (if i < length input then eret (fd_ty (input ! i)) else efail (Plan ''column index out of range''))"
| "expr_type input (ELiteral v ty) =
     (if \<not> is_null v \<and> \<not> fits v ty then efail (Plan ''literal does not losslessly fit'') else eret ty)"
| "expr_type input (ECmp op l r) =
     ebind (expr_type input l) (\<lambda>lt. ebind (expr_type input r) (\<lambda>rt.
       if \<not> same_kind lt rt then efail (Plan ''comparison operands are not the same kind'') else eret TBool))"
| "expr_type input (EAnd parts) =
     (if parts = [] then efail (Plan ''AND/OR needs at least one operand'') else all_bool (map (expr_type input) parts))"
| "expr_type input (EOr parts) =
     (if parts = [] then efail (Plan ''AND/OR needs at least one operand'') else all_bool (map (expr_type input) parts))"
| "expr_type input (ENot e) =
     ebind (expr_type input e) (\<lambda>t. if t \<noteq> TBool then efail (Plan ''NOT operand must be BOOL'') else eret TBool)"
| "expr_type input (EIsNull e) = ebind (expr_type input e) (\<lambda>_. eret TBool)"
| "expr_type input (EIsNotNull e) = ebind (expr_type input e) (\<lambda>_. eret TBool)"
| "expr_type input (EInList e vals negated) =
     ebind (expr_type input e) (\<lambda>t.
       if (\<exists>v \<in> set vals. \<not> is_null v \<and> \<not> fits v t) then efail (Plan ''IN LIST value does not fit'') else eret TBool)"
| "expr_type input (EBetween e low high negated) =
     ebind (expr_type input e) (\<lambda>t. ebind (expr_type input low) (\<lambda>lt. ebind (expr_type input high) (\<lambda>ht.
       if \<not> same_kind t lt \<or> \<not> same_kind t ht then efail (Plan ''BETWEEN bounds must be the same kind'') else eret TBool)))"
| "expr_type input (ELike e pattern case_insensitive negated) =
     ebind (expr_type input e) (\<lambda>t. if t \<noteq> TString then efail (Plan ''LIKE operand must be STRING'') else eret TBool)"
| "expr_type input (EArith op l r) =
     ebind (expr_type input l) (\<lambda>lt. ebind (expr_type input r) (\<lambda>rt. arith_type op lt rt))"
| "expr_type input (ENeg e) =
     ebind (expr_type input e) (\<lambda>t.
       case t of TInt64 \<Rightarrow> eret t | TFloat64 \<Rightarrow> eret t | TDecimal _ \<Rightarrow> eret t | _ \<Rightarrow> efail (Plan ''NEG does not apply''))"
| "expr_type input (ECase branches otherwise) =
     (if branches = [] then efail (Plan ''CASE needs at least one branch'')
      else ebind (case_type (map (\<lambda>(cond, res). (expr_type input cond, expr_type input res)) branches) None) (\<lambda>result.
        case result of
          None \<Rightarrow> None
        | Some result_ty \<Rightarrow>
            (case otherwise of
               None \<Rightarrow> eret result_ty
             | Some e \<Rightarrow> ebind (expr_type input e) (\<lambda>ot.
                 if ot \<noteq> result_ty then efail (Plan ''CASE ELSE disagrees'') else eret result_ty))))"
| "expr_type input (ECast e to) =
     ebind (expr_type input e) (\<lambda>from. if castable from to then eret to else efail (Plan ''cannot cast''))"
| "expr_type input (EFunc f args) =
     ebind (collect_exec (map (expr_type input) args)) (\<lambda>arg_types. func_type f arg_types)"
  by pat_completeness auto
termination
  by (relation "measure (\<lambda>(input, e). size e)")
    (auto simp: less_Suc_eq_le intro!: less_imp_le dest: size_list_mem size_pair_list1 size_pair_list2 intro: trans_less_add1)

section \<open>Structure\<close>

fun push_conjuncts :: "expr \<Rightarrow> expr list" where
  "push_conjuncts (EAnd parts) = concat (map push_conjuncts parts)"
| "push_conjuncts e = [e]"

definition conjuncts :: "expr \<Rightarrow> expr list" where
  "conjuncts e = push_conjuncts e"

function expr_columns :: "expr \<Rightarrow> nat list" where
  "expr_columns (EColumn i) = [i]"
| "expr_columns (ELiteral v ty) = []"
| "expr_columns (ECmp op l r) = expr_columns l @ expr_columns r"
| "expr_columns (EArith op l r) = expr_columns l @ expr_columns r"
| "expr_columns (EAnd parts) = concat (map expr_columns parts)"
| "expr_columns (EOr parts) = concat (map expr_columns parts)"
| "expr_columns (ENot e) = expr_columns e"
| "expr_columns (EIsNull e) = expr_columns e"
| "expr_columns (EIsNotNull e) = expr_columns e"
| "expr_columns (ENeg e) = expr_columns e"
| "expr_columns (EInList e vals negated) = expr_columns e"
| "expr_columns (EBetween e low high negated) = expr_columns e @ expr_columns low @ expr_columns high"
| "expr_columns (ELike e pattern case_insensitive negated) = expr_columns e"
| "expr_columns (ECase branches otherwise) =
     concat (map (\<lambda>(cond, res). expr_columns cond @ expr_columns res) branches) @
     (case otherwise of None \<Rightarrow> [] | Some e \<Rightarrow> expr_columns e)"
| "expr_columns (ECast e to) = expr_columns e"
| "expr_columns (EFunc f args) = concat (map expr_columns args)"
  by pat_completeness auto
termination
  by (relation "measure size")
    (auto simp: less_Suc_eq_le intro!: less_imp_le dest: size_list_mem size_pair_list1 size_pair_list2 intro: trans_less_add1)

section \<open>Well-formed batches\<close>

lemma check_types_None: "check_types fcs = None \<longleftrightarrow> (\<forall>(f, c) \<in> set fcs. col_ty c = fd_ty f)"
  by (induction fcs rule: check_types.induct) auto

lemma check_rows_None: "check_rows rows fcs = None \<longleftrightarrow> (\<forall>(f, c) \<in> set fcs. col_len c = rows)"
  by (induction rows fcs rule: check_rows.induct) auto

lemma check_names_None: "check_names before fs = None \<longleftrightarrow> distinct (map fd_name fs) \<and> set before \<inter> fd_name ` set fs = {}"
  by (induction before fs rule: check_names.induct) auto

lemma batch_new_wf:
  assumes "batch_new fs cs = Inr b" "\<forall>c \<in> set cs. col_wf c"
  shows "batch_wf b \<and> bt_fields b = fs \<and> bt_columns b = cs"
proof -
  have l: "length fs = length cs" using assms(1) by (auto simp: batch_new_def split: if_splits)
  define rows where "rows = (case cs of [] \<Rightarrow> 0 | c # _ \<Rightarrow> col_len c)"
  have c: "check_types (zip fs cs) = None" "check_rows rows (zip fs cs) = None" "check_names [] fs = None"
    and b: "b = \<lparr>bt_fields = fs, bt_columns = cs, bt_rows = rows\<rparr>"
    using assms(1) l by (auto simp: batch_new_def rows_def [symmetric] Let_def split: option.splits)
  have "col_ty (cs ! i) = fd_ty (fs ! i) \<and> col_len (cs ! i) = rows" if "i < length cs" for i
  proof -
    have "(fs ! i, cs ! i) \<in> set (zip fs cs)" using that l by (auto simp: set_zip)
    then show ?thesis using c(1,2) unfolding check_types_None check_rows_None by blast
  qed
  then show ?thesis using l c(3) b assms(2) by (auto simp: batch_wf_def check_names_None rows_def)
qed

end
