(* ===== verification/Eval.thy ===== *)
theory Eval
  imports Expr
begin

text \<open>
  Evaluation of an expression over a batch (\<open>src/exec/expr/eval.rs\<close>). Typing runs first, at
  every level, so that an ill-typed plan fails before any work. The kernels of arithmetic,
  negation, casts and named functions, which this development does not define, and the
  Unicode lower-casing of ILIKE are the fields of a record that evaluation is given; what is
  proved of evaluation holds for all of them.
\<close>

section \<open>Model\<close>

record kernels =
  k_arith :: "arith_op \<Rightarrow> column \<Rightarrow> column \<Rightarrow> data_type \<Rightarrow> column exec"
  k_neg :: "column \<Rightarrow> column exec"
  k_cast :: "column \<Rightarrow> data_type \<Rightarrow> column exec"
  k_func :: "scalar_func \<Rightarrow> column list \<Rightarrow> nat \<Rightarrow> column exec"
  k_lower :: "nat \<Rightarrow> nat list"

text \<open>The loops that push one value per row, with \<open>?\<close> on every push.\<close>

fun push_rows :: "(nat \<Rightarrow> val option) \<Rightarrow> nat list \<Rightarrow> builder \<Rightarrow> builder exec" where
  "push_rows f [] b = eret b"
| "push_rows f (i # is) b =
     (case f i of
        None \<Rightarrow> None
      | Some v \<Rightarrow>
          (case push v b of
             None \<Rightarrow> None
           | Some (Inl e, _) \<Rightarrow> efail (plan_of_column_error e)
           | Some (Inr _, b') \<Rightarrow> push_rows f is b'))"

definition literal_column :: "val \<Rightarrow> data_type \<Rightarrow> nat \<Rightarrow> column exec" where
  "literal_column v ty rows =
     ebind (push_rows (\<lambda>_. Some v) [0..<rows] (with_capacity ty)) (\<lambda>b. eret (builder_finish b))"

fun push_nulls :: "nat \<Rightarrow> builder \<Rightarrow> builder option" where
  "push_nulls 0 b = Some b"
| "push_nulls (Suc n) b = (case push_null b of None \<Rightarrow> None | Some b' \<Rightarrow> push_nulls n b')"

definition null_column :: "data_type \<Rightarrow> nat \<Rightarrow> column option" where
  "null_column ty rows = map_option builder_finish (push_nulls rows (with_capacity ty))"

definition eval_cmp :: "cmp_op \<Rightarrow> expr \<Rightarrow> expr \<Rightarrow> column exec \<Rightarrow> column exec \<Rightarrow> column exec" where
  "eval_cmp op l r lc rc =
     (case l of
        ELiteral v _ \<Rightarrow> ebind rc (\<lambda>rc. compare_scalar rc (cmp_flip op) v)
      | _ \<Rightarrow>
          (case r of
             ELiteral v _ \<Rightarrow> ebind lc (\<lambda>lc. compare_scalar lc op v)
           | _ \<Rightarrow> ebind lc (\<lambda>lc. ebind rc (\<lambda>rc. compare lc op rc))))"

fun fold_loop :: "(column \<Rightarrow> column \<Rightarrow> column option) \<Rightarrow> column \<Rightarrow> column exec list \<Rightarrow> column exec" where
  "fold_loop f acc [] = eret acc"
| "fold_loop f acc (p # ps) = ebind p (\<lambda>c. ebind (expect (f acc c)) (\<lambda>acc. fold_loop f acc ps))"

definition eval_fold :: "(column \<Rightarrow> column \<Rightarrow> column option) \<Rightarrow> column exec list \<Rightarrow> column exec" where
  "eval_fold f parts = (case parts of [] \<Rightarrow> None | p # ps \<Rightarrow> ebind p (\<lambda>acc. fold_loop f acc ps))"

definition is_null_column :: "column \<Rightarrow> bool \<Rightarrow> column option" where
  "is_null_column c want_not_null =
     (case those (map (col_is_null c) [0..<col_len c]) of
        None \<Rightarrow> None
      | Some ns \<Rightarrow> bool_column (fold (\<lambda>n bm. bm_push bm (n \<noteq> want_not_null)) ns (bm_new_valid 0)) None)"

fun in_list_loop :: "column \<Rightarrow> val list \<Rightarrow> column option \<Rightarrow> column option exec" where
  "in_list_loop col [] acc = eret acc"
| "in_list_loop col (v # vs) acc =
     ebind (compare_scalar col Eq v) (\<lambda>eq.
       case acc of
         None \<Rightarrow> in_list_loop col vs (Some eq)
       | Some prev \<Rightarrow> ebind (expect (col_or prev eq)) (\<lambda>c. in_list_loop col vs (Some c)))"

definition negate_if :: "bool \<Rightarrow> column \<Rightarrow> column exec" where
  "negate_if negated result = (if negated then expect (col_not result) else eret result)"

definition eval_in_list :: "column exec \<Rightarrow> val list \<Rightarrow> bool \<Rightarrow> column exec" where
  "eval_in_list col vals negated =
     ebind col (\<lambda>col. ebind (in_list_loop col vals None) (\<lambda>acc.
       ebind (case acc of None \<Rightarrow> expect (bool_column (bm_new_null (col_len col)) None) | Some c \<Rightarrow> eret c)
         (negate_if negated)))"

fun eval_branches :: "(column exec \<times> column exec) list \<Rightarrow> (bitmap \<times> column) list exec" where
  "eval_branches [] = eret []"
| "eval_branches ((cond, res) # bs) =
     ebind cond (\<lambda>c. ebind (expect (truthy c)) (\<lambda>t. ebind res (\<lambda>r. ebind (eval_branches bs) (\<lambda>rest. eret ((t, r) # rest)))))"

fun pick_branch :: "nat \<Rightarrow> (bitmap \<times> column) list \<Rightarrow> column \<Rightarrow> val option" where
  "pick_branch row [] otherwise = col_get otherwise row"
| "pick_branch row ((cond, res) # bs) otherwise =
     (case bm_get cond row of
        None \<Rightarrow> None
      | Some True \<Rightarrow> col_get res row
      | Some False \<Rightarrow> pick_branch row bs otherwise)"

definition eval_case :: "(column exec \<times> column exec) list \<Rightarrow> column exec \<Rightarrow> data_type \<Rightarrow> nat \<Rightarrow> column exec" where
  "eval_case branches otherwise ty rows =
     ebind (eval_branches branches) (\<lambda>bs. ebind otherwise (\<lambda>other.
       ebind (push_rows (\<lambda>row. pick_branch row bs other) [0..<rows] (with_capacity ty)) (\<lambda>b. eret (builder_finish b))))"

function eval :: "kernels \<Rightarrow> batch \<Rightarrow> expr \<Rightarrow> column exec" where
  "eval K batch (EColumn i) =
     ebind (expr_type (bt_fields batch) (EColumn i)) (\<lambda>ty. expect (nth_opt (bt_columns batch) i))"
| "eval K batch (ELiteral v t) =
     ebind (expr_type (bt_fields batch) (ELiteral v t)) (\<lambda>ty. literal_column v ty (bt_rows batch))"
| "eval K batch (ECmp op l r) =
     ebind (expr_type (bt_fields batch) (ECmp op l r)) (\<lambda>ty. eval_cmp op l r (eval K batch l) (eval K batch r))"
| "eval K batch (EAnd parts) =
     ebind (expr_type (bt_fields batch) (EAnd parts)) (\<lambda>ty. eval_fold col_and (map (eval K batch) parts))"
| "eval K batch (EOr parts) =
     ebind (expr_type (bt_fields batch) (EOr parts)) (\<lambda>ty. eval_fold col_or (map (eval K batch) parts))"
| "eval K batch (ENot e) =
     ebind (expr_type (bt_fields batch) (ENot e)) (\<lambda>ty. ebind (eval K batch e) (\<lambda>c. expect (col_not c)))"
| "eval K batch (EIsNull e) =
     ebind (expr_type (bt_fields batch) (EIsNull e)) (\<lambda>ty. ebind (eval K batch e) (\<lambda>c. expect (is_null_column c False)))"
| "eval K batch (EIsNotNull e) =
     ebind (expr_type (bt_fields batch) (EIsNotNull e)) (\<lambda>ty. ebind (eval K batch e) (\<lambda>c. expect (is_null_column c True)))"
| "eval K batch (EInList e vals negated) =
     ebind (expr_type (bt_fields batch) (EInList e vals negated)) (\<lambda>ty. eval_in_list (eval K batch e) vals negated)"
| "eval K batch (EBetween e low high negated) =
     ebind (expr_type (bt_fields batch) (EBetween e low high negated)) (\<lambda>ty.
       ebind (eval_cmp Ge e low (eval K batch e) (eval K batch low)) (\<lambda>ge_low.
       ebind (eval_cmp Le e high (eval K batch e) (eval K batch high)) (\<lambda>le_high.
       ebind (expect (col_and ge_low le_high)) (negate_if negated))))"
| "eval K batch (ELike e pattern case_insensitive negated) =
     ebind (expr_type (bt_fields batch) (ELike e pattern case_insensitive negated)) (\<lambda>ty.
       ebind (eval K batch e) (\<lambda>c. ebind (like (k_lower K) c pattern case_insensitive) (negate_if negated)))"
| "eval K batch (EArith op l r) =
     ebind (expr_type (bt_fields batch) (EArith op l r)) (\<lambda>ty.
       ebind (eval K batch l) (\<lambda>lc. ebind (eval K batch r) (\<lambda>rc. k_arith K op lc rc ty)))"
| "eval K batch (ENeg e) =
     ebind (expr_type (bt_fields batch) (ENeg e)) (\<lambda>ty. ebind (eval K batch e) (k_neg K))"
| "eval K batch (ECase branches otherwise) =
     ebind (expr_type (bt_fields batch) (ECase branches otherwise)) (\<lambda>ty.
       eval_case (map (\<lambda>(cond, res). (eval K batch cond, eval K batch res)) branches)
         (case otherwise of None \<Rightarrow> expect (null_column ty (bt_rows batch)) | Some e \<Rightarrow> eval K batch e) ty (bt_rows batch))"
| "eval K batch (ECast e to) =
     ebind (expr_type (bt_fields batch) (ECast e to)) (\<lambda>ty. ebind (eval K batch e) (\<lambda>c. k_cast K c ty))"
| "eval K batch (EFunc f args) =
     ebind (expr_type (bt_fields batch) (EFunc f args)) (\<lambda>ty.
       ebind (collect_exec (map (eval K batch) args)) (\<lambda>cols. k_func K f cols (bt_rows batch)))"
  by pat_completeness auto
termination
  by (relation "measure (\<lambda>(K, batch, e). size e)")
    (auto simp: less_Suc_eq_le intro!: less_imp_le dest: size_list_mem size_pair_list1 size_pair_list2 intro: trans_less_add1)

end
