(* ===== verification/Skip_Index.thy ===== *)
theory Skip_Index
  imports Value_Codec Checksum Sorting_By Column "HOL-Library.List_Lexorder"
begin

text \<open>
  The skip structures of a segment (\<open>storage/segment/index/\<close>): BLOOM, VALUE_SET and NGRAM, how
  they are built over a column, stored, loaded and probed.
\<close>

unbundle bit_operations_syntax

section \<open>Bloom filters\<close>

record bloom =
  bl_k :: byte
  bl_log2 :: byte
  bl_words :: "u64 list"
  bl_ty :: data_type

definition BLOOM_K :: byte where "BLOOM_K = 7"
definition MIN_LOG2_BITS :: nat where "MIN_LOG2_BITS = 9"
definition MAX_LOG2_BITS :: nat where "MAX_LOG2_BITS = 20"

definition bloom_bits :: "bloom \<Rightarrow> u64" where
  "bloom_bits bl = push_bit (unat (bl_log2 bl)) 1"

definition bloom_probe :: "byte list \<Rightarrow> byte \<Rightarrow> u64 \<Rightarrow> u64 list" where
  "bloom_probe bytes k bits =
     (let h1 = xxh64 bytes 0; h2 = xxh64 bytes 1 OR 1
      in map (\<lambda>i. (h1 + word_of_nat i * h2) AND (bits - 1)) [0..<unat k])"

text \<open>An index past the words panics: \<open>None\<close>.\<close>

fun set_bits :: "u64 list \<Rightarrow> u64 list \<Rightarrow> u64 list option" where
  "set_bits words [] = Some words"
| "set_bits words (b # bs) =
     (let i = unat b div 64
      in if i < length words then set_bits (words[i := words ! i OR push_bit (unat b mod 64) 1]) bs else None)"

definition insert_bytes :: "byte list \<Rightarrow> bloom \<Rightarrow> bloom option" where
  "insert_bytes bytes bl =
     map_option (\<lambda>ws. bl\<lparr>bl_words := ws\<rparr>) (set_bits (bl_words bl) (bloom_probe bytes (bl_k bl) (bloom_bits bl)))"

fun test_bits :: "u64 list \<Rightarrow> u64 list \<Rightarrow> bool option" where
  "test_bits words [] = Some True"
| "test_bits words (b # bs) =
     (let i = unat b div 64
      in if i < length words
         then if words ! i AND push_bit (unat b mod 64) 1 \<noteq> 0 then test_bits words bs else Some False
         else None)"

definition test_bytes :: "bloom \<Rightarrow> byte list \<Rightarrow> bool option" where
  "test_bytes bl bytes = test_bits (bl_words bl) (bloom_probe bytes (bl_k bl) (bloom_bits bl))"

function size_loop :: "nat \<Rightarrow> nat \<Rightarrow> nat" where
  "size_loop want log2 = (if 2 ^ log2 < want \<and> log2 < MAX_LOG2_BITS then size_loop want (log2 + 1) else log2)"
  by pat_completeness auto
termination by (relation "measure (\<lambda>(_, log2). MAX_LOG2_BITS - log2)") auto

declare size_loop.simps [simp del]

definition size_log2 :: "nat \<Rightarrow> byte" where
  "size_log2 distinct_keys =
     word_of_nat (size_loop (max (min (10 * distinct_keys) (2 ^ 64 - 1)) (2 ^ MIN_LOG2_BITS)) MIN_LOG2_BITS)"

definition bloom_empty :: "data_type \<Rightarrow> nat \<Rightarrow> bloom" where
  "bloom_empty ty distinct_keys =
     (let log2 = size_log2 distinct_keys
      in \<lparr>bl_k = BLOOM_K, bl_log2 = log2, bl_words = replicate (2 ^ unat log2 div 64) 0, bl_ty = ty\<rparr>)"

fun insert_keys :: "byte list list \<Rightarrow> bloom \<Rightarrow> bloom option" where
  "insert_keys [] bl = Some bl"
| "insert_keys (k # ks) bl = (case insert_bytes k bl of None \<Rightarrow> None | Some bl' \<Rightarrow> insert_keys ks bl')"

text \<open>The non-null rows of a column, \<open>None\<close> where \<open>get\<close> panics.\<close>

definition non_null_rows :: "column \<Rightarrow> val list option" where
  "non_null_rows col =
     those (map (col_get col) (filter (\<lambda>i. col_is_null col i = Some False) [0..<col_len col]))"

definition bloom_of_keys :: "data_type \<Rightarrow> byte list list \<Rightarrow> bloom option" where
  "bloom_of_keys ty keys = (let ks = remdups_adj (sort keys) in insert_keys ks (bloom_empty ty (length ks)))"

definition bloom_build :: "column \<Rightarrow> bloom option" where
  "bloom_build col =
     (case non_null_rows col of
        None \<Rightarrow> None
      | Some vs \<Rightarrow>
          (case those (map (\<lambda>v. value_bytes v (col_ty col)) vs) of
             None \<Rightarrow> None
           | Some keys \<Rightarrow> bloom_of_keys (col_ty col) keys))"

fun value_matches :: "val \<Rightarrow> data_type \<Rightarrow> bool" where
  "value_matches (VBool _) ty = (ty = TBool)"
| "value_matches (VInt64 _) ty = (ty = TInt64)"
| "value_matches (VUInt64 _) ty = (ty = TUInt64)"
| "value_matches (VFloat64 _) ty = (ty = TFloat64)"
| "value_matches (VDecimal _) ty = (case ty of TDecimal _ \<Rightarrow> True | _ \<Rightarrow> False)"
| "value_matches (VString _) ty = (ty = TString)"
| "value_matches (VBytes _) ty = (ty = TBytes)"
| "value_matches (VTimestamp _) ty = (ty = TTimestamp)"
| "value_matches (VDate _) ty = (ty = TDate)"
| "value_matches (VUuid _) ty = (ty = TUuid)"
| "value_matches (VIp _) ty = (ty = TIp)"
| "value_matches _ ty = False"

definition bloom_might_contain :: "bloom \<Rightarrow> val \<Rightarrow> bool option" where
  "bloom_might_contain bl v =
     (if is_null v \<or> \<not> value_matches v (bl_ty bl) then Some True
      else case value_bytes v (bl_ty bl) of None \<Rightarrow> None | Some b \<Rightarrow> test_bytes bl b)"

definition bloom_encode :: "bloom \<Rightarrow> byte list" where
  "bloom_encode bl = fold sink_u64 (bl_words bl) (sink_u8 (bl_log2 bl) (sink_u8 (bl_k bl) sink_new))"

definition bloom_load :: "data_type \<Rightarrow> byte list \<Rightarrow> decode_error + bloom" where
  "bloom_load ty blob =
     (case rbind cur_u8 (\<lambda>k.
        if \<not> (1 \<le> k \<and> k \<le> 16) then rerr (Malformed ''bloom k out of range'')
        else rbind cur_u8 (\<lambda>log2.
        if \<not> (9 \<le> log2 \<and> log2 \<le> 20) then rerr (Malformed ''bloom log2_bits out of range'')
        else rbind (cur_guard_len (push_bit (unat log2) 1 div 64) 8) (\<lambda>nwords.
        rbind (read_n cur_u64 nwords) (\<lambda>words c.
        if \<not> cur_is_empty c then Inl (Malformed ''bloom blob has trailing bytes'')
        else Inr (\<lparr>bl_k = k, bl_log2 = log2, bl_words = words, bl_ty = ty\<rparr>, c))))) (cur_new blob) of
        Inl e \<Rightarrow> Inl e
      | Inr (bl, _) \<Rightarrow> Inr bl)"

section \<open>Value sets\<close>

definition VALUE_SET_MAX :: nat where "VALUE_SET_MAX = 256"

record value_set =
  vs_ty :: data_type
  vs_values :: "val list"

text \<open>
  The sort compares with \<open>total_cmp\<close> and panics where that gives nothing: \<open>None\<close> when some pair
  of the values does not compare. The outer option of \<open>set_build\<close> is the panic, the inner one
  the column with too many values.
\<close>

definition comparable :: "val list \<Rightarrow> bool" where
  "comparable vs \<longleftrightarrow> (\<forall>a \<in> set vs. \<forall>b \<in> set vs. total_cmp a b \<noteq> None)"

definition set_build :: "column \<Rightarrow> value_set option option" where
  "set_build col =
     (case non_null_rows col of
        None \<Rightarrow> None
      | Some vs \<Rightarrow>
          if \<not> comparable vs then None
          else let uniq = dedup_by (\<lambda>a b. total_cmp a b = Some Equal) (sort_by (\<lambda>a b. total_cmp a b \<noteq> Some Greater) vs)
               in Some (if length uniq > VALUE_SET_MAX then None else Some \<lparr>vs_ty = col_ty col, vs_values = uniq\<rparr>))"

definition set_might_contain :: "value_set \<Rightarrow> val \<Rightarrow> bool option" where
  "set_might_contain s v =
     (if is_null v \<or> \<not> value_matches v (vs_ty s) then Some True
      else if \<exists>x \<in> set (vs_values s). total_cmp x v = None then None
      else Some (binary_search_by (\<lambda>x. the (total_cmp x v)) (vs_values s)))"

fun encode_values_of :: "data_type \<Rightarrow> val list \<Rightarrow> sink \<Rightarrow> sink option" where
  "encode_values_of ty [] out = Some out"
| "encode_values_of ty (v # vs) out =
     (case encode_value v ty out of None \<Rightarrow> None | Some out' \<Rightarrow> encode_values_of ty vs out')"

definition set_encode :: "value_set \<Rightarrow> byte list option" where
  "set_encode s = encode_values_of (vs_ty s) (vs_values s) (sink_count (length (vs_values s)) sink_new)"

definition set_load :: "data_type \<Rightarrow> byte list \<Rightarrow> decode_error + value_set" where
  "set_load ty blob =
     (case rbind cur_uvarint (\<lambda>n. rbind (cur_guard_len n 1) (\<lambda>n. rbind (read_n (decode_value ty) n) (\<lambda>vs c.
        if \<not> cur_is_empty c then Inl (Malformed ''value set blob has trailing bytes'')
        else if \<exists>(a, b) \<in> set (zip vs (tl vs)). total_cmp a b \<noteq> Some Less
             then Inl (Malformed ''value set is not strictly increasing'')
        else Inr (\<lparr>vs_ty = ty, vs_values = vs\<rparr>, c)))) (cur_new blob) of
        Inl e \<Rightarrow> Inl e
      | Inr (s, _) \<Rightarrow> Inr s)"

section \<open>N-grams\<close>

definition windows3 :: "byte list \<Rightarrow> byte list list" where
  "windows3 b = map (\<lambda>i. take 3 (drop i b)) [0..<length b - 2]"

fun string_bytes :: "val \<Rightarrow> byte list option" where
  "string_bytes (VString s) = Some s"
| "string_bytes _ = None"

definition ngram_build :: "column \<Rightarrow> bloom option" where
  "ngram_build col =
     (case non_null_rows col of
        None \<Rightarrow> None
      | Some vs \<Rightarrow>
          (case those (map string_bytes vs) of
             None \<Rightarrow> None
           | Some ss \<Rightarrow> bloom_of_keys TString (concat (map windows3 ss))))"

fun test_all :: "bloom \<Rightarrow> byte list list \<Rightarrow> bool option" where
  "test_all bl [] = Some True"
| "test_all bl (w # ws) =
     (case test_bytes bl w of None \<Rightarrow> None | Some True \<Rightarrow> test_all bl ws | Some False \<Rightarrow> Some False)"

definition ngram_might_contain_substring :: "bloom \<Rightarrow> byte list \<Rightarrow> bool option" where
  "ngram_might_contain_substring bl s = (if length s < 3 then Some True else test_all bl (windows3 s))"

section \<open>The three kinds\<close>

datatype index_kind = KBloom | KValueSet | KNgram

fun index_kind_id :: "index_kind \<Rightarrow> u64" where
  "index_kind_id KBloom = 1"
| "index_kind_id KValueSet = 2"
| "index_kind_id KNgram = 3"

definition index_kind_from_id :: "u64 \<Rightarrow> index_kind option" where
  "index_kind_from_id i = (if i = 1 then Some KBloom else if i = 2 then Some KValueSet else if i = 3 then Some KNgram else None)"

fun index_applies_to :: "index_kind \<Rightarrow> data_type \<Rightarrow> bool" where
  "index_applies_to KNgram ty = (ty = TString)"
| "index_applies_to _ ty = (case ty of TList _ \<Rightarrow> False | _ \<Rightarrow> True)"

datatype skip_index = SBloom bloom | SValueSet value_set | SNgram bloom

fun skip_kind :: "skip_index \<Rightarrow> index_kind" where
  "skip_kind (SBloom _) = KBloom"
| "skip_kind (SValueSet _) = KValueSet"
| "skip_kind (SNgram _) = KNgram"

fun might_contain :: "skip_index \<Rightarrow> val \<Rightarrow> bool option" where
  "might_contain (SBloom b) v = bloom_might_contain b v"
| "might_contain (SValueSet s) v = set_might_contain s v"
| "might_contain (SNgram _) v = Some True"

fun might_contain_substring :: "skip_index \<Rightarrow> byte list \<Rightarrow> bool option" where
  "might_contain_substring (SNgram n) s = ngram_might_contain_substring n s"
| "might_contain_substring _ s = Some True"

text \<open>The outer option is a panic, the inner one an index that is not built.\<close>

definition index_build :: "index_kind \<Rightarrow> column \<Rightarrow> byte list option option" where
  "index_build kind col =
     (if \<not> index_applies_to kind (col_ty col) then Some None
      else case kind of
        KBloom \<Rightarrow> map_option (\<lambda>b. Some (bloom_encode b)) (bloom_build col)
      | KValueSet \<Rightarrow>
          (case set_build col of
             None \<Rightarrow> None
           | Some None \<Rightarrow> Some None
           | Some (Some s) \<Rightarrow> map_option Some (set_encode s))
      | KNgram \<Rightarrow> map_option (\<lambda>b. Some (bloom_encode b)) (ngram_build col))"

definition rmap_sum :: "('a \<Rightarrow> 'b) \<Rightarrow> 'e + 'a \<Rightarrow> 'e + 'b" where
  "rmap_sum f r = (case r of Inl e \<Rightarrow> Inl e | Inr x \<Rightarrow> Inr (f x))"

definition index_load :: "index_kind \<Rightarrow> data_type \<Rightarrow> byte list \<Rightarrow> decode_error + skip_index" where
  "index_load kind ty blob =
     (case kind of
        KBloom \<Rightarrow> rmap_sum SBloom (bloom_load ty blob)
      | KValueSet \<Rightarrow> rmap_sum SValueSet (set_load ty blob)
      | KNgram \<Rightarrow> rmap_sum SNgram (bloom_load TString blob))"

section \<open>Bits of a bloom filter\<close>

definition bloom_wf :: "bloom \<Rightarrow> bool" where
  "bloom_wf bl \<longleftrightarrow> 1 \<le> bl_k bl \<and> bl_k bl \<le> 16 \<and> 9 \<le> bl_log2 bl \<and> bl_log2 bl \<le> 20 \<and>
     64 * length (bl_words bl) = 2 ^ unat (bl_log2 bl)"

lemma bloom_wf_log2: "bloom_wf bl \<Longrightarrow> 9 \<le> unat (bl_log2 bl) \<and> unat (bl_log2 bl) \<le> 20"
  by (simp add: bloom_wf_def word_le_nat_alt)

lemma probe_range:
  assumes "bloom_wf bl" "b \<in> set (bloom_probe bytes (bl_k bl) (bloom_bits bl))"
  shows "unat b div 64 < length (bl_words bl)"
proof -
  let ?n = "unat (bl_log2 bl)"
  have n: "?n \<le> 20" using bloom_wf_log2 [OF assms(1)] by simp
  obtain h where "b = h AND (bloom_bits bl - 1)" using assms(2) by (auto simp: bloom_probe_def Let_def)
  then have "b = take_bit ?n h" by (simp add: bloom_bits_def take_bit_eq_mask mask_eq_exp_minus_1 push_bit_eq_mult)
  then have "unat b < 2 ^ ?n" using unat_take_bit_less by metis
  also have "2 ^ ?n = 64 * length (bl_words bl)" using assms(1) by (simp add: bloom_wf_def)
  finally show ?thesis by (simp add: div_less_iff_less_mult mult.commute)
qed

lemma set_bits_spec:
  assumes "\<forall>b \<in> set bs. unat b div 64 < length ws"
  shows "\<exists>ws'. set_bits ws bs = Some ws' \<and> length ws' = length ws \<and>
    (\<forall>p. words_bit ws' p \<longleftrightarrow> words_bit ws p \<or> p \<in> unat ` set bs)"
  using assms
proof (induction bs arbitrary: ws)
  case (Cons b bs)
  let ?i = "unat b div 64"
  let ?ws = "ws[?i := ws ! ?i OR push_bit (unat b mod 64) 1]"
  have i: "?i < length ws" using Cons.prems by simp
  have "\<exists>ws'. set_bits ?ws bs = Some ws' \<and> length ws' = length ?ws \<and>
      (\<forall>p. words_bit ws' p \<longleftrightarrow> words_bit ?ws p \<or> p \<in> unat ` set bs)"
    by (rule Cons.IH) (use Cons.prems in simp)
  moreover have "words_bit ?ws p \<longleftrightarrow> words_bit ws p \<or> p = unat b" for p
  proof -
    have "p = unat b \<longleftrightarrow> p div 64 = ?i \<and> p mod 64 = unat b mod 64" by (metis div_mod_decomp)
    then show ?thesis using i
      by (auto simp: words_bit_def nth_list_update bit_or_iff bit_exp_iff possible_bit_word)
  qed
  ultimately show ?case using i by (auto simp: Let_def)
qed simp

lemma test_bits_spec:
  assumes "\<forall>b \<in> set bs. unat b div 64 < length ws"
  shows "test_bits ws bs = Some (\<forall>b \<in> set bs. words_bit ws (unat b))"
  using assms
proof (induction bs)
  case (Cons b bs)
  have "ws ! (unat b div 64) AND push_bit (unat b mod 64) 1 \<noteq> 0 \<longleftrightarrow> bit (ws ! (unat b div 64)) (unat b mod 64)"
    by (simp add: and_exp_eq_0_iff_not_bit)
  then show ?case using Cons by (auto simp: Let_def words_bit_def)
qed simp

definition key_bits :: "bloom \<Rightarrow> byte list \<Rightarrow> nat set" where
  "key_bits bl k = unat ` set (bloom_probe k (bl_k bl) (bloom_bits bl))"

lemma test_bytes_iff: "bloom_wf bl \<Longrightarrow> test_bytes bl k = Some (\<forall>p \<in> key_bits bl k. words_bit (bl_words bl) p)"
  using test_bits_spec [of "bloom_probe k (bl_k bl) (bloom_bits bl)" "bl_words bl"] probe_range [of bl]
  by (simp add: test_bytes_def key_bits_def)

lemma insert_keys_spec:
  assumes "bloom_wf bl"
  shows "\<exists>bl'. insert_keys ks bl = Some bl' \<and> bloom_wf bl' \<and> bl_ty bl' = bl_ty bl \<and> key_bits bl' = key_bits bl \<and>
    (\<forall>p. words_bit (bl_words bl') p \<longleftrightarrow> words_bit (bl_words bl) p \<or> (\<exists>k \<in> set ks. p \<in> key_bits bl k))"
  using assms
proof (induction ks arbitrary: bl)
  case (Cons k ks)
  obtain ws where ws: "set_bits (bl_words bl) (bloom_probe k (bl_k bl) (bloom_bits bl)) = Some ws" "length ws = length (bl_words bl)"
    "\<And>p. words_bit ws p \<longleftrightarrow> words_bit (bl_words bl) p \<or> p \<in> key_bits bl k"
    using set_bits_spec [of "bloom_probe k (bl_k bl) (bloom_bits bl)" "bl_words bl"] probe_range [OF Cons.prems]
    by (auto simp: key_bits_def)
  let ?bl = "bl\<lparr>bl_words := ws\<rparr>"
  have "bloom_wf ?bl" using Cons.prems ws(2) by (simp add: bloom_wf_def)
  moreover have "key_bits ?bl = key_bits bl" by (simp add: key_bits_def bloom_bits_def fun_eq_iff)
  ultimately show ?case using Cons.IH [of ?bl] ws by (auto simp: insert_bytes_def)
qed simp

lemma size_loop_range: "9 \<le> log2 \<Longrightarrow> log2 \<le> 20 \<Longrightarrow> 9 \<le> size_loop want log2 \<and> size_loop want log2 \<le> 20"
proof (induction want log2 rule: size_loop.induct)
  case (1 want log2)
  then show ?case by (subst (1 2) size_loop.simps) (auto simp: MAX_LOG2_BITS_def)
qed

lemma bloom_empty_wf: "bloom_wf (bloom_empty ty n)" "bl_ty (bloom_empty ty n) = ty"
proof -
  define m where "m = size_loop (max (min (10 * n) (2 ^ 64 - 1)) (2 ^ MIN_LOG2_BITS)) MIN_LOG2_BITS"
  have m: "9 \<le> m" "m \<le> 20" using size_loop_range [of 9] by (simp_all add: m_def MIN_LOG2_BITS_def)
  have "size_log2 n = word_of_nat m" unfolding size_log2_def m_def ..
  then have u: "unat (size_log2 n) = m" using m by (simp add: unat_of_nat)
  have "(2::nat) ^ m = 64 * (2 ^ m div 64)"
  proof -
    have "m = 6 + (m - 6)" using m by simp
    then have "(2::nat) ^ m = 2 ^ 6 * 2 ^ (m - 6)" by (metis power_add)
    then show ?thesis by simp
  qed
  then show "bloom_wf (bloom_empty ty n)" "bl_ty (bloom_empty ty n) = ty"
    using m u by (simp_all add: bloom_wf_def bloom_empty_def Let_def BLOOM_K_def word_le_nat_alt)
qed

lemma bloom_of_keys_spec:
  "\<exists>bl. bloom_of_keys ty keys = Some bl \<and> bloom_wf bl \<and> bl_ty bl = ty \<and> (\<forall>k \<in> set keys. test_bytes bl k = Some True)"
proof -
  define ks where "ks = remdups_adj (sort keys)"
  define e where "e = bloom_empty ty (length ks)"
  have e: "bloom_wf e" "bl_ty e = ty" by (simp_all add: e_def bloom_empty_wf)
  obtain bl where bl: "insert_keys ks e = Some bl" "bloom_wf bl" "bl_ty bl = bl_ty e" "key_bits bl = key_bits e"
    "\<forall>p. words_bit (bl_words bl) p \<longleftrightarrow> words_bit (bl_words e) p \<or> (\<exists>k \<in> set ks. p \<in> key_bits e k)"
    using insert_keys_spec [OF e(1), of ks] by blast
  have "test_bytes bl k = Some True" if "k \<in> set keys" for k
    using that bl(5) by (auto simp: test_bytes_iff [OF bl(2)] bl(4) ks_def)
  then show ?thesis using bl(1,2,3) e(2) by (simp add: bloom_of_keys_def Let_def ks_def e_def)
qed

lemma bloom_load_encode:
  assumes "bloom_wf bl"
  shows "bloom_load (bl_ty bl) (bloom_encode bl) = Inr bl"
proof -
  let ?w = "bl_words bl" and ?n = "unat (bl_log2 bl)"
  have n: "9 \<le> ?n" "?n \<le> 20" using bloom_wf_log2 [OF assms] by simp_all
  have len: "length ?w \<le> MAX_DECODE_ROWS"
  proof -
    have "(2::nat) ^ ?n \<le> 2 ^ 20" using n(2) by (rule power_increasing) simp
    then show ?thesis using assms by (simp add: bloom_wf_def MAX_DECODE_ROWS_def)
  qed
  have wc: "push_bit ?n 1 div 64 = (word_of_nat (length ?w) :: u64)"
  proof (rule word_unat_eq_iff [THEN iffD2])
    have "(2::nat) ^ ?n < 2 ^ 64" using n by (intro power_strict_increasing) simp_all
    then have "unat (word_of_nat (2 ^ ?n) :: u64) = 2 ^ ?n" by (simp add: unat_of_nat del: of_nat_power)
    then have "unat (push_bit ?n 1 :: u64) = 2 ^ ?n" by (simp add: push_bit_eq_mult)
    then show "unat (push_bit ?n 1 div 64 :: u64) = unat (word_of_nat (length ?w) :: u64)"
      using assms len by (auto simp: bloom_wf_def unat_div MAX_DECODE_ROWS_def dest: sym)
  qed
  have bytes: "bloom_encode bl = sink_u8 (bl_k bl) [] @ sink_u8 (bl_log2 bl) [] @ fold sink_u64 ?w []"
    using u64_codec.fold_append [of ?w "sink_u8 (bl_log2 bl) (sink_u8 (bl_k bl) [])"]
    by (simp add: bloom_encode_def sink_new_def sink_u8_def)
  have step: "reads_end (rbind cur_u8 f) (sink_u8 b [] @ bs) y" if "reads_end (f b) bs y" for f b bs and y :: 'z
    by (rule reads_end_rbind [where x = b]) (rule reads_codec [OF u8_codec.codec_axioms TrueI], rule that)
  have w: "reads (read_n cur_u64 (length ?w)) (fold sink_u64 ?w []) ?w"
    using reads_read_n [of ?w cur_u64 "\<lambda>x. sink_u64 x []"] reads_codec [OF u64_codec.codec_axioms]
    by (simp add: u64_codec.fold_concat)
  have g: "length ?w * 8 \<le> length (fold sink_u64 ?w [])"
    by (simp add: u64_codec.fold_concat sink_u64_def length_concat comp_def sum_list_triv)
  have "\<exists>c'. rbind cur_u8 (\<lambda>k.
        if \<not> (1 \<le> k \<and> k \<le> 16) then rerr (Malformed ''bloom k out of range'')
        else rbind cur_u8 (\<lambda>log2.
        if \<not> (9 \<le> log2 \<and> log2 \<le> 20) then rerr (Malformed ''bloom log2_bits out of range'')
        else rbind (cur_guard_len (push_bit (unat log2) 1 div 64) 8) (\<lambda>nwords.
        rbind (read_n cur_u64 nwords) (\<lambda>words c.
        if \<not> cur_is_empty c then Inl (Malformed ''bloom blob has trailing bytes'')
        else Inr (\<lparr>bl_k = k, bl_log2 = log2, bl_words = words, bl_ty = bl_ty bl\<rparr>, c))))) (cur_new (bloom_encode bl)) = Inr (bl, c')"
    unfolding bytes
  proof (rule reads_end_new, rule step)
    have k: "(1 \<le> bl_k bl \<and> bl_k bl \<le> 16) = True" "(9 \<le> bl_log2 bl \<and> bl_log2 bl \<le> 20) = True"
      using assms by (simp_all add: bloom_wf_def)
    have "reads_end (rbind (read_n cur_u64 (length ?w)) (\<lambda>words c.
        if \<not> cur_is_empty c then Inl (Malformed ''bloom blob has trailing bytes'')
        else Inr (\<lparr>bl_k = bl_k bl, bl_log2 = bl_log2 bl, bl_words = words, bl_ty = bl_ty bl\<rparr>, c)))
        (fold sink_u64 ?w [] @ []) bl"
      by (rule reads_end_rbind [OF w], rule reads_end_check) simp
    then have "reads_end (rbind (cur_guard_len (push_bit ?n 1 div 64) 8) (\<lambda>nwords. rbind (read_n cur_u64 nwords) (\<lambda>words c.
        if \<not> cur_is_empty c then Inl (Malformed ''bloom blob has trailing bytes'')
        else Inr (\<lparr>bl_k = bl_k bl, bl_log2 = bl_log2 bl, bl_words = words, bl_ty = bl_ty bl\<rparr>, c))))
        (fold sink_u64 ?w []) bl"
      unfolding wc using len g by (intro reads_end_guard) simp_all
    then show "reads_end (if \<not> (1 \<le> bl_k bl \<and> bl_k bl \<le> 16) then rerr (Malformed ''bloom k out of range'')
        else rbind cur_u8 (\<lambda>log2.
        if \<not> (9 \<le> log2 \<and> log2 \<le> 20) then rerr (Malformed ''bloom log2_bits out of range'')
        else rbind (cur_guard_len (push_bit (unat log2) 1 div 64) 8) (\<lambda>nwords.
        rbind (read_n cur_u64 nwords) (\<lambda>words c.
        if \<not> cur_is_empty c then Inl (Malformed ''bloom blob has trailing bytes'')
        else Inr (\<lparr>bl_k = bl_k bl, bl_log2 = log2, bl_words = words, bl_ty = bl_ty bl\<rparr>, c)))))
        (sink_u8 (bl_log2 bl) [] @ fold sink_u64 ?w []) bl"
      unfolding k(1) not_True_eq_False if_False by (intro step) (simp only: k(2) not_True_eq_False if_False)
  qed
  then show ?thesis unfolding bloom_load_def by auto
qed

section \<open>Rows of a column\<close>

lemma those_some: "(\<And>x. x \<in> set xs \<Longrightarrow> \<exists>y. f x = Some y) \<Longrightarrow> \<exists>ys. those (map f xs) = Some ys"
  using those_map_ex [of xs f "\<lambda>_. True"] by blast

lemma row_bytes_length:
  assumes "offsets_wf offsets (length data)" "row_bytes offsets data i = Some b"
  shows "length b < 2 ^ 32"
proof -
  have "length b \<le> length data" using assms(2) by (auto simp: row_bytes_def slice_opt_def split: option.splits if_splits)
  also have "length data < 2 ^ 32" using assms(1) unat_less_2p [of "last offsets"] by (simp add: offsets_wf_def)
  finally show ?thesis .
qed

lemma col_get_storable:
  assumes "col_wf col" "\<And>e. col_ty col \<noteq> TList e" "col_get col i = Some v" "v \<noteq> VNull" "i < col_len col"
  shows "storable (col_ty col) v"
proof -
  obtain ty d vl n where col: "col = Column ty d vl n" by (cases col)
  have t: "type_ok ty" "has_type ty v" using col_get_typed [OF assms(1,5)] assms col by auto
  have g: "data_get ty d i = Some v" using assms(3,4) col by (auto split: option.splits bool.splits)
  have wf: "data_wf ty d" using assms(1) col by simp
  have "length s < 2 ^ 64" if "v = VString s \<or> v = VBytes s" for s
  proof -
    have "\<exists>p b. row_bytes p b i = Some s \<and> offsets_wf p (length b)"
      using that g wf by (cases d) (auto split: option.splits if_splits data_type.splits simp: get_decimal_def)
    then show ?thesis using row_bytes_length by fastforce
  qed
  then show ?thesis using t assms(2) col by (auto simp: storable_def split: val.splits)
qed

lemma non_null_rows_spec:
  assumes "col_wf col"
  shows "\<exists>vs. non_null_rows col = Some vs \<and>
    (\<forall>v. v \<in> set vs \<longleftrightarrow> (\<exists>i < col_len col. col_get col i = Some v \<and> v \<noteq> VNull))"
proof -
  obtain ty d vl n where col: "col = Column ty d vl n" by (cases col)
  have null: "\<exists>b. col_is_null col i = Some b" if "i < col_len col" for i
    using that assms col by (auto simp: col_is_null_def validity_ok_def col_len_def bm_get_wf split: option.splits)
  let ?rows = "filter (\<lambda>i. col_is_null col i = Some False) [0..<col_len col]"
  have get: "\<exists>v. col_get col i = Some v \<and> (col_is_null col i = Some False \<longleftrightarrow> v \<noteq> VNull)" if i: "i < col_len col" for i
  proof -
    obtain b where b: "col_is_null col i = Some b" using null i by blast
    obtain v where v: "col_get col i = Some v" using col_get_typed [OF assms i] by blast
    have "has_type ty v" if "\<not> b"
      using v b that data_get_typed [of ty d i] assms col i by (auto simp: col_len_def)
    then show ?thesis using v b col by (cases b) auto
  qed
  obtain vs where vs: "those (map (col_get col) ?rows) = Some vs"
    using those_some [of ?rows "col_get col"] get by auto
  then have m: "map (col_get col) ?rows = map Some vs" by (simp add: those_Some_iff)
  have "v \<in> set vs \<longleftrightarrow> Some v \<in> set (map (col_get col) ?rows)" for v unfolding m by auto
  moreover have "Some v \<in> set (map (col_get col) ?rows) \<longleftrightarrow> (\<exists>i < col_len col. col_get col i = Some v \<and> v \<noteq> VNull)" for v
    using get by (auto simp: image_iff) fastforce+
  ultimately show ?thesis using vs by (simp add: non_null_rows_def)
qed

lemma storable_bytes: "storable ty v \<Longrightarrow> \<exists>b. value_bytes v ty = Some b"
  using encode_value_reads [of ty v] by (auto simp: value_bytes_def)

lemma bloom_build_spec:
  assumes "col_wf col" "\<And>e. col_ty col \<noteq> TList e"
  shows "\<exists>bl. bloom_build col = Some bl \<and> bloom_wf bl \<and> bl_ty bl = col_ty col \<and>
    (\<forall>i < col_len col. \<forall>v. col_get col i = Some v \<and> v \<noteq> VNull \<longrightarrow> bloom_might_contain bl v = Some True)"
proof -
  let ?ty = "col_ty col"
  obtain vs where vs: "non_null_rows col = Some vs"
    "\<And>v. v \<in> set vs \<longleftrightarrow> (\<exists>i < col_len col. col_get col i = Some v \<and> v \<noteq> VNull)"
    using non_null_rows_spec [OF assms(1)] by blast
  have some: "\<exists>b. value_bytes v ?ty = Some b" if "v \<in> set vs" for v
    using that vs(2) col_get_storable [OF assms] storable_bytes by blast
  obtain keys where keys: "those (map (\<lambda>v. value_bytes v ?ty) vs) = Some keys"
    using those_some [of vs "\<lambda>v. value_bytes v ?ty"] some by blast
  then have m: "map (\<lambda>v. value_bytes v ?ty) vs = map Some keys" by (simp add: those_Some_iff)
  obtain bl where bl: "bloom_of_keys ?ty keys = Some bl" "bloom_wf bl" "bl_ty bl = ?ty" "\<forall>k \<in> set keys. test_bytes bl k = Some True"
    using bloom_of_keys_spec by blast
  have "bloom_might_contain bl v = Some True" if "v \<in> set vs" for v
  proof -
    have "value_bytes v ?ty \<in> set (map Some keys)" unfolding m [symmetric] using that by simp
    then show ?thesis using bl by (auto simp: bloom_might_contain_def)
  qed
  moreover have "bloom_build col = Some bl" using vs(1) keys bl(1) by (simp add: bloom_build_def)
  ultimately show ?thesis using vs(2) bl(2,3) by blast
qed

section \<open>Value sets\<close>

definition set_wf :: "value_set \<Rightarrow> bool" where
  "set_wf s \<longleftrightarrow> length (vs_values s) \<le> VALUE_SET_MAX \<and> (\<forall>v \<in> set (vs_values s). storable (vs_ty s) v) \<and>
     sorted_wrt (\<lambda>a b. total_cmp a b = Some Less) (vs_values s)"

lemma storable_kind: "storable ty v \<Longrightarrow> of_kind ty v"
  using has_type_of_kind by (auto simp: storable_def)

lemma set_build_spec:
  assumes "col_wf col" "\<And>e. col_ty col \<noteq> TList e"
  shows "\<exists>r. set_build col = Some r \<and> (\<forall>s. r = Some s \<longrightarrow> set_wf s \<and> vs_ty s = col_ty col \<and>
    (\<forall>i < col_len col. \<forall>v. col_get col i = Some v \<and> v \<noteq> VNull \<longrightarrow> (\<exists>x \<in> set (vs_values s). total_cmp v x = Some Equal)))"
proof -
  let ?ty = "col_ty col" and ?le = "\<lambda>a b. total_cmp a b \<noteq> Some Greater"
  obtain vs where vs: "non_null_rows col = Some vs"
    "\<And>v. v \<in> set vs \<longleftrightarrow> (\<exists>i < col_len col. col_get col i = Some v \<and> v \<noteq> VNull)"
    using non_null_rows_spec [OF assms(1)] by blast
  have st: "storable ?ty v" if "v \<in> set vs" for v
    using that vs(2) col_get_storable [OF assms] by blast
  then have kind: "\<forall>v \<in> set vs. of_kind ?ty v" using storable_kind by blast
  have "comparable vs" using kind value_order.answers unfolding comparable_def by blast
  define uniq where "uniq = dedup_by (\<lambda>a b. total_cmp a b = Some Equal) (sort_by ?le vs)"
  have "sorted_wrt ?le (sort_by ?le vs)" by (rule value_order.sorted_sort_by [OF kind])
  from value_order.dedup_strict [OF this, of ?ty] kind
  have u: "sorted_wrt (\<lambda>a b. total_cmp a b = Some Less) uniq" "set uniq \<subseteq> set vs"
    "\<forall>x \<in> set vs. \<exists>y \<in> set uniq. total_cmp x y = Some Equal"
    unfolding uniq_def by simp_all
  have build: "set_build col = Some (if length uniq > VALUE_SET_MAX then None else Some \<lparr>vs_ty = ?ty, vs_values = uniq\<rparr>)"
    using vs(1) \<open>comparable vs\<close> by (simp add: set_build_def uniq_def)
  have "\<exists>x \<in> set uniq. total_cmp v x = Some Equal" if "i < col_len col" "col_get col i = Some v" "v \<noteq> VNull" for i v
    using u(3) vs(2) that by blast
  moreover have "\<forall>v \<in> set uniq. storable ?ty v" using u(2) st by blast
  ultimately show ?thesis unfolding build using u(1) by (auto simp: set_wf_def)
qed

lemma set_might_contain_iff:
  assumes "set_wf s" "of_kind (vs_ty s) p" "value_matches p (vs_ty s)"
  shows "set_might_contain s p = Some (\<exists>x \<in> set (vs_values s). total_cmp x p = Some Equal)"
proof -
  have kind: "\<forall>x \<in> set (vs_values s). of_kind (vs_ty s) x" using assms(1) storable_kind by (auto simp: set_wf_def)
  have cmp: "total_cmp x p \<noteq> None" if "x \<in> set (vs_values s)" for x using kind that assms(2) value_order.answers by blast
  have "binary_search_by (\<lambda>x. the (total_cmp x p)) (vs_values s) \<longleftrightarrow> (\<exists>x \<in> set (vs_values s). total_cmp x p = Some Equal)"
    by (rule value_order.binary_search_iff [OF _ kind assms(2)]) (use assms(1) cmp in \<open>auto simp: set_wf_def\<close>)
  moreover have "\<not> is_null p" using assms(3) by (cases p) (auto simp: is_null_def)
  ultimately show ?thesis using assms(3) cmp by (auto simp: set_might_contain_def)
qed

lemma storable_length:
  assumes "storable ty v" "encode_value v ty [] = Some b"
  shows "1 \<le> length b"
  using assms
  using length_sink_uvarint_pos [THEN Suc_leI, THEN trans_le_add1]
  by (cases v) (auto simp: storable_def sink_u8_def sink_i64_def sink_u64_def sink_i128_def sink_i32_def sink_raw_def
      sink_str_def sink_bytes_def length_to_le_bytes split: data_type.splits if_splits)

lemma encode_values_of_spec:
  assumes "\<forall>v \<in> set vs. storable ty v"
  shows "encode_values_of ty vs out = Some (out @ concat (map (\<lambda>v. the (encode_value v ty [])) vs))"
  using assms
proof (induction vs arbitrary: out)
  case (Cons v vs)
  then obtain b where "\<And>out. encode_value v ty out = Some (out @ b)" using encode_value_reads [of ty v] by auto
  then show ?case using Cons by simp
qed simp

lemma set_load_encode:
  assumes "set_wf s"
  shows "\<exists>blob. set_encode s = Some blob \<and> set_load (vs_ty s) blob = Inr s"
proof -
  let ?vs = "vs_values s" and ?ty = "vs_ty s"
  let ?w = "\<lambda>v. the (encode_value v ?ty [])"
  have st: "\<forall>v \<in> set ?vs. storable ?ty v" using assms by (simp add: set_wf_def)
  have enc: "reads (decode_value ?ty) (?w v) v" "1 \<le> length (?w v)" if "v \<in> set ?vs" for v
    using encode_value_reads [of ?ty v] storable_length [of ?ty v] st that by force+
  have len: "length ?vs \<le> MAX_DECODE_ROWS" using assms by (simp add: set_wf_def VALUE_SET_MAX_def MAX_DECODE_ROWS_def)
  have g: "length ?vs * 1 \<le> length (concat (map ?w ?vs))" using enc(2) by (rule concat_min_length)
  have inc: "\<not> (\<exists>(a, b) \<in> set (zip ?vs (tl ?vs)). total_cmp a b \<noteq> Some Less)"
    using assms by (auto simp: set_wf_def in_set_zip nth_tl sorted_wrt_iff_nth_less)
  have "reads_end (rbind (read_n (decode_value ?ty) (length ?vs)) (\<lambda>vs c.
        if \<not> cur_is_empty c then Inl (Malformed ''value set blob has trailing bytes'')
        else if \<exists>(a, b) \<in> set (zip vs (tl vs)). total_cmp a b \<noteq> Some Less
             then Inl (Malformed ''value set is not strictly increasing'')
        else Inr (\<lparr>vs_ty = ?ty, vs_values = vs\<rparr>, c))) (concat (map ?w ?vs) @ []) s"
    using enc(1) inc by (intro reads_end_rbind [OF reads_read_n] reads_end_check) auto
  then have "reads_end (rbind (cur_guard_len (word_of_nat (length ?vs)) 1) (\<lambda>n. rbind (read_n (decode_value ?ty) n) (\<lambda>vs c.
        if \<not> cur_is_empty c then Inl (Malformed ''value set blob has trailing bytes'')
        else if \<exists>(a, b) \<in> set (zip vs (tl vs)). total_cmp a b \<noteq> Some Less
             then Inl (Malformed ''value set is not strictly increasing'')
        else Inr (\<lparr>vs_ty = ?ty, vs_values = vs\<rparr>, c)))) (concat (map ?w ?vs)) s"
    using len g by (intro reads_end_guard) simp_all
  note fin = reads_end_new [OF reads_end_rbind [where f = "\<lambda>n. rbind (cur_guard_len n 1) (\<lambda>n. rbind (read_n (decode_value ?ty) n) (\<lambda>vs c.
        if \<not> cur_is_empty c then Inl (Malformed ''value set blob has trailing bytes'')
        else if \<exists>(a, b) \<in> set (zip vs (tl vs)). total_cmp a b \<noteq> Some Less
             then Inl (Malformed ''value set is not strictly increasing'')
        else Inr (\<lparr>vs_ty = ?ty, vs_values = vs\<rparr>, c)))",
      OF reads_codec [OF uvarint_codec.codec_axioms TrueI, of "word_of_nat (length ?vs)"] this]]
  have "set_encode s = Some (sink_count (length ?vs) [] @ concat (map ?w ?vs))"
    by (simp add: set_encode_def encode_values_of_spec [OF st] sink_new_def)
  moreover have "set_load ?ty (sink_count (length ?vs) [] @ concat (map ?w ?vs)) = Inr s"
    using fin unfolding set_load_def by auto
  ultimately show ?thesis by blast
qed

section \<open>N-grams\<close>

lemma windows3_substring: "w \<in> set (windows3 s) \<Longrightarrow> w \<in> set (windows3 (a @ s @ b))"
proof -
  assume "w \<in> set (windows3 s)"
  then obtain i where i: "i < length s - 2" "w = take 3 (drop i s)" by (auto simp: windows3_def)
  have "take 3 (drop (length a + i) (a @ s @ b)) = w" using i by simp
  moreover have "length a + i < length (a @ s @ b) - 2" using i(1) by auto
  ultimately show ?thesis unfolding windows3_def set_map by (intro image_eqI [of _ _ "length a + i"]) simp_all
qed

lemma test_all_True: "(\<And>w. w \<in> set ws \<Longrightarrow> test_bytes bl w = Some True) \<Longrightarrow> test_all bl ws = Some True"
  by (induction ws) simp_all

lemma ngram_build_spec:
  assumes "col_wf col" "col_ty col = TString"
  shows "\<exists>bl. ngram_build col = Some bl \<and> bloom_wf bl \<and> bl_ty bl = TString \<and>
    (\<forall>i < col_len col. \<forall>a s b. col_get col i = Some (VString (a @ s @ b)) \<longrightarrow> ngram_might_contain_substring bl s = Some True)"
proof -
  obtain vs where vs: "non_null_rows col = Some vs"
    "\<And>v. v \<in> set vs \<longleftrightarrow> (\<exists>i < col_len col. col_get col i = Some v \<and> v \<noteq> VNull)"
    using non_null_rows_spec [OF assms(1)] by blast
  have some: "\<exists>s. string_bytes v = Some s" if v: "v \<in> set vs" for v
  proof -
    have "has_type TString v" using v vs(2) col_get_typed [OF assms(1)] assms(2) by fastforce
    then show ?thesis by (cases v) (auto split: data_type.splits)
  qed
  obtain ss where ss: "those (map string_bytes vs) = Some ss" using those_some [of vs string_bytes] some by blast
  then have m: "map string_bytes vs = map Some ss" by (simp add: those_Some_iff)
  obtain bl where bl: "bloom_of_keys TString (concat (map windows3 ss)) = Some bl" "bloom_wf bl" "bl_ty bl = TString"
    "\<forall>k \<in> set (concat (map windows3 ss)). test_bytes bl k = Some True"
    using bloom_of_keys_spec by blast
  have "ngram_might_contain_substring bl s = Some True" if "i < col_len col" "col_get col i = Some (VString (a @ s @ b))" for i a s b
  proof -
    have "VString (a @ s @ b) \<in> set vs" using vs(2) that by blast
    then have "string_bytes (VString (a @ s @ b)) \<in> set (map string_bytes vs)" by (simp only: set_map image_eqI)
    then have "a @ s @ b \<in> set ss" unfolding m by auto
    then have "test_bytes bl w = Some True" if "w \<in> set (windows3 s)" for w
      using bl(4) windows3_substring [OF that, of a b] by auto
    then show ?thesis by (simp add: ngram_might_contain_substring_def test_all_True)
  qed
  moreover have "ngram_build col = Some bl" using vs(1) ss bl(1) by (simp add: ngram_build_def)
  ultimately show ?thesis using bl(2,3) by blast
qed

section \<open>No false negatives\<close>

text \<open>What a loaded index may be asked and must not deny, for a row of the column.\<close>

fun denies :: "skip_index \<Rightarrow> val \<Rightarrow> bool" where
  "denies (SNgram n) v = (\<exists>a s b. v = VString (a @ s @ b) \<and> ngram_might_contain_substring n s \<noteq> Some True)"
| "denies (SBloom bl) v = (bloom_might_contain bl v \<noteq> Some True)"
| "denies (SValueSet s) v = (\<exists>p. value_ok p \<and> value_matches p (vs_ty s) \<and> sql_eq v p = Some True \<and> set_might_contain s p \<noteq> Some True)"

lemma kind_of_match: "value_ok p \<Longrightarrow> value_matches p ty \<Longrightarrow> of_kind ty p"
  by (cases p) (auto split: data_type.splits)

lemma set_not_denies:
  assumes "set_wf s" "of_kind (vs_ty s) v" "x \<in> set (vs_values s)" "total_cmp v x = Some Equal"
  shows "\<not> denies (SValueSet s) v"
proof
  assume "denies (SValueSet s) v"
  then obtain p where p: "value_ok p" "value_matches p (vs_ty s)" "sql_eq v p = Some True" "set_might_contain s p \<noteq> Some True" by auto
  have kp: "of_kind (vs_ty s) p" by (rule kind_of_match [OF p(1,2)])
  have kx: "of_kind (vs_ty s) x" using assms(1,3) storable_kind by (auto simp: set_wf_def)
  have "total_cmp v p = Some Equal" using sql_eq_iff [OF assms(2) kp] p(3) by simp
  then have "total_cmp x p = Some Equal" using value_order.equal_left [OF assms(2) kx kp assms(4)] by simp
  then show False using set_might_contain_iff [OF assms(1) kp p(2)] p(4) assms(3) by auto
qed

lemma scalar_index: "kind \<noteq> KNgram \<Longrightarrow> index_applies_to kind ty \<longleftrightarrow> (\<forall>e. ty \<noteq> TList e)"
  by (cases kind; cases ty) auto

lemma index_build_sound:
  assumes "col_wf col"
  shows "\<exists>r. index_build kind col = Some r \<and> (\<forall>blob. r = Some blob \<longrightarrow>
    (\<exists>idx. index_load kind (col_ty col) blob = Inr idx \<and> skip_kind idx = kind \<and>
      (\<forall>i < col_len col. \<forall>v. col_get col i = Some v \<and> v \<noteq> VNull \<longrightarrow> \<not> denies idx v)))"
proof (cases "index_applies_to kind (col_ty col)")
  case False
  then show ?thesis by (simp add: index_build_def)
next
  case True
  show ?thesis
  proof (cases kind)
    case KBloom
    then have "\<And>e. col_ty col \<noteq> TList e" using True scalar_index by blast
    from bloom_build_spec [OF assms this] obtain bl where "bloom_build col = Some bl" "bloom_wf bl" "bl_ty bl = col_ty col"
      "\<forall>i < col_len col. \<forall>v. col_get col i = Some v \<and> v \<noteq> VNull \<longrightarrow> bloom_might_contain bl v = Some True" by blast
    then show ?thesis using True KBloom bloom_load_encode [of bl] by (auto simp: index_build_def index_load_def rmap_sum_def)
  next
    case KValueSet
    then have nl: "\<And>e. col_ty col \<noteq> TList e" using True scalar_index by blast
    from set_build_spec [OF assms this] obtain r where r: "set_build col = Some r"
      "\<forall>s. r = Some s \<longrightarrow> set_wf s \<and> vs_ty s = col_ty col \<and> (\<forall>i < col_len col. \<forall>v. col_get col i = Some v \<and> v \<noteq> VNull \<longrightarrow>
        (\<exists>x \<in> set (vs_values s). total_cmp v x = Some Equal))" by blast
    show ?thesis
    proof (cases r)
      case None
      then show ?thesis using True KValueSet r(1) by (simp add: index_build_def)
    next
      case (Some s)
      then have s: "set_wf s" "vs_ty s = col_ty col" "\<And>i v. i < col_len col \<Longrightarrow> col_get col i = Some v \<Longrightarrow> v \<noteq> VNull \<Longrightarrow>
          \<exists>x \<in> set (vs_values s). total_cmp v x = Some Equal" using r(2) by blast+
      obtain blob where blob: "set_encode s = Some blob" "set_load (col_ty col) blob = Inr s"
        using set_load_encode [OF s(1)] s(2) by auto
      have "\<not> denies (SValueSet s) v" if "i < col_len col" "col_get col i = Some v" "v \<noteq> VNull" for i v
        using s(3) [OF that] set_not_denies [OF s(1)] storable_kind [OF col_get_storable [OF assms nl that(2,3,1)]] s(2) by auto
      then show ?thesis using True KValueSet r(1) Some blob by (auto simp: index_build_def index_load_def rmap_sum_def)
    qed
  next
    case KNgram
    then have ty: "col_ty col = TString" using True by simp
    from ngram_build_spec [OF assms this] obtain bl where bl: "ngram_build col = Some bl" "bloom_wf bl" "bl_ty bl = TString"
      "\<forall>i < col_len col. \<forall>a s b. col_get col i = Some (VString (a @ s @ b)) \<longrightarrow> ngram_might_contain_substring bl s = Some True" by blast
    then have "\<not> denies (SNgram bl) v" if "i < col_len col" "col_get col i = Some v" for i v using that by auto
    then show ?thesis using True KNgram bl(1) bloom_load_encode [OF bl(2)] bl(3)
      by (auto simp: index_build_def index_load_def rmap_sum_def)
  qed
qed



section \<open>A row a bloom filter hides\<close>

lemma zero_probes:
  "bloom_probe [0, 0, 0, 0, 0, 0, 0, 0x80] 7 512 = [224, 511, 286, 61, 348, 123, 410]"
  "bloom_probe [0, 0, 0, 0, 0, 0, 0, 0] 7 512 = [443, 202, 473, 232, 503, 262, 21]"
  by code_simp+

lemma zero_bytes:
  "value_bytes (VFloat64 0x8000000000000000) TFloat64 = Some [0, 0, 0, 0, 0, 0, 0, 0x80]"
  "value_bytes (VFloat64 0) TFloat64 = Some [0, 0, 0, 0, 0, 0, 0, 0]"
  by code_simp+

lemma bloom_of_one:
  "\<exists>bl. bloom_of_keys ty [k] = Some bl \<and> bl_ty bl = ty \<and>
     (\<forall>k'. test_bytes bl k' = Some (set (bloom_probe k' 7 512) \<subseteq> set (bloom_probe k 7 512)))"
proof -
  let ?e = "\<lparr>bl_k = 7, bl_log2 = 9, bl_words = replicate 8 0, bl_ty = ty\<rparr>"
  have "size_loop 512 9 = 9" by (subst size_loop.simps) simp
  then have e: "bloom_empty ty 1 = ?e"
    by (simp add: bloom_empty_def size_log2_def MIN_LOG2_BITS_def BLOOM_K_def Let_def)
  have kb: "key_bits ?e k = unat ` set (bloom_probe k 7 512)" for k by (simp add: key_bits_def bloom_bits_def)
  have zero: "\<not> words_bit (bl_words ?e) p" for p by (simp add: words_bit_def)
  obtain bl where bl: "insert_keys [k] ?e = Some bl" "bloom_wf bl" "bl_ty bl = ty" "key_bits bl = key_bits ?e"
    "\<forall>p. words_bit (bl_words bl) p \<longleftrightarrow> p \<in> key_bits ?e k"
    using insert_keys_spec [OF bloom_empty_wf(1) [of ty 1], of "[k]"] zero unfolding e by auto
  have "test_bytes bl k' = Some (set (bloom_probe k' 7 512) \<subseteq> set (bloom_probe k 7 512))" for k'
  proof -
    have "key_bits ?e k' \<subseteq> {p. words_bit (bl_words bl) p} \<longleftrightarrow> key_bits ?e k' \<subseteq> key_bits ?e k" using bl(5) by auto
    also have "\<dots> \<longleftrightarrow> set (bloom_probe k' 7 512) \<subseteq> set (bloom_probe k 7 512)"
      unfolding kb by (intro inj_image_subset_iff) (simp add: inj_def word_unat_eq_iff)
    finally show ?thesis unfolding test_bytes_iff [OF bl(2)] bl(4) by (simp add: subset_iff Ball_def)
  qed
  moreover have "bloom_of_keys ty [k] = Some bl" using bl(1) e by (simp add: bloom_of_keys_def Let_def)
  ultimately show ?thesis using bl(3) by blast
qed

text \<open>
  C33. BLOOM hashes the bits of a double, and SQL equality does not see the sign of zero: over
  a column whose row is \<open>-0.0\<close> the filter answers false for \<open>0.0\<close>, although the two are equal,
  so a scan for \<open>x = 0.0\<close> skips a row group that holds a matching row.
\<close>

theorem bloom_hides_negative_zero:
  "\<exists>bl. bloom_build (Column TFloat64 (CFloat64 [0x8000000000000000]) None 0) = Some bl \<and>
     col_get (Column TFloat64 (CFloat64 [0x8000000000000000]) None 0) 0 = Some (VFloat64 0x8000000000000000) \<and>
     sql_eq (VFloat64 0x8000000000000000) (VFloat64 0) = Some True \<and>
     might_contain (SBloom bl) (VFloat64 0) = Some False"
proof -
  let ?col = "Column TFloat64 (CFloat64 [0x8000000000000000]) None 0"
  have g: "col_get ?col 0 = Some (VFloat64 0x8000000000000000)" by (simp add: col_is_null_def col_len_def nth_opt_def)
  have rows: "non_null_rows ?col = Some [VFloat64 0x8000000000000000]"
    by (simp add: non_null_rows_def col_is_null_def col_len_def nth_opt_def)
  obtain bl where bl: "bloom_of_keys TFloat64 [[0, 0, 0, 0, 0, 0, 0, 0x80]] = Some bl" "bl_ty bl = TFloat64"
    "\<And>k'. test_bytes bl k' = Some (set (bloom_probe k' 7 512) \<subseteq> set (bloom_probe [0, 0, 0, 0, 0, 0, 0, 0x80] 7 512))"
    using bloom_of_one by blast
  have "bloom_build ?col = Some bl" using rows bl(1) by (simp add: bloom_build_def zero_bytes)
  moreover have "sql_eq (VFloat64 0x8000000000000000) (VFloat64 0) = Some True" by code_simp
  moreover have "bloom_might_contain bl (VFloat64 0) = Some False"
    using bl(3) [of "[0, 0, 0, 0, 0, 0, 0, 0]"] by (simp add: bloom_might_contain_def bl(2) zero_bytes zero_probes is_null_def)
  ultimately show ?thesis using g by auto
qed

end
