(* ===== verification/Prune.thy ===== *)
theory Prune
  imports Eval Skip_Index
begin

text \<open>
  Zone-map and skip-index pruning (\<open>src/storage/prune.rs\<close>): from the range of a column, or
  from what an index answers, a predicate is shown false for every row of a segment or row
  group, which is then not read. The two traversals share their shape, and so do their
  soundness proofs, through the locale \<open>conjunct_test\<close>.
\<close>

section \<open>Model\<close>

record column_range =
  cr_rows :: nat
  cr_null_count :: nat
  cr_min :: "val option"
  cr_max :: "val option"

definition column_of :: "expr \<Rightarrow> nat option" where
  "column_of e = (case e of EColumn c \<Rightarrow> Some c | _ \<Rightarrow> None)"

text \<open>\<open>l op r\<close> as a column, a value and an operator, the operator flipped when the value is on the left.\<close>

definition column_and_value :: "cmp_op \<Rightarrow> expr \<Rightarrow> expr \<Rightarrow> (nat \<times> val \<times> cmp_op) option" where
  "column_and_value op l r =
     (case l of
        EColumn c \<Rightarrow> (case r of ELiteral v _ \<Rightarrow> Some (c, v, op) | _ \<Rightarrow> None)
      | ELiteral v _ \<Rightarrow> (case r of EColumn c \<Rightarrow> Some (c, v, cmp_flip op) | _ \<Rightarrow> None)
      | _ \<Rightarrow> None)"

definition is_nan_value :: "val \<Rightarrow> bool" where
  "is_nan_value v = (case v of VFloat64 f \<Rightarrow> f64_is_nan f | _ \<Rightarrow> False)"

fun range_is_false :: "cmp_op \<Rightarrow> column_range \<Rightarrow> val \<Rightarrow> bool" where
  "range_is_false Eq rng v \<longleftrightarrow>
     Option.bind (cr_min rng) (total_cmp v) = Some Less \<or> Option.bind (cr_max rng) (total_cmp v) = Some Greater"
| "range_is_false Ne rng v \<longleftrightarrow>
     (case (cr_min rng, cr_max rng) of
        (Some mn, Some mx) \<Rightarrow> total_cmp mn v = Some Equal \<and> total_cmp mx v = Some Equal
      | _ \<Rightarrow> False)"
| "range_is_false Lt rng v \<longleftrightarrow> Option.bind (cr_min rng) (\<lambda>m. total_cmp m v) \<in> {Some Greater, Some Equal}"
| "range_is_false Le rng v \<longleftrightarrow> Option.bind (cr_min rng) (\<lambda>m. total_cmp m v) = Some Greater"
| "range_is_false Gt rng v \<longleftrightarrow> Option.bind (cr_max rng) (\<lambda>m. total_cmp m v) \<in> {Some Less, Some Equal}"
| "range_is_false Ge rng v \<longleftrightarrow> Option.bind (cr_max rng) (\<lambda>m. total_cmp m v) = Some Less"

definition cmp_is_false :: "cmp_op \<Rightarrow> expr \<Rightarrow> expr \<Rightarrow> (nat \<Rightarrow> column_range option) \<Rightarrow> bool" where
  "cmp_is_false op l r stats =
     (case column_and_value op l r of
        None \<Rightarrow> False
      | Some (col, v, op) \<Rightarrow>
          if is_null v then True
          else case stats col of
                 None \<Rightarrow> False
               | Some rng \<Rightarrow>
                   if cr_null_count rng = cr_rows rng then True
                   else if (op = Eq \<or> op = Ne) \<and> is_nan_value v then False
                   else range_is_false op rng v)"

definition between_is_false :: "expr \<Rightarrow> expr \<Rightarrow> expr \<Rightarrow> (nat \<Rightarrow> column_range option) \<Rightarrow> bool" where
  "between_is_false e low high stats =
     (case column_of e of
        None \<Rightarrow> False
      | Some col \<Rightarrow>
          (case low of
             ELiteral lo _ \<Rightarrow>
               (case high of
                  ELiteral hi _ \<Rightarrow>
                    if is_null lo \<or> is_null hi then False
                    else (case stats col of
                            None \<Rightarrow> False
                          | Some rng \<Rightarrow>
                              (case cr_min rng of None \<Rightarrow> False | Some m \<Rightarrow> total_cmp hi m = Some Less) \<or>
                              (case cr_max rng of None \<Rightarrow> False | Some m \<Rightarrow> total_cmp lo m = Some Greater))
                | _ \<Rightarrow> False)
           | _ \<Rightarrow> False))"

fun all_outside :: "column_range \<Rightarrow> val list \<Rightarrow> bool" where
  "all_outside rng [] = True"
| "all_outside rng (v # vs) =
     (if is_null v then all_outside rng vs
      else case (cr_min rng, cr_max rng) of
             (Some mn, Some mx) \<Rightarrow>
               if total_cmp v mn = Some Less \<or> total_cmp v mx = Some Greater then all_outside rng vs else False
           | _ \<Rightarrow> False)"

definition in_list_is_false :: "expr \<Rightarrow> val list \<Rightarrow> (nat \<Rightarrow> column_range option) \<Rightarrow> bool" where
  "in_list_is_false e vals stats =
     (case column_of e of
        None \<Rightarrow> False
      | Some col \<Rightarrow> (case stats col of None \<Rightarrow> False | Some rng \<Rightarrow> all_outside rng vals))"

lemma conjuncts_size: "c \<in> set (push_conjuncts e) \<Longrightarrow> size c \<le> size e"
proof (induction e rule: push_conjuncts.induct)
  case (1 parts)
  then obtain p where "p \<in> set parts" "size c \<le> size p" by auto
  then show ?case using size_list_mem [of p parts] by simp
qed auto

function (sequential) may_match :: "(nat \<Rightarrow> column_range option) \<Rightarrow> expr \<Rightarrow> bool"
  and conjunct_is_false :: "(nat \<Rightarrow> column_range option) \<Rightarrow> expr \<Rightarrow> bool" where
  "may_match stats pred = (\<not> (\<exists>c \<in> set (conjuncts pred). conjunct_is_false stats c))"
| "conjunct_is_false stats (ECmp op l r) = cmp_is_false op l r stats"
| "conjunct_is_false stats (EBetween e low high negated) = (\<not> negated \<and> between_is_false e low high stats)"
| "conjunct_is_false stats (EInList e vals negated) = (\<not> negated \<and> in_list_is_false e vals stats)"
| "conjunct_is_false stats (EIsNull e) =
     (case column_of e of
        None \<Rightarrow> False
      | Some c \<Rightarrow> (case stats c of None \<Rightarrow> False | Some r \<Rightarrow> cr_null_count r = 0))"
| "conjunct_is_false stats (EIsNotNull e) =
     (case column_of e of
        None \<Rightarrow> False
      | Some c \<Rightarrow> (case stats c of None \<Rightarrow> False | Some r \<Rightarrow> cr_null_count r = cr_rows r))"
| "conjunct_is_false stats (EOr parts) = (\<forall>p \<in> set parts. \<not> may_match stats p)"
| "conjunct_is_false stats _ = False"
  by pat_completeness auto
termination
  by (relation "measure (\<lambda>x. case x of Inl (_, e) \<Rightarrow> 2 * size e + 1 | Inr (_, e) \<Rightarrow> 2 * size e)")
    (auto simp: conjuncts_def dest: conjuncts_size size_list_mem)

definition index_eq_is_false :: "expr \<Rightarrow> expr \<Rightarrow> (nat \<Rightarrow> val \<Rightarrow> bool option) \<Rightarrow> bool" where
  "index_eq_is_false l r probe =
     (case column_and_value Eq l r of None \<Rightarrow> False | Some (col, v, _) \<Rightarrow> probe col v = Some False)"

function (sequential) index_may_match :: "(nat \<Rightarrow> val \<Rightarrow> bool option) \<Rightarrow> expr \<Rightarrow> bool"
  and index_conjunct_is_false :: "(nat \<Rightarrow> val \<Rightarrow> bool option) \<Rightarrow> expr \<Rightarrow> bool" where
  "index_may_match probe pred = (\<not> (\<exists>c \<in> set (conjuncts pred). index_conjunct_is_false probe c))"
| "index_conjunct_is_false probe (ECmp op l r) = (op = Eq \<and> index_eq_is_false l r probe)"
| "index_conjunct_is_false probe (EInList e vals negated) =
     (\<not> negated \<and> (case column_of e of None \<Rightarrow> False | Some c \<Rightarrow> \<forall>v \<in> set vals. \<not> is_null v \<longrightarrow> probe c v = Some False))"
| "index_conjunct_is_false probe (EOr parts) = (\<forall>p \<in> set parts. \<not> index_may_match probe p)"
| "index_conjunct_is_false probe _ = False"
  by pat_completeness auto
termination
  by (relation "measure (\<lambda>x. case x of Inl (_, e) \<Rightarrow> 2 * size e + 1 | Inr (_, e) \<Rightarrow> 2 * size e)")
    (auto simp: conjuncts_def dest: conjuncts_size size_list_mem)

section \<open>Evaluation of connectives, row by row\<close>

lemma col_get_len: "col_get c i = Some v \<Longrightarrow> i < col_len c"
  by (cases c) (auto simp: col_is_null_def split: if_splits)

lemma kleene_row_len: "kleene_row c i = Some b \<Longrightarrow> i < col_len c"
  by (auto simp: kleene_row_def dest: col_get_len split: option.splits val.splits)

lemma row_boolD: "row_bool c i = Some x \<Longrightarrow> kleene_row c i = x"
  by (cases c) (auto simp: row_bool_def kleene_row_def split: option.splits bool.splits val.splits)

lemma both_rowsD: "both_rows f a b i = Some x \<Longrightarrow> x = f (kleene_row a i) (kleene_row b i)"
  by (auto simp: both_rows_def dest!: row_boolD split: option.splits)

lemma col_and_true:
  assumes "col_and a b = Some c" "kleene_row c i = Some True"
  shows "kleene_row a i = Some True \<and> kleene_row b i = Some True"
proof -
  have r: "bool_rows_column (both_rows kleene_and a b) (col_len a) = Some c" using assms(1) by (auto simp: col_and_def split: if_splits)
  have i: "i < col_len a" using kleene_row_len [OF assms(2)] bool_rows_column_SomeD(1) [OF r] by (simp add: bool_col_def)
  have "kleene_and (kleene_row a i) (kleene_row b i) = Some True" using both_rowsD [OF bool_rows_column_SomeD(2) [OF r i]] assms(2) by simp
  then show ?thesis by (simp add: kleene_iff)
qed

lemma col_or_true:
  assumes "col_or a b = Some c" "kleene_row c i = Some True"
  shows "kleene_row a i = Some True \<or> kleene_row b i = Some True"
proof -
  have r: "bool_rows_column (both_rows kleene_or a b) (col_len a) = Some c" using assms(1) by (auto simp: col_or_def split: if_splits)
  have i: "i < col_len a" using kleene_row_len [OF assms(2)] bool_rows_column_SomeD(1) [OF r] by (simp add: bool_col_def)
  have "kleene_or (kleene_row a i) (kleene_row b i) = Some True" using both_rowsD [OF bool_rows_column_SomeD(2) [OF r i]] assms(2) by simp
  then show ?thesis by (simp add: kleene_or_iff)
qed

lemma fold_and_true:
  "fold_loop col_and acc ps = Some (Inr out) \<Longrightarrow> kleene_row out i = Some True \<Longrightarrow>
   kleene_row acc i = Some True \<and> (\<forall>p \<in> set ps. \<exists>c. p = Some (Inr c) \<and> kleene_row c i = Some True)"
proof (induction ps arbitrary: acc)
  case (Cons p ps)
  then obtain c a where c: "p = Some (Inr c)" "col_and acc c = Some a" "fold_loop col_and a ps = Some (Inr out)" by auto
  then show ?case using Cons.IH [OF c(3) Cons.prems(2)] col_and_true [OF c(2)] by auto
qed simp

lemma fold_or_true:
  "fold_loop col_or acc ps = Some (Inr out) \<Longrightarrow> kleene_row out i = Some True \<Longrightarrow>
   kleene_row acc i = Some True \<or> (\<exists>p \<in> set ps. \<exists>c. p = Some (Inr c) \<and> kleene_row c i = Some True)"
proof (induction ps arbitrary: acc)
  case (Cons p ps)
  then obtain c a where c: "p = Some (Inr c)" "col_or acc c = Some a" "fold_loop col_or a ps = Some (Inr out)" by auto
  then show ?case using Cons.IH [OF c(3) Cons.prems(2)] col_or_true [OF c(2)] by auto
qed simp

lemma eval_and_true:
  assumes "eval K batch (EAnd parts) = Some (Inr out)" "kleene_row out i = Some True" "p \<in> set parts"
  shows "\<exists>c. eval K batch p = Some (Inr c) \<and> kleene_row c i = Some True"
proof -
  have "eval_fold col_and (map (eval K batch) parts) = Some (Inr out)" using assms(1) by auto
  then show ?thesis using fold_and_true [OF _ assms(2)] assms(3)
    by (cases parts) (force simp: eval_fold_def)+
qed

lemma eval_or_true:
  assumes "eval K batch (EOr parts) = Some (Inr out)" "kleene_row out i = Some True"
  shows "\<exists>p \<in> set parts. \<exists>c. eval K batch p = Some (Inr c) \<and> kleene_row c i = Some True"
proof -
  have "eval_fold col_or (map (eval K batch) parts) = Some (Inr out)" using assms(1) by auto
  then show ?thesis using fold_or_true [OF _ assms(2)]
    by (cases parts) (force simp: eval_fold_def)+
qed

text \<open>A row that satisfies a predicate satisfies each of its conjuncts.\<close>

lemma conjuncts_true:
  "eval K batch e = Some (Inr out) \<Longrightarrow> kleene_row out i = Some True \<Longrightarrow> c \<in> set (push_conjuncts e) \<Longrightarrow>
   \<exists>out'. eval K batch c = Some (Inr out') \<and> kleene_row out' i = Some True"
proof (induction e arbitrary: out rule: push_conjuncts.induct)
  case (1 parts)
  then obtain p where p: "p \<in> set parts" "c \<in> set (push_conjuncts p)" by auto
  obtain o' where "eval K batch p = Some (Inr o')" "kleene_row o' i = Some True"
    using eval_and_true [OF 1(2,3) p(1)] by blast
  then show ?case using 1(1) [OF p(1) _ _ p(2)] by blast
qed (auto simp del: eval.simps)

section \<open>The shape of both traversals\<close>

locale conjunct_test =
  fixes may :: "expr \<Rightarrow> bool" and is_false :: "expr \<Rightarrow> bool"
  assumes may_iff: "may e \<longleftrightarrow> \<not> (\<exists>c \<in> set (conjuncts e). is_false c)"
    and or_false: "is_false (EOr parts) \<Longrightarrow> p \<in> set parts \<Longrightarrow> \<not> may p"
begin

text \<open>
  It is enough to be right about the conjuncts that are not disjunctions. \<open>ok\<close> is what the
  test asks of the expressions it meets, and is inherited by operands.
\<close>

lemma sound:
  assumes ok_and: "\<And>parts p. ok (EAnd parts) \<Longrightarrow> p \<in> set parts \<Longrightarrow> ok p"
    and ok_or: "\<And>parts p. ok (EOr parts) \<Longrightarrow> p \<in> set parts \<Longrightarrow> ok p"
    and leaf: "\<And>c out. is_false c \<Longrightarrow> (\<And>parts. c \<noteq> EOr parts) \<Longrightarrow> (\<And>parts. c \<noteq> EAnd parts) \<Longrightarrow> ok c \<Longrightarrow>
      eval K batch c = Some (Inr out) \<Longrightarrow> kleene_row out i \<noteq> Some True"
    and "ok e" "eval K batch e = Some (Inr out)" "kleene_row out i = Some True"
  shows "may e"
  using assms(4-6)
proof (induction "size e" arbitrary: e out rule: less_induct)
  case less
  have ok: "ok c \<and> (\<forall>parts. c \<noteq> EAnd parts)" if "ok e" "c \<in> set (push_conjuncts e)" for c e
    using that by (induction e rule: push_conjuncts.induct) (auto dest: ok_and)
  have "\<not> is_false c" if c: "c \<in> set (conjuncts e)" for c
  proof
    assume false: "is_false c"
    obtain o' where o': "eval K batch c = Some (Inr o')" "kleene_row o' i = Some True"
      using conjuncts_true [OF less(3,4)] c by (auto simp: conjuncts_def)
    have okc: "ok c" "\<And>parts. c \<noteq> EAnd parts" using ok [OF less(2)] c by (auto simp: conjuncts_def)
    show False
    proof (cases "\<exists>parts. c = EOr parts")
      case True
      then obtain parts where parts: "c = EOr parts" by blast
      obtain p co where p: "p \<in> set parts" "eval K batch p = Some (Inr co)" "kleene_row co i = Some True"
        using eval_or_true [of K batch parts o' i] o' parts by blast
      have "size p < size e" using size_list_mem [OF p(1)] conjuncts_size [of c e] c parts by (simp add: conjuncts_def)
      then have "may p" using less(1) p ok_or okc(1) parts by blast
      then show False using or_false [of parts p] false parts p(1) by blast
    next
      case False
      then show False using leaf [OF false _ okc(2,1) o'(1)] o'(2) by blast
    qed
  qed
  then show ?case by (simp add: may_iff)
qed

end

interpretation zone: conjunct_test "may_match stats" "conjunct_is_false stats" for stats
  by unfold_locales simp_all

interpretation index: conjunct_test "index_may_match probe" "index_conjunct_is_false probe" for probe
  by unfold_locales simp_all

section \<open>Ranges\<close>

context cmp_on
begin

lemma less_split:
  assumes "S a" "S b" "S d" "c a d = Some Less"
  shows "c a b = Some Less \<or> c b d = Some Less"
proof (rule ccontr)
  assume "\<not> ?thesis"
  then have "c b a \<noteq> Some Greater" "c d b \<noteq> Some Greater"
    using greater_iff [OF assms(2,1)] greater_iff [OF assms(3,2)] by blast+
  then have "c d a \<noteq> Some Greater" by (rule trans [OF assms(3,2,1), rotated])
  then show False using greater_iff [OF assms(3,1)] assms(4) by blast
qed

lemma equal_neither: "S a \<Longrightarrow> S b \<Longrightarrow> c a b = Some Equal \<longleftrightarrow> c a b \<noteq> Some Less \<and> c b a \<noteq> Some Less"
  using less_or [of a b] greater_iff [of a b] by auto

end

text \<open>What a range has to be of the column whose rows it is to speak for.\<close>

definition covers :: "column_range \<Rightarrow> column \<Rightarrow> bool" where
  "covers rng col \<longleftrightarrow>
     (cr_null_count rng = 0 \<longrightarrow> (\<forall>i < col_len col. col_get col i \<noteq> Some VNull)) \<and>
     (cr_null_count rng = cr_rows rng \<longrightarrow> col_values col = {}) \<and>
     (\<forall>m. cr_min rng = Some m \<longrightarrow> of_kind (col_ty col) m \<and> (\<forall>v \<in> col_values col. total_cmp v m \<noteq> Some Less)) \<and>
     (\<forall>m. cr_max rng = Some m \<longrightarrow> of_kind (col_ty col) m \<and> (\<forall>v \<in> col_values col. total_cmp v m \<noteq> Some Greater)) \<and>
     (is_list (col_ty col) \<longrightarrow> cr_min rng = None)"

lemma of_kind_matches: "matches_kind ty v \<Longrightarrow> value_ok v \<Longrightarrow> of_kind ty v"
  by (induction ty v rule: matches_kind.induct) (auto split: data_type.splits)

lemma range_is_false_sound:
  assumes "covers rng col" "x \<in> col_values col" "of_kind (col_ty col) x" "of_kind (col_ty col) v"
    "apply_cmp op x v = Some True" "(op = Eq \<or> op = Ne) \<Longrightarrow> \<not> is_nan_value v"
  shows "\<not> range_is_false op rng v"
proof
  assume false: "range_is_false op rng v"
  let ?ty = "col_ty col"
  have mn: "of_kind ?ty m \<and> total_cmp x m \<noteq> Some Less" if "cr_min rng = Some m" for m
    using assms(1,2) that by (simp add: covers_def)
  have mx: "of_kind ?ty m \<and> total_cmp m x \<noteq> Some Less" if "cr_max rng = Some m" for m
    using assms(1,2,3) that value_order.greater_iff [of ?ty x m] by (simp add: covers_def)
  note split = value_order.less_split [where ty = ?ty]
  note gr = value_order.greater_iff [where ty = ?ty]
  show False
  proof (cases op)
    case Eq
    then have "total_cmp x v = Some Equal" using assms sql_eq_iff [OF assms(3,4)] by simp
    then have n: "total_cmp x v \<noteq> Some Less" "total_cmp v x \<noteq> Some Less"
      using value_order.equal_neither [OF assms(3,4)] by blast+
    from false Eq consider m where "cr_min rng = Some m" "total_cmp v m = Some Less"
      | m where "cr_max rng = Some m" "total_cmp v m = Some Greater"
      by (auto simp: Option.bind_eq_Some_conv)
    then show False
    proof cases
      case 1
      then show False using split [OF assms(4,3), of m] mn [OF 1(1)] n by blast
    next
      case 2
      then show False using split [of m x v] mx [OF 2(1)] n gr [OF assms(4), of m] assms(3,4) by blast
    qed
  next
    case Lt
    then obtain m where m: "cr_min rng = Some m" "total_cmp m v \<noteq> Some Less" using false by (auto simp: Option.bind_eq_Some_conv)
    have "total_cmp x v = Some Less" using assms(5) Lt by simp
    then show False using split [OF assms(3), of m v] mn [OF m(1)] m(2) assms(4) by blast
  next
    case Le
    then obtain m where m: "cr_min rng = Some m" "total_cmp m v = Some Greater" using false by (auto simp: Option.bind_eq_Some_conv)
    have "total_cmp x v \<noteq> Some Greater" using assms(5) Le by auto
    then show False using split [OF assms(4,3), of m] mn [OF m(1)] m(2) gr [of m v] gr [OF assms(3,4)] assms(4) by blast
  next
    case Gt
    then obtain m where m: "cr_max rng = Some m" "total_cmp m v \<noteq> Some Greater" using false by (auto simp: Option.bind_eq_Some_conv)
    have "total_cmp v x = Some Less" using assms(5) Gt gr [OF assms(3,4)] by auto
    then show False using split [OF assms(4), of m x] mx [OF m(1)] m(2) gr [of m v] assms(3,4) by blast
  next
    case Ge
    then obtain m where m: "cr_max rng = Some m" "total_cmp m v = Some Less" using false by (auto simp: Option.bind_eq_Some_conv)
    have "total_cmp x v \<noteq> Some Less" using assms(5) Ge by auto
    then show False using split [of m x v] mx [OF m(1)] m(2) assms(3,4) by blast
  next
    case Ne
    then obtain m n where m: "cr_min rng = Some m" "cr_max rng = Some n" "total_cmp m v = Some Equal" "total_cmp n v = Some Equal"
      using false by (auto split: option.splits)
    have k: "of_kind ?ty m" "of_kind ?ty n" using mn [OF m(1)] mx [OF m(2)] by blast+
    have "total_cmp x v = Some Equal"
      using split [OF assms(3) k(1) assms(4)] split [OF assms(4) k(2) assms(3)] mn [OF m(1)] mx [OF m(2)]
        value_order.equal_neither [OF k(1) assms(4)] value_order.equal_neither [OF k(2) assms(4)]
        value_order.equal_neither [OF assms(3,4)] m(3,4) by blast
    moreover have "\<not> is_list ?ty" using assms(1) m(1) by (auto simp: covers_def)
    then have "\<not> has_nan x \<and> \<not> has_null x"
      using calculation assms(3,4,6) Ne float_equal_nan
      by (cases x; cases ?ty) (auto simp: is_nan_value_def is_list_def split: val.splits)
    ultimately have "sql_eq x v = Some True" using sql_eq_iff [OF assms(3,4)] by blast
    then show False using assms(5) Ne by simp
  qed
qed

text \<open>Every value that an expression carries, and what the Rust types guarantee of them.\<close>

function expr_values :: "expr \<Rightarrow> val list" where
  "expr_values (EColumn i) = []"
| "expr_values (ELiteral v ty) = [v]"
| "expr_values (ECmp op l r) = expr_values l @ expr_values r"
| "expr_values (EAnd parts) = concat (map expr_values parts)"
| "expr_values (EOr parts) = concat (map expr_values parts)"
| "expr_values (ENot e) = expr_values e"
| "expr_values (EIsNull e) = expr_values e"
| "expr_values (EIsNotNull e) = expr_values e"
| "expr_values (EInList e vals negated) = expr_values e @ vals"
| "expr_values (EBetween e low high negated) = expr_values e @ expr_values low @ expr_values high"
| "expr_values (ELike e pattern case_insensitive negated) = expr_values e"
| "expr_values (EArith op l r) = expr_values l @ expr_values r"
| "expr_values (ENeg e) = expr_values e"
| "expr_values (ECase branches otherwise) =
     concat (map (\<lambda>(cond, res). expr_values cond @ expr_values res) branches) @
     (case otherwise of None \<Rightarrow> [] | Some e \<Rightarrow> expr_values e)"
| "expr_values (ECast e to) = expr_values e"
| "expr_values (EFunc f args) = concat (map expr_values args)"
  by pat_completeness auto
termination
  by (relation "measure size")
    (auto simp: less_Suc_eq_le intro!: less_imp_le dest: size_list_mem size_pair_list1 size_pair_list2 intro: trans_less_add1)

definition expr_ok :: "expr \<Rightarrow> bool" where
  "expr_ok e \<longleftrightarrow> (\<forall>v \<in> set (expr_values e). value_ok v)"

lemma expr_ok_parts: "expr_ok (EAnd parts) \<Longrightarrow> p \<in> set parts \<Longrightarrow> expr_ok p" "expr_ok (EOr parts) \<Longrightarrow> p \<in> set parts \<Longrightarrow> expr_ok p"
  by (auto simp: expr_ok_def)

section \<open>The conjuncts\<close>

text \<open>A row where a comparison with a value holds is a value of the column that compares so.\<close>

lemma compare_scalar_true:
  assumes "compare_scalar col op v = Some (Inr out)" "col_wf col" "value_ok v" "kleene_row out i = Some True"
  obtains x where "x \<in> col_values col" "of_kind (col_ty col) x" "of_kind (col_ty col) v" "v \<noteq> VNull" "apply_cmp op x v = Some True"
proof -
  have i: "i < col_len col" using kleene_row_len [OF assms(4)] compare_scalar_rows(1) [OF assms(1,2)] by (simp add: bool_col_def)
  obtain x where x: "col_get col i = Some x" "cmp_rows op x v = Some True"
    using compare_scalar_rows(2) [OF assms(1,2) i] assms(4) by auto
  then have n: "x \<noteq> VNull" "v \<noteq> VNull" "apply_cmp op x v = Some True" by (auto simp: cmp_rows_def split: if_splits)
  have "matches_kind (col_ty col) v" using assms(1) n(2) by (auto simp: compare_scalar_def split: if_splits)
  then have "of_kind (col_ty col) v" using of_kind_matches assms(3) by blast
  moreover have "of_kind (col_ty col) x"
    using col_get_typed [OF assms(2) i] x(1) n(1) has_type_of_kind [of "col_ty col" x] assms(2) by (cases col) auto
  ultimately show thesis using that x(1) n i by (auto simp: col_values_def)
qed

lemma eval_column:
  assumes "batch_wf batch" "eval K batch (EColumn c) = Some (Inr col)"
  shows "c < length (bt_columns batch)" "col = bt_columns batch ! c" "col_wf col" "col_len col = bt_rows batch"
  using assms by (auto simp: nth_opt_def batch_wf_def split: if_splits)

lemma column_and_value_cases:
  assumes "column_and_value op l r = Some (c, v, op')"
  obtains t where "l = EColumn c" "r = ELiteral v t" "op' = op" | t where "l = ELiteral v t" "r = EColumn c" "op' = cmp_flip op"
proof (cases l)
  case (EColumn x)
  then show thesis using assms that by (cases r) (auto simp: column_and_value_def)
next
  case (ELiteral x y)
  then show thesis using assms that by (cases r) (auto simp: column_and_value_def)
qed (use assms in \<open>simp_all add: column_and_value_def\<close>)

lemma column_and_value_eval:
  assumes "column_and_value op l r = Some (c, v, op')" "eval_cmp op l r (eval K batch l) (eval K batch r) = Some (Inr out)"
  obtains col where "eval K batch (EColumn c) = Some (Inr col)" "compare_scalar col op' v = Some (Inr out)"
    "v \<in> set (expr_values l @ expr_values r)"
  using assms(1)
proof (cases rule: column_and_value_cases)
  case (1 t)
  then show thesis using assms(2) that by (auto simp: eval_cmp_def simp del: eval.simps)
next
  case (2 t)
  then show thesis using assms(2) that by (auto simp: eval_cmp_def simp del: eval.simps)
qed

lemma is_null_column_rows:
  assumes "is_null_column col want = Some out" "col_wf col" "kleene_row out i = Some True"
  shows "i < col_len col" "(col_get col i = Some VNull) \<noteq> want"
proof -
  define ns where "ns = map (\<lambda>i. col_get col i = Some VNull) [0..<col_len col]"
  have "map (col_is_null col) [0..<col_len col] = map Some ns" using is_null_total [OF assms(2)] by (simp add: ns_def)
  then have t: "those (map (col_is_null col) [0..<col_len col]) = Some ns" by (simp only: those_map_Some)
  define bm where "bm = fold (\<lambda>n bm. bm_push bm (n \<noteq> want)) ns (bm_new_valid 0)"
  have "bm = fold (\<lambda>v b. bm_push b v) (map (\<lambda>n. n \<noteq> want) ns) (bm_new_null 0)"
    by (simp add: bm_def fold_map bm_new_valid_0 comp_def)
  then have bm: "bm_wf bm" "bm_bits bm = map (\<lambda>n. n \<noteq> want) ns"
    using bm_seq.push_all [OF bm_seq.wf_empty, of "map (\<lambda>n. n \<noteq> want) ns"] by (simp_all add: bm_seq.bits_empty)
  have "from_parts TBool (CBool bm) None = Inr out"
    using assms(1) t bm_def by (auto simp: is_null_column_def bool_column_def split: sum.splits)
  then have out: "out = Column TBool (CBool bm) None 0" by (simp add: from_parts_def)
  have len: "bm_len bm = col_len col" using bm(2) by (simp add: ns_def flip: length_bm_bits)
  have i: "i < bm_len bm" using kleene_row_len [OF assms(3)] out by (simp add: col_len_def)
  then show "i < col_len col" using len by simp
  have "bm_bits bm ! i" using assms(3) i out bm(1) by (simp add: kleene_row_def col_is_null_def col_len_def bm_get_wf)
  then show "(col_get col i = Some VNull) \<noteq> want" using i len bm(2) by (simp add: ns_def)
qed

lemma in_list_loop_true:
  assumes "in_list_loop col vals acc = Some (Inr (Some out))" "kleene_row out i = Some True"
  shows "(\<exists>a. acc = Some a \<and> kleene_row a i = Some True) \<or>
    (\<exists>v \<in> set vals. \<exists>c. compare_scalar col Eq v = Some (Inr c) \<and> kleene_row c i = Some True)"
  using assms
proof (induction vals arbitrary: acc)
  case (Cons v vals)
  then obtain eq where eq: "compare_scalar col Eq v = Some (Inr eq)" by auto
  show ?case
  proof (cases acc)
    case None
    then show ?thesis using Cons.IH [of "Some eq"] Cons.prems eq by auto
  next
    case (Some prev)
    then obtain c where c: "col_or prev eq = Some c" "in_list_loop col vals (Some c) = Some (Inr (Some out))"
      using Cons.prems eq by auto
    then show ?thesis using Cons.IH [OF c(2) Cons.prems(2)] col_or_true [OF c(1)] eq Some by auto
  qed
qed simp

lemma eval_in_list_true:
  assumes "eval_in_list (Some (Inr col)) vals False = Some (Inr out)" "kleene_row out i = Some True"
  shows "\<exists>v \<in> set vals. \<exists>c. compare_scalar col Eq v = Some (Inr c) \<and> kleene_row c i = Some True"
proof -
  obtain acc where acc: "in_list_loop col vals None = Some (Inr acc)"
    "(case acc of None \<Rightarrow> expect (bool_column (bm_new_null (col_len col)) None) | Some c \<Rightarrow> eret c) = (Some (Inr out) :: column exec)"
    using assms(1) by (auto simp: eval_in_list_def negate_if_def)
  show ?thesis
  proof (cases acc)
    case None
    then have "from_parts TBool (CBool (bm_new_null (col_len col))) None = Inr out"
      using acc(2) by (auto simp: bool_column_def split: sum.splits)
    then have out: "out = Column TBool (CBool (bm_new_null (col_len col))) None 0" by (simp add: from_parts_def)
    have "i < bm_len (bm_new_null (col_len col))" using kleene_row_len [OF assms(2)] out by (simp add: col_len_def)
    then have False using assms(2) out bm_new_null_spec [of "col_len col"]
      by (simp add: kleene_row_def col_is_null_def col_len_def bm_get_wf) (simp add: bm_new_null_def)
    then show ?thesis ..
  next
    case (Some c)
    then show ?thesis using in_list_loop_true [of col vals None c i] acc assms(2) by simp
  qed
qed

section \<open>Soundness\<close>

lemma column_of_Some: "column_of e = Some c \<longleftrightarrow> e = EColumn c"
  by (cases e) (auto simp: column_of_def)

lemma all_outside_mem:
  assumes "all_outside rng vals" "v \<in> set vals" "v \<noteq> VNull"
  shows "range_is_false Eq rng v"
  using assms by (induction rng vals rule: all_outside.induct) (auto split: option.splits if_splits)

definition stats_cover :: "(nat \<Rightarrow> column_range option) \<Rightarrow> batch \<Rightarrow> bool" where
  "stats_cover stats batch \<longleftrightarrow>
     (\<forall>c < length (bt_columns batch). \<forall>rng. stats c = Some rng \<longrightarrow> covers rng (bt_columns batch ! c))"

lemma cmp_is_false_sound:
  assumes "batch_wf batch" "stats_cover stats batch" "expr_ok (ECmp op l r)" "cmp_is_false op l r stats"
    "eval_cmp op l r (eval K batch l) (eval K batch r) = Some (Inr out)" "kleene_row out i = Some True"
  shows False
proof -
  obtain c v op' where cv: "column_and_value op l r = Some (c, v, op')"
    using assms(4) by (auto simp: cmp_is_false_def split: option.splits)
  obtain col where col: "eval K batch (EColumn c) = Some (Inr col)" "compare_scalar col op' v = Some (Inr out)" "value_ok v"
    using column_and_value_eval [OF cv assms(5)] assms(3) by (auto simp: expr_ok_def simp del: eval.simps)
  note b = eval_column [OF assms(1) col(1)]
  obtain x where x: "x \<in> col_values col" "of_kind (col_ty col) x" "of_kind (col_ty col) v" "v \<noteq> VNull" "apply_cmp op' x v = Some True"
    using compare_scalar_true [OF col(2) b(3) col(3) assms(6)] .
  obtain rng where rng: "stats c = Some rng"
    "cr_null_count rng = cr_rows rng \<or> ((op' = Eq \<or> op' = Ne) \<longrightarrow> \<not> is_nan_value v) \<and> range_is_false op' rng v"
    using assms(4) cv x(4) by (auto simp: cmp_is_false_def split: option.splits if_splits)
  have cov: "covers rng col" using assms(2) rng(1) b(1,2) by (simp add: stats_cover_def)
  then show False using rng(2) x(1) range_is_false_sound [OF cov x(1,2,3,5)] by (auto simp: covers_def)
qed

lemma zone_leaf:
  assumes "batch_wf batch" "stats_cover stats batch" "conjunct_is_false stats c" "\<And>parts. c \<noteq> EOr parts" "expr_ok c"
    "eval K batch c = Some (Inr out)"
  shows "kleene_row out i \<noteq> Some True"
proof
  assume true: "kleene_row out i = Some True"
  show False
  proof (cases c)
    case (ECmp op l r)
    then show False using cmp_is_false_sound [OF assms(1,2) _ _ _ true, of op l r] assms(3,5,6) by auto
  next
    case (EIsNull e)
    then obtain k rng where k: "e = EColumn k" "stats k = Some rng" "cr_null_count rng = 0"
      using assms(3) by (auto simp: column_of_Some split: option.splits)
    obtain col where col: "eval K batch (EColumn k) = Some (Inr col)" "is_null_column col False = Some out"
      using assms(6) EIsNull k(1) by (auto simp del: eval.simps(1))
    note b = eval_column [OF assms(1) col(1)]
    have "covers rng col" using assms(2) k(2) b(1,2) by (simp add: stats_cover_def)
    then show False using is_null_column_rows [OF col(2) b(3) true] k(3) by (simp add: covers_def)
  next
    case (EIsNotNull e)
    then obtain k rng where k: "e = EColumn k" "stats k = Some rng" "cr_null_count rng = cr_rows rng"
      using assms(3) by (auto simp: column_of_Some split: option.splits)
    obtain col where col: "eval K batch (EColumn k) = Some (Inr col)" "is_null_column col True = Some out"
      using assms(6) EIsNotNull k(1) by (auto simp del: eval.simps(1))
    note b = eval_column [OF assms(1) col(1)] and r = is_null_column_rows [OF col(2) eval_column(3) [OF assms(1) col(1)] true]
    have "covers rng col" using assms(2) k(2) b(1,2) by (simp add: stats_cover_def)
    then show False using r k(3) col_get_typed [OF b(3) r(1)] by (auto simp: covers_def col_values_def)
  next
    case (EInList e vals negated)
    then obtain k rng where k: "e = EColumn k" "stats k = Some rng" "all_outside rng vals" "\<not> negated"
      using assms(3) by (auto simp: in_list_is_false_def column_of_Some split: option.splits)
    obtain col where col: "eval K batch (EColumn k) = Some (Inr col)" "eval_in_list (Some (Inr col)) vals False = Some (Inr out)"
      using assms(6) EInList k by (auto simp: eval_in_list_def simp del: eval.simps(1))
    note b = eval_column [OF assms(1) col(1)]
    obtain v cc where v: "v \<in> set vals" "compare_scalar col Eq v = Some (Inr cc)" "kleene_row cc i = Some True"
      using eval_in_list_true [OF col(2) true] by blast
    have "value_ok v" using assms(5) EInList v(1) by (simp add: expr_ok_def)
    then obtain x where x: "x \<in> col_values col" "of_kind (col_ty col) x" "of_kind (col_ty col) v" "v \<noteq> VNull" "apply_cmp Eq x v = Some True"
      using compare_scalar_true [OF v(2) b(3) _ v(3)] by blast
    have "covers rng col" using assms(2) k(2) b(1,2) by (simp add: stats_cover_def)
    moreover have "\<not> is_nan_value v" using x(5) by (cases v; cases x) (auto simp: is_nan_value_def)
    ultimately show False using range_is_false_sound [OF _ x(1,2,3,5)] all_outside_mem [OF k(3) v(1) x(4)] by blast
  next
    case (EBetween e low high negated)
    then obtain k where e: "e = EColumn k" "\<not> negated" and bf: "between_is_false (EColumn k) low high stats"
      using assms(3) by (auto simp: between_is_false_def column_of_Some split: option.splits)
    obtain lo tl where low: "low = ELiteral lo tl" using bf by (cases low) (auto simp: between_is_false_def split: option.splits)
    obtain hi th where high: "high = ELiteral hi th" using bf low by (cases high) (auto simp: between_is_false_def split: option.splits)
    obtain rng where rng: "stats k = Some rng"
      "(\<exists>m. cr_min rng = Some m \<and> total_cmp hi m = Some Less) \<or> (\<exists>m. cr_max rng = Some m \<and> total_cmp lo m = Some Greater)"
      using bf low high by (auto simp: between_is_false_def column_of_def split: option.splits if_splits)
    obtain col ge le where col: "eval K batch (EColumn k) = Some (Inr col)" "compare_scalar col Ge lo = Some (Inr ge)"
      "compare_scalar col Le hi = Some (Inr le)" "col_and ge le = Some out"
      using assms(6) EBetween e low high by (auto simp: eval_cmp_def negate_if_def simp del: eval.simps(1,2))
    note b = eval_column [OF assms(1) col(1)]
    have cov: "covers rng col" using assms(2) rng(1) b(1,2) by (simp add: stats_cover_def)
    have ok: "value_ok lo" "value_ok hi" using assms(5) EBetween low high by (simp_all add: expr_ok_def)
    have t: "kleene_row ge i = Some True" "kleene_row le i = Some True" using col_and_true [OF col(4) true] by blast+
    obtain x where x: "x \<in> col_values col" "of_kind (col_ty col) x" "of_kind (col_ty col) lo" "apply_cmp Ge x lo = Some True"
      using compare_scalar_true [OF col(2) b(3) ok(1) t(1)] by blast
    obtain y where y: "y \<in> col_values col" "of_kind (col_ty col) y" "of_kind (col_ty col) hi" "apply_cmp Le y hi = Some True"
      using compare_scalar_true [OF col(3) b(3) ok(2) t(2)] by blast
    have "\<not> range_is_false Ge rng lo" "\<not> range_is_false Le rng hi"
      using range_is_false_sound [OF cov x(1,2,3,4)] range_is_false_sound [OF cov y(1,2,3,4)] by simp_all
    then show False using rng(2) cov x(3) y(3) value_order.greater_iff [where ty = "col_ty col"]
      by (auto simp: covers_def)
  qed (use assms(3,4) in auto)
qed

text \<open>The statistics of a column cover it, and so they do any column made of some of its rows.\<close>

definition range_of_stats :: "column_stats \<Rightarrow> column_range" where
  "range_of_stats st = \<lparr>cr_rows = st_rows st, cr_null_count = st_null_count st, cr_min = st_min st, cr_max = st_max st\<rparr>"

lemma stats_covers:
  assumes "col_wf col" "col_stats col = Some st"
  shows "covers (range_of_stats st) col"
proof -
  have st: "st_rows st = col_len col" "st_null_count st = length (filter (\<lambda>i. col_get col i = Some VNull) [0..<col_len col])"
    "\<not> is_list (col_ty col) \<Longrightarrow> least_of (col_values col) (st_min st) \<and> greatest_of (col_values col) (st_max st)"
    "is_list (col_ty col) \<Longrightarrow> st_min st = None \<and> st_max st = None"
    using col_stats_spec [OF assms(1)] assms(2) by (auto simp: is_list_def split: data_type.splits if_splits)
  have kind: "of_kind (col_ty col) v" if "v \<in> col_values col" for v
    using that col_get_typed [OF assms(1)] has_type_of_kind [of "col_ty col" v] assms(1)
    by (cases col) (fastforce simp: col_values_def)
  have "col_get col i \<noteq> Some VNull" if "st_null_count st = 0" "i < col_len col" for i
    using that st(2) by (auto simp: filter_empty_conv)
  moreover have "col_values col = {}" if "st_null_count st = st_rows st"
  proof -
    have "length (filter (\<lambda>i. col_get col i = Some VNull) [0..<col_len col]) = length [0..<col_len col]"
      using that st(1,2) by simp
    then have "i \<in> set [0..<col_len col] \<Longrightarrow> col_get col i = Some VNull" for i
      using length_filter_less [of i "[0..<col_len col]" "\<lambda>i. col_get col i = Some VNull"] by auto
    then show ?thesis by (auto simp: col_values_def)
  qed
  ultimately show ?thesis using st(3,4) kind
    by (cases "is_list (col_ty col)") (auto simp: covers_def range_of_stats_def least_of_def greatest_of_def)
qed

definition batch_zone :: "batch \<Rightarrow> nat \<Rightarrow> column_range option" where
  "batch_zone batch c = map_option range_of_stats (Option.bind (nth_opt (bt_columns batch) c) col_stats)"

lemma batch_zone_covers: "batch_wf batch \<Longrightarrow> stats_cover (batch_zone batch) batch"
  by (auto simp: stats_cover_def batch_zone_def batch_wf_def nth_opt_def Option.bind_eq_Some_conv intro!: stats_covers)

section \<open>Soundness\<close>

lemma zone_sound:
  assumes "batch_wf batch" "expr_ok pred" "eval K batch pred = Some (Inr out)" "kleene_row out i = Some True" "stats_cover stats batch"
  shows "may_match stats pred"
  by (rule zone.sound [where ok = expr_ok, OF _ _ _ assms(2-4)]) (use expr_ok_parts zone_leaf [OF assms(1,5)] in blast)+

lemma index_sound:
  assumes "batch_wf batch" "expr_ok pred" "eval K batch pred = Some (Inr out)" "kleene_row out i = Some True"
    "\<And>c v x. c < length (bt_columns batch) \<Longrightarrow> probe c v = Some False \<Longrightarrow> value_ok v \<Longrightarrow> x \<in> col_values (bt_columns batch ! c) \<Longrightarrow>
       sql_eq x v \<noteq> Some True"
  shows "index_may_match probe pred"
proof -
  have deny: False if d: "compare_scalar col Eq v = Some (Inr cc)" "kleene_row cc j = Some True" "probe c v = Some False" "value_ok v"
    "eval K batch (EColumn c) = Some (Inr col)" for col v cc j c
  proof -
    note b = eval_column [OF assms(1) d(5)]
    obtain x where "x \<in> col_values col" "apply_cmp Eq x v = Some True"
      using compare_scalar_true [OF d(1) b(3) d(4,2)] by blast
    then show False using assms(5) [OF b(1) d(3,4)] b(2) by simp
  qed
  have "kleene_row o' i \<noteq> Some True" if false: "index_conjunct_is_false probe c" and ok: "expr_ok c" and ev: "eval K batch c = Some (Inr o')"
    and nor: "\<And>parts. c \<noteq> EOr parts" for c o'
  proof
    assume true: "kleene_row o' i = Some True"
    show False
    proof (cases c)
      case (ECmp op l r)
      then obtain k v op' where cv: "op = Eq" "column_and_value Eq l r = Some (k, v, op')" "probe k v = Some False"
        using false by (auto simp: index_eq_is_false_def split: option.splits)
      have ev': "eval_cmp Eq l r (eval K batch l) (eval K batch r) = Some (Inr o')" using ev ECmp cv(1) by auto
      obtain col where col: "eval K batch (EColumn k) = Some (Inr col)" "compare_scalar col op' v = Some (Inr o')" "value_ok v"
        using column_and_value_eval [OF cv(2) ev'] ok ECmp by (auto simp: expr_ok_def simp del: eval.simps)
      moreover have "op' = Eq" by (rule column_and_value_cases [OF cv(2)]) simp_all
      ultimately show False using deny true cv(3) by blast
    next
      case (EInList e vals negated)
      then obtain k where k: "e = EColumn k" "\<not> negated" "\<forall>v \<in> set vals. v \<noteq> VNull \<longrightarrow> probe k v = Some False"
        using false by (auto simp: column_of_Some split: option.splits)
      obtain col where col: "eval K batch (EColumn k) = Some (Inr col)" "eval_in_list (Some (Inr col)) vals False = Some (Inr o')"
        using ev EInList k by (auto simp: eval_in_list_def simp del: eval.simps(1))
      obtain v cc where v: "v \<in> set vals" "compare_scalar col Eq v = Some (Inr cc)" "kleene_row cc i = Some True"
        using eval_in_list_true [OF col(2) true] by blast
      have ok': "value_ok v" using ok EInList v(1) by (simp add: expr_ok_def)
      have "v \<noteq> VNull" using compare_scalar_true [OF v(2) eval_column(3) [OF assms(1) col(1)] ok' v(3)] by blast
      then show False using deny [OF v(2,3) _ ok' col(1)] k(3) v(1) by blast
    qed (use false nor in auto)
  qed
  note leaf = this
  show ?thesis
    by (rule index.sound [where ok = expr_ok, OF _ _ _ assms(2-4)]) (use expr_ok_parts leaf in blast)+
qed

section \<open>Properties of pruning\<close>

text \<open>
  C34. Zone-map pruning never drops a row that matches: when a predicate evaluates to true on
  some row of a batch, \<open>may_match\<close> answers true for any statistics that cover the batch, and
  those that \<open>Column::stats\<close> computes do. This holds for every predicate, whatever the
  arithmetic, cast and function kernels compute, over NULLs, NaN, either zero and decimals of
  any scale.
\<close>

theorem zone_pruning_sound:
  assumes "batch_wf batch" "expr_ok pred" "eval K batch pred = Some (Inr out)" "kleene_row out i = Some True"
  shows "may_match (batch_zone batch) pred \<and> (stats_cover stats batch \<longrightarrow> may_match stats pred)"
  using zone_sound [OF assms] batch_zone_covers [OF assms(1)] by blast

theorem zone_pruning_sound_witness:
  "may_match (batch_zone \<lparr>bt_fields = [\<lparr>fd_name = [97], fd_ty = TBool\<rparr>],
      bt_columns = [Column TBool (CBool (bm_new_valid 1)) None 0], bt_rows = 1\<rparr>) (EAnd [EColumn 0])"
proof -
  let ?col = "Column TBool (CBool (bm_new_valid 1)) None 0"
  let ?b = "\<lparr>bt_fields = [\<lparr>fd_name = [97], fd_ty = TBool\<rparr>], bt_columns = [?col], bt_rows = 1\<rparr>"
  let ?K = "\<lparr>k_arith = \<lambda>_ _ _ _. None, k_neg = \<lambda>_. None, k_cast = \<lambda>_ _. None, k_func = \<lambda>_ _ _. None, k_lower = \<lambda>_. []\<rparr>"
  have l: "bm_len (bm_new_valid 1) = 1" by (simp add: bm_new_valid_def)
  have wf: "batch_wf ?b" using bm_new_valid_spec(1) [of 1] l by (simp add: batch_wf_def col_len_def validity_ok_def)
  have "kleene_row ?col 0 = Some True"
    using bm_new_valid_spec [of 1] l by (simp add: kleene_row_def col_is_null_def col_len_def bm_get_wf)
  moreover have "eval ?K ?b (EAnd [EColumn 0]) = Some (Inr ?col)"
    by (simp add: eval_fold_def nth_opt_def eret_def expect_def)
  ultimately show ?thesis using zone_pruning_sound [OF wf, of "EAnd [EColumn 0]" ?K ?col 0] by (simp add: expr_ok_def)
qed

text \<open>
  C35. Index pruning never drops a row that matches, as long as the index does not deny a
  value that SQL holds equal to one of the column: then a row group that \<open>index_may_match\<close>
  skips has no row on which the predicate is true.
\<close>

theorem index_pruning_sound:
  assumes "batch_wf batch" "expr_ok pred" "eval K batch pred = Some (Inr out)" "kleene_row out i = Some True"
    "\<And>c v x. c < length (bt_columns batch) \<Longrightarrow> probe c v = Some False \<Longrightarrow> x \<in> col_values (bt_columns batch ! c) \<Longrightarrow>
       sql_eq x v \<noteq> Some True"
  shows "index_may_match probe pred"
  by (rule index_sound [OF assms(1-4)]) (use assms(5) in blast)

theorem index_pruning_sound_witness:
  "index_may_match (\<lambda>c v. Some (v \<noteq> VInt64 9)) (EAnd [EColumn 0])"
proof -
  let ?col = "Column TBool (CBool (bm_new_valid 1)) None 0"
  let ?b = "\<lparr>bt_fields = [\<lparr>fd_name = [97], fd_ty = TBool\<rparr>], bt_columns = [?col], bt_rows = 1\<rparr>"
  let ?K = "\<lparr>k_arith = \<lambda>_ _ _ _. None, k_neg = \<lambda>_. None, k_cast = \<lambda>_ _. None, k_func = \<lambda>_ _ _. None, k_lower = \<lambda>_. []\<rparr>"
  have l: "bm_len (bm_new_valid 1) = 1" by (simp add: bm_new_valid_def)
  have wf: "batch_wf ?b" using bm_new_valid_spec(1) [of 1] l by (simp add: batch_wf_def col_len_def validity_ok_def)
  have row: "kleene_row ?col 0 = Some True"
    using bm_new_valid_spec [of 1] l by (simp add: kleene_row_def col_is_null_def col_len_def bm_get_wf)
  have ev: "eval ?K ?b (EAnd [EColumn 0]) = Some (Inr ?col)"
    by (simp add: eval_fold_def nth_opt_def eret_def expect_def)
  have "x = VBool True" if "x \<in> col_values ?col" for x
    using that bm_new_valid_spec [of 1] l by (auto simp: col_values_def col_is_null_def col_len_def bm_get_wf split: if_splits)
  then have "sql_eq x v \<noteq> Some True" if "x \<in> col_values ?col" "Some (v \<noteq> VInt64 9) = Some False" for x v
    using that by force
  then show ?thesis using index_pruning_sound [OF wf, of "EAnd [EColumn 0]" ?K ?col 0 "\<lambda>c v. Some (v \<noteq> VInt64 9)"] row ev
    by (simp add: expr_ok_def del: eval.simps)
qed

end
