(* ===== verification/Segment_Footer.thy ===== *)
theory Segment_Footer
  imports Frames Prune
begin

text \<open>
  The footer of a segment file (\<open>src/storage/segment/footer.rs\<close>) with its schema, the
  metadata of every chunk and the index directory (\<open>directory.rs\<close>), and the bounding of
  statistics before they are stored. Offsets, lengths and counts are natural numbers; the
  codec's theorem states the limit of 64 bits.
\<close>

section \<open>Data\<close>

record raw_chunk =
  rc_offset :: nat
  rc_len :: nat
  rc_crc :: u32
  rc_encoding :: u64
  rc_null_count :: nat
  rc_min :: "val option"
  rc_max :: "val option"

record raw_row_group =
  rg_rows :: nat
  rg_chunks :: "raw_chunk list"

record raw_index_entry =
  ri_kind :: u64
  ri_row_group :: "nat option"
  ri_columns :: "nat list"
  ri_offset :: nat
  ri_len :: nat
  ri_crc :: u32
  ri_params :: "byte list"

record footer =
  ft_fields :: "field list"
  ft_row_groups :: "raw_row_group list"
  ft_indexes :: "raw_index_entry list"

text \<open>A decoding error and the column it happened in.\<close>

datatype located = Located decode_error "rstr option"

definition loc :: "decode_error \<Rightarrow> located" where
  "loc e = Located e None"

definition loc_in :: "rstr \<Rightarrow> decode_error \<Rightarrow> located" where
  "loc_in column e = Located e (Some column)"

section \<open>The index directory\<close>

definition encode_directory :: "raw_index_entry list \<Rightarrow> wr" where
  "encode_directory entries = wlist (\<lambda>e. wrecord (wseq
     [wt (sink_uvarint (ri_kind e)), w_nat (case ri_row_group e of None \<Rightarrow> 0 | Some rg \<Rightarrow> rg + 1),
      wlist w_nat (ri_columns e), w_nat (ri_offset e), w_nat (ri_len e), wt (sink_u32 (ri_crc e)), wt (sink_bytes (ri_params e))]))
    entries"

definition decode_directory :: "raw_index_entry list rd" where
  "decode_directory = list_by id 1 (record_by id (
     rbind cur_uvarint (\<lambda>kind. rbind (nat_by id) (\<lambda>rg_plus_1.
     rbind (list_by id 1 (nat_by id)) (\<lambda>columns. rbind (nat_by id) (\<lambda>offset. rbind (nat_by id) (\<lambda>len.
     rbind cur_u32 (\<lambda>crc. rbind cur_bytes (\<lambda>params.
       rret \<lparr>ri_kind = kind, ri_row_group = (if rg_plus_1 = 0 then None else Some (rg_plus_1 - 1)), ri_columns = columns,
         ri_offset = offset, ri_len = len, ri_crc = crc, ri_params = params\<rparr>)))))))))"

section \<open>The footer\<close>

definition encode_fields :: "field list \<Rightarrow> wr" where
  "encode_fields fs = wlist (\<lambda>f. wrecord (wseq [w_str (fd_name f), wt (encode_type (fd_ty f))])) fs"

definition encode_chunk_meta :: "raw_chunk \<Rightarrow> data_type \<Rightarrow> wr" where
  "encode_chunk_meta chunk ty = wseq
     [w_nat (rc_offset chunk), w_nat (rc_len chunk), wt (sink_u32 (rc_crc chunk)), wt (sink_uvarint (rc_encoding chunk)),
      w_nat (rc_null_count chunk), encode_opt (rc_min chunk) ty, encode_opt (rc_max chunk) ty]"

definition encode_row_groups :: "footer \<Rightarrow> wr" where
  "encode_row_groups f = wlist (\<lambda>rg. wrecord (wseq (w_nat (rg_rows rg) #
     map (\<lambda>(chunk, field). wrecord (encode_chunk_meta chunk (fd_ty field))) (zip (rg_chunks rg) (ft_fields f)))))
    (ft_row_groups f)"

definition encode_footer :: "footer \<Rightarrow> wr" where
  "encode_footer f = wseq
     [wrecord (encode_fields (ft_fields f)), wrecord (encode_row_groups f), wrecord (encode_directory (ft_indexes f))]"

definition decode_fields :: "(located, field list) reader" where
  "decode_fields = record_by loc (list_by loc 1 (record_by loc (
     rbind (map_err loc cur_str) (\<lambda>name. rbind (map_err (loc_in name) decode_type) (\<lambda>ty.
       rret \<lparr>fd_name = name, fd_ty = ty\<rparr>)))))"

definition decode_chunk_meta :: "data_type \<Rightarrow> nat \<Rightarrow> rstr \<Rightarrow> (located, raw_chunk) reader" where
  "decode_chunk_meta ty rows column =
     (let h = loc_in column
      in record_by h (
     rbind (nat_by h) (\<lambda>offset. rbind (nat_by h) (\<lambda>len. rbind (map_err h cur_u32) (\<lambda>crc.
     rbind (map_err h cur_uvarint) (\<lambda>encoding. rbind (nat_by h) (\<lambda>null_count.
     if null_count > rows then rerr (h (Malformed ''null_count exceeds row group rows''))
     else rbind (map_err h (decode_opt ty)) (\<lambda>mn. rbind (map_err h (decode_opt ty)) (\<lambda>mx.
       rret \<lparr>rc_offset = offset, rc_len = len, rc_crc = crc, rc_encoding = encoding, rc_null_count = null_count,
         rc_min = mn, rc_max = mx\<rparr>)))))))))"

definition decode_row_groups :: "field list \<Rightarrow> (located, raw_row_group list) reader" where
  "decode_row_groups fs = record_by loc (list_by loc 1 (record_by loc (
     rbind (nat_by loc) (\<lambda>rows.
     rbind (read_all (map (\<lambda>f. decode_chunk_meta (fd_ty f) rows (fd_name f)) fs)) (\<lambda>chunks.
       rret \<lparr>rg_rows = rows, rg_chunks = chunks\<rparr>)))))"

definition decode_footer_body :: "(located, footer) reader" where
  "decode_footer_body =
     rbind decode_fields (\<lambda>fields. rbind (decode_row_groups fields) (\<lambda>row_groups.
     rbind (record_by loc (map_err loc decode_directory)) (\<lambda>indexes.
       rret \<lparr>ft_fields = fields, ft_row_groups = row_groups, ft_indexes = indexes\<rparr>)))"

definition decode_footer :: "byte list \<Rightarrow> located + footer" where
  "decode_footer bytes = map_sum id fst (decode_footer_body (cur_new bytes))"

section \<open>Bounded statistics\<close>

definition STATS_MAX_BYTES :: nat where
  "STATS_MAX_BYTES = 128"

fun is_oversized :: "val \<Rightarrow> bool" where
  "is_oversized (VString s) \<longleftrightarrow> length s > STATS_MAX_BYTES"
| "is_oversized (VBytes b) \<longleftrightarrow> length b > STATS_MAX_BYTES"
| "is_oversized _ \<longleftrightarrow> False"

text \<open>\<open>is_char_boundary\<close> of \<open>str\<close>, and the loop that steps back to one.\<close>

definition is_char_boundary :: "rstr \<Rightarrow> nat \<Rightarrow> bool" where
  "is_char_boundary s i \<longleftrightarrow> i = 0 \<or> i = length s \<or> (i < length s \<and> \<not> cont_byte (s ! i))"

fun back_to_boundary :: "rstr \<Rightarrow> nat \<Rightarrow> nat" where
  "back_to_boundary s 0 = 0"
| "back_to_boundary s (Suc n) = (if is_char_boundary s (Suc n) then Suc n else back_to_boundary s n)"

definition truncate_str :: "rstr \<Rightarrow> nat \<Rightarrow> rstr" where
  "truncate_str s max_bytes = take (back_to_boundary s (min max_bytes (length s))) s"

fun bound_min :: "val \<Rightarrow> val" where
  "bound_min (VString s) = VString (if length s > STATS_MAX_BYTES then truncate_str s STATS_MAX_BYTES else s)"
| "bound_min (VBytes b) = VBytes (if length b > STATS_MAX_BYTES then take STATS_MAX_BYTES b else b)"
| "bound_min v = v"

definition bound_stats :: "column_stats \<Rightarrow> val option \<times> val option" where
  "bound_stats st = (map_option bound_min (st_min st), (case st_max st of Some v \<Rightarrow> if is_oversized v then None else Some v | None \<Rightarrow> None))"

section \<open>Round trip of the footer\<close>

definition entry_codable :: "raw_index_entry \<Rightarrow> bool" where
  "entry_codable e \<longleftrightarrow> (case ri_row_group e of None \<Rightarrow> True | Some rg \<Rightarrow> rg + 1 < 2 ^ 64) \<and>
     length (ri_columns e) \<le> MAX_DECODE_ROWS \<and> (\<forall>c \<in> set (ri_columns e). c < 2 ^ 64) \<and>
     ri_offset e < 2 ^ 64 \<and> ri_len e < 2 ^ 64"

definition chunk_codable :: "nat \<Rightarrow> raw_chunk \<Rightarrow> field \<Rightarrow> bool" where
  "chunk_codable rows c f \<longleftrightarrow> rc_offset c < 2 ^ 64 \<and> rc_len c < 2 ^ 64 \<and> rc_null_count c \<le> rows \<and>
     bound_codable (fd_ty f) (rc_min c) \<and> bound_codable (fd_ty f) (rc_max c)"

definition footer_codable :: "footer \<Rightarrow> bool" where
  "footer_codable f \<longleftrightarrow>
     length (ft_fields f) \<le> MAX_DECODE_ROWS \<and> (\<forall>x \<in> set (ft_fields f). utf8_valid (fd_name x) \<and> type_ok (fd_ty x)) \<and>
     length (ft_row_groups f) \<le> MAX_DECODE_ROWS \<and>
     (\<forall>rg \<in> set (ft_row_groups f). rg_rows rg < 2 ^ 64 \<and> list_all2 (chunk_codable (rg_rows rg)) (rg_chunks rg) (ft_fields f)) \<and>
     length (ft_indexes f) \<le> MAX_DECODE_ROWS \<and> (\<forall>e \<in> set (ft_indexes f). entry_codable e)"

lemma map_err_id [simp]: "map_err id r = r"
  by (rule ext) (simp add: map_err_def sum.case_eq_if split: sum.splits)

lemma codes_plain: "codec enc dec D \<Longrightarrow> (length (enc x []) < 2 ^ 64 \<Longrightarrow> D x) \<Longrightarrow> n \<le> length (enc x []) \<Longrightarrow> codes n (wt (enc x)) dec x"
  using codes_codec [of enc dec D x n id] by simp

lemma codes_uvarint: "codes 1 (wt (sink_uvarint v)) (map_err h cur_uvarint) v"
  by (rule codes_codec [OF uvarint_codec.codec_axioms]) (use uvarint_pos in simp_all)

lemma codes_bytes: "codes 1 (wt (sink_bytes b)) (map_err h cur_bytes) b"
  by (rule codes_codec [OF bytes_codec.codec_axioms])
    (use uvarint_pos [of "word_of_nat (length b)"] in \<open>simp_all add: length_sink_bytes\<close>)

lemmas footer_steps = codes_end_step [OF codes_nat] codes_end_step [OF codes_str] codes_end_step [OF codes_u32]
  codes_end_step [OF codes_uvarint] codes_end_step [OF codes_type] codes_end_step [OF codes_bytes]
  codes_end_step [OF codes_opt_value] codes_end_done

lemma codes_directory:
  assumes "length es \<le> MAX_DECODE_ROWS" "\<forall>e \<in> set es. entry_codable e"
  shows "codes 1 (encode_directory es) decode_directory es"
  unfolding encode_directory_def decode_directory_def
proof (rule codes_list)
  fix e assume "e \<in> set es"
  then have e: "entry_codable e" using assms(2) by blast
  have cols: "codes 1 (wlist w_nat (ri_columns e)) (list_by id 1 (nat_by id)) (ri_columns e)"
    by (rule codes_list, rule codes_nat) (use e in \<open>auto simp: entry_codable_def\<close>)
  let ?rg = "case ri_row_group e of None \<Rightarrow> 0 | Some rg \<Rightarrow> rg + 1"
  have rg: "(if ?rg = 0 then None else Some (?rg - 1)) = ri_row_group e" "?rg < 2 ^ 64"
    using e by (auto simp: entry_codable_def split: option.splits)
  note ids = codes_end_step [OF codes_uvarint [where h = id, simplified]] codes_end_step [OF codes_u32 [where h = id, simplified]]
    codes_end_step [OF codes_bytes [where h = id, simplified]]
  show "codes 1 (wrecord (wseq [wt (sink_uvarint (ri_kind e)), w_nat ?rg, wlist w_nat (ri_columns e), w_nat (ri_offset e),
      w_nat (ri_len e), wt (sink_u32 (ri_crc e)), wt (sink_bytes (ri_params e))]))
    (record_by id (rbind cur_uvarint (\<lambda>kind. rbind (nat_by id) (\<lambda>rg_plus_1.
     rbind (list_by id 1 (nat_by id)) (\<lambda>columns. rbind (nat_by id) (\<lambda>offset. rbind (nat_by id) (\<lambda>len.
     rbind cur_u32 (\<lambda>crc. rbind cur_bytes (\<lambda>params.
       rret \<lparr>ri_kind = kind, ri_row_group = (if rg_plus_1 = 0 then None else Some (rg_plus_1 - 1)), ri_columns = columns,
         ri_offset = offset, ri_len = len, ri_crc = crc, ri_params = params\<rparr>))))))))) e"
    by (intro codes_record ids codes_end_step [OF codes_nat] codes_end_step [OF cols] codes_end_done)
      (use rg e in \<open>simp_all add: entry_codable_def\<close>)
qed (use assms in simp_all)

lemma codes_fields:
  assumes "length fs \<le> MAX_DECODE_ROWS" "\<forall>x \<in> set fs. utf8_valid (fd_name x) \<and> type_ok (fd_ty x)"
  shows "codes 1 (wrecord (encode_fields fs)) decode_fields fs"
  unfolding encode_fields_def decode_fields_def
proof (rule codes_record, rule codes_imp_end, rule codes_list)
  fix f assume "f \<in> set fs"
  then show "codes 1 (wrecord (wseq [w_str (fd_name f), wt (encode_type (fd_ty f))]))
    (record_by loc (rbind (map_err loc cur_str) (\<lambda>name. rbind (map_err (loc_in name) decode_type) (\<lambda>ty.
       rret \<lparr>fd_name = name, fd_ty = ty\<rparr>)))) f"
    by (intro codes_record footer_steps) (use assms(2) in simp_all)
qed (use assms in simp_all)

lemma codes_chunk_meta:
  assumes "chunk_codable rows c f" "rows < 2 ^ 64"
  shows "codes 1 (wrecord (encode_chunk_meta c (fd_ty f))) (decode_chunk_meta (fd_ty f) rows (fd_name f)) c"
proof -
  have n: "rc_null_count c \<le> rows" "rc_null_count c < 2 ^ 64" using assms by (simp_all add: chunk_codable_def)
  have if_ok: "codes_end w r c \<Longrightarrow> codes_end w (if rc_null_count c > rows then e else r) c" for w r e
    using n(1) by simp
  show ?thesis
    unfolding encode_chunk_meta_def decode_chunk_meta_def Let_def
    by (intro codes_record footer_steps if_ok) (use assms n in \<open>simp_all add: chunk_codable_def\<close>)
qed

lemma codes_row_group:
  assumes "rg_rows rg < 2 ^ 64" "list_all2 (chunk_codable (rg_rows rg)) (rg_chunks rg) fs"
  shows "codes 1 (wrecord (wseq (w_nat (rg_rows rg) #
      map (\<lambda>(chunk, field). wrecord (encode_chunk_meta chunk (fd_ty field))) (zip (rg_chunks rg) fs))))
    (record_by loc (rbind (nat_by loc) (\<lambda>rows.
       rbind (read_all (map (\<lambda>f. decode_chunk_meta (fd_ty f) rows (fd_name f)) fs)) (\<lambda>chunks.
         rret \<lparr>rg_rows = rows, rg_chunks = chunks\<rparr>)))) rg"
proof -
  have len: "length (rg_chunks rg) = length fs" by (rule list_all2_lengthD [OF assms(2)])
  have rg: "\<lparr>rg_rows = rg_rows rg, rg_chunks = rg_chunks rg\<rparr> = rg" by (cases rg) simp
  let ?w = "\<lambda>(chunk, field). wrecord (encode_chunk_meta chunk (fd_ty field))"
  let ?r = "\<lambda>f. decode_chunk_meta (fd_ty f) (rg_rows rg) (fd_name f)"
  have "codes (1 * length (rg_chunks rg)) (wseq (map ?w (zip (rg_chunks rg) fs))) (read_all (map ?r fs)) (rg_chunks rg)"
    by (rule codes_read_all)
      (use len list_all2_nthD [OF assms(2)] codes_chunk_meta [OF _ assms(1)] in \<open>auto simp: list_all2_conv_all_nth\<close>)
  from codes_map [OF this, of "\<lambda>cs. \<lparr>rg_rows = rg_rows rg, rg_chunks = cs\<rparr>"]
  have "codes_end (wseq (map ?w (zip (rg_chunks rg) fs)))
    (rbind (read_all (map ?r fs)) (\<lambda>cs. rret \<lparr>rg_rows = rg_rows rg, rg_chunks = cs\<rparr>)) rg"
    unfolding rg by (rule codes_imp_end)
  then show ?thesis by (intro codes_record codes_end_step [OF codes_nat [OF assms(1)]])
qed

lemma codes_row_groups:
  assumes "footer_codable f"
  shows "codes 1 (wrecord (encode_row_groups f)) (decode_row_groups (ft_fields f)) (ft_row_groups f)"
  unfolding encode_row_groups_def decode_row_groups_def
  by (rule codes_record, rule codes_imp_end, rule codes_list, rule codes_row_group)
    (use assms in \<open>simp_all add: footer_codable_def\<close>)

lemma codes_map_err:
  assumes "codes n w r x"
  shows "codes n w (map_err h r) x"
  using assms unfolding codes_def by (blast intro: reads_cor)

lemma footer_roundtrip:
  assumes "footer_codable f"
  shows "\<exists>b. encode_footer f sink_new = Some b \<and> (length b < 2 ^ 64 \<longrightarrow> decode_footer b = Inr f)"
proof -
  have dir: "codes 1 (wrecord (encode_directory (ft_indexes f))) (record_by loc (map_err loc decode_directory)) (ft_indexes f)"
    by (rule codes_record, rule codes_imp_end, rule codes_map_err, rule codes_directory) (use assms in \<open>simp_all add: footer_codable_def\<close>)
  have fields: "codes 1 (wrecord (encode_fields (ft_fields f))) decode_fields (ft_fields f)"
    by (rule codes_fields) (use assms in \<open>simp_all add: footer_codable_def\<close>)
  have "codes_end (encode_footer f) decode_footer_body f"
    unfolding encode_footer_def decode_footer_body_def
    by (intro codes_end_step [OF fields] codes_end_step [OF codes_row_groups [OF assms]] codes_end_step [OF dir] codes_end_done) simp
  then obtain b where b: "\<And>s. encode_footer f s = Some (s @ b)" "length b < 2 ^ 64 \<longrightarrow> reads_end decode_footer_body b f"
    by (auto simp: codes_end_def)
  have "decode_footer b = Inr f" if l: "length b < 2 ^ 64"
  proof -
    from b(2) l have "reads_end decode_footer_body b f" by (rule mp)
    from reads_end_new [OF this] obtain c where "decode_footer_body (cur_new b) = Inr (f, c)" ..
    then show ?thesis by (simp add: decode_footer_def)
  qed
  then show ?thesis using b(1) [of "[]"] by (auto simp: sink_new_def)
qed

section \<open>Bounded statistics still bound\<close>

lemma cont_byte_ranges: "0xA0 \<le> b \<and> b \<le> 0xBF \<Longrightarrow> cont_byte b" "0x80 \<le> b \<and> b \<le> 0x9F \<Longrightarrow> cont_byte b"
  "0x90 \<le> b \<and> b \<le> 0xBF \<Longrightarrow> cont_byte b" "0x80 \<le> b \<and> b \<le> 0x8F \<Longrightarrow> cont_byte b"
  unfolding cont_byte_def by (auto elim: order_trans [rotated] order_trans)

lemma boundary_shift: "is_char_boundary (xs @ s) (length xs + i) \<Longrightarrow> is_char_boundary s i"
  by (auto simp: is_char_boundary_def nth_append)

lemma boundary_not_cont: "is_char_boundary s i \<Longrightarrow> 0 < i \<Longrightarrow> i < length s \<Longrightarrow> \<not> cont_byte (s ! i)"
  by (auto simp: is_char_boundary_def)

text \<open>The first character of a string, and what may follow it.\<close>

lemma utf8_first:
  assumes "utf8_valid (a # bs)"
  shows "\<exists>cs r. bs = cs @ r \<and> (\<forall>c \<in> set cs. cont_byte c) \<and> utf8_valid r \<and> (\<forall>t. utf8_valid t \<longrightarrow> utf8_valid (a # cs @ t))"
proof -
  consider "a < 0x80" | "\<not> a < 0x80" "0xC2 \<le> a \<and> a \<le> 0xDF"
    | "\<not> a < 0x80" "\<not> (0xC2 \<le> a \<and> a \<le> 0xDF)" "0xE0 \<le> a \<and> a \<le> 0xEF"
    | "\<not> a < 0x80" "\<not> (0xC2 \<le> a \<and> a \<le> 0xDF)" "\<not> (0xE0 \<le> a \<and> a \<le> 0xEF)" "0xF0 \<le> a \<and> a \<le> 0xF4"
    using assms by (auto split: if_splits)
  then show ?thesis
  proof cases
    case 1
    then show ?thesis using assms by (intro exI [of _ "[]"] exI [of _ bs]) simp
  next
    case 2
    then obtain b r where "bs = b # r" "cont_byte b" "utf8_valid r" using assms by (auto split: list.splits)
    with 2 show ?thesis by (intro exI [of _ "[b]"] exI [of _ r]) simp
  next
    case 3
    have "\<exists>b c r. bs = b # c # r" using 3 assms by (simp split: list.splits if_splits)
    then obtain b c r where bs: "bs = b # c # r" by blast
    have r: "cont_byte c" "utf8_valid r"
      and b: "if a = 0xE0 then 0xA0 \<le> b \<and> b \<le> 0xBF else if a = 0xED then 0x80 \<le> b \<and> b \<le> 0x9F else cont_byte b"
      using assms [unfolded bs] 3 by simp_all
    have "cont_byte b" using b cont_byte_ranges(1,2) [of b] by (simp split: if_splits)
    moreover have "utf8_valid (a # [b, c] @ t) = utf8_valid t" for t
      by (simp only: append.simps utf8_valid.simps list.case 3 r if_True if_False simp_thms) (use b in blast)
    ultimately show ?thesis using r bs by (intro exI [of _ "[b, c]"] exI [of _ r]) (simp del: utf8_valid.simps)
  next
    case 4
    have "\<exists>b c d r. bs = b # c # d # r" using 4 assms by (simp split: list.splits if_splits)
    then obtain b c d r where bs: "bs = b # c # d # r" by blast
    have r: "cont_byte c" "cont_byte d" "utf8_valid r"
      and b: "if a = 0xF0 then 0x90 \<le> b \<and> b \<le> 0xBF else if a = 0xF4 then 0x80 \<le> b \<and> b \<le> 0x8F else cont_byte b"
      using assms [unfolded bs] 4 by simp_all
    have "cont_byte b" using b cont_byte_ranges(3,4) [of b] by (simp split: if_splits)
    moreover have "utf8_valid (a # [b, c, d] @ t) = utf8_valid t" for t
      by (simp only: append.simps utf8_valid.simps list.case 4 r if_True if_False simp_thms) (use b in blast)
    ultimately show ?thesis using r bs by (intro exI [of _ "[b, c, d]"] exI [of _ r]) (simp del: utf8_valid.simps)
  qed
qed

lemma utf8_take_boundary: "utf8_valid s \<Longrightarrow> is_char_boundary s i \<Longrightarrow> utf8_valid (take i s)"
proof (induction s arbitrary: i rule: length_induct)
  case (1 s)
  show ?case
  proof (cases s)
    case (Cons a bs)
    with 1(2) obtain cs r where r: "bs = cs @ r" "\<forall>c \<in> set cs. cont_byte c" "utf8_valid r"
      "\<And>t. utf8_valid t \<Longrightarrow> utf8_valid (a # cs @ t)" using utf8_first [of a bs] by blast
    consider "i = 0" | "0 < i" "i \<le> length cs" | j where "i = length (a # cs) + j"
      using le_Suc_ex [of "Suc (length cs)" i] by (cases "i \<le> length cs") auto
    then show ?thesis
    proof cases
      case 2
      then have "cont_byte (s ! i)" using r(1,2) Cons by (auto simp: nth_append nth_Cons' )
      moreover have "i < length s" using 2 r(1) Cons by simp
      ultimately show ?thesis using boundary_not_cont [OF 1(3)] 2 by blast
    next
      case 3
      have "is_char_boundary r j" by (rule boundary_shift [of "a # cs"]) (use 1(3) 3 r(1) Cons in simp)
      moreover have "length r < length s" using r(1) Cons by simp
      ultimately have "utf8_valid (take j r)" using 1(1) r(3) by blast
      from r(4) [OF this] show ?thesis using 3 r(1) Cons by simp
    qed simp
  qed simp
qed

lemma back_to_boundary_ok: "back_to_boundary s n \<le> n \<and> is_char_boundary s (back_to_boundary s n)"
  by (induction n) (auto simp: is_char_boundary_def)

lemma truncate_str_valid: "utf8_valid s \<Longrightarrow> utf8_valid (truncate_str s n)"
  unfolding truncate_str_def by (rule utf8_take_boundary) (simp_all add: back_to_boundary_ok)

lemma bytes_cmp_take: "bytes_cmp (take n s) s \<noteq> Greater"
proof (induction s arbitrary: n)
  case (Cons x s)
  then show ?case by (cases n) (simp_all add: then_with_def cmp_def)
qed simp

lemma bound_min_has_type: "has_type ty v \<Longrightarrow> has_type ty (bound_min v)"
  by (cases v) (auto simp: truncate_str_valid)

lemma bound_min_le:
  assumes "of_kind ty v"
  shows "total_cmp (bound_min v) v \<noteq> Some Greater"
  proof -
  have "bytes_cmp s s \<noteq> Greater" for s using bytes_cmp_take [of "length s" s] by simp
  then show ?thesis using value_order.refl [OF assms] bytes_cmp_take by (cases v) (simp_all add: truncate_str_def)
qed

lemma bound_stats_covers:
  assumes "covers \<lparr>cr_rows = n, cr_null_count = k, cr_min = st_min st, cr_max = st_max st\<rparr> col"
    "\<And>m. st_min st = Some m \<Longrightarrow> has_type (col_ty col) m" "type_ok (col_ty col)" "\<And>v. v \<in> col_values col \<Longrightarrow> of_kind (col_ty col) v"
  shows "covers \<lparr>cr_rows = n, cr_null_count = k, cr_min = fst (bound_stats st), cr_max = snd (bound_stats st)\<rparr> col"
proof -
  have "of_kind (col_ty col) (bound_min m) \<and> (\<forall>v \<in> col_values col. total_cmp v (bound_min m) \<noteq> Some Less)"
    if m: "st_min st = Some m" for m
  proof -
    have k: "of_kind (col_ty col) m" "of_kind (col_ty col) (bound_min m)"
      using assms(2) [OF m] assms(3) by (simp_all add: has_type_of_kind bound_min_has_type)
    have "total_cmp v (bound_min m) \<noteq> Some Less" if v: "v \<in> col_values col" for v
    proof -
      have "total_cmp m v \<noteq> Some Greater"
        using assms(1) m v value_order.greater_iff [OF k(1) assms(4) [OF v]] by (simp add: covers_def)
      then have "total_cmp (bound_min m) v \<noteq> Some Greater"
        by (rule value_order.trans [OF k(2,1) assms(4) [OF v] bound_min_le [OF k(1)]])
      then show ?thesis using value_order.greater_iff [OF k(2) assms(4) [OF v]] by simp
    qed
    with k(2) show ?thesis by blast
  qed
  then show ?thesis using assms(1) by (auto simp: covers_def bound_stats_def split: option.splits if_splits)
qed

end
