(* ===== verification/Bitpack.thy ===== *)
theory Bitpack
  imports Wire
begin

text \<open>
  Bit packing (\<open>src/storage/segment/encode/bitpack.rs\<close>): \<open>BitWriter\<close> and \<open>BitReader\<close>,
  LSB first, and the frame-of-reference block shared by the FOR, DELTA, DELTA_OF_DELTA
  and DICT encodings. The two loops over partial bytes are modelled as they are written;
  the abstraction is the list of bits written so far (\<open>bw_abs\<close>) and the list of bits
  left to read (\<open>br_abs\<close>), and the main lemmas say that a write appends the low bits of
  its value and a read consumes them.
\<close>

section \<open>Model\<close>

definition bmask :: "nat \<Rightarrow> u64" where
  "bmask bits = (if bits \<ge> 64 then - 1 else push_bit bits 1 - 1)"

record bit_writer =
  bw_buf :: "byte list"
  bw_bits :: nat

definition bw_new :: bit_writer where
  "bw_new = \<lparr>bw_buf = [], bw_bits = 0\<rparr>"

function bw_loop :: "u64 \<Rightarrow> nat \<Rightarrow> bit_writer \<Rightarrow> bit_writer" where
  "bw_loop value remaining w =
     (if remaining > 0
      then let bit_off = bw_bits w mod 8;
               buf = (if bit_off = 0 then bw_buf w @ [0] else bw_buf w);
               tk = min remaining (8 - bit_off);
               chunk = ucast (value AND bmask tk) :: byte;
               buf' = butlast buf @ [last buf OR push_bit bit_off chunk]
           in bw_loop (drop_bit tk value) (remaining - tk)
                \<lparr>bw_buf = buf', bw_bits = bw_bits w + tk\<rparr>
      else w)"
  by pat_completeness auto
termination
  by (relation "measure (\<lambda>(v, r, w). r)") auto

declare bw_loop.simps [simp del]

definition bw_write :: "u64 \<Rightarrow> nat \<Rightarrow> bit_writer \<Rightarrow> bit_writer" where
  "bw_write value bits w = bw_loop (value AND bmask bits) bits w"

definition bw_finish :: "bit_writer \<Rightarrow> byte list" where
  "bw_finish w = bw_buf w"

record bit_reader =
  br_buf :: "byte list"
  br_bits :: nat

definition br_new :: "byte list \<Rightarrow> bit_reader" where
  "br_new b = \<lparr>br_buf = b, br_bits = 0\<rparr>"

function br_loop :: "u64 \<Rightarrow> nat \<Rightarrow> nat \<Rightarrow> bit_reader \<Rightarrow> u64 \<times> bit_reader" where
  "br_loop result got bits r =
     (if got < bits
      then let byte_idx = br_bits r div 8;
               bit_off = br_bits r mod 8;
               tk = min (bits - got) (8 - bit_off);
               bits_here = drop_bit bit_off (br_buf r ! byte_idx) AND ucast (bmask tk)
           in br_loop (result OR push_bit got (ucast bits_here)) (got + tk) bits
                (r\<lparr>br_bits := br_bits r + tk\<rparr>)
      else (result, r))"
  by pat_completeness auto
termination
  by (relation "measure (\<lambda>(v, g, b, r). b - g)") auto

declare br_loop.simps [simp del]

definition br_read :: "nat \<Rightarrow> bit_reader \<Rightarrow> decode_error + u64 \<times> bit_reader" where
  "br_read bits r =
     (if br_bits r + bits > length (br_buf r) * 8 then Inl Truncated
      else Inr (br_loop 0 0 bits r))"

text \<open>\<open>u64::leading_zeros\<close>, and \<open>min\<close>/\<open>max\<close> with \<open>unwrap_or(0)\<close>.\<close>

definition leading_zeros :: "u64 \<Rightarrow> nat" where
  "leading_zeros v = length (takeWhile (\<lambda>i. \<not> bit v i) (rev [0..<64]))"

definition list_min :: "u64 list \<Rightarrow> u64" where
  "list_min xs = (case xs of [] \<Rightarrow> 0 | y # ys \<Rightarrow> fold min ys y)"

definition list_max :: "u64 list \<Rightarrow> u64" where
  "list_max xs = (case xs of [] \<Rightarrow> 0 | y # ys \<Rightarrow> fold max ys y)"

definition write_for :: "u64 list \<Rightarrow> sink \<Rightarrow> sink" where
  "write_for values out =
     (let mn = list_min values;
          mx = list_max values;
          width = 64 - leading_zeros (mx - mn);
          out1 = sink_u8 (word_of_nat width) (sink_u64 mn out);
          bw = fold (\<lambda>v. bw_write (v - mn) width) values bw_new
      in sink_bytes (bw_finish bw) out1)"

fun read_packed :: "u64 \<Rightarrow> nat \<Rightarrow> nat \<Rightarrow> bit_reader \<Rightarrow> decode_error + u64 list" where
  "read_packed mn width 0 r = Inr []"
| "read_packed mn width (Suc n) r =
     (case br_read width r of
        Inl e \<Rightarrow> Inl e
      | Inr (v, r') \<Rightarrow>
          (case read_packed mn width n r' of
             Inl e \<Rightarrow> Inl e
           | Inr vs \<Rightarrow> Inr ((mn + v) # vs)))"

definition read_for :: "nat \<Rightarrow> u64 list rd" where
  "read_for rows =
     rbind cur_u64 (\<lambda>mn.
     rbind cur_u8 (\<lambda>width.
     if unat width > 64 then rerr (Malformed ''for width exceeds 64'')
     else rbind (cur_guard_len (word_of_nat rows) 0) (\<lambda>n.
       let expected = (n * unat width + 7) div 8
       in rbind cur_bytes (\<lambda>packed.
          if length packed \<noteq> expected then rerr (Malformed ''for packed length mismatch'')
          else (\<lambda>c. case read_packed mn (unat width) n (br_new packed) of
                      Inl e \<Rightarrow> Inl e
                    | Inr vs \<Rightarrow> Inr (vs, c))))))"

section \<open>Bits of a buffer\<close>

definition buf_bit :: "byte list \<Rightarrow> nat \<Rightarrow> bool" where
  "buf_bit bs k \<longleftrightarrow> k div 8 < length bs \<and> bit (bs ! (k div 8)) (k mod 8)"

definition word_bits :: "nat \<Rightarrow> u64 \<Rightarrow> bool list" where
  "word_bits n v = map (bit v) [0..<n]"

definition bw_abs :: "bit_writer \<Rightarrow> bool list" where
  "bw_abs w = map (buf_bit (bw_buf w)) [0..<bw_bits w]"

definition br_abs :: "bit_reader \<Rightarrow> bool list" where
  "br_abs r = map (buf_bit (br_buf r)) [br_bits r..<8 * length (br_buf r)]"

text \<open>The writer's invariant: just enough bytes, and zero bits past the last one written.\<close>

definition bw_wf :: "bit_writer \<Rightarrow> bool" where
  "bw_wf w \<longleftrightarrow> length (bw_buf w) = (bw_bits w + 7) div 8 \<and> (\<forall>k \<ge> bw_bits w. \<not> buf_bit (bw_buf w) k)"

definition br_wf :: "bit_reader \<Rightarrow> bool" where
  "br_wf r \<longleftrightarrow> br_bits r \<le> 8 * length (br_buf r)"

lemma bmask_eq_mask: "bmask n = mask n"
proof (cases "n \<ge> 64")
  case True
  then show ?thesis by (intro bit_word_eqI) (simp add: bmask_def bit_mask_iff)
next
  case False
  then show ?thesis by (simp add: bmask_def mask_eq_exp_minus_1 push_bit_eq_mult)
qed

lemma bit_bmask [simp]: "bit (bmask n) k \<longleftrightarrow> k < n \<and> k < 64"
  by (auto simp: bmask_eq_mask bit_mask_iff)

lemma length_word_bits [simp]: "length (word_bits n v) = n"
  by (simp add: word_bits_def)

lemma word_bits_cong: "(\<And>k. k < n \<Longrightarrow> bit v k = bit v' k) \<Longrightarrow> word_bits n v = word_bits n v'"
  by (simp add: word_bits_def)

section \<open>Writing appends the low bits\<close>

text \<open>One turn of the loop: \<open>base\<close> is the full bytes, \<open>cur\<close> the partial one.\<close>

lemma buf_bit_step:
  assumes "length base = n div 8" "0 < tk" "tk \<le> 8 - n mod 8"
    and cur: "\<And>j. bit cur j \<Longrightarrow> j < n mod 8"
  shows "buf_bit (base @ [cur OR push_bit (n mod 8) (ucast (v AND bmask tk) :: byte)]) k =
    (if k div 8 < n div 8 then buf_bit base k
     else if k < n then k div 8 = n div 8 \<and> bit cur (k mod 8)
     else if k < n + tk then bit v (k - n) else False)"
proof -
  consider "k div 8 < n div 8" | "k div 8 = n div 8" | "n div 8 < k div 8" by linarith
  then show ?thesis
  proof cases
    case 1
    with assms show ?thesis by (simp add: buf_bit_def nth_append)
  next
    case 2
    then have k: "k = 8 * (n div 8) + k mod 8" and n: "n = 8 * (n div 8) + n mod 8"
      by (metis mult_div_mod_eq)+
    then have less: "k < n \<longleftrightarrow> k mod 8 < n mod 8" and diff: "k - n = k mod 8 - n mod 8"
      and tk: "k < n + tk \<longleftrightarrow> k mod 8 < n mod 8 + tk"
      by linarith+
    have b: "bit (push_bit (n mod 8) (ucast (v AND bmask tk) :: byte)) (k mod 8) \<longleftrightarrow>
        n mod 8 \<le> k mod 8 \<and> k mod 8 - n mod 8 < tk \<and> bit v (k mod 8 - n mod 8)"
      using assms(3) unfolding bit_push_bit_iff by (auto simp: bit_simps less_diff_conv2)
    show ?thesis
      using 2 assms(1) cur [of "k mod 8"] b
      by (auto simp: buf_bit_def nth_append bit_or_iff less diff tk not_less)
  next
    case 3
    then have "8 * (n div 8) + 8 \<le> 8 * (k div 8)" by linarith
    also have "\<dots> \<le> k" by simp
    finally have "8 * (n div 8) + 8 \<le> k" .
    then have "n + tk \<le> k"
      using assms(3) mult_div_mod_eq [of 8 n] mod_less_divisor [of 8 n] by linarith
    with 3 show ?thesis using assms(1) by (simp add: buf_bit_def)
  qed
qed

text \<open>The buffer the loop extends, as full bytes and a partial one.\<close>

lemma bw_buf_split:
  assumes "bw_wf w"
  defines "n \<equiv> bw_bits w"
  obtains base cur where "length base = n div 8" "\<And>j. bit cur j \<Longrightarrow> j < n mod 8"
    "(if n mod 8 = 0 then bw_buf w @ [0] else bw_buf w) = base @ [cur]"
    "\<And>k. k < n \<Longrightarrow> buf_bit (bw_buf w) k =
       (if k div 8 < n div 8 then buf_bit base k else k div 8 = n div 8 \<and> bit cur (k mod 8))"
proof (cases "n mod 8 = 0")
  case True
  with assms have len: "length (bw_buf w) = n div 8"
    using ceil_div_exact [of n 8] by (simp add: bw_wf_def)
  show ?thesis
  proof (rule that [of "bw_buf w" 0])
    show "k < n \<Longrightarrow> buf_bit (bw_buf w) k = (if k div 8 < n div 8 then buf_bit (bw_buf w) k
        else k div 8 = n div 8 \<and> bit (0 :: byte) (k mod 8))" for k
      using True by (simp add: buf_bit_def len)
  qed (use True len in simp_all)
next
  case False
  with assms have len: "length (bw_buf w) = Suc (n div 8)"
    using ceil_div_partial [of n 8] by (simp add: bw_wf_def)
  then obtain base cur where buf: "bw_buf w = base @ [cur]" and base: "length base = n div 8"
    by (metis length_Suc_conv_rev)
  show ?thesis
  proof (rule that [of base cur])
    show "j < n mod 8" if "bit cur j" for j
    proof (rule ccontr)
      assume "\<not> j < n mod 8"
      moreover have "j < 8" using that by (rule bit_byte_less)
      ultimately have "n \<le> 8 * (n div 8) + j" using mult_div_mod_eq [of 8 n] by linarith
      with assms(1) have "\<not> buf_bit (bw_buf w) (8 * (n div 8) + j)" by (simp add: bw_wf_def n_def)
      with that \<open>j < 8\<close> show False by (simp add: buf_bit_def buf base nth_append)
    qed
    show "buf_bit (bw_buf w) k = (if k div 8 < n div 8 then buf_bit base k
        else k div 8 = n div 8 \<and> bit cur (k mod 8))" if "k < n" for k
      using div_le_mono [of k n 8] that by (auto simp: buf_bit_def buf base nth_append)
  qed (use False buf base in simp_all)
qed

definition bw_extends :: "bit_writer \<Rightarrow> (nat \<Rightarrow> bool) \<Rightarrow> nat \<Rightarrow> bit_writer \<Rightarrow> bool" where
  "bw_extends w f n w' \<longleftrightarrow> bw_wf w' \<and> bw_bits w' = bw_bits w + n \<and>
     (\<forall>k. buf_bit (bw_buf w') k =
       (if k < bw_bits w then buf_bit (bw_buf w) k
        else if k < bw_bits w + n then f (k - bw_bits w) else False))"

lemma bw_step_extends:
  assumes "bw_wf w" "0 < tk" "tk \<le> 8 - bw_bits w mod 8"
  defines "buf \<equiv> (if bw_bits w mod 8 = 0 then bw_buf w @ [0] else bw_buf w)"
  shows "bw_extends w (bit v) tk
    \<lparr>bw_buf = butlast buf @ [last buf OR push_bit (bw_bits w mod 8) (ucast (v AND bmask tk))],
     bw_bits = bw_bits w + tk\<rparr>"
proof -
  obtain base cur where s: "length base = bw_bits w div 8" "\<And>j. bit cur j \<Longrightarrow> j < bw_bits w mod 8"
    "buf = base @ [cur]"
    "\<And>k. k < bw_bits w \<Longrightarrow> buf_bit (bw_buf w) k =
       (if k div 8 < bw_bits w div 8 then buf_bit base k else k div 8 = bw_bits w div 8 \<and> bit cur (k mod 8))"
    using bw_buf_split [OF assms(1)] unfolding buf_def by blast
  note step = buf_bit_step [OF s(1) assms(2,3) s(2), where v = v]
  let ?b = "base @ [cur OR push_bit (bw_bits w mod 8) (ucast (v AND bmask tk))]"
  have all: "buf_bit ?b k = (if k < bw_bits w then buf_bit (bw_buf w) k
      else if k < bw_bits w + tk then bit v (k - bw_bits w) else False)" for k
  proof (cases "k < bw_bits w")
    case True
    then show ?thesis using step [where k = k] s(4) [of k] by simp
  next
    case False
    then have "\<not> k div 8 < bw_bits w div 8" using div_le_mono [of "bw_bits w" k 8] by linarith
    with False show ?thesis using step [where k = k] by simp
  qed
  have "length ?b = (bw_bits w + tk + 7) div 8"
    using assms(2,3) ceil_div_step [of tk "bw_bits w" 8] by (simp add: s(1))
  with all show ?thesis by (simp add: bw_extends_def bw_wf_def s(3))
qed

lemma bw_extends_trans:
  assumes "bw_extends w (bit v) m w1" "bw_extends w1 (bit (drop_bit m v)) n w2"
  shows "bw_extends w (bit v) (m + n) w2"
  using assms by (auto simp: bw_extends_def bit_drop_bit_eq)

lemma bw_loop_extends: "bw_wf w \<Longrightarrow> bw_extends w (bit v) n (bw_loop v n w)"
proof (induction v n w rule: bw_loop.induct)
  case (1 v n w)
  show ?case
  proof (cases "0 < n")
    case False
    then have "bw_loop v n w = w" by (subst bw_loop.simps) simp
    with False "1.prems" show ?thesis by (simp add: bw_extends_def bw_wf_def)
  next
    case True
    let ?tk = "min n (8 - bw_bits w mod 8)"
    let ?buf = "if bw_bits w mod 8 = 0 then bw_buf w @ [0] else bw_buf w"
    let ?w1 = "\<lparr>bw_buf = butlast ?buf @ [last ?buf OR push_bit (bw_bits w mod 8) (ucast (v AND bmask ?tk))],
       bw_bits = bw_bits w + ?tk\<rparr>"
    from True have tk: "0 < ?tk" "?tk \<le> 8 - bw_bits w mod 8" by simp_all
    note ext = bw_step_extends [OF "1.prems" tk, of v]
    then have "bw_wf ?w1" by (simp add: bw_extends_def)
    then have "bw_extends ?w1 (bit (drop_bit ?tk v)) (n - ?tk) (bw_loop (drop_bit ?tk v) (n - ?tk) ?w1)"
      using "1.IH" [OF True refl refl refl refl refl] by simp
    from bw_extends_trans [OF ext this]
    have "bw_extends w (bit v) n (bw_loop (drop_bit ?tk v) (n - ?tk) ?w1)" by simp
    with True show ?thesis by (simp add: bw_loop.simps [of v n w] Let_def)
  qed
qed

lemma bw_write_extends:
  assumes "bw_wf w" "n \<le> 64"
  shows "bw_extends w (bit v) n (bw_write v n w)"
proof -
  have "bw_extends w (bit (v AND bmask n)) n (bw_write v n w)"
    unfolding bw_write_def by (rule bw_loop_extends [OF assms(1)])
  then show ?thesis using assms(2) by (auto simp: bw_extends_def bit_and_iff)
qed

lemma bw_wf_new [simp]: "bw_wf bw_new"
  by (simp add: bw_wf_def bw_new_def buf_bit_def)

lemma bw_write_wf: "bw_wf w \<Longrightarrow> n \<le> 64 \<Longrightarrow> bw_wf (bw_write v n w)"
  using bw_write_extends [of w n v] by (simp add: bw_extends_def)

lemma bw_write_bits: "bw_wf w \<Longrightarrow> n \<le> 64 \<Longrightarrow> bw_bits (bw_write v n w) = bw_bits w + n"
  using bw_write_extends [of w n v] by (simp add: bw_extends_def)

lemma bw_abs_new [simp]: "bw_abs bw_new = []"
  by (simp add: bw_abs_def bw_new_def)

lemma bw_abs_write:
  assumes "bw_wf w" "n \<le> 64"
  shows "bw_abs (bw_write v n w) = bw_abs w @ word_bits n v"
proof (rule nth_equalityI)
  note e = bw_write_extends [OF assms, of v, unfolded bw_extends_def]
  then show "length (bw_abs (bw_write v n w)) = length (bw_abs w @ word_bits n v)"
    by (simp add: bw_abs_def)
  fix i
  assume "i < length (bw_abs (bw_write v n w))"
  then show "bw_abs (bw_write v n w) ! i = (bw_abs w @ word_bits n v) ! i"
    using e by (auto simp: bw_abs_def word_bits_def nth_append)
qed

text \<open>The finished buffer holds the written bits and then zeros up to a whole byte.\<close>

lemma br_abs_finish:
  assumes "bw_wf w"
  shows "\<exists>pad. br_abs (br_new (bw_finish w)) = bw_abs w @ replicate pad False"
proof -
  let ?n = "bw_bits w" and ?m = "8 * length (bw_buf w)"
  have le: "?n \<le> ?m" using assms le_ceil_div [of 8 ?n] by (simp add: bw_wf_def)
  then have "[0..<?m] = [0..<?n] @ [?n..<?m]" by (metis le_add_diff_inverse upt_add_eq_append zero_le)
  moreover have "map (buf_bit (bw_buf w)) [?n..<?m] = replicate (?m - ?n) False"
    using assms by (intro nth_equalityI) (auto simp: bw_wf_def)
  ultimately have "br_abs (br_new (bw_finish w)) = bw_abs w @ replicate (?m - ?n) False"
    by (simp add: br_abs_def br_new_def bw_finish_def bw_abs_def)
  then show ?thesis ..
qed

section \<open>Reading consumes the low bits\<close>

lemma br_step_bit:
  assumes "tk \<le> 8 - p mod 8" "p + tk \<le> 8 * length bs" "0 < tk"
  shows "bit (drop_bit (p mod 8) (bs ! (p div 8)) AND ucast (bmask tk) :: byte) j \<longleftrightarrow>
    j < tk \<and> buf_bit bs (p + j)"
proof (cases "j < tk")
  case True
  then have j: "p mod 8 + j < 8" using assms(1) by linarith
  have "(p + j) div 8 = p div 8" "(p + j) mod 8 = p mod 8 + j"
    using div_mod_add_less [OF j] by simp_all
  moreover have "p div 8 < length bs" using assms(2,3) by linarith
  ultimately show ?thesis using True j by (auto simp: buf_bit_def bit_simps)
next
  case False
  then show ?thesis by (simp add: bit_simps)
qed

lemma br_loop_spec:
  assumes "got \<le> n" "n \<le> 64" "br_bits r + (n - got) \<le> 8 * length (br_buf r)"
    "\<And>k. bit result k \<Longrightarrow> k < got"
  shows "\<exists>v. br_loop result got n r = (v, r\<lparr>br_bits := br_bits r + (n - got)\<rparr>) \<and>
    (\<forall>k. bit v k = (if k < got then bit result k else k < n \<and> buf_bit (br_buf r) (br_bits r + (k - got))))"
  using assms
proof (induction result got n r rule: br_loop.induct)
  case (1 result got n r)
  show ?case
  proof (cases "got < n")
    case False
    then have "br_loop result got n r = (result, r)" by (subst br_loop.simps) simp
    with False "1.prems" show ?thesis by auto
  next
    case True
    let ?tk = "min (n - got) (8 - br_bits r mod 8)"
    let ?here = "drop_bit (br_bits r mod 8) (br_buf r ! (br_bits r div 8)) AND ucast (bmask ?tk) :: byte"
    let ?res = "result OR push_bit got (ucast ?here)" and ?r = "r\<lparr>br_bits := br_bits r + ?tk\<rparr>"
    have tk: "?tk \<le> 8 - br_bits r mod 8" "br_bits r + ?tk \<le> 8 * length (br_buf r)" "0 < ?tk"
      using True "1.prems"(3) by auto
    have res: "bit ?res k \<longleftrightarrow> (if k < got then bit result k
        else k < got + ?tk \<and> buf_bit (br_buf r) (br_bits r + (k - got)))" for k
    proof -
      have "bit (push_bit got (ucast ?here :: u64)) k \<longleftrightarrow>
          got \<le> k \<and> k < 64 \<and> k - got < ?tk \<and> buf_bit (br_buf r) (br_bits r + (k - got))"
        using br_step_bit [OF tk, of "k - got"] unfolding bit_push_bit_iff bit_ucast_iff by auto
      then show ?thesis using "1.prems"(2,4) True by (auto simp: bit_or_iff)
    qed
    have "\<exists>v. br_loop ?res (got + ?tk) n ?r = (v, ?r\<lparr>br_bits := br_bits ?r + (n - (got + ?tk))\<rparr>) \<and>
      (\<forall>k. bit v k = (if k < got + ?tk then bit ?res k
        else k < n \<and> buf_bit (br_buf ?r) (br_bits ?r + (k - (got + ?tk)))))"
    proof (rule "1.IH" [OF True refl refl refl refl])
      show "bit ?res k \<Longrightarrow> k < got + ?tk" for k using res [of k] by (auto split: if_splits)
    qed (use True "1.prems"(2,3) in auto)
    then obtain v where v: "br_loop ?res (got + ?tk) n ?r = (v, r\<lparr>br_bits := br_bits r + (n - got)\<rparr>)"
      "\<And>k. bit v k = (if k < got + ?tk then bit ?res k
        else k < n \<and> buf_bit (br_buf r) (br_bits r + ?tk + (k - (got + ?tk))))"
      using True by auto
    have "bit v k = (if k < got then bit result k else k < n \<and> buf_bit (br_buf r) (br_bits r + (k - got)))" for k
      using v(2) [of k] res [of k] True by auto
    moreover have "br_loop result got n r = (v, r\<lparr>br_bits := br_bits r + (n - got)\<rparr>)"
      using v(1) True by (simp add: br_loop.simps [of result got n r] Let_def)
    ultimately show ?thesis by blast
  qed
qed

text \<open>A read where \<open>n\<close> bits are left returns them and moves past them.\<close>

definition bits_at :: "bit_reader \<Rightarrow> bool list \<Rightarrow> bool" where
  "bits_at r bs \<longleftrightarrow> br_wf r \<and> br_abs r = bs"

lemma br_read_spec:
  assumes "n \<le> 64" "br_wf r" "n \<le> length (br_abs r)"
  shows "\<exists>v. br_read n r = Inr (v, r\<lparr>br_bits := br_bits r + n\<rparr>) \<and>
    (\<forall>k. bit v k \<longleftrightarrow> k < n \<and> br_abs r ! k)"
proof -
  have le: "br_bits r + n \<le> 8 * length (br_buf r)" using assms by (simp add: br_abs_def br_wf_def)
  obtain v where "br_loop 0 0 n r = (v, r\<lparr>br_bits := br_bits r + n\<rparr>)"
    "\<And>k. bit v k \<longleftrightarrow> k < n \<and> buf_bit (br_buf r) (br_bits r + k)"
    using br_loop_spec [of 0 n r 0] assms(1) le by auto
  moreover have "br_abs r ! k = buf_bit (br_buf r) (br_bits r + k)" if "k < n" for k
    using that le by (simp add: br_abs_def)
  ultimately show ?thesis using le by (auto simp: br_read_def mult.commute)
qed

lemma br_read_at:
  assumes "bits_at r (word_bits n v @ rest)" "n \<le> 64"
  shows "\<exists>r'. br_read n r = Inr (take_bit n v, r') \<and> bits_at r' rest"
proof -
  from assms have wf: "br_wf r" and abs: "br_abs r = word_bits n v @ rest" by (simp_all add: bits_at_def)
  let ?r = "r\<lparr>br_bits := br_bits r + n\<rparr>"
  obtain u where u: "br_read n r = Inr (u, ?r)" "\<And>k. bit u k \<longleftrightarrow> k < n \<and> br_abs r ! k"
    using br_read_spec [OF assms(2) wf] abs by auto
  have "u = take_bit n v"
    by (rule bit_word_eqI) (auto simp: u(2) abs nth_append word_bits_def bit_simps)
  moreover have "br_abs ?r = drop n (br_abs r)" by (simp add: br_abs_def drop_map)
  moreover have "br_bits r + n \<le> 8 * length (br_buf r)"
    using arg_cong [OF abs, of length] wf by (simp add: br_abs_def br_wf_def)
  ultimately show ?thesis using u(1) abs by (auto simp: bits_at_def br_wf_def)
qed

lemma br_read_truncated: "br_wf r \<Longrightarrow> length (br_abs r) < n \<Longrightarrow> br_read n r = Inl Truncated"
  by (simp add: br_abs_def br_wf_def br_read_def mult.commute)

lemma bits_at_new_finish:
  assumes "bw_wf w"
  shows "\<exists>pad. bits_at (br_new (bw_finish w)) (bw_abs w @ pad)"
  using br_abs_finish [OF assms] by (auto simp: bits_at_def br_wf_def br_new_def)

section \<open>Frame of reference blocks\<close>

lemma bit_leading_zeros: "bit v k \<Longrightarrow> k < 64 - leading_zeros v"
proof (rule ccontr)
  assume b: "bit v k" and "\<not> k < 64 - leading_zeros v"
  with bit_u64_less [OF b] have j: "63 - k < leading_zeros v" and k: "k < 64" by simp_all
  let ?ks = "rev [0..<64]"
  from j have "takeWhile (\<lambda>i. \<not> bit v i) ?ks ! (63 - k) \<in> set (takeWhile (\<lambda>i. \<not> bit v i) ?ks)"
    unfolding leading_zeros_def by (rule nth_mem)
  then have "\<not> bit v (takeWhile (\<lambda>i. \<not> bit v i) ?ks ! (63 - k))" by (rule set_takeWhileD [THEN conjunct2])
  moreover have "takeWhile (\<lambda>i. \<not> bit v i) ?ks ! (63 - k) = ?ks ! (63 - k)"
    using j unfolding leading_zeros_def by (rule takeWhile_nth)
  moreover have "?ks ! (63 - k) = k" using k by (simp add: rev_nth)
  ultimately show False using b by simp
qed

lemma leading_zeros_le: "leading_zeros v \<le> 64"
  unfolding leading_zeros_def by (rule order_trans [OF length_takeWhile_le]) simp

lemma fold_min_le: "fold min xs (y :: u64) \<le> y \<and> (\<forall>x \<in> set xs. fold min xs y \<le> x)"
proof (induction xs arbitrary: y)
  case (Cons x xs)
  have "fold min xs (min x y) \<le> min x y" using Cons by blast
  then show ?case using Cons by auto
qed simp

lemma fold_max_ge: "y \<le> fold max xs (y :: u64) \<and> (\<forall>x \<in> set xs. x \<le> fold max xs y)"
proof (induction xs arbitrary: y)
  case (Cons x xs)
  have "max x y \<le> fold max xs (max x y)" using Cons by blast
  then have "x \<le> fold max xs (max x y)" "y \<le> fold max xs (max x y)" by simp_all
  then show ?case using Cons by auto
qed simp

lemma list_min_le: "x \<in> set xs \<Longrightarrow> list_min xs \<le> x"
  using fold_min_le by (cases xs) (auto simp: list_min_def)

lemma list_max_ge: "x \<in> set xs \<Longrightarrow> x \<le> list_max xs"
  using fold_max_ge by (cases xs) (auto simp: list_max_def)

text \<open>Every offset from the minimum fits the block's width.\<close>

definition for_width :: "u64 list \<Rightarrow> nat" where
  "for_width xs = 64 - leading_zeros (list_max xs - list_min xs)"

lemma for_width_le: "for_width xs \<le> 64"
  by (simp add: for_width_def)

lemma for_width_fits:
  assumes "x \<in> set xs"
  shows "take_bit (for_width xs) (x - list_min xs) = x - list_min xs"
proof (cases "for_width xs = 64")
  case True
  then show ?thesis by (simp add: take_bit_word_eq_self)
next
  case False
  let ?d = "list_max xs - list_min xs" and ?n = "for_width xs"
  from False have n: "?n < 64" using for_width_le [of xs] by simp
  have "take_bit ?n ?d = ?d"
    by (rule bit_word_eqI) (auto simp: bit_simps for_width_def dest: bit_leading_zeros)
  then have "unat ?d < 2 ^ ?n" by (metis unsigned_take_bit_eq take_bit_nat_less_exp)
  moreover have "unat (x - list_min xs) \<le> unat ?d"
    using list_min_le [OF assms] list_max_ge [OF assms]
    by (simp add: unat_sub word_le_nat_alt)
  ultimately have "unat (x - list_min xs) < 2 ^ ?n" by simp
  then have "unat (take_bit ?n (x - list_min xs)) = unat (x - list_min xs)"
    by (simp add: unsigned_take_bit_eq take_bit_nat_eq_self)
  then show ?thesis by (rule word_unat_eq_iff [THEN iffD2])
qed

definition pack :: "u64 \<Rightarrow> nat \<Rightarrow> u64 list \<Rightarrow> bit_writer \<Rightarrow> bit_writer" where
  "pack mn width values = fold (\<lambda>v. bw_write (v - mn) width) values"

lemma pack_spec:
  assumes "bw_wf w" "width \<le> 64"
  shows "bw_wf (pack mn width vs w) \<and> bw_bits (pack mn width vs w) = bw_bits w + length vs * width \<and>
    bw_abs (pack mn width vs w) = bw_abs w @ concat (map (\<lambda>v. word_bits width (v - mn)) vs)"
  using assms(1)
proof (induction vs arbitrary: w)
  case (Cons v vs)
  then show ?case
    using Cons.IH [OF bw_write_wf [OF Cons.prems assms(2)]]
    by (simp add: pack_def bw_write_bits bw_abs_write assms(2))
qed (simp add: pack_def)

lemma read_packed_at:
  assumes "bits_at r (concat (map (\<lambda>v. word_bits width (v - mn)) vs) @ rest)" "width \<le> 64"
    "\<And>v. v \<in> set vs \<Longrightarrow> take_bit width (v - mn) = v - mn"
  shows "read_packed mn width (length vs) r = Inr vs"
  using assms(1,3)
proof (induction vs arbitrary: r)
  case (Cons v vs)
  then obtain r' where "br_read width r = Inr (take_bit width (v - mn), r')"
    and "bits_at r' (concat (map (\<lambda>v. word_bits width (v - mn)) vs) @ rest)"
    using br_read_at [OF _ assms(2)] by fastforce
  with Cons show ?case by simp
qed simp

lemma write_for_eq:
  "write_for vs out = sink_bytes (bw_finish (pack (list_min vs) (for_width vs) vs bw_new))
     (sink_u8 (word_of_nat (for_width vs)) (sink_u64 (list_min vs) out))"
  by (simp add: write_for_def for_width_def pack_def Let_def)

lemma write_for_append: "write_for vs out = out @ write_for vs []"
  unfolding write_for_eq sink_bytes_append [of _ "sink_u8 _ _"] by (simp add: sink_u8_def sink_u64_def)

lemma rd_safe_lift: "rd_safe (\<lambda>c. case y of Inl e \<Rightarrow> Inl e | Inr vs \<Rightarrow> Inr (vs, c))"
  by (rule rd_safeI) (auto split: sum.splits)

lemma rd_safe_read_for [rd_safe_intros]: "rd_safe (read_for rows)"
  unfolding read_for_def Let_def by (intro rd_safe_intros rd_safe_lift)

lemma length_pack:
  assumes "width \<le> 64"
  shows "length (bw_finish (pack mn width vs bw_new)) = (length vs * width + 7) div 8"
proof -
  have "bw_bits bw_new = 0" by (simp add: bw_new_def)
  then show ?thesis
    using pack_spec [OF bw_wf_new assms, of mn vs] by (simp add: bw_wf_def bw_finish_def)
qed

lemma read_packed_pack:
  "read_packed (list_min vs) (for_width vs) (length vs)
     (br_new (bw_finish (pack (list_min vs) (for_width vs) vs bw_new))) = Inr vs"
proof -
  let ?w = "pack (list_min vs) (for_width vs) vs bw_new"
  have "bw_wf ?w" and abs: "bw_abs ?w = concat (map (\<lambda>v. word_bits (for_width vs) (v - list_min vs)) vs)"
    using pack_spec [OF bw_wf_new for_width_le, of "list_min vs" vs vs] by simp_all
  then obtain pad where "bits_at (br_new (bw_finish ?w)) (bw_abs ?w @ pad)"
    using bits_at_new_finish by blast
  then show ?thesis
    unfolding abs by (rule read_packed_at [OF _ for_width_le for_width_fits])
qed

lemma read_for_enc:
  assumes "length vs \<le> MAX_DECODE_ROWS" "cursor_at c (write_for vs [] @ ys)"
  shows "read_for (length vs) c = Inr (vs, cur_advance (length (write_for vs [])) c)"
proof -
  let ?mn = "list_min vs" and ?w = "for_width vs"
  let ?p = "bw_finish (pack ?mn ?w vs bw_new)"
  let ?a = "sink_u64 ?mn []" and ?b = "sink_u8 (word_of_nat ?w) []" and ?d = "sink_bytes ?p []"
  have enc: "write_for vs [] = ?a @ ?b @ ?d"
    unfolding write_for_eq sink_bytes_append [of _ "sink_u8 _ _"] by (simp add: sink_u8_def sink_u64_def)
  with assms have at1: "cursor_at c (?a @ ?b @ ?d @ ys)" by simp
  note at2 = cursor_at_advance [OF at1]
  note at3 = cursor_at_advance [OF at2]
  have w: "unat (word_of_nat ?w :: byte) = ?w"
    using for_width_le [of vs] by (simp add: unat_of_nat take_bit_nat_eq_self)
  have lp: "length ?p = (length vs * ?w + 7) div 8" by (rule length_pack [OF for_width_le])
  have "length vs * ?w \<le> 2 ^ 22 * 64"
    using assms(1) for_width_le [of vs] by (intro mult_le_mono) (simp_all add: MAX_DECODE_ROWS_def)
  then have "length ?p < 2 ^ 64" unfolding lp by simp
  note r = u64_codec.dec_enc [OF _ at1] u8_codec.dec_enc [OF _ at2] bytes_codec.dec_enc [OF this at3]
  have "length vs < 2 ^ 64" using assms(1) by (simp add: MAX_DECODE_ROWS_def)
  then have g: "cur_guard_len (word_of_nat (length vs)) 0 c' = Inr (length vs, c')" for c'
    using assms(1) by (simp add: guard_len_ok_iff)
  show ?thesis
    using r w g lp for_width_le [of vs] read_packed_pack [of vs]
    by (simp add: read_for_def rbind_def enc add.assoc)
qed

interpretation for_codec: codec write_for "read_for n" "\<lambda>vs. length vs = n \<and> n \<le> MAX_DECODE_ROWS" for n
proof
  show "write_for vs s = s @ write_for vs []" for vs s by (rule write_for_append)
  show "rd_safe (read_for n)" by (rule rd_safe_read_for)
  show "read_for n c = Inr (vs, cur_advance (length (write_for vs [])) c)"
    if "length vs = n \<and> n \<le> MAX_DECODE_ROWS" "cursor_at c (write_for vs [] @ ys)" for vs c ys
    using read_for_enc [of vs c ys] that by auto
qed

section \<open>Properties of the bit stream\<close>

text \<open>Reads of the given widths, one after the other.\<close>

fun br_reads :: "nat list \<Rightarrow> bit_reader \<Rightarrow> decode_error + u64 list" where
  "br_reads [] r = Inr []"
| "br_reads (n # ns) r =
     (case br_read n r of Inl e \<Rightarrow> Inl e
      | Inr (v, r') \<Rightarrow> (case br_reads ns r' of Inl e \<Rightarrow> Inl e | Inr vs \<Rightarrow> Inr (v # vs)))"

lemma bw_writes_spec:
  assumes "bw_wf w" "\<forall>(v, n) \<in> set fs. n \<le> 64"
  shows "bw_wf (fold (\<lambda>(v, n). bw_write v n) fs w) \<and>
    bw_abs (fold (\<lambda>(v, n). bw_write v n) fs w) = bw_abs w @ concat (map (\<lambda>(v, n). word_bits n v) fs)"
  using assms by (induction fs arbitrary: w) (auto simp: bw_write_wf bw_abs_write)

lemma br_reads_at:
  assumes "bits_at r (concat (map (\<lambda>(v, n). word_bits n v) fs) @ rest)" "\<forall>(v, n) \<in> set fs. n \<le> 64"
  shows "br_reads (map snd fs) r = Inr (map (\<lambda>(v, n). take_bit n v) fs)"
  using assms
proof (induction fs arbitrary: r)
  case (Cons f fs)
  obtain v n where f: "f = (v, n)" by (cases f)
  have "bits_at r (word_bits n v @ concat (map (\<lambda>(v, n). word_bits n v) fs) @ rest)"
    using Cons.prems(1) f by simp
  then obtain r' where "br_read n r = Inr (take_bit n v, r')"
    "bits_at r' (concat (map (\<lambda>(v, n). word_bits n v) fs) @ rest)"
    using br_read_at [of r n v] Cons.prems(2) f by auto
  then show ?case using Cons.IH [of r'] Cons.prems(2) f by simp
qed simp

text \<open>
  \<open>BitWriter\<close> against \<open>BitReader\<close>: whatever fields of at most 64 bits are written, one
  after the other and with no alignment between them, reading the same widths from the
  finished buffer gives every field back, reduced to its width.
\<close>

lemma bit_fields_roundtrip:
  assumes "\<forall>(v, n) \<in> set fs. n \<le> 64"
  shows "br_reads (map snd fs) (br_new (bw_finish (fold (\<lambda>(v, n). bw_write v n) fs bw_new))) =
    Inr (map (\<lambda>(v, n). take_bit n v) fs)"
proof -
  let ?w = "fold (\<lambda>(v, n). bw_write v n) fs bw_new"
  obtain pad where "bits_at (br_new (bw_finish ?w)) (bw_abs ?w @ pad)"
    using bits_at_new_finish [of ?w] bw_writes_spec [OF bw_wf_new assms] by blast
  then show ?thesis
    using br_reads_at [of _ fs pad] bw_writes_spec [OF bw_wf_new assms] assms by simp
qed

lemma bit_fields_roundtrip_witness:
  "br_reads [3, 64, 0, 7] (br_new (bw_finish (bw_write 0x41 7 (bw_write 9 0 (bw_write 12345678901234567890 64 (bw_write 13 3 bw_new)))))) =
    Inr [5, 12345678901234567890, 0, 0x41]"
  using bit_fields_roundtrip [of "[(13, 3), (12345678901234567890, 64), (9, 0), (0x41, 7)]"]
  by (simp add: take_bit_eq_mod)

text \<open>
  \<open>BitWriter::write\<close> refines appending to a sequence of bits: the bits already written
  stay, the low \<open>n\<close> bits of the value follow them lowest first, the buffer has just the
  bytes those bits need, and the padding of its last byte stays zero. A read past the end
  of a buffer is \<open>Truncated\<close>, never a panic.
\<close>

lemma bit_writer_refines:
  assumes "bw_wf w" "n \<le> 64"
  shows "bw_wf (bw_write v n w) \<and> bw_abs (bw_write v n w) = bw_abs w @ word_bits n v \<and>
    (br_wf r \<longrightarrow> length (br_abs r) < m \<longrightarrow> br_read m r = Inl Truncated)"
  using bw_write_wf [OF assms] bw_abs_write [OF assms] br_read_truncated by blast

lemma bit_writer_refines_witness:
  "bw_wf (bw_write 13 3 bw_new) \<and> bw_abs (bw_write 13 3 bw_new) = bw_abs bw_new @ word_bits 3 13 \<and>
   br_read 9 (br_new [255]) = Inl Truncated"
  using bit_writer_refines [of bw_new 3 13 "br_new [255]" 9] by (simp add: br_wf_def br_abs_def br_new_def)

end
