(* ===== verification/Int_Encodings.thy ===== *)
theory Int_Encodings
  imports Bitpack Bitmap
begin

text \<open>
  The integer and boolean chunk encodings: RLE (\<open>encode/rle.rs\<close>), FOR
  (\<open>encode/frame_of_ref.rs\<close>), DELTA and DELTA_OF_DELTA (\<open>encode/delta.rs\<close>). Each is an
  encoder from a column slice to the sink and a decoder that is given the row count.
  Every decoder loop is written as the source has it, with its early returns; the
  theorems are the round trips, stated as instances of the \<open>codec\<close> interface.
\<close>

section \<open>RLE\<close>

definition rl_step :: "'a \<Rightarrow> ('a \<times> nat) list \<Rightarrow> ('a \<times> nat) list" where
  "rl_step x out =
     (if out \<noteq> [] \<and> fst (last out) = x
      then butlast out @ [(x, snd (last out) + 1)]
      else out @ [(x, 1)])"

definition run_lengths :: "'a list \<Rightarrow> ('a \<times> nat) list" where
  "run_lengths v = fold rl_step v []"

definition read_nruns :: "nat \<Rightarrow> nat rd" where
  "read_nruns rows = rbind cur_uvarint (\<lambda>nruns.
     if unat nruns > rows then rerr (Malformed ''rle: run count exceeds rows'')
     else cur_guard_len nruns 2)"

definition read_run_len :: "nat \<Rightarrow> nat \<Rightarrow> nat rd" where
  "read_run_len rows pos = rbind cur_uvarint (\<lambda>len.
     if len = 0 then rerr (Malformed ''rle: zero-length run'')
     else let new_pos = pos + unat len
          in if new_pos \<ge> 2 ^ 64 then rerr (Malformed ''rle: run too long'')
             else if new_pos > rows then rerr (Malformed ''rle: run sum exceeds rows'')
             else rret (unat len))"

text \<open>
  The loop of the three decoders: read a value, read its run length against what is
  already decoded, extend the output. \<open>app\<close> is the extension (\<open>resize\<close> of a vector, or
  repeated \<open>push\<close> on a bitmap) and \<open>cnt\<close> the rows decoded so far.
\<close>

fun rle_loop :: "'a rd \<Rightarrow> ('o \<Rightarrow> 'a \<Rightarrow> nat \<Rightarrow> 'o) \<Rightarrow> ('o \<Rightarrow> nat) \<Rightarrow> nat \<Rightarrow> nat \<Rightarrow> 'o \<Rightarrow> 'o rd" where
  "rle_loop rv app cnt rows 0 out = rret out"
| "rle_loop rv app cnt rows (Suc n) out =
     rbind rv (\<lambda>v.
     rbind (read_run_len rows (cnt out)) (\<lambda>len.
     rle_loop rv app cnt rows n (app out v len)))"

definition rle_finish :: "('o \<Rightarrow> nat) \<Rightarrow> nat \<Rightarrow> 'o \<Rightarrow> 'o rd" where
  "rle_finish cnt rows out =
     (if cnt out \<noteq> rows then rerr (Malformed ''rle: run sum does not match rows'')
      else rret out)"

definition vec_app :: "'a list \<Rightarrow> 'a \<Rightarrow> nat \<Rightarrow> 'a list" where
  "vec_app out v len = out @ replicate len v"

definition bm_app :: "bitmap \<times> nat \<Rightarrow> bool \<Rightarrow> nat \<Rightarrow> bitmap \<times> nat" where
  "bm_app out v len = (fold (\<lambda>b bm. bm_push bm b) (replicate len v) (fst out), snd out + len)"

definition rle_encode_u64 :: "u64 list \<Rightarrow> sink \<Rightarrow> sink" where
  "rle_encode_u64 v out =
     (let runs = run_lengths v
      in fold (\<lambda>(val, len) s. sink_uvarint (word_of_nat len) (sink_uvarint val s)) runs
           (sink_uvarint (word_of_nat (length runs)) out))"

definition rle_decode_u64 :: "nat \<Rightarrow> u64 list rd" where
  "rle_decode_u64 rows = rbind (read_nruns rows) (\<lambda>nruns.
     rbind (rle_loop cur_uvarint vec_app length rows nruns []) (rle_finish length rows))"

definition rle_encode_i64 :: "i64 list \<Rightarrow> sink \<Rightarrow> sink" where
  "rle_encode_i64 v out =
     (let runs = run_lengths v
      in fold (\<lambda>(val, len) s. sink_uvarint (word_of_nat len) (sink_svarint val s)) runs
           (sink_uvarint (word_of_nat (length runs)) out))"

definition rle_decode_i64 :: "nat \<Rightarrow> i64 list rd" where
  "rle_decode_i64 rows = rbind (read_nruns rows) (\<lambda>nruns.
     rbind (rle_loop cur_svarint vec_app length rows nruns []) (rle_finish length rows))"

definition sink_bool :: "bool \<Rightarrow> sink \<Rightarrow> sink" where
  "sink_bool b = sink_u8 (if b then 1 else 0)"

definition rle_encode_bool :: "bitmap \<Rightarrow> sink \<Rightarrow> sink" where
  "rle_encode_bool bits out =
     (let runs = run_lengths (map (bm_at bits) [0..<bm_len bits])
      in fold (\<lambda>(v, len) s. sink_uvarint (word_of_nat len) (sink_bool v s)) runs
           (sink_uvarint (word_of_nat (length runs)) out))"

definition rle_read_bool :: "bool rd" where
  "rle_read_bool = rbind cur_u8 (\<lambda>v.
     if v > 1 then rerr (Malformed ''rle: bool value not 0 or 1'') else rret (v = 1))"

definition rle_decode_bool :: "nat \<Rightarrow> bitmap rd" where
  "rle_decode_bool rows = rbind (read_nruns rows) (\<lambda>nruns.
     rbind (rle_loop rle_read_bool bm_app snd rows nruns (bm_new_null 0, 0)) (\<lambda>out.
     rbind (rle_finish snd rows out) (\<lambda>out. rret (fst out))))"

section \<open>FOR\<close>

definition SIGN :: u64 where
  "SIGN = push_bit 63 1"

definition for_encode_i64 :: "i64 list \<Rightarrow> sink \<Rightarrow> sink" where
  "for_encode_i64 v out = write_for (map (\<lambda>x. x XOR SIGN) v) out"

definition for_decode_i64 :: "nat \<Rightarrow> i64 list rd" where
  "for_decode_i64 rows = rbind (read_for rows) (\<lambda>mapped. rret (map (\<lambda>u. u XOR SIGN) mapped))"

definition for_encode_u64 :: "u64 list \<Rightarrow> sink \<Rightarrow> sink" where
  "for_encode_u64 v out = write_for v out"

definition for_decode_u64 :: "nat \<Rightarrow> u64 list rd" where
  "for_decode_u64 rows = read_for rows"

section \<open>DELTA and DELTA_OF_DELTA\<close>

definition encode_delta_mapped :: "u64 list \<Rightarrow> sink \<Rightarrow> sink" where
  "encode_delta_mapped x out =
     (case x of
        [] \<Rightarrow> out
      | first # rest \<Rightarrow>
          let out1 = sink_u64 first out
          in if rest = [] then out1
             else write_for (map (\<lambda>(a, b). zigzag (b - a)) (zip x rest)) out1)"

fun delta_loop :: "u64 \<Rightarrow> u64 list \<Rightarrow> u64 list" where
  "delta_loop prev [] = []"
| "delta_loop prev (dz # dzs) =
     (let prev' = prev + unzigzag dz in prev' # delta_loop prev' dzs)"

definition decode_delta_mapped :: "nat \<Rightarrow> u64 list rd" where
  "decode_delta_mapped rows =
     (if rows = 0 then rret []
      else rbind cur_u64 (\<lambda>first.
        if rows = 1 then rret [first]
        else rbind (read_for (rows - 1)) (\<lambda>deltas. rret (first # delta_loop first deltas))))"

fun dod_seconds :: "i64 \<Rightarrow> u64 \<Rightarrow> u64 list \<Rightarrow> u64 list" where
  "dod_seconds prev_delta prev [] = []"
| "dod_seconds prev_delta prev (x # xs) =
     (let delta = x - prev in zigzag (delta - prev_delta) # dod_seconds delta x xs)"

definition encode_dod_mapped :: "u64 list \<Rightarrow> sink \<Rightarrow> sink" where
  "encode_dod_mapped x out =
     (case x of
        [] \<Rightarrow> out
      | first # rest \<Rightarrow>
          let out1 = sink_u64 first out
          in (case rest of
                [] \<Rightarrow> out1
              | second # others \<Rightarrow>
                  let first_delta = second - first
                  in write_for (dod_seconds first_delta second others) (sink_svarint first_delta out1)))"

fun dod_loop :: "i64 \<Rightarrow> u64 \<Rightarrow> u64 list \<Rightarrow> u64 list" where
  "dod_loop prev_delta prev_val [] = []"
| "dod_loop prev_delta prev_val (dz # dzs) =
     (let delta = prev_delta + unzigzag dz; v = prev_val + delta in v # dod_loop delta v dzs)"

definition decode_dod_mapped :: "nat \<Rightarrow> u64 list rd" where
  "decode_dod_mapped rows =
     (if rows = 0 then rret []
      else rbind cur_u64 (\<lambda>first.
        if rows = 1 then rret [first]
        else rbind cur_svarint (\<lambda>first_delta.
          let second = first + first_delta
          in rbind (read_for (rows - 2)) (\<lambda>seconds.
             rret (first # second # dod_loop first_delta second seconds)))))"

definition map_i64 :: "i64 list \<Rightarrow> u64 list" where
  "map_i64 v = map (\<lambda>x. x XOR SIGN) v"

definition unmap_i64 :: "u64 list \<Rightarrow> i64 list" where
  "unmap_i64 v = map (\<lambda>u. u XOR SIGN) v"

definition encode_delta_i64 :: "i64 list \<Rightarrow> sink \<Rightarrow> sink" where
  "encode_delta_i64 v out = encode_delta_mapped (map_i64 v) out"

definition decode_delta_i64 :: "nat \<Rightarrow> i64 list rd" where
  "decode_delta_i64 rows = rbind (decode_delta_mapped rows) (\<lambda>v. rret (unmap_i64 v))"

definition encode_delta_u64 :: "u64 list \<Rightarrow> sink \<Rightarrow> sink" where
  "encode_delta_u64 v out = encode_delta_mapped v out"

definition decode_delta_u64 :: "nat \<Rightarrow> u64 list rd" where
  "decode_delta_u64 rows = decode_delta_mapped rows"

definition encode_dod_i64 :: "i64 list \<Rightarrow> sink \<Rightarrow> sink" where
  "encode_dod_i64 v out = encode_dod_mapped (map_i64 v) out"

definition decode_dod_i64 :: "nat \<Rightarrow> i64 list rd" where
  "decode_dod_i64 rows = rbind (decode_dod_mapped rows) (\<lambda>v. rret (unmap_i64 v))"

definition encode_dod_u64 :: "u64 list \<Rightarrow> sink \<Rightarrow> sink" where
  "encode_dod_u64 v out = encode_dod_mapped v out"

definition decode_dod_u64 :: "nat \<Rightarrow> u64 list rd" where
  "decode_dod_u64 rows = decode_dod_mapped rows"

section \<open>Runs\<close>

definition expand :: "('a \<times> nat) list \<Rightarrow> 'a list" where
  "expand runs = concat (map (\<lambda>(x, n). replicate n x) runs)"

lemma expand_append [simp]: "expand (xs @ ys) = expand xs @ expand ys"
  by (simp add: expand_def)

lemma expand_simps [simp]: "expand [] = []" "expand ((x, n) # r) = replicate n x @ expand r"
  by (simp_all add: expand_def)

lemma expand_rl_step: "expand (rl_step x out) = expand out @ [x]"
proof (cases "out \<noteq> [] \<and> fst (last out) = x")
  case True
  then obtain ini n where "out = ini @ [(x, n)]" by (cases out rule: rev_cases) auto
  then show ?thesis by (simp add: rl_step_def replicate_append_same [symmetric])
next
  case False
  then show ?thesis by (auto simp: rl_step_def)
qed

lemma expand_fold: "expand (fold rl_step v out) = expand out @ v"
  by (induction v arbitrary: out) (simp_all add: expand_rl_step)

lemma expand_run_lengths: "expand (run_lengths v) = v"
  by (simp add: run_lengths_def expand_fold)

lemma run_lengths_pos:
  assumes "(x, n) \<in> set (run_lengths v)"
  shows "0 < n"
proof -
  have step: "\<forall>(y, m) \<in> set (rl_step x out). 0 < m" if "\<forall>(y, m) \<in> set out. 0 < m" for x :: 'a and out
    using that by (auto simp: rl_step_def dest: in_set_butlastD)
  have "\<forall>(y, m) \<in> set (fold rl_step v out). 0 < m" if "\<forall>(y, m) \<in> set out. 0 < m" for out
    using that
  proof (induction v arbitrary: out)
    case (Cons x v)
    show ?case using Cons.IH [OF step [OF Cons.prems]] by simp
  qed simp
  from this [of "[]"] assms show ?thesis by (auto simp: run_lengths_def)
qed

text \<open>Adjacent runs differ, so the runs are maximal and no shorter list expands to the same rows.\<close>

lemma run_lengths_maximal: "successively (\<lambda>a b. fst a \<noteq> fst b) (run_lengths v)"
proof -
  have step: "successively (\<lambda>a b. fst a \<noteq> fst b) (rl_step x out)"
    if "successively (\<lambda>a b. fst a \<noteq> fst b) out" for x :: 'a and out
    using that by (cases out rule: rev_cases) (auto simp: rl_step_def successively_append_iff)
  have "successively (\<lambda>a b. fst a \<noteq> fst b) (fold rl_step v out)"
    if "successively (\<lambda>a b. fst a \<noteq> fst b) out" for out
    using that by (induction v arbitrary: out) (auto intro: step)
  then show ?thesis by (simp add: run_lengths_def)
qed

lemma length_runs_le:
  assumes "\<forall>(x, n) \<in> set runs. 0 < n"
  shows "length runs \<le> length (expand runs)"
  using assms by (induction runs) auto

section \<open>RLE round trip\<close>

text \<open>
  The decoders' loop, for any codec of values and any output that grows by runs.
\<close>

locale rle_runs = codec venc vdec "\<lambda>_. True"
  for venc :: "'a \<Rightarrow> sink \<Rightarrow> sink" and vdec :: "'a rd" +
  fixes app :: "'o \<Rightarrow> 'a \<Rightarrow> nat \<Rightarrow> 'o" and cnt :: "'o \<Rightarrow> nat"
    and contents :: "'o \<Rightarrow> 'a list" and inv :: "'o \<Rightarrow> bool"
  assumes inv_app: "inv out \<Longrightarrow> inv (app out v n)"
    and contents_app: "inv out \<Longrightarrow> contents (app out v n) = contents out @ replicate n v"
    and cnt_contents: "inv out \<Longrightarrow> cnt out = length (contents out)"
    and venc_nonempty: "venc v [] \<noteq> []"
begin

definition enc_run :: "'a \<times> nat \<Rightarrow> sink \<Rightarrow> sink" where
  "enc_run = (\<lambda>(v, n) s. sink_uvarint (word_of_nat n) (venc v s))"

definition enc_runs :: "('a \<times> nat) list \<Rightarrow> sink \<Rightarrow> sink" where
  "enc_runs runs out = fold enc_run runs (sink_uvarint (word_of_nat (length runs)) out)"

lemma enc_run_split: "enc_run (v, n) s = s @ venc v [] @ sink_uvarint (word_of_nat n) []"
  unfolding enc_run_def using sink_uvarint_append [of _ "venc v s"] enc_append [of v s] by simp

lemma enc_run_append: "enc_run r s = s @ enc_run r []"
  by (cases r) (simp add: enc_run_split)

lemma fold_enc_run: "fold enc_run rs s = s @ concat (map (\<lambda>r. enc_run r []) rs)"
proof (induction rs arbitrary: s)
  case (Cons r rs)
  have "fold enc_run (r # rs) s = enc_run r s @ concat (map (\<lambda>r. enc_run r []) rs)"
    by (simp add: Cons.IH)
  also have "enc_run r s = s @ enc_run r []" by (rule enc_run_append)
  finally show ?case by simp
qed simp

lemma enc_runs_split:
  "enc_runs runs out = out @ sink_uvarint (word_of_nat (length runs)) [] @ concat (map (\<lambda>r. enc_run r []) runs)"
  unfolding enc_runs_def fold_enc_run [of runs "sink_uvarint _ _"]
  by (subst sink_uvarint_append) simp

lemma read_run_len_at:
  assumes "cursor_at c (sink_uvarint (word_of_nat n) [] @ ys)" "0 < n" "pos + n \<le> rows" "rows < 2 ^ 64"
  shows "read_run_len rows pos c = Inr (n, cur_advance (length (sink_uvarint (word_of_nat n) [])) c)"
proof -
  have n: "unat (word_of_nat n :: u64) = n" using assms(3,4) by simp
  with assms(2) have "(word_of_nat n :: u64) \<noteq> 0" by (metis unat_0 less_numeral_extra(3))
  with n show ?thesis using uvarint_codec.dec_enc [OF _ assms(1)] assms(3,4)
    by (simp add: read_run_len_def rbind_def Let_def)
qed

lemma loop_at:
  assumes "cursor_at c (concat (map (\<lambda>r. enc_run r []) runs) @ ys)" "inv out" "rows < 2 ^ 64"
    "\<forall>(v, n) \<in> set runs. 0 < n" "length (contents out) + length (expand runs) \<le> rows"
  shows "\<exists>out'. rle_loop vdec app cnt rows (length runs) out c =
      Inr (out', cur_advance (length (concat (map (\<lambda>r. enc_run r []) runs))) c) \<and>
      inv out' \<and> contents out' = contents out @ expand runs"
  using assms(1,2,4,5)
proof (induction runs arbitrary: c out)
  case (Cons r runs)
  obtain v n where r: "r = (v, n)" by (cases r)
  let ?e = "venc v []" and ?l = "sink_uvarint (word_of_nat n) []"
  let ?rest = "concat (map (\<lambda>r. enc_run r []) runs)"
  have at: "cursor_at c (?e @ ?l @ ?rest @ ys)" using Cons.prems(1) by (simp add: r enc_run_split)
  note at1 = cursor_at_advance [OF at]
  note at2 = cursor_at_advance [OF at1]
  have rl: "read_run_len rows (cnt out) (cur_advance (length ?e) c) =
      Inr (n, cur_advance (length ?l) (cur_advance (length ?e) c))"
    by (rule read_run_len_at [OF at1]) (use Cons.prems assms(3) in \<open>simp_all add: r cnt_contents\<close>)
  have "\<exists>out'. rle_loop vdec app cnt rows (length runs) (app out v n) (cur_advance (length ?l) (cur_advance (length ?e) c))
      = Inr (out', cur_advance (length ?rest) (cur_advance (length ?l) (cur_advance (length ?e) c))) \<and>
      inv out' \<and> contents out' = contents (app out v n) @ expand runs"
    by (rule Cons.IH [OF at2]) (use Cons.prems in \<open>simp_all add: r inv_app contents_app\<close>)
  then show ?case
    using dec_enc [OF _ at] rl Cons.prems(2)
    by (auto simp: rbind_def r enc_run_split contents_app add.assoc)
qed simp

lemma enc_run_length: "2 \<le> length (enc_run r [])"
proof (cases r)
  case (Pair v n)
  have "1 \<le> length (venc v [])" using venc_nonempty [of v] by (cases "venc v []") simp_all
  moreover have "1 \<le> length (sink_uvarint (word_of_nat n) [])"
    using length_sink_uvarint_pos by (rule Suc_leI [THEN order_trans [rotated]]) simp
  ultimately show ?thesis by (simp add: Pair enc_run_split)
qed

lemma enc_runs_length: "2 * length runs \<le> length (concat (map (\<lambda>r. enc_run r []) runs))"
proof (induction runs)
  case (Cons r runs)
  then show ?case using enc_run_length [of r] by simp
qed simp

lemma decode_runs:
  assumes at: "cursor_at c (enc_runs runs [] @ ys)" and "inv out0" "contents out0 = []"
    and pos: "\<forall>(v, n) \<in> set runs. 0 < n" and rows: "length (expand runs) = rows" "rows \<le> MAX_DECODE_ROWS"
  shows "\<exists>out'. rbind (read_nruns rows) (\<lambda>nruns. rbind (rle_loop vdec app cnt rows nruns out0) (rle_finish cnt rows)) c
    = Inr (out', cur_advance (length (enc_runs runs [])) c) \<and> inv out' \<and> contents out' = expand runs"
proof -
  let ?n = "sink_uvarint (word_of_nat (length runs)) []" and ?rs = "concat (map (\<lambda>r. enc_run r []) runs)"
  have at1: "cursor_at c (?n @ ?rs @ ys)" using at by (simp add: enc_runs_split)
  note at2 = cursor_at_advance [OF at1]
  have len: "length runs \<le> rows" using length_runs_le [OF pos] rows(1) by simp
  have r64: "rows < 2 ^ 64" using rows(2) by (simp add: MAX_DECODE_ROWS_def)
  have u: "unat (word_of_nat (length runs) :: u64) = length runs" using len r64 by simp
  have "length runs * 2 \<le> cur_remaining (cur_advance (length ?n) c)"
    using enc_runs_length [of runs] by (simp add: cursor_at_remaining [OF at2])
  moreover have "length runs * 2 < 2 ^ 64" using len rows(2) by (simp add: MAX_DECODE_ROWS_def)
  ultimately have g: "cur_guard_len (word_of_nat (length runs)) 2 (cur_advance (length ?n) c)
      = Inr (length runs, cur_advance (length ?n) c)"
    using u len rows(2) by (simp add: guard_len_ok_iff)
  obtain out' where "rle_loop vdec app cnt rows (length runs) out0 (cur_advance (length ?n) c)
      = Inr (out', cur_advance (length ?rs) (cur_advance (length ?n) c))" "inv out'" "contents out' = expand runs"
    using loop_at [OF at2 assms(2) r64 pos] assms(3) rows(1) by auto
  then show ?thesis
    using uvarint_codec.dec_enc [OF _ at1] u len g rows(1)
    by (auto simp: read_nruns_def rbind_def rle_finish_def enc_runs_split cnt_contents)
qed

end

lemma rd_safe_read_nruns [rd_safe_intros]: "rd_safe (read_nruns rows)"
  unfolding read_nruns_def by (intro rd_safe_intros)

lemma rd_safe_read_run_len [rd_safe_intros]: "rd_safe (read_run_len rows pos)"
  unfolding read_run_len_def Let_def by (intro rd_safe_intros)

lemma rd_safe_rle_loop [rd_safe_intros]: "rd_safe rv \<Longrightarrow> rd_safe (rle_loop rv app cnt rows n out)"
  by (induction n arbitrary: out) (auto intro!: rd_safe_intros)

lemma rd_safe_rle_finish [rd_safe_intros]: "rd_safe (rle_finish cnt rows out)"
  unfolding rle_finish_def by (intro rd_safe_intros)

interpretation rle_u64: rle_runs sink_uvarint cur_uvarint vec_app length "\<lambda>v. v" "\<lambda>_. True"
  using length_sink_uvarint_pos by unfold_locales (auto simp: vec_app_def)

interpretation rle_i64: rle_runs sink_svarint cur_svarint vec_app length "\<lambda>v. v" "\<lambda>_. True"
  using length_sink_uvarint_pos by unfold_locales (auto simp: vec_app_def sink_svarint_def)

interpretation bool_codec: codec sink_bool rle_read_bool "\<lambda>_. True"
proof
  fix c ys b
  assume "cursor_at c (sink_bool b [] @ ys)"
  then have at: "cursor_at c (sink_u8 (if b then 1 else 0) [] @ ys)" by (simp add: sink_bool_def)
  show "rle_read_bool c = Inr (b, cur_advance (length (sink_bool b [])) c)"
    using u8_codec.dec_enc [OF _ at] by (cases b) (simp_all add: rle_read_bool_def rbind_def sink_bool_def)
qed (auto simp: sink_bool_def sink_u8_def rle_read_bool_def intro!: rd_safe_intros)

interpretation rle_bool: rle_runs sink_bool rle_read_bool bm_app snd "\<lambda>p. bm_bits (fst p)"
  "\<lambda>p. bm_wf (fst p) \<and> snd p = bm_len (fst p)"
proof
  fix out :: "bitmap \<times> nat" and v n
  assume out: "bm_wf (fst out) \<and> snd out = bm_len (fst out)"
  note p = bm_seq.push_all [OF conjunct1 [OF out], of "replicate n v"]
  have "bm_len (fst (bm_app out v n)) = bm_len (fst out) + n"
    using arg_cong [OF conjunct2 [OF p], of length] by (simp add: bm_app_def)
  with p out show "bm_wf (fst (bm_app out v n)) \<and> snd (bm_app out v n) = bm_len (fst (bm_app out v n))"
    by (simp add: bm_app_def)
  from p show "bm_bits (fst (bm_app out v n)) = bm_bits (fst out) @ replicate n v" by (simp add: bm_app_def)
qed (simp_all add: sink_bool_def sink_u8_def)

lemma rle_encode_u64_runs: "rle_encode_u64 v out = rle_u64.enc_runs (run_lengths v) out"
  by (simp add: Let_def rle_encode_u64_def rle_u64.enc_runs_def rle_u64.enc_run_def)

lemma rle_encode_i64_runs: "rle_encode_i64 v out = rle_i64.enc_runs (run_lengths v) out"
  by (simp add: Let_def rle_encode_i64_def rle_i64.enc_runs_def rle_i64.enc_run_def)

lemma rle_encode_bool_runs:
  "bm_wf bm \<Longrightarrow> rle_encode_bool bm out = rle_bool.enc_runs (run_lengths (bm_bits bm)) out"
  using bm_seq.scan_bits [of bm]
  by (simp add: Let_def rle_encode_bool_def rle_bool.enc_runs_def rle_bool.enc_run_def)

interpretation rle_u64_codec: codec rle_encode_u64 "rle_decode_u64 n" "\<lambda>v. length v = n \<and> n \<le> MAX_DECODE_ROWS" for n
proof
  show "rle_encode_u64 v s = s @ rle_encode_u64 v []" for v s
    by (simp add: rle_encode_u64_runs rle_u64.enc_runs_split)
  show "rd_safe (rle_decode_u64 n)" unfolding rle_decode_u64_def by (intro rd_safe_intros)
  fix v c ys
  assume "length v = n \<and> n \<le> MAX_DECODE_ROWS" "cursor_at c (rle_encode_u64 v [] @ ys)"
  then show "rle_decode_u64 n c = Inr (v, cur_advance (length (rle_encode_u64 v [])) c)"
    using rle_u64.decode_runs [of c "run_lengths v" ys "[]" n] run_lengths_pos [of _ _ v]
    by (fastforce simp: rle_decode_u64_def rle_encode_u64_runs expand_run_lengths)
qed

interpretation rle_i64_codec: codec rle_encode_i64 "rle_decode_i64 n" "\<lambda>v. length v = n \<and> n \<le> MAX_DECODE_ROWS" for n
proof
  show "rle_encode_i64 v s = s @ rle_encode_i64 v []" for v s
    by (simp add: rle_encode_i64_runs rle_i64.enc_runs_split)
  show "rd_safe (rle_decode_i64 n)" unfolding rle_decode_i64_def by (intro rd_safe_intros)
  fix v c ys
  assume "length v = n \<and> n \<le> MAX_DECODE_ROWS" "cursor_at c (rle_encode_i64 v [] @ ys)"
  then show "rle_decode_i64 n c = Inr (v, cur_advance (length (rle_encode_i64 v [])) c)"
    using rle_i64.decode_runs [of c "run_lengths v" ys "[]" n] run_lengths_pos [of _ _ v]
    by (fastforce simp: rle_decode_i64_def rle_encode_i64_runs expand_run_lengths)
qed

text \<open>A BOOL column's values are a well-formed bitmap, which RLE gives back bit for bit.\<close>

lemma rle_decode_bool_enc:
  assumes "bm_wf bm" "bm_len bm \<le> MAX_DECODE_ROWS" "cursor_at c (rle_encode_bool bm [] @ ys)"
  shows "rle_decode_bool (bm_len bm) c = Inr (bm, cur_advance (length (rle_encode_bool bm [])) c)"
proof -
  let ?rows = "bm_len bm" and ?runs = "run_lengths (bm_bits bm)"
  have new: "bm_wf (bm_new_null 0)" "bm_bits (bm_new_null 0) = []" "bm_len (bm_new_null 0) = 0"
    using bm_seq.wf_empty bm_seq.bits_empty by (simp_all add: bm_new_null_def)
  have "\<exists>out'. rbind (read_nruns ?rows) (\<lambda>nruns. rbind (rle_loop rle_read_bool bm_app snd ?rows nruns (bm_new_null 0, 0))
      (rle_finish snd ?rows)) c = Inr (out', cur_advance (length (rle_encode_bool bm [])) c) \<and>
    (bm_wf (fst out') \<and> snd out' = bm_len (fst out')) \<and> bm_bits (fst out') = expand ?runs"
    unfolding rle_encode_bool_runs [OF assms(1)]
    using assms run_lengths_pos [of _ _ "bm_bits bm"] new
    by (intro rle_bool.decode_runs) (auto simp: rle_encode_bool_runs expand_run_lengths)
  then obtain out' where o: "bm_wf (fst out')" "bm_bits (fst out') = bm_bits bm"
    and r: "rbind (read_nruns ?rows) (\<lambda>nruns. rbind (rle_loop rle_read_bool bm_app snd ?rows nruns (bm_new_null 0, 0))
      (rle_finish snd ?rows)) c = Inr (out', cur_advance (length (rle_encode_bool bm [])) c)"
    by (auto simp: expand_run_lengths)
  have "fst out' = bm" using o assms(1) by (intro bm_eqI)
  with r show ?thesis by (auto simp: rle_decode_bool_def rbind_def split: sum.splits prod.splits)
qed

section \<open>FOR round trip\<close>

lemma xor_sign [simp]: "(x XOR SIGN) XOR SIGN = x"
  by (simp add: xor.assoc)

lemma map_xor_sign [simp]: "map ((\<lambda>u. u XOR SIGN) \<circ> (\<lambda>x. x XOR SIGN)) v = v"
  by (simp add: comp_def)

text \<open>The sign flip turns the signed order into the unsigned one.\<close>

lemma bit_SIGN: "bit SIGN n \<longleftrightarrow> n = 63"
  unfolding SIGN_def bit_push_bit_iff by (auto simp: bit_1_iff)

lemma xor_sign_no_carry: "\<not> bit z 63 \<Longrightarrow> z + SIGN = z XOR SIGN"
  by (subst disjunctive_add) (auto simp: bit_SIGN bit_simps intro!: bit_word_eqI)

lemma xor_sign_add: "z XOR SIGN = z + SIGN"
proof (cases "bit z 63")
  case True
  then have "\<not> bit (z XOR SIGN) 63" by (simp add: bit_simps bit_SIGN)
  from xor_sign_no_carry [OF this] have "z = (z XOR SIGN) + SIGN" by simp
  then have "z + SIGN = (z XOR SIGN) + (SIGN + SIGN)" by (metis add.assoc)
  also have "SIGN + SIGN = 0" by (simp add: SIGN_def)
  finally show ?thesis by simp
qed (simp add: xor_sign_no_carry)

lemma uint_xor_sign: "uint (z XOR SIGN) = sint (z :: i64) + 2 ^ 63"
proof -
  have "sint z = take_bit 64 (uint z + 2 ^ 63) - 2 ^ 63"
    using signed_take_bit_eq_take_bit_shift [of 63 "uint z"] by (simp add: sint_uint)
  then show ?thesis
    unfolding xor_sign_add by (simp add: uint_word_ariths take_bit_eq_mod SIGN_def)
qed

lemma sign_flip_mono: "(x XOR SIGN \<le> y XOR SIGN) \<longleftrightarrow> (sint (x :: i64) \<le> sint y)"
  by (simp add: word_le_def uint_xor_sign)

interpretation for_u64_codec: codec for_encode_u64 "for_decode_u64 n" "\<lambda>v. length v = n \<and> n \<le> MAX_DECODE_ROWS" for n
proof
  show "for_encode_u64 v s = s @ for_encode_u64 v []" for v s
    unfolding for_encode_u64_def by (rule write_for_append)
qed (auto simp: for_encode_u64_def for_decode_u64_def intro: rd_safe_intros for_codec.dec_enc)

lemma rd_safe_delta [rd_safe_intros]: "rd_safe (decode_delta_mapped n)" "rd_safe (decode_dod_mapped n)"
  unfolding decode_delta_mapped_def decode_dod_mapped_def Let_def by (intro rd_safe_intros)+

interpretation for_i64_codec: codec for_encode_i64 "for_decode_i64 n" "\<lambda>v. length v = n \<and> n \<le> MAX_DECODE_ROWS" for n
  unfolding for_encode_i64_def for_decode_i64_def
  by (rule codec_map [OF for_codec.codec_axioms]) auto

section \<open>DELTA and DELTA_OF_DELTA round trips\<close>

lemma delta_loop_inverse:
  "delta_loop first (map (\<lambda>(a, b). zigzag (b - a)) (zip (first # rest) rest)) = rest"
  by (induction rest arbitrary: first) (simp_all add: unzigzag_zigzag)

lemma dod_loop_inverse: "dod_loop pd prev (dod_seconds pd prev xs) = xs"
  by (induction xs arbitrary: pd prev) (simp_all add: unzigzag_zigzag Let_def)

lemma length_dod_seconds [simp]: "length (dod_seconds pd prev xs) = length xs"
  by (induction xs arbitrary: pd prev) (simp_all add: Let_def)

interpretation delta_codec: codec encode_delta_mapped "decode_delta_mapped n"
  "\<lambda>v. length v = n \<and> n \<le> MAX_DECODE_ROWS" for n
proof
  show "encode_delta_mapped v s = s @ encode_delta_mapped v []" for v s
    using write_for_append [of _ "sink_u64 _ s"] write_for_append [of _ "sink_u64 _ []"]
    by (cases v) (simp_all add: encode_delta_mapped_def Let_def sink_u64_def)
  show "rd_safe (decode_delta_mapped n)" by (rule rd_safe_delta)
  fix v c ys
  assume n: "length v = n \<and> n \<le> MAX_DECODE_ROWS" and "cursor_at c (encode_delta_mapped v [] @ ys)"
  then show "decode_delta_mapped n c = Inr (v, cur_advance (length (encode_delta_mapped v [])) c)"
  proof (cases v)
    case (Cons first rest)
    let ?d = "map (\<lambda>(a, b). zigzag (b - a)) (zip v rest)"
    let ?w = "if rest = [] then [] else write_for ?d []"
    have e: "encode_delta_mapped v [] = sink_u64 first [] @ ?w"
      using write_for_append [of ?d "sink_u64 first []"] by (simp add: encode_delta_mapped_def Cons Let_def)
    then have at: "cursor_at c (sink_u64 first [] @ ?w @ ys)"
      using \<open>cursor_at c (encode_delta_mapped v [] @ ys)\<close> by simp
    have "rest \<noteq> [] \<Longrightarrow> read_for (length rest) (cur_advance (length (sink_u64 first [])) c) =
        Inr (?d, cur_advance (length ?w) (cur_advance (length (sink_u64 first [])) c))"
      using for_codec.dec_enc [of ?d "length rest"] cursor_at_advance [OF at] n by (simp add: Cons)
    with u64_codec.dec_enc [OF _ at] n e show ?thesis
      by (auto simp: decode_delta_mapped_def Cons rbind_def delta_loop_inverse)
  qed (simp add: encode_delta_mapped_def decode_delta_mapped_def)
qed

interpretation dod_codec: codec encode_dod_mapped "decode_dod_mapped n"
  "\<lambda>v. length v = n \<and> n \<le> MAX_DECODE_ROWS" for n
proof
  show "encode_dod_mapped v s = s @ encode_dod_mapped v []" for v s
    using write_for_append [of _ "sink_svarint _ (sink_u64 _ s)"] write_for_append [of _ "sink_svarint _ (sink_u64 _ [])"]
      svarint_codec.enc_append [of _ "sink_u64 _ s"] svarint_codec.enc_append [of _ "sink_u64 _ []"]
    by (cases v; cases "tl v") (simp_all add: encode_dod_mapped_def Let_def sink_u64_def)
  show "rd_safe (decode_dod_mapped n)" by (rule rd_safe_delta)
  fix v c ys
  assume n: "length v = n \<and> n \<le> MAX_DECODE_ROWS" and at: "cursor_at c (encode_dod_mapped v [] @ ys)"
  consider "v = []" | first where "v = [first]" | first second others where "v = first # second # others"
    by (cases v; cases "tl v") auto
  then show "decode_dod_mapped n c = Inr (v, cur_advance (length (encode_dod_mapped v [])) c)"
  proof cases
    case 2
    with n at u64_codec.dec_enc [where x = first] show ?thesis
      by (simp add: encode_dod_mapped_def decode_dod_mapped_def rbind_def)
  next
    case (3 first second others)
    let ?d = "second - first"
    let ?a = "sink_u64 first []" and ?b = "sink_svarint ?d []" and ?w = "write_for (dod_seconds ?d second others) []"
    have e: "encode_dod_mapped v [] = ?a @ ?b @ ?w"
      using write_for_append [of "dod_seconds ?d second others" "sink_svarint ?d ?a"] svarint_codec.enc_append [of ?d ?a]
      by (simp add: encode_dod_mapped_def 3 Let_def)
    then have at1: "cursor_at c (?a @ ?b @ ?w @ ys)" using at by simp
    note at2 = cursor_at_advance [OF at1]
    note at3 = cursor_at_advance [OF at2]
    have "read_for (length others) (cur_advance (length ?b) (cur_advance (length ?a) c)) =
        Inr (dod_seconds ?d second others, cur_advance (length ?w) (cur_advance (length ?b) (cur_advance (length ?a) c)))"
      using for_codec.dec_enc [OF _ at3] n 3 by simp
    moreover have "n = Suc (Suc (length others))" using n 3 by simp
    ultimately show ?thesis
      using u64_codec.dec_enc [OF _ at1] svarint_codec.dec_enc [OF _ at2] e [unfolded 3]
      by (simp add: add.assoc decode_dod_mapped_def 3 rbind_def Let_def dod_loop_inverse)
  qed (use n in \<open>simp add: encode_dod_mapped_def decode_dod_mapped_def\<close>)
qed

lemma unmap_map_i64 [simp]: "unmap_i64 (map_i64 v) = v" "length (map_i64 v) = length v"
  by (simp_all add: unmap_i64_def map_i64_def)

interpretation delta_u64_codec: codec encode_delta_u64 "decode_delta_u64 n"
  "\<lambda>v. length v = n \<and> n \<le> MAX_DECODE_ROWS" for n
  unfolding encode_delta_u64_def decode_delta_u64_def by (rule delta_codec.codec_axioms)

interpretation dod_u64_codec: codec encode_dod_u64 "decode_dod_u64 n"
  "\<lambda>v. length v = n \<and> n \<le> MAX_DECODE_ROWS" for n
  unfolding encode_dod_u64_def decode_dod_u64_def by (rule dod_codec.codec_axioms)

interpretation delta_i64_codec: codec encode_delta_i64 "decode_delta_i64 n"
  "\<lambda>v. length v = n \<and> n \<le> MAX_DECODE_ROWS" for n
  unfolding encode_delta_i64_def decode_delta_i64_def by (rule codec_map [OF delta_codec.codec_axioms]) auto

interpretation dod_i64_codec: codec encode_dod_i64 "decode_dod_i64 n"
  "\<lambda>v. length v = n \<and> n \<le> MAX_DECODE_ROWS" for n
  unfolding encode_dod_i64_def decode_dod_i64_def by (rule codec_map [OF dod_codec.codec_axioms]) auto

end
