(* ===== verification/Nulls.thy ===== *)
theory Nulls
  imports Wire Bitmap
begin

text \<open>
  The validity section of a chunk (\<open>encode/nulls.rs\<close>): tag 0 for no bitmap, tag 1 for the
  raw words, tag 2 for alternating run lengths, whichever of the last two is shorter. The
  decoder gives back the bitmap that was written, and any bitmap it returns is well formed
  and has the chunk's row count.
\<close>

section \<open>Model\<close>

definition words_payload :: "bitmap \<Rightarrow> byte list" where
  "words_payload bm = fold sink_u64 (bm_words bm) sink_new"

text \<open>The loop of \<open>compute_runs\<close>, from the current state and run over the bits that are left.\<close>

fun cr_loop :: "bool \<Rightarrow> nat \<Rightarrow> bool list \<Rightarrow> nat list" where
  "cr_loop state run [] = [run]"
| "cr_loop state run (b # bs) =
     (if b = state then cr_loop state (run + 1) bs else run # cr_loop (\<not> state) 1 bs)"

definition compute_runs :: "bitmap \<Rightarrow> nat list" where
  "compute_runs bm = cr_loop True 0 (map (bm_at bm) [0..<bm_len bm])"

definition runs_payload :: "bitmap \<Rightarrow> byte list" where
  "runs_payload bm =
     (let runs = compute_runs bm
      in fold sink_count runs
           (sink_count (length runs) sink_new))"

definition encode_validity :: "bitmap option \<Rightarrow> sink \<Rightarrow> sink" where
  "encode_validity v out =
     (case v of
        None \<Rightarrow> sink_u8 0 out
      | Some bm \<Rightarrow>
          let tag1 = words_payload bm; tag2 = runs_payload bm
          in if length tag1 \<le> length tag2 then sink_raw tag1 (sink_u8 1 out)
             else sink_raw tag2 (sink_u8 2 out))"

fun dr_loop :: "nat \<Rightarrow> nat \<Rightarrow> bitmap \<Rightarrow> bool \<Rightarrow> nat \<Rightarrow> (bitmap \<times> nat) rd" where
  "dr_loop rows 0 bm state pos = rret (bm, pos)"
| "dr_loop rows (Suc n) bm state pos = rbind cur_uvarint (\<lambda>run.
     let pos' = pos + unat run
     in if pos' \<ge> 2 ^ 64 \<or> pos' > rows then rerr (Malformed ''validity runs exceed row count'')
        else dr_loop rows n (fold (\<lambda>b bm. bm_push bm b) (replicate (unat run) state) bm) (\<not> state) pos')"

definition decode_runs :: "nat \<Rightarrow> bitmap rd" where
  "decode_runs rows = rbind cur_uvarint (\<lambda>nruns.
     rbind (dr_loop rows (unat nruns) (bm_new_valid 0) True 0) (\<lambda>(bm, pos).
     if pos \<noteq> rows then rerr (Malformed ''validity runs do not sum to rows'') else rret bm))"

definition read_words :: "string \<Rightarrow> nat \<Rightarrow> bitmap rd" where
  "read_words msg rows = rbind (cur_guard_len (word_of_nat (word_count rows)) 8) (\<lambda>n.
     rbind (read_n cur_u64 n) (\<lambda>words.
     case bm_from_words words rows of None \<Rightarrow> rerr (Malformed msg) | Some bm \<Rightarrow> rret bm))"

definition decode_validity :: "nat \<Rightarrow> bitmap option rd" where
  "decode_validity rows = rbind cur_u8 (\<lambda>tag.
     if tag = 0 then rret None
     else if tag = 1 then rbind (read_words ''bad validity bitmap'' rows) (\<lambda>bm. rret (Some bm))
     else if tag = 2 then rbind (decode_runs rows) (\<lambda>bm. rret (Some bm))
     else rerr (Malformed ''unknown validity tag''))"

section \<open>Alternating runs\<close>

text \<open>The bits a list of alternating run lengths stands for.\<close>

fun alternate :: "bool \<Rightarrow> nat list \<Rightarrow> bool list" where
  "alternate state [] = []"
| "alternate state (r # rs) = replicate r state @ alternate (\<not> state) rs"

lemma alternate_cr_loop: "alternate state (cr_loop state run bs) = replicate run state @ bs"
  by (induction state run bs rule: cr_loop.induct) (auto simp: replicate_append_same [symmetric])

lemma length_cr_loop: "length (cr_loop state run bs) \<le> Suc (length bs)"
  by (induction state run bs rule: cr_loop.induct) auto

lemma sum_list_alternate [simp]: "length (alternate state rs) = sum_list rs"
  by (induction state rs rule: alternate.induct) auto

lemma compute_runs_alternate: "bm_wf bm \<Longrightarrow> alternate True (compute_runs bm) = bm_bits bm"
  using bm_seq.scan_bits [of bm] by (simp add: compute_runs_def alternate_cr_loop)

section \<open>Round trip\<close>

lemma words_payload_eq: "words_payload bm = fold sink_u64 (bm_words bm) []"
  by (simp add: words_payload_def sink_new_def)

lemma length_fold_u64 [simp]: "length (fold sink_u64 ws []) = 8 * length ws"
  unfolding u64_codec.fold_concat by (subst append_Nil, rule length_concat_same) (simp add: sink_u64_def)

lemma word_count_le: "word_count n \<le> n"
proof (cases "n = 0")
  case False
  then have "(n + 63) div 64 \<le> (64 * n) div 64" by (intro div_le_mono) simp
  then show ?thesis by (simp add: word_count_def)
qed (simp add: word_count_def)

lemma read_words_at:
  assumes "cursor_at c (fold sink_u64 (bm_words bm) [] @ ys)" "bm_wf bm" "bm_len bm = rows"
    "rows \<le> MAX_DECODE_ROWS"
  shows "read_words msg rows c = Inr (bm, cur_advance (length (fold sink_u64 (bm_words bm) [])) c)"
proof -
  let ?n = "word_count rows"
  have n: "length (bm_words bm) = ?n" using assms(2,3) by (simp add: bm_wf_def)
  have le: "?n \<le> MAX_DECODE_ROWS" using word_count_le [of rows] assms(4) by simp
  then have "unat (word_of_nat ?n :: u64) = ?n" "?n * 8 < 2 ^ 64" by (simp_all add: MAX_DECODE_ROWS_def)
  moreover have "?n * 8 \<le> cur_remaining c" using cursor_at_remaining [OF assms(1)] n by simp
  ultimately have "cur_guard_len (word_of_nat ?n) 8 c = Inr (?n, c)"
    using le by (simp add: guard_len_ok_iff)
  moreover have "read_n cur_u64 ?n c = Inr (bm_words bm, cur_advance (length (fold sink_u64 (bm_words bm) [])) c)"
    using u64_codec.read_n_enc [OF _ assms(1)] n by simp
  moreover have "bm_from_words (bm_words bm) rows = Some bm"
    using assms(2,3) by (simp add: bm_from_words_iff)
  ultimately show ?thesis by (simp add: read_words_def rbind_def)
qed

lemma dr_loop_at:
  assumes "cursor_at c (fold sink_count runs [] @ ys)" "bm_wf bm"
    "pos + sum_list runs \<le> rows" "rows \<le> MAX_DECODE_ROWS"
  shows "\<exists>bm'. dr_loop rows (length runs) bm state pos c =
      Inr ((bm', pos + sum_list runs), cur_advance (length (fold sink_count runs [])) c)
    \<and> bm_wf bm' \<and> bm_bits bm' = bm_bits bm @ alternate state runs"
  using assms(1-3)
proof (induction runs arbitrary: c bm state pos)
  case (Cons r runs)
  let ?e = "sink_count r []" and ?rest = "fold sink_count runs []"
  have split: "fold sink_count (r # runs) [] = ?e @ ?rest"
    using count_codec.fold_append [of runs ?e] by simp
  then have at: "cursor_at c (?e @ ?rest @ ys)" using Cons.prems(1) by simp
  have r: "r < 2 ^ 64" "pos + r \<le> rows" "pos + r < 2 ^ 64"
    using Cons.prems(3) assms(4) by (simp_all add: MAX_DECODE_ROWS_def)
  note p = bm_seq.push_all [OF Cons.prems(2), of "replicate r state"]
  let ?bm = "fold (\<lambda>b bm. bm_push bm b) (replicate r state) bm"
  have "\<exists>bm'. dr_loop rows (length runs) ?bm (\<not> state) (pos + r) (cur_advance (length ?e) c) =
      Inr ((bm', (pos + r) + sum_list runs), cur_advance (length ?rest) (cur_advance (length ?e) c)) \<and>
      bm_wf bm' \<and> bm_bits bm' = bm_bits ?bm @ alternate (\<not> state) runs"
    using p Cons.prems(3) by (intro Cons.IH cursor_at_advance [OF at]) simp_all
  then show ?case
    using cur_uvarint_count [OF at r(1)] r(2,3) p split
    by (auto simp: rbind_def Let_def add.assoc)
qed simp

lemma runs_payload_eq:
  "runs_payload bm = sink_count (length (compute_runs bm)) [] @ fold sink_count (compute_runs bm) []"
  unfolding runs_payload_def Let_def sink_new_def by (rule count_codec.fold_append)

lemma decode_runs_at:
  assumes "cursor_at c (runs_payload bm @ ys)" "bm_wf bm" "bm_len bm = rows" "rows \<le> MAX_DECODE_ROWS"
  shows "decode_runs rows c = Inr (bm, cur_advance (length (runs_payload bm)) c)"
proof -
  let ?runs = "compute_runs bm"
  let ?e = "sink_count (length ?runs) []" and ?rest = "fold sink_count ?runs []"
  have at: "cursor_at c (?e @ ?rest @ ys)" using assms(1) by (simp add: runs_payload_eq)
  have "length ?runs \<le> Suc rows" using length_cr_loop assms(3) by (simp add: compute_runs_def length_cr_loop [THEN order_trans])
  then have n: "length ?runs < 2 ^ 64" using assms(4) by (simp add: MAX_DECODE_ROWS_def)
  have sum: "sum_list ?runs = rows"
    using compute_runs_alternate [OF assms(2)] assms(3) by (metis length_bm_bits sum_list_alternate)
  have "\<exists>bm'. dr_loop rows (length ?runs) (bm_new_valid 0) True 0 (cur_advance (length ?e) c) =
      Inr ((bm', 0 + sum_list ?runs), cur_advance (length ?rest) (cur_advance (length ?e) c)) \<and>
      bm_wf bm' \<and> bm_bits bm' = bm_bits (bm_new_valid 0) @ alternate True ?runs"
    by (rule dr_loop_at [OF cursor_at_advance [OF at]]) (simp_all add: bm_new_valid_spec sum assms(4))
  then obtain bm' where "dr_loop rows (length ?runs) (bm_new_valid 0) True 0 (cur_advance (length ?e) c) =
      Inr ((bm', rows), cur_advance (length ?rest) (cur_advance (length ?e) c))" "bm_wf bm'" "bm_bits bm' = bm_bits bm"
    using sum by (auto simp: bm_new_valid_spec compute_runs_alternate [OF assms(2)])
  moreover from this(2,3) assms(2) have "bm' = bm" by (intro bm_eqI)
  ultimately show ?thesis
    using cur_uvarint_count [OF at n] by (simp add: decode_runs_def rbind_def runs_payload_eq)
qed

lemma rd_safe_dr_loop [rd_safe_intros]: "rd_safe (dr_loop rows n bm state pos)"
  by (induction n arbitrary: bm state pos) (auto simp: Let_def intro!: rd_safe_intros)

lemma rd_safe_decode_runs [rd_safe_intros]: "rd_safe (decode_runs rows)"
  unfolding decode_runs_def by (intro rd_safe_intros)

lemma rd_safe_read_words [rd_safe_intros]: "rd_safe (read_words msg rows)"
  unfolding read_words_def by (intro rd_safe_intros)

lemma rd_safe_decode_validity [rd_safe_intros]: "rd_safe (decode_validity rows)"
  unfolding decode_validity_def by (intro rd_safe_intros)

interpretation validity_codec: codec encode_validity "decode_validity n"
  "\<lambda>v. validity_ok n v \<and> n \<le> MAX_DECODE_ROWS" for n
proof
  show "encode_validity v s = s @ encode_validity v []" for v s
    by (auto simp: encode_validity_def Let_def sink_u8_def sink_raw_def split: option.splits)
  fix v c ys
  assume v: "validity_ok n v \<and> n \<le> MAX_DECODE_ROWS" and at: "cursor_at c (encode_validity v [] @ ys)"
  show "decode_validity n c = Inr (v, cur_advance (length (encode_validity v [])) c)"
  proof (cases v)
    case None
    with at u8_codec.dec_enc [where x = 0] show ?thesis
      by (simp add: encode_validity_def decode_validity_def rbind_def)
  next
    case (Some bm)
    let ?one = "length (words_payload bm) \<le> length (runs_payload bm)"
    let ?tag = "if ?one then 1 else 2 :: byte" and ?p = "if ?one then words_payload bm else runs_payload bm"
    have e: "encode_validity v [] = sink_u8 ?tag [] @ ?p"
      by (simp add: Some encode_validity_def Let_def sink_raw_def)
    then have at1: "cursor_at c (sink_u8 ?tag [] @ ?p @ ys)" using at by simp
    note at2 = cursor_at_advance [OF at1]
    have bm: "bm_wf bm" "bm_len bm = n" "n \<le> MAX_DECODE_ROWS" using v Some by (simp_all add: validity_ok_def)
    show ?thesis
    proof (cases ?one)
      case True
      with read_words_at [of _ bm ys, OF _ bm] at2 u8_codec.dec_enc [OF _ at1] show ?thesis
        by (simp add: Some [symmetric] e) (simp add: Some decode_validity_def rbind_def words_payload_eq)
    next
      case False
      with decode_runs_at [of _ bm ys, OF _ bm] at2 u8_codec.dec_enc [OF _ at1] show ?thesis
        by (simp add: Some [symmetric] e) (simp add: Some decode_validity_def rbind_def)
    qed
  qed
qed (rule rd_safe_intros)

section \<open>What the decoder returns\<close>

lemma dr_loop_wf:
  assumes "dr_loop rows n bm state pos c = Inr ((bm', pos'), c')" "bm_wf bm" "bm_len bm = pos"
  shows "bm_wf bm' \<and> bm_len bm' = pos'"
  using assms
proof (induction n arbitrary: bm state pos c)
  case (Suc n)
  have p: "bm_wf (fold (\<lambda>b bm. bm_push bm b) (replicate r state) bm)"
    "bm_len (fold (\<lambda>b bm. bm_push bm b) (replicate r state) bm) = pos + r" for r
    using bm_seq.push_all [OF Suc.prems(2)] bm_len_push_all [OF Suc.prems(2), of "replicate r state"] Suc.prems(3)
    by (simp_all del: fold_replicate)
  from Suc.prems(1) show ?case
    by (auto simp: rbind_eq_Inr_iff Let_def rerr_def simp del: fold_replicate split: if_splits dest!: Suc.IH [OF _ p])
qed (simp add: rret_def)

lemma bm_new_valid_len: "bm_len (bm_new_valid n) = n"
  by (simp add: bm_new_valid_def)

lemma read_words_wf: "read_words msg rows c = Inr (bm, c') \<Longrightarrow> bm_wf bm \<and> bm_len bm = rows"
  by (auto simp: read_words_def rbind_eq_Inr_iff rret_def rerr_def bm_from_words_iff split: option.splits)

lemma decode_runs_wf: "decode_runs rows c = Inr (bm, c') \<Longrightarrow> bm_wf bm \<and> bm_len bm = rows"
  by (auto simp: decode_runs_def rbind_eq_Inr_iff rret_def rerr_def bm_new_valid_spec bm_new_valid_len
      split: if_splits dest!: dr_loop_wf)

lemma decode_validity_ok: "decode_validity rows c = Inr (v, c') \<Longrightarrow> validity_ok rows v"
  by (auto simp: decode_validity_def rbind_eq_Inr_iff rret_def rerr_def validity_ok_def
      split: if_splits dest: read_words_wf decode_runs_wf)

section \<open>Property of the validity encoding\<close>

text \<open>
  The null map of a chunk: of the two payloads, words or alternating runs, the shorter
  is written, and for every optional bitmap of at most \<open>MAX_DECODE_ROWS\<close> rows the reader
  gives back the very bitmap, absent or present, and stops right behind it.
\<close>

lemma validity_roundtrip:
  assumes "validity_ok rows v" "rows \<le> MAX_DECODE_ROWS"
  shows "decode_validity rows (cur_new (encode_validity v [] @ ys)) =
    Inr (v, cur_advance (length (encode_validity v [])) (cur_new (encode_validity v [] @ ys)))"
  using validity_codec.dec_fresh [of rows v ys] assms by simp

lemma validity_roundtrip_witness:
  "decode_validity 100 (cur_new (encode_validity (Some (bm_new_null 100)) [] @ [7])) =
    Inr (Some (bm_new_null 100), cur_advance (length (encode_validity (Some (bm_new_null 100)) []))
      (cur_new (encode_validity (Some (bm_new_null 100)) [] @ [7])))"
  by (rule validity_roundtrip)
    (simp_all add: validity_ok_def bm_new_null_spec MAX_DECODE_ROWS_def bm_new_null_def [of 100, THEN arg_cong, of bm_len])

end
