(* ===== verification/Xor.thy ===== *)
theory Xor
  imports Bitpack
begin

text \<open>
  The XOR (Gorilla) encoding of FLOAT64 chunks (\<open>encode/xor.rs\<close>), on the bit patterns that
  \<open>to_bits\<close> and \<open>from_bits\<close> exchange with the floats. The writer's state is the bit writer,
  the previous pattern and the window (leading zeros and length of the meaningful bits);
  the reader keeps the same state over the bit reader.

  Unlike the other encodings it has no length of its own: the reader takes every byte that
  is left, so it is stated beside the \<open>codec\<close> interface and not as an instance of it.
\<close>

section \<open>Model\<close>

type_synonym window = "(nat \<times> nat) option"

definition trailing_zeros :: "u64 \<Rightarrow> nat" where
  "trailing_zeros v = length (takeWhile (\<lambda>i. \<not> bit v i) [0..<64])"

definition window_fits :: "window \<Rightarrow> nat \<Rightarrow> nat \<Rightarrow> bool" where
  "window_fits window leading trailing =
     (case window of
        None \<Rightarrow> False
      | Some (w_lead, w_len) \<Rightarrow> leading \<ge> w_lead \<and> trailing \<ge> 64 - w_lead - w_len)"

definition xor_step :: "u64 \<Rightarrow> bit_writer \<times> u64 \<times> window \<Rightarrow> bit_writer \<times> u64 \<times> window" where
  "xor_step bits = (\<lambda>(bw, prev_bits, window).
     let x = bits XOR prev_bits
     in if x = 0 then (bw_write 0 1 bw, bits, window)
        else
          let leading = min (leading_zeros x) 63;
              trailing = trailing_zeros x;
              len = 64 - leading - trailing
          in if window_fits window leading trailing
             then
               let (w_lead, w_len) = the window;
                   w_trailing = 64 - w_lead - w_len
               in (bw_write (drop_bit w_trailing x AND bmask w_len) w_len (bw_write 0 1 (bw_write 1 1 bw)),
                   bits, window)
             else
               (bw_write (drop_bit trailing x) len
                 (bw_write (word_of_nat len) 7
                   (bw_write (word_of_nat leading) 6
                     (bw_write 1 1 (bw_write 1 1 bw)))),
                bits, Some (leading, len)))"

definition xor_encode :: "f64 list \<Rightarrow> sink \<Rightarrow> sink" where
  "xor_encode v out =
     (case v of
        [] \<Rightarrow> out
      | first # rest \<Rightarrow>
          let (bw, _, _) = fold xor_step rest (bw_write first 64 bw_new, first, None)
          in sink_raw (bw_finish bw) out)"

type_synonym 'a brd = "bit_reader \<Rightarrow> decode_error + 'a \<times> bit_reader"

definition brbind :: "'a brd \<Rightarrow> ('a \<Rightarrow> 'b brd) \<Rightarrow> 'b brd" where
  "brbind m f = (\<lambda>r. case m r of Inl e \<Rightarrow> Inl e | Inr (x, r') \<Rightarrow> f x r')"

definition brret :: "'a \<Rightarrow> 'a brd" where
  "brret x = (\<lambda>r. Inr (x, r))"

text \<open>One iteration's \<open>let xor = ...\<close>: the XOR with the previous pattern, and the window.\<close>

definition xor_next :: "window \<Rightarrow> (u64 \<times> window) brd" where
  "xor_next window =
     brbind (br_read 1) (\<lambda>b1.
     if b1 = 0 then brret (0, window)
     else brbind (br_read 1) (\<lambda>b2.
       if b2 = 0
       then (case window of
               None \<Rightarrow> (\<lambda>r. Inl (Malformed ''xor: no window yet''))
             | Some (w_lead, w_len) \<Rightarrow>
                 brbind (br_read w_len) (\<lambda>field. brret (push_bit (64 - w_lead - w_len) field, window)))
       else brbind (br_read 6) (\<lambda>leading.
            brbind (br_read 7) (\<lambda>len.
            if unat len = 0 \<or> unat len > 64 \<or> unat leading + unat len > 64
            then (\<lambda>r. Inl (Malformed ''xor: bad window''))
            else brbind (br_read (unat len)) (\<lambda>field.
                 brret (push_bit (64 - unat leading - unat len) field, Some (unat leading, unat len)))))))"

fun xor_loop :: "nat \<Rightarrow> u64 \<Rightarrow> window \<Rightarrow> bit_reader \<Rightarrow> decode_error + u64 list" where
  "xor_loop 0 prev_bits window r = Inr []"
| "xor_loop (Suc n) prev_bits window r =
     (case xor_next window r of
        Inl e \<Rightarrow> Inl e
      | Inr ((x, window'), r') \<Rightarrow>
          let bits = x XOR prev_bits
          in (case xor_loop n bits window' r' of Inl e \<Rightarrow> Inl e | Inr vs \<Rightarrow> Inr (bits # vs)))"

definition xor_decode :: "nat \<Rightarrow> f64 list rd" where
  "xor_decode rows =
     (if rows = 0 then rret []
      else rbind (cur_guard_len (word_of_nat rows) 0) (\<lambda>rows.
           rbind (\<lambda>c. cur_raw (cur_remaining c) c) (\<lambda>bytes c.
             case br_read 64 (br_new bytes) of
               Inl e \<Rightarrow> Inl e
             | Inr (first, br) \<Rightarrow>
                 (case xor_loop (rows - 1) first None br of
                    Inl e \<Rightarrow> Inl e
                  | Inr vs \<Rightarrow> Inr (first # vs, c)))))"

section \<open>Meaningful bits\<close>

lemma trailing_zeros_le: "bit v k \<Longrightarrow> trailing_zeros v \<le> k"
proof (rule ccontr)
  assume b: "bit v k" and "\<not> trailing_zeros v \<le> k"
  then have k: "k < length (takeWhile (\<lambda>i. \<not> bit v i) [0..<64])" by (simp add: trailing_zeros_def)
  then have "takeWhile (\<lambda>i. \<not> bit v i) [0..<64] ! k \<in> set (takeWhile (\<lambda>i. \<not> bit v i) [0..<64])"
    by (rule nth_mem)
  then have "\<not> bit v (takeWhile (\<lambda>i. \<not> bit v i) [0..<64] ! k)" by (rule set_takeWhileD [THEN conjunct2])
  then show False using b takeWhile_nth [OF k] bit_u64_less [OF b] by simp
qed

text \<open>The bits of \<open>x\<close> lie within a window that starts at \<open>lead\<close> and has \<open>n\<close> bits.\<close>

definition covers :: "nat \<Rightarrow> nat \<Rightarrow> u64 \<Rightarrow> bool" where
  "covers lead n x \<longleftrightarrow> lead \<le> 63 \<and> 1 \<le> n \<and> lead + n \<le> 64 \<and> (\<forall>k. bit x k \<longrightarrow> 64 - lead - n \<le> k \<and> k < 64 - lead)"

lemma covers_shift:
  assumes "covers lead n x"
  shows "push_bit (64 - lead - n) (take_bit n (drop_bit (64 - lead - n) x)) = x"
proof (rule bit_word_eqI)
  fix k
  assume "k < LENGTH(64)"
  show "bit (push_bit (64 - lead - n) (take_bit n (drop_bit (64 - lead - n) x))) k = bit x k"
    unfolding bit_push_bit_iff bit_take_bit_iff bit_drop_bit_eq comp_def
    using assms bit_u64_less [of x k] by (auto simp: covers_def)
qed

lemma covers_tight:
  assumes "x \<noteq> 0"
  shows "covers (min (leading_zeros x) 63) (64 - min (leading_zeros x) 63 - trailing_zeros x) x"
    and "64 - min (leading_zeros x) 63 - (64 - min (leading_zeros x) 63 - trailing_zeros x) = trailing_zeros x"
proof -
  obtain k where "bit x k" using assms by (metis bit_eq_iff bit_0_eq bot_apply bot_bool_def)
  then have "trailing_zeros x \<le> k" "k < 64 - leading_zeros x"
    using trailing_zeros_le bit_leading_zeros by auto
  then show "covers (min (leading_zeros x) 63) (64 - min (leading_zeros x) 63 - trailing_zeros x) x"
    "64 - min (leading_zeros x) 63 - (64 - min (leading_zeros x) 63 - trailing_zeros x) = trailing_zeros x"
    using trailing_zeros_le bit_leading_zeros by (fastforce simp: covers_def)+
qed

definition window_ok :: "window \<Rightarrow> bool" where
  "window_ok w = (case w of None \<Rightarrow> True | Some (lead, n) \<Rightarrow> lead \<le> 63 \<and> 1 \<le> n \<and> lead + n \<le> 64)"

lemma window_fits_covers:
  assumes "window_fits (Some (wl, wn)) (min (leading_zeros x) 63) (trailing_zeros x)" "window_ok (Some (wl, wn))"
  shows "covers wl wn x"
  using assms trailing_zeros_le bit_leading_zeros
  by (fastforce simp: covers_def window_ok_def window_fits_def)

section \<open>The bits of one value\<close>

definition xor_bits :: "window \<Rightarrow> u64 \<Rightarrow> bool list \<times> window" where
  "xor_bits window x =
     (if x = 0 then ([False], window)
      else
        let leading = min (leading_zeros x) 63;
            trailing = trailing_zeros x;
            len = 64 - leading - trailing
        in if window_fits window leading trailing
           then ([True, False] @ word_bits (snd (the window))
                   (drop_bit (64 - fst (the window) - snd (the window)) x), window)
           else ([True, True] @ word_bits 6 (word_of_nat leading) @ word_bits 7 (word_of_nat len) @
                 word_bits len (drop_bit trailing x), Some (leading, len)))"

lemma word_bits_1: "word_bits (Suc 0) 0 = [False]" "word_bits (Suc 0) 1 = [True]"
  by (simp_all add: word_bits_def)

lemma window_ok_xor_bits: "window_ok w \<Longrightarrow> window_ok (snd (xor_bits w x))"
  using covers_tight(1) [of x] by (auto simp: xor_bits_def Let_def window_ok_def covers_def)

lemma xor_step_bits:
  assumes "bw_wf bw" "window_ok window"
  shows "\<exists>bw'. xor_step bits (bw, prev, window) = (bw', bits, snd (xor_bits window (bits XOR prev))) \<and>
    bw_wf bw' \<and> bw_abs bw' = bw_abs bw @ fst (xor_bits window (bits XOR prev))"
proof -
  let ?x = "bits XOR prev"
  have masked: "word_bits n (v AND bmask n) = word_bits n v" if "n \<le> 64" for n v
    using that by (intro word_bits_cong) (auto simp: bit_simps)
  let ?l = "min (leading_zeros ?x) 63" and ?t = "trailing_zeros ?x"
  consider (zero) "?x = 0" | (fits) wl wn where "?x \<noteq> 0" "window_fits window ?l ?t" "window = Some (wl, wn)" "wn \<le> 64"
    | (new) "?x \<noteq> 0" "\<not> window_fits window ?l ?t"
    using assms(2) by (fastforce simp: window_fits_def window_ok_def split: option.splits)
  then show ?thesis
  proof cases
    case zero
    then show ?thesis using assms(1)
      by (simp add: xor_step_def xor_bits_def bw_write_wf bw_abs_write word_bits_1)
  next
    case fits
    then show ?thesis using assms(1)
      by (simp add: xor_step_def xor_bits_def Let_def bw_write_wf bw_abs_write word_bits_1 masked)
  next
    case new
    then show ?thesis using assms(1)
      by (simp add: xor_step_def xor_bits_def Let_def bw_write_wf bw_abs_write word_bits_1)
  qed
qed

lemma unat_take_bit_of_nat: "n < 2 ^ k \<Longrightarrow> n < 2 ^ 64 \<Longrightarrow> unat (take_bit k (word_of_nat n :: u64)) = n"
  by (simp add: unsigned_take_bit_eq take_bit_nat_eq_self)

lemma br_read_flag:
  assumes "bits_at r (b # rest)"
  shows "\<exists>r'. br_read 1 r = Inr (if b then 1 else 0, r') \<and> bits_at r' rest"
  using br_read_at [of r 1 "if b then 1 else 0" rest] assms
  by (cases b) (simp_all add: word_bits_def)

lemma xor_next_at:
  assumes "bits_at r (fst (xor_bits window x) @ rest)" "window_ok window"
  shows "\<exists>r'. xor_next window r = Inr ((x, snd (xor_bits window x)), r') \<and> bits_at r' rest"
proof -
  let ?l = "min (leading_zeros x) 63" and ?t = "trailing_zeros x"
  let ?n = "64 - ?l - ?t"
  consider (zero) "x = 0" | (fits) "x \<noteq> 0" "window_fits window ?l ?t" | (new) "x \<noteq> 0" "\<not> window_fits window ?l ?t"
    by blast
  then show ?thesis
  proof cases
    case zero
    then show ?thesis using br_read_flag [of r False rest] assms(1)
      by (auto simp: xor_bits_def xor_next_def brbind_def brret_def)
  next
    case fits
    then obtain wl wn where w: "window = Some (wl, wn)" by (auto simp: window_fits_def split: option.splits)
    then have c: "covers wl wn x" using fits(2) assms(2) window_fits_covers by blast
    then have wn: "wn \<le> 64" by (simp add: covers_def)
    have b: "bits_at r (True # False # word_bits wn (drop_bit (64 - wl - wn) x) @ rest)"
      using assms(1) fits w by (simp add: xor_bits_def Let_def)
    obtain r1 where r1: "br_read 1 r = Inr (1, r1)" "bits_at r1 (False # word_bits wn (drop_bit (64 - wl - wn) x) @ rest)"
      using br_read_flag [OF b] by auto
    obtain r2 where r2: "br_read 1 r1 = Inr (0, r2)" "bits_at r2 (word_bits wn (drop_bit (64 - wl - wn) x) @ rest)"
      using br_read_flag [OF r1(2)] by auto
    from br_read_at [OF r2(2) wn] r1(1) r2(1) fits w covers_shift [OF c] show ?thesis
      by (auto simp: xor_next_def brbind_def brret_def xor_bits_def Let_def)
  next
    case new
    note c = covers_tight [OF new(1)]
    have le: "?l < 64" "?n \<le> 64" "1 \<le> ?n" "?l + ?n \<le> 64" using c(1) by (simp_all add: covers_def)
    let ?f = "word_bits ?n (drop_bit ?t x) @ rest"
    have b: "bits_at r (True # True # word_bits 6 (word_of_nat ?l) @ word_bits 7 (word_of_nat ?n) @ ?f)"
      using assms(1) new by (simp add: xor_bits_def Let_def)
    obtain r1 where r1: "br_read 1 r = Inr (1, r1)" "bits_at r1 (True # word_bits 6 (word_of_nat ?l) @ word_bits 7 (word_of_nat ?n) @ ?f)"
      using br_read_flag [OF b] by auto
    obtain r2 where r2: "br_read 1 r1 = Inr (1, r2)" "bits_at r2 (word_bits 6 (word_of_nat ?l) @ word_bits 7 (word_of_nat ?n) @ ?f)"
      using br_read_flag [OF r1(2)] by auto
    obtain r3 where r3: "br_read 6 r2 = Inr (take_bit 6 (word_of_nat ?l), r3)" "bits_at r3 (word_bits 7 (word_of_nat ?n) @ ?f)"
      using br_read_at [OF r2(2)] by auto
    obtain r4 where r4: "br_read 7 r3 = Inr (take_bit 7 (word_of_nat ?n), r4)" "bits_at r4 ?f"
      using br_read_at [OF r3(2)] by auto
    obtain r5 where r5: "br_read ?n r4 = Inr (take_bit ?n (drop_bit ?t x), r5)" "bits_at r5 rest"
      using br_read_at [OF r4(2) le(2)] by auto
    have u: "unat (take_bit 6 (word_of_nat ?l :: u64)) = ?l" "unat (take_bit 7 (word_of_nat ?n :: u64)) = ?n"
      using le by (intro unat_take_bit_of_nat; simp)+
    have "push_bit (64 - ?l - ?n) (take_bit ?n (drop_bit ?t x)) = x"
      using covers_shift [OF c(1)] unfolding c(2) .
    with r1(1) r2(1) r3(1) r4(1) r5 u le new show ?thesis
      by (simp add: xor_next_def brbind_def brret_def xor_bits_def Let_def) linarith
  qed
qed

section \<open>Round trip\<close>

fun xor_stream :: "u64 \<Rightarrow> window \<Rightarrow> u64 list \<Rightarrow> bool list" where
  "xor_stream prev window [] = []"
| "xor_stream prev window (b # bs) =
     fst (xor_bits window (b XOR prev)) @ xor_stream b (snd (xor_bits window (b XOR prev))) bs"

lemma fold_xor_step:
  assumes "bw_wf bw" "window_ok window"
  shows "\<exists>bw' prev' window'. fold xor_step vs (bw, prev, window) = (bw', prev', window') \<and>
    bw_wf bw' \<and> bw_abs bw' = bw_abs bw @ xor_stream prev window vs"
  using assms
proof (induction vs arbitrary: bw prev window)
  case (Cons b vs)
  obtain bw1 where s: "xor_step b (bw, prev, window) = (bw1, b, snd (xor_bits window (b XOR prev)))"
    and w: "bw_wf bw1" and a: "bw_abs bw1 = bw_abs bw @ fst (xor_bits window (b XOR prev))"
    using xor_step_bits [OF Cons.prems] by blast
  obtain bw' prev' window' where
    "fold xor_step vs (bw1, b, snd (xor_bits window (b XOR prev))) = (bw', prev', window')"
    "bw_wf bw'" "bw_abs bw' = bw_abs bw1 @ xor_stream b (snd (xor_bits window (b XOR prev))) vs"
    using Cons.IH [OF w window_ok_xor_bits [OF Cons.prems(2)]] by blast
  then show ?case using s a by auto
qed simp

lemma xor_loop_at:
  assumes "bits_at r (xor_stream prev window vs @ rest)" "window_ok window"
  shows "xor_loop (length vs) prev window r = Inr vs"
  using assms
proof (induction vs arbitrary: r prev window)
  case (Cons b vs)
  let ?x = "b XOR prev"
  have at: "bits_at r (fst (xor_bits window ?x) @ xor_stream b (snd (xor_bits window ?x)) vs @ rest)"
    using Cons.prems(1) by simp
  obtain r' where n: "xor_next window r = Inr ((?x, snd (xor_bits window ?x)), r')"
    and at': "bits_at r' (xor_stream b (snd (xor_bits window ?x)) vs @ rest)"
    using xor_next_at [OF at Cons.prems(2)] by blast
  have "?x XOR prev = b" by (simp add: xor.assoc)
  with n Cons.IH [OF at' window_ok_xor_bits [OF Cons.prems(2)]] show ?case by (simp add: Let_def)
qed simp

lemma br_abs_append: "br_abs (br_new (bs @ ys)) = br_abs (br_new bs) @ br_abs (br_new ys)"
proof (rule nth_equalityI)
  fix i
  assume "i < length (br_abs (br_new (bs @ ys)))"
  then have i: "i < 8 * length bs + 8 * length ys" by (simp add: br_abs_def br_new_def)
  have "(8 * length bs + k) div 8 = length bs + k div 8" "(8 * length bs + k) mod 8 = k mod 8" for k
    by simp_all
  note this [of "i - 8 * length bs"]
  then show "br_abs (br_new (bs @ ys)) ! i = (br_abs (br_new bs) @ br_abs (br_new ys)) ! i"
    using i by (cases "i < 8 * length bs") (auto simp: br_abs_def br_new_def nth_append buf_bit_def)
qed (simp add: br_abs_def br_new_def)

text \<open>
  The decoder returns the values that were written. It takes every byte that is left: what
  follows the stream is read over and ignored.
\<close>

lemma xor_decode_enc:
  assumes "length v = rows" "rows \<le> MAX_DECODE_ROWS" "0 < rows" "cursor_at c (xor_encode v [] @ ys)"
  shows "xor_decode rows c = Inr (v, cur_advance (length (xor_encode v [] @ ys)) c)"
proof -
  obtain first rest where v: "v = first # rest" using assms by (cases v) auto
  let ?w0 = "bw_write first 64 bw_new"
  have w0: "bw_wf ?w0" "bw_abs ?w0 = word_bits 64 first" by (simp_all add: bw_write_wf bw_abs_write)
  obtain bw p w where f: "fold xor_step rest (?w0, first, None) = (bw, p, w)" and wf: "bw_wf bw"
    and abs: "bw_abs bw = word_bits 64 first @ xor_stream first None rest"
    using fold_xor_step [OF w0(1), of None rest first] w0(2) by (auto simp: window_ok_def)
  have e: "xor_encode v [] = bw_finish bw" by (simp add: xor_encode_def v f sink_raw_def)
  obtain pad where "bits_at (br_new (bw_finish bw)) (bw_abs bw @ pad)" using bits_at_new_finish [OF wf] by blast
  then have "bits_at (br_new (bw_finish bw @ ys)) (word_bits 64 first @ xor_stream first None rest @ pad @ br_abs (br_new ys))"
    by (simp add: bits_at_def br_abs_append abs) (simp add: br_wf_def br_new_def)
  then obtain br where r: "br_read 64 (br_new (bw_finish bw @ ys)) = Inr (first, br)"
    and "bits_at br (xor_stream first None rest @ pad @ br_abs (br_new ys))"
    using br_read_at [of _ 64 first] by (auto simp: take_bit_word_eq_self)
  then have l: "xor_loop (length rest) first None br = Inr rest"
    by (intro xor_loop_at) (simp_all add: window_ok_def)
  have g: "cur_guard_len (word_of_nat rows) 0 c = Inr (rows, c)"
    using assms(2) by (simp add: guard_len_ok_iff MAX_DECODE_ROWS_def)
  have t: "cur_take (cur_remaining c) c = Inr (bw_finish bw @ ys, cur_advance (length (bw_finish bw @ ys)) c)"
    using cur_take_at [of c "bw_finish bw @ ys" "[]" "cur_remaining c"] assms(4) cursor_at_remaining [OF assms(4)]
    by (simp add: e)
  have "rows = Suc (length rest)" using assms(1) v by simp
  then show ?thesis
    using g t r l e [unfolded v] by (simp add: xor_decode_def rbind_def cur_raw_def v)
qed

lemma xor_encode_append: "xor_encode v s = s @ xor_encode v []"
  by (simp add: xor_encode_def sink_raw_def split: list.splits prod.splits)

lemma rd_safe_remaining [rd_safe_intros]: "rd_safe (\<lambda>c. cur_raw (cur_remaining c) c)"
  by (rule rd_safeI) (auto dest: rd_safeD [OF rd_safe_raw])

lemma rd_safe_xor_decode [rd_safe_intros]: "rd_safe (xor_decode rows)"
  unfolding xor_decode_def
  by (intro rd_safe_intros) (rule rd_safeI, auto split: sum.splits prod.splits)

section \<open>Property of the XOR encoding\<close>

text \<open>
  C19. XOR (Gorilla) over FLOAT64: any non-empty run of doubles of at most \<open>MAX_DECODE_ROWS\<close>
  rows, NaN payloads and signed zeros included, comes back bit for bit. The decoder takes
  every byte that is left, so bytes behind the encoding are swallowed rather than refused.
\<close>

theorem xor_roundtrip:
  assumes "v \<noteq> []" "length v \<le> MAX_DECODE_ROWS"
  shows "xor_decode (length v) (cur_new (xor_encode v [] @ ys)) =
    Inr (v, cur_advance (length (xor_encode v [] @ ys)) (cur_new (xor_encode v [] @ ys)))"
  by (rule xor_decode_enc) (use assms in simp_all)

theorem xor_roundtrip_witness:
  "xor_decode 3 (cur_new (xor_encode [0x7ff8000000000001, 0, 0x8000000000000000] [] @ [1, 2])) =
    Inr ([0x7ff8000000000001, 0, 0x8000000000000000],
      cur_advance (length (xor_encode [0x7ff8000000000001, 0, 0x8000000000000000] [] @ [1, 2]))
        (cur_new (xor_encode [0x7ff8000000000001, 0, 0x8000000000000000] [] @ [1, 2])))"
  using xor_roundtrip [of "[0x7ff8000000000001, 0, 0x8000000000000000]" "[1, 2]"] by (simp add: MAX_DECODE_ROWS_def numeral_3_eq_3)

end
