(* ===== verification/Dict.thy ===== *)
theory Dict
  imports Bitpack Column
begin

text \<open>
  The DICT encoding of STRING and BYTES chunks (\<open>encode/dict.rs\<close>): distinct slices of the
  valid rows in first-occurrence order, then frame-of-reference codes. A null row's code is
  zero and decodes to an empty range, so the round trip asks that null rows be empty, which
  every column the builder makes satisfies.
\<close>

section \<open>Model\<close>

definition dict_is_valid :: "bitmap option \<Rightarrow> nat \<Rightarrow> bool" where
  "dict_is_valid validity i = (case validity of None \<Rightarrow> True | Some v \<Rightarrow> bm_at v i)"

definition row_slice :: "u32 list \<Rightarrow> byte list \<Rightarrow> nat \<Rightarrow> byte list" where
  "row_slice offsets data i =
     take (unat (offsets ! (i + 1)) - unat (offsets ! i)) (drop (unat (offsets ! i)) data)"

type_synonym dict_state = "(byte list \<rightharpoonup> nat) \<times> byte list list \<times> nat list"

definition dict_step :: "u32 list \<Rightarrow> byte list \<Rightarrow> bitmap option \<Rightarrow> nat \<Rightarrow> dict_state \<Rightarrow> dict_state" where
  "dict_step offsets data validity i = (\<lambda>(lookup, entries, codes).
     if \<not> dict_is_valid validity i then (lookup, entries, codes @ [0])
     else let slice = row_slice offsets data i
          in case lookup slice of
               Some code \<Rightarrow> (lookup, entries, codes @ [code])
             | None \<Rightarrow> (lookup(slice \<mapsto> length entries), entries @ [slice], codes @ [length entries]))"

definition dict_encode :: "u32 list \<Rightarrow> byte list \<Rightarrow> bitmap option \<Rightarrow> sink \<Rightarrow> sink" where
  "dict_encode offsets data validity out =
     (let rows = length offsets - 1;
          (_, entries, codes) = fold (dict_step offsets data validity) [0..<rows] (Map.empty, [], []);
          out1 = sink_uvarint (word_of_nat (length entries)) out;
          out2 = fold sink_bytes entries out1
      in write_for (map word_of_nat codes) out2)"

text \<open>The sizing loop, \<open>total\<close> saturating at \<open>usize::MAX\<close>, and the loop that copies.\<close>

fun dict_total :: "byte list list \<Rightarrow> bitmap option \<Rightarrow> nat \<Rightarrow> u64 list \<Rightarrow> nat \<Rightarrow> decode_error + nat" where
  "dict_total entries validity i [] tot = Inr tot"
| "dict_total entries validity i (code # codes) tot =
     (if dict_is_valid validity i
      then (if unat code < length entries
            then dict_total entries validity (i + 1) codes
                   (min (tot + length (entries ! unat code)) (2 ^ 64 - 1))
            else Inl (Malformed ''dict: code out of range''))
      else dict_total entries validity (i + 1) codes tot)"

fun dict_fill :: "byte list list \<Rightarrow> bitmap option \<Rightarrow> nat \<Rightarrow> u64 list \<Rightarrow> u32 list \<Rightarrow> byte list \<Rightarrow>
    decode_error + u32 list \<times> byte list" where
  "dict_fill entries validity i [] offsets data = Inr (offsets, data)"
| "dict_fill entries validity i (code # codes) offsets data =
     (let data' = (if dict_is_valid validity i then data @ entries ! unat code else data)
      in if length data' \<ge> 2 ^ 32 then Inl (Malformed ''dict: too much data'')
         else dict_fill entries validity (i + 1) codes (offsets @ [word_of_nat (length data')]) data')"

definition lift_result :: "decode_error + 'a \<Rightarrow> 'a rd" where
  "lift_result r = (\<lambda>c. case r of Inl e \<Rightarrow> Inl e | Inr x \<Rightarrow> Inr (x, c))"

definition dict_decode :: "nat \<Rightarrow> bitmap option \<Rightarrow> (u32 list \<times> byte list) rd" where
  "dict_decode rows validity =
     rbind cur_uvarint (\<lambda>ndict.
     if unat ndict > rows then rerr (Malformed ''dict: ndict exceeds rows'')
     else rbind (cur_guard_len ndict 1) (\<lambda>ndict.
       let valid_count = (case validity of None \<Rightarrow> rows | Some v \<Rightarrow> bm_count_valid v)
       in if valid_count = 0 \<and> ndict > 0 then rerr (Malformed ''dict: entries with no valid rows'')
          else rbind (read_n cur_bytes ndict) (\<lambda>entries.
               rbind (read_for rows) (\<lambda>codes.
               rbind (lift_result (dict_total entries validity 0 codes 0)) (\<lambda>tot.
               if tot > MAX_DECODE_BYTES then rerr (Malformed ''dict: decoded data exceeds MAX_DECODE_BYTES'')
               else lift_result (dict_fill entries validity 0 codes [0] []))))))"

section \<open>The dictionary\<close>

text \<open>
  The encoder's state after the rows before \<open>n\<close>: the lookup map is the inverse of the
  entries, every valid row's code names its slice, and no entry is without a valid row.
\<close>

definition dict_inv :: "u32 list \<Rightarrow> byte list \<Rightarrow> bitmap option \<Rightarrow> nat \<Rightarrow> dict_state \<Rightarrow> bool" where
  "dict_inv offsets data validity n = (\<lambda>(lookup, entries, codes).
     length codes = n \<and> length entries \<le> n \<and>
     (\<forall>s k. lookup s = Some k \<longrightarrow> k < length entries \<and> entries ! k = s) \<and>
     (\<forall>i < n. dict_is_valid validity i \<longrightarrow> codes ! i < length entries \<and> entries ! (codes ! i) = row_slice offsets data i) \<and>
     (\<forall>i < n. codes ! i \<le> n) \<and>
     (\<forall>e \<in> set entries. \<exists>i < n. dict_is_valid validity i \<and> e = row_slice offsets data i))"

lemma dict_inv_step:
  assumes "dict_inv offsets data validity n st"
  shows "dict_inv offsets data validity (Suc n) (dict_step offsets data validity n st)"
proof -
  obtain lookup entries codes where st: "st = (lookup, entries, codes)" by (cases st)
  let ?s = "row_slice offsets data n"
  have I: "length codes = n" "length entries \<le> n"
    "\<And>s k. lookup s = Some k \<Longrightarrow> k < length entries \<and> entries ! k = s"
    "\<And>i. i < n \<Longrightarrow> dict_is_valid validity i \<Longrightarrow> codes ! i < length entries \<and> entries ! (codes ! i) = row_slice offsets data i"
    "\<And>i. i < n \<Longrightarrow> codes ! i \<le> n"
    "\<And>e. e \<in> set entries \<Longrightarrow> \<exists>i < Suc n. dict_is_valid validity i \<and> e = row_slice offsets data i"
    using assms unfolding dict_inv_def st prod.case by (blast, blast, blast, blast, blast, meson less_SucI)
  have suc: "\<And>i. i < n \<Longrightarrow> codes ! i \<le> Suc n" using I(5) le_SucI by blast
  note facts = I(1-4,6) suc
  show ?thesis
  proof (cases "dict_is_valid validity n")
    case False
    then show ?thesis using facts
      by (simp add: dict_inv_def st dict_step_def nth_append All_less_Suc)
  next
    case True
    show ?thesis
    proof (cases "lookup ?s")
      case None
      have new: "\<exists>i < Suc n. dict_is_valid validity i \<and> ?s = row_slice offsets data i" using True by blast
      show ?thesis using None facts True new
        by (auto simp: dict_inv_def st dict_step_def Let_def nth_append All_less_Suc less_SucI)
    next
      case (Some k)
      then show ?thesis using facts True
        by (simp add: dict_inv_def st dict_step_def Let_def nth_append All_less_Suc)
          (use I(2) I(3) [OF Some] in linarith)
    qed
  qed
qed

lemma dict_inv_fold: "dict_inv offsets data validity n (fold (dict_step offsets data validity) [0..<n] (Map.empty, [], []))"
  by (induction n) (simp_all add: dict_inv_step, simp add: dict_inv_def)

section \<open>Round trip\<close>

definition null_rows_empty :: "u32 list \<Rightarrow> bitmap option \<Rightarrow> bool" where
  "null_rows_empty offsets validity \<longleftrightarrow>
     (\<forall>i < length offsets - 1. \<not> dict_is_valid validity i \<longrightarrow> offsets ! i = offsets ! (i + 1))"

lemma row_slice_extend:
  assumes "offsets_wf offsets (length data)" "i + 1 < length offsets"
  shows "take (unat (offsets ! i)) data @ row_slice offsets data i = take (unat (offsets ! (i + 1))) data"
    and "length (row_slice offsets data i) = unat (offsets ! (i + 1)) - unat (offsets ! i)"
proof -
  note m = offsets_wf_mono [OF assms(1) _ assms(2), of i]
  have "take (unat (offsets ! i)) data @ row_slice offsets data i =
      take (unat (offsets ! i) + (unat (offsets ! (i + 1)) - unat (offsets ! i))) data"
    unfolding row_slice_def by (rule take_add [symmetric])
  then show "take (unat (offsets ! i)) data @ row_slice offsets data i = take (unat (offsets ! (i + 1))) data"
    using m by simp
  show "length (row_slice offsets data i) = unat (offsets ! (i + 1)) - unat (offsets ! i)"
    using m by (simp add: row_slice_def)
qed

lemma word_of_nat_u32: "unat (w :: u32) = n \<Longrightarrow> word_of_nat n = w"
  by auto

lemma dict_fill_at:
  assumes wf: "offsets_wf offsets (length data)" and "length data < 2 ^ 32" and "null_rows_empty offsets validity"
    and codes: "length codes = length offsets - 1" "length codes < 2 ^ 64"
    and c: "\<And>i. i < length codes \<Longrightarrow> dict_is_valid validity i \<Longrightarrow>
      codes ! i < length entries \<and> entries ! (codes ! i) = row_slice offsets data i" "\<And>i. i < length codes \<Longrightarrow> codes ! i < 2 ^ 64"
    and "i \<le> length codes"
  shows "dict_fill entries validity i (map word_of_nat (drop i codes)) (take (Suc i) offsets) (take (unat (offsets ! i)) data)
    = Inr (offsets, data)"
  using \<open>i \<le> length codes\<close>
proof (induction "length codes - i" arbitrary: i)
  case 0
  have "offsets \<noteq> []" using wf by (simp add: offsets_wf_def)
  moreover have "i = length offsets - 1" using 0 codes(1) by simp
  ultimately show ?case using wf codes(1) by (simp add: offsets_wf_def last_conv_nth)
next
  case (Suc k)
  then have i: "i < length codes" "i + 1 < length offsets" using codes(1) by auto
  let ?d = "if dict_is_valid validity i then take (unat (offsets ! i)) data @ entries ! unat (word_of_nat (codes ! i) :: u64)
    else take (unat (offsets ! i)) data"
  have d: "?d = take (unat (offsets ! (i + 1))) data"
    using row_slice_extend(1) [OF wf i(2)] c [OF i(1)] assms(3) i by (auto simp: null_rows_empty_def)
  have len: "length (take (unat (offsets ! (i + 1))) data) = unat (offsets ! (i + 1))"
    using offsets_wf_mono(2) [OF wf, of "i + 1" "i + 1"] i(2) by simp
  have "drop i codes = codes ! i # drop (Suc i) codes" using i(1) by (simp add: Cons_nth_drop_Suc)
  then have "dict_fill entries validity i (map word_of_nat (drop i codes)) (take (Suc i) offsets) (take (unat (offsets ! i)) data)
      = (if length ?d \<ge> 2 ^ 32 then Inl (Malformed ''dict: too much data'')
         else dict_fill entries validity (i + 1) (map word_of_nat (drop (i + 1) codes))
                (take (Suc i) offsets @ [word_of_nat (length ?d)]) ?d)"
    by (simp add: Let_def)
  also have "\<dots> = dict_fill entries validity (i + 1) (map word_of_nat (drop (i + 1) codes))
      (take (Suc (i + 1)) offsets) (take (unat (offsets ! (i + 1))) data)"
    unfolding d len using i(2) offsets_wf_mono(2) [OF wf, of "i + 1" "i + 1"] assms(2)
    by (simp add: take_Suc_conv_app_nth)
  also have "\<dots> = Inr (offsets, data)" using Suc.hyps i(1) by (intro Suc.hyps(1)) simp_all
  finally show ?case .
qed

lemma dict_total_at:
  assumes wf: "offsets_wf offsets (length data)" and "length data < 2 ^ 32" and "null_rows_empty offsets validity"
    and codes: "length codes = length offsets - 1"
    and c: "\<And>i. i < length codes \<Longrightarrow> dict_is_valid validity i \<Longrightarrow>
      codes ! i < length entries \<and> entries ! (codes ! i) = row_slice offsets data i" "\<And>i. i < length codes \<Longrightarrow> codes ! i < 2 ^ 64"
    and "i \<le> length codes"
  shows "dict_total entries validity i (map word_of_nat (drop i codes)) (unat (offsets ! i)) = Inr (length data)"
  using \<open>i \<le> length codes\<close>
proof (induction "length codes - i" arbitrary: i)
  case 0
  have "offsets \<noteq> []" using wf by (simp add: offsets_wf_def)
  moreover have "i = length offsets - 1" using 0 codes(1) by simp
  ultimately show ?case using wf codes(1) by (simp add: offsets_wf_def last_conv_nth)
next
  case (Suc k)
  then have i: "i < length codes" "i + 1 < length offsets" using codes(1) by auto
  note m = offsets_wf_mono [OF wf _ i(2), of i]
  have IH: "dict_total entries validity (i + 1) (map word_of_nat (drop (i + 1) codes)) (unat (offsets ! (i + 1))) = Inr (length data)"
    using Suc.hyps i(1) by (intro Suc.hyps(1)) simp_all
  have "drop i codes = codes ! i # drop (Suc i) codes" using i(1) by (simp add: Cons_nth_drop_Suc)
  moreover have "min (unat (offsets ! (i + 1))) (2 ^ 64 - 1) = unat (offsets ! (i + 1))"
    using m(2) assms(2) by simp
  ultimately show ?case
    using IH c [OF i(1)] row_slice_extend(2) [OF wf i(2)] m assms(3) i
    by (auto simp: null_rows_empty_def)
qed

lemma fold_sink_bytes_length: "length entries \<le> length (fold sink_bytes entries [])"
proof (induction entries)
  case (Cons e es)
  have "1 \<le> length (sink_bytes e [])"
    using length_sink_uvarint_pos [of "word_of_nat (length e)"] by (simp add: sink_bytes_def sink_raw_def Suc_le_eq)
  moreover have "fold sink_bytes (e # es) [] = sink_bytes e [] @ fold sink_bytes es []"
    using bytes_codec.fold_append [of es "sink_bytes e []"] by simp
  ultimately show ?case using Cons by simp
qed simp

lemma dict_encode_append: "dict_encode offsets data validity s = s @ dict_encode offsets data validity []"
proof -
  obtain l entries codes where f: "fold (dict_step offsets data validity) [0..<length offsets - 1] (Map.empty, [], []) = (l, entries, codes)"
    by (rule prod_cases3)
  have "fold sink_bytes entries (sink_count (length entries) s) = s @ fold sink_bytes entries (sink_count (length entries) [])"
    using bytes_codec.fold_append [of entries "sink_count (length entries) s"] bytes_codec.fold_append [of entries "sink_count (length entries) []"]
      count_codec.enc_append [of "length entries" s] by simp
  then show ?thesis
    using write_for_append [of "map word_of_nat codes" "fold sink_bytes entries (sink_count (length entries) s)"]
      write_for_append [of "map word_of_nat codes" "fold sink_bytes entries (sink_count (length entries) [])"]
    by (simp add: dict_encode_def f [unfolded One_nat_def])
qed

lemma valid_row_counts:
  assumes "validity_ok rows (Some v)" "i < rows" "dict_is_valid (Some v) i"
  shows "bm_count_valid v \<noteq> 0"
proof -
  have v: "bm_wf v" "bm_len v = rows" using assms(1) by (simp_all add: validity_ok_def)
  then have "bm_bits v ! i" using assms(2,3) by (simp add: dict_is_valid_def bm_at_eq_bits)
  then have "True \<in> set (filter id (bm_bits v))" using v assms(2) nth_mem [of i "bm_bits v"] by auto
  then show ?thesis using bm_count_valid_spec [OF v(1)] by (metis length_0_conv list.set(1) empty_iff)
qed

lemma dict_decode_enc:
  assumes wf: "offsets_wf offsets (length data)" and rows: "length offsets - 1 = rows" "rows \<le> MAX_DECODE_ROWS"
    and size: "length data \<le> MAX_DECODE_BYTES" and "null_rows_empty offsets validity" and v: "validity_ok rows validity"
    and at: "cursor_at c (dict_encode offsets data validity [] @ ys)"
  shows "dict_decode rows validity c = Inr ((offsets, data), cur_advance (length (dict_encode offsets data validity [])) c)"
proof -
  obtain l entries codes where f: "fold (dict_step offsets data validity) [0..<rows] (Map.empty, [], []) = (l, entries, codes)"
    by (rule prod_cases3)
  from dict_inv_fold [of offsets data validity rows] have I: "length codes = rows" "length entries \<le> rows"
    "\<And>i. i < rows \<Longrightarrow> dict_is_valid validity i \<Longrightarrow> codes ! i < length entries \<and> entries ! (codes ! i) = row_slice offsets data i"
    "\<And>i. i < rows \<Longrightarrow> codes ! i \<le> rows"
    "\<And>e. e \<in> set entries \<Longrightarrow> \<exists>i < rows. dict_is_valid validity i \<and> e = row_slice offsets data i"
    by (auto simp: f dict_inv_def)
  have r64: "rows < 2 ^ 64" using rows(2) by (simp add: MAX_DECODE_ROWS_def)
  have d32: "length data < 2 ^ 32" using size by (simp add: MAX_DECODE_BYTES_def)
  let ?n = "sink_count (length entries) []" and ?e = "fold sink_bytes entries []" and ?w = "write_for (map word_of_nat codes) []"
  have enc: "dict_encode offsets data validity [] = ?n @ ?e @ ?w"
    using write_for_append [of "map word_of_nat codes" "fold sink_bytes entries ?n"] bytes_codec.fold_append [of entries ?n]
    by (simp add: dict_encode_def rows(1) [unfolded One_nat_def] f)
  with at have at1: "cursor_at c (?n @ ?e @ ?w @ ys)" by simp
  note at2 = cursor_at_advance [OF at1]
  note at3 = cursor_at_advance [OF at2]
  have n: "cur_uvarint c = Inr (word_of_nat (length entries), cur_advance (length ?n) c)"
    "unat (word_of_nat (length entries) :: u64) = length entries"
    using cur_uvarint_count [OF at1] I(2) r64 by simp_all
  have "length entries \<le> cur_remaining (cur_advance (length ?n) c)"
    using fold_sink_bytes_length [of entries] by (simp add: cursor_at_remaining [OF at2])
  then have g: "cur_guard_len (word_of_nat (length entries)) 1 (cur_advance (length ?n) c) = Inr (length entries, cur_advance (length ?n) c)"
    using n(2) I(2) rows(2) r64 by (simp add: guard_len_ok_iff)
  have ne: "\<not> ((case validity of None \<Rightarrow> rows | Some v \<Rightarrow> bm_count_valid v) = 0 \<and> length entries > 0)"
    using I(2,5) valid_row_counts v by (cases validity) (fastforce simp: in_set_conv_nth)+
  have "\<forall>e \<in> set entries. length e < 2 ^ 64"
    using I(5) d32 by (fastforce simp: row_slice_def)
  then have re: "read_n cur_bytes (length entries) (cur_advance (length ?n) c) = Inr (entries, cur_advance (length ?e) (cur_advance (length ?n) c))"
    using bytes_codec.read_n_enc [OF _ at2] by simp
  have rf: "read_for rows (cur_advance (length ?e) (cur_advance (length ?n) c)) =
      Inr (map word_of_nat codes, cur_advance (length ?w) (cur_advance (length ?e) (cur_advance (length ?n) c)))"
    using for_codec.dec_enc [OF _ at3] I(1) rows(2) by simp
  have c64: "codes ! i < 2 ^ 64" if "i < length codes" for i using I(1) I(4) [of i] r64 that by simp
  have o0: "offsets ! 0 = 0" "take (Suc 0) offsets = [0]" using wf by (cases offsets; simp add: offsets_wf_def)+
  have t: "dict_total entries validity 0 (map word_of_nat codes) 0 = Inr (length data)"
    using dict_total_at [OF wf d32 assms(5), of codes entries 0] I(1,3) c64 rows(1) o0 by simp
  have fl: "dict_fill entries validity 0 (map word_of_nat codes) [0] [] = Inr (offsets, data)"
    using dict_fill_at [OF wf d32 assms(5), of codes entries 0] I(1,3) c64 rows(1) r64 o0 by simp
  show ?thesis
    unfolding dict_decode_def Let_def using n g ne re rf t fl size I(2)
    by (simp add: rbind_def lift_result_def enc add.assoc)
qed

lemma rd_safe_lift_result [rd_safe_intros]: "rd_safe (lift_result r)"
  unfolding lift_result_def by (rule rd_safe_lift)

lemma rd_safe_dict_decode [rd_safe_intros]: "rd_safe (dict_decode rows validity)"
  unfolding dict_decode_def Let_def by (intro rd_safe_intros)

section \<open>Property of the dictionary encoding\<close>

text \<open>
  DICT over STRING and BYTES: distinct rows become entries in order of first occurrence
  and rows become bit-packed codes; the reader rebuilds the very offsets and data, null rows
  being empty, as long as rows and data are within the decode limits.
\<close>

lemma dict_roundtrip:
  assumes "offsets_wf offsets (length data)" "length offsets - 1 = rows" "rows \<le> MAX_DECODE_ROWS"
    "length data \<le> MAX_DECODE_BYTES" "null_rows_empty offsets validity" "validity_ok rows validity"
  shows "dict_decode rows validity (cur_new (dict_encode offsets data validity [] @ ys)) =
    Inr ((offsets, data), cur_advance (length (dict_encode offsets data validity []))
      (cur_new (dict_encode offsets data validity [] @ ys)))"
  by (rule dict_decode_enc [where ys = ys]) (use assms in simp_all)

lemma dict_roundtrip_witness:
  "dict_decode 3 None (cur_new (dict_encode [0, 1, 2, 4] [97, 97, 98, 99] None [] @ [1])) =
    Inr (([0, 1, 2, 4], [97, 97, 98, 99]), cur_advance (length (dict_encode [0, 1, 2, 4] [97, 97, 98, 99] None []))
      (cur_new (dict_encode [0, 1, 2, 4] [97, 97, 98, 99] None [] @ [1])))"
  by (rule dict_roundtrip)
    (simp_all add: offsets_wf_def MAX_DECODE_ROWS_def MAX_DECODE_BYTES_def null_rows_empty_def validity_ok_def dict_is_valid_def)

end
