(* ===== verification/Encode.thy ===== *)
theory Encode
  imports Int_Encodings Nulls Xor Dict Column_Ops
begin

text \<open>
  Chunk encodings as a whole: the encoding table and the dispatch of \<open>encode/mod.rs\<close>, PLAIN
  (\<open>encode/plain.rs\<close>) and the selection by sampling (\<open>encode/select.rs\<close>). A LIST chunk holds
  its child as a chunk of its own. Lists do not nest (\<open>ListType::new\<close>), so the encoder's
  recursion is unrolled: \<open>encode_child\<close> is the level below, and \<open>None\<close> stands for a panic
  (an \<open>unreachable!\<close> arm, a failed \<open>assert!\<close> or \<open>expect\<close>). The decoder recurses on the type.
\<close>

section \<open>The encoding table\<close>

datatype encoding = EPlain | EDict | ERle | EFor | EDelta | EDeltaOfDelta | EXor

fun encoding_id :: "encoding \<Rightarrow> u64" where
  "encoding_id EPlain = 0"
| "encoding_id EDict = 1"
| "encoding_id ERle = 2"
| "encoding_id EFor = 3"
| "encoding_id EDelta = 4"
| "encoding_id EDeltaOfDelta = 5"
| "encoding_id EXor = 6"

definition encoding_from_id :: "u64 \<Rightarrow> encoding option" where
  "encoding_from_id i =
     (if i = 0 then Some EPlain else if i = 1 then Some EDict else if i = 2 then Some ERle
      else if i = 3 then Some EFor else if i = 4 then Some EDelta else if i = 5 then Some EDeltaOfDelta
      else if i = 6 then Some EXor else None)"

fun applies_to :: "encoding \<Rightarrow> data_type \<Rightarrow> bool" where
  "applies_to EPlain ty = True"
| "applies_to EDict ty = (ty \<in> {TString, TBytes})"
| "applies_to ERle ty = (ty \<in> {TBool, TInt64, TUInt64, TTimestamp, TDate})"
| "applies_to EFor ty = (ty \<in> {TInt64, TUInt64, TTimestamp, TDate})"
| "applies_to EDelta ty = (ty \<in> {TInt64, TUInt64, TTimestamp, TDate})"
| "applies_to EDeltaOfDelta ty = (ty \<in> {TInt64, TUInt64, TTimestamp, TDate})"
| "applies_to EXor ty = (ty = TFloat64)"

section \<open>Encoding\<close>

type_synonym chunk_enc = "column \<Rightarrow> (encoding \<times> byte list) option"

text \<open>\<open>plain::encode\<close>, \<open>child\<close> being \<open>encode_column(values, None)\<close>.\<close>

fun plain_encode :: "chunk_enc \<Rightarrow> column_data \<Rightarrow> sink \<Rightarrow> sink option" where
  "plain_encode child (CBool bm) out = Some (fold sink_u64 (bm_words bm) out)"
| "plain_encode child (CInt64 v) out = Some (fold sink_i64 v out)"
| "plain_encode child (CUInt64 v) out = Some (fold sink_u64 v out)"
| "plain_encode child (CFloat64 v) out = Some (fold sink_u64 v out)"
| "plain_encode child (CDecimal v) out = Some (fold sink_i128 v out)"
| "plain_encode child (CTimestamp v) out = Some (fold sink_i64 v out)"
| "plain_encode child (CDate v) out = Some (fold sink_i32 v out)"
| "plain_encode child (CUuid v) out = Some (fold sink_raw v out)"
| "plain_encode child (CIp v) out = Some (fold sink_raw v out)"
| "plain_encode child (CString offsets data) out = Some (sink_raw data (fold sink_u32 offsets out))"
| "plain_encode child (CBytes offsets data) out = Some (sink_raw data (fold sink_u32 offsets out))"
| "plain_encode child (CList offsets values) out =
     map_option (\<lambda>(enc, chunk). sink_bytes chunk (sink_uvarint (encoding_id enc) (fold sink_u32 offsets out)))
       (child values)"

fun encode_dict :: "column \<Rightarrow> sink \<Rightarrow> sink option" where
  "encode_dict (Column ty (CString offsets data) validity nulls) out = Some (dict_encode offsets data validity out)"
| "encode_dict (Column ty (CBytes offsets data) validity nulls) out = Some (dict_encode offsets data validity out)"
| "encode_dict _ out = None"

fun encode_bool_rle :: "column_data \<Rightarrow> sink \<Rightarrow> sink option" where
  "encode_bool_rle (CBool bm) out = Some (rle_encode_bool bm out)"
| "encode_bool_rle _ out = None"

fun encode_xor :: "column_data \<Rightarrow> sink \<Rightarrow> sink option" where
  "encode_xor (CFloat64 v) out = Some (xor_encode v out)"
| "encode_xor _ out = None"

fun as_i64 :: "column_data \<Rightarrow> i64 list option" where
  "as_i64 (CInt64 v) = Some v"
| "as_i64 (CTimestamp v) = Some v"
| "as_i64 (CDate v) = Some (map scast v)"
| "as_i64 _ = None"

definition encode_i64_by :: "encoding \<Rightarrow> i64 list \<Rightarrow> sink \<Rightarrow> sink option" where
  "encode_i64_by enc v out =
     (case enc of
        ERle \<Rightarrow> Some (rle_encode_i64 v out)
      | EFor \<Rightarrow> Some (for_encode_i64 v out)
      | EDelta \<Rightarrow> Some (encode_delta_i64 v out)
      | EDeltaOfDelta \<Rightarrow> Some (encode_dod_i64 v out)
      | _ \<Rightarrow> None)"

definition encode_u64_by :: "encoding \<Rightarrow> u64 list \<Rightarrow> sink \<Rightarrow> sink option" where
  "encode_u64_by enc v out =
     (case enc of
        ERle \<Rightarrow> Some (rle_encode_u64 v out)
      | EFor \<Rightarrow> Some (for_encode_u64 v out)
      | EDelta \<Rightarrow> Some (encode_delta_u64 v out)
      | EDeltaOfDelta \<Rightarrow> Some (encode_dod_u64 v out)
      | _ \<Rightarrow> None)"

definition encode_int_like :: "column_data \<Rightarrow> encoding \<Rightarrow> sink \<Rightarrow> sink option" where
  "encode_int_like data enc out =
     (case as_i64 data of
        Some v \<Rightarrow> encode_i64_by enc v out
      | None \<Rightarrow> (case data of CUInt64 v \<Rightarrow> encode_u64_by enc v out | _ \<Rightarrow> None))"

definition encode_values :: "chunk_enc \<Rightarrow> column \<Rightarrow> encoding \<Rightarrow> sink \<Rightarrow> sink option" where
  "encode_values child col enc out =
     (case enc of
        EPlain \<Rightarrow> plain_encode child (col_data col) out
      | EDict \<Rightarrow> encode_dict col out
      | ERle \<Rightarrow> if col_ty col = TBool then encode_bool_rle (col_data col) out
                else encode_int_like (col_data col) enc out
      | EXor \<Rightarrow> encode_xor (col_data col) out
      | _ \<Rightarrow> encode_int_like (col_data col) enc out)"

definition encode_with_at :: "chunk_enc \<Rightarrow> column \<Rightarrow> encoding \<Rightarrow> byte list option" where
  "encode_with_at child col enc = encode_values child col enc (encode_validity (col_validity col) sink_new)"

definition SAMPLE_ROWS :: nat where
  "SAMPLE_ROWS = 4096"

definition candidates :: "column \<Rightarrow> encoding list" where
  "candidates col =
     filter (\<lambda>e. applies_to e (col_ty col)) (List.map_filter encoding_from_id [0, 1, 2, 3, 4, 5, 6])"

definition build_sample :: "column \<Rightarrow> column option" where
  "build_sample col =
     (let rows = col_len col
      in if rows \<le> SAMPLE_ROWS then col_slice col 0 rows
         else let starts = [0, rows div 4, rows div 2, 3 * rows div 4];
                  pieces = those (List.map_filter
                    (\<lambda>s. let len = min 1024 (rows - s) in if len > 0 then Some (col_slice col s len) else None) starts)
              in case pieces of
                   None \<Rightarrow> None
                 | Some ps \<Rightarrow> (case col_concat (col_ty col) ps of Inl e \<Rightarrow> None | Inr c \<Rightarrow> Some c))"

fun choose_loop :: "(encoding \<times> nat) list \<Rightarrow> (encoding \<times> nat) option \<Rightarrow> (encoding \<times> nat) option" where
  "choose_loop [] best = best"
| "choose_loop ((enc, sz) # rest) best =
     choose_loop rest (case best of None \<Rightarrow> Some (enc, sz) | Some (be, bs) \<Rightarrow> if sz < bs then Some (enc, sz) else best)"

definition choose_at :: "chunk_enc \<Rightarrow> column \<Rightarrow> encoding option" where
  "choose_at child col =
     (case build_sample col of
        None \<Rightarrow> None
      | Some sample \<Rightarrow>
          (case those (map (\<lambda>enc. map_option (\<lambda>b. (enc, length b)) (encode_with_at child sample enc)) (candidates col)) of
             None \<Rightarrow> None
           | Some sizes \<Rightarrow> Some (case choose_loop sizes None of None \<Rightarrow> EPlain | Some (enc, _) \<Rightarrow> enc)))"

definition encode_column_at :: "chunk_enc \<Rightarrow> column \<Rightarrow> encoding option \<Rightarrow> (encoding \<times> byte list) option" where
  "encode_column_at child col pin =
     (case (case pin of Some e \<Rightarrow> if applies_to e (col_ty col) then Some e else None
                      | None \<Rightarrow> choose_at child col) of
        None \<Rightarrow> None
      | Some enc \<Rightarrow> map_option (Pair enc) (encode_with_at child col enc))"

definition encode_child :: chunk_enc where
  "encode_child col = encode_column_at (\<lambda>_. None) col None"

definition encode_with :: "column \<Rightarrow> encoding \<Rightarrow> byte list option" where
  "encode_with = encode_with_at encode_child"

definition encode_column :: "column \<Rightarrow> encoding option \<Rightarrow> (encoding \<times> byte list) option" where
  "encode_column = encode_column_at encode_child"

section \<open>Decoding\<close>

definition read_rows :: "nat \<Rightarrow> 'a rd \<Rightarrow> nat \<Rightarrow> 'a list rd" where
  "read_rows width r rows = rbind (cur_guard_len (word_of_nat rows) width) (\<lambda>n. read_n r n)"

definition read_i64s :: "nat \<Rightarrow> i64 list rd" where
  "read_i64s rows = read_rows 8 cur_i64 rows"

definition read_arrays :: "nat \<Rightarrow> byte list list rd" where
  "read_arrays rows = read_rows 16 (cur_raw 16) rows"

definition read_offsets_and_data :: "nat \<Rightarrow> (u32 list \<times> byte list) rd" where
  "read_offsets_and_data rows =
     rbind (read_rows 4 cur_u32 (rows + 1)) (\<lambda>offsets.
     if offsets = [] then rerr (Malformed ''missing offsets'')
     else rbind (cur_raw (unat (last offsets))) (\<lambda>data. rret (offsets, data)))"

definition decode_i64_by :: "encoding \<Rightarrow> nat \<Rightarrow> i64 list rd" where
  "decode_i64_by enc rows =
     (case enc of
        ERle \<Rightarrow> rle_decode_i64 rows
      | EFor \<Rightarrow> for_decode_i64 rows
      | EDelta \<Rightarrow> decode_delta_i64 rows
      | EDeltaOfDelta \<Rightarrow> decode_dod_i64 rows
      | _ \<Rightarrow> rerr (Malformed ''unreachable''))"

definition decode_u64_by :: "encoding \<Rightarrow> nat \<Rightarrow> u64 list rd" where
  "decode_u64_by enc rows =
     (case enc of
        ERle \<Rightarrow> rle_decode_u64 rows
      | EFor \<Rightarrow> for_decode_u64 rows
      | EDelta \<Rightarrow> decode_delta_u64 rows
      | EDeltaOfDelta \<Rightarrow> decode_dod_u64 rows
      | _ \<Rightarrow> rerr (Malformed ''unreachable''))"

definition narrow_i32 :: "i64 \<Rightarrow> i32 option" where
  "narrow_i32 x = (if - (2 ^ 31) \<le> sint x \<and> sint x \<le> 2 ^ 31 - 1 then Some (ucast x) else None)"

definition decode_int_like :: "data_type \<Rightarrow> nat \<Rightarrow> encoding \<Rightarrow> column_data rd" where
  "decode_int_like ty rows enc =
     (case ty of
        TInt64 \<Rightarrow> rbind (decode_i64_by enc rows) (\<lambda>v. rret (CInt64 v))
      | TTimestamp \<Rightarrow> rbind (decode_i64_by enc rows) (\<lambda>v. rret (CTimestamp v))
      | TUInt64 \<Rightarrow> rbind (decode_u64_by enc rows) (\<lambda>v. rret (CUInt64 v))
      | TDate \<Rightarrow> rbind (decode_i64_by enc rows) (\<lambda>v.
          case those (map narrow_i32 v) of
            None \<Rightarrow> rerr (Malformed ''date value out of i32 range'')
          | Some d \<Rightarrow> rret (CDate d))
      | _ \<Rightarrow> rerr (Malformed ''encoding does not apply to this type''))"

definition decode_dict :: "data_type \<Rightarrow> nat \<Rightarrow> bitmap option \<Rightarrow> column_data rd" where
  "decode_dict ty rows validity = rbind (dict_decode rows validity) (\<lambda>(offsets, data).
     case ty of
       TString \<Rightarrow> rret (CString offsets data)
     | TBytes \<Rightarrow> rret (CBytes offsets data)
     | _ \<Rightarrow> rerr (Malformed ''dict encoding used on a non-string/bytes type''))"

function decode_column :: "data_type \<Rightarrow> nat \<Rightarrow> u64 \<Rightarrow> byte list \<Rightarrow> decode_error + column"
  and decode_values :: "data_type \<Rightarrow> nat \<Rightarrow> encoding \<Rightarrow> bitmap option \<Rightarrow> column_data rd"
  and plain_decode :: "data_type \<Rightarrow> nat \<Rightarrow> column_data rd" where
  "decode_column ty rows enc_id bytes =
     (if rows > MAX_DECODE_ROWS then Inl (Malformed ''row count exceeds MAX_DECODE_ROWS'')
      else case encoding_from_id enc_id of
        None \<Rightarrow> Inl (UnknownEncoding enc_id)
      | Some enc \<Rightarrow>
          if \<not> applies_to enc ty then Inl (UnknownEncoding enc_id)
          else
            (case rbind (decode_validity rows) (\<lambda>validity.
                  rbind (decode_values ty rows enc validity) (\<lambda>values.
                  rret (validity, values))) (cur_new bytes) of
               Inl e \<Rightarrow> Inl e
             | Inr ((validity, values), cur) \<Rightarrow>
                 if \<not> cur_is_empty cur then Inl (Malformed ''trailing bytes after chunk values'')
                 else (case from_parts ty values validity of
                         Inl e \<Rightarrow> Inl (Malformed ''column parts'')
                       | Inr col \<Rightarrow> Inr col)))"
| "decode_values ty rows enc validity =
     (case enc of
        EPlain \<Rightarrow> plain_decode ty rows
      | EDict \<Rightarrow> decode_dict ty rows validity
      | ERle \<Rightarrow> if ty = TBool then rbind (rle_decode_bool rows) (\<lambda>bm. rret (CBool bm))
                else decode_int_like ty rows enc
      | EXor \<Rightarrow> rbind (xor_decode rows) (\<lambda>v. rret (CFloat64 v))
      | _ \<Rightarrow> decode_int_like ty rows enc)"
| "plain_decode TBool rows = rbind (read_words ''bad bool value bitmap'' rows) (\<lambda>bm. rret (CBool bm))"
| "plain_decode TInt64 rows = rbind (read_i64s rows) (\<lambda>v. rret (CInt64 v))"
| "plain_decode TTimestamp rows = rbind (read_i64s rows) (\<lambda>v. rret (CTimestamp v))"
| "plain_decode TUInt64 rows = rbind (read_rows 8 cur_u64 rows) (\<lambda>v. rret (CUInt64 v))"
| "plain_decode TFloat64 rows = rbind (read_rows 8 cur_u64 rows) (\<lambda>v. rret (CFloat64 v))"
| "plain_decode (TDecimal dt) rows = rbind (read_rows 16 cur_i128 rows) (\<lambda>v. rret (CDecimal v))"
| "plain_decode TDate rows = rbind (read_rows 4 cur_i32 rows) (\<lambda>v. rret (CDate v))"
| "plain_decode TUuid rows = rbind (read_arrays rows) (\<lambda>v. rret (CUuid v))"
| "plain_decode TIp rows = rbind (read_arrays rows) (\<lambda>v. rret (CIp v))"
| "plain_decode TString rows = rbind (read_offsets_and_data rows) (\<lambda>(p, d). rret (CString p d))"
| "plain_decode TBytes rows = rbind (read_offsets_and_data rows) (\<lambda>(p, d). rret (CBytes p d))"
| "plain_decode (TList elem) rows =
     rbind (read_rows 4 cur_u32 (rows + 1)) (\<lambda>offsets.
     rbind cur_uvarint (\<lambda>child_id.
     rbind cur_bytes (\<lambda>child_bytes.
     if offsets = [] then rerr (Malformed ''missing list offsets'')
     else rbind (lift_result (decode_column elem (unat (last offsets)) child_id child_bytes)) (\<lambda>values.
          rret (CList offsets values)))))"
  by pat_completeness auto
termination
  by (relation "measure (\<lambda>x. case x of
        Inl (ty, _) \<Rightarrow> 3 * size ty + 2
      | Inr (Inl (ty, _)) \<Rightarrow> 3 * size ty + 1
      | Inr (Inr (ty, _)) \<Rightarrow> 3 * size ty)") auto

declare decode_column.simps [simp del] decode_values.simps [simp del]

section \<open>PLAIN round trip\<close>

lemma read_rows_at:
  assumes "codec enc dec D" "\<forall>x \<in> set xs. D x" "\<And>x. D x \<Longrightarrow> length (enc x []) = width" "width \<le> 16"
    "length xs \<le> MAX_DECODE_ROWS" "cursor_at c (fold enc xs [] @ ys)"
  shows "read_rows width dec (length xs) c = Inr (xs, cur_advance (length (fold enc xs [])) c)"
proof -
  have len: "length (fold enc xs []) = width * length xs"
    unfolding append_writer.fold_concat [OF codec.axioms(1) [OF assms(1)]]
    using assms(2,3) by (simp add: length_concat_same)
  have "length xs * width \<le> 2 ^ 22 * 16" using assms(4,5) by (intro mult_le_mono) (simp_all add: MAX_DECODE_ROWS_def)
  then have "length xs * width < 2 ^ 64" "length xs < 2 ^ 64" using assms(5) by (simp_all add: MAX_DECODE_ROWS_def)
  moreover have "length xs * width \<le> cur_remaining c"
    using cursor_at_remaining [OF assms(6)] len by (simp add: mult.commute)
  ultimately have "cur_guard_len (word_of_nat (length xs)) width c = Inr (length xs, c)"
    using assms(5) by (simp add: guard_len_ok_iff)
  then show ?thesis using codec.read_n_enc [OF assms(1,2,6)] by (simp add: read_rows_def rbind_def)
qed

interpretation raw16_codec: codec sink_raw "cur_raw 16" "\<lambda>u. length u = 16"
proof
  show "cur_raw 16 c = Inr (u, cur_advance (length (sink_raw u [])) c)"
    if "length u = 16" "cursor_at c (sink_raw u [] @ ys)" for u c ys
    using cur_take_at [of c u ys 16] that by (simp add: cur_raw_def sink_raw_def)
qed (simp_all add: sink_raw_def rd_safe_intros)

lemmas read_rows_fixed =
  read_rows_at [OF u32_codec.codec_axioms] read_rows_at [OF u64_codec.codec_axioms]
  read_rows_at [OF i32_codec.codec_axioms] read_rows_at [OF i64_codec.codec_axioms]
  read_rows_at [OF i128_codec.codec_axioms] read_rows_at [OF raw16_codec.codec_axioms]

lemma read_offsets_and_data_at:
  assumes "offsets_wf offsets (length data)" "length offsets \<le> MAX_DECODE_ROWS"
    "cursor_at c (fold sink_u32 offsets [] @ data @ ys)"
  shows "read_offsets_and_data (length offsets - 1) c =
    Inr ((offsets, data), cur_advance (length (fold sink_u32 offsets [] @ data)) c)"
proof -
  have ne: "offsets \<noteq> []" "unat (last offsets) = length data" using assms(1) by (simp_all add: offsets_wf_def)
  then have "length offsets - 1 + 1 = length offsets" by (cases offsets) simp_all
  moreover have "read_rows 4 cur_u32 (length offsets) c = Inr (offsets, cur_advance (length (fold sink_u32 offsets [])) c)"
    using assms(2,3) by (intro read_rows_fixed(1)) (simp_all add: sink_u32_def)
  moreover have "cur_raw (length data) (cur_advance (length (fold sink_u32 offsets [])) c) =
      Inr (data, cur_advance (length data) (cur_advance (length (fold sink_u32 offsets [])) c))"
    unfolding cur_raw_def using cur_take_at [OF cursor_at_advance [OF assms(3)]] by simp
  ultimately show ?thesis using ne by (simp add: read_offsets_and_data_def rbind_def)
qed

text \<open>
  What the decoder's limits ask of a column: at most \<open>MAX_DECODE_ROWS\<close> rows, one fewer where
  offsets are stored (there is one more offset than rows), at most \<open>MAX_DECODE_BYTES\<close> of
  variable-width data, and the same of a list's child. Null rows of variable width are
  empty, as \<open>push_null\<close> leaves them.
\<close>

fun decodable :: "column \<Rightarrow> bool" and data_decodable :: "bitmap option \<Rightarrow> column_data \<Rightarrow> bool" where
  "decodable (Column ty data validity nulls) \<longleftrightarrow> data_len data \<le> MAX_DECODE_ROWS \<and> data_decodable validity data"
| "data_decodable validity (CString offsets data) \<longleftrightarrow>
     length offsets \<le> MAX_DECODE_ROWS \<and> length data \<le> MAX_DECODE_BYTES \<and> null_rows_empty offsets validity"
| "data_decodable validity (CBytes offsets data) \<longleftrightarrow>
     length offsets \<le> MAX_DECODE_ROWS \<and> length data \<le> MAX_DECODE_BYTES \<and> null_rows_empty offsets validity"
| "data_decodable validity (CList offsets values) \<longleftrightarrow> length offsets \<le> MAX_DECODE_ROWS \<and> decodable values"
| "data_decodable validity _ \<longleftrightarrow> True"

definition child_ok :: "chunk_enc \<Rightarrow> bool" where
  "child_ok child \<longleftrightarrow> (\<forall>col enc chunk. col_wf col \<longrightarrow> decodable col \<longrightarrow> child col = Some (enc, chunk) \<longrightarrow>
     length chunk < 2 ^ 64 \<longrightarrow> decode_column (col_ty col) (col_len col) (encoding_id enc) chunk = Inr col)"

lemma plain_encode_append:
  "plain_encode child data out = map_option (\<lambda>p. out @ p) (plain_encode child data [])"
proof (cases data)
  case (CString offsets d)
  then show ?thesis using u32_codec.fold_append [of offsets out] by (simp add: sink_raw_def)
next
  case (CBytes offsets d)
  then show ?thesis using u32_codec.fold_append [of offsets out] by (simp add: sink_raw_def)
next
  case (CList offsets ch)
  have "sink_bytes b (sink_uvarint v (fold sink_u32 offsets out)) =
      out @ sink_bytes b (sink_uvarint v (fold sink_u32 offsets []))" for b v
    using u32_codec.fold_append [of offsets out] sink_uvarint_append [of v "fold sink_u32 offsets out"]
      sink_uvarint_append [of v "fold sink_u32 offsets []"] sink_bytes_append [of b "sink_uvarint v (fold sink_u32 offsets out)"]
      sink_bytes_append [of b "sink_uvarint v (fold sink_u32 offsets [])"] by simp
  then show ?thesis by (cases "child ch") (auto simp: CList)
qed (simp_all,
    (rule u64_codec.fold_append i64_codec.fold_append i32_codec.fold_append i128_codec.fold_append raw16_codec.fold_append)+)

lemma plain_decode_list:
  assumes "offsets_wf offsets (col_len ch)" "col_wf ch" "decodable ch" "length offsets \<le> MAX_DECODE_ROWS"
    "child ch = Some (enc, chunk)" "child_ok child" "length chunk < 2 ^ 64"
    "cursor_at c (fold sink_u32 offsets [] @ sink_uvarint (encoding_id enc) [] @ sink_bytes chunk [] @ ys)"
  shows "plain_decode (TList (col_ty ch)) (length offsets - 1) c = Inr (CList offsets ch,
    cur_advance (length (fold sink_u32 offsets [] @ sink_uvarint (encoding_id enc) [] @ sink_bytes chunk [])) c)"
proof -
  have ne: "offsets \<noteq> []" "unat (last offsets) = col_len ch" using assms(1) by (simp_all add: offsets_wf_def)
  then have n: "length offsets - 1 + 1 = length offsets" by (cases offsets) simp_all
  note at2 = cursor_at_advance [OF assms(8)]
  note at3 = cursor_at_advance [OF at2]
  have "read_rows 4 cur_u32 (length offsets) c = Inr (offsets, cur_advance (length (fold sink_u32 offsets [])) c)"
    using assms(4,8) by (intro read_rows_fixed(1)) (simp_all add: sink_u32_def)
  moreover note uvarint_codec.dec_enc [OF _ at2] bytes_codec.dec_enc [OF assms(7) at3]
  moreover have "decode_column (col_ty ch) (unat (last offsets)) (encoding_id enc) chunk = Inr ch"
    using assms(2,3,5-7) ne(2) by (simp add: child_ok_def)
  ultimately show ?thesis using ne(1) n by (simp add: rbind_def lift_result_def add.assoc)
qed

lemma plain_decode_enc:
  assumes "data_wf ty data" "data_decodable validity data" "data_len data \<le> MAX_DECODE_ROWS"
    "plain_encode child data [] = Some p" "length p < 2 ^ 64" "child_ok child" "cursor_at c (p @ ys)"
  shows "plain_decode ty (data_len data) c = Inr (data, cur_advance (length p) c)"
proof (cases data)
  case (CBool bm)
  then show ?thesis using assms read_words_at [of c bm ys] by (auto simp: rbind_def)
next
  case (CInt64 v)
  then show ?thesis using assms read_rows_fixed(4) [of v 8 c ys] by (auto simp: rbind_def read_i64s_def sink_i64_def)
next
  case (CUInt64 v)
  then show ?thesis using assms read_rows_fixed(2) [of v 8 c ys] by (auto simp: rbind_def sink_u64_def)
next
  case (CFloat64 v)
  then show ?thesis using assms read_rows_fixed(2) [of v 8 c ys] by (auto simp: rbind_def sink_u64_def)
next
  case (CDecimal v)
  then show ?thesis using assms read_rows_fixed(5) [of v 16 c ys]
    by (auto simp: rbind_def sink_i128_def split: data_type.splits)
next
  case (CTimestamp v)
  then show ?thesis using assms read_rows_fixed(4) [of v 8 c ys] by (auto simp: rbind_def read_i64s_def sink_i64_def)
next
  case (CDate v)
  then show ?thesis using assms read_rows_fixed(3) [of v 4 c ys] by (auto simp: rbind_def sink_i32_def)
next
  case (CUuid v)
  then show ?thesis using assms read_rows_fixed(6) [of v 16 c ys] by (auto simp: rbind_def read_arrays_def sink_raw_def)
next
  case (CIp v)
  then show ?thesis using assms read_rows_fixed(6) [of v 16 c ys] by (auto simp: rbind_def read_arrays_def sink_raw_def)
next
  case (CString offsets d)
  then show ?thesis using assms read_offsets_and_data_at [of offsets d c ys] by (auto simp: rbind_def sink_raw_def)
next
  case (CBytes offsets d)
  then show ?thesis using assms read_offsets_and_data_at [of offsets d c ys] by (auto simp: rbind_def sink_raw_def)
next
  case (CList offsets ch)
  obtain enc chunk where ch: "child ch = Some (enc, chunk)"
    and p: "p = sink_bytes chunk (sink_uvarint (encoding_id enc) (fold sink_u32 offsets []))"
    using assms(4) by (auto simp: CList)
  have p: "p = fold sink_u32 offsets [] @ sink_uvarint (encoding_id enc) [] @ sink_bytes chunk []"
    unfolding p by (subst sink_bytes_append, subst sink_uvarint_append) simp
  have "length chunk < 2 ^ 64" using assms(5) by (simp add: p sink_bytes_def sink_raw_def)
  then show ?thesis
    using plain_decode_list [of offsets ch child enc chunk c ys] assms ch p CList by auto
qed

section \<open>Int-like round trip\<close>

lemma decode_i64_by_enc:
  assumes "encode_i64_by enc v [] = Some p" "cursor_at c (p @ ys)" "length v \<le> MAX_DECODE_ROWS"
  shows "decode_i64_by enc (length v) c = Inr (v, cur_advance (length p) c)"
  using assms rle_i64_codec.dec_enc [of v "length v" c ys] for_i64_codec.dec_enc [of v "length v" c ys]
    delta_i64_codec.dec_enc [of v "length v" c ys] dod_i64_codec.dec_enc [of v "length v" c ys]
  by (auto simp: encode_i64_by_def decode_i64_by_def split: encoding.splits)

lemma decode_u64_by_enc:
  assumes "encode_u64_by enc v [] = Some p" "cursor_at c (p @ ys)" "length v \<le> MAX_DECODE_ROWS"
  shows "decode_u64_by enc (length v) c = Inr (v, cur_advance (length p) c)"
  using assms rle_u64_codec.dec_enc [of v "length v" c ys] for_u64_codec.dec_enc [of v "length v" c ys]
    delta_u64_codec.dec_enc [of v "length v" c ys] dod_u64_codec.dec_enc [of v "length v" c ys]
  by (auto simp: encode_u64_by_def decode_u64_by_def split: encoding.splits)

lemma encode_by_append:
  "encode_i64_by enc v out = map_option (\<lambda>p. out @ p) (encode_i64_by enc v [])"
  "encode_u64_by enc v out = map_option (\<lambda>p. out @ p) (encode_u64_by enc v [])"
  by (auto simp: encode_i64_by_def encode_u64_by_def split: encoding.splits
      intro: rle_i64_codec.enc_append for_i64_codec.enc_append delta_i64_codec.enc_append dod_i64_codec.enc_append
        rle_u64_codec.enc_append for_u64_codec.enc_append delta_u64_codec.enc_append dod_u64_codec.enc_append)

lemma narrow_scast: "narrow_i32 (scast (d :: i32)) = Some d"
proof -
  have "- (2 ^ 31) \<le> sint d" "sint d < 2 ^ 31" using sint_greater_eq [of d] sint_less [of d] by simp_all
  moreover from this have "sint (scast d :: i64) = sint d"
    by (simp add: signed_scast_eq signed_take_bit_int_eq_self)
  moreover have "(ucast (scast d :: i64) :: i32) = d"
    by (rule bit_word_eqI) (simp add: bit_simps)
  ultimately show ?thesis by (simp add: narrow_i32_def)
qed

lemma decode_int_like_enc:
  assumes "data_wf ty data" "encode_int_like data enc [] = Some p" "cursor_at c (p @ ys)" "data_len data \<le> MAX_DECODE_ROWS"
  shows "decode_int_like ty (data_len data) enc c = Inr (data, cur_advance (length p) c)"
proof (cases data)
  case (CDate v)
  then have e: "encode_i64_by enc (map scast v) [] = Some p" "ty = TDate" using assms by (simp_all add: encode_int_like_def)
  moreover have "those (map narrow_i32 (map scast v)) = Some v" by (simp add: those_Some_iff narrow_scast)
  ultimately show ?thesis using assms CDate decode_i64_by_enc [OF e(1) assms(3)]
    by (simp add: decode_int_like_def rbind_def)
qed (use assms decode_i64_by_enc [of enc _ p c ys] decode_u64_by_enc [of enc _ p c ys] in
    \<open>auto simp: encode_int_like_def decode_int_like_def rbind_def\<close>)

section \<open>Chunk round trip\<close>

lemma encode_values_append:
  "encode_values child col enc out = map_option (\<lambda>p. out @ p) (encode_values child col enc [])"
proof -
  have il: "encode_int_like d enc out = map_option (\<lambda>p. out @ p) (encode_int_like d enc [])" for d enc
    using encode_by_append [of enc _ out] by (simp add: encode_int_like_def split: option.splits column_data.splits)
  have di: "encode_dict col out = map_option (\<lambda>p. out @ p) (encode_dict col [])"
    using dict_encode_append [of _ _ _ out] by (cases "(col, out)" rule: encode_dict.cases) simp_all
  have bo: "encode_bool_rle d out = map_option (\<lambda>p. out @ p) (encode_bool_rle d [])" for d
    by (cases d) (simp_all add: rle_encode_bool_def Let_def rle_bool.enc_runs_split [unfolded rle_bool.enc_runs_def rle_bool.enc_run_def, of _ out]
        rle_bool.enc_runs_split [unfolded rle_bool.enc_runs_def rle_bool.enc_run_def, of _ "[]"])
  have xo: "encode_xor d out = map_option (\<lambda>p. out @ p) (encode_xor d [])" for d
    using xor_encode_append [of _ out] by (cases d) simp_all
  show ?thesis using il di bo xo plain_encode_append [of child "col_data col" out]
    by (auto simp: encode_values_def split: encoding.splits)
qed

lemma encode_id_inverse [simp]: "encoding_from_id (encoding_id enc) = Some enc"
  by (cases enc) (simp_all add: encoding_from_id_def)

lemma decode_values_enc:
  assumes "col_wf col" "decodable col" "applies_to enc (col_ty col)" "encode_values child col enc [] = Some p"
    "length p < 2 ^ 64" "child_ok child" "cursor_at c p"
  shows "decode_values (col_ty col) (col_len col) enc (col_validity col) c = Inr (col_data col, cur_advance (length p) c)"
proof -
  obtain ty data v nulls where col: "col = Column ty data v nulls" by (cases col)
  have wf: "data_wf ty data" "validity_ok (data_len data) v" and le: "data_len data \<le> MAX_DECODE_ROWS" "data_decodable v data"
    using assms(1,2) by (simp_all add: col)
  have at: "cursor_at c (p @ [])" using assms(7) by simp
  show ?thesis
  proof (cases enc)
    case EPlain
    then show ?thesis using plain_decode_enc [OF wf(1) le(2,1) _ assms(5,6) at] assms(4)
      by (simp add: decode_values.simps encode_values_def col col_len_def)
  next
    case EDict
    then obtain offsets d where d: "data = CString offsets d \<and> ty = TString \<or> data = CBytes offsets d \<and> ty = TBytes"
      using assms(3) wf(1) by (cases data) (auto simp: col split: data_type.splits)
    then have "dict_encode offsets d v [] = p" using assms(4) EDict by (auto simp: encode_values_def col)
    moreover from d have "dict_decode (length offsets - 1) v c =
        Inr ((offsets, d), cur_advance (length (dict_encode offsets d v [])) c)"
      using wf le at calculation by (intro dict_decode_enc [of offsets d _ v c "[]"]) auto
    ultimately show ?thesis using d EDict
      by (auto simp: decode_values.simps decode_dict_def col col_len_def rbind_def)
  next
    case EXor
    then obtain f where d: "data = CFloat64 f" "ty = TFloat64" using assms(3) wf(1) by (cases data) (auto simp: col split: data_type.splits)
    then have p: "p = xor_encode f []" using assms(4) EXor by (simp add: encode_values_def col)
    show ?thesis
    proof (cases "f = []")
      case True
      then show ?thesis using EXor d p
        by (simp add: decode_values.simps col col_len_def rbind_def xor_decode_def xor_encode_def)
    next
      case False
      then show ?thesis using EXor d p xor_decode_enc [of f "length f" c "[]"] le at
        by (simp add: decode_values.simps col col_len_def rbind_def)
    qed
  next
    case ERle
    show ?thesis
    proof (cases "ty = TBool")
      case True
      then obtain bm where d: "data = CBool bm" "bm_wf bm" using wf(1) by (cases data) (auto split: data_type.splits)
      then show ?thesis using True ERle assms(4) at le rle_decode_bool_enc [OF d(2), of c "[]"]
        by (simp add: decode_values.simps encode_values_def col col_len_def rbind_def)
    next
      case False
      then show ?thesis using ERle assms(4) decode_int_like_enc [OF wf(1) _ at le(1)]
        by (simp add: decode_values.simps encode_values_def col col_len_def)
    qed
  qed (use assms(4) decode_int_like_enc [OF wf(1) _ at le(1)] in
      \<open>simp_all add: decode_values.simps encode_values_def col col_len_def\<close>)
qed

lemma encode_with_at_roundtrip:
  assumes "col_wf col" "decodable col" "applies_to enc (col_ty col)" "encode_with_at child col enc = Some bytes"
    "length bytes < 2 ^ 64" "child_ok child"
  shows "decode_column (col_ty col) (col_len col) (encoding_id enc) bytes = Inr col"
proof -
  obtain ty data v nulls where col: "col = Column ty data v nulls" by (cases col)
  let ?v = "encode_validity v []"
  obtain p where p: "encode_values child col enc [] = Some p" and b: "bytes = ?v @ p"
    using assms(4) encode_values_append [of child col enc ?v]
    by (cases "encode_values child col enc []") (auto simp: encode_with_at_def sink_new_def col)
  have wf: "type_ok ty" "data_wf ty data" "validity_ok (data_len data) v" and le: "data_len data \<le> MAX_DECODE_ROWS"
    using assms(1,2) by (simp_all add: col)
  have at1: "cursor_at (cur_new bytes) (?v @ p)" by (simp add: b)
  note at2 = cursor_at_advance [OF at1]
  have dv: "decode_validity (data_len data) (cur_new bytes) = Inr (v, cur_advance (length ?v) (cur_new bytes))"
    using validity_codec.dec_enc [OF _ at1] wf(3) le by simp
  have dd: "decode_values ty (data_len data) enc v (cur_advance (length ?v) (cur_new bytes)) =
      Inr (data, cur_advance (length p) (cur_advance (length ?v) (cur_new bytes)))"
    using decode_values_enc [OF assms(1-3) p _ assms(6) at2] assms(5) b by (simp add: col col_len_def)
  have em: "cur_is_empty (cur_advance (length p) (cur_advance (length ?v) (cur_new bytes)))"
    using cursor_at_remaining [OF cursor_at_advance [of "cur_advance (length ?v) (cur_new bytes)" p "[]"]] at2
    by (simp add: cur_is_empty_def)
  have "from_parts ty data v = Inr col"
    using from_parts_iff [OF wf(1) data_wf_rep_ok [OF wf(2)], of v col] wf(3) assms(1)
    by (simp add: col validity_ok_def split: option.splits)
  then show ?thesis using dv dd em le assms(3)
    by (simp add: decode_column.simps rbind_def rret_def col col_len_def)
qed

lemma choose_loop_member:
  "choose_loop xs best = Some (enc, sz) \<Longrightarrow> (enc, sz) \<in> set xs \<or> best = Some (enc, sz)"
proof (induction xs best rule: choose_loop.induct)
  case (2 e s rest best)
  then show ?case by (auto split: option.splits if_splits)
qed simp

lemma choose_at_applies:
  assumes "choose_at child col = Some enc"
  shows "applies_to enc (col_ty col)"
proof -
  obtain sample sizes where s: "those (map (\<lambda>e. map_option (\<lambda>b. (e, length b)) (encode_with_at child sample e)) (candidates col)) = Some sizes"
    and e: "enc = (case choose_loop sizes None of None \<Rightarrow> EPlain | Some (e, _) \<Rightarrow> e)"
    using assms by (auto simp: choose_at_def split: option.splits)
  have "\<forall>(e, n) \<in> set sizes. e \<in> set (candidates col)"
    using s [unfolded those_Some_iff] by (auto simp: in_set_conv_nth list_eq_iff_nth_eq) (metis (no_types, lifting) fst_conv map_option_eq_Some nth_mem)
  then show ?thesis using e choose_loop_member [of sizes None]
    by (auto simp: candidates_def split: option.splits)
qed

lemma encode_column_at_roundtrip:
  assumes "col_wf col" "decodable col" "encode_column_at child col pin = Some (enc, bytes)"
    "length bytes < 2 ^ 64" "child_ok child"
  shows "decode_column (col_ty col) (col_len col) (encoding_id enc) bytes = Inr col"
proof -
  have "applies_to enc (col_ty col)" "encode_with_at child col enc = Some bytes"
    using assms(3) choose_at_applies [of child col enc]
    by (auto simp: encode_column_at_def split: option.splits if_splits)
  then show ?thesis using encode_with_at_roundtrip assms by blast
qed

lemma child_ok_none: "child_ok (\<lambda>_. None)"
  by (simp add: child_ok_def)

lemma child_ok_encode_child: "child_ok encode_child"
  using encode_column_at_roundtrip [OF _ _ _ _ child_ok_none] by (simp add: child_ok_def encode_child_def)

section \<open>Properties of chunk encodings\<close>

text \<open>
  The integer encodings RLE, FOR, DELTA and DELTA_OF_DELTA, signed and unsigned: every
  vector of at most \<open>MAX_DECODE_ROWS\<close> values comes back, whatever its extremes, differences
  that wrap around 64 bits included, and the reader stops right behind it. The four are all
  the encodings these routines know.
\<close>

lemma int_encodings_roundtrip:
  assumes "length v \<le> MAX_DECODE_ROWS" "enc \<in> {ERle, EFor, EDelta, EDeltaOfDelta}"
  shows "\<exists>p q. encode_i64_by enc v [] = Some p \<and> encode_u64_by enc v [] = Some q \<and>
    decode_i64_by enc (length v) (cur_new (p @ ys)) = Inr (v, cur_advance (length p) (cur_new (p @ ys))) \<and>
    decode_u64_by enc (length v) (cur_new (q @ ys)) = Inr (v, cur_advance (length q) (cur_new (q @ ys)))"
proof -
  obtain p q where p: "encode_i64_by enc v [] = Some p" and q: "encode_u64_by enc v [] = Some q"
    using assms(2) by (auto simp: encode_i64_by_def encode_u64_by_def)
  show ?thesis
    using decode_i64_by_enc [OF p _ assms(1), where ys = ys] decode_u64_by_enc [OF q _ assms(1), where ys = ys] p q by simp
qed

lemma int_encodings_roundtrip_witness:
  "\<exists>p q. encode_i64_by EDelta [0x8000000000000000, 0x7fffffffffffffff] [] = Some p \<and>
    encode_u64_by EDelta [0x8000000000000000, 0x7fffffffffffffff] [] = Some q \<and>
    decode_i64_by EDelta 2 (cur_new (p @ [])) = Inr ([0x8000000000000000, 0x7fffffffffffffff], cur_advance (length p) (cur_new (p @ []))) \<and>
    decode_u64_by EDelta 2 (cur_new (q @ [])) = Inr ([0x8000000000000000, 0x7fffffffffffffff], cur_advance (length q) (cur_new (q @ [])))"
proof -
  have "length [0x8000000000000000, 0x7fffffffffffffff :: i64] \<le> MAX_DECODE_ROWS" by (simp add: MAX_DECODE_ROWS_def)
  from int_encodings_roundtrip [OF this, of EDelta "[]"] show ?thesis by (simp add: numeral_2_eq_2)
qed

lemma encode_column_decodes:
  assumes "col_wf col" "decodable col" "encode_column col pin = Some (enc, bytes)" "length bytes < 2 ^ 64"
  shows "decode_column (col_ty col) (col_len col) (encoding_id enc) bytes = Inr col \<and> applies_to enc (col_ty col)"
proof
  show "decode_column (col_ty col) (col_len col) (encoding_id enc) bytes = Inr col"
    by (rule encode_column_at_roundtrip [OF assms(1,2) _ assms(4) child_ok_encode_child])
      (use assms(3) in \<open>simp add: encode_column_def\<close>)
  show "applies_to enc (col_ty col)"
    using assms(3) choose_at_applies [of encode_child col]
    by (auto simp: encode_column_def encode_column_at_def split: option.splits if_splits)
qed

text \<open>
  C1. What \<open>encode_column\<close> writes, \<open>decode_column\<close> reads: for a well-formed column within the
  decode limits, whatever encoding was pinned or selected, nested lists included, decoding
  the chunk with the recorded encoding id gives the very column back, null map and null count
  included.
\<close>

theorem encode_column_roundtrip:
  assumes "col_wf col" "decodable col" "encode_column col pin = Some (enc, bytes)" "length bytes < 2 ^ 64"
  shows "decode_column (col_ty col) (col_len col) (encoding_id enc) bytes = Inr col \<and> applies_to enc (col_ty col)"
  by (rule encode_column_decodes [OF assms])

theorem encode_column_roundtrip_witness:
  "\<exists>bytes. encode_column (Column TInt64 (CInt64 [5, 6]) None 0) (Some EPlain) = Some (EPlain, bytes) \<and>
     decode_column TInt64 2 0 bytes = Inr (Column TInt64 (CInt64 [5, 6]) None 0)"
proof -
  let ?col = "Column TInt64 (CInt64 [5, 6]) None 0" and ?b = "[0, 5, 0, 0, 0, 0, 0, 0, 0, 6, 0, 0, 0, 0, 0, 0, 0]"
  have e: "encode_column ?col (Some EPlain) = Some (EPlain, ?b)" by code_simp
  have "decode_column (col_ty ?col) (col_len ?col) (encoding_id EPlain) ?b = Inr ?col"
    by (rule conjunct1 [OF encode_column_roundtrip [OF _ _ e]]) (simp_all add: validity_ok_def MAX_DECODE_ROWS_def)
  then show ?thesis using e by (simp add: col_len_def numeral_2_eq_2)
qed

end
