(* ===== verification/Decode_Safe.thy ===== *)
theory Decode_Safe
  imports Encode
begin

text \<open>
  What \<open>decode_column\<close> guarantees of untrusted bytes: a column it returns satisfies the
  column invariant, so no read of it panics, and has the row count the caller asked for.
  And what its limits refuse: columns the encoder writes and the decoder cannot take back.
\<close>

section \<open>Row counts\<close>

lemma case_sum_Inr_iff: "(case r of Inl e \<Rightarrow> Inl e | Inr v \<Rightarrow> g v) = Inr y \<longleftrightarrow> (\<exists>v. r = Inr v \<and> g v = Inr y)"
  by (cases r) auto

lemma case_option_Inr_iff:
  "(case x of None \<Rightarrow> rerr e | Some y \<Rightarrow> rret (g y)) c = Inr z \<longleftrightarrow> (\<exists>y. x = Some y \<and> z = (g y, c))"
  by (cases x) (auto simp: rerr_def rret_def)

lemma read_n_length: "read_n r n c = Inr (xs, c') \<Longrightarrow> length xs = n"
  by (induction n arbitrary: c xs c') (auto simp: rbind_eq_Inr_iff rret_def)

lemma read_n_all: "read_n r n c = Inr (xs, c') \<Longrightarrow> (\<And>c x c'. r c = Inr (x, c') \<Longrightarrow> P x) \<Longrightarrow> x \<in> set xs \<Longrightarrow> P x"
  by (induction n arbitrary: c xs c') (auto simp: rbind_eq_Inr_iff rret_def)

lemma read_rows_length: "read_rows w r rows c = Inr (xs, c') \<Longrightarrow> rows < 2 ^ 64 \<Longrightarrow> length xs = rows"
  by (auto simp: read_rows_def rbind_eq_Inr_iff guard_len_ok_iff dest!: read_n_length)

lemma read_packed_length: "read_packed mn w n r = Inr vs \<Longrightarrow> length vs = n"
  by (induction n arbitrary: r vs) (auto split: sum.splits prod.splits)

lemma read_for_length: "read_for rows c = Inr (vs, c') \<Longrightarrow> rows < 2 ^ 64 \<Longrightarrow> length vs = rows"
  by (auto simp: read_for_def rbind_eq_Inr_iff guard_len_ok_iff rerr_def Let_def case_sum_Inr_iff split: if_splits
      dest!: read_packed_length)

lemma delta_loop_length [simp]: "length (delta_loop p ds) = length ds"
  by (induction ds arbitrary: p) (simp_all add: Let_def)

lemma dod_loop_length [simp]: "length (dod_loop d p ds) = length ds"
  by (induction ds arbitrary: d p) (simp_all add: Let_def)

lemma decode_delta_length: "decode_delta_mapped rows c = Inr (vs, c') \<Longrightarrow> rows < 2 ^ 64 \<Longrightarrow> length vs = rows"
  by (cases "rows = 0"; cases "rows = 1") (auto simp: decode_delta_mapped_def rbind_eq_Inr_iff rret_def dest!: read_for_length)

lemma decode_dod_length: "decode_dod_mapped rows c = Inr (vs, c') \<Longrightarrow> rows < 2 ^ 64 \<Longrightarrow> length vs = rows"
  by (cases "rows = 0"; cases "rows = 1") (auto simp: decode_dod_mapped_def rbind_eq_Inr_iff rret_def Let_def dest!: read_for_length)

lemma rle_finish_length: "rle_finish cnt rows out c = Inr (out', c') \<Longrightarrow> out' = out \<and> cnt out = rows"
  by (auto simp: rle_finish_def rret_def rerr_def split: if_splits)

lemma rle_length:
  "rle_decode_u64 rows c = Inr (vs, c') \<Longrightarrow> length vs = rows"
  "rle_decode_i64 rows c = Inr (vs, c') \<Longrightarrow> length vs = rows"
  by (auto simp: rle_decode_u64_def rle_decode_i64_def rbind_eq_Inr_iff dest!: rle_finish_length)

lemma rle_loop_inv:
  assumes "rle_loop rv app cnt rows n out c = Inr (out', c')" "P out" "\<And>out v n. P out \<Longrightarrow> P (app out v n)"
  shows "P out'"
  using assms(1,2) by (induction n arbitrary: out c) (auto simp: rbind_eq_Inr_iff rret_def dest: assms(3))

lemma rle_bool_wf:
  assumes "rle_decode_bool rows c = Inr (bm, c')"
  shows "bm_wf bm \<and> bm_len bm = rows"
proof -
  obtain nruns c1 out c2 c3 where l: "rle_loop rle_read_bool bm_app snd rows nruns (bm_new_null 0, 0) c1 = Inr (out, c2)"
    and f: "rle_finish snd rows out c2 = Inr ((bm, snd out), c3)" "bm = fst out"
    using assms by (auto simp: rle_decode_bool_def rbind_eq_Inr_iff rret_def) (metis prod.collapse rle_finish_length)
  have "bm_wf (fst out) \<and> snd out = bm_len (fst out)"
    by (rule rle_loop_inv [OF l]) (use rle_bool.inv_app in \<open>auto simp: bm_new_null_spec, simp add: bm_new_null_def\<close>)
  then show ?thesis using f rle_finish_length [OF f(1)] by auto
qed

lemma xor_loop_length: "xor_loop n prev w r = Inr vs \<Longrightarrow> length vs = n"
  by (induction n arbitrary: prev w r vs) (auto simp: Let_def split: sum.splits prod.splits)

lemma xor_decode_length: "xor_decode rows c = Inr (vs, c') \<Longrightarrow> rows < 2 ^ 64 \<Longrightarrow> length vs = rows"
  by (auto simp: xor_decode_def rbind_eq_Inr_iff rret_def guard_len_ok_iff case_sum_Inr_iff split: if_splits prod.splits
      dest!: xor_loop_length)

lemma dict_fill_length:
  "dict_fill entries v i codes offsets data = Inr (p, d) \<Longrightarrow> length p = length offsets + length codes"
  by (induction entries v i codes offsets data rule: dict_fill.induct) (auto simp: Let_def split: if_splits)

lemma dict_decode_length: "dict_decode rows v c = Inr ((p, d), c') \<Longrightarrow> rows < 2 ^ 64 \<Longrightarrow> length p = rows + 1"
  by (auto simp: dict_decode_def rbind_eq_Inr_iff rerr_def lift_result_def Let_def case_sum_Inr_iff split: if_splits
      dest!: dict_fill_length read_for_length)

lemma decode_by_length:
  "decode_i64_by enc rows c = Inr (vs, c') \<Longrightarrow> rows < 2 ^ 64 \<Longrightarrow> length vs = rows"
  "decode_u64_by enc rows c = Inr (vs, c') \<Longrightarrow> rows < 2 ^ 64 \<Longrightarrow> length vs = rows"
  by (auto simp: decode_i64_by_def decode_u64_by_def for_decode_i64_def for_decode_u64_def decode_delta_i64_def
      decode_delta_u64_def decode_dod_i64_def decode_dod_u64_def rbind_eq_Inr_iff rret_def rerr_def unmap_i64_def
      split: encoding.splits dest!: rle_length read_for_length decode_delta_length decode_dod_length)

lemma those_length: "those (map f xs) = Some ys \<Longrightarrow> length ys = length xs"
  by (metis length_map those_Some_iff)

lemma decode_int_like_parts:
  "decode_int_like ty rows enc c = Inr (d, c') \<Longrightarrow> rows < 2 ^ 64 \<Longrightarrow> rep_ok d \<and> data_len d = rows"
  by (auto simp: decode_int_like_def rbind_eq_Inr_iff rret_def rerr_def case_option_Inr_iff
      split: data_type.splits dest!: decode_by_length those_length)

section \<open>Decoded columns are well formed\<close>

lemma cur_take_length: "cur_take n c = Inr (b, c') \<Longrightarrow> length b = n"
  by (auto simp: cur_take_def cur_remaining_def split: if_splits)

lemma read_arrays_parts:
  "read_arrays rows c = Inr (v, c') \<Longrightarrow> rows < 2 ^ 64 \<Longrightarrow> length v = rows \<and> (\<forall>u \<in> set v. length u = 16)"
  by (auto simp: read_arrays_def cur_raw_def dest: read_rows_length)
    (auto simp: read_rows_def rbind_eq_Inr_iff dest: read_n_all [where P = "\<lambda>u. length u = 16"] cur_take_length)

lemma read_offsets_length: "read_offsets_and_data rows c = Inr ((p, d), c') \<Longrightarrow> rows < 2 ^ 62 \<Longrightarrow> length p = rows + 1"
  by (auto simp: read_offsets_and_data_def rbind_eq_Inr_iff rret_def rerr_def split: if_splits dest: read_rows_length)

text \<open>
  One induction over the decoder's own recursion: what a chunk decodes to is a well-formed
  column of the type and row count asked for; what the values section decodes to is fit for
  \<open>from_parts\<close> and has that many rows.
\<close>

lemma decode_column_wf:
  "decode_column ty rows enc_id bytes = Inr col \<Longrightarrow> type_ok ty \<Longrightarrow>
     col_wf col \<and> col_ty col = ty \<and> col_len col = rows"
  and decode_values_parts:
  "decode_values ty rows enc validity c = Inr (d, c') \<Longrightarrow> type_ok ty \<Longrightarrow> rows \<le> MAX_DECODE_ROWS \<Longrightarrow>
     rep_ok d \<and> data_len d = rows"
  and plain_decode_parts:
  "plain_decode ty rows c = Inr (d, c') \<Longrightarrow> type_ok ty \<Longrightarrow> rows \<le> MAX_DECODE_ROWS \<Longrightarrow>
     rep_ok d \<and> data_len d = rows"
proof (induction ty rows enc_id bytes and ty rows enc validity and ty rows arbitrary: col and c d c' and c d c'
    rule: decode_column_decode_values_plain_decode.induct)
  case (1 ty rows enc_id bytes)
  then obtain enc validity c1 d c2 where rows: "rows \<le> MAX_DECODE_ROWS" and e: "encoding_from_id enc_id = Some enc" "applies_to enc ty"
    and v: "decode_validity rows (cur_new bytes) = Inr (validity, c1)" and d: "decode_values ty rows enc validity c1 = Inr (d, c2)"
    and fp: "from_parts ty d validity = Inr col"
    by (auto simp: decode_column.simps rbind_eq_Inr_iff rret_def case_sum_Inr_iff split: if_splits option.splits sum.splits prod.splits)
  have "rep_ok d \<and> data_len d = rows" using "1.IH" rows e d "1.prems"(2) by auto
  moreover have "validity_ok rows validity" by (rule decode_validity_ok [OF v])
  ultimately show ?case
    using from_parts_iff [of ty d validity col] "1.prems"(2) fp by (auto simp: validity_ok_def col_len_def split: option.splits)
next
  case (2 ty rows enc validity)
  have r64: "rows < 2 ^ 64" using "2.prems"(3) by (simp add: MAX_DECODE_ROWS_def)
  show ?case
  proof (cases enc)
    case EPlain
    then show ?thesis using 2 by (simp add: decode_values.simps)
  next
    case EDict
    then show ?thesis using "2.prems" r64
      by (cases ty) (auto simp: decode_values.simps decode_dict_def rbind_eq_Inr_iff rret_def rerr_def dest!: dict_decode_length)
  next
    case ERle
    then show ?thesis using "2.prems" r64 decode_int_like_parts [of ty rows enc c d c']
      by (auto simp: decode_values.simps rbind_eq_Inr_iff rret_def split: if_splits dest!: rle_bool_wf)
  next
    case EXor
    then show ?thesis using "2.prems" r64
      by (auto simp: decode_values.simps rbind_eq_Inr_iff rret_def dest!: xor_decode_length)
  qed (use "2.prems" r64 decode_int_like_parts [of ty rows enc c d c'] in \<open>auto simp: decode_values.simps\<close>)
next
  case (3 rows)
  then show ?case by (auto simp: rbind_eq_Inr_iff rret_def dest!: read_words_wf)
next
  case (14 elem rows)
  have r64: "rows + 1 < 2 ^ 64" using "14.prems"(3) by (simp add: MAX_DECODE_ROWS_def)
  from "14.prems"(1) obtain offsets c1 child_id c2 child_bytes c3 ch where
    p: "read_rows 4 cur_u32 (rows + 1) c = Inr (offsets, c1)"
    and ch: "decode_column elem (unat (last offsets)) child_id child_bytes = Inr ch" and d: "d = CList offsets ch" "offsets \<noteq> []"
    by (auto simp: rbind_eq_Inr_iff rret_def rerr_def lift_result_def case_sum_Inr_iff split: if_splits)
  have "col_wf ch" using "14.IH" ch "14.prems"(2) d(2) by auto
  then show ?case using read_rows_length [OF p r64] d by simp
qed (auto simp: rbind_eq_Inr_iff rret_def read_i64s_def MAX_DECODE_ROWS_def
    dest!: read_rows_length read_arrays_parts read_offsets_length)

section \<open>What the limits refuse\<close>

text \<open>
  The writer's only check on a row group is its byte size. The decoder bounds the child of
  a LIST by \<open>MAX_DECODE_ROWS\<close> as well, and counts offsets, one more than rows, against the
  row limit.
\<close>

lemma validity_then:
  assumes "validity_ok rows v" "rows \<le> MAX_DECODE_ROWS" "bytes = encode_validity v [] @ p"
  shows "decode_validity rows (cur_new bytes) = Inr (v, cur_advance (length (encode_validity v [])) (cur_new bytes))"
    and "cursor_at (cur_advance (length (encode_validity v [])) (cur_new bytes)) p"
proof -
  have at: "cursor_at (cur_new bytes) (encode_validity v [] @ p)" by (simp add: assms(3))
  show "decode_validity rows (cur_new bytes) = Inr (v, cur_advance (length (encode_validity v [])) (cur_new bytes))"
    using validity_codec.dec_enc [OF _ at] assms by blast
  show "cursor_at (cur_advance (length (encode_validity v [])) (cur_new bytes)) p"
    by (rule cursor_at_advance [OF at])
qed

lemma list_child_refused:
  assumes wf: "col_wf (Column (TList elem) (CList offsets ch) v nulls)"
    and rows: "length offsets \<le> MAX_DECODE_ROWS" and big: "col_len ch > MAX_DECODE_ROWS"
    and enc: "encode_with (Column (TList elem) (CList offsets ch) v nulls) EPlain = Some bytes" "length bytes < 2 ^ 64"
  shows "decode_column (TList elem) (length offsets - 1) (encoding_id EPlain) bytes =
    Inl (Malformed ''row count exceeds MAX_DECODE_ROWS'')"
proof -
  have ofs: "offsets_wf offsets (col_len ch)" "validity_ok (length offsets - 1) v" and el: "elem = col_ty ch"
    using wf by simp_all
  then have ne: "offsets \<noteq> []" "unat (last offsets) = col_len ch" by (simp_all add: offsets_wf_def)
  then have n: "length offsets - 1 + 1 = length offsets" by (cases offsets) simp_all
  obtain e chunk where "encode_child ch = Some (e, chunk)"
    and b: "bytes = sink_bytes chunk (sink_uvarint (encoding_id e) (fold sink_u32 offsets (encode_validity v [])))"
    using enc(1) by (auto simp: encode_with_def encode_with_at_def encode_values_def sink_new_def)
  let ?p = "fold sink_u32 offsets [] @ sink_uvarint (encoding_id e) [] @ sink_bytes chunk []"
  have b: "bytes = encode_validity v [] @ ?p"
    unfolding b by (subst sink_bytes_append, subst sink_uvarint_append, subst u32_codec.fold_append) simp
  have chunk: "length chunk < 2 ^ 64" using enc(2) by (simp add: b sink_bytes_def sink_raw_def)
  note d = validity_then [OF ofs(2) _ b]
  let ?c = "cur_advance (length (encode_validity v [])) (cur_new bytes)"
  have at1: "cursor_at ?c (fold sink_u32 offsets [] @ sink_uvarint (encoding_id e) [] @ sink_bytes chunk [] @ [])"
    using d(2) rows by simp
  note at2 = cursor_at_advance [OF at1]
  note at3 = cursor_at_advance [OF at2]
  have "read_rows 4 cur_u32 (length offsets) ?c = Inr (offsets, cur_advance (length (fold sink_u32 offsets [])) ?c)"
    using rows at1 by (intro read_rows_fixed(1)) (simp_all add: sink_u32_def)
  moreover note uvarint_codec.dec_enc [OF _ at2] bytes_codec.dec_enc [OF chunk at3]
  moreover have "decode_column elem (col_len ch) i b = Inl (Malformed ''row count exceeds MAX_DECODE_ROWS'')" for i b
    using big by (simp add: decode_column.simps)
  ultimately have "plain_decode (TList elem) (length offsets - 1) ?c = Inl (Malformed ''row count exceeds MAX_DECODE_ROWS'')"
    using ne n by (simp add: rbind_def lift_result_def)
  then show ?thesis using d(1) rows
    by (subst decode_column.simps) (simp add: encoding_from_id_def rbind_def decode_values.simps)
qed

section \<open>Property of the chunk decoder\<close>

text \<open>
  C2. Whatever bytes, encoding id and row count a reader is handed, \<open>decode_column\<close> refuses
  them or returns a well-formed column of the asked type and row count, of which every row
  can be read.
\<close>

theorem decode_column_safe:
  assumes "decode_column ty rows enc_id bytes = Inr col" "type_ok ty"
  shows "col_wf col \<and> col_ty col = ty \<and> col_len col = rows \<and> (\<forall>i < rows. \<exists>v. col_get col i = Some v)"
  using decode_column_wf [OF assms] col_get_typed by blast

theorem decode_column_safe_witness:
  "\<exists>col. decode_column TInt64 1 0 [0, 5, 0, 0, 0, 0, 0, 0, 0] = Inr col \<and> col_wf col \<and> col_len col = 1"
proof -
  let ?col = "Column TInt64 (CInt64 [5]) None 0"
  have b: "encode_with_at encode_child ?col EPlain = Some [0, 5, 0, 0, 0, 0, 0, 0, 0]" by code_simp
  have "decode_column (col_ty ?col) (col_len ?col) (encoding_id EPlain) [0, 5, 0, 0, 0, 0, 0, 0, 0] = Inr ?col"
    by (rule encode_with_at_roundtrip [OF _ _ _ b _ child_ok_encode_child])
      (simp_all add: validity_ok_def MAX_DECODE_ROWS_def)
  then have d: "decode_column TInt64 1 0 [0, 5, 0, 0, 0, 0, 0, 0, 0] = Inr ?col" by (simp add: col_len_def)
  show ?thesis using decode_column_safe [OF d] d by simp
qed

end
