(* ===== verification/Segment_File.thy ===== *)
theory Segment_File
  imports Segment_Footer Decode_Safe Column_Concat
begin

text \<open>
  Segment files (\<open>src/storage/segment/writer.rs\<close>, \<open>reader.rs\<close>): the writer that gathers
  batches into row groups, encodes their columns, builds skip indexes and closes the file with
  its footer, and the reader that opens such a file. The output is the list of bytes written
  so far; failures of the operating system are not modelled. \<open>byte_size\<close>, the memory a column
  holds, depends on the allocator's capacities and is an argument. An outcome \<open>None\<close> is a
  panic; the name of the segment, which every error carries, is left out.
\<close>

section \<open>Errors\<close>

datatype seg_error =
    SegBadMagic
  | SegVersion "16 word"
  | SegTruncated
  | SegCorruptFooter
  | CorruptChunk rstr nat
  | CorruptIndex rstr index_kind
  | SegUnknownTypeId rstr u64
  | SegUnknownEncoding rstr u64
  | SegMalformed "rstr option" string
  | IdxMismatch
  | SegUsage string

definition or_question :: "rstr option \<Rightarrow> rstr" where
  "or_question column = (case column of None \<Rightarrow> [63] | Some c \<Rightarrow> c)"

fun err_at :: "decode_error \<Rightarrow> rstr option \<Rightarrow> seg_error" where
  "err_at (UnknownTypeId i) column = SegUnknownTypeId (or_question column) i"
| "err_at (UnknownEncoding i) column = SegUnknownEncoding (or_question column) i"
| "err_at Truncated column = SegMalformed column ''truncated''"
| "err_at (Malformed detail) column = SegMalformed column detail"

fun seg_trailer_err :: "trailer_error \<Rightarrow> seg_error" where
  "seg_trailer_err BadMagic = SegBadMagic"
| "seg_trailer_err (TrailerVersion v) = SegVersion v"
| "seg_trailer_err TrailerTruncated = SegTruncated"
| "seg_trailer_err CorruptFooter = SegCorruptFooter"

definition SEGMENT_MAGIC :: "byte list" where
  "SEGMENT_MAGIC = [65, 68, 76, 83, 69, 71]"

definition SEG_HEADER_LEN :: nat where
  "SEG_HEADER_LEN = 8"

section \<open>The writer\<close>

record writer_options =
  wo_row_group_rows :: nat
  wo_pins :: "(rstr \<times> encoding) list"
  wo_indexes :: "(rstr \<times> index_kind) list"

record seg_meta =
  mt_rows :: nat
  mt_row_groups :: nat
  mt_bytes :: nat
  mt_footer_crc :: u32
  mt_columns :: "column_stats list"

record stats_acc =
  sa_rows :: nat
  sa_null_count :: nat
  sa_min :: "val option"
  sa_max :: "val option"
  sa_max_dropped :: bool

definition stats_acc_new :: stats_acc where
  "stats_acc_new = \<lparr>sa_rows = 0, sa_null_count = 0, sa_min = None, sa_max = None, sa_max_dropped = False\<rparr>"

definition better :: "ordering \<Rightarrow> val \<Rightarrow> val option \<Rightarrow> bool" where
  "better side v old = (case old of None \<Rightarrow> True | Some m \<Rightarrow> total_cmp v m = Some side)"

definition stats_acc_merge :: "stats_acc \<Rightarrow> column_stats \<Rightarrow> val option \<Rightarrow> val option \<Rightarrow> stats_acc" where
  "stats_acc_merge acc st mn mx =
     (let acc = acc\<lparr>sa_rows := sa_rows acc + st_rows st, sa_null_count := sa_null_count acc + st_null_count st\<rparr>
      in if st_rows st \<le> st_null_count st then acc
         else
           let acc = (case mn of Some v \<Rightarrow> if better Less v (sa_min acc) then acc\<lparr>sa_min := Some v\<rparr> else acc | None \<Rightarrow> acc)
           in if sa_max_dropped acc then acc
              else (case mx of
                      Some v \<Rightarrow> if better Greater v (sa_max acc) then acc\<lparr>sa_max := Some v\<rparr> else acc
                    | None \<Rightarrow> acc\<lparr>sa_max_dropped := True\<rparr>))"

definition stats_acc_finish :: "stats_acc \<Rightarrow> column_stats" where
  "stats_acc_finish acc = \<lparr>st_rows = sa_rows acc, st_null_count = sa_null_count acc, st_min = sa_min acc,
     st_max = (if sa_max_dropped acc then None else sa_max acc)\<rparr>"

record seg_writer =
  sw_out :: "byte list"
  sw_pos :: nat
  sw_fields :: "field list"
  sw_row_group_rows :: nat
  sw_pending :: "column list list"
  sw_pending_rows :: nat
  sw_row_groups :: "raw_row_group list"
  sw_indexes :: "raw_index_entry list"
  sw_stats :: "stats_acc list"
  sw_pins :: "encoding option list"
  sw_index_reqs :: "(nat \<times> index_kind) list"

fun field_position :: "rstr \<Rightarrow> field list \<Rightarrow> nat option" where
  "field_position name [] = None"
| "field_position name (f # fs) = (if fd_name f = name then Some 0 else map_option Suc (field_position name fs))"

fun resolve_pins :: "field list \<Rightarrow> (rstr \<times> encoding) list \<Rightarrow> encoding option list \<Rightarrow> seg_error + encoding option list" where
  "resolve_pins fs [] resolved = Inr resolved"
| "resolve_pins fs ((name, enc) # pins) resolved =
     (case field_position name fs of
        None \<Rightarrow> Inl (SegUsage ''pin names unknown column'')
      | Some i \<Rightarrow>
          if \<not> applies_to enc (fd_ty (fs ! i)) then Inl (SegUsage ''pin encoding does not apply to column'')
          else resolve_pins fs pins (resolved[i := Some enc]))"

fun resolve_indexes :: "field list \<Rightarrow> (rstr \<times> index_kind) list \<Rightarrow> seg_error + (nat \<times> index_kind) list" where
  "resolve_indexes fs [] = Inr []"
| "resolve_indexes fs ((name, kind) # reqs) =
     (case field_position name fs of
        None \<Rightarrow> Inl (SegUsage ''index names unknown column'')
      | Some i \<Rightarrow>
          if \<not> index_applies_to kind (fd_ty (fs ! i)) then Inl (SegUsage ''index kind does not apply to column'')
          else map_sum id (Cons (i, kind)) (resolve_indexes fs reqs))"

definition seg_header :: "byte list \<Rightarrow> byte list" where
  "seg_header magic = magic @ to_le_bytes FORMAT_VERSION"

definition writer_new :: "field list \<Rightarrow> writer_options \<Rightarrow> seg_error + seg_writer" where
  "writer_new fs opts =
     (if wo_row_group_rows opts = 0 \<or> wo_row_group_rows opts > MAX_DECODE_ROWS then Inl (SegUsage ''row_group_rows out of range'')
      else if \<not> distinct (map fd_name fs) then Inl (SegUsage ''duplicate field name'')
      else case resolve_pins fs (wo_pins opts) (map (\<lambda>_. None) fs) of
             Inl e \<Rightarrow> Inl e
           | Inr pins \<Rightarrow>
               (case resolve_indexes fs (wo_indexes opts) of
                  Inl e \<Rightarrow> Inl e
                | Inr reqs \<Rightarrow>
                    Inr \<lparr>sw_out = seg_header SEGMENT_MAGIC, sw_pos = SEG_HEADER_LEN, sw_fields = fs,
                      sw_row_group_rows = wo_row_group_rows opts, sw_pending = map (\<lambda>_. []) fs, sw_pending_rows = 0,
                      sw_row_groups = [], sw_indexes = [], sw_stats = map (\<lambda>_. stats_acc_new) fs, sw_pins = pins,
                      sw_index_reqs = reqs\<rparr>))"

text \<open>One column of \<open>flush\<close>: its chunk, and the concatenated column kept for the indexes.\<close>

definition flush_column :: "(column \<Rightarrow> nat) \<Rightarrow> nat \<Rightarrow> seg_writer \<times> raw_chunk list \<times> column list \<Rightarrow>
    (seg_error + seg_writer \<times> raw_chunk list \<times> column list) option" where
  "flush_column byte_size i st =
     (case st of (w, chunks, cols) \<Rightarrow>
        ebind (expect (nth_opt (sw_fields w) i)) (\<lambda>field.
        ebind (expect (nth_opt (sw_pending w) i)) (\<lambda>parts.
        case col_concat (fd_ty field) parts of
          Inl e \<Rightarrow> efail (SegUsage ''column cannot be concatenated'')
        | Inr col \<Rightarrow>
            if byte_size col > MAX_DECODE_BYTES then efail (SegUsage ''row group over the chunk cap'')
            else
              ebind (expect (nth_opt (sw_pins w) i)) (\<lambda>pin.
              ebind (expect (encode_column col pin)) (\<lambda>(enc, bytes).
              ebind (expect (col_stats col)) (\<lambda>rg_stats.
              ebind (expect (nth_opt (sw_stats w) i)) (\<lambda>acc.
              let (mn, mx) = bound_stats rg_stats;
                  chunk = \<lparr>rc_offset = sw_pos w, rc_len = length bytes, rc_crc = crc32c bytes, rc_encoding = encoding_id enc,
                    rc_null_count = st_null_count rg_stats, rc_min = mn, rc_max = mx\<rparr>
              in eret (w\<lparr>sw_pending := (sw_pending w)[i := []], sw_out := sw_out w @ bytes, sw_pos := sw_pos w + length bytes,
                         sw_stats := (sw_stats w)[i := stats_acc_merge acc rg_stats mn mx]\<rparr>,
                       chunks @ [chunk], cols @ [col]))))))))"

definition flush_index :: "nat \<Rightarrow> column list \<Rightarrow> nat \<times> index_kind \<Rightarrow> seg_writer \<Rightarrow> (seg_error + seg_writer) option" where
  "flush_index row_group_idx cols req w =
     (case req of (ordinal, kind) \<Rightarrow>
        ebind (expect (nth_opt cols ordinal)) (\<lambda>col.
        ebind (expect (index_build kind col)) (\<lambda>built.
        case built of
          None \<Rightarrow> eret w
        | Some blob \<Rightarrow>
            eret (w\<lparr>sw_out := sw_out w @ blob, sw_pos := sw_pos w + length blob,
                    sw_indexes := sw_indexes w @ [\<lparr>ri_kind = index_kind_id kind, ri_row_group = Some row_group_idx,
                      ri_columns = [ordinal], ri_offset = sw_pos w, ri_len = length blob, ri_crc = crc32c blob,
                      ri_params = []\<rparr>]\<rparr>))))"

fun for_each :: "('a \<Rightarrow> 's \<Rightarrow> ('e + 's) option) \<Rightarrow> 'a list \<Rightarrow> 's \<Rightarrow> ('e + 's) option" where
  "for_each f [] s = eret s"
| "for_each f (x # xs) s = ebind (f x s) (for_each f xs)"

definition writer_flush :: "(column \<Rightarrow> nat) \<Rightarrow> seg_writer \<Rightarrow> (seg_error + seg_writer) option" where
  "writer_flush byte_size w =
     (if sw_pending_rows w = 0 then eret w
      else
        ebind (for_each (flush_column byte_size) [0..<length (sw_fields w)] (w, [], [])) (\<lambda>(w1, chunks, cols).
        ebind (for_each (flush_index (length (sw_row_groups w)) cols) (sw_index_reqs w) w1) (\<lambda>w2.
        eret (w2\<lparr>sw_row_groups := sw_row_groups w2 @ [\<lparr>rg_rows = sw_pending_rows w, rg_chunks = chunks\<rparr>],
                 sw_pending_rows := 0\<rparr>))))"

definition writer_push :: "(column \<Rightarrow> nat) \<Rightarrow> batch \<Rightarrow> seg_writer \<Rightarrow> (seg_error + seg_writer) option" where
  "writer_push byte_size batch w =
     (if bt_fields batch \<noteq> sw_fields w then efail (SegUsage ''batch fields do not match writer fields'')
      else if bt_rows batch = 0 then eret w
      else if length (bt_columns batch) > length (sw_pending w) then None
      else
        let w = w\<lparr>sw_pending := map (\<lambda>(i, p). p @ (case nth_opt (bt_columns batch) i of None \<Rightarrow> [] | Some c \<Rightarrow> [c]))
                    (enumerate 0 (sw_pending w)),
                  sw_pending_rows := sw_pending_rows w + bt_rows batch\<rparr>
        in if sw_pending_rows w \<ge> sw_row_group_rows w then writer_flush byte_size w else eret w)"

definition writer_finish :: "(column \<Rightarrow> nat) \<Rightarrow> seg_writer \<Rightarrow> (seg_error + byte list \<times> seg_meta) option" where
  "writer_finish byte_size w =
     ebind (writer_flush byte_size w) (\<lambda>w.
     ebind (expect (encode_footer \<lparr>ft_fields = sw_fields w, ft_row_groups = sw_row_groups w, ft_indexes = sw_indexes w\<rparr> sink_new))
       (\<lambda>footer_bytes.
        let framed = write_trailer [] SEGMENT_MAGIC footer_bytes
        in eret (sw_out w @ framed,
             \<lparr>mt_rows = sum_list (map rg_rows (sw_row_groups w)), mt_row_groups = length (sw_row_groups w),
              mt_bytes = sw_pos w + length framed, mt_footer_crc = crc32c footer_bytes,
              mt_columns = map stats_acc_finish (sw_stats w)\<rparr>)))"

definition writer_rows :: "seg_writer \<Rightarrow> nat" where
  "writer_rows w = sum_list (map rg_rows (sw_row_groups w)) + sw_pending_rows w"

text \<open>A whole file: open, push every batch, finish.\<close>

definition write_segment :: "(column \<Rightarrow> nat) \<Rightarrow> field list \<Rightarrow> writer_options \<Rightarrow> batch list \<Rightarrow>
    (seg_error + byte list \<times> seg_meta) option" where
  "write_segment byte_size fs opts batches =
     ebind (Some (writer_new fs opts)) (\<lambda>w.
     ebind (for_each (writer_push byte_size) batches w) (writer_finish byte_size))"

section \<open>The reader\<close>

record chunk_meta =
  cm_encoding :: encoding
  cm_len :: nat
  cm_null_count :: nat
  cm_min :: "val option"
  cm_max :: "val option"

record row_group_meta =
  rm_rows :: nat
  rm_chunks :: "chunk_meta list"

record index_entry =
  ie_kind :: index_kind
  ie_row_group :: "nat option"
  ie_columns :: "nat list"
  ie_offset :: nat
  ie_len :: nat
  ie_crc :: u32

record seg_reader =
  sr_bytes :: "byte list"
  sr_fields :: "field list"
  sr_row_groups :: "row_group_meta list"
  sr_chunk_ranges :: "(nat \<times> nat \<times> u32) list list"
  sr_indexes :: "index_entry list"
  sr_footer_crc :: u32

definition check_header :: "byte list \<Rightarrow> byte list \<Rightarrow> seg_error + unit" where
  "check_header buf magic =
     (if take 6 buf \<noteq> magic then Inl SegBadMagic
      else let version = from_le_bytes (take 2 (drop 6 buf)) :: 16 word
           in if version > FORMAT_VERSION then Inl (SegVersion version) else Inr ())"

text \<open>\<open>checked_add\<close> and the bounds of a range inside the body.\<close>

definition range_ok :: "nat \<Rightarrow> nat \<Rightarrow> nat \<Rightarrow> nat \<Rightarrow> bool" where
  "range_ok lo hi offset len \<longleftrightarrow> offset + len < 2 ^ 64 \<and> lo \<le> offset \<and> offset + len \<le> hi"

fun open_chunks :: "nat \<Rightarrow> (raw_chunk \<times> field) list \<Rightarrow> seg_error + (chunk_meta \<times> nat \<times> nat \<times> u32) list" where
  "open_chunks footer_start [] = Inr []"
| "open_chunks footer_start ((chunk, field) # rest) =
     (case encoding_from_id (rc_encoding chunk) of
        None \<Rightarrow> Inl (SegUnknownEncoding (fd_name field) (rc_encoding chunk))
      | Some encoding \<Rightarrow>
          if \<not> applies_to encoding (fd_ty field) then Inl (SegMalformed (Some (fd_name field)) ''encoding does not apply to column type'')
          else if \<not> range_ok SEG_HEADER_LEN footer_start (rc_offset chunk) (rc_len chunk)
          then Inl (SegMalformed (Some (fd_name field)) ''chunk range out of bounds'')
          else map_sum id (Cons (\<lparr>cm_encoding = encoding, cm_len = rc_len chunk, cm_null_count = rc_null_count chunk,
                 cm_min = rc_min chunk, cm_max = rc_max chunk\<rparr>, rc_offset chunk, rc_len chunk, rc_crc chunk))
                 (open_chunks footer_start rest))"

fun open_row_groups :: "nat \<Rightarrow> field list \<Rightarrow> raw_row_group list \<Rightarrow> seg_error + (row_group_meta \<times> (nat \<times> nat \<times> u32) list) list" where
  "open_row_groups footer_start fs [] = Inr []"
| "open_row_groups footer_start fs (rg # rgs) =
     (if rg_rows rg > MAX_DECODE_ROWS then Inl (SegMalformed None ''row group rows exceeds MAX_DECODE_ROWS'')
      else case open_chunks footer_start (zip (rg_chunks rg) fs) of
             Inl e \<Rightarrow> Inl e
           | Inr cs \<Rightarrow> map_sum id (Cons (\<lparr>rm_rows = rg_rows rg, rm_chunks = map fst cs\<rparr>, map snd cs))
                        (open_row_groups footer_start fs rgs))"

fun entry_columns_ok :: "index_kind \<Rightarrow> field list \<Rightarrow> nat list \<Rightarrow> seg_error + unit" where
  "entry_columns_ok kind fs [] = Inr ()"
| "entry_columns_ok kind fs (c # cs) =
     (case nth_opt fs c of
        None \<Rightarrow> Inl (SegMalformed None ''index entry column out of range'')
      | Some f \<Rightarrow> if \<not> index_applies_to kind (fd_ty f) then Inl (SegMalformed None ''index kind does not apply to column type'')
                  else entry_columns_ok kind fs cs)"

fun resolve_entries :: "field list \<Rightarrow> nat \<Rightarrow> nat \<Rightarrow> nat \<Rightarrow> raw_index_entry list \<Rightarrow> seg_error + index_entry list" where
  "resolve_entries fs row_groups lo hi [] = Inr []"
| "resolve_entries fs row_groups lo hi (e # es) =
     (case index_kind_from_id (ri_kind e) of
        None \<Rightarrow> resolve_entries fs row_groups lo hi es
      | Some kind \<Rightarrow>
          if (case ri_row_group e of None \<Rightarrow> False | Some rg \<Rightarrow> rg \<ge> row_groups)
          then Inl (SegMalformed None ''index entry row group out of range'')
          else if ri_columns e = [] then Inl (SegMalformed None ''index entry has no columns'')
          else case entry_columns_ok kind fs (ri_columns e) of
                 Inl err \<Rightarrow> Inl err
               | Inr _ \<Rightarrow>
                   if \<not> range_ok lo hi (ri_offset e) (ri_len e) then Inl (SegMalformed None ''index entry range out of bounds'')
                   else map_sum id (Cons \<lparr>ie_kind = kind, ie_row_group = ri_row_group e, ie_columns = ri_columns e,
                          ie_offset = ri_offset e, ie_len = ri_len e, ie_crc = ri_crc e\<rparr>)
                          (resolve_entries fs row_groups lo hi es))"

definition reader_open :: "byte list \<Rightarrow> seg_error + seg_reader" where
  "reader_open buf =
     (case read_trailer buf SEGMENT_MAGIC SEG_HEADER_LEN of
        Inl e \<Rightarrow> Inl (seg_trailer_err e)
      | Inr (footer_start, footer_end) \<Rightarrow>
          sbind (check_header buf SEGMENT_MAGIC) (\<lambda>_.
          let footer_bytes = take (footer_end - footer_start) (drop footer_start buf)
          in case decode_footer footer_bytes of
               Inl (Located err column) \<Rightarrow> Inl (err_at err column)
             | Inr footer \<Rightarrow>
                 sbind (open_row_groups footer_start (ft_fields footer) (ft_row_groups footer)) (\<lambda>rgs.
                 sbind (resolve_entries (ft_fields footer) (length rgs) SEG_HEADER_LEN footer_start (ft_indexes footer)) (\<lambda>indexes.
                   Inr \<lparr>sr_bytes = buf, sr_fields = ft_fields footer, sr_row_groups = map fst rgs, sr_chunk_ranges = map snd rgs,
                     sr_indexes = indexes, sr_footer_crc = crc32c footer_bytes\<rparr>))))"

definition reader_rows :: "seg_reader \<Rightarrow> nat" where
  "reader_rows r = sum_list (map rm_rows (sr_row_groups r))"

text \<open>The outer option is a panic: an index or a slice out of range.\<close>

definition read_column :: "seg_reader \<Rightarrow> nat \<Rightarrow> nat \<Rightarrow> (seg_error + column) option" where
  "read_column r row_group column =
     (case nth_opt (sr_row_groups r) row_group of
        None \<Rightarrow> efail (SegUsage ''row group out of range'')
      | Some rg \<Rightarrow>
          (case Option.bind (nth_opt (sr_chunk_ranges r) row_group) (\<lambda>ranges. nth_opt ranges column) of
             None \<Rightarrow> efail (SegUsage ''column out of range'')
           | Some (offset, len, crc) \<Rightarrow>
               ebind (expect (slice_opt (sr_bytes r) offset (offset + len))) (\<lambda>bytes.
               ebind (expect (nth_opt (sr_fields r) column)) (\<lambda>field.
               if crc32c bytes \<noteq> crc then efail (CorruptChunk (fd_name field) row_group)
               else
                 ebind (expect (nth_opt (rm_chunks rg) column)) (\<lambda>cm.
                 case decode_column (fd_ty field) (rm_rows rg) (encoding_id (cm_encoding cm)) bytes of
                   Inl e \<Rightarrow> efail (err_at e (Some (fd_name field)))
                 | Inr col \<Rightarrow>
                     if col_len col \<noteq> rm_rows rg
                     then efail (SegMalformed (Some (fd_name field)) ''decoded length does not match row group rows'')
                     else eret col)))))"

fun read_columns :: "seg_reader \<Rightarrow> nat \<Rightarrow> nat list \<Rightarrow> (seg_error + (field \<times> column) list) option" where
  "read_columns r row_group [] = eret []"
| "read_columns r row_group (column # rest) =
     ebind (read_column r row_group column) (\<lambda>col.
     ebind (expect (nth_opt (sr_fields r) column)) (\<lambda>field.
     ebind (read_columns r row_group rest) (\<lambda>fcs. eret ((field, col) # fcs))))"

definition read_row_group :: "seg_reader \<Rightarrow> nat \<Rightarrow> nat list \<Rightarrow> (seg_error + batch) option" where
  "read_row_group r row_group projection =
     ebind (read_columns r row_group projection) (\<lambda>fcs.
     case batch_new (map fst fcs) (map snd fcs) of
       Inl e \<Rightarrow> efail (SegUsage ''bad projection'')
     | Inr b \<Rightarrow> eret b)"

definition load_entry :: "byte list \<Rightarrow> index_entry \<Rightarrow> field list \<Rightarrow> (seg_error + skip_index) option" where
  "load_entry bytes entry fs =
     ebind (expect (Option.bind (nth_opt (ie_columns entry) 0) (nth_opt fs))) (\<lambda>field.
     ebind (expect (slice_opt bytes (ie_offset entry) (ie_offset entry + ie_len entry))) (\<lambda>blob.
     if crc32c blob \<noteq> ie_crc entry then efail (CorruptIndex (fd_name field) (ie_kind entry))
     else case index_load (ie_kind entry) (fd_ty field) blob of
            Inl e \<Rightarrow> efail (err_at e (Some (fd_name field)))
          | Inr idx \<Rightarrow> eret idx))"

definition load_index :: "seg_reader \<Rightarrow> index_entry \<Rightarrow> (seg_error + skip_index) option" where
  "load_index r entry = load_entry (sr_bytes r) entry (sr_fields r)"

section \<open>What the writer has written\<close>

lemma for_each_append: "for_each f (xs @ ys) s = ebind (for_each f xs s) (for_each f ys)"
proof (induction xs arbitrary: s)
  case (Cons x xs)
  then show ?case by (cases "f x s") (auto simp: ebind_def split: sum.splits)
qed simp

lemma slice_opt_append: "slice_opt out a b = Some x \<Longrightarrow> slice_opt (out @ rest) a b = Some x"
  by (auto simp: slice_opt_def split: if_splits)

lemma slice_opt_last: "slice_opt (out @ x) (length out) (length out + length x) = Some x"
  by (simp add: slice_opt_def)

definition chunk_at :: "byte list \<Rightarrow> raw_chunk \<Rightarrow> column \<Rightarrow> bool" where
  "chunk_at out ch col \<longleftrightarrow> (\<exists>pin enc bytes st. encode_column col pin = Some (enc, bytes) \<and> col_stats col = Some st \<and>
     rc_len ch = length bytes \<and> SEG_HEADER_LEN \<le> rc_offset ch \<and>
     slice_opt out (rc_offset ch) (rc_offset ch + rc_len ch) = Some bytes \<and> rc_crc ch = crc32c bytes \<and>
     rc_encoding ch = encoding_id enc \<and> rc_null_count ch = st_null_count st \<and> (rc_min ch, rc_max ch) = bound_stats st)"

lemma chunk_at_append: "chunk_at out ch col \<Longrightarrow> chunk_at (out @ rest) ch col"
  unfolding chunk_at_def using slice_opt_append by blast

text \<open>The statistics of a column merged into those of its segment.\<close>

definition acc_column :: "column \<Rightarrow> stats_acc \<Rightarrow> stats_acc" where
  "acc_column col acc = (case col_stats col of None \<Rightarrow> acc
     | Some st \<Rightarrow> stats_acc_merge acc st (fst (bound_stats st)) (snd (bound_stats st)))"

definition same_frame :: "seg_writer \<Rightarrow> seg_writer \<Rightarrow> bool" where
  "same_frame w w1 \<longleftrightarrow> sw_fields w1 = sw_fields w \<and> sw_row_group_rows w1 = sw_row_group_rows w \<and> sw_row_groups w1 = sw_row_groups w \<and>
     sw_pins w1 = sw_pins w \<and> sw_index_reqs w1 = sw_index_reqs w"

definition flushed :: "(column \<Rightarrow> nat) \<Rightarrow> seg_writer \<Rightarrow> nat \<Rightarrow> seg_writer \<times> raw_chunk list \<times> column list \<Rightarrow> bool" where
  "flushed byte_size w k st \<longleftrightarrow> (case st of (w1, chunks, cols) \<Rightarrow>
     same_frame w w1 \<and> sw_indexes w1 = sw_indexes w \<and> length chunks = k \<and> length cols = k \<and>
     (\<exists>b. sw_out w1 = sw_out w @ b \<and> sw_pos w1 = sw_pos w + length b) \<and>
     (\<forall>i < k. chunk_at (sw_out w1) (chunks ! i) (cols ! i) \<and> byte_size (cols ! i) \<le> MAX_DECODE_BYTES \<and>
        col_concat (fd_ty (sw_fields w ! i)) (sw_pending w ! i) = Inr (cols ! i)) \<and>
     length (sw_pending w1) = length (sw_pending w) \<and> (\<forall>i < length (sw_pending w). sw_pending w1 ! i = (if i < k then [] else sw_pending w ! i)) \<and>
     length (sw_stats w1) = length (sw_stats w) \<and>
     (\<forall>i < length (sw_stats w). sw_stats w1 ! i = (if i < k then acc_column (cols ! i) (sw_stats w ! i) else sw_stats w ! i)))"

lemma flush_column_step:
  assumes st: "flushed byte_size w k st" and f: "flush_column byte_size k st = Some (Inr st')"
    and pos: "sw_pos w = length (sw_out w)" "SEG_HEADER_LEN \<le> sw_pos w"
  shows "flushed byte_size w (Suc k) st'"
proof -
  obtain w1 chunks cols where s: "st = (w1, chunks, cols)" by (cases st)
  from st s obtain b where fr: "same_frame w w1" "sw_indexes w1 = sw_indexes w" "length chunks = k" "length cols = k"
    "sw_out w1 = sw_out w @ b" "sw_pos w1 = sw_pos w + length b"
    and old: "\<And>i. i < k \<Longrightarrow> chunk_at (sw_out w1) (chunks ! i) (cols ! i) \<and> byte_size (cols ! i) \<le> MAX_DECODE_BYTES \<and>
        col_concat (fd_ty (sw_fields w ! i)) (sw_pending w ! i) = Inr (cols ! i)"
    and pend: "length (sw_pending w1) = length (sw_pending w)"
      "\<And>i. i < length (sw_pending w) \<Longrightarrow> sw_pending w1 ! i = (if i < k then [] else sw_pending w ! i)"
    and stats: "length (sw_stats w1) = length (sw_stats w)"
      "\<And>i. i < length (sw_stats w) \<Longrightarrow> sw_stats w1 ! i = (if i < k then acc_column (cols ! i) (sw_stats w ! i) else sw_stats w ! i)"
    by (auto simp: flushed_def)
  from f s obtain field parts col pin enc bytes st1 acc where
    p: "nth_opt (sw_fields w1) k = Some field" "nth_opt (sw_pending w1) k = Some parts" "col_concat (fd_ty field) parts = Inr col"
    "\<not> byte_size col > MAX_DECODE_BYTES" "nth_opt (sw_pins w1) k = Some pin" "encode_column col pin = Some (enc, bytes)"
    "col_stats col = Some st1" "nth_opt (sw_stats w1) k = Some acc"
    and st': "st' = (w1\<lparr>sw_pending := (sw_pending w1)[k := []], sw_out := sw_out w1 @ bytes, sw_pos := sw_pos w1 + length bytes,
          sw_stats := (sw_stats w1)[k := stats_acc_merge acc st1 (fst (bound_stats st1)) (snd (bound_stats st1))]\<rparr>,
        chunks @ [\<lparr>rc_offset = sw_pos w1, rc_len = length bytes, rc_crc = crc32c bytes, rc_encoding = encoding_id enc,
          rc_null_count = st_null_count st1, rc_min = fst (bound_stats st1), rc_max = snd (bound_stats st1)\<rparr>], cols @ [col])"
  proof -
    from f s obtain field parts where p: "nth_opt (sw_fields w1) k = Some field" "nth_opt (sw_pending w1) k = Some parts"
      and rest: "(case col_concat (fd_ty field) parts of Inl e \<Rightarrow> efail (SegUsage ''column cannot be concatenated'') | Inr col \<Rightarrow>
        if byte_size col > MAX_DECODE_BYTES then efail (SegUsage ''row group over the chunk cap'')
        else ebind (expect (nth_opt (sw_pins w1) k)) (\<lambda>pin. ebind (expect (encode_column col pin)) (\<lambda>(enc, bytes).
          ebind (expect (col_stats col)) (\<lambda>rg_stats. ebind (expect (nth_opt (sw_stats w1) k)) (\<lambda>acc.
            let (mn, mx) = bound_stats rg_stats;
                chunk = \<lparr>rc_offset = sw_pos w1, rc_len = length bytes, rc_crc = crc32c bytes, rc_encoding = encoding_id enc,
                  rc_null_count = st_null_count rg_stats, rc_min = mn, rc_max = mx\<rparr>
            in eret (w1\<lparr>sw_pending := (sw_pending w1)[k := []], sw_out := sw_out w1 @ bytes, sw_pos := sw_pos w1 + length bytes,
                 sw_stats := (sw_stats w1)[k := stats_acc_merge acc rg_stats mn mx]\<rparr>, chunks @ [chunk], cols @ [col])))))) = Some (Inr st')"
      by (auto simp: flush_column_def simp del: col_concat.simps)
    then obtain col where "col_concat (fd_ty field) parts = Inr col"
      by (cases "col_concat (fd_ty field) parts") (simp_all del: col_concat.simps)
    with rest p that show thesis by (auto simp: Let_def case_prod_unfold simp del: col_concat.simps split: if_splits)
  qed
  let ?ch = "\<lparr>rc_offset = sw_pos w1, rc_len = length bytes, rc_crc = crc32c bytes, rc_encoding = encoding_id enc,
          rc_null_count = st_null_count st1, rc_min = fst (bound_stats st1), rc_max = snd (bound_stats st1)\<rparr>"
  have at: "sw_pos w1 = length (sw_out w1)" "SEG_HEADER_LEN \<le> sw_pos w1" using fr(5,6) pos by simp_all
  have "chunk_at (sw_out w1 @ bytes) ?ch col"
    unfolding chunk_at_def using p(6,7) at slice_opt_last [of "sw_out w1" bytes] by auto
  moreover have "k < length (sw_pending w)" "parts = sw_pending w ! k" "field = sw_fields w ! k"
    using p(1,2) pend fr(1) by (auto simp: nth_opt_def same_frame_def split: if_splits)
  moreover have "k < length (sw_stats w)" "acc = sw_stats w ! k" using p(8) stats by (auto simp: nth_opt_def split: if_splits)
  moreover have "acc_column col acc = stats_acc_merge acc st1 (fst (bound_stats st1)) (snd (bound_stats st1))"
    using p(7) by (simp add: acc_column_def)
  moreover have "chunk_at (sw_out w @ b @ bytes) (chunks ! i) (cols ! i)" if "i < k" for i
    using chunk_at_append [of "sw_out w1" "chunks ! i" "cols ! i" bytes] old [OF that] fr(5) by simp
  ultimately show ?thesis unfolding st' flushed_def prod.case
    using fr old p(3,4) pend stats
    by (auto simp: same_frame_def nth_append less_Suc_eq nth_list_update simp del: col_concat.simps)
qed

lemma flush_columns_loop:
  assumes "for_each (flush_column byte_size) [0..<k] (w, [], []) = Some (Inr st)"
    "sw_pos w = length (sw_out w)" "SEG_HEADER_LEN \<le> sw_pos w"
  shows "flushed byte_size w k st"
  using assms(1)
proof (induction k arbitrary: st)
  case 0
  then show ?case by (auto simp: flushed_def same_frame_def)
next
  case (Suc k)
  then obtain st1 where "for_each (flush_column byte_size) [0..<k] (w, [], []) = Some (Inr st1)"
    "flush_column byte_size k st1 = Some (Inr st)" by (auto simp: for_each_append)
  then show ?case using Suc.IH flush_column_step assms(2,3) by blast
qed

end
