(* ===== verification/Segment_Write.thy ===== *)
theory Segment_Write
  imports Segment_File
begin

text \<open>
  The writer's invariant: what is written so far is the header followed by chunks and index
  blobs that the metadata locates, one row group for each group of batches, and what is
  pending are the batches not yet flushed.
\<close>

section \<open>Grouping\<close>

text \<open>The reference: whole batches are gathered until they hold enough rows.\<close>

definition group_rows :: "batch list \<Rightarrow> nat" where
  "group_rows bs = sum_list (map bt_rows bs)"

definition group_step :: "nat \<Rightarrow> batch \<Rightarrow> batch list list \<times> batch list \<Rightarrow> batch list list \<times> batch list" where
  "group_step n b st = (case st of (gs, pend) \<Rightarrow>
     if bt_rows b = 0 then (gs, pend)
     else if n \<le> group_rows (pend @ [b]) then (gs @ [pend @ [b]], [])
     else (gs, pend @ [b]))"

definition row_groups_of :: "nat \<Rightarrow> batch list \<Rightarrow> batch list list" where
  "row_groups_of n bs = (case fold (group_step n) bs ([], []) of (gs, pend) \<Rightarrow> gs @ (if pend = [] then [] else [pend]))"

definition grouped :: "field list \<Rightarrow> batch list \<Rightarrow> column list \<Rightarrow> bool" where
  "grouped fs bs cols \<longleftrightarrow> length cols = length fs \<and>
     (\<forall>i < length fs. col_concat (fd_ty (fs ! i)) (map (\<lambda>b. bt_columns b ! i) bs) = Inr (cols ! i))"

section \<open>The invariant\<close>

definition entry_at :: "byte list \<Rightarrow> field list \<Rightarrow> column list list \<Rightarrow> raw_index_entry \<Rightarrow> bool" where
  "entry_at out fs groups e \<longleftrightarrow> (\<exists>k i kind blob.
     e = \<lparr>ri_kind = index_kind_id kind, ri_row_group = Some k, ri_columns = [i], ri_offset = ri_offset e, ri_len = length blob,
       ri_crc = crc32c blob, ri_params = []\<rparr> \<and>
     k < length groups \<and> i < length fs \<and> index_applies_to kind (fd_ty (fs ! i)) \<and> SEG_HEADER_LEN \<le> ri_offset e \<and>
     slice_opt out (ri_offset e) (ri_offset e + length blob) = Some blob \<and> index_build kind (groups ! k ! i) = Some (Some blob))"

definition row_group_at :: "byte list \<Rightarrow> raw_row_group \<Rightarrow> batch list \<times> column list \<Rightarrow> bool" where
  "row_group_at out rg g \<longleftrightarrow> rg_rows rg = group_rows (fst g) \<and> list_all2 (chunk_at out) (rg_chunks rg) (snd g)"

definition reqs_ok :: "field list \<Rightarrow> (nat \<times> index_kind) list \<Rightarrow> bool" where
  "reqs_ok fs reqs \<longleftrightarrow> (\<forall>(i, kind) \<in> set reqs. i < length fs \<and> index_applies_to kind (fd_ty (fs ! i)))"

definition stats_of_groups :: "field list \<Rightarrow> column list list \<Rightarrow> stats_acc list" where
  "stats_of_groups fs groups = map (\<lambda>i. fold (\<lambda>cols. acc_column (cols ! i)) groups stats_acc_new) [0..<length fs]"

definition out_ok :: "seg_writer \<Rightarrow> bool" where
  "out_ok w \<longleftrightarrow> sw_pos w = length (sw_out w) \<and> SEG_HEADER_LEN \<le> sw_pos w \<and> take SEG_HEADER_LEN (sw_out w) = seg_header SEGMENT_MAGIC"

record seg_ghost =
  gh_groups :: "batch list list"
  gh_columns :: "column list list"
  gh_pending :: "batch list"

definition writer_inv :: "(column \<Rightarrow> nat) \<Rightarrow> field list \<Rightarrow> seg_ghost \<Rightarrow> seg_writer \<Rightarrow> bool" where
  "writer_inv byte_size fs gh w \<longleftrightarrow>
     sw_fields w = fs \<and> out_ok w \<and> list_all2 (grouped fs) (gh_groups gh) (gh_columns gh) \<and>
     list_all2 (row_group_at (sw_out w)) (sw_row_groups w) (zip (gh_groups gh) (gh_columns gh)) \<and>
     (\<forall>cols \<in> set (gh_columns gh). \<forall>c \<in> set cols. byte_size c \<le> MAX_DECODE_BYTES) \<and>
     (\<forall>e \<in> set (sw_indexes w). entry_at (sw_out w) fs (gh_columns gh) e) \<and> reqs_ok fs (sw_index_reqs w) \<and>
     length (sw_indexes w) \<le> length (gh_columns gh) * length (sw_index_reqs w) \<and>
     sw_stats w = stats_of_groups fs (gh_columns gh) \<and>
     sw_pending w = map (\<lambda>i. map (\<lambda>b. bt_columns b ! i) (gh_pending gh)) [0..<length fs] \<and>
     sw_pending_rows w = group_rows (gh_pending gh)"

lemma row_group_at_append: "row_group_at out rg g \<Longrightarrow> row_group_at (out @ rest) rg g"
  unfolding row_group_at_def by (auto elim: list_all2_mono intro: chunk_at_append)

lemma entry_at_grow: "entry_at out fs groups e \<Longrightarrow> entry_at (out @ rest) fs (groups @ gs) e"
  unfolding entry_at_def
  by (elim exE conjE, intro exI conjI, assumption) (simp_all add: slice_opt_append nth_append)

text \<open>The index loop of a flush.\<close>

lemma flush_index_step:
  assumes "flush_index (length groups) cols (i, kind) w = Some (Inr w')" "out_ok w" "i < length fs" "index_applies_to kind (fd_ty (fs ! i))"
    "\<forall>e \<in> set (sw_indexes w). entry_at (sw_out w) fs (groups @ [cols]) e"
  shows "out_ok w' \<and> (\<exists>b. sw_out w' = sw_out w @ b) \<and> (\<forall>e \<in> set (sw_indexes w'). entry_at (sw_out w') fs (groups @ [cols]) e) \<and>
    length (sw_indexes w') \<le> length (sw_indexes w) + 1 \<and> same_frame w w' \<and> sw_pending w' = sw_pending w \<and> sw_stats w' = sw_stats w"
proof -
  from assms(1) obtain col built where c: "nth_opt cols i = Some col" "index_build kind col = Some built"
    and w': "(case built of None \<Rightarrow> eret w | Some blob \<Rightarrow>
            eret (w\<lparr>sw_out := sw_out w @ blob, sw_pos := sw_pos w + length blob,
                    sw_indexes := sw_indexes w @ [\<lparr>ri_kind = index_kind_id kind, ri_row_group = Some (length groups),
                      ri_columns = [i], ri_offset = sw_pos w, ri_len = length blob, ri_crc = crc32c blob,
                      ri_params = []\<rparr>]\<rparr>)) = (Some (Inr w') :: (seg_error + seg_writer) option)"
    by (auto simp: flush_index_def)
  show ?thesis
  proof (cases built)
    case None
    then show ?thesis using w' assms(2,5) by (auto simp: same_frame_def)
  next
    case (Some blob)
    let ?e = "\<lparr>ri_kind = index_kind_id kind, ri_row_group = Some (length groups), ri_columns = [i], ri_offset = sw_pos w,
      ri_len = length blob, ri_crc = crc32c blob, ri_params = []\<rparr>"
    have w1: "w' = w\<lparr>sw_out := sw_out w @ blob, sw_pos := sw_pos w + length blob, sw_indexes := sw_indexes w @ [?e]\<rparr>"
      using w' Some by simp
    have i: "i < length cols" "cols ! i = col" using c(1) by (auto simp: nth_opt_def split: if_splits)
    have "entry_at (sw_out w @ blob) fs (groups @ [cols]) ?e"
      unfolding entry_at_def
      by (intro exI [of _ "length groups"] exI [of _ i] exI [of _ kind] exI [of _ blob])
        (use assms(2-4) c(2) Some i slice_opt_last [of "sw_out w" blob] in \<open>auto simp: out_ok_def\<close>)
    moreover have "entry_at (sw_out w @ blob) fs (groups @ [cols]) e" if "e \<in> set (sw_indexes w)" for e
      using entry_at_grow [of "sw_out w" fs "groups @ [cols]" e blob "[]"] assms(5) that by simp
    ultimately show ?thesis using assms(2) unfolding w1 by (auto simp: same_frame_def out_ok_def)
  qed
qed

lemma flush_index_loop:
  assumes "for_each (flush_index (length groups) cols) reqs w = Some (Inr w')" "out_ok w" "reqs_ok fs reqs"
    "\<forall>e \<in> set (sw_indexes w). entry_at (sw_out w) fs (groups @ [cols]) e"
  shows "out_ok w' \<and> (\<exists>b. sw_out w' = sw_out w @ b) \<and> (\<forall>e \<in> set (sw_indexes w'). entry_at (sw_out w') fs (groups @ [cols]) e) \<and>
    length (sw_indexes w') \<le> length (sw_indexes w) + length reqs \<and> same_frame w w' \<and> sw_pending w' = sw_pending w \<and> sw_stats w' = sw_stats w"
  using assms
proof (induction reqs arbitrary: w)
  case (Cons r reqs)
  obtain i kind where r: "r = (i, kind)" by (cases r)
  from Cons.prems(1) obtain w1 where w1: "flush_index (length groups) cols (i, kind) w = Some (Inr w1)"
    "for_each (flush_index (length groups) cols) reqs w1 = Some (Inr w')" by (auto simp: r)
  have i: "i < length fs" "index_applies_to kind (fd_ty (fs ! i))" "reqs_ok fs reqs" using Cons.prems(3) r by (auto simp: reqs_ok_def)
  note step = flush_index_step [OF w1(1) Cons.prems(2) i(1,2) Cons.prems(4)]
  then have "out_ok w1" "\<forall>e \<in> set (sw_indexes w1). entry_at (sw_out w1) fs (groups @ [cols]) e" by blast+
  note rest = Cons.IH [OF w1(2) this(1) i(3) this(2)]
  from step rest show ?case by (auto simp: same_frame_def)
qed (auto simp: same_frame_def)

lemma stats_of_groups_snoc:
  "stats_of_groups fs (groups @ [cols]) = map (\<lambda>i. acc_column (cols ! i) (stats_of_groups fs groups ! i)) [0..<length fs]"
  by (auto simp: stats_of_groups_def)

lemma writer_flush_inv:
  assumes inv: "writer_inv byte_size fs gh w" and pend: "group_rows (gh_pending gh) \<noteq> 0"
    and f: "writer_flush byte_size w = Some (Inr w')"
  shows "\<exists>cols. writer_inv byte_size fs \<lparr>gh_groups = gh_groups gh @ [gh_pending gh], gh_columns = gh_columns gh @ [cols], gh_pending = []\<rparr> w' \<and>
    sw_row_group_rows w' = sw_row_group_rows w \<and> sw_index_reqs w' = sw_index_reqs w"
proof -
  note i = inv [unfolded writer_inv_def]
  have rows: "sw_pending_rows w = group_rows (gh_pending gh)" using i by simp
  from f pend rows obtain w1 chunks cols w2 where
    c: "for_each (flush_column byte_size) [0..<length fs] (w, [], []) = Some (Inr (w1, chunks, cols))"
    and x: "for_each (flush_index (length (sw_row_groups w)) cols) (sw_index_reqs w) w1 = Some (Inr w2)"
    and w': "w' = w2\<lparr>sw_row_groups := sw_row_groups w2 @ [\<lparr>rg_rows = sw_pending_rows w, rg_chunks = chunks\<rparr>], sw_pending_rows := 0\<rparr>"
    using i by (auto simp: writer_flush_def)
  have "flushed byte_size w (length fs) (w1, chunks, cols)"
    by (rule flush_columns_loop [OF c]) (use i in \<open>auto simp: out_ok_def\<close>)
  then obtain b where fl: "same_frame w w1" "sw_indexes w1 = sw_indexes w" "length chunks = length fs" "length cols = length fs"
    "sw_out w1 = sw_out w @ b" "sw_pos w1 = sw_pos w + length b"
    and ch: "\<And>i. i < length fs \<Longrightarrow> chunk_at (sw_out w1) (chunks ! i) (cols ! i) \<and> byte_size (cols ! i) \<le> MAX_DECODE_BYTES \<and>
        col_concat (fd_ty (sw_fields w ! i)) (sw_pending w ! i) = Inr (cols ! i)"
    and p1: "length (sw_pending w1) = length (sw_pending w)"
      "\<And>i. i < length (sw_pending w) \<Longrightarrow> sw_pending w1 ! i = (if i < length fs then [] else sw_pending w ! i)"
    and st: "length (sw_stats w1) = length (sw_stats w)"
      "\<And>i. i < length (sw_stats w) \<Longrightarrow> sw_stats w1 ! i = (if i < length fs then acc_column (cols ! i) (sw_stats w ! i) else sw_stats w ! i)"
    by (auto simp: flushed_def)
  have len: "length (sw_row_groups w) = length (gh_columns gh)" "length (gh_groups gh) = length (gh_columns gh)"
    using i by (auto dest!: list_all2_lengthD)
  have ok1: "out_ok w1" using i fl(5,6) by (auto simp: out_ok_def)
  have ent1: "\<forall>e \<in> set (sw_indexes w1). entry_at (sw_out w1) fs (gh_columns gh @ [cols]) e"
    unfolding fl(2,5) using i entry_at_grow by blast
  from flush_index_loop [OF x [unfolded len(1)] ok1 _ ent1] i
  obtain d where d: "out_ok w2" "sw_out w2 = sw_out w1 @ d" "\<forall>e \<in> set (sw_indexes w2). entry_at (sw_out w2) fs (gh_columns gh @ [cols]) e"
    "length (sw_indexes w2) \<le> length (sw_indexes w1) + length (sw_index_reqs w)" "same_frame w1 w2" "sw_pending w2 = sw_pending w1"
    "sw_stats w2 = sw_stats w1" by blast
  have g: "grouped fs (gh_pending gh) cols" unfolding grouped_def using fl(4) ch i by simp
  have rg: "row_group_at (sw_out w2) \<lparr>rg_rows = sw_pending_rows w, rg_chunks = chunks\<rparr> (gh_pending gh, cols)"
    unfolding row_group_at_def d(2) using rows ch fl(3,4) chunk_at_append by (auto simp: list_all2_conv_all_nth)
  have out: "sw_out w2 = sw_out w @ (b @ d)" using d(2) fl(5) by simp
  have old: "list_all2 (row_group_at (sw_out w2)) (sw_row_groups w) (zip (gh_groups gh) (gh_columns gh))"
    unfolding out using i row_group_at_append by (blast intro: list_all2_mono)
  have size: "\<forall>c \<in> set cols. byte_size c \<le> MAX_DECODE_BYTES" using ch fl(4) by (auto simp: in_set_conv_nth)
  have stats: "sw_stats w2 = stats_of_groups fs (gh_columns gh @ [cols])"
    unfolding d(7) stats_of_groups_snoc by (rule nth_equalityI) (use st i in \<open>auto simp: stats_of_groups_def\<close>)
  have pend2: "sw_pending w2 = map (\<lambda>i. []) [0..<length fs]"
    unfolding d(6) by (rule nth_equalityI) (use p1 i in auto)
  have fr: "same_frame w w2" using fl(1) d(5) by (simp add: same_frame_def)
  show ?thesis
  proof (rule exI [of _ cols], intro conjI)
    show "writer_inv byte_size fs \<lparr>gh_groups = gh_groups gh @ [gh_pending gh], gh_columns = gh_columns gh @ [cols], gh_pending = []\<rparr> w'"
      unfolding writer_inv_def w' using i d(1,3,4) g rg old size stats pend2 fr fl(2) len
      by (auto simp: same_frame_def out_ok_def group_rows_def list_all2_appendI)
  qed (use fr w' in \<open>simp_all add: same_frame_def\<close>)
qed

section \<open>Pushing batches\<close>

definition ghost_of :: "batch list list \<times> batch list \<Rightarrow> column list list \<Rightarrow> seg_ghost" where
  "ghost_of st cols = \<lparr>gh_groups = fst st, gh_columns = cols, gh_pending = snd st\<rparr>"

definition writing :: "(column \<Rightarrow> nat) \<Rightarrow> field list \<Rightarrow> nat \<Rightarrow> nat \<Rightarrow> batch list list \<times> batch list \<Rightarrow> seg_writer \<Rightarrow> bool" where
  "writing byte_size fs n k st w \<longleftrightarrow> (\<exists>cols. writer_inv byte_size fs (ghost_of st cols) w) \<and> sw_row_group_rows w = n \<and>
     length (sw_index_reqs w) = k"

lemma pending_pushed:
  assumes "length (bt_columns b) = length fs"
  shows "map (\<lambda>(i, p). p @ (case nth_opt (bt_columns b) i of None \<Rightarrow> [] | Some c \<Rightarrow> [c]))
      (enumerate 0 (map (\<lambda>i. map (\<lambda>b. bt_columns b ! i) pend) [0..<length fs])) =
    map (\<lambda>i. map (\<lambda>b. bt_columns b ! i) (pend @ [b])) [0..<length fs]"
  by (rule nth_equalityI) (use assms in \<open>auto simp: nth_enumerate_eq nth_opt_def\<close>)

lemma writer_push_inv:
  assumes inv: "writing byte_size fs n k st w" and b: "batch_wf b" and p: "writer_push byte_size b w = Some (Inr w')" and n: "0 < n"
  shows "writing byte_size fs n k (group_step n b st) w' \<and> bt_fields b = fs"
proof -
  obtain gs pend where st: "st = (gs, pend)" by (cases st)
  from inv obtain cols where i: "writer_inv byte_size fs \<lparr>gh_groups = gs, gh_columns = cols, gh_pending = pend\<rparr> w"
    and w: "sw_row_group_rows w = n" "length (sw_index_reqs w) = k" by (auto simp: writing_def ghost_of_def st)
  have f: "bt_fields b = fs" using p i by (auto simp: writer_push_def writer_inv_def split: if_splits)
  show ?thesis
  proof (cases "bt_rows b = 0")
    case True
    then have "w' = w" using p i f by (simp add: writer_push_def writer_inv_def)
    then show ?thesis using inv True f by (simp add: group_step_def st)
  next
    case False
    have len: "length (bt_columns b) = length fs" using b f by (simp add: batch_wf_def)
    define w1 where "w1 = w\<lparr>sw_pending := map (\<lambda>(i, p). p @ (case nth_opt (bt_columns b) i of None \<Rightarrow> [] | Some c \<Rightarrow> [c]))
        (enumerate 0 (sw_pending w)), sw_pending_rows := sw_pending_rows w + bt_rows b\<rparr>"
    have i1: "writer_inv byte_size fs \<lparr>gh_groups = gs, gh_columns = cols, gh_pending = pend @ [b]\<rparr> w1"
      using i pending_pushed [OF len, of pend] unfolding writer_inv_def w1_def by (simp add: out_ok_def group_rows_def)
    have p1: "(if n \<le> sw_pending_rows w1 then writer_flush byte_size w1 else eret w1) = Some (Inr w')"
      using p i f False len w(1) by (auto simp: writer_push_def writer_inv_def w1_def Let_def)
    have r1: "sw_pending_rows w1 = group_rows (pend @ [b])" using i1 by (simp add: writer_inv_def)
    have frame: "sw_row_group_rows w1 = n" "length (sw_index_reqs w1) = k" using w by (simp_all add: w1_def)
    show ?thesis
    proof (cases "n \<le> group_rows (pend @ [b])")
      case True
      then have fl: "writer_flush byte_size w1 = Some (Inr w')" using p1 r1 by simp
      have "group_rows (gh_pending \<lparr>gh_groups = gs, gh_columns = cols, gh_pending = pend @ [b]\<rparr>) \<noteq> 0" using True n by simp
      from writer_flush_inv [OF i1 this fl] obtain cs where
        "writer_inv byte_size fs \<lparr>gh_groups = gs @ [pend @ [b]], gh_columns = cols @ [cs], gh_pending = []\<rparr> w'"
        "sw_row_group_rows w' = n" "length (sw_index_reqs w') = k" using frame by auto
      then show ?thesis using True False f by (auto simp: writing_def ghost_of_def st group_step_def)
    next
      case False2: False
      then have "w' = w1" using p1 r1 by simp
      then show ?thesis using i1 frame False False2 f by (auto simp: writing_def ghost_of_def st group_step_def)
    qed
  qed
qed

lemma writer_pushes_inv:
  assumes "writing byte_size fs n k st w" "\<forall>b \<in> set bs. batch_wf b" "for_each (writer_push byte_size) bs w = Some (Inr w')" "0 < n"
  shows "writing byte_size fs n k (fold (group_step n) bs st) w' \<and> (\<forall>b \<in> set bs. bt_fields b = fs)"
  using assms
proof (induction bs arbitrary: st w)
  case (Cons b bs)
  from Cons.prems(3) obtain w1 where w1: "writer_push byte_size b w = Some (Inr w1)"
    "for_each (writer_push byte_size) bs w1 = Some (Inr w')" by auto
  have "batch_wf b" using Cons.prems(2) by simp
  note step = writer_push_inv [OF Cons.prems(1) this w1(1) Cons.prems(4)]
  with Cons.IH [OF conjunct1 [OF step] _ w1(2) Cons.prems(4)] Cons.prems(2) show ?case by simp
qed simp

lemma field_position_less: "field_position name fs = Some i \<Longrightarrow> i < length fs"
  by (induction fs arbitrary: i) (auto split: if_splits)

lemma resolve_indexes_ok: "resolve_indexes fs reqs = Inr out \<Longrightarrow> reqs_ok fs out \<and> length out = length reqs"
proof (induction reqs arbitrary: out)
  case (Cons r reqs)
  obtain name kind where r: "r = (name, kind)" by (cases r)
  with Cons.prems obtain i rest where i: "field_position name fs = Some i" "index_applies_to kind (fd_ty (fs ! i))"
    "resolve_indexes fs reqs = Inr rest" "out = (i, kind) # rest"
    by (cases "resolve_indexes fs reqs") (auto split: option.splits if_splits)
  then show ?case using Cons.IH [OF i(3)] field_position_less [OF i(1)] by (auto simp: reqs_ok_def)
qed (simp add: reqs_ok_def)

lemma writer_new_inv:
  assumes "writer_new fs opts = Inr w"
  shows "writing byte_size fs (wo_row_group_rows opts) (length (wo_indexes opts)) ([], []) w \<and> 0 < wo_row_group_rows opts \<and>
    distinct (map fd_name fs)"
proof -
  from assms obtain pins reqs where r: "resolve_indexes fs (wo_indexes opts) = Inr reqs"
    and w: "w = \<lparr>sw_out = seg_header SEGMENT_MAGIC, sw_pos = SEG_HEADER_LEN, sw_fields = fs,
                      sw_row_group_rows = wo_row_group_rows opts, sw_pending = map (\<lambda>_. []) fs, sw_pending_rows = 0,
                      sw_row_groups = [], sw_indexes = [], sw_stats = map (\<lambda>_. stats_acc_new) fs, sw_pins = pins,
                      sw_index_reqs = reqs\<rparr>" "0 < wo_row_group_rows opts" "distinct (map fd_name fs)"
    by (auto simp: writer_new_def split: if_splits sum.splits)
  have "map (\<lambda>_. x) fs = map (\<lambda>_. x) [0..<length fs]" for x :: stats_acc by (simp add: map_replicate_const)
  moreover have "map (\<lambda>_. x) fs = map (\<lambda>_. x) [0..<length fs]" for x :: "column list" by (simp add: map_replicate_const)
  ultimately have "writer_inv byte_size fs (ghost_of ([], []) []) w"
    using resolve_indexes_ok [OF r] unfolding writer_inv_def w(1) ghost_of_def
    by (simp add: out_ok_def seg_header_def SEGMENT_MAGIC_def SEG_HEADER_LEN_def stats_of_groups_def group_rows_def)
  then show ?thesis using resolve_indexes_ok [OF r] w by (auto simp: writing_def)
qed

section \<open>The finished file\<close>

lemma group_step_nonzero:
  "\<forall>g \<in> set gs. group_rows g \<noteq> 0 \<Longrightarrow> (pend = [] \<or> group_rows pend \<noteq> 0) \<Longrightarrow> group_step n b (gs, pend) = (gs', pend') \<Longrightarrow>
   (\<forall>g \<in> set gs'. group_rows g \<noteq> 0) \<and> (pend' = [] \<or> group_rows pend' \<noteq> 0)"
  by (auto simp: group_step_def group_rows_def split: if_splits)

lemma group_steps_nonzero:
  "\<forall>g \<in> set gs. group_rows g \<noteq> 0 \<Longrightarrow> (pend = [] \<or> group_rows pend \<noteq> 0) \<Longrightarrow> fold (group_step n) bs (gs, pend) = (gs', pend') \<Longrightarrow>
   (\<forall>g \<in> set gs'. group_rows g \<noteq> 0) \<and> (pend' = [] \<or> group_rows pend' \<noteq> 0)"
proof (induction bs arbitrary: gs pend)
  case (Cons b bs)
  obtain g1 p1 where "group_step n b (gs, pend) = (g1, p1)" by fastforce
  note step = this
  have "fold (group_step n) bs (g1, p1) = (gs', pend')" using Cons.prems(3) step by simp
  with group_step_nonzero [OF Cons.prems(1,2) step] Cons.IH show ?case by blast
qed simp

text \<open>What a successful write leaves: the file is the body, the footer and the trailer.\<close>

definition file_of :: "(column \<Rightarrow> nat) \<Rightarrow> field list \<Rightarrow> batch list list \<Rightarrow> column list list \<Rightarrow> seg_writer \<Rightarrow> byte list \<Rightarrow>
    byte list \<Rightarrow> seg_meta \<Rightarrow> bool" where
  "file_of byte_size fs gs cols w footer_bytes bytes meta \<longleftrightarrow>
     writer_inv byte_size fs \<lparr>gh_groups = gs, gh_columns = cols, gh_pending = []\<rparr> w \<and>
     encode_footer \<lparr>ft_fields = fs, ft_row_groups = sw_row_groups w, ft_indexes = sw_indexes w\<rparr> sink_new = Some footer_bytes \<and>
     bytes = write_trailer (sw_out w) SEGMENT_MAGIC footer_bytes \<and>
     meta = \<lparr>mt_rows = sum_list (map group_rows gs), mt_row_groups = length gs, mt_bytes = length bytes,
       mt_footer_crc = crc32c footer_bytes, mt_columns = map stats_acc_finish (stats_of_groups fs cols)\<rparr>"

lemma writer_finish_file:
  assumes st: "writing byte_size fs n k (gs, pend) w" "pend = [] \<or> group_rows pend \<noteq> 0" and f: "writer_finish byte_size w = Some (Inr (bytes, meta))"
  shows "\<exists>cols w' fb. file_of byte_size fs (gs @ (if pend = [] then [] else [pend])) cols w' fb bytes meta \<and>
    length (sw_index_reqs w') = k"
proof -
  from f obtain w' fb where fl: "writer_flush byte_size w = Some (Inr w')"
    and fb: "encode_footer \<lparr>ft_fields = sw_fields w', ft_row_groups = sw_row_groups w', ft_indexes = sw_indexes w'\<rparr> sink_new = Some fb"
    and out: "bytes = sw_out w' @ write_trailer [] SEGMENT_MAGIC fb"
      "meta = \<lparr>mt_rows = sum_list (map rg_rows (sw_row_groups w')), mt_row_groups = length (sw_row_groups w'),
              mt_bytes = sw_pos w' + length (write_trailer [] SEGMENT_MAGIC fb), mt_footer_crc = crc32c fb,
              mt_columns = map stats_acc_finish (sw_stats w')\<rparr>"
    by (auto simp: writer_finish_def Let_def)
  from st(1) obtain cols where i: "writer_inv byte_size fs \<lparr>gh_groups = gs, gh_columns = cols, gh_pending = pend\<rparr> w"
    and k: "length (sw_index_reqs w) = k" by (auto simp: writing_def ghost_of_def)
  obtain cols' where inv: "writer_inv byte_size fs \<lparr>gh_groups = gs @ (if pend = [] then [] else [pend]), gh_columns = cols', gh_pending = []\<rparr> w'"
    and k': "length (sw_index_reqs w') = k"
  proof (cases "pend = []")
    case True
    then have "sw_pending_rows w = 0" using i by (simp add: writer_inv_def group_rows_def)
    then have "w' = w" using fl by (simp add: writer_flush_def)
    with that i k True show thesis by simp
  next
    case False
    then have "group_rows (gh_pending \<lparr>gh_groups = gs, gh_columns = cols, gh_pending = pend\<rparr>) \<noteq> 0" using st(2) by simp
    from writer_flush_inv [OF i this fl] that False k show thesis by auto
  qed
  let ?gs = "gs @ (if pend = [] then [] else [pend])"
  have "list_all2 (row_group_at (sw_out w')) (sw_row_groups w') (zip ?gs cols')" "length ?gs = length cols'"
    using inv by (auto simp: writer_inv_def dest: list_all2_lengthD)
  then have rows: "map rg_rows (sw_row_groups w') = map group_rows ?gs"
    by (intro nth_equalityI) (simp_all add: list_all2_conv_all_nth row_group_at_def del: map_append)
  have len: "length (sw_row_groups w') = length ?gs" using arg_cong [OF rows, of length] by simp
  have "sw_fields w' = fs" "sw_stats w' = stats_of_groups fs cols'" "sw_pos w' = length (sw_out w')"
    using inv by (simp_all add: writer_inv_def out_ok_def)
  then have "file_of byte_size fs ?gs cols' w' fb bytes meta"
    unfolding file_of_def using inv fb out rows len by (simp add: write_trailer_def)
  with k' show ?thesis by blast
qed

lemma write_segment_file:
  assumes w: "write_segment byte_size fs opts bs = Some (Inr (bytes, meta))" and bs: "\<forall>b \<in> set bs. batch_wf b"
  shows "\<exists>cols w' fb. file_of byte_size fs (row_groups_of (wo_row_group_rows opts) bs) cols w' fb bytes meta \<and>
    length (sw_index_reqs w') = length (wo_indexes opts) \<and> (\<forall>b \<in> set bs. bt_fields b = fs) \<and> distinct (map fd_name fs)"
proof -
  from w obtain w0 w1 where w0: "writer_new fs opts = Inr w0" and w1: "for_each (writer_push byte_size) bs w0 = Some (Inr w1)"
    and fin: "writer_finish byte_size w1 = Some (Inr (bytes, meta))" by (auto simp: write_segment_def)
  obtain gs pend where st: "fold (group_step (wo_row_group_rows opts)) bs ([], []) = (gs, pend)" by fastforce
  have new: "writing byte_size fs (wo_row_group_rows opts) (length (wo_indexes opts)) ([], []) w0" "0 < wo_row_group_rows opts"
    "distinct (map fd_name fs)" using writer_new_inv [OF w0] by blast+
  from writer_pushes_inv [OF new(1) bs w1 new(2)] st
  have wr: "writing byte_size fs (wo_row_group_rows opts) (length (wo_indexes opts)) (gs, pend) w1" "\<forall>b \<in> set bs. bt_fields b = fs" by simp_all
  have "pend = [] \<or> group_rows pend \<noteq> 0" using group_steps_nonzero [OF _ _ st] by simp
  from writer_finish_file [OF wr(1) this fin] wr(2) new(3) show ?thesis by (auto simp: row_groups_of_def st)
qed

end
