(* ===== verification/Segment_Read.thy ===== *)
theory Segment_Read
  imports Segment_Write
begin

text \<open>
  Reading back what the writer wrote: opening its file succeeds, every column of every row
  group is the concatenation of the batches it was made of, the stored statistics and skip
  indexes speak for it, and the segment's own statistics speak for all of them.
\<close>

section \<open>Columns of a row group\<close>

definition in_groups :: "batch list list \<times> batch list \<Rightarrow> batch set" where
  "in_groups st = (\<Union>g \<in> set (fst st). set g) \<union> set (snd st)"

lemma group_step_subset: "in_groups (group_step n b st) \<subseteq> insert b (in_groups st)"
  by (cases st) (auto simp: group_step_def in_groups_def)

lemma group_steps_subset: "in_groups (fold (group_step n) bs st) \<subseteq> set bs \<union> in_groups st"
proof (induction bs arbitrary: st)
  case (Cons b bs)
  have "in_groups (fold (group_step n) (b # bs) st) \<subseteq> set bs \<union> in_groups (group_step n b st)" using Cons by simp
  also have "\<dots> \<subseteq> set (b # bs) \<union> in_groups st" using group_step_subset [of n b st] by auto
  finally show ?case .
qed simp

lemma row_groups_subset:
  assumes "g \<in> set (row_groups_of n bs)" "b \<in> set g"
  shows "b \<in> set bs"
proof -
  obtain gs pend where st: "fold (group_step n) bs ([], []) = (gs, pend)" by fastforce
  have "in_groups (gs, pend) \<subseteq> set bs" using group_steps_subset [of n bs "([], [])"] by (simp add: st in_groups_def)
  moreover have "b \<in> in_groups (gs, pend)" using assms by (auto simp: row_groups_of_def st in_groups_def split: if_splits)
  ultimately show ?thesis by blast
qed

lemma grouped_columns:
  assumes "grouped fs g cols" "\<forall>b \<in> set g. batch_wf b \<and> bt_fields b = fs" "\<forall>f \<in> set fs. type_ok (fd_ty f)" "i < length fs"
  shows "col_wf (cols ! i) \<and> col_ty (cols ! i) = fd_ty (fs ! i) \<and> col_rows (cols ! i) = concat (map (\<lambda>b. col_rows (bt_columns b ! i)) g) \<and>
    col_len (cols ! i) = group_rows g"
proof -
  let ?ty = "fd_ty (fs ! i)" and ?parts = "map (\<lambda>b. bt_columns b ! i) g"
  have ty: "type_ok ?ty" using assms(3,4) by simp
  have parts: "\<forall>c \<in> set ?parts. col_wf c \<and> col_ty c = ?ty" and len: "\<forall>b \<in> set g. col_len (bt_columns b ! i) = bt_rows b"
    using assms(2,4) by (auto simp: batch_wf_def)
  have "col_concat ?ty ?parts = Inr (cols ! i)" using assms(1,4) by (simp add: grouped_def)
  note c = col_concat_from_data [OF concat_data_ok_all [OF ty] ty parts this]
  have "col_len (cols ! i) = length (col_rows (cols ! i))" by (simp add: col_rows_def)
  also have "\<dots> = sum_list (map (\<lambda>b. col_len (bt_columns b ! i)) g)" using c by (simp add: length_concat o_def col_rows_def)
  also have "\<dots> = group_rows g" unfolding group_rows_def using len by (intro arg_cong [of _ _ sum_list] map_cong) simp_all
  finally show ?thesis using c by (simp add: o_def)
qed

lemma values_typed:
  assumes "col_wf col" "v \<in> col_values col"
  shows "type_ok (col_ty col) \<and> has_type (col_ty col) v"
proof -
  obtain i where i: "i < col_len col" "col_get col i = Some v" "v \<noteq> VNull" using assms(2) by (auto simp: col_values_def)
  have "has_type (col_ty col) v" using col_get_typed [OF assms(1) i(1)] i(2,3) by auto
  moreover have "type_ok (col_ty col)" using assms(1) by (cases col) simp
  ultimately show ?thesis by blast
qed

lemma truncate_length: "length (truncate_str s n) \<le> n"
  using back_to_boundary_ok [of s "min n (length s)"] by (simp add: truncate_str_def)

lemma bound_sizes:
  "bound_min v = VString s \<Longrightarrow> length s \<le> STATS_MAX_BYTES" "bound_min v = VBytes b \<Longrightarrow> length b \<le> STATS_MAX_BYTES"
  by (cases v; use truncate_length in \<open>force split: if_splits\<close>)+

lemma stored_bounds:
  assumes "col_wf col" "col_stats col = Some st"
  shows "bound_codable (col_ty col) (fst (bound_stats st)) \<and> bound_codable (col_ty col) (snd (bound_stats st))"
proof (cases "\<exists>e. col_ty col = TList e")
  case True
  then show ?thesis using col_stats_spec [OF assms(1)] assms(2) by (auto simp: bound_stats_def bound_codable_def)
next
  case False
  then have s: "least_of (col_values col) (st_min st)" "greatest_of (col_values col) (st_max st)"
    using col_stats_spec [OF assms(1)] assms(2) by auto
  have mn: "storable (col_ty col) (bound_min m)" if "st_min st = Some m" for m
  proof -
    have "m \<in> col_values col" using s(1) that by (simp add: least_of_def)
    note ty = values_typed [OF assms(1) this]
    then show ?thesis using False bound_sizes [of m] bound_min_has_type [of "col_ty col" m]
      by (auto simp: storable_def STATS_MAX_BYTES_def split: val.splits)
  qed
  have mx: "storable (col_ty col) m" if "st_max st = Some m" "\<not> is_oversized m" for m
  proof -
    have "m \<in> col_values col" using s(2) that by (simp add: greatest_of_def)
    note ty = values_typed [OF assms(1) this]
    then show ?thesis using False that(2) by (auto simp: storable_def STATS_MAX_BYTES_def split: val.splits)
  qed
  show ?thesis using mn mx by (auto simp: bound_codable_def bound_stats_def split: option.splits)
qed

lemma stored_covers:
  assumes "col_wf col" "col_stats col = Some st"
  shows "Prune.covers \<lparr>cr_rows = st_rows st, cr_null_count = st_null_count st, cr_min = fst (bound_stats st), cr_max = snd (bound_stats st)\<rparr> col"
proof (rule bound_stats_covers)
  show "Prune.covers \<lparr>cr_rows = st_rows st, cr_null_count = st_null_count st, cr_min = st_min st, cr_max = st_max st\<rparr> col"
    using stats_covers [OF assms] by (simp add: range_of_stats_def)
  show "has_type (col_ty col) m" if "st_min st = Some m" for m
  proof -
    have "m \<in> col_values col" using col_stats_spec [OF assms(1)] assms(2) that by (auto simp: least_of_def split: if_splits)
    then show ?thesis using values_typed [OF assms(1)] by blast
  qed
  show "type_ok (col_ty col)" using assms(1) by (cases col) simp
  show "of_kind (col_ty col) v" if "v \<in> col_values col" for v using values_typed [OF assms(1) that] has_type_of_kind by blast
qed

section \<open>Opening the file\<close>

text \<open>The limits of the format that the writer leaves to its caller.\<close>

definition seg_limits :: "field list \<Rightarrow> writer_options \<Rightarrow> batch list \<Rightarrow> bool" where
  "seg_limits fs opts bs \<longleftrightarrow>
     length fs \<le> MAX_DECODE_ROWS \<and> (\<forall>f \<in> set fs. utf8_valid (fd_name f) \<and> type_ok (fd_ty f)) \<and>
     length (row_groups_of (wo_row_group_rows opts) bs) \<le> MAX_DECODE_ROWS \<and>
     length (row_groups_of (wo_row_group_rows opts) bs) * length (wo_indexes opts) \<le> MAX_DECODE_ROWS \<and>
     (\<forall>g \<in> set (row_groups_of (wo_row_group_rows opts) bs). group_rows g \<le> MAX_DECODE_ROWS \<and>
        (\<forall>cols. grouped fs g cols \<longrightarrow> list_all decodable cols))"

definition meta_of :: "raw_chunk \<Rightarrow> chunk_meta" where
  "meta_of ch = \<lparr>cm_encoding = the (encoding_from_id (rc_encoding ch)), cm_len = rc_len ch, cm_null_count = rc_null_count ch,
     cm_min = rc_min ch, cm_max = rc_max ch\<rparr>"

definition range_of :: "raw_chunk \<Rightarrow> nat \<times> nat \<times> u32" where
  "range_of ch = (rc_offset ch, rc_len ch, rc_crc ch)"

definition entry_of :: "raw_index_entry \<Rightarrow> index_entry" where
  "entry_of e = \<lparr>ie_kind = the (index_kind_from_id (ri_kind e)), ie_row_group = ri_row_group e, ie_columns = ri_columns e,
     ie_offset = ri_offset e, ie_len = ri_len e, ie_crc = ri_crc e\<rparr>"

lemma slice_opt_Some: "slice_opt xs a b = Some ys \<Longrightarrow> a \<le> b \<and> b \<le> length xs \<and> length ys = b - a"
  by (auto simp: slice_opt_def split: if_splits)

lemma chunk_at_encoding:
  assumes "chunk_at out ch col" "col_wf col" "decodable col" "length out < 2 ^ 64"
  shows "\<exists>enc bytes. encoding_from_id (rc_encoding ch) = Some enc \<and> applies_to enc (col_ty col) \<and>
    range_ok SEG_HEADER_LEN (length out) (rc_offset ch) (rc_len ch) \<and> slice_opt out (rc_offset ch) (rc_offset ch + rc_len ch) = Some bytes \<and>
    crc32c bytes = rc_crc ch \<and> decode_column (col_ty col) (col_len col) (encoding_id enc) bytes = Inr col"
proof -
  from assms(1) obtain pin enc bytes where e: "encode_column col pin = Some (enc, bytes)" "rc_len ch = length bytes" "SEG_HEADER_LEN \<le> rc_offset ch"
    "slice_opt out (rc_offset ch) (rc_offset ch + rc_len ch) = Some bytes" "rc_crc ch = crc32c bytes" "rc_encoding ch = encoding_id enc"
    by (auto simp: chunk_at_def)
  have len: "rc_offset ch + rc_len ch \<le> length out" using slice_opt_Some [OF e(4)] by simp
  then have "length bytes < 2 ^ 64" using e(2) assms(4) by simp
  note d = encode_column_decodes [OF assms(2,3) e(1) this]
  have "encoding_from_id (rc_encoding ch) = Some enc" unfolding e(6) by (cases enc) (simp_all add: encoding_from_id_def)
  with d e len assms(4) show ?thesis by (intro exI [of _ enc] exI [of _ bytes]) (simp add: range_ok_def)
qed

lemma open_chunks_ok:
  assumes "list_all2 (chunk_at out) chunks cols" "length cols = length fs" "\<forall>i < length fs. col_wf (cols ! i) \<and> decodable (cols ! i) \<and> col_ty (cols ! i) = fd_ty (fs ! i)"
    "length out < 2 ^ 64"
  shows "open_chunks (length out) (zip chunks fs) = Inr (map (\<lambda>ch. (meta_of ch, range_of ch)) chunks)"
  using assms(1-3)
proof (induction chunks arbitrary: cols fs)
  case (Cons ch chunks)
  then obtain c cs where cols: "cols = c # cs" "chunk_at out ch c" "list_all2 (chunk_at out) chunks cs" by (auto simp: list_all2_Cons1)
  with Cons.prems(2) obtain f gs where fs: "fs = f # gs" "length cs = length gs" by (cases fs) auto
  have c: "col_wf c" "decodable c" "col_ty c = fd_ty f" using Cons.prems(3) cols(1) fs(1) by fastforce+
  have "\<forall>i < length gs. col_wf (cs ! i) \<and> decodable (cs ! i) \<and> col_ty (cs ! i) = fd_ty (gs ! i)"
    using Cons.prems(3) cols(1) fs(1) by fastforce
  from Cons.IH [OF cols(3) fs(2) this] chunk_at_encoding [OF cols(2) c(1,2) assms(4)] c(3)
  show ?case unfolding fs(1) by (auto simp: meta_of_def range_of_def)
qed simp

lemma open_row_groups_ok:
  assumes "list_all2 (row_group_at out) rgs (zip gs cols)" "length gs = length cols" "length out < 2 ^ 64"
    "\<And>k. k < length gs \<Longrightarrow> group_rows (gs ! k) \<le> MAX_DECODE_ROWS \<and> length (cols ! k) = length fs \<and>
       (\<forall>i < length fs. col_wf (cols ! k ! i) \<and> decodable (cols ! k ! i) \<and> col_ty (cols ! k ! i) = fd_ty (fs ! i))"
  shows "open_row_groups (length out) fs rgs =
    Inr (map (\<lambda>rg. (\<lparr>rm_rows = rg_rows rg, rm_chunks = map meta_of (rg_chunks rg)\<rparr>, map range_of (rg_chunks rg))) rgs)"
  using assms(1,2,4)
proof (induction rgs arbitrary: gs cols)
  case (Cons rg rgs)
  then obtain g gs' c cs where g: "gs = g # gs'" "cols = c # cs" "row_group_at out rg (g, c)" "list_all2 (row_group_at out) rgs (zip gs' cs)"
    by (cases gs; cases cols) (auto simp: list_all2_Cons1)
  have l: "length gs' = length cs" using Cons.prems(2) g by simp
  have "\<And>k. k < length gs' \<Longrightarrow> group_rows (gs' ! k) \<le> MAX_DECODE_ROWS \<and> length (cs ! k) = length fs \<and>
       (\<forall>i < length fs. col_wf (cs ! k ! i) \<and> decodable (cs ! k ! i) \<and> col_ty (cs ! k ! i) = fd_ty (fs ! i))"
    using Cons.prems(3) [of "Suc _"] g(1,2) by simp
  note rest = Cons.IH [OF g(4) l this]
  have h: "group_rows g \<le> MAX_DECODE_ROWS" "length c = length fs"
    "\<forall>i < length fs. col_wf (c ! i) \<and> decodable (c ! i) \<and> col_ty (c ! i) = fd_ty (fs ! i)"
    using Cons.prems(3) [of 0] g(1,2) by simp_all
  have "list_all2 (chunk_at out) (rg_chunks rg) c" "rg_rows rg = group_rows g" using g(3) by (simp_all add: row_group_at_def)
  with open_chunks_ok [OF this(1) h(2,3) assms(3)] rest h(1) show ?case by (simp add: o_def)
qed simp

lemma index_kind_ids [simp]: "index_kind_from_id (index_kind_id kind) = Some kind"
  by (cases kind) (simp_all add: index_kind_from_id_def)

lemma resolve_entries_ok:
  assumes "\<forall>e \<in> set es. entry_at out fs groups e" "length out < 2 ^ 64"
  shows "resolve_entries fs (length groups) SEG_HEADER_LEN (length out) es = Inr (map entry_of es)"
  using assms(1)
proof (induction es)
  case (Cons e es)
  from Cons.prems obtain k i kind blob where
    e: "e = \<lparr>ri_kind = index_kind_id kind, ri_row_group = Some k, ri_columns = [i], ri_offset = ri_offset e, ri_len = length blob,
       ri_crc = crc32c blob, ri_params = []\<rparr>"
    and b: "k < length groups" "i < length fs" "index_applies_to kind (fd_ty (fs ! i))" "SEG_HEADER_LEN \<le> ri_offset e"
      "slice_opt out (ri_offset e) (ri_offset e + length blob) = Some blob" by (auto simp: entry_at_def)
  have s: "ri_kind e = index_kind_id kind" "ri_row_group e = Some k" "ri_columns e = [i]" "ri_len e = length blob"
    by (subst e, simp)+
  have "ri_offset e + length blob \<le> length out" using slice_opt_Some [OF b(5)] by simp
  then have "range_ok SEG_HEADER_LEN (length out) (ri_offset e) (ri_len e)" using b(4) s(4) assms(2) by (simp add: range_ok_def)
  moreover have "entry_columns_ok kind fs (ri_columns e) = Inr ()" using b(2,3) s(3) by (simp add: nth_opt_def)
  ultimately show ?case using Cons b(1) s(1-3) by (simp add: entry_of_def)
qed simp

definition opened :: "byte list \<Rightarrow> field list \<Rightarrow> seg_writer \<Rightarrow> byte list \<Rightarrow> seg_reader" where
  "opened bytes fs w fb = \<lparr>sr_bytes = bytes, sr_fields = fs,
     sr_row_groups = map (\<lambda>rg. \<lparr>rm_rows = rg_rows rg, rm_chunks = map meta_of (rg_chunks rg)\<rparr>) (sw_row_groups w),
     sr_chunk_ranges = map (\<lambda>rg. map range_of (rg_chunks rg)) (sw_row_groups w),
     sr_indexes = map entry_of (sw_indexes w), sr_footer_crc = crc32c fb\<rparr>"

definition columns_ok :: "field list \<Rightarrow> batch list list \<Rightarrow> column list list \<Rightarrow> bool" where
  "columns_ok fs gs cols \<longleftrightarrow> length gs = length cols \<and> (\<forall>k < length gs. group_rows (gs ! k) \<le> MAX_DECODE_ROWS \<and> length (cols ! k) = length fs \<and>
     (\<forall>i < length fs. col_wf (cols ! k ! i) \<and> decodable (cols ! k ! i) \<and> col_ty (cols ! k ! i) = fd_ty (fs ! i) \<and>
        col_len (cols ! k ! i) = group_rows (gs ! k) \<and>
        col_rows (cols ! k ! i) = concat (map (\<lambda>b. col_rows (bt_columns b ! i)) (gs ! k))))"

lemma file_columns_ok:
  assumes fl: "file_of byte_size fs (row_groups_of (wo_row_group_rows opts) bs) cols w fb bytes meta"
    and bs: "\<forall>b \<in> set bs. batch_wf b \<and> bt_fields b = fs" and lim: "seg_limits fs opts bs"
  shows "columns_ok fs (row_groups_of (wo_row_group_rows opts) bs) cols"
proof -
  let ?gs = "row_groups_of (wo_row_group_rows opts) bs"
  have g: "list_all2 (grouped fs) ?gs cols" using fl by (simp add: file_of_def writer_inv_def)
  have "group_rows (?gs ! k) \<le> MAX_DECODE_ROWS \<and> length (cols ! k) = length fs \<and>
     (\<forall>i < length fs. col_wf (cols ! k ! i) \<and> decodable (cols ! k ! i) \<and> col_ty (cols ! k ! i) = fd_ty (fs ! i) \<and>
        col_len (cols ! k ! i) = group_rows (?gs ! k) \<and>
        col_rows (cols ! k ! i) = concat (map (\<lambda>b. col_rows (bt_columns b ! i)) (?gs ! k)))" if k: "k < length ?gs" for k
  proof -
    have gk: "grouped fs (?gs ! k) (cols ! k)" using list_all2_nthD [OF g k] .
    have mem: "?gs ! k \<in> set ?gs" using k by simp
    have wf: "\<forall>b \<in> set (?gs ! k). batch_wf b \<and> bt_fields b = fs" using row_groups_subset [OF mem] bs by blast
    have dec: "list_all decodable (cols ! k)" "group_rows (?gs ! k) \<le> MAX_DECODE_ROWS"
      using lim mem gk unfolding seg_limits_def by blast+
    have ty: "\<forall>f \<in> set fs. type_ok (fd_ty f)" using lim by (simp add: seg_limits_def)
    have "length (cols ! k) = length fs" using gk by (simp add: grouped_def)
    then show ?thesis using dec grouped_columns [OF gk wf ty] by (auto simp: list_all_length)
  qed
  then show ?thesis using list_all2_lengthD [OF g] by (simp add: columns_ok_def)
qed

lemma file_footer_codable:
  assumes inv: "writer_inv byte_size fs \<lparr>gh_groups = gs, gh_columns = cols, gh_pending = []\<rparr> w" and ok: "columns_ok fs gs cols"
    and out: "length (sw_out w) < 2 ^ 64" and fs: "length fs \<le> MAX_DECODE_ROWS" "\<forall>f \<in> set fs. utf8_valid (fd_name f) \<and> type_ok (fd_ty f)"
    and n: "length gs \<le> MAX_DECODE_ROWS" "length (sw_indexes w) \<le> MAX_DECODE_ROWS"
  shows "footer_codable \<lparr>ft_fields = fs, ft_row_groups = sw_row_groups w, ft_indexes = sw_indexes w\<rparr>"
proof -
  have len: "length gs = length cols" using ok by (simp add: columns_ok_def)
  have rgs: "list_all2 (row_group_at (sw_out w)) (sw_row_groups w) (zip gs cols)" using inv by (simp add: writer_inv_def)
  then have lrg: "length (sw_row_groups w) = length gs" using len by (auto dest: list_all2_lengthD)
  have "rg_rows (sw_row_groups w ! k) < 2 ^ 64 \<and>
      list_all2 (chunk_codable (rg_rows (sw_row_groups w ! k))) (rg_chunks (sw_row_groups w ! k)) fs" if k: "k < length gs" for k
  proof -
    have at: "row_group_at (sw_out w) (sw_row_groups w ! k) (gs ! k, cols ! k)"
      using list_all2_nthD [OF rgs, of k] k lrg len by simp
    have c: "group_rows (gs ! k) \<le> MAX_DECODE_ROWS" "length (cols ! k) = length fs"
      "\<And>i. i < length fs \<Longrightarrow> col_wf (cols ! k ! i) \<and> col_ty (cols ! k ! i) = fd_ty (fs ! i) \<and> col_len (cols ! k ! i) = group_rows (gs ! k)"
      using ok k by (auto simp: columns_ok_def)
    have rows: "rg_rows (sw_row_groups w ! k) = group_rows (gs ! k)" and ch: "list_all2 (chunk_at (sw_out w)) (rg_chunks (sw_row_groups w ! k)) (cols ! k)"
      using at by (simp_all add: row_group_at_def)
    have "chunk_codable (group_rows (gs ! k)) (rg_chunks (sw_row_groups w ! k) ! i) (fs ! i)" if i: "i < length fs" for i
    proof -
      let ?ch = "rg_chunks (sw_row_groups w ! k) ! i" and ?col = "cols ! k ! i"
      have "chunk_at (sw_out w) ?ch ?col" using list_all2_nthD2 [OF ch] i c(2) by simp
      then obtain st bytes where st: "col_stats ?col = Some st" "slice_opt (sw_out w) (rc_offset ?ch) (rc_offset ?ch + rc_len ?ch) = Some bytes"
        "rc_null_count ?ch = st_null_count st" "rc_min ?ch = fst (bound_stats st)" "rc_max ?ch = snd (bound_stats st)"
        unfolding chunk_at_def by (metis fst_conv snd_conv)
      have wf: "col_wf ?col" "col_ty ?col = fd_ty (fs ! i)" "col_len ?col = group_rows (gs ! k)" using c(3) [OF i] by simp_all
      have "st_null_count st \<le> col_len ?col"
        using col_stats_spec [OF wf(1)] st(1) length_filter_le [of _ "[0..<col_len ?col]"] by auto
      then show ?thesis using stored_bounds [OF wf(1) st(1)] slice_opt_Some [OF st(2)] out st(3-5) wf(2,3)
        by (simp add: chunk_codable_def)
    qed
    then show ?thesis using c(1,2) rows list_all2_lengthD [OF ch] by (simp add: list_all2_conv_all_nth MAX_DECODE_ROWS_def)
  qed
  then have rg: "\<forall>rg \<in> set (sw_row_groups w). rg_rows rg < 2 ^ 64 \<and> list_all2 (chunk_codable (rg_rows rg)) (rg_chunks rg) fs"
    using lrg by (metis in_set_conv_nth)
  have "entry_codable e" if "e \<in> set (sw_indexes w)" for e
  proof -
    have "entry_at (sw_out w) fs cols e" using inv that by (simp add: writer_inv_def)
    then obtain k i kind blob where e: "e = \<lparr>ri_kind = index_kind_id kind, ri_row_group = Some k, ri_columns = [i],
        ri_offset = ri_offset e, ri_len = length blob, ri_crc = crc32c blob, ri_params = []\<rparr>" and b: "k < length cols" "i < length fs"
      "slice_opt (sw_out w) (ri_offset e) (ri_offset e + length blob) = Some blob" by (auto simp: entry_at_def)
    have s: "ri_row_group e = Some k" "ri_columns e = [i]" "ri_len e = length blob" by (subst e, simp)+
    show ?thesis using s b slice_opt_Some [OF b(3)] n(1) fs(1) len out by (simp add: entry_codable_def MAX_DECODE_ROWS_def)
  qed
  then show ?thesis using rg fs n lrg by (simp add: footer_codable_def)
qed

lemma reader_opens:
  assumes fl: "file_of byte_size fs gs cols w fb bytes meta" and ok: "columns_ok fs gs cols" and size: "length bytes < 2 ^ 32"
    and fs: "length fs \<le> MAX_DECODE_ROWS" "\<forall>f \<in> set fs. utf8_valid (fd_name f) \<and> type_ok (fd_ty f)"
    and n: "length gs \<le> MAX_DECODE_ROWS" "length gs * length (sw_index_reqs w) \<le> MAX_DECODE_ROWS"
  shows "reader_open bytes = Inr (opened bytes fs w fb)"
proof -
  note f = fl [unfolded file_of_def]
  have inv: "writer_inv byte_size fs \<lparr>gh_groups = gs, gh_columns = cols, gh_pending = []\<rparr> w" using f by blast
  have bytes: "bytes = write_trailer (sw_out w) SEGMENT_MAGIC fb" using f by blast
  have l: "length fb < 2 ^ 32" "length (sw_out w) < 2 ^ 64" using size unfolding bytes by (simp_all add: write_trailer_def)
  have oo: "out_ok w" and len: "length gs = length cols" and ent: "\<forall>e \<in> set (sw_indexes w). entry_at (sw_out w) fs cols e"
    and rgs: "list_all2 (row_group_at (sw_out w)) (sw_row_groups w) (zip gs cols)"
    and ni: "length (sw_indexes w) \<le> MAX_DECODE_ROWS"
    using inv ok n(2) by (auto simp: writer_inv_def columns_ok_def)
  have lrg: "length (sw_row_groups w) = length cols" using rgs len by (auto dest: list_all2_lengthD)
  have m: "length SEGMENT_MAGIC = 6" by (simp add: SEGMENT_MAGIC_def)
  have tr: "read_trailer bytes SEGMENT_MAGIC SEG_HEADER_LEN = Inr (length (sw_out w), length (sw_out w) + length fb)"
    unfolding bytes by (rule read_write_trailer_after [OF m l(1)]) (use oo in \<open>simp add: out_ok_def\<close>)
  have t8: "take 8 bytes = seg_header SEGMENT_MAGIC"
    using oo unfolding bytes by (simp add: out_ok_def SEG_HEADER_LEN_def write_trailer_def)
  have "take 6 bytes = take 6 (take 8 bytes)" "take 2 (drop 6 bytes) = drop 6 (take 8 bytes)" by (simp_all add: drop_take)
  then have "take 6 bytes = SEGMENT_MAGIC" "take 2 (drop 6 bytes) = to_le_bytes FORMAT_VERSION"
    unfolding t8 seg_header_def using m by simp_all
  then have hd: "check_header bytes SEGMENT_MAGIC = Inr ()" by (simp add: check_header_def from_to_le_bytes)
  have fbs: "take (length fb) (drop (length (sw_out w)) bytes) = fb" unfolding bytes by (simp add: write_trailer_def)
  let ?ft = "\<lparr>ft_fields = fs, ft_row_groups = sw_row_groups w, ft_indexes = sw_indexes w\<rparr>"
  have "footer_codable ?ft" by (rule file_footer_codable [OF inv ok l(2) fs n(1) ni])
  from footer_roundtrip [OF this] f l(1) have ft: "decode_footer fb = Inr ?ft" by auto
  have og: "open_row_groups (length (sw_out w)) fs (sw_row_groups w) =
    Inr (map (\<lambda>rg. (\<lparr>rm_rows = rg_rows rg, rm_chunks = map meta_of (rg_chunks rg)\<rparr>, map range_of (rg_chunks rg))) (sw_row_groups w))"
    by (rule open_row_groups_ok [OF rgs len l(2)]) (use ok in \<open>simp add: columns_ok_def\<close>)
  have re: "resolve_entries fs (length (sw_row_groups w)) SEG_HEADER_LEN (length (sw_out w)) (sw_indexes w) = Inr (map entry_of (sw_indexes w))"
    unfolding lrg by (rule resolve_entries_ok [OF ent l(2)])
  show ?thesis unfolding reader_open_def tr by (simp add: hd fbs ft og re opened_def o_def)
qed

lemma opened_reads:
  assumes fl: "file_of byte_size fs gs cols w fb bytes meta" and ok: "columns_ok fs gs cols" and size: "length bytes < 2 ^ 32"
    and k: "k < length gs" and i: "i < length fs"
  shows "read_column (opened bytes fs w fb) k i = eret (cols ! k ! i)"
proof -
  note f = fl [unfolded file_of_def]
  have bytes: "bytes = write_trailer (sw_out w) SEGMENT_MAGIC fb" using f by blast
  then have l: "length (sw_out w) < 2 ^ 64" using size by (simp add: write_trailer_def)
  have len: "length gs = length cols" and rgs: "list_all2 (row_group_at (sw_out w)) (sw_row_groups w) (zip gs cols)"
    using f ok by (auto simp: writer_inv_def columns_ok_def)
  then have lrg: "length (sw_row_groups w) = length gs" by (auto dest: list_all2_lengthD)
  let ?rg = "sw_row_groups w ! k" and ?col = "cols ! k ! i"
  have at: "row_group_at (sw_out w) ?rg (gs ! k, cols ! k)" using list_all2_nthD [OF rgs, of k] k lrg len by simp
  have c: "length (cols ! k) = length fs" "col_wf ?col" "decodable ?col" "col_ty ?col = fd_ty (fs ! i)" "col_len ?col = group_rows (gs ! k)"
    using ok k i by (auto simp: columns_ok_def)
  have ch: "length (rg_chunks ?rg) = length fs" "chunk_at (sw_out w) (rg_chunks ?rg ! i) ?col" "rg_rows ?rg = group_rows (gs ! k)"
    using at i c(1) by (auto simp: row_group_at_def list_all2_conv_all_nth)
  from chunk_at_encoding [OF ch(2) c(2,3) l] obtain enc b where
    b: "encoding_from_id (rc_encoding (rg_chunks ?rg ! i)) = Some enc"
      "slice_opt (sw_out w) (rc_offset (rg_chunks ?rg ! i)) (rc_offset (rg_chunks ?rg ! i) + rc_len (rg_chunks ?rg ! i)) = Some b"
      "crc32c b = rc_crc (rg_chunks ?rg ! i)" "decode_column (col_ty ?col) (col_len ?col) (encoding_id enc) b = Inr ?col" by blast
  have s: "slice_opt bytes (rc_offset (rg_chunks ?rg ! i)) (rc_offset (rg_chunks ?rg ! i) + rc_len (rg_chunks ?rg ! i)) = Some b"
    unfolding bytes write_trailer_def by (rule slice_opt_append [OF b(2)])
  show ?thesis unfolding read_column_def opened_def
    using k i lrg ch(1,3) s b c(4,5) by (simp add: nth_opt_def range_of_def meta_of_def)
qed

end
