(* ===== verification/Segment_Props.thy ===== *)
theory Segment_Props
  imports Segment_Read
begin

text \<open>
  What a segment file promises, over the writer and the reader together: no batch is lost and
  every column is read back, the statistics of a row group and of the whole segment cover
  their columns, and the skip indexes deny nothing that is there.
\<close>

section \<open>The range of a chunk\<close>

text \<open>What a scan tells the zone-map test of a chunk (the closure of \<open>read_segment\<close> in \<open>src/storage/scan.rs\<close>).\<close>

definition chunk_range :: "row_group_meta \<Rightarrow> chunk_meta \<Rightarrow> column_range" where
  "chunk_range rg chunk = \<lparr>cr_rows = rm_rows rg, cr_null_count = cm_null_count chunk, cr_min = cm_min chunk, cr_max = cm_max chunk\<rparr>"

section \<open>No batch is lost\<close>

lemma group_step_concat:
  "group_step n b st = (gs, pend) \<Longrightarrow> concat gs @ pend = concat (fst st) @ snd st @ (if bt_rows b = 0 then [] else [b])"
  by (cases st) (auto simp: group_step_def split: if_splits)

lemma group_steps_concat:
  "fold (group_step n) bs st = (gs, pend) \<Longrightarrow> concat gs @ pend = concat (fst st) @ snd st @ filter (\<lambda>b. bt_rows b \<noteq> 0) bs"
proof (induction bs arbitrary: st)
  case (Cons b bs)
  obtain g p where s: "group_step n b st = (g, p)" by fastforce
  from Cons.IH [of "(g, p)"] Cons.prems group_step_concat [OF s] show ?case by (simp add: s)
qed simp

lemma row_groups_concat: "concat (row_groups_of n bs) = filter (\<lambda>b. bt_rows b \<noteq> 0) bs"
proof -
  obtain gs pend where st: "fold (group_step n) bs ([], []) = (gs, pend)" by fastforce
  from group_steps_concat [OF st] show ?thesis by (auto simp: row_groups_of_def st)
qed

lemma group_rows_total: "sum_list (map group_rows (row_groups_of n bs)) = sum_list (map bt_rows bs)"
proof -
  have "sum_list (map group_rows gs) = sum_list (map bt_rows (concat gs))" for gs by (induction gs) (simp_all add: group_rows_def)
  moreover have "sum_list (map bt_rows (filter (\<lambda>b. 0 < bt_rows b) bs)) = sum_list (map bt_rows bs)" by (induction bs) simp_all
  ultimately show ?thesis by (simp add: row_groups_concat)
qed

section \<open>Statistics of the segment\<close>

text \<open>A bound on one side of a set of values; no bound means there are none.\<close>

definition bounds_side :: "ordering \<Rightarrow> data_type \<Rightarrow> val set \<Rightarrow> val option \<Rightarrow> bool" where
  "bounds_side side ty vs m \<longleftrightarrow> (case m of None \<Rightarrow> vs = {} | Some x \<Rightarrow> of_kind ty x \<and> (\<forall>v \<in> vs. total_cmp v x \<noteq> Some side))"

lemma side_trans:
  assumes k: "of_kind ty a" "of_kind ty b" "of_kind ty c" and side: "side = Less \<or> side = Greater"
    and "total_cmp a b = Some side" "total_cmp c b \<noteq> Some side"
  shows "total_cmp a c = Some side"
  using side
proof
  assume "side = Less"
  then show ?thesis using assms value_order.less_split [OF k(1,3,2)] by auto
next
  assume "side = Greater"
  then show ?thesis using assms value_order.less_split [OF k(2,3,1)] value_order.greater_iff [OF k(1,2)] value_order.greater_iff [OF k(1,3)]
      value_order.greater_iff [OF k(3,2)] by auto
qed

lemma bounds_side_merge:
  assumes a: "bounds_side side ty vs m" and b: "bounds_side side ty ws (Some y)" and side: "side = Less \<or> side = Greater"
    and k: "\<And>v. v \<in> vs \<union> ws \<Longrightarrow> of_kind ty v"
  shows "bounds_side side ty (vs \<union> ws) (if better side y m then Some y else m)"
proof (cases m)
  case None
  then show ?thesis using a b by (auto simp: bounds_side_def better_def)
next
  case (Some x)
  have x: "of_kind ty x" "\<And>v. v \<in> vs \<Longrightarrow> total_cmp v x \<noteq> Some side" and y: "of_kind ty y" "\<And>v. v \<in> ws \<Longrightarrow> total_cmp v y \<noteq> Some side"
    using a b Some by (auto simp: bounds_side_def)
  show ?thesis
  proof (cases "total_cmp y x = Some side")
    case True
    have "total_cmp v y \<noteq> Some side" if "v \<in> vs" for v
    proof
      assume v: "total_cmp v y = Some side"
      have "total_cmp x y \<noteq> Some side"
        using True side value_order.greater_iff [OF x(1) y(1)] value_order.greater_iff [OF y(1) x(1)] by auto
      moreover have "of_kind ty v" using k that by simp
      ultimately have "total_cmp v x = Some side" using side_trans [OF _ y(1) x(1) side v] by blast
      then show False using x(2) [OF that] by simp
    qed
    then show ?thesis using True Some y by (auto simp: bounds_side_def better_def)
  next
    case False
    have "total_cmp v x \<noteq> Some side" if "v \<in> ws" for v
      using side_trans [OF k x(1) y(1) side _ False, of v] y(2) [OF that] that by auto
    then show ?thesis using False Some x by (auto simp: bounds_side_def better_def)
  qed
qed

definition nulls_of :: "column \<Rightarrow> nat" where
  "nulls_of c = length (filter (\<lambda>j. col_get c j = Some VNull) [0..<col_len c])"

definition values_of :: "column list \<Rightarrow> val set" where
  "values_of cs = (\<Union>c \<in> set cs. col_values c)"

text \<open>What the accumulated statistics say of the columns merged into them.\<close>

definition acc_ok :: "data_type \<Rightarrow> column list \<Rightarrow> stats_acc \<Rightarrow> bool" where
  "acc_ok ty cs acc \<longleftrightarrow>
     sa_null_count acc = sum_list (map nulls_of cs) \<and> sa_rows acc = sum_list (map col_len cs) \<and>
     (if is_list ty then sa_min acc = None \<and> sa_max acc = None
      else bounds_side Less ty (values_of cs) (sa_min acc) \<and>
           (\<not> sa_max_dropped acc \<longrightarrow> bounds_side Greater ty (values_of cs) (sa_max acc)))"

lemma nulls_of_le: "nulls_of c \<le> col_len c"
  using length_filter_le [of _ "[0..<col_len c]"] by (simp add: nulls_of_def)

lemma nulls_of_none: "nulls_of c = 0 \<Longrightarrow> j < col_len c \<Longrightarrow> col_get c j \<noteq> Some VNull"
  by (auto simp: nulls_of_def filter_empty_conv)

lemma nulls_of_all:
  assumes "nulls_of c = col_len c"
  shows "col_values c = {}"
proof -
  have "length (filter (\<lambda>j. col_get c j = Some VNull) [0..<col_len c]) = length [0..<col_len c]" using assms by (simp add: nulls_of_def)
  then have "col_get c j = Some VNull" if "j \<in> set [0..<col_len c]" for j
    using length_filter_less [OF that, of "\<lambda>j. col_get c j = Some VNull"] by auto
  then show ?thesis by (auto simp: col_values_def)
qed

lemma sum_nulls_all: "sum_list (map nulls_of cs) = sum_list (map col_len cs) \<Longrightarrow> c \<in> set cs \<Longrightarrow> nulls_of c = col_len c"
proof (induction cs)
  case (Cons x cs)
  have "sum_list (map nulls_of cs) \<le> sum_list (map col_len cs)" by (induction cs) (simp_all add: add_mono nulls_of_le)
  then show ?case using Cons nulls_of_le [of x] by auto
qed simp

lemma acc_ok_covers:
  assumes acc: "acc_ok ty cs acc" and c: "c \<in> set cs" "col_ty c = ty"
  shows "Prune.covers (range_of_stats (stats_acc_finish acc)) c"
proof -
  have n: "sa_null_count acc = sum_list (map nulls_of cs)" "sa_rows acc = sum_list (map col_len cs)" using acc by (simp_all add: acc_ok_def)
  have "nulls_of c = 0" if "sa_null_count acc = 0" using that n(1) c(1) by (simp add: sum_list_eq_0_iff)
  moreover have "col_values c = {}" if "sa_null_count acc = sa_rows acc"
    using that n nulls_of_all sum_nulls_all [OF _ c(1)] by simp
  moreover have "col_values c \<subseteq> values_of cs" using c(1) by (auto simp: values_of_def)
  ultimately show ?thesis using acc c(2) nulls_of_none [of c]
    by (auto simp: Prune.covers_def range_of_stats_def stats_acc_finish_def acc_ok_def bounds_side_def split: if_splits option.splits)
qed

lemma acc_ok_step:
  assumes acc: "acc_ok ty cs acc" and c: "col_wf c" "col_ty c = ty" and cs: "\<forall>x \<in> set cs. col_wf x \<and> col_ty x = ty"
  shows "acc_ok ty (cs @ [c]) (acc_column c acc)"
proof -
  obtain st where st: "col_stats c = Some st" "st_rows st = col_len c" "st_null_count st = nulls_of c"
    and mm: "if (\<exists>e. ty = TList e) then st_min st = None \<and> st_max st = None
       else least_of (col_values c) (st_min st) \<and> greatest_of (col_values c) (st_max st)"
    using col_stats_spec [OF c(1)] c(2) by (auto simp: nulls_of_def)
  define mn mx where b: "mn = fst (bound_stats st)" "mx = snd (bound_stats st)"
  have m: "acc_column c acc = stats_acc_merge acc st mn mx" using st(1) by (simp add: acc_column_def b)
  have vs: "values_of (cs @ [c]) = values_of cs \<union> col_values c" by (auto simp: values_of_def)
  have kind: "of_kind ty v" if v: "v \<in> values_of cs \<union> col_values c" for v
  proof -
    from v c cs obtain x where "col_wf x" "col_ty x = ty" "v \<in> col_values x" by (auto simp: values_of_def)
    then show ?thesis using values_typed has_type_of_kind by blast
  qed
  show ?thesis
  proof (cases "col_len c \<le> nulls_of c")
    case True
    then have "col_values c = {}" using nulls_of_all nulls_of_le [of c] by simp
    then show ?thesis using acc True unfolding m acc_ok_def vs by (simp add: stats_acc_merge_def st(2,3))
  next
    case some: False
    show ?thesis
    proof (cases "is_list ty")
      case True
      then have "mn = None" "mx = None" using mm b by (auto simp: bound_stats_def is_list_def split: data_type.splits)
      then show ?thesis using acc True some unfolding m acc_ok_def vs by (simp add: stats_acc_merge_def st(2,3) Let_def)
    next
      case scalar: False
      then have lg: "least_of (col_values c) (st_min st)" "greatest_of (col_values c) (st_max st)"
        using mm by (auto simp: is_list_def split: if_splits)
      have ne: "col_values c \<noteq> {}"
      proof
        assume e: "col_values c = {}"
        have "col_get c j = Some VNull" if "j < col_len c" for j
          using e that col_get_typed [OF c(1) that] by (auto simp: col_values_def)
        then have "filter (\<lambda>j. col_get c j = Some VNull) [0..<col_len c] = [0..<col_len c]" by (intro filter_True) simp
        then show False using some by (simp add: nulls_of_def)
      qed
      then obtain lo where lo: "mn = Some lo" using lg(1) b by (cases "st_min st") (auto simp: least_of_def bound_stats_def)
      note cov = stored_covers [OF c(1) st(1)]
      have l: "bounds_side Less ty (col_values c) (Some lo)" using cov lo c(2) b(1) by (simp add: Prune.covers_def bounds_side_def)
      have h: "bounds_side Greater ty (col_values c) (Some hi)" if "mx = Some hi" for hi
        using cov that c(2) b(2) by (simp add: Prune.covers_def bounds_side_def)
      have lower: "bounds_side Less ty (values_of cs \<union> col_values c) (if better Less lo (sa_min acc) then Some lo else sa_min acc)"
        by (rule bounds_side_merge [OF _ l _ kind]) (use acc scalar in \<open>simp_all add: acc_ok_def\<close>)
      have upper: "bounds_side Greater ty (values_of cs \<union> col_values c) (if better Greater hi (sa_max acc) then Some hi else sa_max acc)"
        if "mx = Some hi" "\<not> sa_max_dropped acc" for hi
        by (rule bounds_side_merge [OF _ h [OF that(1)] _ kind]) (use acc scalar that in \<open>simp_all add: acc_ok_def\<close>)
      show ?thesis using acc some lower upper scalar unfolding m acc_ok_def vs
        by (auto simp: stats_acc_merge_def st(2,3) Let_def lo split: option.splits)
    qed
  qed
qed

lemma acc_ok_groups:
  assumes "\<forall>cols \<in> set groups. col_wf (cols ! i) \<and> col_ty (cols ! i) = ty"
  shows "acc_ok ty (map (\<lambda>cols. cols ! i) groups) (fold (\<lambda>cols. acc_column (cols ! i)) groups stats_acc_new)"
  using assms
proof (induction groups rule: rev_induct)
  case Nil
  then show ?case by (simp add: acc_ok_def stats_acc_new_def bounds_side_def values_of_def)
next
  case (snoc cols groups)
  then show ?case using acc_ok_step [of ty "map (\<lambda>cols. cols ! i) groups"] by simp
qed

section \<open>The written file, opened\<close>

lemma segment_opens:
  assumes w: "write_segment byte_size fs opts bs = Some (Inr (bytes, meta))" and bs: "\<forall>b \<in> set bs. batch_wf b"
    and lim: "seg_limits fs opts bs" and size: "length bytes < 2 ^ 32"
  shows "\<exists>cols w fb. file_of byte_size fs (row_groups_of (wo_row_group_rows opts) bs) cols w fb bytes meta \<and>
    columns_ok fs (row_groups_of (wo_row_group_rows opts) bs) cols \<and> reader_open bytes = Inr (opened bytes fs w fb)"
proof -
  from write_segment_file [OF w bs] obtain cols w fb where
    fl: "file_of byte_size fs (row_groups_of (wo_row_group_rows opts) bs) cols w fb bytes meta" "length (sw_index_reqs w) = length (wo_indexes opts)"
    and f: "\<forall>b \<in> set bs. bt_fields b = fs" by auto
  note ok = file_columns_ok [OF fl(1) _ lim]
  then have ok: "columns_ok fs (row_groups_of (wo_row_group_rows opts) bs) cols" using bs f by blast
  have "reader_open bytes = Inr (opened bytes fs w fb)"
    by (rule reader_opens [OF fl(1) ok size]) (use lim fl(2) in \<open>auto simp: seg_limits_def\<close>)
  then show ?thesis using fl(1) ok by blast
qed

lemma opened_chunk:
  assumes fl: "file_of byte_size fs gs cols w fb bytes meta" and ok: "columns_ok fs gs cols" and k: "k < length gs" and i: "i < length fs"
  shows "Prune.covers (chunk_range (sr_row_groups (opened bytes fs w fb) ! k) (rm_chunks (sr_row_groups (opened bytes fs w fb) ! k) ! i)) (cols ! k ! i)"
proof -
  have len: "length gs = length cols" and rgs: "list_all2 (row_group_at (sw_out w)) (sw_row_groups w) (zip gs cols)"
    using fl ok by (auto simp: file_of_def writer_inv_def columns_ok_def)
  then have lrg: "length (sw_row_groups w) = length gs" by (auto dest: list_all2_lengthD)
  let ?rg = "sw_row_groups w ! k" and ?col = "cols ! k ! i"
  have at: "row_group_at (sw_out w) ?rg (gs ! k, cols ! k)" using list_all2_nthD [OF rgs, of k] k lrg len by simp
  have c: "length (cols ! k) = length fs" "col_wf ?col" "col_len ?col = group_rows (gs ! k)" using ok k i by (auto simp: columns_ok_def)
  have ch: "length (rg_chunks ?rg) = length fs" "chunk_at (sw_out w) (rg_chunks ?rg ! i) ?col" "rg_rows ?rg = group_rows (gs ! k)"
    using at i c(1) by (auto simp: row_group_at_def list_all2_conv_all_nth)
  from ch(2) obtain st where st: "col_stats ?col = Some st" "rc_null_count (rg_chunks ?rg ! i) = st_null_count st"
    "rc_min (rg_chunks ?rg ! i) = fst (bound_stats st)" "rc_max (rg_chunks ?rg ! i) = snd (bound_stats st)"
    unfolding chunk_at_def by (metis fst_conv snd_conv)
  have "st_rows st = rg_rows ?rg" using col_stats_spec [OF c(2)] st(1) c(3) ch(3) by auto
  then show ?thesis using stored_covers [OF c(2) st(1)] st(2-4) k i lrg ch(1)
    by (simp add: opened_def chunk_range_def meta_of_def)
qed

lemma segment_stats:
  assumes ok: "columns_ok fs gs cols" and k: "k < length gs" and i: "i < length fs"
  shows "Prune.covers (range_of_stats (map stats_acc_finish (stats_of_groups fs cols) ! i)) (cols ! k ! i)"
proof -
  have c: "length gs = length cols" "\<forall>x \<in> set cols. col_wf (x ! i) \<and> col_ty (x ! i) = fd_ty (fs ! i)"
    using ok i by (auto simp: columns_ok_def in_set_conv_nth)
  have mem: "cols ! k \<in> set cols" using k c(1) by simp
  have "Prune.covers (range_of_stats (stats_acc_finish (fold (\<lambda>cols. acc_column (cols ! i)) cols stats_acc_new))) (cols ! k ! i)"
    by (rule acc_ok_covers [OF acc_ok_groups [OF c(2)]]) (use mem c(2) in auto)
  then show ?thesis using i by (simp add: stats_of_groups_def)
qed

lemma opened_index:
  assumes fl: "file_of byte_size fs gs cols w fb bytes meta" and ok: "columns_ok fs gs cols" and e: "e \<in> set (sr_indexes (opened bytes fs w fb))"
  shows "\<exists>k i idx. ie_row_group e = Some k \<and> ie_columns e = [i] \<and> k < length gs \<and> i < length fs \<and>
    load_index (opened bytes fs w fb) e = eret idx \<and> skip_kind idx = ie_kind e \<and> (\<forall>v \<in> col_values (cols ! k ! i). \<not> denies idx v)"
proof -
  note f = fl [unfolded file_of_def]
  have bytes: "bytes = sw_out w @ write_trailer [] SEGMENT_MAGIC fb" using f by (simp add: write_trailer_def)
  from e obtain r where r: "r \<in> set (sw_indexes w)" "e = entry_of r" by (auto simp: opened_def)
  have "entry_at (sw_out w) fs cols r" using f r(1) by (simp add: writer_inv_def)
  then obtain k i kind blob where
    e1: "r = \<lparr>ri_kind = index_kind_id kind, ri_row_group = Some k, ri_columns = [i], ri_offset = ri_offset r, ri_len = length blob,
       ri_crc = crc32c blob, ri_params = []\<rparr>"
    and b: "k < length cols" "i < length fs" "slice_opt (sw_out w) (ri_offset r) (ri_offset r + length blob) = Some blob"
      "index_build kind (cols ! k ! i) = Some (Some blob)" by (auto simp: entry_at_def)
  have s: "ie_kind e = kind" "ie_row_group e = Some k" "ie_columns e = [i]" "ie_len e = length blob" "ie_crc e = crc32c blob" "ie_offset e = ri_offset r"
    unfolding r(2) by (subst e1, simp add: entry_of_def)+
  have c: "col_wf (cols ! k ! i)" "col_ty (cols ! k ! i) = fd_ty (fs ! i)" "length gs = length cols"
    using ok b(1,2) by (auto simp: columns_ok_def)
  from index_build_sound [OF c(1), of kind] b(4) obtain idx where
    x: "index_load kind (fd_ty (fs ! i)) blob = Inr idx" "skip_kind idx = kind"
      "\<And>j v. j < col_len (cols ! k ! i) \<Longrightarrow> col_get (cols ! k ! i) j = Some v \<Longrightarrow> v \<noteq> VNull \<Longrightarrow> \<not> denies idx v" using c(2) by auto
  have "slice_opt bytes (ri_offset r) (ri_offset r + length blob) = Some blob" unfolding bytes by (rule slice_opt_append [OF b(3)])
  then have "load_index (opened bytes fs w fb) e = eret idx"
    using s b(2) x(1) by (simp add: load_index_def load_entry_def opened_def nth_opt_def)
  moreover have "\<forall>v \<in> col_values (cols ! k ! i). \<not> denies idx v" using x(3) by (auto simp: col_values_def)
  ultimately show ?thesis using s b(1,2) c(3) x(2) by (intro exI [of _ k] exI [of _ i] exI [of _ idx]) simp
qed

section \<open>A small file\<close>

definition sample_field :: field where
  "sample_field = \<lparr>fd_name = [97], fd_ty = TInt64\<rparr>"

definition sample_col :: column where
  "sample_col = Column TInt64 (CInt64 [7, 8]) None 0"

definition sample_batch :: batch where
  "sample_batch = \<lparr>bt_fields = [sample_field], bt_columns = [sample_col], bt_rows = 2\<rparr>"

definition sample_options :: writer_options where
  "sample_options = \<lparr>wo_row_group_rows = 1, wo_pins = [([97], EPlain)], wo_indexes = [([97], KValueSet)]\<rparr>"

lemma sample_index: "index_build KValueSet sample_col = Some (Some [2, 7, 0, 0, 0, 0, 0, 0, 0, 8, 0, 0, 0, 0, 0, 0, 0])"
  by code_simp

lemma sample_encoded: "encode_column sample_col (Some EPlain) = Some (EPlain, [0, 7, 0, 0, 0, 0, 0, 0, 0, 8, 0, 0, 0, 0, 0, 0, 0])"
  by code_simp

lemma sample_stats: "col_stats sample_col = Some \<lparr>st_rows = 2, st_null_count = 0, st_min = Some (VInt64 7), st_max = Some (VInt64 8)\<rparr>"
  by code_simp

lemma sample_concat: "col_concat TInt64 [sample_col] = Inr sample_col"
  by code_simp

lemma sample_row_groups: "row_groups_of 1 [sample_batch] = [[sample_batch]]"
  by code_simp

lemma sample_limits: "batch_wf sample_batch" "seg_limits [sample_field] sample_options [sample_batch]"
proof -
  show "batch_wf sample_batch" by (simp add: sample_batch_def sample_col_def sample_field_def batch_wf_def validity_ok_def col_len_def)
  have "decodable c" if "grouped [sample_field] [sample_batch] [c]" for c
    using that sample_concat
    by (simp add: grouped_def sample_batch_def sample_field_def sample_col_def MAX_DECODE_ROWS_def del: col_concat.simps)
  moreover have "cols = [hd cols]" if "grouped [sample_field] [sample_batch] cols" for cols
    using that by (cases cols) (auto simp: grouped_def)
  ultimately have "list_all decodable cols" if "grouped [sample_field] [sample_batch] cols" for cols
    using that by (metis list.pred_inject)
  then show "seg_limits [sample_field] sample_options [sample_batch]"
    using sample_row_groups
    by (simp add: seg_limits_def sample_options_def MAX_DECODE_ROWS_def group_rows_def sample_batch_def sample_field_def)
qed

text \<open>A writer that appends at most so many bytes.\<close>

definition grows :: "nat \<Rightarrow> wr \<Rightarrow> bool" where
  "grows n w \<longleftrightarrow> (\<forall>s. \<exists>b. w s = Some (s @ b) \<and> length b \<le> n)"

lemma growsI: "(\<And>s. w s = Some (s @ b)) \<Longrightarrow> length b \<le> n \<Longrightarrow> grows n w"
  by (auto simp: grows_def)

lemma grows_seq: "grows 0 (wseq [])" "grows n w \<Longrightarrow> grows m (wseq ws) \<Longrightarrow> grows (n + m) (wseq (w # ws))"
proof -
  assume w: "grows n w" and ws: "grows m (wseq ws)"
  show "grows (n + m) (wseq (w # ws))" unfolding grows_def
  proof
    fix s
    obtain b where b: "w s = Some (s @ b)" "length b \<le> n" using w unfolding grows_def by blast
    obtain d where d: "wseq ws (s @ b) = Some ((s @ b) @ d)" "length d \<le> m" using ws unfolding grows_def by blast
    show "\<exists>c. wseq (w # ws) s = Some (s @ c) \<and> length c \<le> n + m" using b d by (intro exI [of _ "b @ d"]) simp
  qed
qed (simp add: grows_def)

lemma grows_uvarint: "grows 10 (wt (sink_uvarint v))"
  by (rule growsI [of _ "sink_uvarint v []"]) (simp only: wt_def option.inject, rule sink_uvarint_append, rule uvarint_length_le_10)

lemma grows_bytes: "grows (length x + 10) (wt (sink_bytes x))"
proof -
  have "sink_bytes x s = s @ sink_uvarint (word_of_nat (length x)) [] @ x" for s
    unfolding sink_bytes_def sink_raw_def by (subst sink_uvarint_append) simp
  then show ?thesis using uvarint_length_le_10 [of "word_of_nat (length x)"]
    by (intro growsI [of _ "sink_uvarint (word_of_nat (length x)) [] @ x"]) (simp_all add: wt_def)
qed

lemma grows_mono: "grows n w \<Longrightarrow> n \<le> m \<Longrightarrow> grows m w"
  unfolding grows_def by (meson le_trans)

lemma grows_record:
  assumes "grows n w"
  shows "grows (n + 10) (wrecord w)"
proof -
  from assms obtain b where "w sink_new = Some (sink_new @ b)" "length b \<le> n" unfolding grows_def by blast
  then have "wrecord w = wt (sink_bytes b)" "length b + 10 \<le> n + 10" by (auto simp: wrecord_def wt_def sink_new_def)
  then show ?thesis using grows_mono [OF grows_bytes] by simp
qed

lemma grows_small:
  "grows 10 (w_nat k)" "grows 4 (wt (sink_u32 c))" "grows 9 (encode_opt (Some (VInt64 x)) TInt64)"
  "grows (length n + 10) (w_str n)" "grows 20 (wt (encode_type TInt64))"
proof -
  show "grows 10 (w_nat k)" unfolding w_nat_def by (rule grows_uvarint)
  show "grows 4 (wt (sink_u32 c))" by (rule growsI [of _ "to_le_bytes c"]) (simp_all add: wt_def sink_u32_def)
  show "grows 9 (encode_opt (Some (VInt64 x)) TInt64)"
    by (rule growsI [of _ "1 # to_le_bytes x"]) (simp_all add: encode_opt_def sink_u8_def sink_i64_def)
  show "grows (length n + 10) (w_str n)" unfolding w_str_def sink_str_def [abs_def] by (rule grows_bytes)
  have "wt (encode_type TInt64) = wseq [wt (sink_uvarint 2), wt (sink_bytes [])]"
    by (auto simp: wt_def encode_raw_type_def)
  then show "grows 20 (wt (encode_type TInt64))"
    using grows_seq(2) [OF grows_uvarint [of 2] grows_seq(2) [OF grows_bytes [of "[]"] grows_seq(1)]] by simp
qed

lemma sample_footer_small:
  "\<exists>b. encode_footer \<lparr>ft_fields = [sample_field], ft_row_groups = [\<lparr>rg_rows = 2, rg_chunks = [\<lparr>rc_offset = 8, rc_len = 17, rc_crc = c,
      rc_encoding = 0, rc_null_count = 0, rc_min = Some (VInt64 7), rc_max = Some (VInt64 8)\<rparr>]\<rparr>],
    ft_indexes = [\<lparr>ri_kind = index_kind_id KValueSet, ri_row_group = Some 0, ri_columns = [0], ri_offset = 25, ri_len = 17,
      ri_crc = d, ri_params = []\<rparr>]\<rparr> sink_new = Some b \<and> length b < 1000"
proof -
  have "grows 400 (encode_footer \<lparr>ft_fields = [sample_field], ft_row_groups = [\<lparr>rg_rows = 2, rg_chunks = [\<lparr>rc_offset = 8, rc_len = 17, rc_crc = c,
      rc_encoding = 0, rc_null_count = 0, rc_min = Some (VInt64 7), rc_max = Some (VInt64 8)\<rparr>]\<rparr>],
    ft_indexes = [\<lparr>ri_kind = index_kind_id KValueSet, ri_row_group = Some 0, ri_columns = [0], ri_offset = 25, ri_len = 17,
      ri_crc = d, ri_params = []\<rparr>]\<rparr>)"
    unfolding encode_footer_def encode_fields_def encode_row_groups_def encode_chunk_meta_def encode_directory_def wlist_def sample_field_def
    by (simp del: wseq.simps index_kind_id.simps)
      (rule grows_mono, (rule grows_seq grows_record grows_small grows_uvarint grows_bytes)+, simp)
  note this [unfolded grows_def, THEN spec, of sink_new]
  then show ?thesis by (auto simp: sink_new_def)
qed
lemma sample_written:
  "\<exists>bytes meta. write_segment (\<lambda>_. 0) [sample_field] sample_options [sample_batch] = Some (Inr (bytes, meta)) \<and> length bytes < 2 ^ 32"
proof -
  have new: "\<exists>w. writer_new [sample_field] sample_options = Inr w \<and> sw_fields w = [sample_field] \<and> sw_pins w = [Some EPlain] \<and>
    sw_index_reqs w = [(0, KValueSet)] \<and> sw_pending w = [[]] \<and> sw_pending_rows w = 0 \<and> sw_row_groups w = [] \<and> sw_indexes w = [] \<and>
    sw_row_group_rows w = 1 \<and> sw_pos w = 8 \<and> length (sw_out w) = 8 \<and> sw_stats w = [stats_acc_new]"
    by (simp add: writer_new_def sample_options_def sample_field_def MAX_DECODE_ROWS_def SEG_HEADER_LEN_def seg_header_def SEGMENT_MAGIC_def)
  then obtain w where w: "writer_new [sample_field] sample_options = Inr w" "sw_fields w = [sample_field]" "sw_pins w = [Some EPlain]"
    "sw_index_reqs w = [(0, KValueSet)]" "sw_pending w = [[]]" "sw_pending_rows w = 0" "sw_row_groups w = []" "sw_indexes w = []"
    "sw_row_group_rows w = 1" "sw_pos w = 8" "length (sw_out w) = 8" "sw_stats w = [stats_acc_new]" by blast
  have fd: "fd_ty sample_field = TInt64" by (simp add: sample_field_def)
  obtain fb where fb: "length fb < 1000" "encode_footer \<lparr>ft_fields = [sample_field], ft_row_groups = [\<lparr>rg_rows = 2, rg_chunks = [\<lparr>rc_offset = 8, rc_len = 17,
      rc_crc = crc32c [0, 7, 0, 0, 0, 0, 0, 0, 0, 8, 0, 0, 0, 0, 0, 0, 0], rc_encoding = 0, rc_null_count = 0, rc_min = Some (VInt64 7), rc_max = Some (VInt64 8)\<rparr>]\<rparr>],
    ft_indexes = [\<lparr>ri_kind = 2, ri_row_group = Some 0, ri_columns = [0], ri_offset = 25, ri_len = 17,
      ri_crc = crc32c [2, 7, 0, 0, 0, 0, 0, 0, 0, 8, 0, 0, 0, 0, 0, 0, 0], ri_params = []\<rparr>]\<rparr> sink_new = Some fb"
    using sample_footer_small by fastforce
  have n: "Suc (Suc 0) = 2" "Suc (Suc (Suc (Suc (Suc (Suc (Suc (Suc (Suc (Suc (Suc (Suc (Suc (Suc (Suc (Suc (Suc 0)))))))))))))))) = 17" by simp_all
  show ?thesis
    unfolding write_segment_def w(1)
    using fb(1) by (simp add: w writer_push_def writer_flush_def writer_finish_def sample_batch_def nth_opt_def flush_column_def flush_index_def fd
      sample_concat sample_encoded sample_stats sample_index bound_stats_def write_trailer_def SEGMENT_MAGIC_def FORMAT_VERSION_def del: col_concat.simps)
     (unfold n, insert fb(2), simp add: w(11) del: index_kind_id.simps)
qed

section \<open>Properties of segment files\<close>

text \<open>
  C3. A segment file gives back what was pushed into its writer. Whenever writing succeeds,
  within the limits that the reader enforces and below 4 GiB, opening the file succeeds; its
  row groups are the pushed batches in order, none lost, gathered until \<open>row_group_rows\<close> rows
  are reached; every column of every row group is read back with the rows of those batches
  and the field's type; and the returned metadata is true of the file.
\<close>

theorem segment_roundtrip:
  assumes "write_segment byte_size fs opts bs = Some (Inr (bytes, meta))" "\<forall>b \<in> set bs. batch_wf b"
    "seg_limits fs opts bs" "length bytes < 2 ^ 32"
  shows "\<exists>r. reader_open bytes = Inr r \<and> sr_fields r = fs \<and>
    map rm_rows (sr_row_groups r) = map group_rows (row_groups_of (wo_row_group_rows opts) bs) \<and>
    concat (row_groups_of (wo_row_group_rows opts) bs) = filter (\<lambda>b. bt_rows b \<noteq> 0) bs \<and>
    mt_rows meta = sum_list (map bt_rows bs) \<and> mt_rows meta = reader_rows r \<and> mt_row_groups meta = length (sr_row_groups r) \<and>
    mt_bytes meta = length bytes \<and> mt_footer_crc meta = sr_footer_crc r \<and>
    (\<forall>k < length (sr_row_groups r). \<forall>i < length fs. \<exists>col. read_column r k i = eret col \<and> col_wf col \<and> col_ty col = fd_ty (fs ! i) \<and>
       col_rows col = concat (map (\<lambda>b. col_rows (bt_columns b ! i)) (row_groups_of (wo_row_group_rows opts) bs ! k)))"
proof -
  let ?gs = "row_groups_of (wo_row_group_rows opts) bs"
  obtain cols w fb where f: "file_of byte_size fs ?gs cols w fb bytes meta" "columns_ok fs ?gs cols" "reader_open bytes = Inr (opened bytes fs w fb)"
    using segment_opens [OF assms] by blast
  have rg: "map rg_rows (sw_row_groups w) = map group_rows ?gs"
    using f(1,2) by (intro nth_equalityI) (auto simp: file_of_def writer_inv_def columns_ok_def row_group_at_def list_all2_conv_all_nth)
  have len: "length (sw_row_groups w) = length ?gs" using arg_cong [OF rg, of length] by simp
  have m: "mt_rows meta = sum_list (map group_rows ?gs)" "mt_row_groups meta = length ?gs" "mt_bytes meta = length bytes" "mt_footer_crc meta = crc32c fb"
    using f(1) by (simp_all add: file_of_def)
  show ?thesis
  proof (intro exI [of _ "opened bytes fs w fb"] conjI allI impI)
    fix k i
    assume "k < length (sr_row_groups (opened bytes fs w fb))" and i: "i < length fs"
    then have k: "k < length ?gs" using len by (simp add: opened_def)
    show "\<exists>col. read_column (opened bytes fs w fb) k i = eret col \<and> col_wf col \<and> col_ty col = fd_ty (fs ! i) \<and>
       col_rows col = concat (map (\<lambda>b. col_rows (bt_columns b ! i)) (?gs ! k))"
      using opened_reads [OF f(1,2) assms(4) k i] f(2) k i by (auto simp: columns_ok_def)
  qed (use f(3) m rg len in \<open>simp_all add: opened_def o_def row_groups_concat group_rows_total reader_rows_def\<close>)
qed

theorem segment_roundtrip_witness:
  "\<exists>bytes meta r. write_segment (\<lambda>_. 0) [sample_field] sample_options [sample_batch] = Some (Inr (bytes, meta)) \<and>
     reader_open bytes = Inr r \<and> mt_rows meta = 2 \<and> (\<exists>col. read_column r 0 0 = eret col \<and> col_rows col = [Some (VInt64 7), Some (VInt64 8)])"
proof -
  obtain bytes meta where w: "write_segment (\<lambda>_. 0) [sample_field] sample_options [sample_batch] = Some (Inr (bytes, meta))"
    "length bytes < 2 ^ 32" using sample_written by blast
  have wf: "\<forall>b \<in> set [sample_batch]. batch_wf b" using sample_limits(1) by simp
  have g: "row_groups_of (wo_row_group_rows sample_options) [sample_batch] = [[sample_batch]]"
    using sample_row_groups by (simp add: sample_options_def)
  from segment_roundtrip [OF w(1) wf sample_limits(2) w(2), unfolded g] obtain r where r: "reader_open bytes = Inr r" "mt_rows meta = 2"
    "\<exists>col. read_column r 0 0 = eret col \<and> col_rows col = col_rows sample_col"
    by (auto simp: group_rows_def sample_batch_def eret_def)
  moreover have "col_rows sample_col = [Some (VInt64 7), Some (VInt64 8)]" by code_simp
  ultimately show ?thesis using w(1) by auto
qed

text \<open>
  C4. The statistics a segment carries never lie about its rows. The range that a row group's
  chunk gives to pruning (null count, bounds shortened to 64 bytes, an oversized maximum left
  out) covers the column that is read back, and so do the statistics of the whole segment
  that the writer merges over its row groups and hands to the manifest.
\<close>

theorem segment_ranges_cover:
  assumes "write_segment byte_size fs opts bs = Some (Inr (bytes, meta))" "\<forall>b \<in> set bs. batch_wf b"
    "seg_limits fs opts bs" "length bytes < 2 ^ 32"
  shows "\<exists>r. reader_open bytes = Inr r \<and> (\<forall>k < length (sr_row_groups r). \<forall>i < length fs. \<exists>col. read_column r k i = eret col \<and>
    Prune.covers (chunk_range (sr_row_groups r ! k) (rm_chunks (sr_row_groups r ! k) ! i)) col \<and>
    Prune.covers (range_of_stats (mt_columns meta ! i)) col)"
proof -
  let ?gs = "row_groups_of (wo_row_group_rows opts) bs"
  obtain cols w fb where f: "file_of byte_size fs ?gs cols w fb bytes meta" "columns_ok fs ?gs cols" "reader_open bytes = Inr (opened bytes fs w fb)"
    using segment_opens [OF assms] by blast
  have len: "length (sr_row_groups (opened bytes fs w fb)) = length ?gs"
    using f(1,2) by (auto simp: opened_def file_of_def writer_inv_def columns_ok_def dest!: list_all2_lengthD)
  have m: "mt_columns meta = map stats_acc_finish (stats_of_groups fs cols)" using f(1) by (simp add: file_of_def)
  show ?thesis
  proof (intro exI [of _ "opened bytes fs w fb"] conjI allI impI)
    fix k i
    assume k: "k < length (sr_row_groups (opened bytes fs w fb))" and i: "i < length fs"
    note k = k [unfolded len]
    show "\<exists>col. read_column (opened bytes fs w fb) k i = eret col \<and>
      Prune.covers (chunk_range (sr_row_groups (opened bytes fs w fb) ! k) (rm_chunks (sr_row_groups (opened bytes fs w fb) ! k) ! i)) col \<and>
      Prune.covers (range_of_stats (mt_columns meta ! i)) col"
      using opened_reads [OF f(1,2) assms(4) k i] opened_chunk [OF f(1,2) k i] segment_stats [OF f(2) k i] unfolding m by blast
  qed (rule f(3))
qed

theorem segment_ranges_cover_witness:
  "\<exists>bytes meta r. write_segment (\<lambda>_. 0) [sample_field] sample_options [sample_batch] = Some (Inr (bytes, meta)) \<and>
     reader_open bytes = Inr r \<and> (\<exists>col. read_column r 0 0 = eret col \<and> Prune.covers (range_of_stats (mt_columns meta ! 0)) col)"
proof -
  obtain bytes meta where w: "write_segment (\<lambda>_. 0) [sample_field] sample_options [sample_batch] = Some (Inr (bytes, meta))"
    "length bytes < 2 ^ 32" using sample_written by blast
  have wf: "\<forall>b \<in> set [sample_batch]. batch_wf b" using sample_limits(1) by simp
  from segment_opens [OF w(1) wf sample_limits(2) w(2)] obtain cols x fb where
    f: "file_of (\<lambda>_. 0) [sample_field] (row_groups_of (wo_row_group_rows sample_options) [sample_batch]) cols x fb bytes meta"
      "reader_open bytes = Inr (opened bytes [sample_field] x fb)"
      "columns_ok [sample_field] (row_groups_of (wo_row_group_rows sample_options) [sample_batch]) cols" by blast
  have g: "row_groups_of (wo_row_group_rows sample_options) [sample_batch] = [[sample_batch]]"
    using sample_row_groups by (simp add: sample_options_def)
  have "length (sw_row_groups x) = 1"
    using f(1,3) unfolding g by (auto simp: file_of_def writer_inv_def columns_ok_def dest!: list_all2_lengthD)
  then show ?thesis using segment_ranges_cover [OF w(1) wf sample_limits(2) w(2)] w(1) f(2) by (auto simp: opened_def)
qed

text \<open>
  Every skip index of a segment can be loaded, belongs to one column of one row group of
  the file, and denies no value of the column read back from there.
\<close>

lemma segment_indexes_sound:
  assumes "write_segment byte_size fs opts bs = Some (Inr (bytes, meta))" "\<forall>b \<in> set bs. batch_wf b"
    "seg_limits fs opts bs" "length bytes < 2 ^ 32"
  shows "\<exists>r. reader_open bytes = Inr r \<and> (\<forall>e \<in> set (sr_indexes r). \<exists>k i idx col.
    ie_row_group e = Some k \<and> ie_columns e = [i] \<and> k < length (sr_row_groups r) \<and> i < length fs \<and>
    load_index r e = eret idx \<and> skip_kind idx = ie_kind e \<and> read_column r k i = eret col \<and> (\<forall>v \<in> col_values col. \<not> denies idx v))"
proof -
  let ?gs = "row_groups_of (wo_row_group_rows opts) bs"
  obtain cols w fb where f: "file_of byte_size fs ?gs cols w fb bytes meta" "columns_ok fs ?gs cols" "reader_open bytes = Inr (opened bytes fs w fb)"
    using segment_opens [OF assms] by blast
  have len: "length (sr_row_groups (opened bytes fs w fb)) = length ?gs"
    using f(1,2) by (auto simp: opened_def file_of_def writer_inv_def columns_ok_def dest!: list_all2_lengthD)
  have "\<exists>k i idx col. ie_row_group e = Some k \<and> ie_columns e = [i] \<and> k < length (sr_row_groups (opened bytes fs w fb)) \<and> i < length fs \<and>
    load_index (opened bytes fs w fb) e = eret idx \<and> skip_kind idx = ie_kind e \<and>
    read_column (opened bytes fs w fb) k i = eret col \<and> (\<forall>v \<in> col_values col. \<not> denies idx v)"
    if "e \<in> set (sr_indexes (opened bytes fs w fb))" for e
    using opened_index [OF f(1,2) that] opened_reads [OF f(1,2) assms(4)] len by metis
  then show ?thesis using f(3) by blast
qed

lemma segment_indexes_sound_witness:
  "\<exists>bytes meta r. write_segment (\<lambda>_. 0) [sample_field] sample_options [sample_batch] = Some (Inr (bytes, meta)) \<and>
     reader_open bytes = Inr r \<and> list_all (\<lambda>e. \<exists>idx. load_index r e = eret idx \<and> skip_kind idx = ie_kind e) (sr_indexes r)"
proof -
  obtain bytes meta where w: "write_segment (\<lambda>_. 0) [sample_field] sample_options [sample_batch] = Some (Inr (bytes, meta))"
    "length bytes < 2 ^ 32" using sample_written by blast
  have "\<forall>b \<in> set [sample_batch]. batch_wf b" using sample_limits(1) by simp
  from segment_indexes_sound [OF w(1) this sample_limits(2) w(2)] w(1) show ?thesis by (fastforce simp: list_all_iff)
qed

end
