(* ===== verification/Select.thy ===== *)
theory Select
  imports Eval
begin

text \<open>
  The selection kernels (\<open>src/exec/kernels/select.rs\<close>): \<open>take\<close>, \<open>take_opt\<close> and \<open>filter\<close> over a
  column or a batch, slices and concatenations of batches and \<open>rechunk\<close>. An index closure of
  the source is the list of its results; \<open>None\<close> as an outcome is a panic.
\<close>

section \<open>Model\<close>

record validity_builder =
  vb_bitmap :: "bitmap option"
  vb_len :: nat

definition vb_new :: validity_builder where
  "vb_new = \<lparr>vb_bitmap = None, vb_len = 0\<rparr>"

definition vb_push :: "bool \<Rightarrow> validity_builder \<Rightarrow> validity_builder" where
  "vb_push valid b =
     b\<lparr>vb_bitmap := (case vb_bitmap b of
          Some bm \<Rightarrow> Some (bm_push bm valid)
        | None \<Rightarrow> if valid then None else Some (bm_push (bm_new_valid (vb_len b)) False)),
       vb_len := vb_len b + 1\<rparr>"

fun bool_take :: "bitmap \<Rightarrow> column \<Rightarrow> nat option list \<Rightarrow> bitmap \<Rightarrow> validity_builder \<Rightarrow> (bitmap \<times> validity_builder) option" where
  "bool_take bm col [] out v = Some (out, v)"
| "bool_take bm col (Some i # ixs) out v =
     (case col_is_null col i of
        None \<Rightarrow> None
      | Some isn \<Rightarrow>
          (case (if isn then Some False else bm_get bm i) of
             None \<Rightarrow> None
           | Some x \<Rightarrow> bool_take bm col ixs (bm_push out x) (vb_push (\<not> isn) v)))"
| "bool_take bm col (None # ixs) out v = bool_take bm col ixs (bm_push out False) (vb_push False v)"

fun scalar_take :: "'a list \<Rightarrow> 'a \<Rightarrow> column \<Rightarrow> nat option list \<Rightarrow> 'a list \<Rightarrow> validity_builder \<Rightarrow> ('a list \<times> validity_builder) option" where
  "scalar_take buf dflt col [] out v = Some (out, v)"
| "scalar_take buf dflt col (Some i # ixs) out v =
     (case col_is_null col i of
        None \<Rightarrow> None
      | Some isn \<Rightarrow>
          (case (if isn then Some dflt else nth_opt buf i) of
             None \<Rightarrow> None
           | Some x \<Rightarrow> scalar_take buf dflt col ixs (out @ [x]) (vb_push (\<not> isn) v)))"
| "scalar_take buf dflt col (None # ixs) out v = scalar_take buf dflt col ixs (out @ [dflt]) (vb_push False v)"

text \<open>The offset pushed after each row is \<open>out_data.len() as u32\<close>, which wraps.\<close>

fun take_varwidth :: "u32 list \<Rightarrow> byte list \<Rightarrow> column \<Rightarrow> nat option list \<Rightarrow> u32 list \<Rightarrow> byte list \<Rightarrow> validity_builder \<Rightarrow>
    ((u32 list \<times> byte list) \<times> validity_builder) option" where
  "take_varwidth offsets data col [] out_offsets out_data v = Some ((out_offsets, out_data), v)"
| "take_varwidth offsets data col (Some i # ixs) out_offsets out_data v =
     (case col_is_null col i of
        None \<Rightarrow> None
      | Some True \<Rightarrow> take_varwidth offsets data col ixs (out_offsets @ [of_nat (length out_data)]) out_data (vb_push False v)
      | Some False \<Rightarrow>
          (case row_bytes offsets data i of
             None \<Rightarrow> None
           | Some b \<Rightarrow> take_varwidth offsets data col ixs (out_offsets @ [of_nat (length (out_data @ b))]) (out_data @ b) (vb_push True v)))"
| "take_varwidth offsets data col (None # ixs) out_offsets out_data v =
     take_varwidth offsets data col ixs (out_offsets @ [of_nat (length out_data)]) out_data (vb_push False v)"

fun take_list_generic :: "column \<Rightarrow> nat option list \<Rightarrow> builder \<Rightarrow> column option" where
  "take_list_generic col [] b = Some (builder_finish b)"
| "take_list_generic col (Some i # ixs) b =
     (case col_get col i of
        None \<Rightarrow> None
      | Some v \<Rightarrow> (case push v b of Some (Inr _, b') \<Rightarrow> take_list_generic col ixs b' | _ \<Rightarrow> None))"
| "take_list_generic col (None # ixs) b = (case push_null b of None \<Rightarrow> None | Some b' \<Rightarrow> take_list_generic col ixs b')"

text \<open>\<open>Column::from_parts(..).expect(..)\<close> over the buffers just taken.\<close>

definition parts :: "data_type \<Rightarrow> ('a \<Rightarrow> column_data) \<Rightarrow> ('a \<times> validity_builder) option \<Rightarrow> column option" where
  "parts ty con r = Option.bind r (\<lambda>(buf, v). case from_parts ty (con buf) (vb_bitmap v) of Inl e \<Rightarrow> None | Inr c \<Rightarrow> Some c)"

definition build_by_index :: "column \<Rightarrow> nat option list \<Rightarrow> column option" where
  "build_by_index col ixs =
     (case col_data col of
        CBool bm \<Rightarrow> parts (col_ty col) CBool (bool_take bm col ixs (bm_new_valid 0) vb_new)
      | CInt64 s \<Rightarrow> parts (col_ty col) CInt64 (scalar_take s 0 col ixs [] vb_new)
      | CUInt64 s \<Rightarrow> parts (col_ty col) CUInt64 (scalar_take s 0 col ixs [] vb_new)
      | CFloat64 s \<Rightarrow> parts (col_ty col) CFloat64 (scalar_take s 0 col ixs [] vb_new)
      | CDecimal s \<Rightarrow> parts (col_ty col) CDecimal (scalar_take s 0 col ixs [] vb_new)
      | CTimestamp s \<Rightarrow> parts (col_ty col) CTimestamp (scalar_take s 0 col ixs [] vb_new)
      | CDate s \<Rightarrow> parts (col_ty col) CDate (scalar_take s 0 col ixs [] vb_new)
      | CUuid s \<Rightarrow> parts (col_ty col) CUuid (scalar_take s (replicate 16 0) col ixs [] vb_new)
      | CIp s \<Rightarrow> parts (col_ty col) CIp (scalar_take s (replicate 16 0) col ixs [] vb_new)
      | CString offsets data \<Rightarrow> parts (col_ty col) (\<lambda>(p, d). CString p d) (take_varwidth offsets data col ixs [0] [] vb_new)
      | CBytes offsets data \<Rightarrow> parts (col_ty col) (\<lambda>(p, d). CBytes p d) (take_varwidth offsets data col ixs [0] [] vb_new)
      | CList offsets values \<Rightarrow> take_list_generic col ixs (with_capacity (col_ty col)))"

definition col_take :: "column \<Rightarrow> u32 list \<Rightarrow> column option" where
  "col_take col indices = build_by_index col (map (Some \<circ> unat) indices)"

definition col_take_opt :: "column \<Rightarrow> u32 option list \<Rightarrow> column option" where
  "col_take_opt col indices = build_by_index col (map (map_option unat) indices)"

definition col_filter :: "column \<Rightarrow> bitmap \<Rightarrow> column option" where
  "col_filter col keep =
     (if bm_len keep \<noteq> col_len col then None
      else col_take col (filter (\<lambda>i. bm_at keep (unat i)) (map of_nat [0..<unat (of_nat (col_len col) :: u32)])))"

text \<open>\<open>Batch::new(..).expect(..)\<close> over the columns of a batch, each through a kernel.\<close>

definition batch_of :: "field list \<Rightarrow> column option list \<Rightarrow> batch option" where
  "batch_of fs cols = Option.bind (those cols) (\<lambda>cs. case batch_new fs cs of Inl e \<Rightarrow> None | Inr b \<Rightarrow> Some b)"

definition take_batch :: "batch \<Rightarrow> u32 list \<Rightarrow> batch option" where
  "take_batch b indices = batch_of (bt_fields b) (map (\<lambda>c. col_take c indices) (bt_columns b))"

definition filter_batch :: "batch \<Rightarrow> bitmap \<Rightarrow> batch option" where
  "filter_batch b keep = batch_of (bt_fields b) (map (\<lambda>c. col_filter c keep) (bt_columns b))"

definition slice_batch :: "batch \<Rightarrow> nat \<Rightarrow> nat \<Rightarrow> batch option" where
  "slice_batch b start len = batch_of (bt_fields b) (map (\<lambda>c. col_slice c start len) (bt_columns b))"

fun concat_columns :: "(nat \<times> field) list \<Rightarrow> batch list \<Rightarrow> column list exec" where
  "concat_columns [] batches = eret []"
| "concat_columns ((i, f) # fs) batches =
     ebind (expect (those (map (\<lambda>b. nth_opt (bt_columns b) i) batches))) (\<lambda>cols.
     case col_concat (fd_ty f) cols of
       Inl e \<Rightarrow> efail (plan_of_column_error e)
     | Inr c \<Rightarrow> ebind (concat_columns fs batches) (\<lambda>cs. eret (c # cs)))"

definition concat_batches :: "field list \<Rightarrow> batch list \<Rightarrow> batch exec" where
  "concat_batches fs batches =
     ebind (concat_columns (enumerate 0 fs) batches) (\<lambda>cs.
     case batch_new fs cs of Inl e \<Rightarrow> efail (Plan ''bad batch'') | Inr b \<Rightarrow> eret b)"

definition BATCH_ROWS :: nat where
  "BATCH_ROWS = 4096"

function rechunk_loop :: "batch \<Rightarrow> nat \<Rightarrow> nat \<Rightarrow> batch list \<Rightarrow> batch list option" where
  "rechunk_loop combined tot start out =
     (if start < tot
      then let len = min (tot - start) BATCH_ROWS
           in case slice_batch combined start len of
                None \<Rightarrow> None
              | Some b \<Rightarrow> rechunk_loop combined tot (start + len) (out @ [b])
      else Some out)"
  by pat_completeness auto
termination
  by (relation "measure (\<lambda>(combined, tot, start, out). tot - start)") (auto simp: BATCH_ROWS_def)

declare rechunk_loop.simps [simp del]

definition rechunk :: "field list \<Rightarrow> batch list \<Rightarrow> batch list exec" where
  "rechunk fs batches =
     (let tot = sum_list (map bt_rows batches)
      in if tot = 0 then eret []
         else ebind (concat_batches fs batches) (\<lambda>combined. expect (rechunk_loop combined tot 0 [])))"

section \<open>Taking rows by index\<close>

definition in_range :: "column \<Rightarrow> nat option \<Rightarrow> bool" where
  "in_range col ix = (case ix of None \<Rightarrow> True | Some i \<Rightarrow> i < col_len col)"

definition row_at :: "column \<Rightarrow> nat option \<Rightarrow> val option" where
  "row_at col ix = (case ix of None \<Rightarrow> Some VNull | Some i \<Rightarrow> col_get col i)"

definition valid_at :: "column \<Rightarrow> nat option \<Rightarrow> bool" where
  "valid_at col ix \<longleftrightarrow> row_at col ix \<noteq> Some VNull"

definition pick :: "'a list \<Rightarrow> 'a \<Rightarrow> column \<Rightarrow> nat option \<Rightarrow> 'a" where
  "pick buf dflt col ix = (if valid_at col ix then buf ! the ix else dflt)"

definition vb_of :: "bool list \<Rightarrow> validity_builder" where
  "vb_of bits = fold vb_push bits vb_new"

lemma vb_of_snoc: "vb_of (bits @ [b]) = vb_push b (vb_of bits)"
  by (simp add: vb_of_def)

lemma vb_of_spec:
  "vb_len (vb_of bits) = length bits \<and>
   (case vb_bitmap (vb_of bits) of None \<Rightarrow> (\<forall>b \<in> set bits. b) | Some bm \<Rightarrow> bm_wf bm \<and> bm_bits bm = bits)"
proof (induction bits rule: rev_induct)
  case (snoc b bits)
  then show ?case
    by (auto simp: vb_of_snoc vb_push_def bm_push_wf bm_new_valid_spec intro: replicate_eqI [symmetric] split: option.splits if_splits)
qed (simp add: vb_of_def vb_new_def)

lemma taken_column:
  assumes "type_ok ty" "data_wf ty data" "data_len data = length bits"
  shows "\<exists>c. from_parts ty data (vb_bitmap (vb_of bits)) = Inr c \<and> col_wf c \<and> col_ty c = ty \<and> col_rows c = map2 mask_null bits (data_rows ty data)"
proof -
  let ?v = "vb_bitmap (vb_of bits)"
  let ?c = "Column ty data ?v (case ?v of None \<Rightarrow> 0 | Some v \<Rightarrow> data_len data - bm_count_valid v)"
  note v = vb_of_spec [of bits]
  have ok: "\<And>bm. ?v = Some bm \<Longrightarrow> bm_wf bm \<and> bm_len bm = length bits" using v by (auto split: option.splits)
  have wf: "col_wf ?c" using assms ok by (auto simp: validity_ok_def split: option.splits)
  have "valid_bits ?c = bits" using v assms(3)
    by (auto simp: valid_bits_def col_len_def intro: replicate_eqI [symmetric] split: option.splits)
  then have "col_rows ?c = map2 mask_null bits (data_rows ty data)" using col_rows_split(1) [OF wf] by simp
  moreover have "from_parts ty data ?v = Inr ?c" using from_parts_iff [OF assms(1) data_wf_rep_ok [OF assms(2)], of ?v ?c] wf ok by simp
  ultimately show ?thesis using wf by auto
qed

lemma valid_get:
  assumes "col_wf col" "valid_at col ix" "in_range col ix"
  shows "\<exists>i. ix = Some i \<and> i < col_len col \<and> row_at col ix = data_rows (col_ty col) (col_data col) ! i"
proof -
  obtain i where i: "ix = Some i" "i < col_len col" "col_get col i \<noteq> Some VNull"
    using assms(2,3) by (auto simp: valid_at_def row_at_def in_range_def split: option.splits)
  have "col_rows col ! i = col_get col i" using i(2) by (simp add: col_rows_def)
  then have "col_get col i = mask_null (valid_bits col ! i) (data_rows (col_ty col) (col_data col) ! i)"
    using col_rows_split [OF assms(1)] i(2) by (simp add: col_len_def)
  then show ?thesis using i by (simp add: mask_null_def row_at_def split: if_splits)
qed

lemma null_at:
  assumes "col_wf col" "in_range col (Some i)"
  shows "col_is_null col i = Some (\<not> valid_at col (Some i))"
  using is_null_total [OF assms(1)] assms(2) by (simp add: in_range_def valid_at_def row_at_def)

lemma scalar_take_ok:
  assumes "col_wf col" "\<forall>ix \<in> set ixs. in_range col ix" "length buf = col_len col"
  shows "scalar_take buf d col ixs out (vb_of bits) = Some (out @ map (pick buf d col) ixs, vb_of (bits @ map (valid_at col) ixs))"
  using assms(2)
proof (induction ixs arbitrary: out bits)
  case (Cons ix ixs)
  show ?case
  proof (cases ix)
    case None
    then show ?thesis using Cons.IH [of "out @ [d]" "bits @ [False]"] Cons.prems
      by (simp add: vb_of_snoc pick_def valid_at_def row_at_def)
  next
    case (Some i)
    have r: "in_range col (Some i)" "i < length buf" using Cons.prems Some assms(3) by (simp_all add: in_range_def)
    then show ?thesis using Cons.IH [of "out @ [pick buf d col (Some i)]" "bits @ [valid_at col (Some i)]"] Cons.prems Some
        null_at [OF assms(1) r(1)]
      by (cases "valid_at col (Some i)") (simp_all add: vb_of_snoc pick_def nth_opt_def)
  qed
qed simp

text \<open>What taking promises: a well-formed column of the same type with the chosen rows.\<close>

definition taken :: "column \<Rightarrow> nat option list \<Rightarrow> column option \<Rightarrow> bool" where
  "taken col ixs r \<longleftrightarrow> (\<exists>c. r = Some c \<and> col_wf c \<and> col_ty c = col_ty col \<and> col_rows c = map (row_at col) ixs)"

lemma taken_rows:
  assumes "\<And>ix. ix \<in> set ixs \<Longrightarrow> valid_at col ix \<Longrightarrow> h (f ix) = row_at col ix"
  shows "map2 mask_null (map (valid_at col) ixs) (map h (map f ixs)) = map (row_at col) ixs"
  using assms by (induction ixs) (auto simp: mask_null_def valid_at_def)

lemma taken_scalar:
  assumes wf: "col_wf col" and ixs: "\<forall>ix \<in> set ixs. in_range col ix" and con: "col_data col = con buf"
    and rows: "\<And>v. data_rows (col_ty col) (con v) = map h v" and dwf: "\<And>v. data_wf (col_ty col) (con v) \<longleftrightarrow> (\<forall>u \<in> set v. P u)"
    and len: "\<And>v. data_len (con v) = length v" and d: "P d"
  shows "taken col ixs (parts (col_ty col) con (scalar_take buf d col ixs [] vb_new))"
proof -
  have l: "length buf = col_len col" using con len by (simp add: col_len_def)
  have ty: "type_ok (col_ty col)" "data_wf (col_ty col) (con buf)" using wf con by (cases col; simp)+
  have p: "P (pick buf d col ix)" "valid_at col ix \<Longrightarrow> h (pick buf d col ix) = row_at col ix" if ix: "ix \<in> set ixs" for ix
  proof -
    have r: "in_range col ix" using ixs ix by blast
    have g: "\<exists>i. ix = Some i \<and> i < length buf \<and> row_at col ix = h (buf ! i)" if "valid_at col ix"
      using valid_get [OF wf that r] l con rows by auto
    show "P (pick buf d col ix)" using g ty(2) dwf d by (auto simp: pick_def)
    show "valid_at col ix \<Longrightarrow> h (pick buf d col ix) = row_at col ix" using g by (auto simp: pick_def)
  qed
  have "data_wf (col_ty col) (con (map (pick buf d col) ixs))" using p(1) dwf by auto
  from taken_column [OF ty(1) this, of "map (valid_at col) ixs"] obtain c where
    "from_parts (col_ty col) (con (map (pick buf d col) ixs)) (vb_bitmap (vb_of (map (valid_at col) ixs))) = Inr c"
    "col_wf c" "col_ty c = col_ty col" "col_rows c = map2 mask_null (map (valid_at col) ixs) (map h (map (pick buf d col) ixs))"
    using len rows by auto
  moreover have "scalar_take buf d col ixs [] vb_new = Some (map (pick buf d col) ixs, vb_of (map (valid_at col) ixs))"
    using scalar_take_ok [OF wf ixs l, of d "[]" "[]"] by (simp add: vb_of_def)
  ultimately show ?thesis using taken_rows [of ixs col h "pick buf d col"] p(2) by (simp add: taken_def parts_def)
qed

lemma bool_take_ok:
  assumes "col_wf col" "\<forall>ix \<in> set ixs. in_range col ix" "bm_wf bm" "bm_len bm = col_len col" "bm_wf out"
  shows "\<exists>b. bool_take bm col ixs out (vb_of bits) = Some (b, vb_of (bits @ map (valid_at col) ixs)) \<and> bm_wf b \<and>
    bm_bits b = bm_bits out @ map (pick (bm_bits bm) False col) ixs"
  using assms(2,5)
proof (induction ixs arbitrary: out bits)
  case (Cons ix ixs)
  have w: "bm_wf (bm_push out x)" "bm_bits (bm_push out x) = bm_bits out @ [x]" for x using bm_push_wf [OF Cons.prems(2)] by simp_all
  show ?case
  proof (cases ix)
    case None
    then show ?thesis using Cons.IH [of "bm_push out False" "bits @ [False]"] Cons.prems w(1)
      by (simp add: vb_of_snoc pick_def valid_at_def row_at_def w(2))
  next
    case (Some i)
    have r: "in_range col (Some i)" "i < bm_len bm" using Cons.prems Some assms(4) by (simp_all add: in_range_def)
    then show ?thesis using Cons.IH [of "bm_push out (pick (bm_bits bm) False col (Some i))" "bits @ [valid_at col (Some i)]"] Cons.prems Some w(1)
        null_at [OF assms(1) r(1)] bm_get_wf [OF assms(3) r(2)]
      by (cases "valid_at col (Some i)") (simp_all add: vb_of_snoc pick_def w(2))
  qed
qed simp

lemma taken_bool:
  assumes wf: "col_wf col" and ixs: "\<forall>ix \<in> set ixs. in_range col ix" and con: "col_data col = CBool bm"
  shows "taken col ixs (parts (col_ty col) CBool (bool_take bm col ixs (bm_new_valid 0) vb_new))"
proof -
  have ty: "type_ok (col_ty col)" "col_ty col = TBool" "bm_wf bm" "bm_len bm = col_len col" using wf con by (cases col; simp add: col_len_def)+
  obtain b where b: "bool_take bm col ixs (bm_new_valid 0) vb_new = Some (b, vb_of (map (valid_at col) ixs))" "bm_wf b"
    "bm_bits b = map (pick (bm_bits bm) False col) ixs"
    using bool_take_ok [OF wf ixs ty(3,4), of "bm_new_valid 0" "[]"] by (auto simp: bm_new_valid_spec vb_of_def)
  have len: "bm_len b = length ixs" using arg_cong [OF b(3), of length] by simp
  have rows: "(Some \<circ> VBool) (pick (bm_bits bm) False col ix) = row_at col ix" if "ix \<in> set ixs" "valid_at col ix" for ix
    using valid_get [OF wf that(2)] ixs that con ty bool_rows [OF ty(3)] by (auto simp: pick_def)
  from taken_column [OF ty(1), of "CBool b" "map (valid_at col) ixs"] obtain c where
    "from_parts (col_ty col) (CBool b) (vb_bitmap (vb_of (map (valid_at col) ixs))) = Inr c" "col_wf c" "col_ty c = col_ty col"
    "col_rows c = map2 mask_null (map (valid_at col) ixs) (map (Some \<circ> VBool) (map (pick (bm_bits bm) False col) ixs))"
    using b(2,3) ty(2) len bool_rows [OF b(2)] by auto
  then show ?thesis using b(1) taken_rows [of ixs col "Some \<circ> VBool" "pick (bm_bits bm) False col"] rows by (simp add: taken_def parts_def)
qed

text \<open>The bytes of a row of variable width, none where it is null.\<close>

definition bytes_at :: "u32 list \<Rightarrow> byte list \<Rightarrow> column \<Rightarrow> nat option \<Rightarrow> byte list" where
  "bytes_at offsets data col ix = (if valid_at col ix then the (row_bytes offsets data (the ix)) else [])"

lemma take_varwidth_ok:
  assumes wf: "col_wf col" and "\<forall>ix \<in> set ixs. in_range col ix"
    and ok: "\<And>i. i < col_len col \<Longrightarrow> row_bytes offsets data i \<noteq> None"
    and "offsets_wf p (length d)" "length d + sum_list (map (length \<circ> bytes_at offsets data col) ixs) < 2 ^ 32"
  shows "\<exists>q e. take_varwidth offsets data col ixs p d (vb_of bits) = Some ((q, e), vb_of (bits @ map (valid_at col) ixs)) \<and>
    offsets_wf q (length e) \<and> byte_rows q e = byte_rows p d @ map (Some \<circ> bytes_at offsets data col) ixs"
  using assms(2,4,5)
proof (induction ixs arbitrary: p d bits)
  case (Cons ix ixs)
  let ?b = "bytes_at offsets data col ix"
  have small: "length d + length ?b < 2 ^ 32" using Cons.prems(3) by simp
  note sn = byte_rows_snoc [OF Cons.prems(2) small]
  have rest: "\<exists>q e. take_varwidth offsets data col ixs (p @ [of_nat (length d + length ?b)]) (d @ ?b) (vb_of (bits @ [valid_at col ix])) =
      Some ((q, e), vb_of ((bits @ [valid_at col ix]) @ map (valid_at col) ixs)) \<and>
    offsets_wf q (length e) \<and> byte_rows q e = (byte_rows p d @ [Some ?b]) @ map (Some \<circ> bytes_at offsets data col) ixs"
    using Cons.IH [OF _ sn(1), of "bits @ [valid_at col ix]"] Cons.prems sn(2) by (simp add: add.assoc o_def)
  moreover have "take_varwidth offsets data col (ix # ixs) p d (vb_of bits) =
      take_varwidth offsets data col ixs (p @ [of_nat (length d + length ?b)]) (d @ ?b) (vb_of (bits @ [valid_at col ix]))"
  proof (cases ix)
    case None
    then show ?thesis by (simp add: vb_of_snoc bytes_at_def valid_at_def row_at_def)
  next
    case (Some i)
    have r: "in_range col (Some i)" "i < col_len col" using Cons.prems(1) Some by (simp_all add: in_range_def)
    show ?thesis using null_at [OF wf r(1)] ok [OF r(2)] Some
      by (cases "valid_at col (Some i)") (auto simp: vb_of_snoc bytes_at_def)
  qed
  ultimately show ?case by (simp add: o_def)
qed simp

text \<open>Bytes and list elements the chosen rows hold: what the 32-bit offsets of the result have to reach.\<close>

definition rows_payload :: "column \<Rightarrow> nat option list \<Rightarrow> nat" where
  "rows_payload col ixs = sum_list (map (\<lambda>ix. case row_at col ix of None \<Rightarrow> 0 | Some v \<Rightarrow> val_payload v) ixs)"

lemma taken_varwidth:
  assumes wf: "col_wf col" and ixs: "\<forall>ix \<in> set ixs. in_range col ix" and con: "col_data col = con (offsets, data)"
    and rows: "\<And>p d. data_rows (col_ty col) (con (p, d)) = map h (byte_rows p d)"
    and dwf: "\<And>p d. data_wf (col_ty col) (con (p, d)) \<longleftrightarrow> offsets_wf p (length d) \<and> (\<forall>r \<in> set (byte_rows p d). P r)"
    and len: "\<And>p d. data_len (con (p, d)) = length p - 1" and empty: "P (Some [])"
    and some: "\<And>b v. h (Some b) = Some v \<Longrightarrow> val_payload v = length b" and pay: "rows_payload col ixs < 2 ^ 32"
  shows "taken col ixs (parts (col_ty col) con (take_varwidth offsets data col ixs [0] [] vb_new))"
proof -
  have ty: "type_ok (col_ty col)" "data_wf (col_ty col) (con (offsets, data))" using wf con by (cases col; simp)+
  then have o: "offsets_wf offsets (length data)" "\<And>r. r \<in> set (byte_rows offsets data) \<Longrightarrow> P r" using dwf by auto
  have cl: "col_len col = length offsets - 1" using con len by (simp add: col_len_def)
  have rb: "row_bytes offsets data i = Some (the (row_bytes offsets data i))" if "i < col_len col" for i
    using row_bytes_wf [OF o(1)] that cl by auto
  have row: "h (Some (bytes_at offsets data col ix)) = row_at col ix \<and> P (Some (bytes_at offsets data col ix)) \<and>
      length (bytes_at offsets data col ix) = (case row_at col ix of None \<Rightarrow> 0 | Some v \<Rightarrow> val_payload v)"
    if v: "valid_at col ix" "ix \<in> set ixs" for ix
  proof -
    obtain i where i: "ix = Some i" "i < col_len col" "row_at col ix = data_rows (col_ty col) (col_data col) ! i"
      using valid_get [OF wf v(1)] ixs v(2) by blast
    have b: "byte_rows offsets data ! i = Some (bytes_at offsets data col ix)"
      using rb [OF i(2)] i(1,2) v(1) cl by (simp add: byte_rows_def bytes_at_def)
    have "i < length (byte_rows offsets data)" using i(2) cl by (simp add: byte_rows_def)
    then have "h (Some (bytes_at offsets data col ix)) = row_at col ix" "P (Some (bytes_at offsets data col ix))"
      using i(3) con rows b o(2) nth_mem by fastforce+
    moreover obtain w where "row_at col ix = Some w" using col_get_typed [OF wf i(2)] i(1) by (auto simp: row_at_def)
    ultimately show ?thesis using some by simp
  qed
  have size: "length (bytes_at offsets data col ix) \<le> (case row_at col ix of None \<Rightarrow> 0 | Some v \<Rightarrow> val_payload v)" if "ix \<in> set ixs" for ix
    using row [OF _ that] by (cases "valid_at col ix") (simp_all add: bytes_at_def)
  have "sum_list (map (length \<circ> bytes_at offsets data col) ixs) \<le> rows_payload col ixs"
    unfolding rows_payload_def by (rule sum_list_mono) (use size in simp)
  then have small: "length ([] :: byte list) + sum_list (map (length \<circ> bytes_at offsets data col) ixs) < 2 ^ 32" using pay by simp
  have "offsets_wf [0] (length ([] :: byte list))" by (simp add: offsets_wf_def)
  from take_varwidth_ok [OF wf ixs _ this small, of "[]"] rb obtain q e where
    t: "take_varwidth offsets data col ixs [0] [] vb_new = Some ((q, e), vb_of (map (valid_at col) ixs))" "offsets_wf q (length e)"
      "byte_rows q e = map Some (map (bytes_at offsets data col) ixs)"
    by (force simp: vb_of_def byte_rows_def)
  have "P (Some (bytes_at offsets data col ix))" if "ix \<in> set ixs" for ix
    using row [OF _ that] empty by (cases "valid_at col ix") (simp_all add: bytes_at_def)
  then have "data_wf (col_ty col) (con (q, e))" using dwf t(2,3) by auto
  moreover have "data_len (con (q, e)) = length ixs" using arg_cong [OF t(3), of length] len by (simp add: byte_rows_def)
  ultimately obtain c where "from_parts (col_ty col) (con (q, e)) (vb_bitmap (vb_of (map (valid_at col) ixs))) = Inr c" "col_wf c"
    "col_ty c = col_ty col" "col_rows c = map2 mask_null (map (valid_at col) ixs) (map (h \<circ> Some) (map (bytes_at offsets data col) ixs))"
    using taken_column [OF ty(1), of "con (q, e)" "map (valid_at col) ixs"] rows t(3) by (auto simp: comp_assoc)
  then show ?thesis using t(1) taken_rows [of ixs col "h \<circ> Some" "bytes_at offsets data col"] row by (simp add: taken_def parts_def)
qed

lemma push_value_ok:
  assumes "builder_wf b" "v = VNull \<or> has_type (bd_ty b) v"
  shows "push_ok b [v] (push v b)"
proof (cases "v = VNull")
  case True
  then show ?thesis using push_ok_null [OF assms(1)] by (simp add: push_def is_null_def)
next
  case False
  then have "has_type (bd_ty b) v" "\<not> is_null v" using assms(2) by (auto simp: is_null_def)
  then show ?thesis using push_coerced_ok [OF assms(1)] coerce_id [of "bd_ty b" v] builder_wf_data [OF assms(1)] by (simp add: push_def)
qed

lemma take_list_ok:
  assumes wf: "col_wf col" and "\<forall>ix \<in> set ixs. in_range col ix" "builder_wf b" "bd_ty b = col_ty col"
    "data_payload (bd_data b) + rows_payload col ixs < 2 ^ 32"
  shows "\<exists>c. take_list_generic col ixs b = Some c \<and> col_wf c \<and> col_ty c = col_ty col \<and> col_rows c = builder_rows b @ map (row_at col) ixs"
  using assms(2-5)
proof (induction ixs arbitrary: b)
  case Nil
  then show ?case using builder_wf_data [of b] by (simp add: builder_rows_def)
next
  case (Cons ix ixs)
  obtain v where v: "row_at col ix = Some v" "v = VNull \<or> has_type (col_ty col) v"
    using col_get_typed [OF wf] Cons.prems(1) by (cases ix) (auto simp: row_at_def in_range_def)
  have "push_ok b [v] (push v b)" using push_value_ok [OF Cons.prems(2)] v(2) Cons.prems(3) by simp
  then obtain b' where b': "push v b = Some (Inr (), b')" "bd_ty b' = bd_ty b" "builder_wf b'" "builder_rows b' = builder_rows b @ [Some v]"
    "data_payload (bd_data b') = data_payload (bd_data b) + val_payload v"
    using Cons.prems(4) v(1) by (auto simp: push_ok_def rows_payload_def)
  have "take_list_generic col (ix # ixs) b = take_list_generic col ixs b'"
  proof (cases ix)
    case None
    then have "v = VNull" using v(1) by (simp add: row_at_def)
    then show ?thesis using None b'(1) by (auto simp: push_def is_null_def)
  next
    case (Some i)
    then show ?thesis using v(1) b'(1) by (simp add: row_at_def)
  qed
  moreover have "data_payload (bd_data b') + rows_payload col ixs < 2 ^ 32" using Cons.prems(4) v(1) b'(5) by (simp add: rows_payload_def add.assoc)
  ultimately show ?case using Cons.IH [OF _ b'(3)] Cons.prems b'(2,4) v(1) by simp
qed

lemma new_payload: "data_payload (bd_data (with_capacity ty)) = 0"
  by (induction ty) simp_all

lemma build_by_index_ok:
  assumes wf: "col_wf col" and ixs: "\<forall>ix \<in> set ixs. in_range col ix" and pay: "rows_payload col ixs < 2 ^ 32"
  shows "taken col ixs (build_by_index col ixs)"
proof -
  have ty: "type_ok (col_ty col)" "data_wf (col_ty col) (col_data col)" using wf by (cases col; simp)+
  note scalar = taken_scalar [OF wf ixs] and var = taken_varwidth [OF wf ixs _ _ _ _ _ _ pay]
  show ?thesis
  proof (cases "col_data col")
    case (CBool bm)
    then show ?thesis using taken_bool [OF wf ixs CBool] by (simp add: build_by_index_def)
  next
    case (CString offsets data)
    then have t: "col_ty col = TString" using ty(2) by simp
    have "taken col ixs (parts (col_ty col) (\<lambda>(p, d). CString p d) (take_varwidth offsets data col ixs [0] [] vb_new))"
      by (rule var [where h = "\<lambda>r. case r of None \<Rightarrow> None | Some b \<Rightarrow> if utf8_valid b then Some (VString b) else None" and
          P = "\<lambda>r. \<exists>b. r = Some b \<and> utf8_valid b"])
        (auto simp: CString t varwidth_rows(1) string_wf_rows utf8_valid.simps simp del: data_wf.simps split: if_splits)
    then show ?thesis by (simp add: build_by_index_def CString)
  next
    case (CBytes offsets data)
    then have t: "col_ty col = TBytes" using ty(2) by simp
    have "taken col ixs (parts (col_ty col) (\<lambda>(p, d). CBytes p d) (take_varwidth offsets data col ixs [0] [] vb_new))"
      by (rule var [where h = "map_option VBytes" and P = "\<lambda>_. True"]) (auto simp: CBytes t varwidth_rows(2))
    then show ?thesis by (simp add: build_by_index_def CBytes)
  next
    case (CList offsets vs)
    have "\<exists>c. take_list_generic col ixs (with_capacity (col_ty col)) = Some c \<and> col_wf c \<and> col_ty c = col_ty col \<and> col_rows c = map (row_at col) ixs"
      using take_list_ok [OF wf ixs, of "with_capacity (col_ty col)"] builder_new_wf [OF ty(1)] pay new_payload [of "col_ty col"]
      by (simp del: with_capacity.simps)
    then show ?thesis by (simp add: build_by_index_def CList taken_def del: with_capacity.simps)
  next
    case (CInt64 s)
    then show ?thesis using scalar [of CInt64 s _ "\<lambda>_. True", OF CInt64 scalar_rows(1)] ty(2) by (simp add: build_by_index_def)
  next
    case (CUInt64 s)
    then show ?thesis using scalar [of CUInt64 s _ "\<lambda>_. True", OF CUInt64 scalar_rows(2)] ty(2) by (simp add: build_by_index_def)
  next
    case (CFloat64 s)
    then show ?thesis using scalar [of CFloat64 s _ "\<lambda>_. True", OF CFloat64 scalar_rows(3)] ty(2) by (simp add: build_by_index_def)
  next
    case (CDecimal s)
    then obtain dt where "col_ty col = TDecimal dt" using ty(2) by (cases "col_ty col") auto
    then show ?thesis using scalar [of CDecimal s _ "\<lambda>u. \<bar>sint u\<bar> < 10 ^ unat (dt_precision dt)", OF CDecimal scalar_rows(4)]
      by (simp add: build_by_index_def CDecimal)
  next
    case (CTimestamp s)
    then show ?thesis using scalar [of CTimestamp s _ "\<lambda>_. True", OF CTimestamp scalar_rows(5)] ty(2) by (simp add: build_by_index_def)
  next
    case (CDate s)
    then show ?thesis using scalar [of CDate s _ "\<lambda>_. True", OF CDate scalar_rows(6)] ty(2) by (simp add: build_by_index_def)
  next
    case (CUuid s)
    then show ?thesis using scalar [of CUuid s _ "\<lambda>u. length u = 16", OF CUuid scalar_rows(7)] ty(2) by (simp add: build_by_index_def)
  next
    case (CIp s)
    then show ?thesis using scalar [of CIp s _ "\<lambda>u. length u = 16", OF CIp scalar_rows(8)] ty(2) by (simp add: build_by_index_def)
  qed
qed

section \<open>Batches\<close>

lemma batch_new_ok:
  assumes "length fs = length cs" "distinct (map fd_name fs)" "\<forall>i < length cs. col_ty (cs ! i) = fd_ty (fs ! i) \<and> col_len (cs ! i) = n" "cs \<noteq> []"
  shows "batch_new fs cs = Inr \<lparr>bt_fields = fs, bt_columns = cs, bt_rows = n\<rparr>"
proof -
  obtain c cs' where c: "cs = c # cs'" using assms(4) by (cases cs) auto
  have rows: "(case cs of [] \<Rightarrow> 0 | c # _ \<Rightarrow> col_len c) = n" using assms(3) c by auto
  have "check_types (zip fs cs) = None" using assms(1,3) unfolding check_types_None by (auto simp: set_zip)
  moreover have "check_rows n (zip fs cs) = None" using assms(1,3) unfolding check_rows_None by (auto simp: set_zip)
  moreover have "check_names [] fs = None" using assms(2) by (simp add: check_names_None)
  ultimately show ?thesis using assms(1) rows by (simp add: batch_new_def Let_def)
qed

lemma those_map: "(\<And>x. x \<in> set xs \<Longrightarrow> f x = Some (g x)) \<Longrightarrow> those (map f xs) = Some (map g xs)"
  by (induction xs) simp_all

lemma batch_of_ok:
  assumes b: "batch_wf b" "bt_columns b \<noteq> []"
    and k: "\<And>c. c \<in> set (bt_columns b) \<Longrightarrow> \<exists>d. kern c = Some d \<and> col_wf d \<and> col_ty d = col_ty c \<and> col_rows d = f c \<and> length (f c) = n"
  shows "\<exists>b'. batch_of (bt_fields b) (map kern (bt_columns b)) = Some b' \<and> batch_wf b' \<and> bt_fields b' = bt_fields b \<and> bt_rows b' = n \<and>
    length (bt_columns b') = length (bt_columns b) \<and> (\<forall>i < length (bt_columns b). col_rows (bt_columns b' ! i) = f (bt_columns b ! i))"
proof -
  define g where "g c = the (kern c)" for c
  have g: "kern c = Some (g c) \<and> col_wf (g c) \<and> col_ty (g c) = col_ty c \<and> col_rows (g c) = f c \<and> length (f c) = n" if "c \<in> set (bt_columns b)" for c
    using k [OF that] by (auto simp: g_def)
  have len: "col_len c = length (col_rows c)" for c by (simp add: col_rows_def)
  have "batch_new (bt_fields b) (map g (bt_columns b)) = Inr \<lparr>bt_fields = bt_fields b, bt_columns = map g (bt_columns b), bt_rows = n\<rparr>"
    by (rule batch_new_ok) (use b g in \<open>auto simp: batch_wf_def len\<close>)
  moreover have "those (map kern (bt_columns b)) = Some (map g (bt_columns b))" using g by (intro those_map) blast
  moreover have "batch_wf \<lparr>bt_fields = bt_fields b, bt_columns = map g (bt_columns b), bt_rows = n\<rparr>"
    using b g by (auto simp: batch_wf_def len)
  ultimately show ?thesis using g by (auto simp: batch_of_def)
qed

text \<open>The rows that a mask keeps.\<close>

definition kept :: "bool list \<Rightarrow> 'a list \<Rightarrow> 'a list" where
  "kept bits xs = map snd (filter fst (zip bits xs))"

lemma kept_indices:
  assumes "length bits = n" "length xs = n"
  shows "kept bits xs = map ((!) xs) (filter ((!) bits) [0..<n])"
proof -
  have "zip bits xs = map (\<lambda>i. (bits ! i, xs ! i)) [0..<n]" by (rule nth_equalityI) (use assms in simp_all)
  then show ?thesis by (simp add: kept_def filter_map o_def)
qed

definition col_payload :: "column \<Rightarrow> nat" where
  "col_payload col = rows_payload col (map Some [0..<col_len col])"

lemma filter_payload: "rows_payload col (map Some (filter P xs)) \<le> rows_payload col (map Some xs)"
  by (induction xs) (simp_all add: rows_payload_def)

lemma col_filter_ok:
  assumes wf: "col_wf col" and keep: "bm_wf keep" "bm_len keep = col_len col" and n: "col_len col < 2 ^ 32" "col_payload col < 2 ^ 32"
  shows "\<exists>d. col_filter col keep = Some d \<and> col_wf d \<and> col_ty d = col_ty col \<and> col_rows d = kept (bm_bits keep) (col_rows col)"
proof -
  let ?is = "filter ((!) (bm_bits keep)) [0..<col_len col]"
  have u: "unat (of_nat i :: u32) = i" if "i < 2 ^ 32" for i using that by (simp add: unat_of_nat)
  have "map (Some \<circ> unat) (filter (\<lambda>i. bm_at keep (unat i)) (map (of_nat :: nat \<Rightarrow> u32) [0..<unat (of_nat (col_len col) :: u32)])) =
      map (Some \<circ> unat \<circ> (of_nat :: nat \<Rightarrow> u32)) (filter (\<lambda>i. bm_at keep (unat (of_nat i :: u32))) [0..<col_len col])"
    using u [OF n(1)] by (simp add: filter_map o_def)
  also have "\<dots> = map Some ?is"
    using n(1) u bm_at_eq_bits [OF keep(1)] keep(2) by (intro map_cong filter_cong) auto
  finally have ix: "map (Some \<circ> unat) (filter (\<lambda>i. bm_at keep (unat i)) (map (of_nat :: nat \<Rightarrow> u32) [0..<unat (of_nat (col_len col) :: u32)])) = map Some ?is" .
  have "taken col (map Some ?is) (build_by_index col (map Some ?is))"
    by (rule build_by_index_ok [OF wf])
      (use n(2) filter_payload [of col "(!) (bm_bits keep)" "[0..<col_len col]"] in \<open>auto simp: in_range_def col_payload_def\<close>)
  moreover have "map (row_at col) (map Some ?is) = kept (bm_bits keep) (col_rows col)"
    using keep(2) by (subst kept_indices [of _ "col_len col"]) (auto simp: row_at_def col_rows_def)
  ultimately show ?thesis using keep(2) by (simp add: col_filter_def col_take_def ix taken_def)
qed

lemma kept_length: "length bits = length xs \<Longrightarrow> length (kept bits xs) = length (filter id bits)"
  by (induction bits xs rule: list_induct2) (simp_all add: kept_def)

definition batch_small :: "batch \<Rightarrow> bool" where
  "batch_small b \<longleftrightarrow> bt_rows b < 2 ^ 32 \<and> (\<forall>c \<in> set (bt_columns b). col_payload c < 2 ^ 32)"

lemma batch_columns: "batch_wf b \<Longrightarrow> c \<in> set (bt_columns b) \<Longrightarrow> col_wf c \<and> col_len c = bt_rows b"
  by (auto simp: batch_wf_def in_set_conv_nth)

lemma filter_batch_ok:
  assumes b: "batch_wf b" "bt_columns b \<noteq> []" "batch_small b" and keep: "bm_wf keep" "bm_len keep = bt_rows b"
  shows "\<exists>b'. filter_batch b keep = Some b' \<and> batch_wf b' \<and> bt_fields b' = bt_fields b \<and> bt_rows b' = length (filter id (bm_bits keep)) \<and>
    length (bt_columns b') = length (bt_columns b) \<and>
    (\<forall>i < length (bt_columns b). col_rows (bt_columns b' ! i) = kept (bm_bits keep) (col_rows (bt_columns b ! i)))"
  unfolding filter_batch_def
proof (rule batch_of_ok [OF b(1,2)])
  fix c
  assume c: "c \<in> set (bt_columns b)"
  note w = batch_columns [OF b(1) c]
  have "length (kept (bm_bits keep) (col_rows c)) = length (filter id (bm_bits keep))"
    by (rule kept_length) (use w keep in \<open>simp add: col_rows_def\<close>)
  then show "\<exists>d. col_filter c keep = Some d \<and> col_wf d \<and> col_ty d = col_ty c \<and> col_rows d = kept (bm_bits keep) (col_rows c) \<and>
      length (kept (bm_bits keep) (col_rows c)) = length (filter id (bm_bits keep))"
    using col_filter_ok [of c keep] w keep b(3) c by (auto simp: batch_small_def)
qed

lemma take_batch_ok:
  assumes b: "batch_wf b" "bt_columns b \<noteq> []" and ix: "\<forall>i \<in> set indices. unat i < bt_rows b"
    and small: "\<forall>c \<in> set (bt_columns b). rows_payload c (map (Some \<circ> unat) indices) < 2 ^ 32"
  shows "\<exists>b'. take_batch b indices = Some b' \<and> batch_wf b' \<and> bt_fields b' = bt_fields b \<and> bt_rows b' = length indices \<and>
    length (bt_columns b') = length (bt_columns b) \<and>
    (\<forall>i < length (bt_columns b). col_rows (bt_columns b' ! i) = map (\<lambda>j. col_get (bt_columns b ! i) (unat j)) indices)"
  unfolding take_batch_def
proof (rule batch_of_ok [OF b])
  fix c
  assume c: "c \<in> set (bt_columns b)"
  note w = batch_columns [OF b(1) c]
  have "taken c (map (Some \<circ> unat) indices) (col_take c indices)" unfolding col_take_def
    by (rule build_by_index_ok) (use w ix small c in \<open>auto simp: in_range_def\<close>)
  then show "\<exists>d. col_take c indices = Some d \<and> col_wf d \<and> col_ty d = col_ty c \<and> col_rows d = map (\<lambda>j. col_get c (unat j)) indices \<and>
      length (map (\<lambda>j. col_get c (unat j)) indices) = length indices"
    by (auto simp: taken_def row_at_def o_def)
qed

lemma slice_batch_ok:
  assumes b: "batch_wf b" "bt_columns b \<noteq> []" and r: "start + len \<le> bt_rows b"
  shows "\<exists>b'. slice_batch b start len = Some b' \<and> batch_wf b' \<and> bt_fields b' = bt_fields b \<and> bt_rows b' = len \<and>
    length (bt_columns b') = length (bt_columns b) \<and>
    (\<forall>i < length (bt_columns b). col_rows (bt_columns b' ! i) = take len (drop start (col_rows (bt_columns b ! i))))"
  unfolding slice_batch_def
proof (rule batch_of_ok [OF b])
  fix c
  assume c: "c \<in> set (bt_columns b)"
  note w = batch_columns [OF b(1) c]
  show "\<exists>d. col_slice c start len = Some d \<and> col_wf d \<and> col_ty d = col_ty c \<and> col_rows d = take len (drop start (col_rows c)) \<and>
      length (take len (drop start (col_rows c))) = len"
  proof -
    obtain d where d: "col_slice c start len = Some d" "col_wf d" "col_ty d = col_ty c" "col_len d = len" "\<forall>i < len. col_get d i = col_get c (start + i)"
      using col_slice_spec [of c start len] w r by auto
    have "col_rows d = take len (drop start (col_rows c))"
      by (rule nth_equalityI) (use d(4,5) w r in \<open>auto simp: col_rows_def\<close>)
    then show ?thesis using d w r by (auto simp: col_rows_def)
  qed
qed

definition batch_rows :: "batch \<Rightarrow> nat \<Rightarrow> val option list" where
  "batch_rows b i = col_rows (bt_columns b ! i)"

lemma rechunk_loop_ok:
  assumes "batch_wf b" "bt_columns b \<noteq> []" "start \<le> bt_rows b"
    "\<forall>x \<in> set out. batch_wf x \<and> bt_fields x = bt_fields b \<and> 0 < bt_rows x \<and> bt_rows x \<le> BATCH_ROWS"
    "\<forall>i < length (bt_columns b). concat (map (\<lambda>x. batch_rows x i) out) = take start (batch_rows b i)"
  shows "\<exists>res. rechunk_loop b (bt_rows b) start out = Some res \<and>
    (\<forall>x \<in> set res. batch_wf x \<and> bt_fields x = bt_fields b \<and> 0 < bt_rows x \<and> bt_rows x \<le> BATCH_ROWS) \<and>
    (\<forall>i < length (bt_columns b). concat (map (\<lambda>x. batch_rows x i) res) = batch_rows b i)"
  using assms(3-)
proof (induction "bt_rows b - start" arbitrary: start out rule: less_induct)
  case less
  have len: "length (batch_rows b i) = bt_rows b" if "i < length (bt_columns b)" for i
    using batch_columns [OF assms(1), of "bt_columns b ! i"] that by (simp add: batch_rows_def col_rows_def)
  show ?case
  proof (cases "start < bt_rows b")
    case False
    then show ?thesis using less.prems len by (subst rechunk_loop.simps) auto
  next
    case True
    let ?n = "min (bt_rows b - start) BATCH_ROWS"
    have n: "0 < ?n" "start + ?n \<le> bt_rows b" using True by (auto simp: BATCH_ROWS_def)
    obtain x where x: "slice_batch b start ?n = Some x" "batch_wf x" "bt_fields x = bt_fields b" "bt_rows x = ?n"
      "\<forall>i < length (bt_columns b). batch_rows x i = take ?n (drop start (batch_rows b i))"
      using slice_batch_ok [OF assms(1,2) n(2)] unfolding batch_rows_def by blast
    have "bt_rows b - (start + ?n) < bt_rows b - start" using n True by simp
    from less.hyps [OF this n(2), of "out @ [x]"] less.prems x n(1)
    have "\<exists>res. rechunk_loop b (bt_rows b) (start + ?n) (out @ [x]) = Some res \<and>
      (\<forall>x \<in> set res. batch_wf x \<and> bt_fields x = bt_fields b \<and> 0 < bt_rows x \<and> bt_rows x \<le> BATCH_ROWS) \<and>
      (\<forall>i < length (bt_columns b). concat (map (\<lambda>x. batch_rows x i) res) = batch_rows b i)"
      by (simp add: take_add)
    then show ?thesis using True x(1) by (subst rechunk_loop.simps) (simp add: Let_def)
  qed
qed

lemma try_sum_iff: "(case r of Inl e \<Rightarrow> efail (h e) | Inr x \<Rightarrow> k x) = Some (Inr y) \<longleftrightarrow> (\<exists>x. r = Inr x \<and> k x = Some (Inr y))"
  by (cases r) simp_all

lemma concat_columns_ok:
  assumes "concat_columns (enumerate n fs) batches = Some (Inr cs)" "\<forall>b \<in> set batches. batch_wf b \<and> bt_fields b = gs"
    "n + length fs \<le> length gs" "\<forall>i < length fs. fs ! i = gs ! (n + i)" "\<forall>f \<in> set fs. type_ok (fd_ty f)"
  shows "length cs = length fs \<and> (\<forall>i < length fs. col_wf (cs ! i) \<and> col_ty (cs ! i) = fd_ty (fs ! i) \<and>
    col_rows (cs ! i) = concat (map (\<lambda>b. batch_rows b (n + i)) batches))"
  using assms
proof (induction fs arbitrary: n cs)
  case (Cons f fs)
  from Cons.prems(1) obtain cols c cs' where p: "those (map (\<lambda>b. nth_opt (bt_columns b) n) batches) = Some cols"
    "col_concat (fd_ty f) cols = Inr c" "concat_columns (enumerate (Suc n) fs) batches = Some (Inr cs')" "cs = c # cs'"
    by (auto simp: try_sum_iff simp del: col_concat.simps)
  have l: "length (bt_columns b) = length gs" if "b \<in> set batches" for b using Cons.prems(2) that by (auto simp: batch_wf_def)
  have "those (map (\<lambda>b. nth_opt (bt_columns b) n) batches) = Some (map (\<lambda>b. bt_columns b ! n) batches)"
    by (rule those_map) (use l Cons.prems(3) in \<open>simp add: nth_opt_def\<close>)
  then have cols: "cols = map (\<lambda>b. bt_columns b ! n) batches" using p(1) by simp
  have f: "f = gs ! n" using Cons.prems(4) by fastforce
  have "\<forall>x \<in> set cols. col_wf x \<and> col_ty x = fd_ty f"
    using Cons.prems(2,3) l f unfolding cols by (auto simp: batch_wf_def)
  then have c: "col_wf c \<and> col_ty c = fd_ty f \<and> col_rows c = concat (map col_rows cols)"
    using col_concat_from_data [OF concat_data_ok_all _ _ p(2)] Cons.prems(5) by simp
  have "length cs' = length fs \<and> (\<forall>i < length fs. col_wf (cs' ! i) \<and> col_ty (cs' ! i) = fd_ty (fs ! i) \<and>
    col_rows (cs' ! i) = concat (map (\<lambda>b. batch_rows b (Suc n + i)) batches))"
    by (rule Cons.IH [OF p(3) Cons.prems(2)]) (use Cons.prems(3-5) in fastforce)+
  then show ?case using c p(4) by (auto simp: nth_Cons cols batch_rows_def o_def split: nat.splits)
qed simp

lemma concat_batches_ok:
  assumes "concat_batches fs batches = Some (Inr b)" "\<forall>b \<in> set batches. batch_wf b \<and> bt_fields b = fs" "\<forall>f \<in> set fs. type_ok (fd_ty f)"
  shows "batch_wf b \<and> bt_fields b = fs \<and> (\<forall>i < length fs. batch_rows b i = concat (map (\<lambda>b. batch_rows b i) batches))"
proof -
  from assms(1) obtain cs where cs: "concat_columns (enumerate 0 fs) batches = Some (Inr cs)" "batch_new fs cs = Inr b"
    by (auto simp: concat_batches_def try_sum_iff)
  have c: "length cs = length fs \<and> (\<forall>i < length fs. col_wf (cs ! i) \<and> col_ty (cs ! i) = fd_ty (fs ! i) \<and>
    col_rows (cs ! i) = concat (map (\<lambda>b. batch_rows b (0 + i)) batches))"
    by (rule concat_columns_ok [OF cs(1) assms(2)]) (use assms(3) in simp_all)
  then have "\<forall>x \<in> set cs. col_wf x" by (auto simp: in_set_conv_nth)
  from batch_new_wf [OF cs(2) this] c show ?thesis by (auto simp: batch_rows_def)
qed

lemma concat_batches_total:
  assumes "\<forall>b \<in> set batches. batch_wf b \<and> bt_fields b = fs"
  shows "\<exists>r. concat_batches fs batches = Some r"
proof -
  have l: "length (bt_columns b) = length fs" if "b \<in> set batches" for b using assms that by (auto simp: batch_wf_def)
  have "\<exists>r. concat_columns (enumerate n gs) batches = Some r" if "n + length gs \<le> length fs" for n gs
    using that
  proof (induction gs arbitrary: n)
    case (Cons g gs)
    obtain r where r: "concat_columns (enumerate (Suc n) gs) batches = Some r" using Cons.IH [of "Suc n"] Cons.prems by auto
    have "those (map (\<lambda>b. nth_opt (bt_columns b) n) batches) = Some (map (\<lambda>b. bt_columns b ! n) batches)"
      by (rule those_map) (use l Cons.prems in \<open>simp add: nth_opt_def\<close>)
    then show ?case using r
      by (cases "col_concat (fd_ty g) (map (\<lambda>b. bt_columns b ! n) batches)"; cases r)
        (simp_all add: ebind_def expect_def efail_def eret_def del: col_concat.simps)
  qed (simp add: eret_def)
  from this [of 0 fs] obtain r where "concat_columns (enumerate 0 fs) batches = Some r" by auto
  then show ?thesis by (cases r) (auto simp: concat_batches_def ebind_def efail_def eret_def split: sum.splits)
qed

section \<open>Properties of selection\<close>

text \<open>
  C27. \<open>take_opt\<close> and \<open>filter\<close> never panic in range and give a well-formed column of the same
  type: \<open>take_opt\<close> the chosen rows in the asked order, NULL where no row is asked for,
  \<open>filter\<close> exactly the rows whose bit is set, in order. The chosen bytes and list elements
  have to fit 32-bit offsets, as those of any column do.
\<close>

theorem select_rows:
  assumes "col_wf col" "\<forall>i. Some i \<in> set indices \<longrightarrow> unat i < col_len col" "rows_payload col (map (map_option unat) indices) < 2 ^ 32"
    "bm_wf keep" "bm_len keep = col_len col" "col_len col < 2 ^ 32" "col_payload col < 2 ^ 32"
  shows "(\<exists>c. col_take_opt col indices = Some c \<and> col_wf c \<and> col_ty c = col_ty col \<and>
      col_rows c = map (\<lambda>i. case i of None \<Rightarrow> Some VNull | Some i \<Rightarrow> col_get col (unat i)) indices) \<and>
    (\<exists>c. col_filter col keep = Some c \<and> col_wf c \<and> col_ty c = col_ty col \<and>
      col_rows c = map (col_get col) (filter ((!) (bm_bits keep)) [0..<col_len col]))"
proof
  have "taken col (map (map_option unat) indices) (col_take_opt col indices)" unfolding col_take_opt_def
    by (rule build_by_index_ok) (use assms(1-3) in \<open>auto simp: in_range_def split: option.splits\<close>)
  moreover have "map (row_at col) (map (map_option unat) indices) = map (\<lambda>i. case i of None \<Rightarrow> Some VNull | Some i \<Rightarrow> col_get col (unat i)) indices"
    by (auto simp: row_at_def split: option.splits)
  ultimately show "\<exists>c. col_take_opt col indices = Some c \<and> col_wf c \<and> col_ty c = col_ty col \<and>
      col_rows c = map (\<lambda>i. case i of None \<Rightarrow> Some VNull | Some i \<Rightarrow> col_get col (unat i)) indices" unfolding taken_def by (simp only:)
  have "kept (bm_bits keep) (col_rows col) = map ((!) (col_rows col)) (filter ((!) (bm_bits keep)) [0..<col_len col])"
    by (rule kept_indices) (use assms(5) in \<open>simp_all add: col_rows_def\<close>)
  also have "\<dots> = map (col_get col) (filter ((!) (bm_bits keep)) [0..<col_len col])" by (auto simp: col_rows_def)
  finally show "\<exists>c. col_filter col keep = Some c \<and> col_wf c \<and> col_ty c = col_ty col \<and>
      col_rows c = map (col_get col) (filter ((!) (bm_bits keep)) [0..<col_len col])"
    using col_filter_ok [OF assms(1,4,5,6,7)] by simp
qed

theorem select_rows_witness:
  "\<exists>c. col_take_opt (Column TInt64 (CInt64 [7, 8]) None 0) [Some 1, None, Some 1] = Some c \<and> col_rows c = [Some (VInt64 8), Some VNull, Some (VInt64 8)]"
proof -
  let ?col = "Column TInt64 (CInt64 [7, 8]) None 0"
  have wf: "col_wf ?col" by (simp add: validity_ok_def)
  have l: "col_len ?col = 2" by (simp add: col_len_def)
  have g: "col_get ?col 0 = Some (VInt64 7)" "col_get ?col 1 = Some (VInt64 8)" by code_simp+
  have p: "rows_payload ?col (map (map_option unat) [Some 1, None, Some 1]) < 2 ^ 32" "col_payload ?col < 2 ^ 32"
    using g by (simp_all add: rows_payload_def row_at_def col_payload_def l upt_rec del: col_get.simps)
  have "bm_wf (bm_new_valid 2)" "bm_len (bm_new_valid 2) = 2" using bm_new_valid_spec(1) [of 2] by (simp_all add: bm_new_valid_def)
  then show ?thesis
    using select_rows [OF wf, of "[Some 1, None, Some 1]" "bm_new_valid 2"] g p l by (auto simp del: col_get.simps)
qed

text \<open>
  C28. \<open>rechunk\<close> keeps every row in order: whatever the sizes of the batches it is given, it
  returns batches of the same fields, none empty and none of more than \<open>BATCH_ROWS\<close> rows,
  whose rows put together are those of the input. It never panics, and fails only where the
  concatenation of a column does.
\<close>

theorem rechunk_rows:
  assumes "\<forall>b \<in> set batches. batch_wf b \<and> bt_fields b = fs" "\<forall>f \<in> set fs. type_ok (fd_ty f)" "fs \<noteq> []"
  shows "(\<exists>e. rechunk fs batches = Some (Inl e) \<and> concat_batches fs batches = Some (Inl e)) \<or>
    (\<exists>out. rechunk fs batches = Some (Inr out) \<and>
      (\<forall>b \<in> set out. batch_wf b \<and> bt_fields b = fs \<and> 0 < bt_rows b \<and> bt_rows b \<le> BATCH_ROWS) \<and>
      (\<forall>i < length fs. concat (map (\<lambda>b. batch_rows b i) out) = concat (map (\<lambda>b. batch_rows b i) batches)))"
proof (cases "sum_list (map bt_rows batches) = 0")
  case True
  have "batch_rows b i = []" if "b \<in> set batches" "i < length fs" for b i
  proof -
    have "bt_rows b = 0" using True that(1) by (simp add: sum_list_eq_0_iff)
    then show ?thesis using assms(1) that by (auto simp: batch_rows_def col_rows_def batch_wf_def)
  qed
  then have "concat (map (\<lambda>b. batch_rows b i) batches) = []" if "i < length fs" for i using that by simp
  then show ?thesis using True by (auto simp: rechunk_def)
next
  case False
  have cols: "length (bt_columns b) = length fs" if "b \<in> set batches" for b using assms(1) that by (auto simp: batch_wf_def)
  obtain r where r: "concat_batches fs batches = Some r" using concat_batches_total [OF assms(1)] by blast
  show ?thesis
  proof (cases r)
    case (Inl e)
    then show ?thesis using False r by (auto simp: rechunk_def Let_def ebind_def)
  next
    case (Inr b)
    note c = concat_batches_ok [OF r [unfolded Inr] assms(1,2)]
    then have len: "length (bt_columns b) = length fs" "bt_columns b \<noteq> []" using assms(3) by (auto simp: batch_wf_def)
    have "bt_columns b ! 0 \<in> set (bt_columns b)" using len(2) by simp
    then have "bt_rows b = length (batch_rows b 0)" using batch_columns [OF conjunct1 [OF c]] by (simp add: batch_rows_def col_rows_def)
    also have "\<dots> = sum_list (map (\<lambda>b. length (batch_rows b 0)) batches)" using c assms(3) by (simp add: length_concat o_def)
    also have "\<dots> = sum_list (map bt_rows batches)"
      using assms(1,3) cols by (intro arg_cong [of _ _ sum_list] map_cong) (auto simp: batch_wf_def batch_rows_def col_rows_def)
    finally have rows: "bt_rows b = sum_list (map bt_rows batches)" .
    obtain out where "rechunk_loop b (bt_rows b) 0 [] = Some out"
      "\<forall>x \<in> set out. batch_wf x \<and> bt_fields x = bt_fields b \<and> 0 < bt_rows x \<and> bt_rows x \<le> BATCH_ROWS"
      "\<forall>i < length (bt_columns b). concat (map (\<lambda>x. batch_rows x i) out) = batch_rows b i"
      using rechunk_loop_ok [of b 0 "[]"] c len(2) by auto
    moreover have "rechunk fs batches = expect (rechunk_loop b (bt_rows b) 0 [])"
      using False r Inr unfolding rechunk_def Let_def rows by (auto simp: ebind_def)
    ultimately show ?thesis using c len(1) by (auto simp: expect_def)
  qed
qed

theorem rechunk_rows_witness:
  "\<exists>out. rechunk [\<lparr>fd_name = [97], fd_ty = TInt64\<rparr>]
     [\<lparr>bt_fields = [\<lparr>fd_name = [97], fd_ty = TInt64\<rparr>], bt_columns = [Column TInt64 (CInt64 [7, 8]) None 0], bt_rows = 2\<rparr>] = Some (Inr out) \<and>
   concat (map (\<lambda>b. batch_rows b 0) out) = [Some (VInt64 7), Some (VInt64 8)]"
proof -
  let ?f = "\<lparr>fd_name = [97], fd_ty = TInt64\<rparr>" and ?c = "Column TInt64 (CInt64 [7, 8]) None 0"
  let ?b = "\<lparr>bt_fields = [?f], bt_columns = [?c], bt_rows = 2\<rparr>"
  have wf: "batch_wf ?b" by (simp add: batch_wf_def validity_ok_def col_len_def)
  have cc: "concat_batches [?f] [?b] = Some (Inr ?b)" by code_simp
  have "col_rows ?c = [Some (VInt64 7), Some (VInt64 8)]" by code_simp
  then show ?thesis using rechunk_rows [of "[?b]" "[?f]"] wf cc by (auto simp: batch_rows_def)
qed

end
