(* ===== verification/Manifest_Model.thy ===== *)
theory Manifest_Model
  imports Expr
begin

text \<open>
  The manifest (\<open>src/storage/manifest/mod.rs\<close>, \<open>spec.rs\<close>, \<open>lifecycle.rs\<close>, \<open>ledger.rs\<close>): the
  one mutable object of a store, with its tables, segments, tombstones, garbage, running
  migrations and retired entries, and the validation of a table definition. Ids, versions
  and times are natural numbers: the code counts them up by one from small values in 64
  bits. The ordered map of a table's options is the list of its entries, a duration a number of nanoseconds; error
  values keep what identifies them and the fixed part of their text.
\<close>

section \<open>Names and errors\<close>

record table_name =
  tn_db :: rstr
  tn_name :: rstr

definition tn_cmp :: "table_name \<Rightarrow> table_name \<Rightarrow> ordering" where
  "tn_cmp a b = then_with (bytes_cmp (tn_db a) (tn_db b)) (bytes_cmp (tn_name a) (tn_name b))"

definition is_path_component :: "rstr \<Rightarrow> bool" where
  "is_path_component s \<longleftrightarrow> s \<noteq> [] \<and> s \<noteq> [46] \<and> s \<noteq> [46, 46] \<and> 47 \<notin> set s \<and> 92 \<notin> set s \<and> 0 \<notin> set s"

datatype manifest_error =
    UnknownEngine table_name rstr
  | KeyNotAllowed table_name rstr "rstr list"
  | KeyRequired table_name rstr
  | KeyNotSortPrefix table_name "rstr list" "rstr list"
  | Conflict table_name string
  | Usage string
  | NoSuchJob nat
  | JobRunning table_name nat
  | NothingToRevert table_name
  | RevertStale table_name string
  | NotDropped table_name
  | FixedColumn table_name rstr string
  | ColumnInTombstone table_name rstr nat
  | ColumnUsedByRollup table_name rstr rstr
  | MigrationNotBuilt table_name string
  | MigrationRecorded rstr

section \<open>Tables\<close>

text \<open>\<open>TableId\<close> and \<open>FieldId\<close> are numbers; zero is not yet assigned.\<close>

record schema_field =
  sf_id :: nat
  sf_field :: field

record partition_by =
  pb_column :: nat
  pb_bucket :: nat

record ttl =
  ttl_column :: nat
  ttl_after :: nat

record side_file =
  sd_kind :: nat
  sd_path :: rstr
  sd_crc :: u32

record segment_entry =
  sg_id :: nat
  sg_partition :: rstr
  sg_seq :: nat
  sg_rows :: nat
  sg_bytes :: nat
  sg_footer_crc :: u32
  sg_columns :: "column_stats list"
  sg_side_files :: "side_file list"
  sg_dir :: rstr
  sg_field_ids :: "nat list"
  sg_file_field_ids :: "nat list"

definition file_ids :: "segment_entry \<Rightarrow> nat list" where
  "file_ids s = (if sg_file_field_ids s = [] then sg_field_ids s else sg_file_field_ids s)"

text \<open>\<open>position\<close> of the first element that satisfies a test.\<close>

fun position :: "('a \<Rightarrow> bool) \<Rightarrow> 'a list \<Rightarrow> nat option" where
  "position P [] = None"
| "position P (x # xs) = (if P x then Some 0 else map_option Suc (position P xs))"

definition projected_stats :: "segment_entry \<Rightarrow> schema_field \<Rightarrow> column_stats option" where
  "projected_stats s f =
     (case position (\<lambda>i. i = sf_id f) (sg_field_ids s) of
        Some j \<Rightarrow> nth_opt (sg_columns s) j
      | None \<Rightarrow> Some \<lparr>st_rows = sg_rows s, st_null_count = sg_rows s, st_min = None, st_max = None\<rparr>)"

definition project_onto :: "segment_entry \<Rightarrow> schema_field list \<Rightarrow> segment_entry option" where
  "project_onto s schema =
     (case those (map (projected_stats s) schema) of
        None \<Rightarrow> None
      | Some columns \<Rightarrow>
          let ids = map sf_id schema;
              file = map (\<lambda>i. if i \<noteq> 0 \<and> i \<in> set (sg_field_ids s) then i else 0) (file_ids s)
          in Some (s\<lparr>sg_columns := columns, sg_field_ids := ids,
                     sg_file_field_ids := (if file = ids then [] else file)\<rparr>))"

record predicate =
  pr_column :: rstr
  pr_op :: cmp_op
  pr_value :: val

record tombstone =
  ts_seq :: nat
  ts_predicates :: "predicate list"

record garbage =
  gb_table :: table_name
  gb_segment :: segment_entry
  gb_removed_at_ms :: nat
  gb_removed_at_version :: nat

record table_entry =
  tb_id :: nat
  tb_name :: table_name
  tb_engine :: rstr
  tb_schema :: "schema_field list"
  tb_next_field_id :: nat
  tb_key :: "nat list"
  tb_version :: "nat option"
  tb_order_by :: "nat list"
  tb_partition_by :: "partition_by option"
  tb_ttl :: "ttl option"
  tb_options :: "(rstr \<times> rstr) list"
  tb_segments :: "segment_entry list"
  tb_tombstones :: "tombstone list"

definition tombstones_for :: "table_entry \<Rightarrow> segment_entry \<Rightarrow> tombstone list" where
  "tombstones_for t seg = filter (\<lambda>ts. ts_seq ts > sg_seq seg) (tb_tombstones t)"

definition tb_fields :: "table_entry \<Rightarrow> field list" where
  "tb_fields t = map sf_field (tb_schema t)"

definition tb_field :: "table_entry \<Rightarrow> nat \<Rightarrow> schema_field option" where
  "tb_field t i = find (\<lambda>f. sf_id f = i) (tb_schema t)"

section \<open>Table definitions\<close>

record engine_rules =
  er_name :: string
  er_keyed :: bool
  er_version :: bool

definition rstr_of :: "string \<Rightarrow> rstr" where
  "rstr_of s = map (\<lambda>c. word_of_nat (of_char c)) s"

definition ENGINES :: "engine_rules list" where
  "ENGINES =
     [\<lparr>er_name = ''append'', er_keyed = False, er_version = False\<rparr>,
      \<lparr>er_name = ''latest'', er_keyed = True, er_version = True\<rparr>,
      \<lparr>er_name = ''rollup'', er_keyed = True, er_version = False\<rparr>,
      \<lparr>er_name = ''vector'', er_keyed = False, er_version = False\<rparr>,
      \<lparr>er_name = ''ledger'', er_keyed = True, er_version = False\<rparr>]"

definition engine_rules_of :: "rstr \<Rightarrow> engine_rules option" where
  "engine_rules_of name = find (\<lambda>e. rstr_of (er_name e) = name) ENGINES"

record table_spec =
  sp_name :: table_name
  sp_columns :: "field list"
  sp_engine :: rstr
  sp_key :: "rstr list"
  sp_version :: "rstr option"
  sp_order_by :: "rstr list"
  sp_partition_by :: "(rstr \<times> nat) option"
  sp_ttl :: "(rstr \<times> nat) option"
  sp_options :: "(rstr \<times> rstr) list"

definition resolved_order_by :: "table_spec \<Rightarrow> rstr list" where
  "resolved_order_by spec =
     (if sp_order_by spec = [] \<and> (case engine_rules_of (sp_engine spec) of None \<Rightarrow> False | Some r \<Rightarrow> er_keyed r) \<and>
         sp_key spec \<noteq> []
      then sp_key spec else sp_order_by spec)"

definition sp_column :: "table_spec \<Rightarrow> rstr \<Rightarrow> field option" where
  "sp_column spec name = find (\<lambda>c. fd_name c = name) (sp_columns spec)"

definition check_names_exist :: "table_spec \<Rightarrow> rstr list \<Rightarrow> manifest_error + unit" where
  "check_names_exist spec cols =
     (if (\<forall>c \<in> set cols. sp_column spec c \<noteq> None) then Inr () else Inl (Usage ''names unknown column''))"

definition check_no_duplicates :: "rstr list \<Rightarrow> manifest_error + unit" where
  "check_no_duplicates cols = (if distinct cols then Inr () else Inl (Usage ''names column twice''))"

text \<open>A column whose existence has been checked; \<open>None\<close> is the panic of \<open>expect\<close>.\<close>

definition check_timestamp_column :: "table_spec \<Rightarrow> rstr \<Rightarrow> (manifest_error + unit) option" where
  "check_timestamp_column spec col =
     (case sp_column spec col of
        None \<Rightarrow> None
      | Some f \<Rightarrow> Some (if fd_ty f \<noteq> TTimestamp then Inl (Usage ''column must be TIMESTAMP'') else Inr ()))"

definition check_clause :: "table_spec \<Rightarrow> (rstr \<times> nat) option \<Rightarrow> (manifest_error + unit) option" where
  "check_clause spec clause =
     (case clause of
        None \<Rightarrow> Some (Inr ())
      | Some (col, d) \<Rightarrow>
          (case check_timestamp_column spec col of
             None \<Rightarrow> None
           | Some (Inl e) \<Rightarrow> Some (Inl e)
           | Some (Inr _) \<Rightarrow> Some (if d = 0 then Inl (Usage ''duration must not be zero'') else Inr ())))"

definition is_prefix_of :: "rstr list \<Rightarrow> rstr list \<Rightarrow> bool" where
  "is_prefix_of key resolved \<longleftrightarrow> length key \<le> length resolved \<and> (\<forall>(a, b) \<in> set (zip resolved key). a = b)"

definition option_names :: "(rstr \<times> nat) option \<Rightarrow> rstr list" where
  "option_names c = (case c of None \<Rightarrow> [] | Some (col, _) \<Rightarrow> [col])"

definition validate :: "table_spec \<Rightarrow> (manifest_error + unit) option" where
  "validate spec =
     (if \<not> is_path_component (tn_db (sp_name spec)) \<or> \<not> is_path_component (tn_name (sp_name spec))
      then Some (Inl (Usage ''db and name must each be one path component''))
      else if \<not> distinct (map fd_name (sp_columns spec)) then Some (Inl (Usage ''column is declared twice''))
      else case engine_rules_of (sp_engine spec) of
             None \<Rightarrow> Some (Inl (UnknownEngine (sp_name spec) (sp_engine spec)))
           | Some rules \<Rightarrow>
               (case sbind (check_names_exist spec (sp_key spec)) (\<lambda>_.
                     sbind (check_no_duplicates (sp_key spec)) (\<lambda>_.
                     sbind (check_names_exist spec (case sp_version spec of None \<Rightarrow> [] | Some v \<Rightarrow> [v])) (\<lambda>_.
                     sbind (check_names_exist spec (sp_order_by spec)) (\<lambda>_.
                     sbind (check_no_duplicates (sp_order_by spec)) (\<lambda>_.
                     sbind (check_names_exist spec (option_names (sp_partition_by spec))) (\<lambda>_.
                       check_names_exist spec (option_names (sp_ttl spec)))))))) of
                  Inl e \<Rightarrow> Some (Inl e)
                | Inr _ \<Rightarrow>
                    if sp_key spec \<noteq> [] \<and> \<not> er_keyed rules
                    then Some (Inl (KeyNotAllowed (sp_name spec) (sp_engine spec) (sp_key spec)))
                    else if sp_key spec = [] \<and> er_keyed rules
                    then Some (Inl (KeyRequired (sp_name spec) (sp_engine spec)))
                    else if sp_version spec \<noteq> None \<and> \<not> er_version rules
                    then Some (Inl (Usage ''VERSION is only for ENGINE = latest''))
                    else if sp_key spec \<noteq> [] \<and> \<not> is_prefix_of (sp_key spec) (resolved_order_by spec)
                    then Some (Inl (KeyNotSortPrefix (sp_name spec) (sp_key spec) (resolved_order_by spec)))
                    else (case check_clause spec (sp_partition_by spec) of
                            None \<Rightarrow> None
                          | Some (Inl e) \<Rightarrow> Some (Inl e)
                          | Some (Inr _) \<Rightarrow> check_clause spec (sp_ttl spec))))"

definition tb_name_of :: "schema_field list \<Rightarrow> nat \<Rightarrow> rstr" where
  "tb_name_of schema i = (case find (\<lambda>f. sf_id f = i) schema of None \<Rightarrow> [] | Some f \<Rightarrow> fd_name (sf_field f))"

definition tb_spec :: "table_entry \<Rightarrow> table_spec" where
  "tb_spec t =
     (let name_of = tb_name_of (tb_schema t)
      in \<lparr>sp_name = tb_name t, sp_columns = tb_fields t, sp_engine = tb_engine t,
          sp_key = map name_of (tb_key t),
          sp_version = map_option name_of (tb_version t),
          sp_order_by = (if tb_order_by t \<noteq> tb_key t then map name_of (tb_order_by t) else []),
          sp_partition_by = map_option (\<lambda>p. (name_of (pb_column p), pb_bucket p)) (tb_partition_by t),
          sp_ttl = map_option (\<lambda>l. (name_of (ttl_column l), ttl_after l)) (tb_ttl t),
          sp_options = tb_options t\<rparr>)"

section \<open>Jobs, retired entries, the manifest\<close>

record job =
  jb_id :: nat
  jb_source :: nat
  jb_snapshot :: nat
  jb_target :: table_entry
  jb_handled :: "nat list"
  jb_reused :: nat
  jb_rewritten :: nat

datatype retire_reason = Swapped | Reverted | Dropped

record retired =
  rt_entry :: table_entry
  rt_reason :: retire_reason
  rt_retired_at_ms :: nat
  rt_version :: nat
  rt_successor_segments :: "nat list"

record migration_record =
  mr_name :: rstr
  mr_checksum :: u64
  mr_applied_at_ms :: nat

record manifest =
  mf_version :: nat
  mf_next_segment_id :: nat
  mf_next_table_id :: nat
  mf_tables :: "table_entry list"
  mf_garbage :: "garbage list"
  mf_next_job_id :: nat
  mf_jobs :: "job list"
  mf_retired :: "retired list"
  mf_migrations :: "migration_record list"

definition manifest_empty :: manifest where
  "manifest_empty =
     \<lparr>mf_version = 0, mf_next_segment_id = 0, mf_next_table_id = 1, mf_tables = [], mf_garbage = [],
      mf_next_job_id = 1, mf_jobs = [], mf_retired = [], mf_migrations = []\<rparr>"

definition mf_table :: "manifest \<Rightarrow> table_name \<Rightarrow> table_entry option" where
  "mf_table m name = find (\<lambda>t. tb_name t = name) (mf_tables m)"

definition has_segment :: "nat \<Rightarrow> segment_entry list \<Rightarrow> bool" where
  "has_segment i segs \<longleftrightarrow> i \<in> sg_id ` set segs"

definition references_segment :: "manifest \<Rightarrow> nat \<Rightarrow> bool" where
  "references_segment m i \<longleftrightarrow>
     (\<exists>t \<in> set (mf_tables m). has_segment i (tb_segments t)) \<or>
     (\<exists>r \<in> set (mf_retired m). has_segment i (tb_segments (rt_entry r))) \<or>
     (\<exists>j \<in> set (mf_jobs m). has_segment i (tb_segments (jb_target j)))"

definition mf_job :: "manifest \<Rightarrow> nat \<Rightarrow> job option" where
  "mf_job m i = find (\<lambda>j. jb_id j = i) (mf_jobs m)"

definition job_for :: "manifest \<Rightarrow> table_name \<Rightarrow> job option" where
  "job_for m name =
     (case mf_table m name of None \<Rightarrow> None | Some t \<Rightarrow> find (\<lambda>j. jb_source j = tb_id t) (mf_jobs m))"

end
