(* ===== verification/Scan.thy ===== *)
theory Scan
  imports Segment_Props Select Manifest_Model
begin

text \<open>
  Table scans (\<open>src/storage/scan.rs\<close>, \<open>read.rs\<close>): resolving a table's segments, pruning them by
  their statistics, reading row groups realigned onto the table's schema and dropping the rows
  its tombstones delete. The bytes of a segment's file are an argument, \<open>None\<close> when there is
  no such file; other failures of the file system, the memory budget and the counters that
  EXPLAIN prints are left out. A scan is given its predicate by the planner, over the columns
  it was asked for; for a column outside those a test gets no answer, where the code panics.
  An outcome \<open>None\<close> is a panic.
\<close>

section \<open>Model\<close>

text \<open>\<open>Error\<close> of the store; the messages are left out where they only format.\<close>

datatype store_error =
    StManifest manifest_error
  | StSegment seg_error
  | StIo rstr
  | StLocked rstr
  | StUnknownTable table_name
  | StSchemaMismatch table_name string
  | StSnapshotExpired
  | StClosed
  | StFlush string
  | StUsage string
  | StVersionNotRetained nat nat
  | StMigrationChanged rstr
  | StMigrationMissing rstr
  | StMigrationInvalid rstr string
  | StMigrationFailed rstr
  | StExec exec_error

text \<open>\<open>ExecError\<close> as a scan returns it: \<open>ExecError::Source\<close> holds an error of the store.\<close>

datatype scan_error = ScanSource store_error | ScanExec exec_error

fun lift_err :: "('e \<Rightarrow> 'f) \<Rightarrow> ('e + 'a) option \<Rightarrow> ('f + 'a) option" where
  "lift_err h None = None"
| "lift_err h (Some (Inl e)) = Some (Inl (h e))"
| "lift_err h (Some (Inr x)) = Some (Inr x)"

fun push_values :: "val list \<Rightarrow> builder \<Rightarrow> (column_error + column) option" where
  "push_values [] b = Some (Inr (builder_finish b))"
| "push_values (v # vs) b =
     (case push v b of None \<Rightarrow> None | Some (Inl e, _) \<Rightarrow> Some (Inl e) | Some (Inr _, b') \<Rightarrow> push_values vs b')"

definition from_values :: "data_type \<Rightarrow> val list \<Rightarrow> (column_error + column) option" where
  "from_values ty vs = push_values vs (with_capacity ty)"

subsection \<open>Realigning a segment onto a schema\<close>

fun map_file_columns :: "schema_field list \<Rightarrow> nat list \<Rightarrow> field list \<Rightarrow> (store_error + nat option list) option" where
  "map_file_columns [] ids file_fields = eret []"
| "map_file_columns (sf # schema) ids file_fields =
     (case position (\<lambda>i. i \<noteq> 0 \<and> i = sf_id sf) ids of
        None \<Rightarrow> ebind (map_file_columns schema ids file_fields) (\<lambda>rest. eret (None # rest))
      | Some i \<Rightarrow>
          ebind (expect (nth_opt file_fields i)) (\<lambda>f.
          if fd_ty f \<noteq> fd_ty (sf_field sf) then efail (StUsage ''file column type differs from the schema'')
          else ebind (map_file_columns schema ids file_fields) (\<lambda>rest. eret (Some i # rest))))"

fun realign_columns :: "schema_field list \<Rightarrow> nat option list \<Rightarrow> column list \<Rightarrow> nat \<Rightarrow> (store_error + column list) option" where
  "realign_columns [] index cols rows = eret []"
| "realign_columns (sf # schema) [] cols rows = None"
| "realign_columns (sf # schema) (Some _ # index) [] rows = None"
| "realign_columns (sf # schema) (Some _ # index) (c # cols) rows =
     ebind (realign_columns schema index cols rows) (\<lambda>cs. eret (c # cs))"
| "realign_columns (sf # schema) (None # index) cols rows =
     ebind (lift_err (\<lambda>_. StUsage ''null column'') (from_values (fd_ty (sf_field sf)) (replicate rows VNull))) (\<lambda>c.
     ebind (realign_columns schema index cols rows) (\<lambda>cs. eret (c # cs)))"

definition new_batch :: "field list \<Rightarrow> column list \<Rightarrow> (store_error + batch) option" where
  "new_batch fs cs = (case batch_new fs cs of Inl e \<Rightarrow> efail (StUsage ''bad batch'') | Inr b \<Rightarrow> eret b)"

definition realign :: "schema_field list \<Rightarrow> nat option list \<Rightarrow> batch \<Rightarrow> nat \<Rightarrow> (store_error + batch) option" where
  "realign schema index projected rows =
     ebind (realign_columns schema index (bt_columns projected) rows) (new_batch (map sf_field schema))"

definition open_segment :: "byte list option \<Rightarrow> segment_entry \<Rightarrow> schema_field list \<Rightarrow> (store_error + seg_reader \<times> nat option list) option" where
  "open_segment bytes seg schema =
     (case bytes of
        None \<Rightarrow> efail StSnapshotExpired
      | Some bytes \<Rightarrow>
          (case reader_open bytes of
             Inl e \<Rightarrow> efail (StSegment e)
           | Inr reader \<Rightarrow>
               if length (file_ids seg) \<noteq> length (sr_fields reader) then efail (StUsage ''manifest and file disagree on columns'')
               else ebind (map_file_columns schema (file_ids seg) (sr_fields reader)) (\<lambda>index. eret (reader, index))))"

fun read_groups :: "seg_reader \<Rightarrow> schema_field list \<Rightarrow> nat option list \<Rightarrow> nat list \<Rightarrow> (store_error + batch list) option" where
  "read_groups reader schema index [] = eret []"
| "read_groups reader schema index (rg # rgs) =
     ebind (lift_err StSegment (read_row_group reader rg (List.map_filter (\<lambda>x. x) index))) (\<lambda>projected.
     ebind (realign schema index projected (rm_rows (sr_row_groups reader ! rg))) (\<lambda>b.
     ebind (read_groups reader schema index rgs) (\<lambda>bs. eret (b # bs))))"

definition read_segment_as :: "byte list option \<Rightarrow> segment_entry \<Rightarrow> schema_field list \<Rightarrow> (store_error + batch list) option" where
  "read_segment_as bytes seg schema =
     ebind (open_segment bytes seg schema) (\<lambda>(reader, index).
       read_groups reader schema index [0..<length (sr_row_groups reader)])"

fun project_columns :: "batch \<Rightarrow> schema_field list \<Rightarrow> schema_field list \<Rightarrow> (store_error + column list) option" where
  "project_columns batch src [] = eret []"
| "project_columns batch src (tf # dst) =
     ebind (case position (\<lambda>f. sf_id f = sf_id tf) src of
              Some i \<Rightarrow>
                ebind (expect (nth_opt (bt_columns batch) i)) (\<lambda>col.
                if col_ty col \<noteq> fd_ty (sf_field tf) then efail (StUsage ''field types differ'') else eret col)
            | None \<Rightarrow> lift_err (\<lambda>_. StUsage ''null column'') (from_values (fd_ty (sf_field tf)) (replicate (bt_rows batch) VNull))) (\<lambda>c.
     ebind (project_columns batch src dst) (\<lambda>cs. eret (c # cs)))"

definition project_batch :: "batch \<Rightarrow> schema_field list \<Rightarrow> schema_field list \<Rightarrow> (store_error + batch) option" where
  "project_batch batch src dst = ebind (project_columns batch src dst) (new_batch (map sf_field dst))"

subsection \<open>Tombstones\<close>

text \<open>The two comparison enumerations of the source are one type here, so \<open>map_cmp\<close> is the identity.\<close>

definition named :: "rstr \<Rightarrow> schema_field list \<Rightarrow> nat option" where
  "named c schema = position (\<lambda>f. fd_name (sf_field f) = c) schema"

fun match_predicates :: "batch \<Rightarrow> schema_field list \<Rightarrow> predicate list \<Rightarrow> column option \<Rightarrow> (scan_error + column option) option" where
  "match_predicates full schema [] matched = eret matched"
| "match_predicates full schema (p # ps) matched =
     (case named (pr_column p) schema of
        None \<Rightarrow> efail (ScanSource (StUsage ''tombstone names unknown column''))
      | Some pos \<Rightarrow>
          ebind (expect (nth_opt (bt_columns full) pos)) (\<lambda>col.
          ebind (lift_err ScanExec (compare_scalar col (pr_op p) (pr_value p))) (\<lambda>cmp.
          ebind (expect (case matched of None \<Rightarrow> Some cmp | Some acc \<Rightarrow> col_and acc cmp)) (\<lambda>m.
          match_predicates full schema ps (Some m)))))"

fun match_tombstones :: "batch \<Rightarrow> schema_field list \<Rightarrow> nat \<Rightarrow> tombstone list \<Rightarrow> column option \<Rightarrow> (scan_error + column option) option" where
  "match_tombstones full schema rows [] deleted = eret deleted"
| "match_tombstones full schema rows (t # ts) deleted =
     ebind (match_predicates full schema (ts_predicates t) None) (\<lambda>matched.
     ebind (expect (case matched of Some m \<Rightarrow> Some m | None \<Rightarrow> bool_column (bm_new_valid rows) None)) (\<lambda>matched.
     ebind (expect (case deleted of None \<Rightarrow> Some matched | Some acc \<Rightarrow> col_or acc matched)) (\<lambda>d.
     match_tombstones full schema rows ts (Some d))))"

fun keep_loop :: "bitmap \<Rightarrow> nat list \<Rightarrow> bitmap \<Rightarrow> bitmap option" where
  "keep_loop del_mask [] keep = Some keep"
| "keep_loop del_mask (i # is) keep =
     Option.bind (bm_get del_mask i) (\<lambda>d. Option.bind (bm_set keep i (\<not> d)) (keep_loop del_mask is))"

definition tombstone_keep_mask :: "tombstone list \<Rightarrow> batch \<Rightarrow> schema_field list \<Rightarrow> nat \<Rightarrow> (scan_error + bitmap option) option" where
  "tombstone_keep_mask tombstones full schema rows =
     (if tombstones = [] then eret None
      else
        ebind (match_tombstones full schema rows tombstones None) (\<lambda>deleted.
        ebind (expect deleted) (\<lambda>deleted.
        ebind (expect (truthy deleted)) (\<lambda>del_mask.
        ebind (expect (keep_loop del_mask [0..<rows] (bm_new_valid rows))) (\<lambda>keep. eret (Some keep))))))"

subsection \<open>Reading one segment\<close>

record table_scan =
  sc_fields :: "field list"
  sc_columns :: "nat list"
  sc_table :: table_entry
  sc_segments :: "segment_entry list"
  sc_buffered :: "batch list"
  sc_predicate :: "expr option"

fun tombstone_columns :: "schema_field list \<Rightarrow> predicate list \<Rightarrow> nat list \<Rightarrow> (scan_error + nat list) option" where
  "tombstone_columns schema [] needed = eret needed"
| "tombstone_columns schema (p # ps) needed =
     (case named (pr_column p) schema of
        None \<Rightarrow> efail (ScanSource (StUsage ''tombstone names unknown column''))
      | Some pos \<Rightarrow> tombstone_columns schema ps (if pos \<in> set needed then needed else needed @ [pos]))"

text \<open>What pruning is told of column \<open>c\<close> of the scan in a row group: its file column's range, if the file has it.\<close>

definition file_column :: "table_scan \<Rightarrow> nat option list \<Rightarrow> nat \<Rightarrow> nat option" where
  "file_column scan index c = Option.bind (nth_opt (sc_columns scan) c) (\<lambda>s. Option.bind (nth_opt index s) id)"

definition zone_stats :: "table_scan \<Rightarrow> nat option list \<Rightarrow> row_group_meta \<Rightarrow> nat \<Rightarrow> column_range option" where
  "zone_stats scan index rg c =
     Option.bind (file_column scan index c) (\<lambda>i. map_option (chunk_range rg) (nth_opt (rm_chunks rg) i))"

definition matches_shape :: "nat \<Rightarrow> index_entry \<Rightarrow> bool" where
  "matches_shape rg e \<longleftrightarrow> (ie_kind e = KBloom \<or> ie_kind e = KValueSet) \<and> length (ie_columns e) = 1 \<and>
     (ie_row_group e = Some rg \<or> ie_row_group e = None)"

text \<open>
  The first index of each column that fits, loaded. The source keeps them in a hash map, whose
  order decides which of two damaged indexes is reported; here it is the order of the file.
\<close>

fun column_entries :: "nat \<Rightarrow> index_entry list \<Rightarrow> nat list \<Rightarrow> (nat \<times> index_entry) list" where
  "column_entries rg [] seen = []"
| "column_entries rg (e # es) seen =
     (if matches_shape rg e \<and> hd (ie_columns e) \<notin> set seen
      then (hd (ie_columns e), e) # column_entries rg es (hd (ie_columns e) # seen)
      else column_entries rg es seen)"

fun load_entries :: "seg_reader \<Rightarrow> (nat \<times> index_entry) list \<Rightarrow> (scan_error + (nat \<times> skip_index) list) option" where
  "load_entries reader [] = eret []"
| "load_entries reader ((c, e) # es) =
     ebind (lift_err (ScanSource \<circ> StSegment) (load_index reader e)) (\<lambda>idx.
     ebind (load_entries reader es) (\<lambda>rest. eret ((c, idx) # rest)))"

definition index_probe :: "table_scan \<Rightarrow> nat option list \<Rightarrow> (nat \<times> skip_index) list \<Rightarrow> nat \<Rightarrow> val \<Rightarrow> bool option" where
  "index_probe scan index idxs c v =
     Option.bind (file_column scan index c) (\<lambda>i. Option.bind (map_of idxs i) (\<lambda>idx. might_contain idx v))"

definition prune_group :: "table_scan \<Rightarrow> seg_reader \<Rightarrow> nat option list \<Rightarrow> nat \<Rightarrow> (scan_error + bool) option" where
  "prune_group scan reader index rg =
     (case sc_predicate scan of
        None \<Rightarrow> eret False
      | Some pred \<Rightarrow>
          if \<not> may_match (zone_stats scan index (sr_row_groups reader ! rg)) pred then eret True
          else ebind (load_entries reader (column_entries rg (sr_indexes reader) [])) (\<lambda>idxs.
               eret (\<not> index_may_match (index_probe scan index idxs) pred)))"

definition output_columns :: "table_scan \<Rightarrow> nat list \<Rightarrow> batch \<Rightarrow> column list option" where
  "output_columns scan needed filtered =
     those (map (\<lambda>s. Option.bind (position (\<lambda>x. x = s) needed) (nth_opt (bt_columns filtered))) (sc_columns scan))"

text \<open>A row group that was not pruned: its live rows as a batch of the scan, none if no row is left.\<close>

definition read_group :: "table_scan \<Rightarrow> tombstone list \<Rightarrow> seg_reader \<Rightarrow> nat option list \<Rightarrow> nat list \<Rightarrow> nat \<Rightarrow> (scan_error + batch option) option" where
  "read_group scan tombstones reader index needed rg =
     (let rows = rm_rows (sr_row_groups reader ! rg);
          sub_schema = map ((!) (tb_schema (sc_table scan))) needed;
          sub_index = map ((!) index) needed
      in ebind (lift_err (ScanSource \<circ> StSegment) (read_row_group reader rg (List.map_filter (\<lambda>x. x) sub_index))) (\<lambda>projected.
         ebind (lift_err ScanSource (realign sub_schema sub_index projected rows)) (\<lambda>full.
         ebind (tombstone_keep_mask tombstones full sub_schema rows) (\<lambda>del_mask.
         ebind (expect (case del_mask of None \<Rightarrow> Some full | Some keep \<Rightarrow> filter_batch full keep)) (\<lambda>filtered.
         if bt_rows filtered = 0 then eret None
         else
           ebind (expect (output_columns scan needed filtered)) (\<lambda>cs.
           ebind (lift_err ScanSource (new_batch (sc_fields scan) cs)) (\<lambda>b. eret (Some b))))))))"

definition scan_group :: "table_scan \<Rightarrow> tombstone list \<Rightarrow> seg_reader \<Rightarrow> nat option list \<Rightarrow> nat list \<Rightarrow> nat \<Rightarrow> (scan_error + batch option) option" where
  "scan_group scan tombstones reader index needed rg =
     ebind (prune_group scan reader index rg) (\<lambda>pruned.
     if pruned then eret None else read_group scan tombstones reader index needed rg)"

fun scan_groups :: "(nat \<Rightarrow> (scan_error + batch option) option) \<Rightarrow> nat list \<Rightarrow> (scan_error + batch list) option" where
  "scan_groups rd [] = eret []"
| "scan_groups rd (rg # rgs) =
     ebind (rd rg) (\<lambda>b. ebind (scan_groups rd rgs) (\<lambda>bs. eret (case b of None \<Rightarrow> bs | Some b \<Rightarrow> b # bs)))"

definition read_segment :: "table_scan \<Rightarrow> segment_entry \<Rightarrow> byte list option \<Rightarrow> (scan_error + batch list) option" where
  "read_segment scan seg bytes =
     ebind (lift_err ScanSource (open_segment bytes seg (tb_schema (sc_table scan)))) (\<lambda>(reader, index).
     let tombstones = tombstones_for (sc_table scan) seg
     in ebind (tombstone_columns (tb_schema (sc_table scan)) (concat (map ts_predicates tombstones)) (sc_columns scan)) (\<lambda>needed.
        if \<exists>i \<in> set needed. i \<ge> length (tb_schema (sc_table scan)) then None
        else scan_groups (scan_group scan tombstones reader index (sort needed)) [0..<length (sr_row_groups reader)]))"

subsection \<open>The scan of a table\<close>

definition project_buffered :: "table_scan \<Rightarrow> batch \<Rightarrow> batch option" where
  "project_buffered scan b =
     Option.bind (those (map (nth_opt (bt_columns b)) (sc_columns scan))) (\<lambda>cs.
       case batch_new (sc_fields scan) cs of Inl e \<Rightarrow> None | Inr x \<Rightarrow> Some x)"

definition read_morsel :: "table_scan \<Rightarrow> (segment_entry \<Rightarrow> byte list option) \<Rightarrow> nat \<Rightarrow> (scan_error + batch list) option" where
  "read_morsel scan files m =
     (case nth_opt (sc_segments scan) m of
        Some seg \<Rightarrow> read_segment scan seg (files seg)
      | None \<Rightarrow>
          ebind (expect (Option.bind (nth_opt (sc_buffered scan) (m - length (sc_segments scan))) (project_buffered scan))) (\<lambda>b. eret [b]))"

fun resolve_columns :: "schema_field list \<Rightarrow> rstr list \<Rightarrow> (scan_error + (nat \<times> field) list) option" where
  "resolve_columns schema [] = eret []"
| "resolve_columns schema (c # cs) =
     (case named c schema of
        None \<Rightarrow> efail (ScanExec (Plan ''unknown column''))
      | Some pos \<Rightarrow> ebind (resolve_columns schema cs) (\<lambda>rest. eret ((pos, sf_field (schema ! pos)) # rest)))"

definition segment_stats_of :: "nat list \<Rightarrow> segment_entry \<Rightarrow> nat \<Rightarrow> column_range option" where
  "segment_stats_of columns projected c =
     Option.bind (nth_opt columns c) (\<lambda>s. map_option range_of_stats (nth_opt (sg_columns projected) s))"

fun retain_segments :: "schema_field list \<Rightarrow> nat list \<Rightarrow> expr \<Rightarrow> segment_entry list \<Rightarrow> segment_entry list option" where
  "retain_segments schema columns pred [] = Some []"
| "retain_segments schema columns pred (seg # segs) =
     Option.bind (project_onto seg schema) (\<lambda>projected.
     Option.bind (retain_segments schema columns pred segs) (\<lambda>rest.
       Some (if may_match (segment_stats_of columns projected) pred then seg # rest else rest)))"

definition open_scan :: "table_entry option \<Rightarrow> table_name \<Rightarrow> batch list \<Rightarrow> rstr list \<Rightarrow> expr option \<Rightarrow> (scan_error + table_scan) option" where
  "open_scan table name buffered cols predicate =
     (case table of
        None \<Rightarrow> efail (ScanSource (StUnknownTable name))
      | Some t \<Rightarrow>
          if cols = [] then efail (ScanExec (Plan ''scan needs at least one column''))
          else
            ebind (resolve_columns (tb_schema t) cols) (\<lambda>pfs.
            if tb_engine t \<noteq> rstr_of ''append'' then efail (ScanSource (StUsage ''unknown engine''))
            else
              let segments = filter (\<lambda>s. sg_id s \<in> set (map sg_id (tb_segments t))) (tb_segments t)
              in ebind (expect (case predicate of None \<Rightarrow> Some segments
                                | Some pred \<Rightarrow> retain_segments (tb_schema t) (map fst pfs) pred segments)) (\<lambda>segments.
                 eret \<lparr>sc_fields = map snd pfs, sc_columns = map fst pfs, sc_table = t, sc_segments = segments,
                   sc_buffered = buffered, sc_predicate = predicate\<rparr>)))"

fun read_morsels :: "table_scan \<Rightarrow> (segment_entry \<Rightarrow> byte list option) \<Rightarrow> nat list \<Rightarrow> (scan_error + batch list) option" where
  "read_morsels scan files [] = eret []"
| "read_morsels scan files (m # ms) =
     ebind (read_morsel scan files m) (\<lambda>bs. ebind (read_morsels scan files ms) (\<lambda>rest. eret (bs @ rest)))"

fun unwrap_exec_error :: "scan_error \<Rightarrow> store_error" where
  "unwrap_exec_error (ScanSource e) = e"
| "unwrap_exec_error (ScanExec e) = StExec e"

definition scan_all :: "table_entry option \<Rightarrow> table_name \<Rightarrow> batch list \<Rightarrow> (segment_entry \<Rightarrow> byte list option) \<Rightarrow> (store_error + batch list) option" where
  "scan_all table name buffered files =
     (case table of
        None \<Rightarrow> efail (StUnknownTable name)
      | Some t \<Rightarrow>
          lift_err unwrap_exec_error
            (ebind (open_scan table name buffered (map (\<lambda>f. fd_name (sf_field f)) (tb_schema t)) None) (\<lambda>scan.
               read_morsels scan files [0..<length (sc_segments scan) + length (sc_buffered scan)])))"

section \<open>Columns of nulls\<close>

lemma lift_err_Inr [simp]: "lift_err h r = Some (Inr x) \<longleftrightarrow> r = Some (Inr x)"
  by (cases r; cases "the r") auto

lemma push_nulls_rows:
  assumes "builder_wf b"
  shows "\<exists>c. push_values (replicate n VNull) b = Some (Inr c) \<and> col_wf c \<and> col_ty c = bd_ty b \<and> col_rows c = builder_rows b @ replicate n (Some VNull)"
  using assms
proof (induction n arbitrary: b)
  case 0
  then show ?case using builder_wf_data [of b] by (simp add: builder_rows_def)
next
  case (Suc n)
  obtain b' where b': "push_null b = Some b'" "bd_ty b' = bd_ty b" "builder_wf b'" "builder_rows b' = builder_rows b @ [Some VNull]"
    using push_null_ok [OF Suc.prems] by blast
  then show ?case using Suc.IH [OF b'(3)] by (auto simp: push_def is_null_def)
qed

lemma from_values_nulls:
  assumes "type_ok ty"
  shows "\<exists>c. from_values ty (replicate n VNull) = Some (Inr c) \<and> col_wf c \<and> col_ty c = ty \<and> col_rows c = replicate n (Some VNull)"
  using push_nulls_rows [of "with_capacity ty" n] builder_new_wf [OF assms] by (simp add: from_values_def del: with_capacity.simps)

section \<open>Tombstones row by row\<close>

definition pred_true :: "batch \<Rightarrow> schema_field list \<Rightarrow> nat \<Rightarrow> predicate \<Rightarrow> bool" where
  "pred_true full schema i p \<longleftrightarrow> (\<exists>pos x. named (pr_column p) schema = Some pos \<and> col_get (bt_columns full ! pos) i = Some x \<and>
     cmp_rows (pr_op p) x (pr_value p) = Some True)"

definition deleted_by :: "batch \<Rightarrow> schema_field list \<Rightarrow> nat \<Rightarrow> tombstone \<Rightarrow> bool" where
  "deleted_by full schema i t \<longleftrightarrow> (\<forall>p \<in> set (ts_predicates t). pred_true full schema i p)"

lemma kleene_true [simp]:
  "kleene_and a b = Some True \<longleftrightarrow> a = Some True \<and> b = Some True" "kleene_or a b = Some True \<longleftrightarrow> a = Some True \<or> b = Some True"
  by (cases "(a, b)" rule: kleene_and.cases; simp) (cases "(a, b)" rule: kleene_or.cases; simp)

lemma and_true_rows:
  assumes "bool_col a n" "bool_col b n" "col_and a b = Some c"
  shows "bool_col c n" "i < n \<Longrightarrow> kleene_row c i = Some True \<longleftrightarrow> kleene_row a i = Some True \<and> kleene_row b i = Some True"
proof -
  obtain d where "col_and a b = Some d" "bool_col d n" "\<And>i. i < n \<Longrightarrow> kleene_row d i = kleene_and (kleene_row a i) (kleene_row b i)"
    using col_and_spec [OF assms(1,2)] by blast
  then show "bool_col c n" "i < n \<Longrightarrow> kleene_row c i = Some True \<longleftrightarrow> kleene_row a i = Some True \<and> kleene_row b i = Some True"
    using assms(3) by simp_all
qed

lemma or_true_rows:
  assumes "bool_col a n" "bool_col b n" "col_or a b = Some c"
  shows "bool_col c n" "i < n \<Longrightarrow> kleene_row c i = Some True \<longleftrightarrow> kleene_row a i = Some True \<or> kleene_row b i = Some True"
proof -
  obtain d where "col_or a b = Some d" "bool_col d n" "\<And>i. i < n \<Longrightarrow> kleene_row d i = kleene_or (kleene_row a i) (kleene_row b i)"
    using col_or_spec [OF assms(1,2)] by blast
  then show "bool_col c n" "i < n \<Longrightarrow> kleene_row c i = Some True \<longleftrightarrow> kleene_row a i = Some True \<or> kleene_row b i = Some True"
    using assms(3) by simp_all
qed

definition acc_true :: "column option \<Rightarrow> nat \<Rightarrow> bool \<Rightarrow> bool" where
  "acc_true acc i dflt = (case acc of None \<Rightarrow> dflt | Some c \<Rightarrow> kleene_row c i = Some True)"

lemma match_predicates_spec:
  assumes "match_predicates full schema ps acc = Some (Inr res)" "batch_wf full" "\<And>c. acc = Some c \<Longrightarrow> bool_col c (bt_rows full)"
  shows "(\<forall>c. res = Some c \<longrightarrow> bool_col c (bt_rows full)) \<and> (res = None \<longleftrightarrow> acc = None \<and> ps = []) \<and>
    (\<forall>i < bt_rows full. acc_true res i True \<longleftrightarrow> acc_true acc i True \<and> (\<forall>p \<in> set ps. pred_true full schema i p))"
  using assms(1,3)
proof (induction ps arbitrary: acc)
  case (Cons p ps)
  from Cons.prems(1) obtain pos where pos: "named (pr_column p) schema = Some pos" by (cases "named (pr_column p) schema") auto
  with Cons.prems(1) obtain col cmp m where
    p: "named (pr_column p) schema = Some pos" "nth_opt (bt_columns full) pos = Some col" "compare_scalar col (pr_op p) (pr_value p) = Some (Inr cmp)"
      "(case acc of None \<Rightarrow> Some cmp | Some acc \<Rightarrow> col_and acc cmp) = Some m" "match_predicates full schema ps (Some m) = Some (Inr res)"
    by auto
  have col: "col = bt_columns full ! pos" "col_wf col" "col_len col = bt_rows full"
    using p(2) assms(2) by (auto simp: nth_opt_def batch_wf_def split: if_splits)
  have cmp: "bool_col cmp (bt_rows full)" using compare_scalar_rows(1) [OF p(3) col(2)] col(3) by simp
  have row: "kleene_row cmp i = Some True \<longleftrightarrow> pred_true full schema i p" if "i < bt_rows full" for i
    using compare_scalar_rows(2) [OF p(3) col(2), of i] that col(1,3) p(1) by (auto simp: pred_true_def)
  have m: "bool_col m (bt_rows full) \<and> (\<forall>i < bt_rows full. kleene_row m i = Some True \<longleftrightarrow> acc_true acc i True \<and> pred_true full schema i p)"
  proof (cases acc)
    case None
    then show ?thesis using p(4) row cmp by (simp add: acc_true_def)
  next
    case (Some a)
    have "bool_col a (bt_rows full)" "col_and a cmp = Some m" using Cons.prems(2) p(4) Some by simp_all
    then show ?thesis using and_true_rows [OF _ cmp] row Some by (simp add: acc_true_def)
  qed
  show ?case using Cons.IH [OF p(5)] m by (auto simp: acc_true_def)
qed (auto simp: acc_true_def)

lemma all_true_column: "\<exists>c. bool_column (bm_new_valid n) None = Some c \<and> bool_col c n \<and> (\<forall>i < n. kleene_row c i = Some True)"
proof -
  let ?c = "Column TBool (CBool (bm_new_valid n)) None 0"
  have l: "bm_len (bm_new_valid n) = n" by (simp add: bm_new_valid_def)
  have "from_parts TBool (CBool (bm_new_valid n)) None = Inr ?c" using l by (simp add: from_parts_def)
  moreover have "bool_col ?c n" using l bm_new_valid_spec(1) by (simp add: bool_col_def validity_ok_def col_len_def)
  moreover have "kleene_row ?c i = Some True" if "i < n" for i
    using that l bm_new_valid_spec [of n] by (simp add: kleene_row_def col_is_null_def col_len_def bm_get_wf)
  ultimately show ?thesis by (simp add: bool_column_def)
qed

lemma match_tombstones_spec:
  assumes "match_tombstones full schema (bt_rows full) ts acc = Some (Inr res)" "batch_wf full" "\<And>c. acc = Some c \<Longrightarrow> bool_col c (bt_rows full)"
  shows "(\<forall>c. res = Some c \<longrightarrow> bool_col c (bt_rows full)) \<and>
    (\<forall>i < bt_rows full. acc_true res i False \<longleftrightarrow> acc_true acc i False \<or> (\<exists>t \<in> set ts. deleted_by full schema i t))"
  using assms(1,3)
proof (induction ts arbitrary: acc)
  case (Cons t ts)
  from Cons.prems(1) obtain r m d where
    p: "match_predicates full schema (ts_predicates t) None = Some (Inr r)"
      "(case r of Some m \<Rightarrow> Some m | None \<Rightarrow> bool_column (bm_new_valid (bt_rows full)) None) = Some m"
      "(case acc of None \<Rightarrow> Some m | Some acc \<Rightarrow> col_or acc m) = Some d" "match_tombstones full schema (bt_rows full) ts (Some d) = Some (Inr res)"
    by auto
  note r = match_predicates_spec [OF p(1) assms(2)]
  have m: "bool_col m (bt_rows full) \<and> (\<forall>i < bt_rows full. kleene_row m i = Some True \<longleftrightarrow> deleted_by full schema i t)"
  proof (cases r)
    case None
    then have "ts_predicates t = []" using r by simp
    then show ?thesis using p(2) None all_true_column [of "bt_rows full"] by (auto simp: deleted_by_def)
  next
    case (Some c)
    then show ?thesis using p(2) r by (simp add: acc_true_def deleted_by_def)
  qed
  then have m: "bool_col m (bt_rows full)" "\<And>i. i < bt_rows full \<Longrightarrow> kleene_row m i = Some True \<longleftrightarrow> deleted_by full schema i t" by blast+
  have d: "bool_col d (bt_rows full) \<and> (\<forall>i < bt_rows full. kleene_row d i = Some True \<longleftrightarrow> acc_true acc i False \<or> deleted_by full schema i t)"
  proof (cases acc)
    case None
    then show ?thesis using p(3) m by (simp add: acc_true_def)
  next
    case (Some a)
    have "bool_col a (bt_rows full)" "col_or a m = Some d" using Cons.prems(2) p(3) Some by simp_all
    then show ?thesis using or_true_rows [OF _ m(1)] m(2) Some by (simp add: acc_true_def)
  qed
  show ?case using Cons.IH [OF p(4)] d by (auto simp: acc_true_def)
qed (auto simp: acc_true_def)

lemma keep_loop_spec:
  assumes "bm_wf del" "bm_wf keep" "bm_len del = n" "bm_len keep = n" "\<forall>i \<in> set is. i < n"
  shows "\<exists>k. keep_loop del is keep = Some k \<and> bm_wf k \<and> bm_len k = n \<and>
    bm_bits k = map (\<lambda>i. if i \<in> set is then \<not> bm_bits del ! i else bm_bits keep ! i) [0..<n]"
  using assms(2,4,5)
proof (induction "is" arbitrary: keep)
  case Nil
  then show ?case by (auto intro: nth_equalityI)
next
  case (Cons j js)
  obtain keep' where k: "bm_set keep j (\<not> bm_bits del ! j) = Some keep'" "bm_wf keep'" "bm_bits keep' = (bm_bits keep)[j := \<not> bm_bits del ! j]"
    using bm_set_spec [of keep j "\<not> bm_bits del ! j"] Cons.prems by auto
  have len: "bm_len keep' = n" using k(2,3) Cons.prems(1,2) by (metis length_bm_bits length_list_update)
  have l: "length (bm_bits keep) = n" using Cons.prems(1,2) by simp
  have d: "bm_get del j = Some (bm_bits del ! j)" using assms(1,3) Cons.prems(3) by (simp add: bm_get_wf)
  from Cons.IH [OF k(2) len] Cons.prems(3) obtain r where
    r: "keep_loop del js keep' = Some r" "bm_wf r" "bm_len r = n"
      "bm_bits r = map (\<lambda>i. if i \<in> set js then \<not> bm_bits del ! i else bm_bits keep' ! i) [0..<n]" by auto
  show ?case using d k(1) r l by (auto simp: k(3) nth_list_update)
qed

lemma keep_mask_spec:
  assumes "tombstone_keep_mask ts full schema (bt_rows full) = Some (Inr m)" "batch_wf full"
  shows "case m of
      None \<Rightarrow> ts = []
    | Some keep \<Rightarrow> bm_wf keep \<and> bm_len keep = bt_rows full \<and>
        bm_bits keep = map (\<lambda>i. \<not> (\<exists>t \<in> set ts. deleted_by full schema i t)) [0..<bt_rows full]"
proof (cases "ts = []")
  case True
  then show ?thesis using assms(1) by (auto simp: tombstone_keep_mask_def)
next
  case False
  with assms(1) obtain del dm keep where
    s: "match_tombstones full schema (bt_rows full) ts None = Some (Inr (Some del))" "truthy del = Some dm"
      "keep_loop dm [0..<bt_rows full] (bm_new_valid (bt_rows full)) = Some keep" "m = Some keep"
    by (auto simp: tombstone_keep_mask_def)
  have d: "bool_col del (bt_rows full)" "\<And>i. i < bt_rows full \<Longrightarrow> kleene_row del i = Some True \<longleftrightarrow> (\<exists>t \<in> set ts. deleted_by full schema i t)"
    using match_tombstones_spec [OF s(1) assms(2)] by (auto simp: acc_true_def)
  obtain bm where bm: "truthy del = Some bm" "bm_wf bm" "bm_bits bm = map (\<lambda>i. kleene_row del i = Some True) [0..<bt_rows full]"
    using truthy_spec [OF d(1)] by blast
  have dm: "bm_wf dm" "bm_bits dm = map (\<lambda>i. kleene_row del i = Some True) [0..<bt_rows full]" using bm s(2) by simp_all
  then have l: "bm_len dm = bt_rows full" by (metis length_bm_bits length_map length_upt diff_zero)
  have new: "bm_wf (bm_new_valid (bt_rows full))" "bm_len (bm_new_valid (bt_rows full)) = bt_rows full"
    using bm_new_valid_spec(1) by (simp_all add: bm_new_valid_def)
  have "\<exists>k. keep_loop dm [0..<bt_rows full] (bm_new_valid (bt_rows full)) = Some k \<and> bm_wf k \<and> bm_len k = bt_rows full \<and>
    bm_bits k = map (\<lambda>i. if i \<in> set [0..<bt_rows full] then \<not> bm_bits dm ! i else bm_bits (bm_new_valid (bt_rows full)) ! i) [0..<bt_rows full]"
    by (rule keep_loop_spec [OF dm(1) new(1) l new(2)]) simp
  then have "bm_wf keep \<and> bm_len keep = bt_rows full \<and>
    bm_bits keep = map (\<lambda>i. if i \<in> set [0..<bt_rows full] then \<not> bm_bits dm ! i else bm_bits (bm_new_valid (bt_rows full)) ! i) [0..<bt_rows full]"
    using s(3) by auto
  then show ?thesis using s(4) d(2) dm(2) by simp
qed

end
