(* ===== verification/Realign.thy ===== *)
theory Realign
  imports Scan
begin

text \<open>
  A segment read back under a schema that has changed since it was written (\<open>src/storage/read.rs\<close>):
  columns are matched by field id, and a field the file does not have is all NULL.
\<close>

section \<open>Where a field is in a file\<close>

definition file_position :: "nat list \<Rightarrow> schema_field \<Rightarrow> nat option" where
  "file_position ids sf = position (\<lambda>i. i \<noteq> 0 \<and> i = sf_id sf) ids"

lemma position_Some: "position P xs = Some i \<Longrightarrow> i < length xs \<and> P (xs ! i)"
  by (induction xs arbitrary: i) (auto split: if_splits)

lemma file_position_Some: "file_position ids sf = Some i \<Longrightarrow> i < length ids \<and> ids ! i = sf_id sf"
  using position_Some unfolding file_position_def by blast

lemma map_file_columns_ok:
  assumes "length ids = length fs" "\<forall>sf \<in> set schema. \<forall>i. file_position ids sf = Some i \<longrightarrow> fd_ty (fs ! i) = fd_ty (sf_field sf)"
  shows "map_file_columns schema ids fs = eret (map (file_position ids) schema)"
  using assms(2)
proof (induction schema)
  case (Cons sf schema)
  then have IH: "map_file_columns schema ids fs = eret (map (file_position ids) schema)" by simp
  show ?case
  proof (cases "file_position ids sf")
    case None
    then show ?thesis using IH None [unfolded file_position_def] by simp
  next
    case (Some i)
    then have "nth_opt fs i = Some (fs ! i)" "fd_ty (fs ! i) = fd_ty (sf_field sf)"
      using file_position_Some [OF Some] assms(1) Cons.prems by (auto simp: nth_opt_def)
    then show ?thesis using IH Some Some [unfolded file_position_def] by simp
  qed
qed simp

lemma positions_distinct:
  assumes "distinct (map sf_id schema)"
  shows "distinct (List.map_filter (\<lambda>x. x) (map (file_position ids) schema))"
  using assms
proof (induction schema)
  case (Cons sf schema)
  show ?case
  proof (cases "file_position ids sf")
    case (Some i)
    have "i \<notin> set (List.map_filter (\<lambda>x. x) (map (file_position ids) schema))"
    proof
      assume "i \<in> set (List.map_filter (\<lambda>x. x) (map (file_position ids) schema))"
      then obtain g where g: "g \<in> set schema" "file_position ids g = Some i" by (auto simp: map_filter_def)
      then have "sf_id g = sf_id sf" using file_position_Some [OF g(2)] file_position_Some [OF Some] by simp
      then show False using Cons.prems g(1) by (metis distinct.simps(2) image_eqI list.set_map list.simps(9))
    qed
    then show ?thesis using Cons Some by (simp add: map_filter_simps)
  qed (use Cons in \<open>simp add: map_filter_simps\<close>)
qed (simp add: map_filter_simps)

section \<open>Reading the columns that are there\<close>

lemma read_columns_ok:
  assumes "\<And>i. i \<in> set proj \<Longrightarrow> i < length (sr_fields r) \<and> read_column r k i = eret (cs ! i)"
  shows "read_columns r k proj = eret (map (\<lambda>i. (sr_fields r ! i, cs ! i)) proj)"
  using assms
proof (induction proj)
  case (Cons i proj)
  then have "read_column r k i = eret (cs ! i)" "nth_opt (sr_fields r) i = Some (sr_fields r ! i)"
    "read_columns r k proj = eret (map (\<lambda>i. (sr_fields r ! i, cs ! i)) proj)" by (simp_all add: nth_opt_def)
  then show ?case by simp
qed simp

lemma read_row_group_ok:
  assumes cs: "\<And>i. i < length (sr_fields r) \<Longrightarrow> read_column r k i = eret (cs ! i) \<and> col_ty (cs ! i) = fd_ty (sr_fields r ! i) \<and> col_len (cs ! i) = n"
    and proj: "distinct proj" "\<forall>i \<in> set proj. i < length (sr_fields r)" and names: "distinct (map fd_name (sr_fields r))"
  shows "\<exists>b. read_row_group r k proj = eret b \<and> bt_columns b = map ((!) cs) proj"
proof -
  let ?fs = "map ((!) (sr_fields r)) proj" and ?cs = "map ((!) cs) proj"
  have rd: "read_columns r k proj = eret (map (\<lambda>i. (sr_fields r ! i, cs ! i)) proj)" by (rule read_columns_ok) (use cs proj(2) in blast)
  have "\<exists>b. batch_new ?fs ?cs = Inr b \<and> bt_columns b = ?cs"
  proof (cases "proj = []")
    case True
    then show ?thesis by (simp add: batch_new_def)
  next
    case False
    have "distinct (map (\<lambda>i. fd_name (sr_fields r ! i)) proj)"
      using proj names by (auto simp: distinct_map inj_on_def distinct_conv_nth)
    then have "distinct (map fd_name ?fs)" by (simp add: o_def)
    then have "batch_new ?fs ?cs = Inr \<lparr>bt_fields = ?fs, bt_columns = ?cs, bt_rows = n\<rparr>"
      by (intro batch_new_ok) (use cs proj(2) False nth_mem [of _ proj] in auto)
    then show ?thesis by simp
  qed
  then show ?thesis using rd by (auto simp: read_row_group_def o_def)
qed

definition aligned :: "column list \<Rightarrow> nat \<Rightarrow> schema_field \<Rightarrow> nat option \<Rightarrow> column \<Rightarrow> bool" where
  "aligned cs rows sf ix c \<longleftrightarrow> (case ix of
       Some i \<Rightarrow> c = cs ! i
     | None \<Rightarrow> col_wf c \<and> col_ty c = fd_ty (sf_field sf) \<and> col_rows c = replicate rows (Some VNull))"

lemma realign_columns_ok:
  assumes "\<forall>f \<in> set schema. type_ok (fd_ty (sf_field f))"
  shows "\<exists>out. realign_columns schema (map h schema) (map ((!) cs) (List.map_filter (\<lambda>x. x) (map h schema))) rows = eret out \<and> length out = length schema \<and>
    (\<forall>j < length schema. aligned cs rows (schema ! j) (h (schema ! j)) (out ! j))"
  using assms
proof (induction schema)
  case (Cons sf schema)
  let ?rest = "map ((!) cs) (List.map_filter (\<lambda>x. x) (map h schema))"
  from Cons obtain out where out: "realign_columns schema (map h schema) ?rest rows = eret out" "length out = length schema"
    "\<And>j. j < length schema \<Longrightarrow> aligned cs rows (schema ! j) (h (schema ! j)) (out ! j)" by auto
  show ?case
  proof (cases "h sf")
    case None
    obtain c where c: "from_values (fd_ty (sf_field sf)) (replicate rows VNull) = Some (Inr c)" "col_wf c" "col_ty c = fd_ty (sf_field sf)"
      "col_rows c = replicate rows (Some VNull)" using from_values_nulls [of "fd_ty (sf_field sf)" rows] Cons.prems by auto
    have "realign_columns (sf # schema) (map h (sf # schema)) (map ((!) cs) (List.map_filter (\<lambda>x. x) (map h (sf # schema)))) rows = eret (c # out)"
      using None c(1) out(1) by (simp add: map_filter_simps eret_def)
    moreover have "aligned cs rows sf None c" using c by (simp add: aligned_def)
    ultimately show ?thesis using out(2,3) None by (intro exI [of _ "c # out"]) (simp add: All_less_Suc2)
  next
    case (Some i)
    have "realign_columns (sf # schema) (map h (sf # schema)) (map ((!) cs) (List.map_filter (\<lambda>x. x) (map h (sf # schema)))) rows = eret (cs ! i # out)"
      using Some out(1) by (simp add: map_filter_simps)
    moreover have "aligned cs rows sf (Some i) (cs ! i)" by (simp add: aligned_def)
    ultimately show ?thesis using out(2,3) Some by (intro exI [of _ "cs ! i # out"]) (simp add: All_less_Suc2)
  qed
qed simp

lemma aligned_columns:
  assumes "aligned cs n sf ix c" "\<And>i. ix = Some i \<Longrightarrow> col_ty (cs ! i) = fd_ty (sf_field sf) \<and> col_len (cs ! i) = n"
  shows "col_ty c = fd_ty (sf_field sf) \<and> col_len c = n"
proof (cases ix)
  case None
  then have "length (col_rows c) = n" "col_ty c = fd_ty (sf_field sf)" using assms(1) by (simp_all add: aligned_def)
  then show ?thesis by (simp add: col_rows_def)
qed (use assms in \<open>simp add: aligned_def\<close>)

text \<open>A batch of the schema, each of its columns aligned with the file's columns \<open>cs\<close>.\<close>

definition aligned_batch :: "schema_field list \<Rightarrow> nat list \<Rightarrow> column list \<Rightarrow> nat \<Rightarrow> batch \<Rightarrow> bool" where
  "aligned_batch schema ids cs n b \<longleftrightarrow> bt_fields b = map sf_field schema \<and> length (bt_columns b) = length schema \<and>
     (\<forall>j < length schema. aligned cs n (schema ! j) (file_position ids (schema ! j)) (bt_columns b ! j))"

lemma realign_ok:
  assumes cs: "\<And>i. i < length ids \<Longrightarrow> col_len (cs ! i) = n"
    and schema: "\<forall>f \<in> set schema. type_ok (fd_ty (sf_field f))" "distinct (map (fd_name \<circ> sf_field) schema)"
      "\<forall>sf \<in> set schema. \<forall>i. file_position ids sf = Some i \<longrightarrow> col_ty (cs ! i) = fd_ty (sf_field sf)"
    and b: "bt_columns projected = map ((!) cs) (List.map_filter (\<lambda>x. x) (map (file_position ids) schema))"
  shows "\<exists>out. realign schema (map (file_position ids) schema) projected n = eret out \<and> aligned_batch schema ids cs n out"
proof -
  from realign_columns_ok [OF schema(1), of "file_position ids" cs n] obtain out where
    out: "realign_columns schema (map (file_position ids) schema) (bt_columns projected) n = eret out" "length out = length schema"
      "\<And>j. j < length schema \<Longrightarrow> aligned cs n (schema ! j) (file_position ids (schema ! j)) (out ! j)" unfolding b by auto
  have col: "col_ty (out ! j) = fd_ty (sf_field (schema ! j)) \<and> col_len (out ! j) = n" if j: "j < length schema" for j
    by (rule aligned_columns [OF out(3) [OF j]]) (use j cs schema(3) file_position_Some in \<open>force simp: in_set_conv_nth\<close>)
  have "\<exists>b. batch_new (map sf_field schema) out = Inr b \<and> bt_columns b = out \<and> bt_fields b = map sf_field schema"
  proof (cases "schema = []")
    case True
    then show ?thesis using out(2) by (simp add: batch_new_def)
  next
    case False
    have "batch_new (map sf_field schema) out = Inr \<lparr>bt_fields = map sf_field schema, bt_columns = out, bt_rows = n\<rparr>"
      by (intro batch_new_ok) (use out(2) col schema(2) False in auto)
    then show ?thesis by simp
  qed
  then show ?thesis using out by (auto simp: realign_def new_batch_def aligned_batch_def)
qed

lemma read_groups_ok:
  assumes "\<And>k. k \<in> set ks \<Longrightarrow> \<exists>projected b. read_row_group r k (List.map_filter (\<lambda>x. x) index) = eret projected \<and>
    realign schema index projected (rm_rows (sr_row_groups r ! k)) = eret b \<and> P k b"
  shows "\<exists>bs. read_groups r schema index ks = eret bs \<and> list_all2 P ks bs"
  using assms
proof (induction ks)
  case (Cons k ks)
  obtain projected b where b: "read_row_group r k (List.map_filter (\<lambda>x. x) index) = eret projected"
    "realign schema index projected (rm_rows (sr_row_groups r ! k)) = eret b" "P k b" using Cons.prems [of k] by auto
  obtain bs where "read_groups r schema index ks = eret bs" "list_all2 P ks bs" using Cons by auto
  then have "read_groups r schema index (k # ks) = eret (b # bs) \<and> list_all2 P (k # ks) (b # bs)" using b by (simp add: eret_def)
  then show ?case by blast
qed simp

section \<open>Reading under the table's schema\<close>

lemma opened_groups:
  assumes "file_of byte_size fs gs cols w fb bytes meta" "columns_ok fs gs cols"
  shows "length (sr_row_groups (opened bytes fs w fb)) = length gs" "k < length gs \<Longrightarrow> rm_rows (sr_row_groups (opened bytes fs w fb) ! k) = group_rows (gs ! k)"
  using assms by (auto simp: opened_def file_of_def writer_inv_def columns_ok_def row_group_at_def list_all2_conv_all_nth)


lemma read_opened:
  assumes f: "file_of byte_size fs gs cols w fb bytes meta" "columns_ok fs gs cols" and size: "length bytes < 2 ^ 32"
    and names: "gs \<noteq> [] \<Longrightarrow> distinct (map fd_name fs)" and ids: "length ids = length fs"
    and schema: "\<forall>f \<in> set schema. type_ok (fd_ty (sf_field f))" "distinct (map sf_id schema)" "distinct (map (fd_name \<circ> sf_field) schema)"
      "\<forall>sf \<in> set schema. \<forall>i. file_position ids sf = Some i \<longrightarrow> fd_ty (fs ! i) = fd_ty (sf_field sf)"
  shows "\<exists>bs. read_groups (opened bytes fs w fb) schema (map (file_position ids) schema) [0..<length gs] = eret bs \<and>
    list_all2 (\<lambda>k. aligned_batch schema ids (cols ! k) (group_rows (gs ! k))) [0..<length gs] bs"
proof (rule read_groups_ok)
  fix k
  assume "k \<in> set [0..<length gs]"
  then have k: "k < length gs" by simp
  let ?r = "opened bytes fs w fb" and ?proj = "List.map_filter (\<lambda>x. x) (map (file_position ids) schema)"
  have sf: "sr_fields ?r = fs" by (simp add: opened_def)
  have c: "\<And>i. i < length fs \<Longrightarrow> col_ty (cols ! k ! i) = fd_ty (fs ! i) \<and> col_len (cols ! k ! i) = group_rows (gs ! k)"
    using f(2) k by (auto simp: columns_ok_def)
  have pos: "\<forall>i \<in> set ?proj. i < length fs" using file_position_Some ids by (fastforce simp: map_filter_def)
  have nm: "distinct (map fd_name fs)" using names k by fastforce
  have "\<exists>b. read_row_group ?r k ?proj = eret b \<and> bt_columns b = map ((!) (cols ! k)) ?proj"
    by (rule read_row_group_ok [of _ _ _ "group_rows (gs ! k)"])
      (use opened_reads [OF f size k] c pos positions_distinct [OF schema(2)] nm sf in auto)
  then obtain b where b: "read_row_group ?r k ?proj = eret b" "bt_columns b = map ((!) (cols ! k)) ?proj" by blast
  have "\<exists>out. realign schema (map (file_position ids) schema) b (group_rows (gs ! k)) = eret out \<and>
    aligned_batch schema ids (cols ! k) (group_rows (gs ! k)) out"
    by (rule realign_ok [OF _ schema(1,3) _ b(2)]) (use c ids schema(4) file_position_Some in fastforce)+
  then show "\<exists>projected b. read_row_group ?r k ?proj = eret projected \<and>
    realign schema (map (file_position ids) schema) projected (rm_rows (sr_row_groups ?r ! k)) = eret b \<and>
    aligned_batch schema ids (cols ! k) (group_rows (gs ! k)) b" using b(1) opened_groups(2) [OF f k] by auto
qed

lemma row_groups_names:
  assumes "row_groups_of n bs \<noteq> []" "\<forall>b \<in> set bs. batch_wf b \<and> bt_fields b = fs"
  shows "distinct (map fd_name fs)"
proof -
  have "bs \<noteq> []" using assms(1) by (auto simp: row_groups_of_def)
  then obtain b where "b \<in> set bs" by (cases bs) auto
  then show ?thesis using assms(2) by (auto simp: batch_wf_def)
qed

definition sample_entry :: "nat list \<Rightarrow> segment_entry" where
  "sample_entry ids = \<lparr>sg_id = 1, sg_partition = [], sg_seq = 1, sg_rows = 2, sg_bytes = 0, sg_footer_crc = 0, sg_columns = [], sg_side_files = [],
     sg_dir = [116], sg_field_ids = ids, sg_file_field_ids = []\<rparr>"

text \<open>
  C7. Reading survives a change of schema. A segment file, read under a schema whose fields
  were renamed, reordered, added or dropped since it was written, gives one batch per row
  group in the schema's order: a field whose id the file has is the file's column with the
  rows that were written, whatever its name is now, and a field that was added later is NULL
  in every row.
\<close>

theorem schema_change_read:
  assumes "write_segment byte_size fs opts bs = Some (Inr (bytes, meta))" "\<forall>b \<in> set bs. batch_wf b" "seg_limits fs opts bs" "length bytes < 2 ^ 32"
    "length (file_ids seg) = length fs"
    "\<forall>f \<in> set schema. type_ok (fd_ty (sf_field f))" "distinct (map sf_id schema)" "distinct (map (fd_name \<circ> sf_field) schema)"
    "\<forall>sf \<in> set schema. \<forall>i. file_position (file_ids seg) sf = Some i \<longrightarrow> fd_ty (fs ! i) = fd_ty (sf_field sf)"
  shows "\<exists>out. read_segment_as (Some bytes) seg schema = Some (Inr out) \<and> length out = length (row_groups_of (wo_row_group_rows opts) bs) \<and>
    (\<forall>k < length out. bt_fields (out ! k) = map sf_field schema \<and> length (bt_columns (out ! k)) = length schema \<and>
      (\<forall>j < length schema. col_rows (bt_columns (out ! k) ! j) =
        (case file_position (file_ids seg) (schema ! j) of
           Some i \<Rightarrow> concat (map (\<lambda>b. col_rows (bt_columns b ! i)) (row_groups_of (wo_row_group_rows opts) bs ! k))
         | None \<Rightarrow> replicate (group_rows (row_groups_of (wo_row_group_rows opts) bs ! k)) (Some VNull))))"
proof -
  let ?gs = "row_groups_of (wo_row_group_rows opts) bs" and ?ids = "file_ids seg"
  obtain cols w fb where f: "file_of byte_size fs ?gs cols w fb bytes meta" "columns_ok fs ?gs cols" "reader_open bytes = Inr (opened bytes fs w fb)"
    using segment_opens [OF assms(1-4)] by blast
  have names: "distinct (map fd_name fs)" if "?gs \<noteq> []"
    using row_groups_names [OF that, of fs] write_segment_file [OF assms(1,2)] assms(2) by blast
  have ix: "map_file_columns schema ?ids fs = eret (map (file_position ?ids) schema)" by (rule map_file_columns_ok [OF assms(5,9)])
  obtain out where out: "read_groups (opened bytes fs w fb) schema (map (file_position ?ids) schema) [0..<length ?gs] = eret out"
    "list_all2 (\<lambda>k. aligned_batch schema ?ids (cols ! k) (group_rows (?gs ! k))) [0..<length ?gs] out"
    using read_opened [OF f(1,2) assms(4) names assms(5-9)] by blast
  have len: "length (sr_row_groups (opened bytes fs w fb)) = length ?gs" by (rule opened_groups(1) [OF f(1,2)])
  have "read_segment_as (Some bytes) seg schema = Some (Inr out)"
    using f(3) ix out(1) len assms(5) by (simp add: read_segment_as_def open_segment_def opened_def eret_def)
  moreover have lo: "length out = length ?gs" using list_all2_lengthD [OF out(2)] by simp
  moreover have "col_rows (bt_columns (out ! k) ! j) =
      (case file_position ?ids (schema ! j) of Some i \<Rightarrow> concat (map (\<lambda>b. col_rows (bt_columns b ! i)) (?gs ! k))
       | None \<Rightarrow> replicate (group_rows (?gs ! k)) (Some VNull))" if kj: "k < length out" "j < length schema" for k j
  proof -
    have "aligned (cols ! k) (group_rows (?gs ! k)) (schema ! j) (file_position ?ids (schema ! j)) (bt_columns (out ! k) ! j)"
      using list_all2_nthD2 [OF out(2) kj(1)] kj lo by (simp add: aligned_batch_def)
    then show ?thesis using f(2) kj(1) lo file_position_Some assms(5)
      by (cases "file_position ?ids (schema ! j)") (fastforce simp: aligned_def columns_ok_def)+
  qed
  ultimately show ?thesis using list_all2_nthD2 [OF out(2)] by (auto simp: aligned_batch_def)
qed

theorem schema_change_read_witness:
  "\<exists>bytes meta out. write_segment (\<lambda>_. 0) [sample_field] sample_options [sample_batch] = Some (Inr (bytes, meta)) \<and>
     read_segment_as (Some bytes) (sample_entry [5]) [\<lparr>sf_id = 6, sf_field = \<lparr>fd_name = [97], fd_ty = TString\<rparr>\<rparr>, \<lparr>sf_id = 5, sf_field = \<lparr>fd_name = [98], fd_ty = TInt64\<rparr>\<rparr>] =
       Some (Inr [out]) \<and>
     col_rows (bt_columns out ! 0) = [Some VNull, Some VNull] \<and> col_rows (bt_columns out ! 1) = [Some (VInt64 7), Some (VInt64 8)]"
proof -
  let ?schema = "[\<lparr>sf_id = 6, sf_field = \<lparr>fd_name = [97], fd_ty = TString\<rparr>\<rparr>, \<lparr>sf_id = 5, sf_field = \<lparr>fd_name = [98], fd_ty = TInt64\<rparr>\<rparr>]"
  obtain bytes meta where w: "write_segment (\<lambda>_. 0) [sample_field] sample_options [sample_batch] = Some (Inr (bytes, meta))"
    "length bytes < 2 ^ 32" using sample_written by blast
  have wf: "\<forall>b \<in> set [sample_batch]. batch_wf b" using sample_limits(1) by simp
  have g: "row_groups_of (wo_row_group_rows sample_options) [sample_batch] = [[sample_batch]]"
    using sample_row_groups by (simp add: sample_options_def)
  have ids: "file_ids (sample_entry [5]) = [5]" by (simp add: file_ids_def sample_entry_def)
  have rows: "col_rows sample_col = [Some (VInt64 7), Some (VInt64 8)]" by code_simp
  have pos: "file_position [5] (?schema ! 0) = None" "file_position [5] (?schema ! 1) = Some 0" by (simp_all add: file_position_def)
  obtain out where out: "read_segment_as (Some bytes) (sample_entry [5]) ?schema = Some (Inr out)" "length out = 1"
    "\<forall>j < length ?schema. col_rows (bt_columns (out ! 0) ! j) =
        (case file_position [5] (?schema ! j) of Some i \<Rightarrow> concat (map (\<lambda>b. col_rows (bt_columns b ! i)) ([[sample_batch]] ! 0))
         | None \<Rightarrow> replicate (group_rows ([[sample_batch]] ! 0)) (Some VNull))"
  proof -
    have "\<forall>sf \<in> set ?schema. \<forall>i. file_position [5] sf = Some i \<longrightarrow> fd_ty ([sample_field] ! i) = fd_ty (sf_field sf)"
      by (simp add: file_position_def sample_field_def)
    from schema_change_read [OF w(1) wf sample_limits(2) w(2), of "sample_entry [5]" ?schema, unfolded ids g, OF _ _ _ _ this] that
    show thesis by auto
  qed
  have "col_rows (bt_columns (out ! 0) ! 0) = [Some VNull, Some VNull]" "col_rows (bt_columns (out ! 0) ! 1) = col_rows sample_col"
    using out(3) [rule_format, of 0] out(3) [rule_format, of 1] unfolding pos by (simp_all add: sample_batch_def group_rows_def numeral_2_eq_2)
  then show ?thesis using w(1) rows out(1,2) by (cases out) auto
qed

end
