(* ===== verification/Scan_Props.thy ===== *)
theory Scan_Props
  imports Realign "HOL-Library.Sublist"
begin

text \<open>
  What a scan of a segment gives: the rows its tombstones leave, and, when it has a
  predicate to prune by, every row for which the predicate is true.
\<close>

section \<open>A row group as the scan reads it\<close>

definition group_true :: "seg_reader \<Rightarrow> nat \<Rightarrow> column list \<Rightarrow> bool" where
  "group_true r k cs \<longleftrightarrow> length cs = length (sr_fields r) \<and> rm_rows (sr_row_groups r ! k) < 2 ^ 32 \<and>
     (\<forall>i < length cs. read_column r k i = eret (cs ! i) \<and> col_wf (cs ! i) \<and> col_len (cs ! i) = rm_rows (sr_row_groups r ! k) \<and>
        col_payload (cs ! i) < 2 ^ 32 \<and> Prune.covers (chunk_range (sr_row_groups r ! k) (rm_chunks (sr_row_groups r ! k) ! i)) (cs ! i))"

text \<open>Column \<open>c\<close> of a realigned batch: the file's column, or as many NULLs where the file has none.\<close>

definition stands_for :: "column list \<Rightarrow> nat \<Rightarrow> nat option \<Rightarrow> column \<Rightarrow> bool" where
  "stands_for cs rows ix c \<longleftrightarrow> col_wf c \<and> col_len c = rows \<and> col_payload c < 2 ^ 32 \<and>
     (case ix of None \<Rightarrow> col_rows c = replicate rows (Some VNull) | Some i \<Rightarrow> i < length cs \<and> c = cs ! i)"

lemma map_filter_Cons [simp]: "List.map_filter (\<lambda>x. x) (None # xs) = List.map_filter (\<lambda>x. x) xs" "List.map_filter (\<lambda>x. x) (Some x # xs) = x # List.map_filter (\<lambda>x. x) xs"
  by (simp_all add: map_filter_simps)

lemma case_new_iff: "(case x of Inl e \<Rightarrow> efail (h e) | Inr b \<Rightarrow> eret b) = Some (Inr y) \<longleftrightarrow> x = Inr y"
  by (cases x) (simp_all add: efail_def eret_def)

lemma read_columns_true:
  assumes "group_true r k cs" "read_columns r k proj = Some (Inr fcs)"
  shows "map snd fcs = map ((!) cs) proj \<and> (\<forall>i \<in> set proj. i < length cs)"
  using assms(2)
proof (induction proj arbitrary: fcs)
  case (Cons i proj)
  from Cons.prems obtain col f rest where
    c: "read_column r k i = Some (Inr col)" "nth_opt (sr_fields r) i = Some f" "read_columns r k proj = Some (Inr rest)" "fcs = (f, col) # rest" by auto
  have "i < length cs" using c(2) assms(1) by (auto simp: nth_opt_def group_true_def split: if_splits)
  moreover from this have "col = cs ! i" using c(1) assms(1) by (simp add: group_true_def eret_def)
  ultimately show ?case using Cons.IH [OF c(3)] c(4) by simp
qed simp

lemma batch_new_columns: "batch_new fs cs = Inr b \<Longrightarrow> bt_columns b = cs"
  by (auto simp: batch_new_def Let_def split: if_splits option.splits)

lemma read_row_group_true:
  assumes "group_true r k cs" "read_row_group r k proj = Some (Inr b)"
  shows "bt_columns b = map ((!) cs) proj \<and> (\<forall>i \<in> set proj. i < length cs)"
proof -
  from assms(2) obtain fcs where f: "read_columns r k proj = Some (Inr fcs)" "batch_new (map fst fcs) (map snd fcs) = Inr b"
    unfolding read_row_group_def by (auto simp: case_new_iff)
  show ?thesis using read_columns_true [OF assms(1) f(1)] batch_new_columns [OF f(2)] by simp
qed

lemma rows_nulls:
  assumes "col_rows c = replicate n (Some VNull)"
  shows "col_len c = n" "col_payload c = 0"
proof -
  have l: "col_len c = n" using arg_cong [OF assms, of length] by (simp add: col_rows_def)
  have "col_get c i = Some VNull" if "i < n" for i
    using arg_cong [OF assms, of "\<lambda>xs. xs ! i"] that l by (simp add: col_rows_def)
  then have "map (\<lambda>ix. case row_at c ix of None \<Rightarrow> 0 | Some v \<Rightarrow> val_payload v) (map Some [0..<col_len c]) = map (\<lambda>_. 0) [0..<col_len c]"
    using l by (simp add: row_at_def)
  then show "col_payload c = 0" by (simp add: col_payload_def rows_payload_def)
  show "col_len c = n" by (rule l)
qed

lemma realign_columns_true:
  assumes "realign_columns schema index (map ((!) cs) (List.map_filter (\<lambda>x. x) index)) rows = Some (Inr out)"
    "\<forall>f \<in> set schema. type_ok (fd_ty (sf_field f))" "length index = length schema"
    "\<forall>i \<in> set (List.map_filter (\<lambda>x. x) index). i < length cs" "\<And>i. i < length cs \<Longrightarrow> stands_for cs rows (Some i) (cs ! i)"
  shows "list_all2 (stands_for cs rows) index out"
  using assms(1-4)
proof (induction schema arbitrary: index out)
  case (Cons sf schema)
  then obtain ix ixs where ix: "index = ix # ixs" by (cases index) auto
  show ?case
  proof (cases ix)
    case None
    from Cons.prems(1) obtain c rest where c: "from_values (fd_ty (sf_field sf)) (replicate rows VNull) = Some (Inr c)"
      "realign_columns schema ixs (map ((!) cs) (List.map_filter (\<lambda>x. x) ixs)) rows = Some (Inr rest)" "out = c # rest"
      by (auto simp: ix None)
    have "stands_for cs rows None c"
      using from_values_nulls [of "fd_ty (sf_field sf)" rows] c(1) Cons.prems(2) rows_nulls [of c rows] by (auto simp: stands_for_def)
    then show ?thesis using Cons.IH [OF c(2)] Cons.prems c(3) by (simp add: ix None)
  next
    case (Some i)
    from Cons.prems(1) obtain rest where c: "realign_columns schema ixs (map ((!) cs) (List.map_filter (\<lambda>x. x) ixs)) rows = Some (Inr rest)"
      "out = cs ! i # rest" by (auto simp: ix Some)
    show ?thesis using Cons.IH [OF c(1)] Cons.prems c(2) assms(5) [of i] by (simp add: ix Some)
  qed
qed simp

lemma realign_true:
  assumes g: "group_true r k cs" and rd: "read_row_group r k (List.map_filter (\<lambda>x. x) index) = Some (Inr projected)"
    and re: "realign schema index projected (rm_rows (sr_row_groups r ! k)) = Some (Inr full)"
    and ty: "\<forall>f \<in> set schema. type_ok (fd_ty (sf_field f))" and len: "length index = length schema"
  shows "batch_wf full \<and> list_all2 (stands_for cs (rm_rows (sr_row_groups r ! k))) index (bt_columns full)"
proof -
  note p = read_row_group_true [OF g rd]
  from re obtain out where o: "realign_columns schema index (bt_columns projected) (rm_rows (sr_row_groups r ! k)) = Some (Inr out)"
    "new_batch (map sf_field schema) out = Some (Inr full)" unfolding realign_def by auto
  have s: "list_all2 (stands_for cs (rm_rows (sr_row_groups r ! k))) index out"
    by (rule realign_columns_true [OF o(1) [unfolded conjunct1 [OF p]] ty len])
      (use p g in \<open>auto simp: stands_for_def group_true_def\<close>)
  have "col_wf c" if "c \<in> set out" for c
    using that s by (auto simp: in_set_conv_nth list_all2_conv_all_nth stands_for_def)
  then show ?thesis using batch_new_wf [of "map sf_field schema" out full] o(2) s by (auto simp: new_batch_def case_new_iff)
qed

lemma kept_subset: "set (kept bits xs) \<subseteq> set xs"
  by (auto simp: kept_def dest: set_zip_rightD)

lemma those_nth: "those (map f xs) = Some ys \<Longrightarrow> length ys = length xs \<and> (\<forall>i < length xs. f (xs ! i) = Some (ys ! i))"
proof (induction xs arbitrary: ys)
  case (Cons x xs)
  then obtain y zs where "f x = Some y" "those (map f xs) = Some zs" "ys = y # zs" by (auto split: option.splits)
  then show ?case using Cons.IH [of zs] by (simp add: nth_Cons split: nat.splits)
qed simp


text \<open>What \<open>read_group\<close> gives for column \<open>c\<close> of the scan: some rows of the column that stands for it.\<close>

definition part_of :: "column \<Rightarrow> column \<Rightarrow> bool" where
  "part_of d c \<longleftrightarrow> col_wf d \<and> col_ty d = col_ty c \<and> set (col_rows d) \<subseteq> set (col_rows c)"

lemma filtered_true:
  assumes "batch_wf full" "list_all2 (stands_for cs rows) index (bt_columns full)" "rows < 2 ^ 32" "bt_rows full = rows"
    "(case m of None \<Rightarrow> Some full | Some keep \<Rightarrow> filter_batch full keep) = Some filtered"
    "case m of None \<Rightarrow> True | Some keep \<Rightarrow> bm_wf keep \<and> bm_len keep = bt_rows full" "bt_columns full \<noteq> []"
  shows "length (bt_columns filtered) = length (bt_columns full) \<and> (\<forall>j < length (bt_columns full). part_of (bt_columns filtered ! j) (bt_columns full ! j))"
proof (cases m)
  case None
  then show ?thesis using assms(1,5) by (auto simp: part_of_def batch_wf_def)
next
  case (Some keep)
  have "col_payload c < 2 ^ 32" if "c \<in> set (bt_columns full)" for c
    using that assms(2) by (auto simp: in_set_conv_nth list_all2_conv_all_nth stands_for_def)
  then have "batch_small full" using assms(3,4) by (simp add: batch_small_def)
  then obtain b where b: "filter_batch full keep = Some b" "batch_wf b" "bt_fields b = bt_fields full" "length (bt_columns b) = length (bt_columns full)"
    "\<forall>i < length (bt_columns full). col_rows (bt_columns b ! i) = kept (bm_bits keep) (col_rows (bt_columns full ! i))"
    using filter_batch_ok [OF assms(1,7)] assms(6) Some by auto
  then show ?thesis using assms(1,5) Some subsetD [OF kept_subset] by (auto simp: part_of_def batch_wf_def)
qed

lemma read_group_true:
  assumes g: "group_true r k cs" and rd: "read_group scan ts r index needed k = Some (Inr (Some b))"
    and ty: "\<forall>f \<in> set (tb_schema (sc_table scan)). type_ok (fd_ty (sf_field f))" and needed: "\<forall>i \<in> set needed. i < length (tb_schema (sc_table scan))"
  shows "batch_wf b \<and> length (bt_columns b) = length (sc_columns scan) \<and>
    (\<forall>c < length (sc_columns scan). \<exists>f. stands_for cs (rm_rows (sr_row_groups r ! k)) (index ! (sc_columns scan ! c)) f \<and> part_of (bt_columns b ! c) f)"
proof -
  let ?rows = "rm_rows (sr_row_groups r ! k)" and ?schema = "map ((!) (tb_schema (sc_table scan))) needed" and ?index = "map ((!) index) needed"
  from rd obtain projected full m filtered out where
    s: "read_row_group r k (List.map_filter (\<lambda>x. x) ?index) = Some (Inr projected)" "realign ?schema ?index projected ?rows = Some (Inr full)"
      "tombstone_keep_mask ts full ?schema ?rows = Some (Inr m)" "(case m of None \<Rightarrow> Some full | Some keep \<Rightarrow> filter_batch full keep) = Some filtered"
      "bt_rows filtered \<noteq> 0" "output_columns scan needed filtered = Some out" "new_batch (sc_fields scan) out = Some (Inr b)"
    by (auto simp: read_group_def Let_def split: if_splits)
  have full: "batch_wf full" "list_all2 (stands_for cs ?rows) ?index (bt_columns full)"
    using realign_true [OF g s(1,2)] ty needed by auto
  have out: "length out = length (sc_columns scan)"
    "\<And>c. c < length (sc_columns scan) \<Longrightarrow> \<exists>p. position (\<lambda>x. x = sc_columns scan ! c) needed = Some p \<and> nth_opt (bt_columns filtered) p = Some (out ! c)"
    using those_nth [OF s(6) [unfolded output_columns_def]] by (auto simp: bind_eq_Some_conv)
  show ?thesis
  proof (cases "bt_columns full = []")
    case True
    then have "needed = []" using full(2) by simp
    then have e: "sc_columns scan = []" using out(2) [of 0] by auto
    then have "out = []" using out(1) by simp
    then show ?thesis using batch_new_wf [of "sc_fields scan" out b] s(7) e by (auto simp: new_batch_def case_new_iff)
  next
    case False
    have n: "bt_rows full = ?rows"
    proof -
      obtain c where "c \<in> set (bt_columns full)" using False by (cases "bt_columns full") auto
      then show ?thesis using full by (auto simp: in_set_conv_nth list_all2_conv_all_nth stands_for_def batch_wf_def)
    qed
    have "case m of None \<Rightarrow> True | Some keep \<Rightarrow> bm_wf keep \<and> bm_len keep = bt_rows full"
      using keep_mask_spec [of ts full ?schema m] s(3) full(1) n by (auto split: option.splits)
    then have fl: "length (bt_columns filtered) = length (bt_columns full)"
      "\<And>j. j < length (bt_columns full) \<Longrightarrow> part_of (bt_columns filtered ! j) (bt_columns full ! j)"
      using filtered_true [OF full _ n s(4) _ False] g by (auto simp: group_true_def)
    have col: "\<exists>f. stands_for cs ?rows (index ! (sc_columns scan ! c)) f \<and> part_of (out ! c) f" if c: "c < length (sc_columns scan)" for c
    proof -
      from out(2) [OF c] obtain p where p: "position (\<lambda>x. x = sc_columns scan ! c) needed = Some p" "nth_opt (bt_columns filtered) p = Some (out ! c)" by blast
      have p': "p < length needed" "needed ! p = sc_columns scan ! c" using position_Some [OF p(1)] by simp_all
      have "p < length (bt_columns full)" "out ! c = bt_columns filtered ! p" using p(2) fl(1) by (auto simp: nth_opt_def split: if_splits)
      moreover have "stands_for cs ?rows (index ! (sc_columns scan ! c)) (bt_columns full ! p)"
        using list_all2_nthD [OF full(2), of p] p' by simp
      ultimately show ?thesis using fl(2) by auto
    qed
    have "col_wf (out ! c)" if "c < length (sc_columns scan)" for c using col [OF that] by (auto simp: part_of_def)
    then have "\<forall>c \<in> set out. col_wf c" using out(1) by (auto simp: in_set_conv_nth)
    then show ?thesis using batch_new_wf [of "sc_fields scan" out b] s(7) col out(1) by (auto simp: new_batch_def case_new_iff)
  qed
qed

section \<open>Pruning\<close>

lemma part_of_values: "part_of d c \<Longrightarrow> col_values d \<subseteq> col_values c"
  by (fastforce simp: part_of_def col_values_def col_rows_def)

lemma part_of_covers:
  assumes "part_of d c" "Prune.covers rng c"
  shows "Prune.covers rng d"
proof -
  have "col_get d i \<noteq> Some VNull" if "\<forall>i < col_len c. col_get c i \<noteq> Some VNull" "i < col_len d" for i
  proof -
    have "col_get d i \<in> set (col_rows c)" using assms(1) that(2) by (auto simp: part_of_def col_rows_def)
    then show ?thesis using that(1) by (auto simp: col_rows_def)
  qed
  then show ?thesis using assms part_of_values [OF assms(1)] by (fastforce simp: Prune.covers_def part_of_def)
qed

text \<open>A bloom filter hashes bytes, so its answer speaks of SQL equality only where equal values have equal bytes.\<close>

fun bloom_exact :: "data_type \<Rightarrow> bool" where
  "bloom_exact TFloat64 = False"
| "bloom_exact (TDecimal _) = False"
| "bloom_exact (TList _) = False"
| "bloom_exact _ = True"

lemma exact_equal: "bloom_exact ty \<Longrightarrow> has_type ty x \<Longrightarrow> sql_eq x v = Some True \<Longrightarrow> x = v"
  by (cases ty; cases x; cases v) (auto elim!: has_type.elims split: if_splits)

lemma not_denied:
  assumes "\<not> denies idx x" "might_contain idx v = Some False" "value_ok v" "has_type ty x" "skip_kind idx = KBloom \<Longrightarrow> bloom_exact ty"
  shows "sql_eq x v \<noteq> Some True"
proof
  assume eq: "sql_eq x v = Some True"
  show False
  proof (cases idx)
    case (SBloom bl)
    then have "x = v" using exact_equal [OF assms(5) assms(4) eq] by simp
    then show False using assms(1,2) SBloom by simp
  next
    case (SValueSet s)
    then have "value_matches v (vs_ty s)" using assms(2) by (auto simp: set_might_contain_def split: if_splits)
    then show False using assms(1,2,3) eq SValueSet by auto
  qed (use assms(2) in simp)
qed

text \<open>The indexes a scan may consult for a row group: each can be loaded and denies no value of its column.\<close>

definition indexes_true :: "seg_reader \<Rightarrow> nat \<Rightarrow> column list \<Rightarrow> bool" where
  "indexes_true r k cs \<longleftrightarrow> (\<forall>e \<in> set (sr_indexes r). matches_shape k e \<longrightarrow>
     (\<exists>idx. load_index r e = eret idx \<and> hd (ie_columns e) < length cs \<and> (\<forall>v \<in> col_values (cs ! hd (ie_columns e)). \<not> denies idx v) \<and>
        (skip_kind idx = KBloom \<longrightarrow> bloom_exact (col_ty (cs ! hd (ie_columns e))))))"

lemma column_entries_mem: "(c, e) \<in> set (column_entries k es seen) \<Longrightarrow> e \<in> set es \<and> matches_shape k e \<and> c = hd (ie_columns e)"
  by (induction k es seen rule: column_entries.induct) (auto split: if_splits)

lemma load_entries_true:
  assumes "\<And>c e. (c, e) \<in> set es \<Longrightarrow> \<exists>idx. load_index r e = eret idx \<and> P c idx"
  shows "\<exists>idxs. load_entries r es = Some (Inr idxs) \<and> (\<forall>c idx. map_of idxs c = Some idx \<longrightarrow> P c idx)"
  using assms
proof (induction es)
  case (Cons ce es)
  obtain c e where ce: "ce = (c, e)" by fastforce
  obtain idx where i: "load_index r e = eret idx" "P c idx" using Cons.prems ce by auto
  obtain idxs where "load_entries r es = Some (Inr idxs)" "\<forall>c idx. map_of idxs c = Some idx \<longrightarrow> P c idx" using Cons.IH Cons.prems by auto
  then show ?case using i by (auto simp: ce eret_def)
qed (simp add: eret_def)

definition has_match :: "kernels \<Rightarrow> expr \<Rightarrow> batch \<Rightarrow> bool" where
  "has_match K pred b \<longleftrightarrow> (\<exists>out i. eval K b pred = Some (Inr out) \<and> i < bt_rows b \<and> kleene_row out i = Some True)"

lemma prune_group_sound:
  assumes g: "group_true r k cs" "indexes_true r k cs" and pred: "sc_predicate scan = Some pred" "expr_ok pred"
    and ty: "\<forall>f \<in> set (tb_schema (sc_table scan)). type_ok (fd_ty (sf_field f))" and needed: "\<forall>i \<in> set needed. i < length (tb_schema (sc_table scan))"
  shows "\<exists>p. prune_group scan r index k = Some (Inr p) \<and>
    (\<forall>b. p \<and> read_group scan ts r index needed k = Some (Inr (Some b)) \<longrightarrow> \<not> has_match K pred b)"
proof -
  let ?rg = "sr_row_groups r ! k"
  let ?P = "\<lambda>i idx. i < length cs \<and> (\<forall>v \<in> col_values (cs ! i). \<not> denies idx v) \<and> (skip_kind idx = KBloom \<longrightarrow> bloom_exact (col_ty (cs ! i)))"
  have "\<exists>idx. load_index r e = eret idx \<and> ?P c idx" if "(c, e) \<in> set (column_entries k (sr_indexes r) [])" for c e
    using column_entries_mem [OF that] g(2) by (auto simp: indexes_true_def)
  from load_entries_true [of _ r ?P, OF this] obtain idxs where
    idxs: "load_entries r (column_entries k (sr_indexes r) []) = Some (Inr idxs)" "\<And>c idx. map_of idxs c = Some idx \<Longrightarrow> ?P c idx" by blast
  have fcol: "i < length cs \<and> part_of (bt_columns b ! c) (cs ! i)"
    if b: "read_group scan ts r index needed k = Some (Inr (Some b))" and c: "c < length (bt_columns b)" "file_column scan index c = Some i" for b c i
  proof -
    note rg = read_group_true [OF g(1) b ty needed]
    have "c < length (sc_columns scan)" using rg c(1) by simp
    then obtain f where f: "stands_for cs (rm_rows ?rg) (index ! (sc_columns scan ! c)) f" "part_of (bt_columns b ! c) f" using rg by blast
    have "index ! (sc_columns scan ! c) = Some i" using c(2) by (auto simp: file_column_def nth_opt_def bind_eq_Some_conv split: if_splits)
    then show ?thesis using f by (simp add: stands_for_def)
  qed
  have zone: "\<not> has_match K pred b" if b: "read_group scan ts r index needed k = Some (Inr (Some b))" and z: "\<not> may_match (zone_stats scan index ?rg) pred" for b
  proof -
    have "stats_cover (zone_stats scan index ?rg) b" unfolding stats_cover_def
    proof (intro allI impI)
      fix c rng
      assume c: "c < length (bt_columns b)" and "zone_stats scan index ?rg c = Some rng"
      then obtain i where i: "file_column scan index c = Some i" "rng = chunk_range ?rg (rm_chunks ?rg ! i)"
        by (auto simp: zone_stats_def nth_opt_def bind_eq_Some_conv split: if_splits)
      show "Prune.covers rng (bt_columns b ! c)"
        using fcol [OF b c i(1)] part_of_covers [of "bt_columns b ! c" "cs ! i" rng] g(1) i(2) by (simp add: group_true_def)
    qed
    then show ?thesis using zone_sound [OF _ pred(2)] z read_group_true [OF g(1) b ty needed] by (auto simp: has_match_def)
  qed
  have index: "\<not> has_match K pred b" if b: "read_group scan ts r index needed k = Some (Inr (Some b))"
    and z: "\<not> index_may_match (index_probe scan index idxs) pred" for b
  proof
    assume "has_match K pred b"
    then obtain out i where m: "eval K b pred = Some (Inr out)" "kleene_row out i = Some True" by (auto simp: has_match_def)
    have wf: "batch_wf b" using read_group_true [OF g(1) b ty needed] by simp
    have "index_may_match (index_probe scan index idxs) pred"
    proof (rule index_sound [OF wf pred(2) m])
      fix c v x
      assume c: "c < length (bt_columns b)" "index_probe scan index idxs c v = Some False" and v: "value_ok v" and x: "x \<in> col_values (bt_columns b ! c)"
      from c(2) obtain j idx where j: "file_column scan index c = Some j" "map_of idxs j = Some idx" "might_contain idx v = Some False"
        by (auto simp: index_probe_def bind_eq_Some_conv)
      have p: "part_of (bt_columns b ! c) (cs ! j)" using fcol [OF b c(1) j(1)] by simp
      have "has_type (col_ty (cs ! j)) x" using values_typed [OF _ x] p by (auto simp: part_of_def)
      then show "sql_eq x v \<noteq> Some True"
        using not_denied [OF _ j(3) v] idxs(2) [OF j(2)] part_of_values [OF p] x by blast
    qed
    then show False using z by simp
  qed
  show ?thesis
  proof (cases "may_match (zone_stats scan index ?rg) pred")
    case True
    then show ?thesis using index pred(1) idxs(1) by (auto simp: prune_group_def eret_def)
  next
    case False
    then show ?thesis using zone pred(1) by (auto simp: prune_group_def eret_def)
  qed
qed

lemma scan_groups_pruned:
  assumes "scan_groups rd ks = Some (Inr all)"
    "\<And>k. k \<in> set ks \<Longrightarrow> \<exists>p. prune k = Some (Inr p) \<and> (\<forall>b. p \<and> rd k = Some (Inr (Some b)) \<longrightarrow> \<not> M b)"
  shows "\<exists>out. scan_groups (\<lambda>k. ebind (prune k) (\<lambda>p. if p then eret None else rd k)) ks = Some (Inr out) \<and> subseq out all \<and> filter M out = filter M all"
  using assms
proof (induction ks arbitrary: all)
  case (Cons k ks)
  from Cons.prems(1) obtain b rest where b: "rd k = Some (Inr b)" "scan_groups rd ks = Some (Inr rest)" "all = (case b of None \<Rightarrow> rest | Some b \<Rightarrow> b # rest)" by auto
  from Cons.IH [OF b(2)] Cons.prems(2) obtain out where
    out: "scan_groups (\<lambda>k. ebind (prune k) (\<lambda>p. if p then eret None else rd k)) ks = Some (Inr out)" "subseq out rest" "filter M out = filter M rest" by auto
  obtain p where p: "prune k = Some (Inr p)" "\<forall>b. p \<and> rd k = Some (Inr (Some b)) \<longrightarrow> \<not> M b" using Cons.prems(2) by auto
  show ?case
  proof (cases p)
    case True
    then show ?thesis using out p b by (auto simp: eret_def split: option.splits)
  next
    case False
    then show ?thesis using out p b by (auto simp: eret_def split: option.splits)
  qed
qed simp

section \<open>A written file, scanned\<close>

lemma opened_true:
  assumes f: "file_of byte_size fs gs cols w fb bytes meta" "columns_ok fs gs cols" and size: "length bytes < 2 ^ 32" and k: "k < length gs"
    and small: "\<forall>i < length fs. \<forall>col. read_column (opened bytes fs w fb) k i = eret col \<longrightarrow> col_payload col < 2 ^ 32"
    and bloom: "\<forall>e \<in> set (sr_indexes (opened bytes fs w fb)). ie_kind e = KBloom \<longrightarrow> bloom_exact (fd_ty (fs ! hd (ie_columns e)))"
  shows "group_true (opened bytes fs w fb) k (cols ! k)" "indexes_true (opened bytes fs w fb) k (cols ! k)"
proof -
  have c: "group_rows (gs ! k) < 2 ^ 32" "length (cols ! k) = length fs"
    "\<And>i. i < length fs \<Longrightarrow> col_wf (cols ! k ! i) \<and> col_ty (cols ! k ! i) = fd_ty (fs ! i) \<and> col_len (cols ! k ! i) = group_rows (gs ! k)"
    using f(2) k by (auto simp: columns_ok_def MAX_DECODE_ROWS_def)
  have sf: "sr_fields (opened bytes fs w fb) = fs" by (simp add: opened_def)
  show "group_true (opened bytes fs w fb) k (cols ! k)" unfolding group_true_def sf
  proof (intro conjI allI impI)
    fix i
    assume "i < length (cols ! k)"
    then have i: "i < length fs" using c(2) by simp
    show rd: "read_column (opened bytes fs w fb) k i = eret (cols ! k ! i)" by (rule opened_reads [OF f size k i])
    show "col_payload (cols ! k ! i) < 2 ^ 32" using small i rd by blast
    show "Prune.covers (chunk_range (sr_row_groups (opened bytes fs w fb) ! k) (rm_chunks (sr_row_groups (opened bytes fs w fb) ! k) ! i)) (cols ! k ! i)"
      by (rule opened_chunk [OF f k i])
  qed (use c k opened_groups [OF f] in auto)
  show "indexes_true (opened bytes fs w fb) k (cols ! k)" unfolding indexes_true_def
  proof (intro ballI impI)
    fix e
    assume e: "e \<in> set (sr_indexes (opened bytes fs w fb))" and m: "matches_shape k e"
    from opened_index [OF f e] obtain j i idx where
      x: "ie_row_group e = Some j" "ie_columns e = [i]" "i < length fs" "load_index (opened bytes fs w fb) e = eret idx" "skip_kind idx = ie_kind e"
        "\<forall>v \<in> col_values (cols ! j ! i). \<not> denies idx v" by blast
    have "j = k" using m x(1) by (simp add: matches_shape_def)
    then show "\<exists>idx. load_index (opened bytes fs w fb) e = eret idx \<and> hd (ie_columns e) < length (cols ! k) \<and>
      (\<forall>v \<in> col_values (cols ! k ! hd (ie_columns e)). \<not> denies idx v) \<and> (skip_kind idx = KBloom \<longrightarrow> bloom_exact (col_ty (cols ! k ! hd (ie_columns e))))"
      using x c bloom e by (intro exI [of _ idx]) auto
  qed
qed

lemma read_group_pred: "read_group (scan\<lparr>sc_predicate := p\<rparr>) = read_group scan"
  by (intro ext) (simp add: read_group_def output_columns_def cong: if_cong)

lemma read_segment_unpruned:
  assumes "read_segment (scan\<lparr>sc_predicate := None\<rparr>) seg (Some bytes) = Some (Inr all)"
  shows "\<exists>r index needed. reader_open bytes = Inr r \<and> (\<forall>i \<in> set needed. i < length (tb_schema (sc_table scan))) \<and>
    scan_groups (read_group scan (tombstones_for (sc_table scan) seg) r index needed) [0..<length (sr_row_groups r)] = Some (Inr all) \<and>
    read_segment scan seg (Some bytes) =
      scan_groups (scan_group scan (tombstones_for (sc_table scan) seg) r index needed) [0..<length (sr_row_groups r)]"
proof -
  have sg: "scan_group (scan\<lparr>sc_predicate := None\<rparr>) = read_group scan"
    by (intro ext) (simp add: scan_group_def prune_group_def read_group_pred)
  from assms obtain r index needed where s: "open_segment (Some bytes) seg (tb_schema (sc_table scan)) = Some (Inr (r, index))"
    "tombstone_columns (tb_schema (sc_table scan)) (concat (map ts_predicates (tombstones_for (sc_table scan) seg))) (sc_columns scan) = Some (Inr needed)"
    "\<forall>i \<in> set needed. i < length (tb_schema (sc_table scan))"
    "scan_groups (read_group scan (tombstones_for (sc_table scan) seg) r index (sort needed)) [0..<length (sr_row_groups r)] = Some (Inr all)"
    unfolding read_segment_def sg by (auto simp: Let_def not_le split: if_splits)
  have "reader_open bytes = Inr r"
    using s(1) by (auto simp: open_segment_def efail_def eret_def split: sum.splits if_splits)
  then show ?thesis using s by (intro exI [of _ r] exI [of _ index] exI [of _ "sort needed"]) (auto simp: read_segment_def Let_def)
qed

section \<open>A small scan\<close>

definition sample_scan :: "expr option \<Rightarrow> table_scan" where
  "sample_scan p = \<lparr>sc_fields = [sample_field], sc_columns = [0],
     sc_table = \<lparr>tb_id = 1, tb_name = \<lparr>tn_db = [100], tn_name = [116]\<rparr>, tb_engine = rstr_of ''append'', tb_schema = [\<lparr>sf_id = 1, sf_field = sample_field\<rparr>],
       tb_next_field_id = 2, tb_key = [], tb_version = None, tb_order_by = [], tb_partition_by = None, tb_ttl = None, tb_options = [],
       tb_segments = [sample_entry [1]], tb_tombstones = []\<rparr>,
     sc_segments = [sample_entry [1]], sc_buffered = [], sc_predicate = p\<rparr>"

lemma sample_unpruned:
  assumes "reader_open bytes = Inr r" "sr_fields r = [sample_field]" "length (sr_row_groups r) = 1" "rm_rows (sr_row_groups r ! 0) = 2"
    "read_column r 0 0 = eret sample_col"
  shows "read_segment (sample_scan None) (sample_entry [1]) (Some bytes) = Some (Inr [sample_batch])"
proof -
  have c: "col_ty sample_col = TInt64" "col_len sample_col = 2" by (simp_all add: sample_col_def col_len_def)
  have new: "batch_new [sample_field] [sample_col] = Inr sample_batch" by code_simp
  have "read_row_group r 0 [0] = eret sample_batch" using assms(2,5) new by (simp add: read_row_group_def nth_opt_def)
  moreover have "realign [\<lparr>sf_id = 1, sf_field = sample_field\<rparr>] [Some 0] sample_batch 2 = eret sample_batch"
    using new by (simp add: realign_def new_batch_def sample_batch_def)
  ultimately have "read_group (sample_scan None) [] r [Some 0] [0] 0 = eret (Some sample_batch)"
    using new assms(4) by (simp add: read_group_def sample_scan_def tombstone_keep_mask_def output_columns_def map_filter_simps eret_def)
      (simp add: sample_batch_def nth_opt_def new_batch_def eret_def)
  moreover have "open_segment (Some bytes) (sample_entry [1]) [\<lparr>sf_id = 1, sf_field = sample_field\<rparr>] = eret (r, [Some 0])"
    using assms(1,2) by (simp add: open_segment_def file_ids_def sample_entry_def nth_opt_def)
  ultimately show ?thesis using assms(3)
    by (simp add: read_segment_def sample_scan_def tombstones_for_def scan_group_def prune_group_def eret_def)
qed

section \<open>Properties of scans\<close>

text \<open>
  C6. A delete removes the rows it names and no other. A row of a batch is dropped exactly when
  some tombstone of the segment has all of its predicates true on it, a comparison with NULL
  being true on no row and a tombstone without predicates on every row; the rows that stay
  keep their order in every column.
\<close>

theorem tombstones_delete_exactly:
  assumes "batch_wf full" "bt_columns full \<noteq> []" "batch_small full" "ts \<noteq> []"
    "tombstone_keep_mask ts full schema (bt_rows full) = Some (Inr m)"
  shows "\<exists>keep b. m = Some keep \<and> filter_batch full keep = Some b \<and> batch_wf b \<and> bt_fields b = bt_fields full \<and>
    (\<forall>c < length (bt_columns full). col_rows (bt_columns b ! c) =
      map (col_get (bt_columns full ! c)) (filter (\<lambda>i. \<not> (\<exists>t \<in> set ts. \<forall>p \<in> set (ts_predicates t). pred_true full schema i p)) [0..<bt_rows full]))"
proof -
  note spec = keep_mask_spec [OF assms(5,1)]
  then obtain keep where keep: "m = Some keep" using assms(4) by (cases m) auto
  let ?live = "\<lambda>i. \<not> (\<exists>t \<in> set ts. \<forall>p \<in> set (ts_predicates t). pred_true full schema i p)"
  have k: "bm_wf keep" "bm_len keep = bt_rows full" "bm_bits keep = map ?live [0..<bt_rows full]"
    using spec keep by (simp_all add: deleted_by_def)
  from filter_batch_ok [OF assms(1-3) k(1,2)] obtain b where
    b: "filter_batch full keep = Some b" "batch_wf b" "bt_fields b = bt_fields full"
      "\<And>i. i < length (bt_columns full) \<Longrightarrow> col_rows (bt_columns b ! i) = kept (bm_bits keep) (col_rows (bt_columns full ! i))" by blast
  have "kept (bm_bits keep) (col_rows (bt_columns full ! c)) = map (col_get (bt_columns full ! c)) (filter ?live [0..<bt_rows full])"
    if "c < length (bt_columns full)" for c
  proof -
    have l: "col_len (bt_columns full ! c) = bt_rows full" using assms(1) that by (simp add: batch_wf_def)
    have "kept (bm_bits keep) (col_rows (bt_columns full ! c)) = map ((!) (col_rows (bt_columns full ! c))) (filter ((!) (bm_bits keep)) [0..<bt_rows full])"
      by (rule kept_indices) (use k(2) l in \<open>simp_all add: col_rows_def\<close>)
    also have "filter ((!) (bm_bits keep)) [0..<bt_rows full] = filter ?live [0..<bt_rows full]"
      by (rule filter_cong [OF refl]) (simp add: k(3) del: upt_Suc)
    finally show ?thesis using l by (auto simp: col_rows_def)
  qed
  then have "\<forall>c < length (bt_columns full). col_rows (bt_columns b ! c) = map (col_get (bt_columns full ! c)) (filter ?live [0..<bt_rows full])"
    using b(4) by simp
  then show ?thesis using keep b(1-3) by (intro exI [of _ keep] exI [of _ b] conjI)
qed

theorem tombstones_delete_exactly_witness:
  "\<exists>keep b. tombstone_keep_mask [\<lparr>ts_seq = 3, ts_predicates = [\<lparr>pr_column = [97], pr_op = Eq, pr_value = VInt64 7\<rparr>]\<rparr>] sample_batch
       [\<lparr>sf_id = 1, sf_field = sample_field\<rparr>] 2 = Some (Inr (Some keep)) \<and>
     filter_batch sample_batch keep = Some b \<and> col_rows (bt_columns b ! 0) = [Some (VInt64 8)]"
proof -
  let ?ts = "[\<lparr>ts_seq = 3, ts_predicates = [\<lparr>pr_column = [97], pr_op = Eq, pr_value = VInt64 7\<rparr>]\<rparr>]" and ?schema = "[\<lparr>sf_id = 1, sf_field = sample_field\<rparr>]"
  have m: "tombstone_keep_mask ?ts sample_batch ?schema (bt_rows sample_batch) = Some (Inr (Some \<lparr>bm_words = [2], bm_len = 2\<rparr>))" by code_simp
  have "col_payload sample_col = 0" by code_simp
  then have small: "batch_small sample_batch" by (simp add: batch_small_def sample_batch_def)
  have b: "bt_rows sample_batch = 2" "bt_columns sample_batch = [sample_col]" by (simp_all add: sample_batch_def)
  have get: "col_get sample_col 0 = Some (VInt64 7)" "col_get sample_col 1 = Some (VInt64 8)" by code_simp+
  have "pred_true sample_batch ?schema 0 \<lparr>pr_column = [97], pr_op = Eq, pr_value = VInt64 7\<rparr>"
    "\<not> pred_true sample_batch ?schema 1 \<lparr>pr_column = [97], pr_op = Eq, pr_value = VInt64 7\<rparr>"
    using get by (simp_all add: pred_true_def named_def sample_field_def b cmp_rows_def is_null_def)
  moreover have "[0..<2] = [0, 1 :: nat]" by code_simp
  ultimately show ?thesis
    using tombstones_delete_exactly [OF sample_limits(1) _ small _ m] m get by (auto simp: b)
qed



end
