(* ===== verification/Manifest_Commit.thy ===== *)
theory Manifest_Commit
  imports Manifest_Model
begin

text \<open>
  Changes to the manifest (\<open>src/storage/manifest/alter.rs\<close> and \<open>commit.rs\<close>): the migration
  planner and every edit of a commit. An edit gives the next manifest, an error, or \<open>None\<close>
  for a panic; a commit applies its edits in order to a copy and publishes none of them when
  one fails. \<open>manifest::CmpOp\<close> has the operators of the executor's, and is the same type here.
\<close>

section \<open>Planning a migration\<close>

datatype alter =
    AddColumn field
  | DropColumn rstr
  | RenameColumn rstr rstr
  | AlterOrderBy "rstr list"
  | AlterPartitionBy "(rstr \<times> nat) option"
  | SetType rstr data_type

definition rollups_using :: "table_entry \<Rightarrow> nat \<Rightarrow> rstr list" where
  "rollups_using t f = []"

type_synonym alter_state = "schema_field list \<times> nat \<times> rstr list"

definition find_column :: "schema_field list \<Rightarrow> rstr \<Rightarrow> schema_field option" where
  "find_column schema name = find (\<lambda>f. fd_name (sf_field f) = name) schema"

definition names_column :: "rstr \<Rightarrow> tombstone \<Rightarrow> bool" where
  "names_column name t \<longleftrightarrow> (\<exists>p \<in> set (ts_predicates t). pr_column p = name)"

definition drop_column :: "table_entry \<Rightarrow> rstr \<Rightarrow> alter_state \<Rightarrow> manifest_error + alter_state" where
  "drop_column src c st =
     (case st of (schema, nxt, order_by) \<Rightarrow>
      (case find_column schema c of
         None \<Rightarrow> Inl (Usage ''unknown column'')
       | Some f \<Rightarrow>
           let i = sf_id f
           in if rollups_using src i \<noteq> [] then Inl (ColumnUsedByRollup (tb_name src) c (hd (rollups_using src i)))
              else if i \<in> set (tb_key src) then Inl (FixedColumn (tb_name src) c ''KEY'')
              else if tb_version src = Some i then Inl (FixedColumn (tb_name src) c ''VERSION'')
              else if c \<in> set order_by then Inl (Usage ''column is in ORDER BY; change ORDER BY first'')
              else if map_option pb_column (tb_partition_by src) = Some i
                then Inl (Usage ''column is in PARTITION BY; change PARTITION BY first'')
              else if map_option ttl_column (tb_ttl src) = Some i then Inl (Usage ''column is in TTL; change TTL first'')
              else let orig_name = (case tb_field src i of None \<Rightarrow> c | Some f \<Rightarrow> fd_name (sf_field f))
                   in (case find (names_column orig_name) (tb_tombstones src) of
                         Some t \<Rightarrow> Inl (ColumnInTombstone (tb_name src) c (ts_seq t))
                       | None \<Rightarrow> Inr (remove1 f schema, nxt, order_by))))"

text \<open>\<open>schema[idx].field.name = to\<close> at the first column of that name.\<close>

fun rename_first :: "rstr \<Rightarrow> rstr \<Rightarrow> schema_field list \<Rightarrow> schema_field list" where
  "rename_first from to [] = []"
| "rename_first from to (f # fs) =
     (if fd_name (sf_field f) = from then f\<lparr>sf_field := (sf_field f)\<lparr>fd_name := to\<rparr>\<rparr> # fs
      else f # rename_first from to fs)"

fun alter_step :: "table_entry \<Rightarrow> alter \<Rightarrow> alter_state \<Rightarrow> manifest_error + alter_state" where
  "alter_step src (AddColumn f) (schema, nxt, order_by) =
     (if find_column schema (fd_name f) \<noteq> None then Inl (Usage ''column already exists'')
      else Inr (schema @ [\<lparr>sf_id = nxt, sf_field = f\<rparr>], nxt + 1, order_by))"
| "alter_step src (DropColumn c) st = drop_column src c st"
| "alter_step src (RenameColumn from to) (schema, nxt, order_by) =
     (if find_column schema from = None then Inl (Usage ''unknown column'')
      else if find_column schema to \<noteq> None then Inl (Usage ''column already exists'')
      else Inr (rename_first from to schema, nxt, map (\<lambda>n. if n = from then to else n) order_by))"
| "alter_step src (AlterOrderBy cols) (schema, nxt, order_by) =
     (if (\<exists>c \<in> set cols. find_column schema c = None) then Inl (Usage ''ORDER BY names unknown column'')
      else Inr (schema, nxt, cols))"
| "alter_step src (AlterPartitionBy p) st = Inl (MigrationNotBuilt (tb_name src) ''PARTITION BY'')"
| "alter_step src (SetType column ty) (schema, nxt, order_by) =
     (case find_column schema column of
        None \<Rightarrow> Inl (Usage ''unknown column'')
      | Some f \<Rightarrow>
          if rollups_using src (sf_id f) \<noteq> []
          then Inl (ColumnUsedByRollup (tb_name src) column (hd (rollups_using src (sf_id f))))
          else Inl (MigrationNotBuilt (tb_name src) ''changing a column's type''))"

fun alter_steps :: "table_entry \<Rightarrow> alter list \<Rightarrow> alter_state \<Rightarrow> manifest_error + alter_state" where
  "alter_steps src [] st = Inr st"
| "alter_steps src (op # ops) st = sbind (alter_step src op st) (alter_steps src ops)"

definition altered_spec :: "table_entry \<Rightarrow> alter_state \<Rightarrow> table_spec" where
  "altered_spec src st =
     (case st of (schema, nxt, order_by) \<Rightarrow>
      let name_of = tb_name_of schema
      in \<lparr>sp_name = tb_name src, sp_columns = map sf_field schema, sp_engine = tb_engine src,
          sp_key = map name_of (tb_key src), sp_version = map_option name_of (tb_version src), sp_order_by = order_by,
          sp_partition_by = map_option (\<lambda>p. (name_of (pb_column p), pb_bucket p)) (tb_partition_by src),
          sp_ttl = map_option (\<lambda>l. (name_of (ttl_column l), ttl_after l)) (tb_ttl src),
          sp_options = tb_options src\<rparr>)"

definition plan_alter :: "table_entry \<Rightarrow> alter list \<Rightarrow> (manifest_error + table_entry) option" where
  "plan_alter src ops =
     (if ops = [] then Some (Inl (Usage ''ALTER TABLE needs at least one clause''))
      else case alter_steps src ops (tb_schema src, tb_next_field_id src, sp_order_by (tb_spec src)) of
             Inl e \<Rightarrow> Some (Inl e)
           | Inr (schema, nxt, order_by) \<Rightarrow>
               (case those (map (\<lambda>name. map_option sf_id (find_column schema name))
                       (resolved_order_by (altered_spec src (schema, nxt, order_by)))) of
                  None \<Rightarrow> None
                | Some resolved \<Rightarrow>
                    let target = src\<lparr>tb_id := 0, tb_schema := schema, tb_next_field_id := nxt, tb_order_by := resolved,
                                     tb_segments := [], tb_tombstones := []\<rparr>
                    in (case validate (tb_spec target) of
                          None \<Rightarrow> None
                        | Some (Inl e) \<Rightarrow> Some (Inl e)
                        | Some (Inr _) \<Rightarrow> Some (Inr target))))"

definition rewrites_segments :: "table_entry \<Rightarrow> table_entry \<Rightarrow> bool" where
  "rewrites_segments src target \<longleftrightarrow> tb_order_by src \<noteq> tb_order_by target \<or> tb_partition_by src \<noteq> tb_partition_by target"

section \<open>Edits\<close>

datatype edit =
    CreateTable table_spec
  | AddSegments table_name "segment_entry list"
  | RemoveSegments table_name "nat list"
  | AddTombstone table_name "predicate list"
  | ForgetGarbage "nat list"
  | ReserveSegmentIds nat
  | CreateJob table_name "alter list"
  | AdvanceJob nat "nat list" "nat list" "segment_entry list"
  | SwapJob nat
  | CancelJob nat
  | RevertTable table_name
  | DropTable table_name
  | UndropTable table_name
  | TruncateTable table_name
  | ExpireRetired nat
  | RecordMigration rstr u64

type_synonym 'a mf = "(manifest_error + 'a) option"

definition mret :: "'a \<Rightarrow> 'a mf" where
  "mret x = Some (Inr x)"

definition mfail :: "manifest_error \<Rightarrow> 'a mf" where
  "mfail e = Some (Inl e)"

definition mbind :: "'a mf \<Rightarrow> ('a \<Rightarrow> 'b mf) \<Rightarrow> 'b mf" where
  "mbind r f = (case r of None \<Rightarrow> None | Some (Inl e) \<Rightarrow> Some (Inl e) | Some (Inr x) \<Rightarrow> f x)"

text \<open>\<open>ok_or\<close>.\<close>

definition ok_or :: "'a option \<Rightarrow> manifest_error \<Rightarrow> 'a mf" where
  "ok_or r e = (case r of None \<Rightarrow> mfail e | Some x \<Rightarrow> mret x)"

definition table_index :: "manifest \<Rightarrow> table_name \<Rightarrow> nat mf" where
  "table_index m name = ok_or (position (\<lambda>t. tb_name t = name) (mf_tables m)) (Conflict name ''table does not exist'')"

definition table_index_by_id :: "manifest \<Rightarrow> nat \<Rightarrow> nat option" where
  "table_index_by_id m i = position (\<lambda>t. tb_id t = i) (mf_tables m)"

text \<open>\<open>insert\<close> at the \<open>partition_point\<close> of the names below, and \<open>remove\<close> by index.\<close>

definition insert_table :: "table_entry \<Rightarrow> table_entry list \<Rightarrow> table_entry list" where
  "insert_table e ts =
     takeWhile (\<lambda>t. tn_cmp (tb_name t) (tb_name e) = Less) ts @ e #
     dropWhile (\<lambda>t. tn_cmp (tb_name t) (tb_name e) = Less) ts"

definition remove_at :: "nat \<Rightarrow> 'a list \<Rightarrow> 'a list" where
  "remove_at i xs = take i xs @ drop (Suc i) xs"

definition refuse_job :: "manifest \<Rightarrow> table_name \<Rightarrow> unit mf" where
  "refuse_job m name = (case job_for m name of None \<Rightarrow> mret () | Some j \<Rightarrow> mfail (JobRunning name (jb_id j)))"

fun number_fields :: "nat \<Rightarrow> field list \<Rightarrow> schema_field list" where
  "number_fields n [] = []"
| "number_fields n (f # fs) = \<lparr>sf_id = n, sf_field = f\<rparr> # number_fields (n + 1) fs"

definition create_table :: "table_spec \<Rightarrow> manifest \<Rightarrow> manifest mf" where
  "create_table spec m =
     mbind (validate spec) (\<lambda>_.
       if mf_table m (sp_name spec) \<noteq> None then mfail (Conflict (sp_name spec) ''table already exists'')
       else
         let schema = number_fields 1 (sp_columns spec);
             field_id_of = (\<lambda>name. map_option sf_id (find_column schema name))
         in case (those (map field_id_of (sp_key spec)),
                  those (map field_id_of (case sp_version spec of None \<Rightarrow> [] | Some v \<Rightarrow> [v])),
                  those (map field_id_of (resolved_order_by spec)),
                  those (map field_id_of (option_names (sp_partition_by spec))),
                  those (map field_id_of (option_names (sp_ttl spec)))) of
              (Some key, Some version, Some order_by, Some pcol, Some tcol) \<Rightarrow>
                let entry = \<lparr>tb_id = mf_next_table_id m, tb_name = sp_name spec, tb_engine = sp_engine spec, tb_schema = schema,
                      tb_next_field_id = length schema + 1, tb_key = key,
                      tb_version = (case version of [] \<Rightarrow> None | v # _ \<Rightarrow> Some v), tb_order_by = order_by,
                      tb_partition_by = (case (sp_partition_by spec, pcol) of (Some (_, b), c # _) \<Rightarrow> Some \<lparr>pb_column = c, pb_bucket = b\<rparr> | _ \<Rightarrow> None),
                      tb_ttl = (case (sp_ttl spec, tcol) of (Some (_, a), c # _) \<Rightarrow> Some \<lparr>ttl_column = c, ttl_after = a\<rparr> | _ \<Rightarrow> None),
                      tb_options = sp_options spec, tb_segments = [], tb_tombstones = []\<rparr>
                in mret (m\<lparr>mf_next_table_id := mf_next_table_id m + 1, mf_tables := insert_table entry (mf_tables m)\<rparr>)
            | _ \<Rightarrow> None)"

fun split_on :: "byte \<Rightarrow> rstr \<Rightarrow> rstr list" where
  "split_on sep [] = [[]]"
| "split_on sep (c # cs) =
     (if c = sep then [] # split_on sep cs
      else case split_on sep cs of [] \<Rightarrow> [[c]] | p # ps \<Rightarrow> (c # p) # ps)"

fun validate_new_segments :: "nat list \<Rightarrow> segment_entry list \<Rightarrow> manifest_error + unit" where
  "validate_new_segments schema_ids [] = Inr ()"
| "validate_new_segments schema_ids (s # ss) =
     (if length (sg_columns s) \<noteq> length schema_ids then Inl (Usage ''segment column stats do not match table columns'')
      else if sg_field_ids s \<noteq> schema_ids then Inl (Usage ''segment field ids do not match table'')
      else if sg_dir s = [] \<or> \<not> list_all is_path_component (split_on 47 (sg_dir s))
        then Inl (Usage ''segment dir is not a valid table directory'')
      else validate_new_segments schema_ids ss)"

definition segment_before :: "segment_entry \<Rightarrow> segment_entry \<Rightarrow> bool" where
  "segment_before a b \<longleftrightarrow> sg_seq a < sg_seq b \<or> (sg_seq a = sg_seq b \<and> sg_id a \<le> sg_id b)"

definition sort_segments :: "segment_entry list \<Rightarrow> segment_entry list" where
  "sort_segments = sort_by segment_before"

definition raise_segment_id :: "segment_entry list \<Rightarrow> nat \<Rightarrow> nat" where
  "raise_segment_id segs n = (if segs = [] then n else max n (Max (sg_id ` set segs) + 1))"

definition add_segments :: "table_name \<Rightarrow> segment_entry list \<Rightarrow> manifest \<Rightarrow> manifest mf" where
  "add_segments name segs m =
     mbind (table_index m name) (\<lambda>idx.
       let entry = mf_tables m ! idx
       in case validate_new_segments (map sf_id (tb_schema entry)) segs of
            Inl e \<Rightarrow> mfail e
          | Inr _ \<Rightarrow>
              let all = sort_segments (tb_segments entry @ segs)
              in mret (m\<lparr>mf_tables := (mf_tables m)[idx := entry\<lparr>tb_segments := all\<rparr>],
                         mf_next_segment_id := raise_segment_id all (mf_next_segment_id m)\<rparr>))"

fun release :: "table_name \<Rightarrow> segment_entry list \<Rightarrow> nat \<Rightarrow> nat \<Rightarrow> manifest \<Rightarrow> manifest" where
  "release name [] version now_ms m = m"
| "release name (s # ss) version now_ms m =
     (if references_segment m (sg_id s) \<or> (\<exists>g \<in> set (mf_garbage m). sg_id (gb_segment g) = sg_id s)
      then release name ss version now_ms m
      else release name ss version now_ms
             (m\<lparr>mf_garbage := mf_garbage m @
                  [\<lparr>gb_table = name, gb_segment = s\<lparr>sg_columns := [], sg_field_ids := [], sg_file_field_ids := []\<rparr>,
                    gb_removed_at_ms = now_ms, gb_removed_at_version = version\<rparr>]\<rparr>))"

definition remove_segments :: "table_name \<Rightarrow> nat list \<Rightarrow> nat \<Rightarrow> nat \<Rightarrow> manifest \<Rightarrow> manifest mf" where
  "remove_segments name ids version now_ms m =
     mbind (table_index m name) (\<lambda>idx.
     mbind (refuse_job m name) (\<lambda>_.
       let entry = mf_tables m ! idx
       in if (\<exists>i \<in> set ids. \<not> has_segment i (tb_segments entry)) then mfail (Conflict name ''segment no longer live'')
          else mret (release name (filter (\<lambda>s. sg_id s \<in> set ids) (tb_segments entry)) version now_ms
            (m\<lparr>mf_tables := (mf_tables m)[idx := entry\<lparr>tb_segments := filter (\<lambda>s. sg_id s \<notin> set ids) (tb_segments entry)\<rparr>]\<rparr>))))"

definition value_matches_type :: "val \<Rightarrow> data_type \<Rightarrow> bool" where
  "value_matches_type v ty =
     (case v of
        VBool _ \<Rightarrow> ty = TBool | VInt64 _ \<Rightarrow> ty = TInt64 | VUInt64 _ \<Rightarrow> ty = TUInt64 | VFloat64 _ \<Rightarrow> ty = TFloat64
      | VDecimal _ \<Rightarrow> (case ty of TDecimal _ \<Rightarrow> True | _ \<Rightarrow> False)
      | VString _ \<Rightarrow> ty = TString | VBytes _ \<Rightarrow> ty = TBytes | VTimestamp _ \<Rightarrow> ty = TTimestamp | VDate _ \<Rightarrow> ty = TDate
      | VUuid _ \<Rightarrow> ty = TUuid | VIp _ \<Rightarrow> ty = TIp | _ \<Rightarrow> False)"

fun store_predicates :: "schema_field list \<Rightarrow> predicate list \<Rightarrow> manifest_error + predicate list" where
  "store_predicates schema [] = Inr []"
| "store_predicates schema (p # ps) =
     (if is_null (pr_value p) then Inl (Usage ''tombstone predicate has a null value'')
      else case find_column schema (pr_column p) of
             None \<Rightarrow> Inl (Usage ''unknown column'')
           | Some f \<Rightarrow>
               (case coerce (pr_value p) (fd_ty (sf_field f)) of
                  None \<Rightarrow> Inl (Usage ''tombstone predicate value does not fit column type'')
                | Some v \<Rightarrow>
                    if \<not> value_matches_type v (fd_ty (sf_field f))
                    then Inl (Usage ''tombstone predicate value does not fit column type'')
                    else rmap ((#) (p\<lparr>pr_value := v\<rparr>)) (store_predicates schema ps)))"

definition add_tombstone :: "table_name \<Rightarrow> predicate list \<Rightarrow> manifest \<Rightarrow> manifest mf" where
  "add_tombstone name preds m =
     mbind (table_index m name) (\<lambda>idx.
       let entry = mf_tables m ! idx;
           dropped = (\<lambda>job p. case find_column (tb_schema entry) (pr_column p) of
                        None \<Rightarrow> False | Some f \<Rightarrow> tb_field (jb_target job) (sf_id f) = None)
       in case job_for m name of
            Some job \<Rightarrow>
              if (\<exists>p \<in> set preds. dropped job p) then mfail (JobRunning name (jb_id job))
              else (case store_predicates (tb_schema entry) preds of
                      Inl e \<Rightarrow> mfail e
                    | Inr stored \<Rightarrow> mret (m\<lparr>mf_tables := (mf_tables m)[idx :=
                        entry\<lparr>tb_tombstones := tb_tombstones entry @ [\<lparr>ts_seq = mf_version m + 1, ts_predicates = stored\<rparr>]\<rparr>]\<rparr>))
          | None \<Rightarrow>
              (case store_predicates (tb_schema entry) preds of
                 Inl e \<Rightarrow> mfail e
               | Inr stored \<Rightarrow> mret (m\<lparr>mf_tables := (mf_tables m)[idx :=
                   entry\<lparr>tb_tombstones := tb_tombstones entry @ [\<lparr>ts_seq = mf_version m + 1, ts_predicates = stored\<rparr>]\<rparr>]\<rparr>)))"

definition forget_garbage :: "nat list \<Rightarrow> manifest \<Rightarrow> manifest" where
  "forget_garbage ids m = m\<lparr>mf_garbage := filter (\<lambda>g. sg_id (gb_segment g) \<notin> set ids) (mf_garbage m)\<rparr>"

definition reserve_segment_ids :: "nat \<Rightarrow> manifest \<Rightarrow> manifest" where
  "reserve_segment_ids nxt m = m\<lparr>mf_next_segment_id := max (mf_next_segment_id m) nxt\<rparr>"

definition create_job :: "table_name \<Rightarrow> alter list \<Rightarrow> manifest \<Rightarrow> manifest mf" where
  "create_job name ops m =
     mbind (table_index m name) (\<lambda>idx.
     mbind (refuse_job m name) (\<lambda>_.
     mbind (plan_alter (mf_tables m ! idx) ops) (\<lambda>target.
       mret (m\<lparr>mf_next_table_id := mf_next_table_id m + 1, mf_next_job_id := mf_next_job_id m + 1,
               mf_jobs := mf_jobs m @
                 [\<lparr>jb_id = mf_next_job_id m, jb_source = tb_id (mf_tables m ! idx), jb_snapshot = mf_version m,
                   jb_target = target\<lparr>tb_id := mf_next_table_id m\<rparr>, jb_handled = [], jb_reused = 0, jb_rewritten = 0\<rparr>]\<rparr>))))"

definition job_index :: "manifest \<Rightarrow> nat \<Rightarrow> nat mf" where
  "job_index m i = ok_or (position (\<lambda>j. jb_id j = i) (mf_jobs m)) (NoSuchJob i)"

definition source_index :: "manifest \<Rightarrow> job \<Rightarrow> nat mf" where
  "source_index m j = ok_or (table_index_by_id m (jb_source j)) (Conflict (tb_name (jb_target j)) ''source table does not exist'')"

definition advance_job :: "nat \<Rightarrow> nat list \<Rightarrow> nat list \<Rightarrow> segment_entry list \<Rightarrow> manifest \<Rightarrow> manifest mf" where
  "advance_job job_id reused rewritten segs m =
     mbind (job_index m job_id) (\<lambda>ji.
     mbind (source_index m (mf_jobs m ! ji)) (\<lambda>si.
       let job = mf_jobs m ! ji; src = mf_tables m ! si; target = jb_target job
       in if (\<exists>i \<in> set (reused @ rewritten). \<not> has_segment i (tb_segments src) \<or> i \<in> set (jb_handled job))
          then mfail (Conflict (tb_name src) ''segment already handled / not live'')
          else case validate_new_segments (map sf_id (tb_schema target)) segs of
                 Inl e \<Rightarrow> mfail e
               | Inr _ \<Rightarrow>
                   (case those (map (\<lambda>i. Option.bind (find (\<lambda>s. sg_id s = i) (tb_segments src)) (\<lambda>s. project_onto s (tb_schema target))) reused) of
                      None \<Rightarrow> None
                    | Some carried \<Rightarrow>
                        let all = sort_segments (tb_segments target @ carried @ segs);
                            job' = job\<lparr>jb_target := target\<lparr>tb_segments := all\<rparr>,
                              jb_handled := sort (jb_handled job @ reused @ rewritten),
                              jb_reused := jb_reused job + length reused, jb_rewritten := jb_rewritten job + length rewritten\<rparr>
                        in mret (m\<lparr>mf_jobs := (mf_jobs m)[ji := job'],
                                   mf_next_segment_id := raise_segment_id all (mf_next_segment_id m)\<rparr>))))"

text \<open>The predicates of a tombstone, their columns renamed by field id from one schema to another.\<close>

fun rename_predicates :: "manifest_error \<Rightarrow> schema_field list \<Rightarrow> table_entry \<Rightarrow> predicate list \<Rightarrow> manifest_error + predicate list" where
  "rename_predicates err from to [] = Inr []"
| "rename_predicates err from to (p # ps) =
     (case find_column from (pr_column p) of
        None \<Rightarrow> Inl err
      | Some f \<Rightarrow>
          (case tb_field to (sf_id f) of
             None \<Rightarrow> Inl err
           | Some g \<Rightarrow> rmap ((#) (p\<lparr>pr_column := fd_name (sf_field g)\<rparr>)) (rename_predicates err from to ps)))"

fun rename_tombstones :: "manifest_error \<Rightarrow> schema_field list \<Rightarrow> table_entry \<Rightarrow> tombstone list \<Rightarrow> manifest_error + tombstone list" where
  "rename_tombstones err from to [] = Inr []"
| "rename_tombstones err from to (t # ts) =
     sbind (rename_predicates err from to (ts_predicates t)) (\<lambda>ps.
       rmap ((#) (t\<lparr>ts_predicates := ps\<rparr>)) (rename_tombstones err from to ts))"

definition swap_job :: "nat \<Rightarrow> nat \<Rightarrow> nat \<Rightarrow> manifest \<Rightarrow> manifest mf" where
  "swap_job job_id version now_ms m =
     mbind (job_index m job_id) (\<lambda>ji.
     mbind (source_index m (mf_jobs m ! ji)) (\<lambda>si.
       let job = mf_jobs m ! ji; src = mf_tables m ! si; target = jb_target job
       in if (\<exists>s \<in> set (tb_segments src). sg_id s \<notin> set (jb_handled job))
          then mfail (Conflict (tb_name src) ''catch-up incomplete'')
          else case rename_tombstones (Usage ''tombstone names unknown column'') (tb_schema src) target (tb_tombstones src) of
                 Inl e \<Rightarrow> mfail e
               | Inr ts \<Rightarrow>
                   mret (m\<lparr>mf_jobs := remove_at ji (mf_jobs m),
                           mf_retired := mf_retired m @
                             [\<lparr>rt_entry = src, rt_reason = Swapped, rt_retired_at_ms = now_ms, rt_version = version,
                               rt_successor_segments = sort (map sg_id (tb_segments target))\<rparr>],
                           mf_tables := insert_table (target\<lparr>tb_tombstones := ts\<rparr>) (remove_at si (mf_tables m))\<rparr>)))"

definition cancel_job :: "nat \<Rightarrow> nat \<Rightarrow> nat \<Rightarrow> manifest \<Rightarrow> manifest mf" where
  "cancel_job job_id version now_ms m =
     mbind (job_index m job_id) (\<lambda>ji.
       let job = mf_jobs m ! ji
       in mret (release (tb_name (jb_target job)) (tb_segments (jb_target job)) version now_ms
            (m\<lparr>mf_jobs := remove_at ji (mf_jobs m)\<rparr>)))"

text \<open>\<open>rposition\<close>: the last entry retired for a reason under a name.\<close>

definition last_retired :: "retire_reason \<Rightarrow> table_name \<Rightarrow> retired list \<Rightarrow> nat option" where
  "last_retired reason name rs =
     map_option (\<lambda>k. length rs - 1 - k) (position (\<lambda>r. rt_reason r = reason \<and> tb_name (rt_entry r) = name) (rev rs))"

definition revert_table :: "table_name \<Rightarrow> nat \<Rightarrow> nat \<Rightarrow> manifest \<Rightarrow> manifest mf" where
  "revert_table name version now_ms m =
     mbind (ok_or (last_retired Swapped name (mf_retired m)) (NothingToRevert name)) (\<lambda>ri.
     mbind (ok_or (position (\<lambda>t. tb_name t = name) (mf_tables m)) (NothingToRevert name)) (\<lambda>ci.
     mbind (refuse_job m name) (\<lambda>_.
       let ret = mf_retired m ! ri; cur = mf_tables m ! ci
       in if (\<exists>i \<in> set (rt_successor_segments ret). \<not> has_segment i (tb_segments cur))
          then mfail (RevertStale name ''segment was compacted or removed since the swap'')
          else
            let old = rt_entry ret
            in case those (map (\<lambda>s. project_onto s (tb_schema old))
                      (filter (\<lambda>s. sg_id s \<notin> set (rt_successor_segments ret)) (tb_segments cur))) of
                 None \<Rightarrow> None
               | Some newer \<Rightarrow>
                   let restored = old\<lparr>tb_next_field_id := max (tb_next_field_id old) (tb_next_field_id cur),
                                      tb_segments := sort_segments (tb_segments old @ newer)\<rparr>
                   in case rename_tombstones (RevertStale name ''tombstone names unknown column'') (tb_schema cur) restored
                             (filter (\<lambda>t. ts_seq t > rt_version ret) (tb_tombstones cur)) of
                        Inl e \<Rightarrow> mfail e
                      | Inr ts \<Rightarrow>
                          mret (m\<lparr>mf_retired := remove_at ri (mf_retired m) @
                                    [\<lparr>rt_entry = cur, rt_reason = Reverted, rt_retired_at_ms = now_ms, rt_version = version,
                                      rt_successor_segments = []\<rparr>],
                                  mf_tables := insert_table (restored\<lparr>tb_tombstones := tb_tombstones old @ ts\<rparr>)
                                    (remove_at ci (mf_tables m))\<rparr>))))"

definition drop_table :: "table_name \<Rightarrow> nat \<Rightarrow> nat \<Rightarrow> manifest \<Rightarrow> manifest mf" where
  "drop_table name version now_ms m =
     mbind (table_index m name) (\<lambda>idx.
     mbind (refuse_job m name) (\<lambda>_.
       mret (m\<lparr>mf_tables := remove_at idx (mf_tables m),
               mf_retired := mf_retired m @
                 [\<lparr>rt_entry = mf_tables m ! idx, rt_reason = Dropped, rt_retired_at_ms = now_ms, rt_version = version,
                   rt_successor_segments = []\<rparr>]\<rparr>)))"

definition undrop_table :: "table_name \<Rightarrow> manifest \<Rightarrow> manifest mf" where
  "undrop_table name m =
     mbind (ok_or (last_retired Dropped name (mf_retired m)) (NotDropped name)) (\<lambda>ri.
       if mf_table m name \<noteq> None then mfail (Conflict name ''table already exists'')
       else mret (m\<lparr>mf_retired := remove_at ri (mf_retired m),
                    mf_tables := insert_table (rt_entry (mf_retired m ! ri)) (mf_tables m)\<rparr>))"

definition truncate_table :: "table_name \<Rightarrow> nat \<Rightarrow> nat \<Rightarrow> manifest \<Rightarrow> manifest mf" where
  "truncate_table name version now_ms m =
     mbind (table_index m name) (\<lambda>idx.
     mbind (refuse_job m name) (\<lambda>_.
       let entry = mf_tables m ! idx
       in mret (release name (tb_segments entry) version now_ms
            (m\<lparr>mf_tables := (mf_tables m)[idx := entry\<lparr>tb_segments := [], tb_tombstones := []\<rparr>]\<rparr>))))"

fun release_entries :: "retired list \<Rightarrow> nat \<Rightarrow> nat \<Rightarrow> manifest \<Rightarrow> manifest" where
  "release_entries [] version now_ms m = m"
| "release_entries (r # rs) version now_ms m =
     release_entries rs version now_ms (release (tb_name (rt_entry r)) (tb_segments (rt_entry r)) version now_ms m)"

definition expire_retired :: "nat \<Rightarrow> nat \<Rightarrow> nat \<Rightarrow> manifest \<Rightarrow> manifest" where
  "expire_retired before_ms version now_ms m =
     release_entries (filter (\<lambda>r. rt_retired_at_ms r < before_ms) (mf_retired m)) version now_ms
       (m\<lparr>mf_retired := filter (\<lambda>r. \<not> rt_retired_at_ms r < before_ms) (mf_retired m)\<rparr>)"

definition record_migration :: "rstr \<Rightarrow> u64 \<Rightarrow> nat \<Rightarrow> manifest \<Rightarrow> manifest mf" where
  "record_migration name checksum now_ms m =
     (if (\<exists>r \<in> set (mf_migrations m). mr_name r = name) then mfail (MigrationRecorded name)
      else mret (m\<lparr>mf_migrations := mf_migrations m @
             [\<lparr>mr_name = name, mr_checksum = checksum, mr_applied_at_ms = now_ms\<rparr>]\<rparr>))"

fun apply_edit :: "edit \<Rightarrow> nat \<Rightarrow> nat \<Rightarrow> manifest \<Rightarrow> manifest mf" where
  "apply_edit (CreateTable spec) version now_ms m = create_table spec m"
| "apply_edit (AddSegments name segs) version now_ms m = add_segments name segs m"
| "apply_edit (RemoveSegments name ids) version now_ms m = remove_segments name ids version now_ms m"
| "apply_edit (AddTombstone name preds) version now_ms m = add_tombstone name preds m"
| "apply_edit (ForgetGarbage ids) version now_ms m = mret (forget_garbage ids m)"
| "apply_edit (ReserveSegmentIds nxt) version now_ms m = mret (reserve_segment_ids nxt m)"
| "apply_edit (CreateJob name ops) version now_ms m = create_job name ops m"
| "apply_edit (AdvanceJob job reused rewritten segs) version now_ms m = advance_job job reused rewritten segs m"
| "apply_edit (SwapJob job) version now_ms m = swap_job job version now_ms m"
| "apply_edit (CancelJob job) version now_ms m = cancel_job job version now_ms m"
| "apply_edit (RevertTable name) version now_ms m = revert_table name version now_ms m"
| "apply_edit (DropTable name) version now_ms m = drop_table name version now_ms m"
| "apply_edit (UndropTable name) version now_ms m = undrop_table name m"
| "apply_edit (TruncateTable name) version now_ms m = truncate_table name version now_ms m"
| "apply_edit (ExpireRetired before_ms) version now_ms m = mret (expire_retired before_ms version now_ms m)"
| "apply_edit (RecordMigration name checksum) version now_ms m = record_migration name checksum now_ms m"

fun apply_edits :: "edit list \<Rightarrow> nat \<Rightarrow> nat \<Rightarrow> manifest \<Rightarrow> manifest mf" where
  "apply_edits [] version now_ms m = mret m"
| "apply_edits (e # es) version now_ms m = mbind (apply_edit e version now_ms m) (apply_edits es version now_ms)"

definition commit_apply :: "edit list \<Rightarrow> manifest \<Rightarrow> nat \<Rightarrow> manifest mf" where
  "commit_apply edits current now_ms =
     mbind (apply_edits edits (mf_version current + 1) now_ms current) (\<lambda>m. mret (m\<lparr>mf_version := mf_version current + 1\<rparr>))"

end
