(* ===== verification/Manifest_Shape.thy ===== *)
theory Manifest_Shape
  imports Manifest_Commit
begin

text \<open>
  What a successful edit does to the manifest, one elimination rule per edit: the place in
  its lists where it acts, and the manifest it leaves. The invariants are proved from these
  rules alone. Also the order of table names, in which the list of tables is kept.
\<close>

section \<open>The result type and the list operations\<close>

lemma mbind_Inr [simp]: "mbind r f = Some (Inr y) \<longleftrightarrow> (\<exists>x. r = Some (Inr x) \<and> f x = Some (Inr y))"
  by (auto simp: mbind_def split: option.splits sum.splits)

lemma mret_Inr [simp]: "mret x = Some (Inr y) \<longleftrightarrow> x = y"
  by (simp add: mret_def)

lemma mfail_Inr [simp]: "mfail e \<noteq> Some (Inr y)"
  by (simp add: mfail_def)

lemma ok_or_Inr [simp]: "ok_or r e = Some (Inr x) \<longleftrightarrow> r = Some x"
  by (auto simp: ok_or_def split: option.splits)

lemma mbind_mret [simp]: "mbind (mret x) f = f x"
  by (simp add: mbind_def mret_def)

lemma ok_or_Some [simp]: "ok_or (Some x) e = mret x"
  by (simp add: ok_or_def)

lemma position_split:
  assumes "position P xs = Some i"
  obtains as x bs where "xs = as @ x # bs" "i = length as" "P x" "\<forall>y \<in> set as. \<not> P y"
proof -
  have "\<exists>as x bs. xs = as @ x # bs \<and> i = length as \<and> P x \<and> (\<forall>y \<in> set as. \<not> P y)" using assms
  proof (induction xs arbitrary: i)
    case (Cons a xs)
    show ?case
    proof (cases "P a")
      case True
      then show ?thesis using Cons.prems by (intro exI [of _ "[]"]) auto
    next
      case False
      with Cons.prems obtain k where k: "position P xs = Some k" "i = Suc k" by auto
      from Cons.IH [OF k(1)] obtain as x bs
        where "xs = as @ x # bs" "k = length as" "P x" "\<forall>y \<in> set as. \<not> P y" by blast
      then show ?thesis using k(2) False by (intro exI [of _ "a # as"]) auto
    qed
  qed simp
  with that show ?thesis by blast
qed

lemma position_append: "\<forall>y \<in> set as. \<not> P y \<Longrightarrow> P x \<Longrightarrow> position P (as @ x # bs) = Some (length as)"
  by (induction as) auto

lemma position_None: "position P xs = None \<longleftrightarrow> (\<forall>x \<in> set xs. \<not> P x)"
  by (induction xs) auto

lemma remove_at_split [simp]: "remove_at (length as) (as @ x # bs) = as @ bs"
  by (simp add: remove_at_def)

lemma last_retired_split:
  assumes "last_retired reason name rs = Some i"
  obtains as r bs where "rs = as @ r # bs" "i = length as" "rt_reason r = reason" "tb_name (rt_entry r) = name"
    "\<forall>y \<in> set bs. \<not> (rt_reason y = reason \<and> tb_name (rt_entry y) = name)"
proof -
  from assms obtain k where k: "position (\<lambda>r. rt_reason r = reason \<and> tb_name (rt_entry r) = name) (rev rs) = Some k"
    and i: "i = length rs - 1 - k" by (auto simp: last_retired_def)
  from position_split [OF k] obtain as r bs where s: "rev rs = as @ r # bs" "k = length as"
    "rt_reason r = reason \<and> tb_name (rt_entry r) = name"
    "\<forall>y \<in> set as. \<not> (rt_reason y = reason \<and> tb_name (rt_entry y) = name)" by blast
  from s(1) have rs: "rs = rev bs @ r # rev as" by (simp add: rev_eq_append_conv rev_swap)
  show ?thesis by (rule that [OF rs]) (use i s rs in auto)
qed

lemma last_retired_append:
  assumes "rt_reason r = reason" "tb_name (rt_entry r) = name"
    "\<forall>y \<in> set bs. \<not> (rt_reason y = reason \<and> tb_name (rt_entry y) = name)"
  shows "last_retired reason name (as @ r # bs) = Some (length as)"
  using assms by (simp add: last_retired_def position_append)

lemma find_split: "find P xs = Some x \<Longrightarrow> x \<in> set xs \<and> P x"
  by (auto simp: find_Some_iff)

section \<open>The order of the names\<close>

definition tn_key :: "table_name \<Rightarrow> byte list list" where
  "tn_key t = [tn_db t, tn_name t]"

lemma bytes_cmp_refl [simp]: "bytes_cmp xs xs = Equal"
  by (rule iffD2 [OF bytes_cmp_Equal HOL.refl])

lemma tn_cmp_lex: "Some (tn_cmp a b) = lex_ext (\<lambda>x y. Some (bytes_cmp x y)) (tn_key a) (tn_key b)"
  by (simp add: tn_cmp_def tn_key_def then_with_def split: ordering.splits)

interpretation name_order: cmp_on "\<lambda>_ :: table_name. True" "\<lambda>a b. Some (tn_cmp a b)"
proof -
  from lex_ext_cmp_on [OF bytes_order.cmp_on_axioms]
  have lex: "cmp_on (\<lambda>_. True) (lex_ext (\<lambda>x y. Some (bytes_cmp x y)))" by simp
  show "cmp_on (\<lambda>_ :: table_name. True) (\<lambda>a b. Some (tn_cmp a b))"
    unfolding tn_cmp_lex
    by (rule cmp_on.intro)
      (use cmp_on.answers [OF lex] cmp_on.refl [OF lex] cmp_on.flipped [OF lex] cmp_on.trans [OF lex] in blast)+
qed

lemma tn_cmp_Equal [simp]: "tn_cmp a b = Equal \<longleftrightarrow> a = b"
  by (auto simp: tn_cmp_def then_with_def split: ordering.splits)

lemma tn_less_trans: "tn_cmp a b = Less \<Longrightarrow> tn_cmp b c = Less \<Longrightarrow> tn_cmp a c = Less"
  using name_order.less_trans [of a b c] by simp

lemma tn_less_total: "tn_cmp a b \<noteq> Less \<Longrightarrow> a \<noteq> b \<Longrightarrow> tn_cmp b a = Less"
  using name_order.less_or [of a b] name_order.greater_iff [of a b] tn_cmp_Equal [of a b] by auto

lemma tn_less_irrefl [simp]: "tn_cmp a a \<noteq> Less"
  by (simp add: tn_cmp_def then_with_def)

definition names_sorted :: "table_entry list \<Rightarrow> bool" where
  "names_sorted ts \<longleftrightarrow> sorted_wrt (\<lambda>a b. tn_cmp (tb_name a) (tb_name b) = Less) ts"

lemma names_sorted_distinct: "names_sorted ts \<Longrightarrow> distinct (map tb_name ts)"
  unfolding names_sorted_def by (induction ts) force+

lemma names_sorted_unique:
  "names_sorted ts \<Longrightarrow> a \<in> set ts \<Longrightarrow> b \<in> set ts \<Longrightarrow> tb_name a = tb_name b \<Longrightarrow> a = b"
  by (meson names_sorted_distinct inj_onD distinct_map)

lemma names_sorted_drop: "names_sorted (as @ x # bs) \<Longrightarrow> names_sorted (as @ bs)"
  by (auto simp: names_sorted_def sorted_wrt_append)

lemma names_sorted_replace: "names_sorted (as @ x # bs) \<Longrightarrow> tb_name y = tb_name x \<Longrightarrow> names_sorted (as @ y # bs)"
  by (auto simp: names_sorted_def sorted_wrt_append)

lemma set_insert_table [simp]: "set (insert_table e ts) = insert e (set ts)"
proof -
  have "set ts = set (takeWhile (\<lambda>t. tn_cmp (tb_name t) (tb_name e) = Less) ts @ dropWhile (\<lambda>t. tn_cmp (tb_name t) (tb_name e) = Less) ts)"
    by simp
  then show ?thesis unfolding insert_table_def by (simp only: set_append set_simps) blast
qed

lemma mset_insert_table [simp]: "mset (insert_table e ts) = add_mset e (mset ts)"
proof -
  have "mset ts = mset (takeWhile (\<lambda>t. tn_cmp (tb_name t) (tb_name e) = Less) ts @ dropWhile (\<lambda>t. tn_cmp (tb_name t) (tb_name e) = Less) ts)"
    by simp
  then show ?thesis unfolding insert_table_def by (simp only: mset_append mset.simps union_mset_add_mset_right)
qed

text \<open>Where the tables are sorted, the insertion goes between the names below and those above.\<close>

lemma insert_table_at:
  assumes "\<forall>t \<in> set as. tn_cmp (tb_name t) (tb_name e) = Less" "\<forall>t \<in> set bs. tn_cmp (tb_name e) (tb_name t) = Less"
  shows "insert_table e (as @ bs) = as @ e # bs"
proof -
  have "takeWhile (\<lambda>t. tn_cmp (tb_name t) (tb_name e) = Less) bs = []"
    "dropWhile (\<lambda>t. tn_cmp (tb_name t) (tb_name e) = Less) bs = bs"
    using assms(2) by (cases bs; simp; metis tn_less_trans tn_less_irrefl)+
  then show ?thesis using assms(1) by (simp add: insert_table_def takeWhile_append dropWhile_append)
qed

lemma insert_table_back: "names_sorted (as @ x # bs) \<Longrightarrow> tb_name e = tb_name x \<Longrightarrow> insert_table e (as @ bs) = as @ e # bs"
  by (rule insert_table_at) (auto simp: names_sorted_def sorted_wrt_append)

lemma names_sorted_insert:
  assumes "names_sorted ts" "tb_name e \<notin> tb_name ` set ts"
  shows "names_sorted (insert_table e ts)"
  using assms
proof (induction ts)
  case (Cons t ts)
  show ?case
  proof (cases "tn_cmp (tb_name t) (tb_name e) = Less")
    case True
    then have "insert_table e (t # ts) = t # insert_table e ts" by (simp add: insert_table_def)
    with Cons True show ?thesis by (auto simp: names_sorted_def)
  next
    case False
    then have "insert_table e (t # ts) = e # t # ts" by (simp add: insert_table_def)
    moreover have "tn_cmp (tb_name e) (tb_name t) = Less" using False Cons.prems(2) by (auto intro: tn_less_total)
    ultimately show ?thesis using Cons.prems by (auto simp: names_sorted_def intro: tn_less_trans)
  qed
qed (simp add: names_sorted_def insert_table_def)

section \<open>The shape of each edit\<close>

lemma table_index_split:
  assumes "table_index m name = Some (Inr i)"
  obtains as t bs where "mf_tables m = as @ t # bs" "i = length as" "tb_name t = name"
  using assms by (auto simp: table_index_def elim!: position_split)

lemma job_index_split:
  assumes "job_index m i = Some (Inr k)"
  obtains js j ks where "mf_jobs m = js @ j # ks" "k = length js" "jb_id j = i"
  using assms by (auto simp: job_index_def elim!: position_split)

lemma source_index_split:
  assumes "source_index m j = Some (Inr k)"
  obtains as t bs where "mf_tables m = as @ t # bs" "k = length as" "tb_id t = jb_source j"
  using assms by (auto simp: source_index_def table_index_by_id_def elim!: position_split)

lemma refuse_job_none:
  assumes "refuse_job m (tb_name t) = Some (Inr u)" "names_sorted (mf_tables m)" "t \<in> set (mf_tables m)"
  shows "tb_id t \<notin> jb_source ` set (mf_jobs m)"
proof -
  have "find (\<lambda>x. tb_name x = tb_name t) (mf_tables m) = Some t"
    using assms(2,3) by (smt (verit) find_None_iff find_split names_sorted_unique not_None_eq)
  with assms(1) show ?thesis
    by (auto simp: refuse_job_def job_for_def mf_table_def find_None_iff split: option.splits)
qed

lemma create_table_shape:
  assumes "create_table spec m = Some (Inr m')"
  obtains e where "m' = m\<lparr>mf_next_table_id := mf_next_table_id m + 1, mf_tables := insert_table e (mf_tables m)\<rparr>"
    "tb_id e = mf_next_table_id m" "tb_name e = sp_name spec" "tb_segments e = []" "tb_tombstones e = []"
    "tb_schema e = number_fields 1 (sp_columns spec)" "tb_next_field_id e = length (sp_columns spec) + 1"
    "mf_table m (sp_name spec) = None" "validate spec = Some (Inr ())"
proof -
  from assms have v: "validate spec = Some (Inr ())" and n: "mf_table m (sp_name spec) = None"
    by (auto simp: create_table_def split: if_splits)
  have len: "length (number_fields k fs) = length fs" for k fs by (induction fs arbitrary: k) auto
  from assms v n show ?thesis
    by (auto simp: create_table_def Let_def len split: option.splits prod.splits intro!: that)
qed

lemma add_segments_shape:
  assumes "add_segments name segs m = Some (Inr m')"
  obtains as t bs all where "mf_tables m = as @ t # bs" "tb_name t = name"
    "validate_new_segments (map sf_id (tb_schema t)) segs = Inr ()" "all = sort_segments (tb_segments t @ segs)"
    "m' = m\<lparr>mf_tables := as @ t\<lparr>tb_segments := all\<rparr> # bs, mf_next_segment_id := raise_segment_id all (mf_next_segment_id m)\<rparr>"
proof -
  from assms obtain i where i: "table_index m name = Some (Inr i)" by (auto simp: add_segments_def)
  from table_index_split [OF i] obtain as t bs where s: "mf_tables m = as @ t # bs" "i = length as" "tb_name t = name" .
  show ?thesis by (rule that [OF s(1,3) _ HOL.refl]) (use assms i s in \<open>auto simp: add_segments_def Let_def split: if_splits sum.splits option.splits\<close>)
qed

lemma remove_segments_shape:
  assumes "remove_segments name ids version now_ms m = Some (Inr m')"
  obtains as t bs where "mf_tables m = as @ t # bs" "tb_name t = name" "refuse_job m name = Some (Inr ())"
    "set ids \<subseteq> sg_id ` set (tb_segments t)"
    "m' = release name (filter (\<lambda>s. sg_id s \<in> set ids) (tb_segments t)) version now_ms
      (m\<lparr>mf_tables := as @ t\<lparr>tb_segments := filter (\<lambda>s. sg_id s \<notin> set ids) (tb_segments t)\<rparr> # bs\<rparr>)"
proof -
  from assms obtain i where i: "table_index m name = Some (Inr i)" by (auto simp: remove_segments_def)
  from table_index_split [OF i] obtain as t bs where s: "mf_tables m = as @ t # bs" "i = length as" "tb_name t = name" .
  show ?thesis by (rule that [OF s(1,3)]) (use assms i s in \<open>auto simp: remove_segments_def Let_def has_segment_def split: if_splits sum.splits option.splits\<close>)
qed

lemma add_tombstone_shape:
  assumes "add_tombstone name preds m = Some (Inr m')"
  obtains as t bs stored where "mf_tables m = as @ t # bs" "tb_name t = name"
    "store_predicates (tb_schema t) preds = Inr stored"
    "\<And>j. job_for m name = Some j \<Longrightarrow> \<forall>p \<in> set preds. \<forall>f. find_column (tb_schema t) (pr_column p) = Some f \<longrightarrow>
       tb_field (jb_target j) (sf_id f) \<noteq> None"
    "m' = m\<lparr>mf_tables := as @ t\<lparr>tb_tombstones := tb_tombstones t @ [\<lparr>ts_seq = mf_version m + 1, ts_predicates = stored\<rparr>]\<rparr> # bs\<rparr>"
proof -
  from assms obtain i where i: "table_index m name = Some (Inr i)" by (auto simp: add_tombstone_def)
  from table_index_split [OF i] obtain as t bs where s: "mf_tables m = as @ t # bs" "i = length as" "tb_name t = name" .
  from assms i s obtain stored where st: "store_predicates (tb_schema t) preds = Inr stored"
    by (auto simp: add_tombstone_def Let_def split: option.splits sum.splits if_splits)
  show ?thesis
    by (rule that [OF s(1,3) st])
      (use assms i s st in \<open>auto simp: add_tombstone_def Let_def split: option.splits sum.splits if_splits\<close>)
qed

lemma create_job_shape:
  assumes "create_job name ops m = Some (Inr m')"
  obtains t target where "t \<in> set (mf_tables m)" "tb_name t = name" "refuse_job m name = Some (Inr ())"
    "plan_alter t ops = Some (Inr target)"
    "m' = m\<lparr>mf_next_table_id := mf_next_table_id m + 1, mf_next_job_id := mf_next_job_id m + 1,
       mf_jobs := mf_jobs m @ [\<lparr>jb_id = mf_next_job_id m, jb_source = tb_id t, jb_snapshot = mf_version m,
         jb_target = target\<lparr>tb_id := mf_next_table_id m\<rparr>, jb_handled = [], jb_reused = 0, jb_rewritten = 0\<rparr>]\<rparr>"
proof -
  from assms obtain i where i: "table_index m name = Some (Inr i)" by (auto simp: create_job_def)
  from table_index_split [OF i] obtain as t bs where s: "mf_tables m = as @ t # bs" "i = length as" "tb_name t = name" .
  from assms i s obtain target where target: "plan_alter t ops = Some (Inr target)" by (auto simp: create_job_def)
  show ?thesis by (rule that [OF _ s(3) _ target]) (use assms i s target in \<open>auto simp: create_job_def\<close>)
qed

lemma advance_job_shape:
  assumes "advance_job i reused rewritten segs m = Some (Inr m')"
  obtains js j ks t carried all where "mf_jobs m = js @ j # ks" "jb_id j = i" "t \<in> set (mf_tables m)" "tb_id t = jb_source j"
    "\<forall>k \<in> set (reused @ rewritten). k \<in> sg_id ` set (tb_segments t) \<and> k \<notin> set (jb_handled j)"
    "validate_new_segments (map sf_id (tb_schema (jb_target j))) segs = Inr ()"
    "those (map (\<lambda>i. Option.bind (find (\<lambda>s. sg_id s = i) (tb_segments t)) (\<lambda>s. project_onto s (tb_schema (jb_target j)))) reused) =
      Some carried"
    "all = sort_segments (tb_segments (jb_target j) @ carried @ segs)"
    "m' = m\<lparr>mf_jobs := js @ j\<lparr>jb_target := (jb_target j)\<lparr>tb_segments := all\<rparr>,
        jb_handled := sort (jb_handled j @ reused @ rewritten), jb_reused := jb_reused j + length reused,
        jb_rewritten := jb_rewritten j + length rewritten\<rparr> # ks,
      mf_next_segment_id := raise_segment_id all (mf_next_segment_id m)\<rparr>"
proof -
  from assms obtain k where k: "job_index m i = Some (Inr k)" by (auto simp: advance_job_def)
  from job_index_split [OF k] obtain js j ks where j: "mf_jobs m = js @ j # ks" "k = length js" "jb_id j = i" .
  from assms k j obtain n where n: "source_index m j = Some (Inr n)" by (auto simp: advance_job_def)
  from source_index_split [OF n] obtain as t bs where t: "mf_tables m = as @ t # bs" "n = length as" "tb_id t = jb_source j" .
  have "t \<in> set (mf_tables m)" using t by simp
  note found = that [OF j(1,3) this t(3)]
  from assms k j n t obtain carried where
    "those (map (\<lambda>i. Option.bind (find (\<lambda>s. sg_id s = i) (tb_segments t)) (\<lambda>s. project_onto s (tb_schema (jb_target j)))) reused) =
      Some carried"
    by (auto simp: advance_job_def Let_def split: if_splits option.splits sum.splits)
  note carried = this
  show ?thesis
    by (rule found [OF _ _ carried HOL.refl])
      (use assms k j n t carried in \<open>auto simp: advance_job_def Let_def has_segment_def split: if_splits option.splits sum.splits\<close>)
qed

lemma swap_job_shape:
  assumes "swap_job i version now_ms m = Some (Inr m')"
  obtains js j ks as t bs ts where "mf_jobs m = js @ j # ks" "jb_id j = i" "mf_tables m = as @ t # bs" "tb_id t = jb_source j"
    "sg_id ` set (tb_segments t) \<subseteq> set (jb_handled j)"
    "rename_tombstones (Usage ''tombstone names unknown column'') (tb_schema t) (jb_target j) (tb_tombstones t) = Inr ts"
    "m' = m\<lparr>mf_jobs := js @ ks,
      mf_retired := mf_retired m @ [\<lparr>rt_entry = t, rt_reason = Swapped, rt_retired_at_ms = now_ms, rt_version = version,
        rt_successor_segments = sort (map sg_id (tb_segments (jb_target j)))\<rparr>],
      mf_tables := insert_table ((jb_target j)\<lparr>tb_tombstones := ts\<rparr>) (as @ bs)\<rparr>"
proof -
  from assms obtain k where k: "job_index m i = Some (Inr k)" by (auto simp: swap_job_def)
  from job_index_split [OF k] obtain js j ks where j: "mf_jobs m = js @ j # ks" "k = length js" "jb_id j = i" .
  from assms k j obtain n where n: "source_index m j = Some (Inr n)" by (auto simp: swap_job_def)
  from source_index_split [OF n] obtain as t bs where t: "mf_tables m = as @ t # bs" "n = length as" "tb_id t = jb_source j" .
  from assms k j n t obtain ts where ts:
    "rename_tombstones (Usage ''tombstone names unknown column'') (tb_schema t) (jb_target j) (tb_tombstones t) = Inr ts"
    by (auto simp: swap_job_def Let_def split: if_splits sum.splits)
  show ?thesis
    by (rule that [OF j(1,3) t(1,3) _ ts]) (use assms k j n t ts in \<open>auto simp: swap_job_def Let_def split: if_splits sum.splits\<close>)
qed

lemma cancel_job_shape:
  assumes "cancel_job i version now_ms m = Some (Inr m')"
  obtains js j ks where "mf_jobs m = js @ j # ks" "jb_id j = i"
    "m' = release (tb_name (jb_target j)) (tb_segments (jb_target j)) version now_ms (m\<lparr>mf_jobs := js @ ks\<rparr>)"
proof -
  from assms obtain k where k: "job_index m i = Some (Inr k)" by (auto simp: cancel_job_def)
  from job_index_split [OF k] obtain js j ks where j: "mf_jobs m = js @ j # ks" "k = length js" "jb_id j = i" .
  show ?thesis by (rule that [OF j(1,3)]) (use assms k j in \<open>auto simp: cancel_job_def Let_def\<close>)
qed

lemma revert_table_shape:
  assumes "revert_table name version now_ms m = Some (Inr m')"
  obtains rs r qs as t bs newer restored ts where "mf_retired m = rs @ r # qs" "rt_reason r = Swapped" "tb_name (rt_entry r) = name"
    "mf_tables m = as @ t # bs" "tb_name t = name" "refuse_job m name = Some (Inr ())"
    "those (map (\<lambda>s. project_onto s (tb_schema (rt_entry r)))
       (filter (\<lambda>s. sg_id s \<notin> set (rt_successor_segments r)) (tb_segments t))) = Some newer"
    "restored = (rt_entry r)\<lparr>tb_next_field_id := max (tb_next_field_id (rt_entry r)) (tb_next_field_id t),
       tb_segments := sort_segments (tb_segments (rt_entry r) @ newer)\<rparr>"
    "rename_tombstones (RevertStale name ''tombstone names unknown column'') (tb_schema t) restored
       (filter (\<lambda>x. ts_seq x > rt_version r) (tb_tombstones t)) = Inr ts"
    "m' = m\<lparr>mf_retired := rs @ qs @ [\<lparr>rt_entry = t, rt_reason = Reverted, rt_retired_at_ms = now_ms, rt_version = version,
        rt_successor_segments = []\<rparr>],
      mf_tables := insert_table (restored\<lparr>tb_tombstones := tb_tombstones (rt_entry r) @ ts\<rparr>) (as @ bs)\<rparr>"
proof -
  from assms obtain k where k: "last_retired Swapped name (mf_retired m) = Some k" by (auto simp: revert_table_def)
  from last_retired_split [OF k] obtain rs r qs where r: "mf_retired m = rs @ r # qs" "k = length rs"
    "rt_reason r = Swapped" "tb_name (rt_entry r) = name" .
  from assms k obtain i where i: "position (\<lambda>t. tb_name t = name) (mf_tables m) = Some i" by (auto simp: revert_table_def)
  from position_split [OF i] obtain as t bs where s: "mf_tables m = as @ t # bs" "i = length as" "tb_name t = name" by blast
  from assms k r i s obtain newer where newer:
    "those (map (\<lambda>s. project_onto s (tb_schema (rt_entry r)))
       (filter (\<lambda>s. sg_id s \<notin> set (rt_successor_segments r)) (tb_segments t))) = Some newer"
    by (auto simp: revert_table_def Let_def split: if_splits option.splits)
  define restored where "restored = (rt_entry r)\<lparr>tb_next_field_id := max (tb_next_field_id (rt_entry r)) (tb_next_field_id t),
    tb_segments := sort_segments (tb_segments (rt_entry r) @ newer)\<rparr>"
  from assms k r i s newer obtain ts where ts:
    "rename_tombstones (RevertStale name ''tombstone names unknown column'') (tb_schema t) restored
       (filter (\<lambda>x. ts_seq x > rt_version r) (tb_tombstones t)) = Inr ts"
    by (auto simp: revert_table_def Let_def restored_def split: if_splits sum.splits)
  show ?thesis
    by (rule that [OF r(1,3,4) s(1,3) _ newer restored_def ts])
      (use assms k r i s newer ts in \<open>auto simp: revert_table_def Let_def restored_def split: if_splits\<close>)
qed

lemma drop_table_shape:
  assumes "drop_table name version now_ms m = Some (Inr m')"
  obtains as t bs where "mf_tables m = as @ t # bs" "tb_name t = name" "refuse_job m name = Some (Inr ())"
    "m' = m\<lparr>mf_tables := as @ bs, mf_retired := mf_retired m @
      [\<lparr>rt_entry = t, rt_reason = Dropped, rt_retired_at_ms = now_ms, rt_version = version, rt_successor_segments = []\<rparr>]\<rparr>"
proof -
  from assms obtain i where i: "table_index m name = Some (Inr i)" by (auto simp: drop_table_def)
  from table_index_split [OF i] obtain as t bs where s: "mf_tables m = as @ t # bs" "i = length as" "tb_name t = name" .
  show ?thesis by (rule that [OF s(1,3)]) (use assms i s in \<open>auto simp: drop_table_def Let_def split: if_splits sum.splits option.splits\<close>)
qed

lemma undrop_table_shape:
  assumes "undrop_table name m = Some (Inr m')"
  obtains rs r qs where "mf_retired m = rs @ r # qs" "rt_reason r = Dropped" "tb_name (rt_entry r) = name" "mf_table m name = None"
    "m' = m\<lparr>mf_retired := rs @ qs, mf_tables := insert_table (rt_entry r) (mf_tables m)\<rparr>"
proof -
  from assms obtain k where k: "last_retired Dropped name (mf_retired m) = Some k" by (auto simp: undrop_table_def)
  from last_retired_split [OF k] obtain rs r qs where r: "mf_retired m = rs @ r # qs" "k = length rs"
    "rt_reason r = Dropped" "tb_name (rt_entry r) = name" .
  show ?thesis by (rule that [OF r(1,3,4)]) (use assms k r in \<open>auto simp: undrop_table_def split: if_splits\<close>)
qed

lemma truncate_table_shape:
  assumes "truncate_table name version now_ms m = Some (Inr m')"
  obtains as t bs where "mf_tables m = as @ t # bs" "tb_name t = name" "refuse_job m name = Some (Inr ())"
    "m' = release name (tb_segments t) version now_ms
      (m\<lparr>mf_tables := as @ t\<lparr>tb_segments := [], tb_tombstones := []\<rparr> # bs\<rparr>)"
proof -
  from assms obtain i where i: "table_index m name = Some (Inr i)" by (auto simp: truncate_table_def)
  from table_index_split [OF i] obtain as t bs where s: "mf_tables m = as @ t # bs" "i = length as" "tb_name t = name" .
  show ?thesis by (rule that [OF s(1,3)]) (use assms i s in \<open>auto simp: truncate_table_def Let_def split: if_splits sum.splits option.splits\<close>)
qed

end
