(* ===== verification/Manifest_Ledger.thy ===== *)
theory Manifest_Ledger
  imports Manifest_Shape
begin

text \<open>
  The segments a manifest knows. A segment is referenced by a table, a retired entry or the
  target of a job, or it is garbage, waiting for its file to be deleted. Seen this way a
  manifest is a ledger of segment ids, and every edit is one of three abstract steps on it:
  ids are added, some of them become garbage, or garbage is forgotten. The ledger is the
  specification that the sixteen edits refine; its invariant is that nothing referenced is
  garbage, so that the garbage collector deletes no file a reader may open.
\<close>

section \<open>References and garbage\<close>

definition seg_ids :: "table_entry \<Rightarrow> nat set" where
  "seg_ids t = sg_id ` set (tb_segments t)"

definition entries :: "manifest \<Rightarrow> table_entry set" where
  "entries m = set (mf_tables m) \<union> rt_entry ` set (mf_retired m) \<union> jb_target ` set (mf_jobs m)"

definition refs :: "manifest \<Rightarrow> nat set" where
  "refs m = (\<Union>t \<in> entries m. seg_ids t)"

definition gids :: "manifest \<Rightarrow> nat list" where
  "gids m = map (\<lambda>g. sg_id (gb_segment g)) (mf_garbage m)"

definition known :: "manifest \<Rightarrow> nat set" where
  "known m = refs m \<union> set (gids m)"

lemma references_segment_refs [simp]: "references_segment m i \<longleftrightarrow> i \<in> refs m"
  by (auto simp: references_segment_def refs_def entries_def seg_ids_def has_segment_def)

lemma seg_ids_simps [simp]:
  "seg_ids (t\<lparr>tb_segments := ss\<rparr>) = sg_id ` set ss" "seg_ids (t\<lparr>tb_tombstones := x\<rparr>) = seg_ids t"
  "seg_ids (t\<lparr>tb_id := i\<rparr>) = seg_ids t" "seg_ids (t\<lparr>tb_next_field_id := i\<rparr>) = seg_ids t"
  by (simp_all add: seg_ids_def)

lemma set_sort_segments [simp]: "set (sort_segments ss) = set ss"
  by (simp add: sort_segments_def)

lemma known_simps [simp]:
  "refs (m\<lparr>mf_version := v\<rparr>) = refs m" "refs (m\<lparr>mf_garbage := g\<rparr>) = refs m" "refs (m\<lparr>mf_next_segment_id := n\<rparr>) = refs m"
  "refs (m\<lparr>mf_next_table_id := n\<rparr>) = refs m" "refs (m\<lparr>mf_next_job_id := n\<rparr>) = refs m" "refs (m\<lparr>mf_migrations := mr\<rparr>) = refs m"
  "gids (m\<lparr>mf_version := v\<rparr>) = gids m" "gids (m\<lparr>mf_tables := t\<rparr>) = gids m" "gids (m\<lparr>mf_retired := r\<rparr>) = gids m"
  "gids (m\<lparr>mf_jobs := j\<rparr>) = gids m" "gids (m\<lparr>mf_next_segment_id := n\<rparr>) = gids m" "gids (m\<lparr>mf_next_table_id := n\<rparr>) = gids m"
  "gids (m\<lparr>mf_next_job_id := n\<rparr>) = gids m" "gids (m\<lparr>mf_migrations := mr\<rparr>) = gids m"
  by (simp_all add: refs_def entries_def gids_def)

text \<open>\<open>release\<close> changes only the garbage, and adds to it just what is no longer referenced.\<close>

lemma release_keeps [simp]:
  "mf_tables (release name ss version now_ms m) = mf_tables m" "mf_retired (release name ss version now_ms m) = mf_retired m"
  "mf_jobs (release name ss version now_ms m) = mf_jobs m" "mf_next_table_id (release name ss version now_ms m) = mf_next_table_id m"
  "mf_next_segment_id (release name ss version now_ms m) = mf_next_segment_id m"
  "mf_next_job_id (release name ss version now_ms m) = mf_next_job_id m" "mf_version (release name ss version now_ms m) = mf_version m"
  by (induction name ss version now_ms m rule: release.induct) auto

lemma release_refs [simp]: "refs (release name ss version now_ms m) = refs m"
  by (simp add: refs_def entries_def)

lemma in_gids: "(\<exists>g \<in> set (mf_garbage m). sg_id (gb_segment g) = i) \<longleftrightarrow> i \<in> set (gids m)"
  by (auto simp: gids_def)

lemma gids_snoc: "gids (m\<lparr>mf_garbage := mf_garbage m @ [g]\<rparr>) = gids m @ [sg_id (gb_segment g)]"
  by (simp add: gids_def)

lemma release_gids: "set (gids (release name ss version now_ms m)) = set (gids m) \<union> (sg_id ` set ss - refs m)"
  by (induction name ss version now_ms m rule: release.induct) (auto simp: in_gids gids_snoc)

lemma release_distinct: "distinct (gids m) \<Longrightarrow> distinct (gids (release name ss version now_ms m))"
  by (induction name ss version now_ms m rule: release.induct) (auto simp: in_gids gids_snoc)

lemma release_entries_keeps [simp]:
  "mf_tables (release_entries rs version now_ms m) = mf_tables m" "mf_retired (release_entries rs version now_ms m) = mf_retired m"
  "mf_jobs (release_entries rs version now_ms m) = mf_jobs m" "mf_next_table_id (release_entries rs version now_ms m) = mf_next_table_id m"
  "mf_next_segment_id (release_entries rs version now_ms m) = mf_next_segment_id m"
  "mf_next_job_id (release_entries rs version now_ms m) = mf_next_job_id m"
  "mf_version (release_entries rs version now_ms m) = mf_version m"
  "refs (release_entries rs version now_ms m) = refs m"
  by (induction rs version now_ms m rule: release_entries.induct) auto

lemma release_entries_gids:
  "set (gids (release_entries rs version now_ms m)) = set (gids m) \<union> ((\<Union>r \<in> set rs. seg_ids (rt_entry r)) - refs m)"
  by (induction rs version now_ms m rule: release_entries.induct) (auto simp: release_gids seg_ids_def)

lemma release_entries_distinct: "distinct (gids m) \<Longrightarrow> distinct (gids (release_entries rs version now_ms m))"
  by (induction rs version now_ms m rule: release_entries.induct) (auto simp: release_distinct)

section \<open>The ledger\<close>

record ledger =
  lg_refs :: "nat set"
  lg_garbage :: "nat set"

definition ledger_of :: "manifest \<Rightarrow> ledger" where
  "ledger_of m = \<lparr>lg_refs = refs m, lg_garbage = set (gids m)\<rparr>"

text \<open>The segments an edit brings in, and the garbage it forgets.\<close>

fun added :: "edit \<Rightarrow> nat set" where
  "added (AddSegments name segs) = sg_id ` set segs"
| "added (AdvanceJob job reused rewritten segs) = sg_id ` set segs"
| "added _ = {}"

fun forgotten :: "edit \<Rightarrow> nat set" where
  "forgotten (ForgetGarbage ids) = set ids"
| "forgotten _ = {}"

text \<open>
  One abstract step: everything referenced stays so or becomes garbage, what is new is
  referenced, and garbage goes only when the edit forgets it.
\<close>

definition ledger_step :: "nat set \<Rightarrow> nat set \<Rightarrow> ledger \<Rightarrow> ledger \<Rightarrow> bool" where
  "ledger_step new gone l l' \<longleftrightarrow>
     (\<exists>dropped. dropped \<subseteq> lg_refs l - new \<and> lg_refs l' = (lg_refs l - dropped) \<union> new \<and>
        lg_garbage l' = (lg_garbage l - gone) \<union> dropped)"

lemma ledger_stepI:
  assumes "refs m' = refs m \<union> new" "set (gids m') = set (gids m) - gone"
  shows "ledger_step new gone (ledger_of m) (ledger_of m')"
  unfolding ledger_step_def ledger_of_def by (rule exI [of _ "{}"]) (simp add: assms)

lemma ledger_step_release:
  assumes "refs m = refs m' \<union> removed" "set (gids m') = set (gids m) \<union> (removed - refs m')"
  shows "ledger_step {} {} (ledger_of m) (ledger_of m')"
  unfolding ledger_step_def ledger_of_def by (rule exI [of _ "removed - refs m'"]) (use assms in auto)

lemma refs_alt:
  "refs m = (\<Union>t \<in> set (mf_tables m). seg_ids t) \<union> (\<Union>r \<in> set (mf_retired m). seg_ids (rt_entry r)) \<union>
     (\<Union>j \<in> set (mf_jobs m). seg_ids (jb_target j))"
  by (auto simp: refs_def entries_def)

lemma project_onto_id: "project_onto s schema = Some s' \<Longrightarrow> sg_id s' = sg_id s"
  by (auto simp: project_onto_def Let_def split: option.splits)

lemma those_project_ids:
  "those (map (\<lambda>s. project_onto s schema) ss) = Some ps \<Longrightarrow> map sg_id ps = map sg_id ss"
  by (induction ss arbitrary: ps) (auto split: option.splits dest: project_onto_id)

lemma carried_ids:
  "those (map (\<lambda>i. Option.bind (find (\<lambda>s. sg_id s = i) segs) (\<lambda>s. project_onto s schema)) ids) = Some ps \<Longrightarrow> map sg_id ps = ids"
  by (induction ids arbitrary: ps)
    (auto split: option.splits simp: Option.bind_eq_Some_conv dest!: find_split project_onto_id)

lemma map_ids_set: "map sg_id ps = ids \<Longrightarrow> sg_id ` set ps = set ids"
  by (metis list.set_map)

text \<open>The refinement, edit by edit.\<close>

named_theorems ledger_edits

lemma ledger_create_table [ledger_edits]:
  assumes "create_table spec m = Some (Inr m')"
  shows "ledger_step {} {} (ledger_of m) (ledger_of m')"
  using assms by (rule create_table_shape) (auto intro!: ledger_stepI simp: refs_alt seg_ids_def)

lemma ledger_add_segments [ledger_edits]:
  assumes "add_segments name segs m = Some (Inr m')"
  shows "ledger_step (sg_id ` set segs) {} (ledger_of m) (ledger_of m')"
  using assms by (rule add_segments_shape) (auto intro!: ledger_stepI simp: refs_alt seg_ids_def)

lemma ledger_remove_segments [ledger_edits]:
  assumes "remove_segments name ids version now_ms m = Some (Inr m')"
  shows "ledger_step {} {} (ledger_of m) (ledger_of m')"
  using assms
proof (rule remove_segments_shape)
  fix as t bs
  assume *: "mf_tables m = as @ t # bs"
    "m' = release name (filter (\<lambda>s. sg_id s \<in> set ids) (tb_segments t)) version now_ms
      (m\<lparr>mf_tables := as @ t\<lparr>tb_segments := filter (\<lambda>s. sg_id s \<notin> set ids) (tb_segments t)\<rparr> # bs\<rparr>)"
  show ?thesis
    by (rule ledger_step_release [where removed = "sg_id ` {s \<in> set (tb_segments t). sg_id s \<in> set ids}"])
      (auto simp: * release_gids, auto simp: * refs_alt seg_ids_def)
qed

lemma ledger_add_tombstone [ledger_edits]:
  assumes "add_tombstone name preds m = Some (Inr m')"
  shows "ledger_step {} {} (ledger_of m) (ledger_of m')"
  using assms by (rule add_tombstone_shape) (auto intro!: ledger_stepI simp: refs_alt)

lemma ledger_forget_garbage [ledger_edits]: "ledger_step {} (set ids) (ledger_of m) (ledger_of (forget_garbage ids m))"
  by (rule ledger_stepI) (auto simp: forget_garbage_def gids_def)

lemma ledger_reserve [ledger_edits]: "ledger_step {} {} (ledger_of m) (ledger_of (reserve_segment_ids n m))"
  by (rule ledger_stepI) (auto simp: reserve_segment_ids_def)

lemma plan_alter_empty: "plan_alter src ops = Some (Inr target) \<Longrightarrow> tb_segments target = []"
  by (auto simp: plan_alter_def Let_def split: if_splits sum.splits option.splits)

lemma ledger_create_job [ledger_edits]:
  assumes "create_job name ops m = Some (Inr m')"
  shows "ledger_step {} {} (ledger_of m) (ledger_of m')"
  using assms by (rule create_job_shape) (auto intro!: ledger_stepI dest: plan_alter_empty simp: refs_alt seg_ids_def)

lemma ledger_advance_job [ledger_edits]:
  assumes "advance_job i reused rewritten segs m = Some (Inr m')"
  shows "ledger_step (sg_id ` set segs) {} (ledger_of m) (ledger_of m')"
  using assms
proof (rule advance_job_shape)
  fix js j ks t carried all
  assume *: "mf_jobs m = js @ j # ks" "t \<in> set (mf_tables m)"
    "\<forall>k \<in> set (reused @ rewritten). k \<in> sg_id ` set (tb_segments t) \<and> k \<notin> set (jb_handled j)"
    "those (map (\<lambda>i. Option.bind (find (\<lambda>s. sg_id s = i) (tb_segments t)) (\<lambda>s. project_onto s (tb_schema (jb_target j)))) reused) =
      Some carried"
    "all = sort_segments (tb_segments (jb_target j) @ carried @ segs)"
    "m' = m\<lparr>mf_jobs := js @ j\<lparr>jb_target := (jb_target j)\<lparr>tb_segments := all\<rparr>,
        jb_handled := sort (jb_handled j @ reused @ rewritten), jb_reused := jb_reused j + length reused,
        jb_rewritten := jb_rewritten j + length rewritten\<rparr> # ks,
      mf_next_segment_id := raise_segment_id all (mf_next_segment_id m)\<rparr>"
  have c: "sg_id ` set carried = set reused" by (rule map_ids_set, rule carried_ids, rule *(4))
  have "set reused \<subseteq> seg_ids t" using *(3) by (auto simp: seg_ids_def)
  then have "set reused \<subseteq> (\<Union>t \<in> set (mf_tables m). seg_ids t)" using *(2) by blast
  then show ?thesis
    by (intro ledger_stepI) (auto simp: *(1,5,6) refs_alt c image_Un, auto simp: seg_ids_def)
qed

lemma ledger_swap_job [ledger_edits]:
  assumes "swap_job i version now_ms m = Some (Inr m')"
  shows "ledger_step {} {} (ledger_of m) (ledger_of m')"
  using assms by (rule swap_job_shape) (auto intro!: ledger_stepI simp: refs_alt)

lemma ledger_cancel_job [ledger_edits]:
  assumes "cancel_job i version now_ms m = Some (Inr m')"
  shows "ledger_step {} {} (ledger_of m) (ledger_of m')"
  using assms
proof (rule cancel_job_shape)
  fix js j ks
  assume *: "mf_jobs m = js @ j # ks"
    "m' = release (tb_name (jb_target j)) (tb_segments (jb_target j)) version now_ms (m\<lparr>mf_jobs := js @ ks\<rparr>)"
  show ?thesis
    by (rule ledger_step_release [where removed = "seg_ids (jb_target j)"])
      (auto simp: * release_gids seg_ids_def, auto simp: * refs_alt seg_ids_def)
qed

lemma ledger_revert_table [ledger_edits]:
  assumes "revert_table name version now_ms m = Some (Inr m')"
  shows "ledger_step {} {} (ledger_of m) (ledger_of m')"
  using assms
proof (rule revert_table_shape)
  fix rs r qs as t bs newer restored ts
  assume *: "mf_retired m = rs @ r # qs" "mf_tables m = as @ t # bs"
    "those (map (\<lambda>s. project_onto s (tb_schema (rt_entry r)))
       (filter (\<lambda>s. sg_id s \<notin> set (rt_successor_segments r)) (tb_segments t))) = Some newer"
    "restored = (rt_entry r)\<lparr>tb_next_field_id := max (tb_next_field_id (rt_entry r)) (tb_next_field_id t),
       tb_segments := sort_segments (tb_segments (rt_entry r) @ newer)\<rparr>"
    "m' = m\<lparr>mf_retired := rs @ qs @ [\<lparr>rt_entry = t, rt_reason = Reverted, rt_retired_at_ms = now_ms, rt_version = version,
        rt_successor_segments = []\<rparr>],
      mf_tables := insert_table (restored\<lparr>tb_tombstones := tb_tombstones (rt_entry r) @ ts\<rparr>) (as @ bs)\<rparr>"
  have "sg_id ` set newer \<subseteq> seg_ids t"
    using map_ids_set [OF those_project_ids [OF *(3)]] by (auto simp: seg_ids_def)
  then show ?thesis
    by (intro ledger_stepI) (auto simp: * refs_alt image_Un seg_ids_def)
qed

lemma ledger_drop_table [ledger_edits]:
  assumes "drop_table name version now_ms m = Some (Inr m')"
  shows "ledger_step {} {} (ledger_of m) (ledger_of m')"
  using assms by (rule drop_table_shape) (auto intro!: ledger_stepI simp: refs_alt)

lemma ledger_undrop_table [ledger_edits]:
  assumes "undrop_table name m = Some (Inr m')"
  shows "ledger_step {} {} (ledger_of m) (ledger_of m')"
  using assms by (rule undrop_table_shape) (auto intro!: ledger_stepI simp: refs_alt)

lemma ledger_truncate_table [ledger_edits]:
  assumes "truncate_table name version now_ms m = Some (Inr m')"
  shows "ledger_step {} {} (ledger_of m) (ledger_of m')"
  using assms
proof (rule truncate_table_shape)
  fix as t bs
  assume *: "mf_tables m = as @ t # bs"
    "m' = release name (tb_segments t) version now_ms (m\<lparr>mf_tables := as @ t\<lparr>tb_segments := [], tb_tombstones := []\<rparr> # bs\<rparr>)"
  show ?thesis
    by (rule ledger_step_release [where removed = "seg_ids t"])
      (auto simp: * release_gids seg_ids_def, auto simp: * refs_alt seg_ids_def)
qed

lemma ledger_expire_retired [ledger_edits]:
  "ledger_step {} {} (ledger_of m) (ledger_of (expire_retired before_ms version now_ms m))"
  by (rule ledger_step_release [where removed = "\<Union>r \<in> {r \<in> set (mf_retired m). rt_retired_at_ms r < before_ms}. seg_ids (rt_entry r)"])
    (auto simp: expire_retired_def release_entries_gids, auto simp: refs_alt)

lemma ledger_record_migration [ledger_edits]:
  assumes "record_migration name checksum now_ms m = Some (Inr m')"
  shows "ledger_step {} {} (ledger_of m) (ledger_of m')"
  using assms by (auto intro!: ledger_stepI simp: record_migration_def split: if_splits)

lemma apply_edit_ledger:
  assumes "apply_edit e version now_ms m = Some (Inr m')"
  shows "ledger_step (added e) (forgotten e) (ledger_of m) (ledger_of m')"
  using assms by (cases e) (auto intro: ledger_edits)

section \<open>Commits and histories\<close>

text \<open>
  New segments carry ids of the store's allocator (\<open>ids.rs\<close>), which are never handed out
  twice; what the manifest relies on is that none of them is waiting in the garbage.
\<close>

definition fresh_edit :: "edit \<Rightarrow> manifest \<Rightarrow> bool" where
  "fresh_edit e m \<longleftrightarrow> added e \<inter> set (gids m) = {}"

fun fresh_edits :: "edit list \<Rightarrow> nat \<Rightarrow> nat \<Rightarrow> manifest \<Rightarrow> bool" where
  "fresh_edits [] version now_ms m = True"
| "fresh_edits (e # es) version now_ms m \<longleftrightarrow>
     fresh_edit e m \<and>
     (case apply_edit e version now_ms m of
        Some (Inr m') \<Rightarrow> fresh_edits es version now_ms m'
      | _ \<Rightarrow> True)"

inductive reachable :: "manifest \<Rightarrow> bool" where
  reachable_empty: "reachable manifest_empty"
| reachable_commit: "reachable m \<Longrightarrow> fresh_edits es (mf_version m + 1) now_ms m \<Longrightarrow>
    commit_apply es m now_ms = Some (Inr m') \<Longrightarrow> reachable m'"

lemmas edit_shapes = create_table_shape add_segments_shape remove_segments_shape add_tombstone_shape create_job_shape
  advance_job_shape swap_job_shape cancel_job_shape revert_table_shape drop_table_shape undrop_table_shape truncate_table_shape

lemma apply_edit_version: "apply_edit e version now_ms m = Some (Inr m') \<Longrightarrow> mf_version m' = mf_version m"
  by (cases e)
    (auto elim!: edit_shapes simp: forget_garbage_def reserve_segment_ids_def expire_retired_def record_migration_def split: if_splits)

lemma apply_edits_version: "apply_edits es version now_ms m = Some (Inr m') \<Longrightarrow> mf_version m' = mf_version m"
  by (induction es arbitrary: m) (auto dest!: apply_edit_version)

text \<open>What every edit keeps, every history of commits keeps.\<close>

locale commit_invariant =
  fixes I :: "manifest \<Rightarrow> bool"
  assumes at_empty: "I manifest_empty"
    and next_version: "I m \<Longrightarrow> I (m\<lparr>mf_version := mf_version m + 1\<rparr>)"
    and kept: "I m \<Longrightarrow> fresh_edit e m \<Longrightarrow> apply_edit e version now_ms m = Some (Inr m') \<Longrightarrow> I m'"
begin

lemma kept_by_edits:
  "I m \<Longrightarrow> fresh_edits es version now_ms m \<Longrightarrow> apply_edits es version now_ms m = Some (Inr m') \<Longrightarrow> I m'"
proof (induction es arbitrary: m)
  case (Cons e es)
  from Cons.prems(3) obtain m1 where m1: "apply_edit e version now_ms m = Some (Inr m1)"
    "apply_edits es version now_ms m1 = Some (Inr m')" by auto
  with Cons.prems(2) have "fresh_edit e m" "fresh_edits es version now_ms m1" by auto
  with Cons.IH kept Cons.prems(1) m1 show ?case by blast
qed simp

lemma holds: "reachable m \<Longrightarrow> I m"
proof (induction rule: reachable.induct)
  case (reachable_commit m es now_ms m')
  from reachable_commit.hyps(3) obtain k where k: "apply_edits es (mf_version m + 1) now_ms m = Some (Inr k)"
    "m' = k\<lparr>mf_version := mf_version m + 1\<rparr>" by (auto simp: commit_apply_def)
  with next_version [OF kept_by_edits [OF reachable_commit.IH reachable_commit.hyps(2) k(1)]] apply_edits_version [OF k(1)]
  show ?case by simp
qed (rule at_empty)

end

definition ledger_ok :: "manifest \<Rightarrow> bool" where
  "ledger_ok m \<longleftrightarrow> distinct (gids m) \<and> refs m \<inter> set (gids m) = {} \<and> (\<forall>i \<in> known m. i < mf_next_segment_id m)"

lemma raise_bound: "i \<in> sg_id ` set segs \<Longrightarrow> i < raise_segment_id segs n"
proof -
  assume i: "i \<in> sg_id ` set segs"
  then have "i \<le> Max (sg_id ` set segs)" by simp
  then have "i < max n (Max (sg_id ` set segs) + 1)" by linarith
  with i show ?thesis by (auto simp: raise_segment_id_def)
qed

lemma raise_mono: "n \<le> raise_segment_id segs n"
  by (simp add: raise_segment_id_def)

lemma apply_edit_next_segment:
  assumes "apply_edit e version now_ms m = Some (Inr m')"
  shows "mf_next_segment_id m \<le> mf_next_segment_id m' \<and> (\<forall>i \<in> added e. i < mf_next_segment_id m')"
  using assms
  by (cases e)
    (auto elim!: edit_shapes simp: raise_mono forget_garbage_def reserve_segment_ids_def expire_retired_def record_migration_def
      split: if_splits intro!: raise_bound)

lemma forget_distinct: "distinct (gids m) \<Longrightarrow> distinct (gids (forget_garbage ids m))"
  by (auto simp: forget_garbage_def gids_def distinct_map intro: inj_on_subset)

lemma apply_edit_garbage_distinct:
  assumes "apply_edit e version now_ms m = Some (Inr m')" "distinct (gids m)"
  shows "distinct (gids m')"
  using assms
  by (cases e)
    (auto elim!: edit_shapes intro!: release_distinct release_entries_distinct forget_distinct
      simp: reserve_segment_ids_def expire_retired_def record_migration_def split: if_splits)

interpretation garbage_safe: commit_invariant ledger_ok
proof
  show "ledger_ok manifest_empty" by (simp add: ledger_ok_def manifest_empty_def known_def refs_alt gids_def)
  show "ledger_ok (m\<lparr>mf_version := mf_version m + 1\<rparr>)" if "ledger_ok m" for m using that by (simp add: ledger_ok_def known_def)
  fix m e version now_ms m'
  assume ok: "ledger_ok m" and fresh: "fresh_edit e m" and m': "apply_edit e version now_ms m = Some (Inr m')"
  have "ledger_step (added e) (forgotten e) (ledger_of m) (ledger_of m')" by (rule apply_edit_ledger [OF m'])
  then obtain dropped where d: "dropped \<subseteq> refs m - added e" "refs m' = (refs m - dropped) \<union> added e"
    "set (gids m') = (set (gids m) - forgotten e) \<union> dropped"
    by (auto simp: ledger_step_def ledger_of_def)
  have "refs m' \<inter> set (gids m') = {}" using d ok fresh by (auto simp: ledger_ok_def fresh_edit_def)
  moreover have "known m' \<subseteq> known m \<union> added e" using d by (auto simp: known_def)
  then have "\<forall>i \<in> known m'. i < mf_next_segment_id m'"
    using apply_edit_next_segment [OF m'] ok unfolding ledger_ok_def by (meson UnE less_le_trans subsetD)
  ultimately show "ledger_ok m'"
    using apply_edit_garbage_distinct [OF m'] ok by (simp add: ledger_ok_def)
qed

section \<open>An example history\<close>

definition ex_name :: table_name where
  "ex_name = \<lparr>tn_db = [100], tn_name = [116]\<rparr>"

definition ex_spec :: table_spec where
  "ex_spec = \<lparr>sp_name = ex_name, sp_columns = [\<lparr>fd_name = [97], fd_ty = TInt64\<rparr>], sp_engine = rstr_of ''append'', sp_key = [],
     sp_version = None, sp_order_by = [], sp_partition_by = None, sp_ttl = None, sp_options = []\<rparr>"

definition ex_segment :: "nat \<Rightarrow> segment_entry" where
  "ex_segment i = \<lparr>sg_id = i, sg_partition = [95], sg_seq = 1, sg_rows = 3, sg_bytes = 80, sg_footer_crc = 0,
     sg_columns = [\<lparr>st_rows = 3, st_null_count = 3, st_min = None, st_max = None\<rparr>], sg_side_files = [], sg_dir = [100],
     sg_field_ids = [1], sg_file_field_ids = []\<rparr>"

definition ex_edits :: "edit list" where
  "ex_edits = [CreateTable ex_spec, AddSegments ex_name [ex_segment 0, ex_segment 1], RemoveSegments ex_name [0]]"

definition ex_manifest :: manifest where
  "ex_manifest = (case commit_apply ex_edits manifest_empty 7 of Some (Inr m) \<Rightarrow> m | _ \<Rightarrow> manifest_empty)"

lemma ex_commit: "commit_apply ex_edits manifest_empty 7 = Some (Inr ex_manifest)"
  by code_simp

lemma ex_reachable: "reachable ex_manifest"
  by (rule reachable_commit [OF reachable_empty _ ex_commit]) code_simp

lemma ex_garbage: "gids ex_manifest = [0]" "references_segment ex_manifest 1" "mf_next_segment_id ex_manifest = 2"
  by code_simp+

section \<open>What the ledger promises\<close>

text \<open>
  C8. In every history of commits, whatever edits they batch and however they interleave, no
  segment that a live table, a retired entry or a running migration refers to is in the
  garbage, no segment is in the garbage twice, and every id the manifest knows lies below
  the counter from which new ids are taken. Deleting the files of the garbage is therefore
  safe, a reused segment shared by a swapped table and the one kept for \<open>REVERT\<close> included.
\<close>

theorem garbage_never_referenced:
  assumes "reachable m"
  shows "distinct (gids m) \<and>
    (\<forall>i. references_segment m i \<longrightarrow> i \<notin> set (gids m) \<and> i < mf_next_segment_id m)"
  using garbage_safe.holds [OF assms] by (auto simp: ledger_ok_def known_def)

theorem garbage_never_referenced_witness:
  "reachable ex_manifest \<and> gids ex_manifest = [0] \<and> references_segment ex_manifest 1 \<and>
   \<not> references_segment ex_manifest 0"
  using garbage_never_referenced [OF ex_reachable] ex_reachable ex_garbage by auto

text \<open>A run of abstract steps, one for each edit of a commit.\<close>

fun ledger_run :: "edit list \<Rightarrow> ledger \<Rightarrow> ledger \<Rightarrow> bool" where
  "ledger_run [] l l' \<longleftrightarrow> l' = l"
| "ledger_run (e # es) l l' \<longleftrightarrow> (\<exists>k. ledger_step (added e) (forgotten e) l k \<and> ledger_run es k l')"

lemma apply_edits_ledger:
  "apply_edits es version now_ms m = Some (Inr m') \<Longrightarrow> ledger_run es (ledger_of m) (ledger_of m')"
proof (induction es arbitrary: m)
  case (Cons e es)
  then obtain k where k: "apply_edit e version now_ms m = Some (Inr k)" "apply_edits es version now_ms k = Some (Inr m')" by auto
  show ?case using Cons.IH [OF k(2)] apply_edit_ledger [OF k(1)] by (auto intro!: exI [of _ "ledger_of k"])
qed simp

lemma ledger_of_version [simp]: "ledger_of (m\<lparr>mf_version := v\<rparr>) = ledger_of m"
  by (simp add: ledger_of_def)

text \<open>
  C10. A commit that succeeds refines the ledger: its edits are, in order, abstract steps that
  add the ids of the new segments to those referenced, move ids that nothing refers to any
  more to the garbage, and take ids out of the garbage only where the edit forgets them. So
  no edit loses a segment's file: it stays referenced or becomes garbage.
\<close>

theorem commit_refines_ledger:
  assumes "commit_apply es m now_ms = Some (Inr m')"
  shows "ledger_run es (ledger_of m) (ledger_of m') \<and> mf_version m' = mf_version m + 1"
  using assms by (auto simp: commit_apply_def dest: apply_edits_ledger)

theorem commit_refines_ledger_witness:
  "commit_apply ex_edits manifest_empty 7 = Some (Inr ex_manifest) \<and>
   ledger_run ex_edits (ledger_of manifest_empty) (ledger_of ex_manifest) \<and> mf_version ex_manifest = 1"
  using commit_refines_ledger [OF ex_commit] ex_commit by (simp add: manifest_empty_def)

end
