(* ===== verification/Manifest_Jobs.thy ===== *)
theory Manifest_Jobs
  imports Manifest_Ledger
begin

text \<open>
  Migrations. A job carries the segments of a live table over to its target, the table's new
  definition, and the swap puts the target in the table's place and keeps the old entry for
  \<open>REVERT\<close>. Here is the invariant of definitions and jobs, that a migration can always be
  finished, and what undoing it, or a \<open>DROP\<close>, gives back.
\<close>

section \<open>Well-formed entries\<close>

definition tombstones_named :: "table_entry \<Rightarrow> bool" where
  "tombstones_named t \<longleftrightarrow> (\<forall>ts \<in> set (tb_tombstones t). \<forall>p \<in> set (ts_predicates ts). find_column (tb_schema t) (pr_column p) \<noteq> None)"

definition schema_ok :: "schema_field list \<Rightarrow> nat \<Rightarrow> bool" where
  "schema_ok schema nxt \<longleftrightarrow> distinct (map sf_id schema) \<and> (\<forall>f \<in> set schema. sf_id f < nxt) \<and> 0 < nxt"

definition segment_ok :: "segment_entry \<Rightarrow> bool" where
  "segment_ok s \<longleftrightarrow> length (sg_columns s) = length (sg_field_ids s)"

definition entry_wf :: "table_entry \<Rightarrow> bool" where
  "entry_wf t \<longleftrightarrow> schema_ok (tb_schema t) (tb_next_field_id t) \<and> (\<forall>s \<in> set (tb_segments t). segment_ok s) \<and> tombstones_named t"

lemma entry_wf_updates:
  "entry_wf (t\<lparr>tb_id := i\<rparr>) \<longleftrightarrow> entry_wf t"
  "entry_wf t \<Longrightarrow> \<forall>s \<in> set ss. segment_ok s \<Longrightarrow> entry_wf (t\<lparr>tb_segments := ss\<rparr>)"
  "entry_wf t \<Longrightarrow> entry_wf (t\<lparr>tb_segments := [], tb_tombstones := []\<rparr>)"
  by (auto simp: entry_wf_def tombstones_named_def)

lemma find_column_Some: "find_column schema n = Some f \<Longrightarrow> f \<in> set schema \<and> fd_name (sf_field f) = n"
  by (auto simp: find_column_def find_Some_iff)

lemma find_column_present: "f \<in> set schema \<Longrightarrow> find_column schema (fd_name (sf_field f)) \<noteq> None"
  by (auto simp: find_column_def find_None_iff)

lemma tb_field_Some: "tb_field t i = Some f \<Longrightarrow> f \<in> set (tb_schema t) \<and> sf_id f = i"
  by (auto simp: tb_field_def find_Some_iff)

lemma tb_field_present: "tb_field t i \<noteq> None \<longleftrightarrow> i \<in> sf_id ` set (tb_schema t)"
  by (auto simp: tb_field_def find_None_iff)

lemma tb_field_unique: "distinct (map sf_id (tb_schema t)) \<Longrightarrow> f \<in> set (tb_schema t) \<Longrightarrow> tb_field t (sf_id f) = Some f"
proof -
  assume d: "distinct (map sf_id (tb_schema t))" and f: "f \<in> set (tb_schema t)"
  then have "tb_field t (sf_id f) \<noteq> None" unfolding tb_field_present by simp
  then obtain g where g: "tb_field t (sf_id f) = Some g" by auto
  from tb_field_Some [OF g] d f have "g = f" by (auto simp: distinct_map inj_on_def)
  with g show ?thesis by simp
qed

lemma number_fields_bounds: "f \<in> set (number_fields n fs) \<Longrightarrow> n \<le> sf_id f \<and> sf_id f < n + length fs"
  by (induction fs arbitrary: n) fastforce+

lemma number_fields_ok: "schema_ok (number_fields 1 fs) (length fs + 1)"
proof -
  have "distinct (map sf_id (number_fields n fs))" for n
    by (induction fs arbitrary: n) (use number_fields_bounds in fastforce)+
  then show ?thesis using number_fields_bounds [of _ 1 fs] by (auto simp: schema_ok_def)
qed

lemma validate_new_segments_ok:
  "validate_new_segments ids segs = Inr () \<Longrightarrow> \<forall>s \<in> set segs. segment_ok s \<and> sg_field_ids s = ids"
  by (induction segs) (auto simp: segment_ok_def split: if_splits)

lemma project_onto_ok: "project_onto s schema = Some s' \<Longrightarrow> segment_ok s'"
  by (auto simp: project_onto_def segment_ok_def Let_def split: option.splits dest!: arg_cong [of _ _ length] simp: those_Some_iff)

lemma those_project_ok: "those (map (\<lambda>s. project_onto s schema) ss) = Some ps \<Longrightarrow> \<forall>p \<in> set ps. segment_ok p"
  by (induction ss arbitrary: ps) (auto split: option.splits dest: project_onto_ok)

lemma carried_ok:
  "those (map (\<lambda>i. Option.bind (find (\<lambda>s. sg_id s = i) segs) (\<lambda>s. project_onto s schema)) ids) = Some ps \<Longrightarrow>
   \<forall>p \<in> set ps. segment_ok p"
  by (induction ids arbitrary: ps) (auto split: option.splits simp: Option.bind_eq_Some_conv dest: project_onto_ok)

lemma store_predicates_named:
  "store_predicates schema ps = Inr qs \<Longrightarrow> \<forall>p \<in> set qs. find_column schema (pr_column p) \<noteq> None"
  by (induction ps arbitrary: qs) (fastforce simp: rmap_Inr split: if_splits option.splits)+

lemma store_predicates_columns:
  "store_predicates schema ps = Inr qs \<Longrightarrow> pr_column ` set qs = pr_column ` set ps"
  by (induction ps arbitrary: qs) (fastforce simp: rmap_Inr split: if_splits option.splits)+

lemma rename_predicates_named:
  "rename_predicates err from to ps = Inr qs \<Longrightarrow> \<forall>p \<in> set qs. find_column (tb_schema to) (pr_column p) \<noteq> None"
  by (induction ps arbitrary: qs) (fastforce simp: rmap_Inr split: option.splits dest: tb_field_Some find_column_present)+

lemma rename_tombstones_named:
  "rename_tombstones err from to ts = Inr us \<Longrightarrow>
   \<forall>u \<in> set us. \<forall>p \<in> set (ts_predicates u). find_column (tb_schema to) (pr_column p) \<noteq> None"
  by (induction ts arbitrary: us) (fastforce simp: rmap_Inr dest: rename_predicates_named)+

text \<open>The planner keeps field ids distinct and never reuses one.\<close>

lemma schema_ok_remove: "schema_ok schema nxt \<Longrightarrow> schema_ok (remove1 f schema) nxt"
  by (auto simp: schema_ok_def distinct_map dest: notin_set_remove1 intro: inj_on_subset dest: set_remove1_subset [THEN subsetD])

lemma rename_first_ids: "map sf_id (rename_first a b fs) = map sf_id fs"
  by (induction fs) auto

lemma schema_ok_ids: "schema_ok schema nxt \<longleftrightarrow> distinct (map sf_id schema) \<and> (\<forall>i \<in> set (map sf_id schema). i < nxt) \<and> 0 < nxt"
  by (auto simp: schema_ok_def)

lemma schema_ok_rename: "schema_ok (rename_first a b schema) nxt \<longleftrightarrow> schema_ok schema nxt"
  by (simp only: schema_ok_ids rename_first_ids)

lemma schema_ok_add: "schema_ok schema nxt \<Longrightarrow> schema_ok (schema @ [\<lparr>sf_id = nxt, sf_field = f\<rparr>]) (Suc nxt)"
  by (auto simp: schema_ok_def less_Suc_eq)

lemma alter_step_ok:
  assumes "alter_step src op (schema, nxt, ob) = Inr (schema', nxt', ob')" "schema_ok schema nxt"
  shows "schema_ok schema' nxt'"
  using assms
  by (cases op)
    (auto simp: drop_column_def Let_def schema_ok_remove schema_ok_rename schema_ok_add split: if_splits option.splits)

lemma alter_steps_ok:
  "alter_steps src ops (schema, nxt, ob) = Inr (schema', nxt', ob') \<Longrightarrow> schema_ok schema nxt \<Longrightarrow> schema_ok schema' nxt'"
proof (induction ops arbitrary: schema nxt ob)
  case (Cons op ops)
  from Cons.prems(1) obtain s1 n1 o1 where "alter_step src op (schema, nxt, ob) = Inr (s1, n1, o1)"
    "alter_steps src ops (s1, n1, o1) = Inr (schema', nxt', ob')" by auto
  with Cons show ?case using alter_step_ok by blast
qed simp

lemma plan_alter_split:
  assumes "plan_alter src ops = Some (Inr target)"
  obtains schema nxt ob resolved where
    "alter_steps src ops (tb_schema src, tb_next_field_id src, sp_order_by (tb_spec src)) = Inr (schema, nxt, ob)"
    "target = src\<lparr>tb_id := 0, tb_schema := schema, tb_next_field_id := nxt, tb_order_by := resolved,
       tb_segments := [], tb_tombstones := []\<rparr>"
    "validate (tb_spec target) = Some (Inr ())"
  using assms by (auto simp: plan_alter_def Let_def split: if_splits sum.splits option.splits)

lemma plan_alter_wf: "plan_alter src ops = Some (Inr target) \<Longrightarrow> entry_wf src \<Longrightarrow> entry_wf target"
  by (erule plan_alter_split) (auto simp: entry_wf_def tombstones_named_def dest: alter_steps_ok)

section \<open>The invariant\<close>

text \<open>Every predicate of the tombstones of a table has its column in the target of its job.\<close>

definition carries :: "table_entry \<Rightarrow> table_entry \<Rightarrow> bool" where
  "carries t target \<longleftrightarrow> (\<forall>ts \<in> set (tb_tombstones t). \<forall>p \<in> set (ts_predicates ts). \<forall>f.
     find_column (tb_schema t) (pr_column p) = Some f \<longrightarrow> sf_id f \<in> sf_id ` set (tb_schema target))"

definition tids :: "manifest \<Rightarrow> nat list" where
  "tids m = map tb_id (mf_tables m) @ map (\<lambda>r. tb_id (rt_entry r)) (mf_retired m) @ map (\<lambda>j. tb_id (jb_target j)) (mf_jobs m)"

definition job_ok :: "table_entry list \<Rightarrow> job \<Rightarrow> bool" where
  "job_ok ts j \<longleftrightarrow> (\<exists>t \<in> set ts. tb_id t = jb_source j \<and> tb_name t = tb_name (jb_target j) \<and> carries t (jb_target j))"

definition jobs_ok :: "manifest \<Rightarrow> bool" where
  "jobs_ok m \<longleftrightarrow> distinct (map jb_id (mf_jobs m)) \<and> (\<forall>j \<in> set (mf_jobs m). jb_id j < mf_next_job_id m) \<and>
     distinct (map jb_source (mf_jobs m)) \<and> (\<forall>j \<in> set (mf_jobs m). job_ok (mf_tables m) j)"

definition ids_ok :: "manifest \<Rightarrow> bool" where
  "ids_ok m \<longleftrightarrow> distinct (tids m) \<and> (\<forall>i \<in> set (tids m). i < mf_next_table_id m) \<and> 0 < mf_next_table_id m"

definition store_ok :: "manifest \<Rightarrow> bool" where
  "store_ok m \<longleftrightarrow> names_sorted (mf_tables m) \<and> ids_ok m \<and> (\<forall>t \<in> entries m. entry_wf t) \<and> jobs_ok m"

lemma distinct_insert_table [simp]:
  "distinct (map f (insert_table e ts)) \<longleftrightarrow> f e \<notin> f ` set ts \<and> distinct (map f ts)"
proof -
  have "mset (map f (insert_table e ts)) = mset (map f (e # ts))" by simp
  from mset_eq_imp_distinct_iff [OF this] show ?thesis by simp
qed

lemma mf_table_None: "mf_table m name = None \<longleftrightarrow> (\<forall>t \<in> set (mf_tables m). tb_name t \<noteq> name)"
  by (auto simp: mf_table_def find_None_iff)

lemma job_source:
  assumes "store_ok m" "j \<in> set (mf_jobs m)" "t \<in> set (mf_tables m)" "tb_id t = jb_source j"
  shows "tb_name t = tb_name (jb_target j) \<and> carries t (jb_target j)"
proof -
  from assms obtain u where u: "u \<in> set (mf_tables m)" "tb_id u = jb_source j"
    "tb_name u = tb_name (jb_target j)" "carries u (jb_target j)"
    by (auto simp: store_ok_def jobs_ok_def job_ok_def)
  from assms(1) have "distinct (map tb_id (mf_tables m))" by (simp add: store_ok_def ids_ok_def tids_def)
  with u assms have "t = u" by (auto simp: distinct_map inj_on_def)
  with u show ?thesis by simp
qed

lemma names_sorted_updates [simp]:
  "names_sorted (as @ t\<lparr>tb_segments := ss\<rparr> # bs) \<longleftrightarrow> names_sorted (as @ t # bs)"
  "names_sorted (as @ t\<lparr>tb_tombstones := ts\<rparr> # bs) \<longleftrightarrow> names_sorted (as @ t # bs)"
  by (auto simp: names_sorted_def sorted_wrt_append)

lemma names_sorted_new:
  "names_sorted ts \<Longrightarrow> \<forall>t \<in> set ts. tb_name t \<noteq> tb_name e \<Longrightarrow> names_sorted (insert_table e ts)"
  by (rule names_sorted_insert) force+

lemma edit_names_sorted:
  assumes ok: "store_ok m" and e: "apply_edit e version now_ms m = Some (Inr m')"
  shows "names_sorted (mf_tables m')"
proof -
  have sorted: "names_sorted (mf_tables m)" using ok by (simp add: store_ok_def)
  show ?thesis
  proof (cases e)
    case (SwapJob i)
    with e have "swap_job i version now_ms m = Some (Inr m')" by simp
    then show ?thesis
    proof (rule swap_job_shape)
      fix js j ks as t bs ts
      assume *: "mf_jobs m = js @ j # ks" "mf_tables m = as @ t # bs" "tb_id t = jb_source j"
        "m' = m\<lparr>mf_jobs := js @ ks,
          mf_retired := mf_retired m @ [\<lparr>rt_entry = t, rt_reason = Swapped, rt_retired_at_ms = now_ms, rt_version = version,
            rt_successor_segments = sort (map sg_id (tb_segments (jb_target j)))\<rparr>],
          mf_tables := insert_table ((jb_target j)\<lparr>tb_tombstones := ts\<rparr>) (as @ bs)\<rparr>"
      then have "tb_name t = tb_name (jb_target j)" using job_source [OF ok, of j t] by simp
      then have "mf_tables m' = as @ (jb_target j)\<lparr>tb_tombstones := ts\<rparr> # bs"
        using * sorted insert_table_back [of as t bs "(jb_target j)\<lparr>tb_tombstones := ts\<rparr>"] by simp
      then show ?thesis using \<open>tb_name t = _\<close> * sorted names_sorted_replace [of as t bs] by simp
    qed
  next
    case (RevertTable name)
    with e have "revert_table name version now_ms m = Some (Inr m')" by simp
    then show ?thesis
      by (rule revert_table_shape)
        (use sorted names_sorted_replace in \<open>simp add: insert_table_back; fastforce\<close>)
  qed (use e sorted in \<open>auto elim!: edit_shapes intro!: names_sorted_new intro: names_sorted_drop
      simp: mf_table_None forget_garbage_def reserve_segment_ids_def expire_retired_def record_migration_def
      split: if_splits\<close>)
qed

lemma ids_ok_sub:
  assumes "ids_ok m" "mset (tids m') \<subseteq># mset (tids m)" "mf_next_table_id m' = mf_next_table_id m"
  shows "ids_ok m'"
proof -
  have "distinct (tids m')" unfolding distinct_count_atmost_1
  proof
    fix a
    have "count (mset (tids m')) a \<le> count (mset (tids m)) a" using assms(2) by (simp add: subseteq_mset_def)
    also have "\<dots> \<le> 1" using assms(1) unfolding ids_ok_def distinct_count_atmost_1 by simp
    finally show "count (mset (tids m')) a = (if a \<in> set (tids m') then 1 else 0)"
      by (simp add: le_Suc_eq count_eq_zero_iff)
  qed
  moreover have "set (tids m') \<subseteq> set (tids m)" using set_mset_mono [OF assms(2)] by simp
  ultimately show ?thesis using assms by (auto simp: ids_ok_def)
qed

lemma ids_ok_new:
  assumes "ids_ok m" "mset (tids m') = add_mset (mf_next_table_id m) (mset (tids m))" "mf_next_table_id m' = mf_next_table_id m + 1"
  shows "ids_ok m'"
proof -
  have eq: "mset (tids m') = mset (mf_next_table_id m # tids m)" using assms(2) by simp
  have "distinct (tids m')" unfolding mset_eq_imp_distinct_iff [OF eq] using assms(1) by (auto simp: ids_ok_def)
  moreover have "set (tids m') = insert (mf_next_table_id m) (set (tids m))" using mset_eq_setD [OF eq] by simp
  ultimately show ?thesis using assms by (auto simp: ids_ok_def)
qed

lemma mset_filter_sub: "mset (map f (filter P xs)) \<subseteq># mset (map f xs)"
  by (simp add: image_mset_subseteq_mono multiset_filter_subset)

lemma edit_ids_ok:
  assumes ok: "store_ok m" and e: "apply_edit e version now_ms m = Some (Inr m')"
  shows "ids_ok m'"
proof -
  have ids: "ids_ok m" using ok by (simp add: store_ok_def)
  show ?thesis
  proof (cases e)
    case (CreateTable spec)
    with e have "create_table spec m = Some (Inr m')" by simp
    then show ?thesis by (rule create_table_shape) (rule ids_ok_new [OF ids]; simp add: tids_def)
  next
    case (CreateJob name ops)
    with e have "create_job name ops m = Some (Inr m')" by simp
    then show ?thesis by (rule create_job_shape) (rule ids_ok_new [OF ids]; simp add: tids_def)
  next
    case (ExpireRetired before_ms)
    with e have m': "m' = expire_retired before_ms version now_ms m" by simp
    show ?thesis unfolding m'
      by (rule ids_ok_sub [OF ids])
        (simp_all add: expire_retired_def tids_def mset_subset_eq_mono_add image_mset_subseteq_mono multiset_filter_subset)
  qed (use e in \<open>auto elim!: edit_shapes intro!: ids_ok_sub [OF ids]
      simp: tids_def forget_garbage_def reserve_segment_ids_def record_migration_def split: if_splits\<close>)
qed

lemma entry_wf_tombstones:
  assumes "entry_wf t" "rename_tombstones err from t' ts = Inr us" "tb_schema t' = tb_schema t"
    "\<forall>u \<in> set old. u \<in> set (tb_tombstones t)"
  shows "entry_wf (t\<lparr>tb_tombstones := old @ us\<rparr>)"
  using assms(1,3,4) rename_tombstones_named [OF assms(2)] by (auto simp: entry_wf_def tombstones_named_def)

lemma entry_wf_restored:
  assumes "entry_wf old" "\<forall>s \<in> set newer. segment_ok s"
  shows "entry_wf (old\<lparr>tb_next_field_id := max (tb_next_field_id old) n, tb_segments := sort_segments (tb_segments old @ newer)\<rparr>)"
  using assms by (auto simp: entry_wf_def tombstones_named_def schema_ok_def less_max_iff_disj)

lemma entry_wf_carried:
  assumes "entry_wf t" "validate_new_segments ids segs = Inr ()" "\<forall>s \<in> set carried. segment_ok s"
  shows "entry_wf (t\<lparr>tb_segments := sort_segments (tb_segments t @ carried @ segs)\<rparr>)"
  using assms(1,3) validate_new_segments_ok [OF assms(2)] by (auto simp: entry_wf_def tombstones_named_def)

lemma entries_wf_advance:
  assumes wf: "\<forall>t \<in> entries m. entry_wf t" and e: "advance_job i reused rewritten segs m = Some (Inr m')"
  shows "\<forall>t \<in> entries m'. entry_wf t"
  using e
proof (rule advance_job_shape)
  fix js j ks t carried all
  assume *: "mf_jobs m = js @ j # ks" "validate_new_segments (map sf_id (tb_schema (jb_target j))) segs = Inr ()"
    "those (map (\<lambda>i. Option.bind (find (\<lambda>s. sg_id s = i) (tb_segments t)) (\<lambda>s. project_onto s (tb_schema (jb_target j)))) reused) =
      Some carried" "all = sort_segments (tb_segments (jb_target j) @ carried @ segs)"
    "m' = m\<lparr>mf_jobs := js @ j\<lparr>jb_target := (jb_target j)\<lparr>tb_segments := all\<rparr>,
        jb_handled := sort (jb_handled j @ reused @ rewritten), jb_reused := jb_reused j + length reused,
        jb_rewritten := jb_rewritten j + length rewritten\<rparr> # ks,
      mf_next_segment_id := raise_segment_id all (mf_next_segment_id m)\<rparr>"
  from wf *(1) have "entry_wf (jb_target j)" by (simp add: entries_def)
  from entry_wf_carried [OF this *(2) carried_ok [OF *(3)]] have new: "entry_wf ((jb_target j)\<lparr>tb_segments := all\<rparr>)" by (simp add: *(4))
  have "entries m' \<subseteq> insert ((jb_target j)\<lparr>tb_segments := all\<rparr>) (entries m)" by (auto simp: entries_def *(1,5))
  then show ?thesis using wf new by blast
qed

lemma entries_wf_swap:
  assumes wf: "\<forall>t \<in> entries m. entry_wf t" and e: "swap_job i version now_ms m = Some (Inr m')"
  shows "\<forall>t \<in> entries m'. entry_wf t"
  using e
proof (rule swap_job_shape)
  fix js j ks as t bs ts
  assume *: "mf_jobs m = js @ j # ks" "mf_tables m = as @ t # bs"
    "rename_tombstones (Usage ''tombstone names unknown column'') (tb_schema t) (jb_target j) (tb_tombstones t) = Inr ts"
    "m' = m\<lparr>mf_jobs := js @ ks,
      mf_retired := mf_retired m @ [\<lparr>rt_entry = t, rt_reason = Swapped, rt_retired_at_ms = now_ms, rt_version = version,
        rt_successor_segments = sort (map sg_id (tb_segments (jb_target j)))\<rparr>],
      mf_tables := insert_table ((jb_target j)\<lparr>tb_tombstones := ts\<rparr>) (as @ bs)\<rparr>"
  from wf *(1) have "entry_wf (jb_target j)" by (simp add: entries_def)
  from entry_wf_tombstones [OF this *(3), of "[]"] have new: "entry_wf ((jb_target j)\<lparr>tb_tombstones := ts\<rparr>)" by simp
  have "entries m' \<subseteq> insert ((jb_target j)\<lparr>tb_tombstones := ts\<rparr>) (entries m)" by (auto simp: entries_def *(1,2,4))
  then show ?thesis using wf new by blast
qed

lemma entries_wf_revert:
  assumes wf: "\<forall>t \<in> entries m. entry_wf t" and e: "revert_table name version now_ms m = Some (Inr m')"
  shows "\<forall>t \<in> entries m'. entry_wf t"
  using e
proof (rule revert_table_shape)
  fix rs r qs as t bs newer restored ts
  assume *: "mf_retired m = rs @ r # qs" "mf_tables m = as @ t # bs"
    "those (map (\<lambda>s. project_onto s (tb_schema (rt_entry r)))
       (filter (\<lambda>s. sg_id s \<notin> set (rt_successor_segments r)) (tb_segments t))) = Some newer"
    "restored = (rt_entry r)\<lparr>tb_next_field_id := max (tb_next_field_id (rt_entry r)) (tb_next_field_id t),
       tb_segments := sort_segments (tb_segments (rt_entry r) @ newer)\<rparr>"
    "rename_tombstones (RevertStale name ''tombstone names unknown column'') (tb_schema t) restored
       (filter (\<lambda>x. ts_seq x > rt_version r) (tb_tombstones t)) = Inr ts"
    "m' = m\<lparr>mf_retired := rs @ qs @ [\<lparr>rt_entry = t, rt_reason = Reverted, rt_retired_at_ms = now_ms, rt_version = version,
        rt_successor_segments = []\<rparr>],
      mf_tables := insert_table (restored\<lparr>tb_tombstones := tb_tombstones (rt_entry r) @ ts\<rparr>) (as @ bs)\<rparr>"
  from wf *(1) have "entry_wf (rt_entry r)" by (simp add: entries_def)
  from entry_wf_restored [OF this those_project_ok [OF *(3)]] have "entry_wf restored" by (simp add: *(4))
  from entry_wf_tombstones [OF this *(5), of "tb_tombstones (rt_entry r)"]
  have new: "entry_wf (restored\<lparr>tb_tombstones := tb_tombstones (rt_entry r) @ ts\<rparr>)" by (simp add: *(4))
  have "entries m' \<subseteq> insert (restored\<lparr>tb_tombstones := tb_tombstones (rt_entry r) @ ts\<rparr>) (entries m)"
    by (auto simp: entries_def *(1,2,6))
  then show ?thesis using wf new by blast
qed

lemma edit_entries_wf:
  assumes ok: "store_ok m" and e: "apply_edit e version now_ms m = Some (Inr m')" and x: "x \<in> entries m'"
  shows "entry_wf x"
proof -
  have all: "\<forall>t \<in> entries m. entry_wf t" using ok by (simp add: store_ok_def)
  have tables: "\<forall>t \<in> set (mf_tables m). entry_wf t" and retired: "\<forall>r \<in> set (mf_retired m). entry_wf (rt_entry r)"
    and jobs: "\<forall>j \<in> set (mf_jobs m). entry_wf (jb_target j)" using all by (auto simp: entries_def)
  show ?thesis
  proof (cases e)
    case (CreateTable spec)
    with e have "create_table spec m = Some (Inr m')" by simp
    then show ?thesis
      by (rule create_table_shape)
        (use x tables retired jobs number_fields_ok in \<open>auto simp: entries_def entry_wf_def tombstones_named_def\<close>)
  next
    case (AddSegments name segs)
    with e have "add_segments name segs m = Some (Inr m')" by simp
    then show ?thesis
      by (rule add_segments_shape)
        (use x tables retired jobs entry_wf_carried [where carried = "[]"] in \<open>auto simp: entries_def\<close>)
  next
    case (RemoveSegments name ids)
    with e have "remove_segments name ids version now_ms m = Some (Inr m')" by simp
    then show ?thesis
      by (rule remove_segments_shape)
        (use x tables retired jobs in \<open>auto simp: entries_def entry_wf_def tombstones_named_def\<close>)
  next
    case (AddTombstone name preds)
    with e have "add_tombstone name preds m = Some (Inr m')" by simp
    then show ?thesis
      by (rule add_tombstone_shape)
        (use x tables retired jobs in \<open>auto simp: entries_def entry_wf_def tombstones_named_def dest!: store_predicates_named\<close>)
  next
    case (CreateJob name ops)
    with e have "create_job name ops m = Some (Inr m')" by simp
    then show ?thesis
      by (rule create_job_shape)
        (use x tables retired jobs in \<open>auto simp: entries_def entry_wf_updates dest!: plan_alter_wf\<close>)
  next
    case (AdvanceJob i reused rewritten segs)
    with e have "advance_job i reused rewritten segs m = Some (Inr m')" by simp
    from entries_wf_advance [OF all this] x show ?thesis by blast
  next
    case (SwapJob i)
    with e have "swap_job i version now_ms m = Some (Inr m')" by simp
    from entries_wf_swap [OF all this] x show ?thesis by blast
  next
    case (RevertTable name)
    with e have "revert_table name version now_ms m = Some (Inr m')" by simp
    from entries_wf_revert [OF all this] x show ?thesis by blast
  next
    case (TruncateTable name)
    with e have "truncate_table name version now_ms m = Some (Inr m')" by simp
    then show ?thesis
      by (rule truncate_table_shape)
        (use x tables retired jobs in \<open>auto simp: entries_def entry_wf_updates\<close>)
  qed (use e x tables retired jobs in \<open>auto elim!: edit_shapes
      simp: entries_def forget_garbage_def reserve_segment_ids_def expire_retired_def record_migration_def split: if_splits\<close>)
qed

section \<open>Jobs stay runnable\<close>

lemma alter_step_keeps:
  assumes "alter_step src op (schema, nxt, ob) = Inr (schema', nxt', ob')" "distinct (map sf_id (tb_schema src))"
    "f \<in> set (tb_schema src)" "\<exists>t \<in> set (tb_tombstones src). names_column (fd_name (sf_field f)) t"
    "sf_id f \<in> sf_id ` set schema"
  shows "sf_id f \<in> sf_id ` set schema'"
proof (cases op)
  case (DropColumn c)
  with assms(1) obtain g where g: "find_column schema c = Some g" "schema' = remove1 g schema"
    "find (names_column (case tb_field src (sf_id g) of None \<Rightarrow> c | Some f \<Rightarrow> fd_name (sf_field f))) (tb_tombstones src) = None"
    by (auto simp: drop_column_def Let_def split: option.splits if_splits)
  have "sf_id g \<noteq> sf_id f"
  proof
    assume "sf_id g = sf_id f"
    then have "tb_field src (sf_id g) = Some f" using tb_field_unique assms(2,3) by simp
    with g(3) assms(4) show False by (auto simp: find_None_iff)
  qed
  then show ?thesis using assms(5) g(2) by (metis (no_types, lifting) image_iff in_set_remove1)
next
  case (RenameColumn a b)
  with assms(1) have "schema' = rename_first a b schema" by (auto split: if_splits)
  then have "sf_id ` set schema' = sf_id ` set schema" by (metis rename_first_ids list.set_map)
  with assms(5) show ?thesis by simp
qed (use assms in \<open>auto split: if_splits option.splits\<close>)

lemma alter_steps_keeps:
  assumes "alter_steps src ops (schema, nxt, ob) = Inr (schema', nxt', ob')" "distinct (map sf_id (tb_schema src))"
    "f \<in> set (tb_schema src)" "\<exists>t \<in> set (tb_tombstones src). names_column (fd_name (sf_field f)) t"
    "sf_id f \<in> sf_id ` set schema"
  shows "sf_id f \<in> sf_id ` set schema'"
  using assms
proof (induction ops arbitrary: schema nxt ob)
  case (Cons op ops)
  from Cons.prems(1) obtain s1 n1 o1 where 1: "alter_step src op (schema, nxt, ob) = Inr (s1, n1, o1)"
    "alter_steps src ops (s1, n1, o1) = Inr (schema', nxt', ob')" by auto
  from alter_step_keeps [OF 1(1) Cons.prems(2-5)] have "sf_id f \<in> sf_id ` set s1" .
  from Cons.IH [OF 1(2) Cons.prems(2-4) this] show ?case .
qed simp

lemma plan_alter_carries:
  assumes "plan_alter src ops = Some (Inr target)" "entry_wf src"
  shows "carries src target \<and> tb_name target = tb_name src"
  using assms(1)
proof (rule plan_alter_split)
  fix schema nxt ob resolved
  assume steps: "alter_steps src ops (tb_schema src, tb_next_field_id src, sp_order_by (tb_spec src)) = Inr (schema, nxt, ob)"
    and target: "target = src\<lparr>tb_id := 0, tb_schema := schema, tb_next_field_id := nxt, tb_order_by := resolved,
       tb_segments := [], tb_tombstones := []\<rparr>"
  have "distinct (map sf_id (tb_schema src))" using assms(2) by (simp add: entry_wf_def schema_ok_def)
  then have "sf_id f \<in> sf_id ` set schema"
    if "ts \<in> set (tb_tombstones src)" "p \<in> set (ts_predicates ts)" "find_column (tb_schema src) (pr_column p) = Some f" for ts p f
    using that alter_steps_keeps [OF steps, of f] find_column_Some [OF that(3)] by (auto simp: names_column_def)
  then show ?thesis by (auto simp: carries_def target)
qed

lemma job_ok_grow: "job_ok ts j \<Longrightarrow> set ts \<subseteq> set us \<Longrightarrow> job_ok us j"
  by (auto simp: job_ok_def)

lemma job_ok_replace:
  assumes "job_ok (as @ t # bs) j" "tb_id u = tb_id t" "tb_name u = tb_name t"
    "tb_id t = jb_source j \<Longrightarrow> carries t (jb_target j) \<Longrightarrow> carries u (jb_target j)"
  shows "job_ok (as @ u # bs) j"
  using assms by (auto simp: job_ok_def)

lemma job_ok_other: "job_ok (as @ t # bs) j \<Longrightarrow> tb_id t \<noteq> jb_source j \<Longrightarrow> set (as @ bs) \<subseteq> set us \<Longrightarrow> job_ok us j"
  by (auto simp: job_ok_def)

lemma carries_updates [simp]:
  "carries (t\<lparr>tb_segments := ss\<rparr>) u \<longleftrightarrow> carries t u" "carries (t\<lparr>tb_tombstones := []\<rparr>) u"
  by (auto simp: carries_def)

lemma job_ok_updates [intro]:
  "job_ok (as @ t # bs) j \<Longrightarrow> job_ok (as @ t\<lparr>tb_segments := ss\<rparr> # bs) j"
  "job_ok (as @ t # bs) j \<Longrightarrow> job_ok (as @ t\<lparr>tb_segments := ss, tb_tombstones := []\<rparr> # bs) j"
  by (auto elim!: job_ok_replace)

lemma job_for_source:
  assumes "store_ok m" "j \<in> set (mf_jobs m)" "t \<in> set (mf_tables m)" "tb_id t = jb_source j"
  shows "job_for m (tb_name t) = Some j"
proof -
  have t: "mf_table m (tb_name t) = Some t"
    using assms(1,3) names_sorted_unique [of "mf_tables m"] find_split [of _ "mf_tables m"]
    unfolding mf_table_def store_ok_def by (smt (verit) find_None_iff not_None_eq)
  have "find (\<lambda>j. jb_source j = tb_id t) (mf_jobs m) \<noteq> None" using assms(2,4) by (auto simp: find_None_iff)
  then obtain k where k: "find (\<lambda>j. jb_source j = tb_id t) (mf_jobs m) = Some k" by auto
  have "distinct (map jb_source (mf_jobs m))" using assms(1) by (simp add: store_ok_def jobs_ok_def)
  with find_split [OF k] assms(2,4) have "k = j" by (auto simp: distinct_map inj_on_def)
  with k t show ?thesis by (simp add: job_for_def)
qed

lemma jobs_ok_same:
  assumes "jobs_ok m" "mf_jobs m' = mf_jobs m" "mf_next_job_id m' = mf_next_job_id m"
    "\<And>j. j \<in> set (mf_jobs m) \<Longrightarrow> job_ok (mf_tables m) j \<Longrightarrow> job_ok (mf_tables m') j"
  shows "jobs_ok m'"
  using assms by (auto simp: jobs_ok_def)

lemma jobs_ok_split:
  assumes "jobs_ok m" "mf_jobs m = js @ j # ks"
  shows "\<forall>k \<in> set (js @ ks). job_ok (mf_tables m) k \<and> jb_source k \<noteq> jb_source j"
    "distinct (map jb_id (js @ ks))" "distinct (map jb_source (js @ ks))" "\<forall>k \<in> set (js @ ks). jb_id k < mf_next_job_id m"
  using assms by (auto simp: jobs_ok_def image_iff)

lemma no_job_for:
  assumes "store_ok m" "refuse_job m (tb_name t) = Some (Inr ())" "t \<in> set (mf_tables m)" "j \<in> set (mf_jobs m)"
  shows "tb_id t \<noteq> jb_source j"
  using refuse_job_none [OF assms(2) _ assms(3)] assms(1,4) by (auto simp: store_ok_def)

lemma jobs_ok_tombstone:
  assumes ok: "store_ok m" and e: "add_tombstone name preds m = Some (Inr m')"
  shows "jobs_ok m'"
  using e
proof (rule add_tombstone_shape)
  fix as t bs stored
  assume *: "mf_tables m = as @ t # bs" "tb_name t = name" "store_predicates (tb_schema t) preds = Inr stored"
    and guard: "\<And>j. job_for m name = Some j \<Longrightarrow> \<forall>p \<in> set preds. \<forall>f. find_column (tb_schema t) (pr_column p) = Some f \<longrightarrow>
       tb_field (jb_target j) (sf_id f) \<noteq> None"
    and m': "m' = m\<lparr>mf_tables := as @ t\<lparr>tb_tombstones := tb_tombstones t @ [\<lparr>ts_seq = mf_version m + 1, ts_predicates = stored\<rparr>]\<rparr> # bs\<rparr>"
  show ?thesis
  proof (rule jobs_ok_same)
    fix j assume j: "j \<in> set (mf_jobs m)" "job_ok (mf_tables m) j"
    have "job_ok (as @ t\<lparr>tb_tombstones := tb_tombstones t @ [\<lparr>ts_seq = mf_version m + 1, ts_predicates = stored\<rparr>]\<rparr> # bs) j"
    proof (rule job_ok_replace)
      show "job_ok (as @ t # bs) j" using j(2) *(1) by simp
      assume src: "tb_id t = jb_source j" and c: "carries t (jb_target j)"
      have "job_for m name = Some j" using job_for_source [OF ok j(1) _ src] *(1,2) by simp
      note g = guard [OF this, unfolded tb_field_present]
      have "sf_id f \<in> sf_id ` set (tb_schema (jb_target j))"
        if q: "q \<in> set stored" "find_column (tb_schema t) (pr_column q) = Some f" for q f
      proof -
        have "pr_column q \<in> pr_column ` set preds" using store_predicates_columns [OF *(3)] q(1) by auto
        then obtain p where "p \<in> set preds" "pr_column p = pr_column q" by auto
        with g q(2) show ?thesis by simp
      qed
      then show "carries (t\<lparr>tb_tombstones := tb_tombstones t @ [\<lparr>ts_seq = mf_version m + 1, ts_predicates = stored\<rparr>]\<rparr>) (jb_target j)"
        using c by (auto simp: carries_def)
    qed simp_all
    then show "job_ok (mf_tables m') j" by (simp add: m')
  qed (use ok in \<open>simp_all add: m' store_ok_def\<close>)
qed

lemma jobs_ok_create_job:
  assumes ok: "store_ok m" and e: "create_job name ops m = Some (Inr m')"
  shows "jobs_ok m'"
  using e
proof (rule create_job_shape)
  fix t target
  assume *: "t \<in> set (mf_tables m)" "tb_name t = name" "refuse_job m name = Some (Inr ())" "plan_alter t ops = Some (Inr target)"
    "m' = m\<lparr>mf_next_table_id := mf_next_table_id m + 1, mf_next_job_id := mf_next_job_id m + 1,
       mf_jobs := mf_jobs m @ [\<lparr>jb_id = mf_next_job_id m, jb_source = tb_id t, jb_snapshot = mf_version m,
         jb_target = target\<lparr>tb_id := mf_next_table_id m\<rparr>, jb_handled = [], jb_reused = 0, jb_rewritten = 0\<rparr>]\<rparr>"
  have "entry_wf t" using ok *(1) by (auto simp: store_ok_def entries_def)
  from plan_alter_carries [OF *(4) this] have p: "carries t target" "tb_name target = tb_name t" by auto
  have "tb_id t \<noteq> jb_source j" if "j \<in> set (mf_jobs m)" for j using no_job_for [OF ok _ *(1) that] *(2,3) by simp
  with ok p *(1) show ?thesis
    by (auto simp: *(5) store_ok_def jobs_ok_def job_ok_def carries_def less_Suc_eq intro!: bexI [of _ t])
qed

lemma jobs_ok_advance:
  assumes ok: "store_ok m" and e: "advance_job i reused rewritten segs m = Some (Inr m')"
  shows "jobs_ok m'"
  using e
proof (rule advance_job_shape)
  fix js j ks t carried all
  assume j: "mf_jobs m = js @ j # ks" and m': "m' = m\<lparr>mf_jobs := js @ j\<lparr>jb_target := (jb_target j)\<lparr>tb_segments := all\<rparr>,
        jb_handled := sort (jb_handled j @ reused @ rewritten), jb_reused := jb_reused j + length reused,
        jb_rewritten := jb_rewritten j + length rewritten\<rparr> # ks,
      mf_next_segment_id := raise_segment_id all (mf_next_segment_id m)\<rparr>"
  show ?thesis using ok j by (auto simp: m' store_ok_def jobs_ok_def job_ok_def carries_def)
qed

lemma jobs_ok_swap:
  assumes ok: "store_ok m" and e: "swap_job i version now_ms m = Some (Inr m')"
  shows "jobs_ok m'"
  using e
proof (rule swap_job_shape)
  fix js j ks as t bs ts
  assume *: "mf_jobs m = js @ j # ks" "mf_tables m = as @ t # bs" "tb_id t = jb_source j"
    "m' = m\<lparr>mf_jobs := js @ ks,
      mf_retired := mf_retired m @ [\<lparr>rt_entry = t, rt_reason = Swapped, rt_retired_at_ms = now_ms, rt_version = version,
        rt_successor_segments = sort (map sg_id (tb_segments (jb_target j)))\<rparr>],
      mf_tables := insert_table ((jb_target j)\<lparr>tb_tombstones := ts\<rparr>) (as @ bs)\<rparr>"
  have jobs: "jobs_ok m" using ok by (simp add: store_ok_def)
  have "job_ok (mf_tables m') k" if "k \<in> set (js @ ks)" for k
    by (rule job_ok_other [of as t bs]) (use jobs_ok_split(1) [OF jobs *(1)] that in \<open>auto simp: *\<close>)
  then show ?thesis using jobs_ok_split(2-4) [OF jobs *(1)] by (simp add: jobs_ok_def *(4))
qed

lemma jobs_ok_removed:
  assumes ok: "store_ok m" and t: "mf_tables m = as @ t # bs" "tb_name t = name" "refuse_job m name = Some (Inr ())"
    and m': "mf_jobs m' = mf_jobs m" "mf_next_job_id m' = mf_next_job_id m" "set (as @ bs) \<subseteq> set (mf_tables m')"
  shows "jobs_ok m'"
proof (rule jobs_ok_same [OF _ m'(1,2)])
  show "jobs_ok m" using ok by (simp add: store_ok_def)
  fix j assume j: "j \<in> set (mf_jobs m)" "job_ok (mf_tables m) j"
  have "tb_id t \<noteq> jb_source j" by (rule no_job_for [OF ok _ _ j(1)]) (use t in simp_all)
  with j(2) m'(3) show "job_ok (mf_tables m') j" using job_ok_other [of as t bs j] by (simp add: t(1))
qed

lemma edit_jobs_ok:
  assumes ok: "store_ok m" and e: "apply_edit e version now_ms m = Some (Inr m')"
  shows "jobs_ok m'"
proof -
  have jobs: "jobs_ok m" using ok by (simp add: store_ok_def)
  show ?thesis
  proof (cases e)
    case (CancelJob i)
    with e have "cancel_job i version now_ms m = Some (Inr m')" by simp
    then show ?thesis by (rule cancel_job_shape) (use jobs_ok_split [OF jobs] in \<open>simp add: jobs_ok_def\<close>)
  next
    case (RevertTable name)
    with e have "revert_table name version now_ms m = Some (Inr m')" by simp
    then show ?thesis
      by (rule revert_table_shape) (rule jobs_ok_removed [OF ok], assumption+, auto)
  next
    case (DropTable name)
    with e have "drop_table name version now_ms m = Some (Inr m')" by simp
    then show ?thesis
      by (rule drop_table_shape) (rule jobs_ok_removed [OF ok], assumption+, auto)
  qed (use e jobs_ok_tombstone [OF ok] jobs_ok_create_job [OF ok] jobs_ok_advance [OF ok] jobs_ok_swap [OF ok] in
    \<open>auto elim!: create_table_shape add_segments_shape remove_segments_shape undrop_table_shape truncate_table_shape
      intro!: jobs_ok_same [OF jobs] elim: job_ok_grow
      simp: forget_garbage_def reserve_segment_ids_def expire_retired_def record_migration_def split: if_splits\<close>)
qed

lemma edit_store_ok: "store_ok m \<Longrightarrow> apply_edit e version now_ms m = Some (Inr m') \<Longrightarrow> store_ok m'"
  using edit_names_sorted [of m e version now_ms m'] edit_ids_ok [of m e version now_ms m']
    edit_entries_wf [of m e version now_ms m'] edit_jobs_ok [of m e version now_ms m']
  by (simp add: store_ok_def [of m'])

interpretation store_safe: commit_invariant store_ok
proof
  show "store_ok manifest_empty"
    by (simp add: store_ok_def manifest_empty_def names_sorted_def ids_ok_def tids_def entries_def jobs_ok_def)
  show "store_ok (m\<lparr>mf_version := mf_version m + 1\<rparr>)" if "store_ok m" for m
    using that by (simp add: store_ok_def ids_ok_def tids_def entries_def jobs_ok_def)
qed (rule edit_store_ok)

end
