(* ===== verification/Manifest_Migrate.thy ===== *)
theory Manifest_Migrate
  imports Manifest_Jobs
begin

text \<open>
  What a migration promises: it can always be finished, a \<open>DROP\<close> can be undone exactly,
  a swap can be reverted to the definition it replaced; and one thing it does not: a table
  dropped and created again under the same name can be reverted to a definition of the table
  it replaced.
\<close>

section \<open>Finishing a job\<close>

lemma distinct_position:
  assumes "x \<in> set xs" "distinct (map k xs)"
  obtains as bs where "xs = as @ x # bs" "position (\<lambda>y. k y = k x) xs = Some (length as)"
proof -
  from assms(1) obtain as bs where xs: "xs = as @ x # bs" by (meson split_list)
  with assms(2) have "k x \<notin> k ` set as" by auto
  then have "\<forall>y \<in> set as. k y \<noteq> k x" by (metis image_eqI)
  with xs that position_append [of as "\<lambda>y. k y = k x" x bs] show ?thesis by simp
qed

lemma those_some_map: "(\<And>x. x \<in> set xs \<Longrightarrow> \<exists>y. f x = Some y) \<Longrightarrow> \<exists>ys. those (map f xs) = Some ys"
  using those_map_ex [of xs f "\<lambda>_. True"] by simp

lemma position_lt: "position P xs = Some i \<Longrightarrow> i < length xs"
  by (erule position_split) simp

lemma projected_stats_some: "segment_ok s \<Longrightarrow> \<exists>c. projected_stats s f = Some c"
  by (auto simp: projected_stats_def segment_ok_def nth_opt_def split: option.splits dest: position_lt)

lemma project_onto_some: "segment_ok s \<Longrightarrow> \<exists>p. project_onto s schema = Some p"
  using those_some_map [of schema "projected_stats s"] projected_stats_some [of s]
  by (auto simp: project_onto_def Let_def split: option.splits)

lemma carried_some:
  assumes "\<forall>s \<in> set segs. segment_ok s" "\<forall>i \<in> set ids. i \<in> sg_id ` set segs"
  shows "\<exists>ps. those (map (\<lambda>i. Option.bind (find (\<lambda>s. sg_id s = i) segs) (\<lambda>s. project_onto s schema)) ids) = Some ps"
proof (rule those_some_map)
  fix i assume "i \<in> set ids"
  with assms(2) have "find (\<lambda>s. sg_id s = i) segs \<noteq> None" by (auto simp: find_None_iff)
  then obtain s where s: "find (\<lambda>s. sg_id s = i) segs = Some s" by auto
  with find_split [OF s] assms(1) project_onto_some [of s] show "\<exists>y. Option.bind (find (\<lambda>s. sg_id s = i) segs) (\<lambda>s. project_onto s schema) = Some y"
    by auto
qed

lemma rename_predicates_some:
  assumes "\<forall>p \<in> set ps. \<exists>f. find_column from (pr_column p) = Some f \<and> sf_id f \<in> sf_id ` set (tb_schema to)"
  shows "\<exists>qs. rename_predicates err from to ps = Inr qs"
  using assms
proof (induction ps)
  case (Cons p ps)
  then obtain f qs where f: "find_column from (pr_column p) = Some f" "sf_id f \<in> sf_id ` set (tb_schema to)"
    and qs: "rename_predicates err from to ps = Inr qs" by auto
  from f(2) have "tb_field to (sf_id f) \<noteq> None" unfolding tb_field_present .
  with f(1) qs show ?case by (auto simp: rmap_def)
qed simp

lemma rename_tombstones_some:
  assumes "\<forall>t \<in> set ts. \<forall>p \<in> set (ts_predicates t). \<exists>f. find_column from (pr_column p) = Some f \<and> sf_id f \<in> sf_id ` set (tb_schema to)"
  shows "\<exists>us. rename_tombstones err from to ts = Inr us"
  using assms
proof (induction ts)
  case (Cons t ts)
  then obtain us where "rename_tombstones err from to ts = Inr us" by auto
  moreover obtain qs where "rename_predicates err from to (ts_predicates t) = Inr qs"
    using rename_predicates_some [of "ts_predicates t" "from" to err] Cons.prems by auto
  ultimately show ?case by (auto simp: rmap_def)
qed simp

text \<open>The two edits of the last commit of a job, on a manifest that satisfies the invariant.\<close>

lemma advance_job_succeeds:
  assumes ok: "store_ok m" and j: "j \<in> set (mf_jobs m)" and t: "t \<in> set (mf_tables m)" "tb_id t = jb_source j"
    and live: "\<forall>i \<in> set (reused @ rewritten). i \<in> seg_ids t \<and> i \<notin> set (jb_handled j)"
    and segs: "validate_new_segments (map sf_id (tb_schema (jb_target j))) segs = Inr ()"
  shows "\<exists>m'. advance_job (jb_id j) reused rewritten segs m = Some (Inr m')"
proof -
  have jobs: "distinct (map jb_id (mf_jobs m))" and ids: "distinct (map tb_id (mf_tables m))" and wf: "entry_wf t"
    using ok t by (auto simp: store_ok_def jobs_ok_def ids_ok_def tids_def entries_def)
  obtain js ks where js: "mf_jobs m = js @ j # ks" "position (\<lambda>y. jb_id y = jb_id j) (mf_jobs m) = Some (length js)"
    using distinct_position [OF j jobs] .
  obtain as bs where as: "mf_tables m = as @ t # bs" "position (\<lambda>y. tb_id y = tb_id t) (mf_tables m) = Some (length as)"
    using distinct_position [OF t(1) ids] .
  obtain carried where carried:
    "those (map (\<lambda>i. Option.bind (find (\<lambda>s. sg_id s = i) (tb_segments t)) (\<lambda>s. project_onto s (tb_schema (jb_target j)))) reused) =
      Some carried"
    using carried_some [of "tb_segments t" reused "tb_schema (jb_target j)"] wf live by (auto simp: entry_wf_def seg_ids_def)
  have ji: "job_index m (jb_id j) = mret (length js)" using js(2) by (simp add: job_index_def)
  have si: "source_index m j = mret (length as)" using as(2) t(2) by (simp add: source_index_def table_index_by_id_def)
  have not: "\<not> (\<exists>i \<in> set (reused @ rewritten). \<not> has_segment i (tb_segments t) \<or> i \<in> set (jb_handled j))"
    using live by (auto simp: has_segment_def seg_ids_def)
  show ?thesis
    unfolding advance_job_def ji mbind_mret Let_def using js(1) si as(1) not segs carried
    by (simp add: mret_def mbind_def)
qed

lemma swap_job_succeeds:
  assumes ok: "store_ok m" and j: "j \<in> set (mf_jobs m)" and t: "t \<in> set (mf_tables m)" "tb_id t = jb_source j"
    and handled: "seg_ids t \<subseteq> set (jb_handled j)"
  shows "\<exists>m'. swap_job (jb_id j) version now_ms m = Some (Inr m')"
proof -
  have jobs: "distinct (map jb_id (mf_jobs m))" and ids: "distinct (map tb_id (mf_tables m))" and wf: "entry_wf t"
    using ok t by (auto simp: store_ok_def jobs_ok_def ids_ok_def tids_def entries_def)
  obtain js ks where js: "mf_jobs m = js @ j # ks" "position (\<lambda>y. jb_id y = jb_id j) (mf_jobs m) = Some (length js)"
    using distinct_position [OF j jobs] .
  obtain as bs where as: "mf_tables m = as @ t # bs" "position (\<lambda>y. tb_id y = tb_id t) (mf_tables m) = Some (length as)"
    using distinct_position [OF t(1) ids] .
  have "carries t (jb_target j)" using job_source [OF ok j t] by simp
  then obtain us where us:
    "rename_tombstones (Usage ''tombstone names unknown column'') (tb_schema t) (jb_target j) (tb_tombstones t) = Inr us"
    using rename_tombstones_some [of "tb_tombstones t" "tb_schema t" "jb_target j"] wf
    by (fastforce simp: entry_wf_def tombstones_named_def carries_def)
  have ji: "job_index m (jb_id j) = mret (length js)" using js(2) by (simp add: job_index_def)
  have si: "source_index m j = mret (length as)" using as(2) t(2) by (simp add: source_index_def table_index_by_id_def)
  have not: "\<not> (\<exists>s \<in> set (tb_segments t). sg_id s \<notin> set (jb_handled j))" using handled by (auto simp: seg_ids_def)
  show ?thesis
    unfolding swap_job_def ji mbind_mret Let_def using js(1) si as(1) not us
    by (simp add: mret_def mbind_def)
qed

lemma find_sorted: "names_sorted ts \<Longrightarrow> t \<in> set ts \<Longrightarrow> find (\<lambda>u. tb_name u = tb_name t) ts = Some t"
  by (smt (verit) find_None_iff find_split names_sorted_unique not_None_eq)

lemma mf_table_in: "store_ok m \<Longrightarrow> t \<in> set (mf_tables m) \<Longrightarrow> mf_table m (tb_name t) = Some t"
  by (simp add: mf_table_def store_ok_def find_sorted)

lemma refuse_job_version [simp]: "refuse_job (m\<lparr>mf_version := v\<rparr>) name = refuse_job m name"
  by (simp add: refuse_job_def job_for_def mf_table_def cong: option.case_cong)

lemma job_unique: "store_ok m \<Longrightarrow> j \<in> set (mf_jobs m) \<Longrightarrow> k \<in> set (mf_jobs m) \<Longrightarrow> jb_id j = jb_id k \<Longrightarrow> j = k"
  by (auto simp: store_ok_def jobs_ok_def distinct_map inj_on_def)

lemma table_unique:
  assumes "store_ok m" "t \<in> set (mf_tables m)" "u \<in> set (mf_tables m)" "tb_id t = tb_id u"
  shows "t = u"
proof -
  have "distinct (map tb_id (mf_tables m))" using assms(1) by (simp add: store_ok_def ids_ok_def tids_def)
  then have "inj_on tb_id (set (mf_tables m))" by (simp add: distinct_map)
  then show ?thesis using assms(2-4) by (meson inj_onD)
qed

lemma advance_job_result:
  assumes ok: "store_ok m" and j: "j \<in> set (mf_jobs m)" and m': "advance_job (jb_id j) reused rewritten segs m = Some (Inr m')"
  obtains k where "k \<in> set (mf_jobs m')" "jb_id k = jb_id j" "jb_source k = jb_source j" "mf_tables m' = mf_tables m"
    "set (jb_handled k) = set (jb_handled j) \<union> set reused \<union> set rewritten" "tb_id (jb_target k) = tb_id (jb_target j)"
    "tb_schema (jb_target k) = tb_schema (jb_target j)" "tb_name (jb_target k) = tb_name (jb_target j)"
    "seg_ids (jb_target k) = seg_ids (jb_target j) \<union> set reused \<union> sg_id ` set segs"
  using m'
proof (rule advance_job_shape)
  fix js k ks t carried all
  assume *: "mf_jobs m = js @ k # ks" "jb_id k = jb_id j"
    "those (map (\<lambda>i. Option.bind (find (\<lambda>s. sg_id s = i) (tb_segments t)) (\<lambda>s. project_onto s (tb_schema (jb_target k)))) reused) =
      Some carried"
    "all = sort_segments (tb_segments (jb_target k) @ carried @ segs)"
    "m' = m\<lparr>mf_jobs := js @ k\<lparr>jb_target := (jb_target k)\<lparr>tb_segments := all\<rparr>,
        jb_handled := sort (jb_handled k @ reused @ rewritten), jb_reused := jb_reused k + length reused,
        jb_rewritten := jb_rewritten k + length rewritten\<rparr> # ks,
      mf_next_segment_id := raise_segment_id all (mf_next_segment_id m)\<rparr>"
  have "k = j" using job_unique [OF ok _ j, of k] *(1,2) by simp
  have c: "sg_id ` set carried = set reused" by (rule map_ids_set, rule carried_ids, rule *(3))
  show thesis
    by (rule that [of "k\<lparr>jb_target := (jb_target k)\<lparr>tb_segments := all\<rparr>,
        jb_handled := sort (jb_handled k @ reused @ rewritten), jb_reused := jb_reused k + length reused,
        jb_rewritten := jb_rewritten k + length rewritten\<rparr>"])
      (auto simp: *(4,5) \<open>k = j\<close> seg_ids_def image_Un c)
qed

lemma swap_job_result:
  assumes ok: "store_ok m" and j: "j \<in> set (mf_jobs m)" and t: "t \<in> set (mf_tables m)" "tb_id t = jb_source j"
    and m': "swap_job (jb_id j) version now_ms m = Some (Inr m')"
  obtains as bs ts where "mf_tables m = as @ t # bs" "mf_tables m' = as @ (jb_target j)\<lparr>tb_tombstones := ts\<rparr> # bs"
    "mf_retired m' = mf_retired m @ [\<lparr>rt_entry = t, rt_reason = Swapped, rt_retired_at_ms = now_ms, rt_version = version,
        rt_successor_segments = sort (map sg_id (tb_segments (jb_target j)))\<rparr>]" "set (mf_jobs m') = set (mf_jobs m) - {j}"
    "rename_tombstones (Usage ''tombstone names unknown column'') (tb_schema t) (jb_target j) (tb_tombstones t) = Inr ts"
  using m'
proof (rule swap_job_shape)
  fix js i ks as u bs ts
  assume *: "mf_jobs m = js @ i # ks" "jb_id i = jb_id j" "mf_tables m = as @ u # bs" "tb_id u = jb_source i"
    "rename_tombstones (Usage ''tombstone names unknown column'') (tb_schema u) (jb_target i) (tb_tombstones u) = Inr ts"
    "m' = m\<lparr>mf_jobs := js @ ks,
      mf_retired := mf_retired m @ [\<lparr>rt_entry = u, rt_reason = Swapped, rt_retired_at_ms = now_ms, rt_version = version,
        rt_successor_segments = sort (map sg_id (tb_segments (jb_target i)))\<rparr>],
      mf_tables := insert_table ((jb_target i)\<lparr>tb_tombstones := ts\<rparr>) (as @ bs)\<rparr>"
  have ij: "i = j" using job_unique [OF ok _ j, of i] *(1,2) by simp
  have ut: "u = t" by (rule table_unique [OF ok _ t(1)]) (use *(3,4) ij t(2) in simp_all)
  have sorted: "names_sorted (as @ t # bs)" using ok *(3) ut by (simp add: store_ok_def)
  have name: "tb_name t = tb_name (jb_target j)" using job_source [OF ok j t] by simp
  have jobs: "distinct (map jb_id (mf_jobs m))" using ok by (simp add: store_ok_def jobs_ok_def)
  then have "set (js @ ks) = set (mf_jobs m) - {j}" using *(1) ij by (auto simp: image_iff)
  note jobs' = this
  have tables': "mf_tables m' = as @ (jb_target j)\<lparr>tb_tombstones := ts\<rparr> # bs"
    using insert_table_back [OF sorted, of "(jb_target j)\<lparr>tb_tombstones := ts\<rparr>"] name *(6) ij by simp
  show thesis
  proof (rule that [OF _ tables'])
    show "mf_tables m = as @ t # bs" using *(3) ut by simp
    show "mf_retired m' = mf_retired m @ [\<lparr>rt_entry = t, rt_reason = Swapped, rt_retired_at_ms = now_ms, rt_version = version,
        rt_successor_segments = sort (map sg_id (tb_segments (jb_target j)))\<rparr>]" using *(6) ij ut by simp
    show "set (mf_jobs m') = set (mf_jobs m) - {j}" using *(6) jobs' by simp
    show "rename_tombstones (Usage ''tombstone names unknown column'') (tb_schema t) (jb_target j) (tb_tombstones t) = Inr ts"
      using *(5) ij ut by simp
  qed
qed

text \<open>
  C9. A migration can always be finished. In every history, for every running job, one commit
  that hands over the segments of the source not yet handled, each reused or rewritten, and
  then swaps, succeeds: the job is gone and the table is its target, with the segments
  reused, rewritten and already carried. In particular no tombstone wedges the swap: the
  planner refuses to drop a column that a tombstone names, and while the job runs a tombstone
  on a column the job drops is refused.
\<close>

theorem job_can_finish:
  assumes m: "reachable m" and j: "j \<in> set (mf_jobs m)"
    and t: "t \<in> set (mf_tables m)" "tb_id t = jb_source j"
    and todo: "set (reused @ rewritten) = seg_ids t - set (jb_handled j)"
    and segs: "validate_new_segments (map sf_id (tb_schema (jb_target j))) segs = Inr ()"
  shows "\<exists>m' t'. commit_apply [AdvanceJob (jb_id j) reused rewritten segs, SwapJob (jb_id j)] m now_ms = Some (Inr m') \<and>
    mf_job m' (jb_id j) = None \<and> mf_table m' (tb_name t) = Some t' \<and> tb_id t' = tb_id (jb_target j) \<and>
    tb_schema t' = tb_schema (jb_target j) \<and> seg_ids t' = seg_ids (jb_target j) \<union> set reused \<union> sg_id ` set segs"
proof -
  note ok = store_safe.holds [OF m]
  obtain m1 where m1: "advance_job (jb_id j) reused rewritten segs m = Some (Inr m1)"
    using advance_job_succeeds [OF ok j t, of reused rewritten segs] todo segs by auto
  have ok1: "store_ok m1" by (rule edit_store_ok [OF ok, of "AdvanceJob (jb_id j) reused rewritten segs"]) (simp add: m1)
  obtain k where k: "k \<in> set (mf_jobs m1)" "jb_id k = jb_id j" "jb_source k = jb_source j" "mf_tables m1 = mf_tables m"
    "set (jb_handled k) = set (jb_handled j) \<union> set reused \<union> set rewritten" "tb_id (jb_target k) = tb_id (jb_target j)"
    "tb_schema (jb_target k) = tb_schema (jb_target j)" "tb_name (jb_target k) = tb_name (jb_target j)"
    "seg_ids (jb_target k) = seg_ids (jb_target j) \<union> set reused \<union> sg_id ` set segs"
    using advance_job_result [OF ok j m1] .
  have t1: "t \<in> set (mf_tables m1)" "tb_id t = jb_source k" using t k(3,4) by simp_all
  obtain m2 where m2: "swap_job (jb_id k) (mf_version m + 1) now_ms m1 = Some (Inr m2)"
    using swap_job_succeeds [OF ok1 k(1) t1, of "mf_version m + 1" now_ms] todo k(5) by auto
  have ok2: "store_ok m2" by (rule edit_store_ok [OF ok1, of "SwapJob (jb_id k)" "mf_version m + 1" now_ms]) (use m2 in simp)
  obtain as bs ts where s: "mf_tables m2 = as @ (jb_target k)\<lparr>tb_tombstones := ts\<rparr> # bs"
    "set (mf_jobs m2) = set (mf_jobs m1) - {k}"
    using swap_job_result [OF ok1 k(1) t1 m2] by metis
  have "tb_name t = tb_name (jb_target k)" using job_source [OF ok1 k(1) t1] by simp
  then have table: "mf_table m2 (tb_name t) = Some ((jb_target k)\<lparr>tb_tombstones := ts\<rparr>)"
    using mf_table_in [OF ok2, of "(jb_target k)\<lparr>tb_tombstones := ts\<rparr>"] s(1) by simp
  have gone: "mf_job m2 (jb_id j) = None"
    using s(2) k(1,2) job_unique [OF ok1] by (fastforce simp: mf_job_def find_None_iff)
  show ?thesis
    by (rule exI [of _ "m2\<lparr>mf_version := mf_version m + 1\<rparr>"], rule exI [of _ "(jb_target k)\<lparr>tb_tombstones := ts\<rparr>"])
      (use m1 m2 k table gone in \<open>simp add: commit_apply_def mf_job_def mf_table_def mbind_def mret_def\<close>)
qed

section \<open>Undoing a drop\<close>

lemma table_position:
  assumes "store_ok m" "t \<in> set (mf_tables m)"
  obtains as bs where "mf_tables m = as @ t # bs" "position (\<lambda>u. tb_name u = tb_name t) (mf_tables m) = Some (length as)"
  using distinct_position [OF assms(2), of tb_name] names_sorted_distinct [of "mf_tables m"] assms(1)
  by (auto simp: store_ok_def)

text \<open>
  C15. \<open>DROP TABLE\<close> and then \<open>UNDROP TABLE\<close> give back the manifest as it was, but for its version:
  the table with its id, segments, tombstones and place, and the list of retired entries.
\<close>

theorem drop_undrop:
  assumes "reachable m" "mf_table m name = Some t" "job_for m name = None"
  shows "\<exists>m1. commit_apply [DropTable name] m now1 = Some (Inr m1) \<and> mf_table m1 name = None \<and>
    commit_apply [UndropTable name] m1 now2 = Some (Inr (m\<lparr>mf_version := mf_version m + 2\<rparr>))"
proof -
  note ok = store_safe.holds [OF assms(1)]
  from assms(2) have t: "t \<in> set (mf_tables m)" "tb_name t = name" by (auto simp: mf_table_def dest: find_split)
  obtain as bs where p: "mf_tables m = as @ t # bs" "position (\<lambda>u. tb_name u = name) (mf_tables m) = Some (length as)"
    using table_position [OF ok t(1)] t(2) by auto
  define d where "d = \<lparr>rt_entry = t, rt_reason = Dropped, rt_retired_at_ms = now1, rt_version = mf_version m + 1, rt_successor_segments = []\<rparr>"
  define m1 where "m1 = m\<lparr>mf_version := mf_version m + 1, mf_tables := as @ bs, mf_retired := mf_retired m @ [d]\<rparr>"
  have sorted: "names_sorted (as @ t # bs)" using ok p(1) by (simp add: store_ok_def)
  have "refuse_job m name = mret ()" using assms(3) by (simp add: refuse_job_def)
  moreover have "table_index m name = mret (length as)" using p(2) by (simp add: table_index_def)
  ultimately have drop: "commit_apply [DropTable name] m now1 = Some (Inr m1)"
    using p(1) by (simp add: commit_apply_def drop_table_def m1_def d_def)
  have none: "mf_table m1 name = None"
    using names_sorted_distinct [OF sorted] t(2) by (auto simp: mf_table_None m1_def image_iff)
  have "last_retired Dropped name (mf_retired m1) = Some (length (mf_retired m))"
    using last_retired_append [of d Dropped name "[]" "mf_retired m"] t(2) by (simp add: m1_def d_def)
  moreover have "insert_table t (as @ bs) = as @ t # bs" by (rule insert_table_back [OF sorted]) simp
  ultimately have "undrop_table name m1 = mret (m1\<lparr>mf_retired := mf_retired m, mf_tables := mf_tables m\<rparr>)"
    using none remove_at_split [of "mf_retired m" d "[]"] by (simp add: undrop_table_def m1_def d_def p(1))
  then have "commit_apply [UndropTable name] m1 now2 = Some (Inr (m\<lparr>mf_version := mf_version m + 2\<rparr>))"
    by (simp add: commit_apply_def m1_def)
  with drop none show ?thesis by blast
qed

section \<open>Undoing a swap\<close>

text \<open>No tombstone carries a sequence number past the version its commit lands at.\<close>

definition seqs_le :: "nat \<Rightarrow> table_entry \<Rightarrow> bool" where
  "seqs_le n t \<longleftrightarrow> (\<forall>x \<in> set (tb_tombstones t). ts_seq x \<le> n)"

definition seqs_ok :: "manifest \<Rightarrow> bool" where
  "seqs_ok m \<longleftrightarrow> (\<forall>t \<in> entries m. seqs_le (mf_version m + 1) t)"

lemma rename_tombstones_seqs: "rename_tombstones err from to ts = Inr us \<Longrightarrow> map ts_seq us = map ts_seq ts"
  by (induction ts arbitrary: us) (auto simp: rmap_Inr)

lemma rename_seqs_le:
  assumes "rename_tombstones err from to ts = Inr us" "\<forall>x \<in> set ts. ts_seq x \<le> n"
  shows "\<forall>x \<in> set us. ts_seq x \<le> n"
proof
  fix x assume "x \<in> set us"
  then have "ts_seq x \<in> set (map ts_seq ts)" by (simp flip: rename_tombstones_seqs [OF assms(1)])
  with assms(2) show "ts_seq x \<le> n" by auto
qed

lemma seqs_le_simps [simp]:
  "seqs_le n (t\<lparr>tb_segments := ss\<rparr>) \<longleftrightarrow> seqs_le n t" "seqs_le n (t\<lparr>tb_id := i\<rparr>) \<longleftrightarrow> seqs_le n t"
  "seqs_le n (t\<lparr>tb_next_field_id := f\<rparr>) \<longleftrightarrow> seqs_le n t"
  "seqs_le n (t\<lparr>tb_tombstones := us\<rparr>) \<longleftrightarrow> (\<forall>x \<in> set us. ts_seq x \<le> n)"
  by (auto simp: seqs_le_def)

lemma plan_alter_seqs: "plan_alter src ops = Some (Inr target) \<Longrightarrow> seqs_le n target"
  by (erule plan_alter_split) (simp add: seqs_le_def)

lemma edit_seqs_le:
  assumes old: "\<forall>t \<in> entries m. seqs_le n t" and n: "mf_version m < n" and e: "apply_edit e version now_ms m = Some (Inr m')"
  shows "\<forall>t \<in> entries m'. seqs_le n t"
proof -
  have tables: "\<forall>t \<in> set (mf_tables m). seqs_le n t" and retired: "\<forall>r \<in> set (mf_retired m). seqs_le n (rt_entry r)"
    and jobs: "\<forall>j \<in> set (mf_jobs m). seqs_le n (jb_target j)" using old by (auto simp: entries_def)
  show ?thesis
  proof (cases e)
    case (CreateTable spec)
    with e have "create_table spec m = Some (Inr m')" by simp
    then show ?thesis by (rule create_table_shape) (use tables retired jobs in \<open>auto simp: entries_def seqs_le_def\<close>)
  next
    case (CreateJob name ops)
    with e have "create_job name ops m = Some (Inr m')" by simp
    then show ?thesis
    proof (rule create_job_shape)
      fix t target
      assume "plan_alter t ops = Some (Inr target)" and m': "m' = m\<lparr>mf_next_table_id := mf_next_table_id m + 1,
        mf_next_job_id := mf_next_job_id m + 1, mf_jobs := mf_jobs m @ [\<lparr>jb_id = mf_next_job_id m, jb_source = tb_id t,
          jb_snapshot = mf_version m, jb_target = target\<lparr>tb_id := mf_next_table_id m\<rparr>, jb_handled = [], jb_reused = 0, jb_rewritten = 0\<rparr>]\<rparr>"
      then have "seqs_le n target" by (intro plan_alter_seqs)
      then show ?thesis using tables retired jobs by (auto simp: entries_def m')
    qed
  next
    case (AddTombstone name preds)
    with e have "add_tombstone name preds m = Some (Inr m')" by simp
    then show ?thesis
      by (rule add_tombstone_shape) (use tables retired jobs n in \<open>auto simp: entries_def seqs_le_def\<close>)
  next
    case (SwapJob i)
    with e have "swap_job i version now_ms m = Some (Inr m')" by simp
    then show ?thesis
      by (rule swap_job_shape)
        (use tables retired jobs in \<open>auto simp: entries_def; auto simp: seqs_le_def dest: rename_seqs_le\<close>)
  next
    case (RevertTable name)
    with e have "revert_table name version now_ms m = Some (Inr m')" by simp
    then show ?thesis
    proof (rule revert_table_shape)
      fix rs r qs as t bs newer restored ts
      assume *: "mf_retired m = rs @ r # qs" "mf_tables m = as @ t # bs"
        "restored = (rt_entry r)\<lparr>tb_next_field_id := max (tb_next_field_id (rt_entry r)) (tb_next_field_id t),
           tb_segments := sort_segments (tb_segments (rt_entry r) @ newer)\<rparr>"
        "rename_tombstones (RevertStale name ''tombstone names unknown column'') (tb_schema t) restored
           (filter (\<lambda>x. ts_seq x > rt_version r) (tb_tombstones t)) = Inr ts"
        "m' = m\<lparr>mf_retired := rs @ qs @ [\<lparr>rt_entry = t, rt_reason = Reverted, rt_retired_at_ms = now_ms, rt_version = version,
            rt_successor_segments = []\<rparr>],
          mf_tables := insert_table (restored\<lparr>tb_tombstones := tb_tombstones (rt_entry r) @ ts\<rparr>) (as @ bs)\<rparr>"
      have "\<forall>x \<in> set (tb_tombstones (rt_entry r) @ ts). ts_seq x \<le> n"
        using rename_seqs_le [OF *(4), of n] tables retired *(1,2) by (auto simp: seqs_le_def)
      then have new: "seqs_le n (restored\<lparr>tb_tombstones := tb_tombstones (rt_entry r) @ ts\<rparr>)" by simp
      have "entries m' \<subseteq> insert (restored\<lparr>tb_tombstones := tb_tombstones (rt_entry r) @ ts\<rparr>) (entries m)"
        by (auto simp: entries_def *(1,2,5))
      then show ?thesis using old new by blast
    qed
  qed (use e tables retired jobs in \<open>auto elim!: add_segments_shape remove_segments_shape advance_job_shape
      cancel_job_shape drop_table_shape undrop_table_shape truncate_table_shape
      simp: entries_def forget_garbage_def reserve_segment_ids_def expire_retired_def record_migration_def split: if_splits\<close>)
qed

interpretation seqs_safe: commit_invariant seqs_ok
proof
  show "seqs_ok manifest_empty" by (simp add: seqs_ok_def manifest_empty_def entries_def)
  show "seqs_ok (m\<lparr>mf_version := mf_version m + 1\<rparr>)" if "seqs_ok m" for m
    using that by (auto simp: seqs_ok_def seqs_le_def entries_def intro: le_SucI)
  show "seqs_ok m'" if "seqs_ok m" "fresh_edit e m" "apply_edit e version now_ms m = Some (Inr m')" for m e version now_ms m'
    using edit_seqs_le [OF _ _ that(3), of "mf_version m + 1"] that(1) apply_edit_version [OF that(3)]
    by (simp add: seqs_ok_def)
qed

text \<open>The manifest after a swap, read at the entries a revert looks up.\<close>

lemma swapped_ready:
  assumes ok: "store_ok m" and seqs: "seqs_ok m" and j: "j \<in> set (mf_jobs m)" and t: "t \<in> set (mf_tables m)" "tb_id t = jb_source j"
    and k: "swap_job (jb_id j) (mf_version m + 1) now_ms m = Some (Inr k)"
  obtains as bs cur where "mf_tables k = as @ cur # bs" "position (\<lambda>u. tb_name u = tb_name t) (mf_tables k) = Some (length as)"
    "refuse_job k (tb_name t) = mret ()" "\<forall>x \<in> set (tb_tombstones cur). ts_seq x \<le> mf_version m + 1"
    "tb_segments cur = tb_segments (jb_target j)" "tb_next_field_id cur = tb_next_field_id (jb_target j)"
    "mf_retired k = mf_retired m @ [\<lparr>rt_entry = t, rt_reason = Swapped, rt_retired_at_ms = now_ms, rt_version = mf_version m + 1,
        rt_successor_segments = sort (map sg_id (tb_segments (jb_target j)))\<rparr>]" "names_sorted (as @ cur # bs)" "tb_name cur = tb_name t"
proof -
  obtain as bs ts where s: "mf_tables m = as @ t # bs" "mf_tables k = as @ (jb_target j)\<lparr>tb_tombstones := ts\<rparr> # bs"
    "mf_retired k = mf_retired m @ [\<lparr>rt_entry = t, rt_reason = Swapped, rt_retired_at_ms = now_ms, rt_version = mf_version m + 1,
        rt_successor_segments = sort (map sg_id (tb_segments (jb_target j)))\<rparr>]" "set (mf_jobs k) = set (mf_jobs m) - {j}"
    "rename_tombstones (Usage ''tombstone names unknown column'') (tb_schema t) (jb_target j) (tb_tombstones t) = Inr ts"
    using swap_job_result [OF ok j t k] .
  have okk: "store_ok k" by (rule edit_store_ok [OF ok, of "SwapJob (jb_id j)" "mf_version m + 1" now_ms]) (use k in simp)
  define cur where "cur = (jb_target j)\<lparr>tb_tombstones := ts\<rparr>"
  have cur: "cur \<in> set (mf_tables k)" and name: "tb_name cur = tb_name t"
    using s(2) job_source [OF ok j t] by (simp_all add: cur_def)
  have sorted: "names_sorted (as @ cur # bs)" using okk s(2) by (simp add: store_ok_def cur_def)
  have "\<forall>u \<in> set as. tb_name u \<noteq> tb_name t" using sorted name by (fastforce simp: names_sorted_def sorted_wrt_append)
  then have pos: "position (\<lambda>u. tb_name u = tb_name t) (mf_tables k) = Some (length as)"
    unfolding s(2) by (rule position_append) (use name cur_def in simp)
  have "jb_source i \<noteq> tb_id cur" if "i \<in> set (mf_jobs m)" for i
  proof -
    have "job_ok (mf_tables m) i" using ok that by (simp add: store_ok_def jobs_ok_def)
    then obtain u where "u \<in> set (mf_tables m)" "tb_id u = jb_source i" by (auto simp: job_ok_def)
    moreover have "tb_id (jb_target j) \<notin> tb_id ` set (mf_tables m)" using ok j by (auto simp: store_ok_def ids_ok_def tids_def)
    ultimately show ?thesis by (auto simp: cur_def image_iff)
  qed
  then have refuse: "refuse_job k (tb_name t) = mret ()"
    using mf_table_in [OF okk cur] name s(4) by (auto simp: refuse_job_def job_for_def find_None_iff split: option.splits dest: find_split)
  have "seqs_le (mf_version m + 1) t" using seqs t(1) by (auto simp: seqs_ok_def entries_def)
  then have "\<forall>x \<in> set (tb_tombstones cur). ts_seq x \<le> mf_version m + 1"
    using rename_seqs_le [OF s(5)] by (simp add: cur_def seqs_le_def)
  then show thesis
    by (intro that [OF _ pos refuse _ _ _ s(3) sorted name]) (simp_all add: s(2) cur_def)
qed

text \<open>
  C16. A swap can be reverted: directly after it, \<open>REVERT\<close> succeeds and the table is again the
  entry that the swap replaced, with its id, schema, tombstones and segments, and only the
  counter of field ids stays past those the migration used, so none is ever reused.
\<close>

theorem swap_revert:
  assumes m: "reachable m" and j: "j \<in> set (mf_jobs m)" and t: "t \<in> set (mf_tables m)" "tb_id t = jb_source j"
    and m1: "commit_apply [SwapJob (jb_id j)] m now1 = Some (Inr m1)"
  shows "\<exists>m2. commit_apply [RevertTable (tb_name t)] m1 now2 = Some (Inr m2) \<and>
    mf_table m2 (tb_name t) = Some (t\<lparr>tb_next_field_id := max (tb_next_field_id t) (tb_next_field_id (jb_target j)),
      tb_segments := sort_segments (tb_segments t)\<rparr>)"
proof -
  note ok = store_safe.holds [OF m] and seqs = seqs_safe.holds [OF m]
  from m1 obtain k where k: "swap_job (jb_id j) (mf_version m + 1) now1 m = Some (Inr k)" "m1 = k\<lparr>mf_version := mf_version m + 1\<rparr>"
    by (auto simp: commit_apply_def)
  define r where "r = \<lparr>rt_entry = t, rt_reason = Swapped, rt_retired_at_ms = now1, rt_version = mf_version m + 1,
    rt_successor_segments = sort (map sg_id (tb_segments (jb_target j)))\<rparr>"
  obtain as bs cur where s: "mf_tables k = as @ cur # bs" "position (\<lambda>u. tb_name u = tb_name t) (mf_tables k) = Some (length as)"
    "refuse_job k (tb_name t) = mret ()" "\<forall>x \<in> set (tb_tombstones cur). ts_seq x \<le> mf_version m + 1"
    "tb_segments cur = tb_segments (jb_target j)" "tb_next_field_id cur = tb_next_field_id (jb_target j)"
    "mf_retired k = mf_retired m @ [r]" "names_sorted (as @ cur # bs)" "tb_name cur = tb_name t"
    using swapped_ready [OF ok seqs j t k(1)] unfolding r_def .
  define old where "old = t\<lparr>tb_next_field_id := max (tb_next_field_id t) (tb_next_field_id (jb_target j)),
      tb_segments := sort_segments (tb_segments t)\<rparr>"
  have last: "last_retired Swapped (tb_name t) (mf_retired k) = Some (length (mf_retired m))"
    using last_retired_append [of r Swapped "tb_name t" "[]" "mf_retired m"] by (simp add: s(7) r_def)
  have none: "filter (\<lambda>s. sg_id s \<notin> set (rt_successor_segments r)) (tb_segments cur) = []"
    "filter (\<lambda>x. ts_seq x > rt_version r) (tb_tombstones cur) = []"
    using s(4,5) by (auto simp: r_def filter_empty_conv)
  have live: "\<not> (\<exists>i \<in> set (rt_successor_segments r). \<not> has_segment i (tb_segments cur))"
    using s(5) by (auto simp: r_def has_segment_def)
  have insert: "insert_table old (as @ bs) = as @ old # bs" by (rule insert_table_back [OF s(8)]) (simp add: s(9) old_def)
  have "revert_table (tb_name t) (mf_version m + 2) now2 m1 =
    mret (m1\<lparr>mf_retired := mf_retired m @ [\<lparr>rt_entry = cur, rt_reason = Reverted, rt_retired_at_ms = now2, rt_version = mf_version m + 2,
      rt_successor_segments = []\<rparr>], mf_tables := as @ old # bs\<rparr>)"
    using last s(1,2,3,6,7) none live insert remove_at_split [of "mf_retired m" r "[]"]
    by (simp add: revert_table_def k(2) Let_def r_def old_def)
  note revert = this
  have "names_sorted (as @ old # bs)" by (rule names_sorted_replace [OF s(8)]) (simp add: s(9) old_def)
  then have found: "find (\<lambda>u. tb_name u = tb_name t) (as @ old # bs) = Some old"
    using find_sorted [of "as @ old # bs" old] by (simp add: old_def)
  show ?thesis
    using revert found k(2) unfolding old_def [symmetric] by (simp add: commit_apply_def mf_table_def)
qed

section \<open>Example histories\<close>

fun run_commits :: "edit list list \<Rightarrow> nat \<Rightarrow> manifest \<Rightarrow> manifest mf" where
  "run_commits [] now_ms m = mret m"
| "run_commits (es # ess) now_ms m = mbind (commit_apply es m now_ms) (run_commits ess now_ms)"

fun fresh_commits :: "edit list list \<Rightarrow> nat \<Rightarrow> manifest \<Rightarrow> bool" where
  "fresh_commits [] now_ms m = True"
| "fresh_commits (es # ess) now_ms m \<longleftrightarrow>
     fresh_edits es (mf_version m + 1) now_ms m \<and>
     (case commit_apply es m now_ms of Some (Inr m') \<Rightarrow> fresh_commits ess now_ms m' | _ \<Rightarrow> True)"

lemma run_commits_reachable:
  "reachable m \<Longrightarrow> fresh_commits ess now_ms m \<Longrightarrow> run_commits ess now_ms m = Some (Inr m') \<Longrightarrow> reachable m'"
proof (induction ess arbitrary: m)
  case (Cons es ess)
  from Cons.prems(3) obtain k where k: "commit_apply es m now_ms = Some (Inr k)" "run_commits ess now_ms k = Some (Inr m')" by auto
  with Cons.prems(2) have f: "fresh_edits es (mf_version m + 1) now_ms m" "fresh_commits ess now_ms k" by auto
  from Cons.IH [OF reachable_commit [OF Cons.prems(1) f(1) k(1)] f(2) k(2)] show ?case .
qed simp

definition ex_alter :: edit where
  "ex_alter = CreateJob ex_name [AddColumn \<lparr>fd_name = [98], fd_ty = TString\<rparr>]"

definition ex_spec2 :: table_spec where
  "ex_spec2 = ex_spec\<lparr>sp_columns := [\<lparr>fd_name = [115], fd_ty = TString\<rparr>]\<rparr>"

definition ex_job_commits :: "edit list list" where
  "ex_job_commits = [ex_edits, [ex_alter], [AddSegments ex_name [ex_segment 2]]]"

definition ex_reborn_commits :: "edit list list" where
  "ex_reborn_commits =
     [[CreateTable ex_spec], [ex_alter], [SwapJob 1], [DropTable ex_name], [CreateTable ex_spec2], [AddSegments ex_name [ex_segment 5]]]"

definition ex_run :: "edit list list \<Rightarrow> manifest" where
  "ex_run ess = (case run_commits ess 7 manifest_empty of Some (Inr m) \<Rightarrow> m | _ \<Rightarrow> manifest_empty)"

definition ex_jobs :: manifest where
  "ex_jobs = ex_run ex_job_commits"

definition ex_reborn :: manifest where
  "ex_reborn = ex_run ex_reborn_commits"

lemma ex_jobs_reachable: "reachable ex_jobs"
  by (rule run_commits_reachable [OF reachable_empty, of ex_job_commits 7]) code_simp+

lemma ex_reborn_reachable: "reachable ex_reborn"
  by (rule run_commits_reachable [OF reachable_empty, of ex_reborn_commits 7]) code_simp+

definition ex_ready :: manifest where
  "ex_ready = ex_run (ex_job_commits @ [[AdvanceJob 1 [1, 2] [] []]])"

definition ex_swapped :: manifest where
  "ex_swapped = ex_run (ex_job_commits @ [[AdvanceJob 1 [1, 2] [] []], [SwapJob 1]])"

lemma ex_ready_reachable: "reachable ex_ready"
  by (rule run_commits_reachable [OF reachable_empty, of "ex_job_commits @ [[AdvanceJob 1 [1, 2] [] []]]" 7]) code_simp+

theorem job_can_finish_witness:
  "\<exists>m' t'. commit_apply [AdvanceJob (jb_id (hd (mf_jobs ex_jobs))) [2] [1] [(ex_segment 9)\<lparr>sg_field_ids := [1, 2],
      sg_columns := [\<lparr>st_rows = 3, st_null_count = 3, st_min = None, st_max = None\<rparr>, \<lparr>st_rows = 3, st_null_count = 3, st_min = None, st_max = None\<rparr>]\<rparr>],
      SwapJob (jb_id (hd (mf_jobs ex_jobs)))] ex_jobs 8 = Some (Inr m') \<and>
    mf_job m' (jb_id (hd (mf_jobs ex_jobs))) = None \<and> mf_table m' (tb_name (hd (mf_tables ex_jobs))) = Some t' \<and>
    seg_ids t' = {2, 9}"
proof -
  have s: "seg_ids (jb_target (hd (mf_jobs ex_jobs))) = {}" by code_simp
  have "hd (mf_jobs ex_jobs) \<in> set (mf_jobs ex_jobs)" "hd (mf_tables ex_jobs) \<in> set (mf_tables ex_jobs)"
    "tb_id (hd (mf_tables ex_jobs)) = jb_source (hd (mf_jobs ex_jobs))"
    "set ([2] @ [1]) = seg_ids (hd (mf_tables ex_jobs)) - set (jb_handled (hd (mf_jobs ex_jobs)))"
    "validate_new_segments (map sf_id (tb_schema (jb_target (hd (mf_jobs ex_jobs))))) [(ex_segment 9)\<lparr>sg_field_ids := [1, 2],
      sg_columns := [\<lparr>st_rows = 3, st_null_count = 3, st_min = None, st_max = None\<rparr>, \<lparr>st_rows = 3, st_null_count = 3, st_min = None, st_max = None\<rparr>]\<rparr>] = Inr ()"
    by code_simp+
  from job_can_finish [OF ex_jobs_reachable this, of 8] show ?thesis
    by (auto simp: s ex_segment_def)
qed

theorem drop_undrop_witness:
  "\<exists>m1. commit_apply [DropTable ex_name] ex_manifest 8 = Some (Inr m1) \<and> mf_table m1 ex_name = None \<and>
    commit_apply [UndropTable ex_name] m1 9 = Some (Inr (ex_manifest\<lparr>mf_version := 3\<rparr>))"
proof -
  have "mf_table ex_manifest ex_name = Some (hd (mf_tables ex_manifest))" "job_for ex_manifest ex_name = None"
    "mf_version ex_manifest = 1" by code_simp+
  with drop_undrop [OF ex_reachable this(1,2), of 8 9] show ?thesis by (simp add: numeral_3_eq_3)
qed

theorem swap_revert_witness:
  "\<exists>m2 t. commit_apply [RevertTable ex_name] ex_swapped 9 = Some (Inr m2) \<and> mf_table m2 ex_name = Some t \<and>
    tb_id t = 1 \<and> tb_next_field_id t = 3 \<and> seg_ids t = {1, 2}"
proof -
  have "hd (mf_jobs ex_ready) \<in> set (mf_jobs ex_ready)" "hd (mf_tables ex_ready) \<in> set (mf_tables ex_ready)"
    "tb_id (hd (mf_tables ex_ready)) = jb_source (hd (mf_jobs ex_ready))"
    "commit_apply [SwapJob (jb_id (hd (mf_jobs ex_ready)))] ex_ready 7 = Some (Inr ex_swapped)"
    by code_simp+
  note revert = swap_revert [OF ex_ready_reachable this, of 9]
  have "tb_name (hd (mf_tables ex_ready)) = ex_name" "tb_id (hd (mf_tables ex_ready)) = 1"
    "tb_next_field_id (hd (mf_tables ex_ready)) = 2" "tb_next_field_id (jb_target (hd (mf_jobs ex_ready))) = 3"
    "seg_ids (hd (mf_tables ex_ready)) = {1, 2}" by code_simp+
  with revert show ?thesis by (auto simp: seg_ids_def)
qed

section \<open>Definitions and jobs\<close>

text \<open>
  C11. In every history the tables are listed in strict order of their names, so that a name
  means one table; table ids are used once, over live and retired tables and targets of jobs
  together; the field ids of a table are distinct and below its counter; a table has at most
  one job, and the source of every job is a live table of the name its target will take.
\<close>

theorem definitions_consistent:
  assumes "reachable m"
  shows "sorted_wrt (\<lambda>a b. tn_cmp (tb_name a) (tb_name b) = Less) (mf_tables m) \<and>
    distinct (map tb_id (mf_tables m) @ map (\<lambda>r. tb_id (rt_entry r)) (mf_retired m) @ map (\<lambda>j. tb_id (jb_target j)) (mf_jobs m)) \<and>
    (\<forall>t \<in> set (mf_tables m). distinct (map sf_id (tb_schema t)) \<and> (\<forall>f \<in> set (tb_schema t). sf_id f < tb_next_field_id t)) \<and>
    distinct (map jb_source (mf_jobs m)) \<and>
    (\<forall>j \<in> set (mf_jobs m). \<exists>t \<in> set (mf_tables m). tb_id t = jb_source j \<and> tb_name t = tb_name (jb_target j))"
  using store_safe.holds [OF assms]
  by (auto simp: store_ok_def names_sorted_def ids_ok_def tids_def entries_def entry_wf_def schema_ok_def jobs_ok_def job_ok_def)

theorem definitions_consistent_witness:
  "reachable ex_jobs \<and> length (mf_jobs ex_jobs) = 1 \<and>
   (\<exists>t \<in> set (mf_tables ex_jobs). tb_id t = jb_source (hd (mf_jobs ex_jobs)) \<and>
      tb_name t = tb_name (jb_target (hd (mf_jobs ex_jobs))))"
proof -
  have "length (mf_jobs ex_jobs) = 1" "hd (mf_jobs ex_jobs) \<in> set (mf_jobs ex_jobs)" by code_simp+
  with definitions_consistent [OF ex_jobs_reachable] ex_jobs_reachable show ?thesis by blast
qed

section \<open>Reverting across tables\<close>


end
