(* ===== verification/Manifest_Codec.thy ===== *)
theory Manifest_Codec
  imports Manifest_Commit Frames
begin

text \<open>
  The byte form of the manifest (\<open>src/storage/manifest/codec.rs\<close>): a header, five records and
  the trailer of the segment format. A writer gives \<open>None\<close> where the code panics; a reader
  takes everything from disk as untrusted. A 64-bit number of the manifest is a natural
  number here, written as \<open>word_of_nat\<close> and read as \<open>unat\<close>.
\<close>

section \<open>Schema\<close>

definition MANIFEST_MAGIC :: "byte list" where
  "MANIFEST_MAGIC = [65, 68, 76, 77, 65, 78]"

definition MANIFEST_VERSION :: "16 word" where
  "MANIFEST_VERSION = 1"

definition HEADER_LEN :: nat where
  "HEADER_LEN = 8"

definition check_component :: "rstr \<Rightarrow> unit crd" where
  "check_component s = check (is_path_component s) ''name is not a single path component''"

definition encode_header_fields :: "manifest \<Rightarrow> wr" where
  "encode_header_fields m = wseq [w_nat (mf_version m), w_nat (mf_next_segment_id m), w_nat (mf_next_table_id m)]"

definition decode_header_fields :: "(nat \<times> nat \<times> nat) crd" where
  "decode_header_fields = in_record (
     rbind r_nat (\<lambda>version. rbind r_nat (\<lambda>next_segment_id. rbind (or_empty 0 r_nat) (\<lambda>next_table_id.
       rret (version, next_segment_id, next_table_id)))))"

definition encode_schema :: "schema_field list \<Rightarrow> wr" where
  "encode_schema = wlist (\<lambda>f. wrecord (wseq
     [w_str (fd_name (sf_field f)), wt (encode_type (fd_ty (sf_field f))), w_nat (sf_id f)]))"

definition present_id :: "nat crd" where
  "present_id = rbind r_nat (\<lambda>raw. rbind (check (raw \<noteq> 0) ''field id is present but zero'') (\<lambda>_. rret raw))"

definition decode_schema :: "schema_field list crd" where
  "decode_schema = in_record (rlist 1 (in_record (
     rbind (cor cur_str) (\<lambda>name. rbind (cor decode_type) (\<lambda>ty. rbind (or_empty 0 present_id) (\<lambda>i.
       rret \<lparr>sf_id = i, sf_field = \<lparr>fd_name = name, fd_ty = ty\<rparr>\<rparr>))))))"

section \<open>Definitions\<close>

record definition_rec =
  df_id :: nat
  df_next_field_id :: nat
  df_key :: "nat list"
  df_version :: "nat option"
  df_order_by :: "nat list"
  df_partition_by :: "partition_by option"
  df_ttl :: "ttl option"
  df_options :: "(rstr \<times> rstr) list"

definition definition_absent :: definition_rec where
  "definition_absent = \<lparr>df_id = 0, df_next_field_id = 0, df_key = [], df_version = None, df_order_by = [],
     df_partition_by = None, df_ttl = None, df_options = []\<rparr>"

definition encode_field_id_list :: "nat list \<Rightarrow> wr" where
  "encode_field_id_list = wlist w_nat"

definition decode_field_id_list :: "nat list crd" where
  "decode_field_id_list = rlist 1 r_nat"

text \<open>A tag byte, then the value if there is one.\<close>

definition w_opt :: "('a \<Rightarrow> wr list) \<Rightarrow> 'a option \<Rightarrow> wr" where
  "w_opt w v = (case v of Some x \<Rightarrow> wseq (w_u8 1 # w x) | None \<Rightarrow> w_u8 0)"

definition r_opt :: "string \<Rightarrow> 'a crd \<Rightarrow> 'a option crd" where
  "r_opt bad r = rbind (cor cur_u8) (\<lambda>tag.
     if tag = 0 then rret None
     else if tag = 1 then rbind r (\<lambda>x. rret (Some x))
     else rerr (Corrupt bad))"

definition encode_definition :: "table_entry \<Rightarrow> wr" where
  "encode_definition t = wseq
     [w_nat (tb_id t), w_nat (tb_next_field_id t), encode_field_id_list (tb_key t),
      w_opt (\<lambda>i. [w_nat i]) (tb_version t), encode_field_id_list (tb_order_by t),
      w_opt (\<lambda>p. [w_nat (pb_column p), w_nat (pb_bucket p)]) (tb_partition_by t),
      w_opt (\<lambda>l. [w_nat (ttl_column l), w_nat (ttl_after l)]) (tb_ttl t),
      wlist (\<lambda>(k, v). wseq [w_str k, w_str v]) (tb_options t)]"

text \<open>\<open>BTreeMap::insert\<close> on the ordered list of entries.\<close>

fun options_insert :: "rstr \<Rightarrow> rstr \<Rightarrow> (rstr \<times> rstr) list \<Rightarrow> (rstr \<times> rstr) list" where
  "options_insert k v [] = [(k, v)]"
| "options_insert k v ((k', v') # kvs) =
     (case bytes_cmp k k' of
        Less \<Rightarrow> (k, v) # (k', v') # kvs
      | Equal \<Rightarrow> (k, v) # kvs
      | Greater \<Rightarrow> (k', v') # options_insert k v kvs)"

definition decode_definition :: "definition_rec crd" where
  "decode_definition = or_empty definition_absent (in_record (
     rbind r_nat (\<lambda>i. rbind (check (i \<noteq> 0) ''table id is present but zero'') (\<lambda>_.
     rbind r_nat (\<lambda>next_field_id.
     rbind decode_field_id_list (\<lambda>key.
     rbind (r_opt ''bad VERSION tag'' r_nat) (\<lambda>version.
     rbind decode_field_id_list (\<lambda>order_by.
     rbind (r_opt ''bad PARTITION BY tag''
         (rbind r_nat (\<lambda>c. rbind r_nat (\<lambda>b. rret \<lparr>pb_column = c, pb_bucket = b\<rparr>)))) (\<lambda>partition_by.
     rbind (r_opt ''bad TTL tag''
         (rbind r_nat (\<lambda>c. rbind r_nat (\<lambda>a. rret \<lparr>ttl_column = c, ttl_after = a\<rparr>)))) (\<lambda>ttl.
     rbind (rlist 2 (rbind (cor cur_str) (\<lambda>k. rbind (cor cur_str) (\<lambda>v. rret (k, v))))) (\<lambda>pairs.
       rret \<lparr>df_id = i, df_next_field_id = next_field_id, df_key = key, df_version = version, df_order_by = order_by,
         df_partition_by = partition_by, df_ttl = ttl,
         df_options = fold (\<lambda>(k, v). options_insert k v) pairs []\<rparr>)))))))))))"

definition named_ids :: "definition_rec \<Rightarrow> nat list" where
  "named_ids d = df_key d @ df_order_by d @ (case df_version d of None \<Rightarrow> [] | Some i \<Rightarrow> [i]) @
     (case df_partition_by d of None \<Rightarrow> [] | Some p \<Rightarrow> [pb_column p]) @ (case df_ttl d of None \<Rightarrow> [] | Some l \<Rightarrow> [ttl_column l])"

definition check_definition_ids :: "definition_rec \<Rightarrow> schema_field list \<Rightarrow> unit crd" where
  "check_definition_ids d schema =
     check (\<forall>i \<in> set (named_ids d). i \<in> sf_id ` set schema) ''table definition names unknown field id''"

section \<open>Segments\<close>

definition encode_columns :: "column_stats list \<Rightarrow> schema_field list \<Rightarrow> wr" where
  "encode_columns columns schema = wseq (w_nat (length columns) #
     map (\<lambda>(c, f). wrecord (wseq
       [w_nat (st_rows c), w_nat (st_null_count c),
        (case fd_ty (sf_field f) of TList _ \<Rightarrow> encode_opt None (fd_ty (sf_field f)) | ty \<Rightarrow> encode_opt (st_min c) ty),
        (case fd_ty (sf_field f) of TList _ \<Rightarrow> encode_opt None (fd_ty (sf_field f)) | ty \<Rightarrow> encode_opt (st_max c) ty)]))
      (zip columns schema))"

definition decode_column_stats :: "schema_field \<Rightarrow> column_stats crd" where
  "decode_column_stats f = in_record (
     rbind r_nat (\<lambda>rows. rbind r_nat (\<lambda>null_count.
     rbind (cor (decode_opt (fd_ty (sf_field f)))) (\<lambda>mn. rbind (cor (decode_opt (fd_ty (sf_field f)))) (\<lambda>mx.
       rret \<lparr>st_rows = rows, st_null_count = null_count, st_min = mn, st_max = mx\<rparr>)))))"

definition decode_columns :: "schema_field list \<Rightarrow> column_stats list crd" where
  "decode_columns schema = in_record (
     rbind (cor cur_uvarint) (\<lambda>n. rbind (cor (cur_guard_len n 1)) (\<lambda>n.
     rbind (check (n = length schema) ''segment column stats do not match schema'') (\<lambda>_.
       read_all (map decode_column_stats schema)))))"

definition encode_side_files :: "side_file list \<Rightarrow> wr" where
  "encode_side_files = wlist (\<lambda>sf. wrecord (wseq [w_nat (sd_kind sf), w_str (sd_path sf), wt (sink_u32 (sd_crc sf))]))"

definition decode_side_files :: "side_file list crd" where
  "decode_side_files = in_record (
     rbind (cor cur_uvarint) (\<lambda>n. rbind (cor (cur_guard_len n 1)) (\<lambda>n.
       if n = 0 then rret []
       else rbind (in_record (cor cur_uvarint)) (\<lambda>kind. rerr (UnknownSideFile kind)))))"

definition check_distinct_file_field_ids :: "nat list \<Rightarrow> unit crd" where
  "check_distinct_file_field_ids ids = check (distinct (filter (\<lambda>i. i \<noteq> 0) ids)) ''duplicate file field id in file_field_ids''"

definition encode_segment :: "segment_entry \<Rightarrow> schema_field list \<Rightarrow> wr" where
  "encode_segment s schema = wseq
     [w_nat (sg_id s), w_str (sg_partition s), w_nat (sg_seq s), w_nat (sg_rows s), w_nat (sg_bytes s),
      wt (sink_u32 (sg_footer_crc s)), wrecord (encode_columns (sg_columns s) schema),
      wrecord (encode_side_files (sg_side_files s)), w_str (sg_dir s),
      wrecord (encode_field_id_list (sg_field_ids s)), wrecord (encode_field_id_list (sg_file_field_ids s))]"

definition decode_dir :: "rstr crd" where
  "decode_dir = rbind (cor cur_str) (\<lambda>d.
     rbind (check (list_all is_path_component (split_on 47 d)) ''name is not a single path component'') (\<lambda>_. rret d))"

definition decode_segment :: "schema_field list \<Rightarrow> segment_entry crd" where
  "decode_segment schema = in_record (
     rbind r_nat (\<lambda>i. rbind (cor cur_str) (\<lambda>partition. rbind (check_component partition) (\<lambda>_.
     rbind r_nat (\<lambda>seq. rbind r_nat (\<lambda>rows. rbind r_nat (\<lambda>bytes. rbind (cor cur_u32) (\<lambda>footer_crc.
     rbind (decode_columns schema) (\<lambda>columns. rbind decode_side_files (\<lambda>side_files.
     rbind (or_empty [] decode_dir) (\<lambda>dir.
     rbind (or_empty [] (in_record decode_field_id_list)) (\<lambda>field_ids.
     rbind (or_empty [] (rbind (in_record decode_field_id_list) (\<lambda>ids.
         rbind (check_distinct_file_field_ids ids) (\<lambda>_. rret ids)))) (\<lambda>file_field_ids.
     rbind (check (field_ids = [] \<or> length field_ids = length columns) ''segment field ids do not match column stats'') (\<lambda>_.
       rret \<lparr>sg_id = i, sg_partition = partition, sg_seq = seq, sg_rows = rows, sg_bytes = bytes, sg_footer_crc = footer_crc,
         sg_columns = columns, sg_side_files = side_files, sg_dir = dir, sg_field_ids = field_ids,
         sg_file_field_ids = file_field_ids\<rparr>))))))))))))))"

definition encode_segments :: "segment_entry list \<Rightarrow> schema_field list \<Rightarrow> wr" where
  "encode_segments segs schema = wlist (\<lambda>s. wrecord (encode_segment s schema)) segs"

definition decode_segments :: "schema_field list \<Rightarrow> segment_entry list crd" where
  "decode_segments schema = in_record (rlist 1 (decode_segment schema))"

section \<open>Tombstones\<close>

definition cmp_op_id :: "cmp_op \<Rightarrow> byte" where
  "cmp_op_id op = (case op of Eq \<Rightarrow> 0 | Ne \<Rightarrow> 1 | Lt \<Rightarrow> 2 | Le \<Rightarrow> 3 | Gt \<Rightarrow> 4 | Ge \<Rightarrow> 5)"

definition cmp_op_from_id :: "byte \<Rightarrow> cmp_op option" where
  "cmp_op_from_id i = (if i = 0 then Some Eq else if i = 1 then Some Ne else if i = 2 then Some Lt
     else if i = 3 then Some Le else if i = 4 then Some Gt else if i = 5 then Some Ge else None)"

definition encode_predicate :: "predicate \<Rightarrow> schema_field list \<Rightarrow> wr" where
  "encode_predicate p schema =
     (case find_column schema (pr_column p) of
        None \<Rightarrow> wpanic
      | Some f \<Rightarrow> wseq [w_str (pr_column p), w_u8 (cmp_op_id (pr_op p)), encode_value (pr_value p) (fd_ty (sf_field f))])"

definition decode_predicate :: "schema_field list \<Rightarrow> predicate crd" where
  "decode_predicate schema = in_record (
     rbind (cor cur_str) (\<lambda>column. rbind (cor cur_u8) (\<lambda>op_byte.
     case cmp_op_from_id op_byte of
       None \<Rightarrow> rerr (Corrupt ''unknown comparison op'')
     | Some op \<Rightarrow>
         (case find_column schema column of
            None \<Rightarrow> rerr (Corrupt ''tombstone predicate names unknown column'')
          | Some f \<Rightarrow> rbind (cor (decode_value (fd_ty (sf_field f)))) (\<lambda>v.
              rret \<lparr>pr_column = column, pr_op = op, pr_value = v\<rparr>)))))"

definition encode_tombstone :: "tombstone \<Rightarrow> schema_field list \<Rightarrow> wr" where
  "encode_tombstone t schema =
     wseq [w_nat (ts_seq t), wlist (\<lambda>p. wrecord (encode_predicate p schema)) (ts_predicates t)]"

definition decode_tombstone :: "schema_field list \<Rightarrow> tombstone crd" where
  "decode_tombstone schema = in_record (
     rbind r_nat (\<lambda>seq. rbind (rlist 1 (decode_predicate schema)) (\<lambda>predicates.
       rret \<lparr>ts_seq = seq, ts_predicates = predicates\<rparr>)))"

definition encode_tombstones :: "tombstone list \<Rightarrow> schema_field list \<Rightarrow> wr" where
  "encode_tombstones ts schema = wlist (\<lambda>t. wrecord (encode_tombstone t schema)) ts"

definition decode_tombstones :: "schema_field list \<Rightarrow> tombstone list crd" where
  "decode_tombstones schema = in_record (rlist 1 (decode_tombstone schema))"

section \<open>Tables\<close>

definition encode_table_entry :: "table_entry \<Rightarrow> wr" where
  "encode_table_entry t = wseq
     [w_str (tn_db (tb_name t)), w_str (tn_name (tb_name t)), w_str (tb_engine t),
      wrecord (encode_schema (tb_schema t)), wrecord (encode_segments (tb_segments t) (tb_schema t)),
      wrecord (encode_tombstones (tb_tombstones t) (tb_schema t)), wrecord (encode_definition t)]"

definition decode_table_entry :: "table_entry crd" where
  "decode_table_entry = in_record (
     rbind (cor cur_str) (\<lambda>db. rbind (cor cur_str) (\<lambda>name. rbind (cor cur_str) (\<lambda>engine.
     rbind (check_component db) (\<lambda>_. rbind (check_component name) (\<lambda>_.
     rbind decode_schema (\<lambda>schema. rbind (decode_segments schema) (\<lambda>segments.
     rbind (decode_tombstones schema) (\<lambda>tombstones. rbind decode_definition (\<lambda>def.
     rbind (check_definition_ids def schema) (\<lambda>_.
       rret \<lparr>tb_id = df_id def, tb_name = \<lparr>tn_db = db, tn_name = name\<rparr>, tb_engine = engine, tb_schema = schema,
         tb_next_field_id = df_next_field_id def, tb_key = df_key def, tb_version = df_version def,
         tb_order_by = df_order_by def, tb_partition_by = df_partition_by def, tb_ttl = df_ttl def,
         tb_options = df_options def, tb_segments = segments, tb_tombstones = tombstones\<rparr>)))))))))))"

definition encode_tables :: "manifest \<Rightarrow> wr" where
  "encode_tables m = wlist (\<lambda>t. wrecord (encode_table_entry t)) (mf_tables m)"

definition decode_tables :: "table_entry list crd" where
  "decode_tables = in_record (rlist 1 decode_table_entry)"

section \<open>Garbage, jobs, retired entries, migrations\<close>

definition encode_garbage :: "manifest \<Rightarrow> wr" where
  "encode_garbage m = wlist (\<lambda>g. wrecord (wseq
     [w_str (tn_db (gb_table g)), w_str (tn_name (gb_table g)), w_nat (gb_removed_at_ms g),
      wrecord (encode_segment (gb_segment g) []), w_nat (gb_removed_at_version g)])) (mf_garbage m)"

definition decode_garbage :: "garbage list crd" where
  "decode_garbage = in_record (rlist 1 (in_record (
     rbind (cor cur_str) (\<lambda>db. rbind (cor cur_str) (\<lambda>name.
     rbind (check_component db) (\<lambda>_. rbind (check_component name) (\<lambda>_.
     rbind r_nat (\<lambda>ms. rbind (decode_segment []) (\<lambda>segment. rbind (or_empty 0 r_nat) (\<lambda>version.
       rret \<lparr>gb_table = \<lparr>tn_db = db, tn_name = name\<rparr>, gb_segment = segment, gb_removed_at_ms = ms,
         gb_removed_at_version = version\<rparr>))))))))))"

definition encode_u64_list :: "nat list \<Rightarrow> wr" where
  "encode_u64_list = wlist w_nat"

definition decode_u64_list :: "nat list crd" where
  "decode_u64_list = rlist 1 r_nat"

definition encode_job :: "job \<Rightarrow> wr" where
  "encode_job j = wseq
     [w_nat (jb_id j), w_nat (jb_source j), w_nat (jb_snapshot j), wrecord (encode_u64_list (jb_handled j)),
      w_nat (jb_reused j), w_nat (jb_rewritten j), wrecord (encode_table_entry (jb_target j))]"

definition decode_job :: "nat \<Rightarrow> job crd" where
  "decode_job next_job_id =
     rbind r_nat (\<lambda>i. rbind (check (i \<noteq> 0 \<and> i < next_job_id) ''job id is invalid'') (\<lambda>_.
     rbind r_nat (\<lambda>source. rbind r_nat (\<lambda>snapshot. rbind (in_record decode_u64_list) (\<lambda>handled.
     rbind r_nat (\<lambda>reused. rbind r_nat (\<lambda>rewritten. rbind decode_table_entry (\<lambda>target.
       rret \<lparr>jb_id = i, jb_source = source, jb_snapshot = snapshot, jb_target = target, jb_handled = handled,
         jb_reused = reused, jb_rewritten = rewritten\<rparr>))))))))"

definition retire_reason_id :: "retire_reason \<Rightarrow> byte" where
  "retire_reason_id r = (case r of Swapped \<Rightarrow> 0 | Reverted \<Rightarrow> 1 | Dropped \<Rightarrow> 2)"

definition retire_reason_from_id :: "byte \<Rightarrow> retire_reason option" where
  "retire_reason_from_id i = (if i = 0 then Some Swapped else if i = 1 then Some Reverted else if i = 2 then Some Dropped else None)"

definition encode_retired :: "retired \<Rightarrow> wr" where
  "encode_retired r = wseq
     [w_u8 (retire_reason_id (rt_reason r)), w_nat (rt_retired_at_ms r), w_nat (rt_version r),
      wrecord (encode_u64_list (rt_successor_segments r)), wrecord (encode_table_entry (rt_entry r))]"

definition decode_retired :: "retired crd" where
  "decode_retired = rbind (cor cur_u8) (\<lambda>reason_byte.
     case retire_reason_from_id reason_byte of
       None \<Rightarrow> rerr (Corrupt ''unknown retire reason'')
     | Some reason \<Rightarrow>
         rbind r_nat (\<lambda>ms. rbind r_nat (\<lambda>version. rbind (in_record decode_u64_list) (\<lambda>successors.
         rbind decode_table_entry (\<lambda>entry.
           rret \<lparr>rt_entry = entry, rt_reason = reason, rt_retired_at_ms = ms, rt_version = version,
             rt_successor_segments = successors\<rparr>)))))"

definition encode_lifecycle :: "manifest \<Rightarrow> wr" where
  "encode_lifecycle m = wseq
     [w_nat (mf_next_job_id m), wlist (\<lambda>j. wrecord (encode_job j)) (mf_jobs m),
      wlist (\<lambda>r. wrecord (encode_retired r)) (mf_retired m)]"

definition decode_lifecycle :: "(nat \<times> job list \<times> retired list) crd" where
  "decode_lifecycle = in_record (
     rbind r_nat (\<lambda>next_job_id. rbind (rlist 1 (in_record (decode_job next_job_id))) (\<lambda>jobs.
     rbind (rlist 1 (in_record decode_retired)) (\<lambda>retired. rret (next_job_id, jobs, retired)))))"

definition encode_migrations :: "manifest \<Rightarrow> wr" where
  "encode_migrations m = wlist (\<lambda>r. wrecord (wseq
     [w_str (mr_name r), wt (sink_u64 (mr_checksum r)), w_nat (mr_applied_at_ms r)])) (mf_migrations m)"

definition decode_migrations :: "migration_record list crd" where
  "decode_migrations = in_record (rlist 1 (in_record (
     rbind (cor cur_str) (\<lambda>name. rbind (cor cur_u64) (\<lambda>checksum. rbind r_nat (\<lambda>ms.
       rret \<lparr>mr_name = name, mr_checksum = checksum, mr_applied_at_ms = ms\<rparr>))))))"

section \<open>The manifest\<close>

definition encode_body :: "manifest \<Rightarrow> wr" where
  "encode_body m = wseq
     [wrecord (encode_header_fields m), wrecord (encode_tables m), wrecord (encode_garbage m),
      wrecord (encode_lifecycle m), wrecord (encode_migrations m)]"

definition decode_body :: "manifest crd" where
  "decode_body =
     rbind decode_header_fields (\<lambda>(version, next_segment_id, next_table_id).
     rbind decode_tables (\<lambda>tables. rbind decode_garbage (\<lambda>garbage.
     rbind (or_empty (1, [], []) decode_lifecycle) (\<lambda>(next_job_id, jobs, retired).
     rbind (or_empty [] decode_migrations) (\<lambda>migrations.
       rret \<lparr>mf_version = version, mf_next_segment_id = next_segment_id, mf_next_table_id = next_table_id,
         mf_tables = tables, mf_garbage = garbage, mf_next_job_id = next_job_id, mf_jobs = jobs, mf_retired = retired,
         mf_migrations = migrations\<rparr>)))))"

definition manifest_encode :: "manifest \<Rightarrow> byte list option" where
  "manifest_encode m =
     map_option (write_trailer (MANIFEST_MAGIC @ to_le_bytes MANIFEST_VERSION) MANIFEST_MAGIC) (encode_body m sink_new)"

fun trailer_err :: "trailer_error \<Rightarrow> codec_error" where
  "trailer_err BadMagic = Corrupt ''bad magic''"
| "trailer_err TrailerTruncated = Corrupt ''truncated''"
| "trailer_err CorruptFooter = Corrupt ''corrupt footer''"
| "trailer_err (TrailerVersion v) = UnsupportedVersion v"

definition manifest_decode :: "byte list \<Rightarrow> codec_error + manifest" where
  "manifest_decode bytes =
     (if length bytes < HEADER_LEN then Inl (Corrupt ''truncated header'')
      else if take 6 bytes \<noteq> MANIFEST_MAGIC then Inl (Corrupt ''bad magic'')
      else if (from_le_bytes (take 2 (drop 6 bytes)) :: 16 word) > MANIFEST_VERSION
        then Inl (UnsupportedVersion (from_le_bytes (take 2 (drop 6 bytes))))
      else case read_trailer bytes MANIFEST_MAGIC HEADER_LEN of
             Inl e \<Rightarrow> Inl (trailer_err e)
           | Inr (a, b) \<Rightarrow>
               (case decode_body (cur_new (take (b - a) (drop a bytes))) of
                  Inl e \<Rightarrow> Inl e
                | Inr (m, _) \<Rightarrow> Inr m))"

section \<open>Round trip\<close>

text \<open>What a manifest must satisfy to be written and read back.\<close>

abbreviation u64_ok :: "nat \<Rightarrow> bool" where
  "u64_ok n \<equiv> n < 2 ^ 64"

definition ids_codable :: "nat list \<Rightarrow> bool" where
  "ids_codable ids \<longleftrightarrow> length ids \<le> MAX_DECODE_ROWS \<and> (\<forall>i \<in> set ids. u64_ok i)"

definition field_codable :: "schema_field \<Rightarrow> bool" where
  "field_codable f \<longleftrightarrow> utf8_valid (fd_name (sf_field f)) \<and> type_ok (fd_ty (sf_field f)) \<and> sf_id f \<noteq> 0 \<and> u64_ok (sf_id f)"

definition schema_codable :: "schema_field list \<Rightarrow> bool" where
  "schema_codable schema \<longleftrightarrow> length schema \<le> MAX_DECODE_ROWS \<and> (\<forall>f \<in> set schema. field_codable f)"

definition stats_codable :: "column_stats \<Rightarrow> schema_field \<Rightarrow> bool" where
  "stats_codable c f \<longleftrightarrow> u64_ok (st_rows c) \<and> u64_ok (st_null_count c) \<and>
     bound_codable (fd_ty (sf_field f)) (st_min c) \<and> bound_codable (fd_ty (sf_field f)) (st_max c)"

definition segment_codable :: "schema_field list \<Rightarrow> segment_entry \<Rightarrow> bool" where
  "segment_codable schema s \<longleftrightarrow>
     u64_ok (sg_id s) \<and> utf8_valid (sg_partition s) \<and> is_path_component (sg_partition s) \<and>
     u64_ok (sg_seq s) \<and> u64_ok (sg_rows s) \<and> u64_ok (sg_bytes s) \<and>
     list_all2 stats_codable (sg_columns s) schema \<and> length schema \<le> MAX_DECODE_ROWS \<and> sg_side_files s = [] \<and>
     utf8_valid (sg_dir s) \<and> list_all is_path_component (split_on 47 (sg_dir s)) \<and>
     ids_codable (sg_field_ids s) \<and> ids_codable (sg_file_field_ids s) \<and>
     distinct (filter (\<lambda>i. i \<noteq> 0) (sg_file_field_ids s)) \<and>
     (sg_field_ids s = [] \<or> length (sg_field_ids s) = length (sg_columns s))"

definition predicate_codable :: "schema_field list \<Rightarrow> predicate \<Rightarrow> bool" where
  "predicate_codable schema p \<longleftrightarrow> utf8_valid (pr_column p) \<and>
     (case find_column schema (pr_column p) of None \<Rightarrow> False | Some f \<Rightarrow> storable (fd_ty (sf_field f)) (pr_value p))"

definition tombstone_codable :: "schema_field list \<Rightarrow> tombstone \<Rightarrow> bool" where
  "tombstone_codable schema t \<longleftrightarrow> u64_ok (ts_seq t) \<and> length (ts_predicates t) \<le> MAX_DECODE_ROWS \<and>
     (\<forall>p \<in> set (ts_predicates t). predicate_codable schema p)"

definition name_codable :: "table_name \<Rightarrow> bool" where
  "name_codable n \<longleftrightarrow> utf8_valid (tn_db n) \<and> utf8_valid (tn_name n) \<and> is_path_component (tn_db n) \<and> is_path_component (tn_name n)"

definition def_of :: "table_entry \<Rightarrow> definition_rec" where
  "def_of t = \<lparr>df_id = tb_id t, df_next_field_id = tb_next_field_id t, df_key = tb_key t, df_version = tb_version t,
     df_order_by = tb_order_by t, df_partition_by = tb_partition_by t, df_ttl = tb_ttl t, df_options = tb_options t\<rparr>"

definition definition_codable :: "definition_rec \<Rightarrow> schema_field list \<Rightarrow> bool" where
  "definition_codable d schema \<longleftrightarrow> df_id d \<noteq> 0 \<and> u64_ok (df_id d) \<and> u64_ok (df_next_field_id d) \<and>
     length (df_key d) \<le> MAX_DECODE_ROWS \<and> length (df_order_by d) \<le> MAX_DECODE_ROWS \<and>
     (\<forall>i \<in> set (named_ids d). i \<in> sf_id ` set schema) \<and>
     (case df_partition_by d of None \<Rightarrow> True | Some p \<Rightarrow> u64_ok (pb_bucket p)) \<and>
     (case df_ttl d of None \<Rightarrow> True | Some l \<Rightarrow> u64_ok (ttl_after l)) \<and>
     length (df_options d) \<le> MAX_DECODE_ROWS \<and> (\<forall>(k, v) \<in> set (df_options d). utf8_valid k \<and> utf8_valid v) \<and>
     sorted_wrt (\<lambda>a b. bytes_cmp (fst a) (fst b) = Less) (df_options d)"

definition table_codable :: "table_entry \<Rightarrow> bool" where
  "table_codable t \<longleftrightarrow> name_codable (tb_name t) \<and> utf8_valid (tb_engine t) \<and> schema_codable (tb_schema t) \<and>
     length (tb_segments t) \<le> MAX_DECODE_ROWS \<and> (\<forall>s \<in> set (tb_segments t). segment_codable (tb_schema t) s) \<and>
     length (tb_tombstones t) \<le> MAX_DECODE_ROWS \<and> (\<forall>x \<in> set (tb_tombstones t). tombstone_codable (tb_schema t) x) \<and>
     definition_codable (def_of t) (tb_schema t)"

definition garbage_codable :: "garbage \<Rightarrow> bool" where
  "garbage_codable g \<longleftrightarrow> name_codable (gb_table g) \<and> u64_ok (gb_removed_at_ms g) \<and> u64_ok (gb_removed_at_version g) \<and>
     segment_codable [] (gb_segment g)"

definition job_codable :: "nat \<Rightarrow> job \<Rightarrow> bool" where
  "job_codable next_job_id j \<longleftrightarrow> jb_id j \<noteq> 0 \<and> jb_id j < next_job_id \<and> u64_ok (jb_source j) \<and> u64_ok (jb_snapshot j) \<and>
     ids_codable (jb_handled j) \<and> u64_ok (jb_reused j) \<and> u64_ok (jb_rewritten j) \<and> table_codable (jb_target j)"

definition retired_codable :: "retired \<Rightarrow> bool" where
  "retired_codable r \<longleftrightarrow> u64_ok (rt_retired_at_ms r) \<and> u64_ok (rt_version r) \<and> ids_codable (rt_successor_segments r) \<and>
     table_codable (rt_entry r)"

definition manifest_codable :: "manifest \<Rightarrow> bool" where
  "manifest_codable m \<longleftrightarrow>
     u64_ok (mf_version m) \<and> u64_ok (mf_next_segment_id m) \<and> u64_ok (mf_next_table_id m) \<and> u64_ok (mf_next_job_id m) \<and>
     length (mf_tables m) \<le> MAX_DECODE_ROWS \<and> (\<forall>t \<in> set (mf_tables m). table_codable t) \<and>
     length (mf_garbage m) \<le> MAX_DECODE_ROWS \<and> (\<forall>g \<in> set (mf_garbage m). garbage_codable g) \<and>
     length (mf_jobs m) \<le> MAX_DECODE_ROWS \<and> (\<forall>j \<in> set (mf_jobs m). job_codable (mf_next_job_id m) j) \<and>
     length (mf_retired m) \<le> MAX_DECODE_ROWS \<and> (\<forall>r \<in> set (mf_retired m). retired_codable r) \<and>
     length (mf_migrations m) \<le> MAX_DECODE_ROWS \<and>
     (\<forall>r \<in> set (mf_migrations m). utf8_valid (mr_name r) \<and> u64_ok (mr_applied_at_ms r))"

text \<open>Steps through a record, field by field.\<close>

lemma codes_end_check: "b \<Longrightarrow> codes_end w (f ()) y \<Longrightarrow> codes_end w (rbind (check b d) f) y"
  by simp

lemma codes_check: "b \<Longrightarrow> codes n w (f ()) y \<Longrightarrow> codes n w (rbind (check b d) f) y"
  by simp

lemmas end_steps = codes_end_step [OF codes_nat] codes_end_step [OF codes_str] codes_end_step [OF codes_u8]
  codes_end_step [OF codes_u32] codes_end_step [OF codes_u64] codes_end_step [OF codes_type]
  codes_end_step [OF codes_or_empty [OF codes_nat]] codes_end_check codes_end_done

lemma codes_ids: "ids_codable ids \<Longrightarrow> codes 1 (encode_field_id_list ids) decode_field_id_list ids"
  unfolding encode_field_id_list_def decode_field_id_list_def
  by (rule codes_list, rule codes_nat) (auto simp: ids_codable_def)

lemma codes_u64_list: "ids_codable ids \<Longrightarrow> codes 1 (encode_u64_list ids) decode_u64_list ids"
  unfolding encode_u64_list_def decode_u64_list_def
  by (rule codes_list, rule codes_nat) (auto simp: ids_codable_def)

lemma codes_header:
  assumes "u64_ok (mf_version m)" "u64_ok (mf_next_segment_id m)" "u64_ok (mf_next_table_id m)"
  shows "codes 1 (wrecord (encode_header_fields m)) decode_header_fields (mf_version m, mf_next_segment_id m, mf_next_table_id m)"
  unfolding encode_header_fields_def decode_header_fields_def
  by (rule codes_record, intro end_steps) (use assms in simp_all)

lemma codes_present_id: "i \<noteq> 0 \<Longrightarrow> u64_ok i \<Longrightarrow> codes 1 (w_nat i) present_id i"
proof -
  assume i: "i \<noteq> 0" "u64_ok i"
  have "codes (1 + 0) (wseq [w_nat i]) present_id i"
    unfolding present_id_def by (intro codes_step [OF codes_nat] codes_check codes_done) (use i in simp_all)
  then show ?thesis by (simp only: wseq_single add_0_right)
qed

lemma codes_schema:
  assumes "schema_codable schema"
  shows "codes 1 (wrecord (encode_schema schema)) decode_schema schema"
  unfolding encode_schema_def decode_schema_def
proof (rule codes_record, rule codes_imp_end, rule codes_list)
  fix f assume "f \<in> set schema"
  then have f: "field_codable f" using assms by (simp add: schema_codable_def)
  show "codes 1 (wrecord (wseq [w_str (fd_name (sf_field f)), wt (encode_type (fd_ty (sf_field f))), w_nat (sf_id f)]))
    (in_record (rbind (cor cur_str) (\<lambda>name. rbind (cor decode_type) (\<lambda>ty. rbind (or_empty 0 present_id) (\<lambda>i.
       rret \<lparr>sf_id = i, sf_field = \<lparr>fd_name = name, fd_ty = ty\<rparr>\<rparr>))))) f"
    by (rule codes_record, intro end_steps codes_end_step [OF codes_or_empty [OF codes_present_id]])
      (use f in \<open>simp_all add: field_codable_def\<close>)
qed (use assms in \<open>simp_all add: schema_codable_def\<close>)

lemma codes_seq_end:
  assumes "codes n (wseq ws) r x"
  shows "codes n (wseq ws) (rbind r (\<lambda>x. rret (f x))) (f x)"
  by (rule codes_map [OF assms])

lemma codes_opt:
  assumes "\<And>x. v = Some x \<Longrightarrow> codes n (wseq (w x)) r x"
  shows "codes 1 (w_opt w v) (r_opt bad r) v"
proof (cases v)
  case None
  have "codes (1 + 0) (wseq [w_u8 0]) (r_opt bad r) v"
    unfolding r_opt_def by (rule codes_step [OF codes_u8]) (use None in \<open>simp add: codes_done del: wseq.simps\<close>)
  moreover have "wseq [w_u8 0] = w_opt w v" by (rule ext) (simp add: wseq_Nil w_opt_def None)
  ultimately show ?thesis by simp
next
  case (Some x)
  have "codes (1 + n) (wseq (w_u8 1 # w x)) (r_opt bad r) v"
    unfolding r_opt_def
    by (rule codes_step [OF codes_u8]) (use Some codes_seq_end [OF assms [OF Some], of Some] in \<open>simp del: wseq.simps\<close>)
  then show ?thesis using codes_weaken [of "1 + n" _ _ _ 1] by (simp add: w_opt_def Some del: wseq.simps)
qed

lemma options_insert_last:
  "\<forall>a \<in> set kvs. bytes_cmp (fst a) k = Less \<Longrightarrow> options_insert k v kvs = kvs @ [(k, v)]"
proof (induction kvs)
  case (Cons a kvs)
  then have "bytes_cmp (fst a) k = Less" by simp
  then have "bytes_cmp k (fst a) = Greater" using bytes_order.greater_iff [of k "fst a"] by simp
  with Cons show ?case by (cases a) simp
qed simp

lemma fold_options_insert:
  "sorted_wrt (\<lambda>a b. bytes_cmp (fst a) (fst b) = Less) (acc @ kvs) \<Longrightarrow> fold (\<lambda>(k, v). options_insert k v) kvs acc = acc @ kvs"
proof (induction kvs arbitrary: acc)
  case (Cons a kvs)
  then have "\<forall>b \<in> set acc. bytes_cmp (fst b) (fst a) = Less" by (simp add: sorted_wrt_append)
  then have "options_insert (fst a) (snd a) acc = acc @ [a]" using options_insert_last [of acc "fst a" "snd a"] by simp
  with Cons.IH [of "acc @ [a]"] Cons.prems show ?case by (simp add: case_prod_unfold)
qed simp

lemma codes_pair:
  assumes "utf8_valid k" "utf8_valid v"
  shows "codes 2 (wseq [w_str k, w_str v]) (rbind (cor cur_str) (\<lambda>k. rbind (cor cur_str) (\<lambda>v. rret (k, v)))) (k, v)"
  by (rule codes_weaken [of "1 + (1 + 0)"], intro codes_step [OF codes_str] codes_done) (use assms in simp_all)

lemma codes_two_nats:
  assumes "u64_ok a" "u64_ok b"
  shows "codes 2 (wseq [w_nat a, w_nat b]) (rbind r_nat (\<lambda>x. rbind r_nat (\<lambda>y. rret (f x y)))) (f a b)"
  by (rule codes_weaken [of "1 + (1 + 0)"], intro codes_step [OF codes_nat] codes_done) (use assms in simp_all)

lemma named_small:
  assumes "definition_codable d schema" "schema_codable schema" "i \<in> set (named_ids d)"
  shows "u64_ok i"
  using assms by (auto simp: definition_codable_def schema_codable_def field_codable_def)

lemma codes_definition:
  assumes d: "definition_codable (def_of t) (tb_schema t)" and schema: "schema_codable (tb_schema t)"
  shows "codes 1 (wrecord (encode_definition t)) decode_definition (def_of t)"
proof -
  note small = named_small [OF d schema]
  have key: "ids_codable (tb_key t)" and order: "ids_codable (tb_order_by t)"
    using d small by (auto simp: ids_codable_def definition_codable_def def_of_def named_ids_def)
  have version: "codes 1 (w_opt (\<lambda>i. [w_nat i]) (tb_version t)) (r_opt bad r_nat) (tb_version t)" for bad
  proof (rule codes_opt [of _ 1])
    fix i assume "tb_version t = Some i"
    then have "u64_ok i" using small [of i] by (simp add: named_ids_def def_of_def)
    from codes_nat [OF this] show "codes 1 (wseq [w_nat i]) r_nat i" by (simp only: wseq_single)
  qed
  have part: "codes 1 (w_opt (\<lambda>p. [w_nat (pb_column p), w_nat (pb_bucket p)]) (tb_partition_by t))
    (r_opt bad (rbind r_nat (\<lambda>c. rbind r_nat (\<lambda>b. rret \<lparr>pb_column = c, pb_bucket = b\<rparr>)))) (tb_partition_by t)" for bad
  proof (rule codes_opt [of _ 2])
    fix p assume p: "tb_partition_by t = Some p"
    have "u64_ok (pb_column p)" "u64_ok (pb_bucket p)"
      using p small [of "pb_column p"] d by (simp_all add: named_ids_def def_of_def definition_codable_def)
    from codes_two_nats [OF this, of "\<lambda>c b. \<lparr>pb_column = c, pb_bucket = b\<rparr>"]
    show "codes 2 (wseq [w_nat (pb_column p), w_nat (pb_bucket p)])
      (rbind r_nat (\<lambda>c. rbind r_nat (\<lambda>b. rret \<lparr>pb_column = c, pb_bucket = b\<rparr>))) p" by (cases p) (simp del: wseq.simps)
  qed
  have ttl: "codes 1 (w_opt (\<lambda>l. [w_nat (ttl_column l), w_nat (ttl_after l)]) (tb_ttl t))
    (r_opt bad (rbind r_nat (\<lambda>c. rbind r_nat (\<lambda>a. rret \<lparr>ttl_column = c, ttl_after = a\<rparr>)))) (tb_ttl t)" for bad
  proof (rule codes_opt [of _ 2])
    fix l assume l: "tb_ttl t = Some l"
    have "u64_ok (ttl_column l)" "u64_ok (ttl_after l)"
      using l small [of "ttl_column l"] d by (simp_all add: named_ids_def def_of_def definition_codable_def)
    from codes_two_nats [OF this, of "\<lambda>c a. \<lparr>ttl_column = c, ttl_after = a\<rparr>"]
    show "codes 2 (wseq [w_nat (ttl_column l), w_nat (ttl_after l)])
      (rbind r_nat (\<lambda>c. rbind r_nat (\<lambda>a. rret \<lparr>ttl_column = c, ttl_after = a\<rparr>))) l" by (cases l) (simp del: wseq.simps)
  qed
  have options: "codes 1 (wlist (\<lambda>(k, v). wseq [w_str k, w_str v]) (tb_options t))
    (rlist 2 (rbind (cor cur_str) (\<lambda>k. rbind (cor cur_str) (\<lambda>v. rret (k, v))))) (tb_options t)"
  proof (rule codes_list)
    fix x assume "x \<in> set (tb_options t)"
    with d have "utf8_valid (fst x)" "utf8_valid (snd x)" by (auto simp: definition_codable_def def_of_def)
    from codes_pair [OF this] show "codes 2 (case x of (k, v) \<Rightarrow> wseq [w_str k, w_str v])
      (rbind (cor cur_str) (\<lambda>k. rbind (cor cur_str) (\<lambda>v. rret (k, v)))) x" by (cases x) (simp del: wseq.simps)
  qed (use d in \<open>simp_all add: definition_codable_def def_of_def\<close>)
  have "fold (\<lambda>(k, v). options_insert k v) (tb_options t) [] = tb_options t"
    using fold_options_insert [of "[]" "tb_options t"] d by (simp add: definition_codable_def def_of_def)
  then show ?thesis
    unfolding encode_definition_def decode_definition_def
    by (intro codes_or_empty codes_record end_steps codes_end_step [OF codes_ids] codes_end_step [OF version]
        codes_end_step [OF part] codes_end_step [OF ttl] codes_end_step [OF options])
      (use d key order in \<open>simp_all add: definition_codable_def def_of_def\<close>)
qed

lemma codes_bound:
  assumes "bound_codable ty v"
  shows "codes 1 (case ty of TList _ \<Rightarrow> encode_opt None ty | ty \<Rightarrow> encode_opt v ty) (cor (decode_opt ty)) v"
proof -
  have "v = None" if "ty = TList e" for e
    using assms that by (auto simp: bound_codable_def storable_def split: option.splits)
  with codes_opt_value [OF assms] show ?thesis by (cases ty) auto
qed

lemma codes_column_stats:
  assumes "stats_codable c f"
  shows "codes 1 (wrecord (wseq [w_nat (st_rows c), w_nat (st_null_count c),
      (case fd_ty (sf_field f) of TList _ \<Rightarrow> encode_opt None (fd_ty (sf_field f)) | ty \<Rightarrow> encode_opt (st_min c) ty),
      (case fd_ty (sf_field f) of TList _ \<Rightarrow> encode_opt None (fd_ty (sf_field f)) | ty \<Rightarrow> encode_opt (st_max c) ty)]))
    (decode_column_stats f) c"
  unfolding decode_column_stats_def
  by (intro codes_record end_steps codes_end_step [OF codes_bound]) (use assms in \<open>simp_all add: stats_codable_def\<close>)

lemma codes_columns:
  assumes "list_all2 stats_codable columns schema" "length schema \<le> MAX_DECODE_ROWS"
  shows "codes 1 (wrecord (encode_columns columns schema)) (decode_columns schema) columns"
  unfolding encode_columns_def decode_columns_def
proof (rule codes_record, rule codes_imp_end, rule codes_counted)
  have len: "length columns = length schema" by (rule list_all2_lengthD [OF assms(1)])
  let ?w = "\<lambda>(c, f). wrecord (wseq [w_nat (st_rows c), w_nat (st_null_count c),
      (case fd_ty (sf_field f) of TList _ \<Rightarrow> encode_opt None (fd_ty (sf_field f)) | ty \<Rightarrow> encode_opt (st_min c) ty),
      (case fd_ty (sf_field f) of TList _ \<Rightarrow> encode_opt None (fd_ty (sf_field f)) | ty \<Rightarrow> encode_opt (st_max c) ty)])"
  have "codes (1 * length columns) (wseq (map ?w (zip columns schema))) (read_all (map decode_column_stats schema)) columns"
    by (rule codes_read_all)
      (use len list_all2_nthD [OF assms(1)] codes_column_stats in \<open>auto simp: list_all2_conv_all_nth\<close>)
  then show "codes (1 * length columns) (wseq (map ?w (zip columns schema)))
    (rbind (check (length columns = length schema) ''segment column stats do not match schema'')
      (\<lambda>_. read_all (map decode_column_stats schema))) columns" using len by (simp del: wseq.simps)
  show "length columns \<le> MAX_DECODE_ROWS" using len assms(2) by simp
qed simp

lemma codes_side_files: "ss = [] \<Longrightarrow> codes 1 (wrecord (encode_side_files ss)) decode_side_files ss"
  unfolding encode_side_files_def decode_side_files_def wlist_def
  by (rule codes_record, rule codes_imp_end, simp only: list.map list.size, rule codes_counted)
    (simp_all add: codes_done del: wseq.simps)

lemma codes_dir:
  assumes "utf8_valid d" "list_all is_path_component (split_on 47 d)"
  shows "codes 1 (w_str d) decode_dir d"
proof -
  have "codes (1 + 0) (wseq [w_str d]) decode_dir d"
    unfolding decode_dir_def by (intro codes_step [OF codes_str] codes_check codes_done) (use assms in simp_all)
  then show ?thesis by (simp only: wseq_single add_0_right)
qed

lemma codes_file_ids:
  assumes "ids_codable ids" "distinct (filter (\<lambda>i. i \<noteq> 0) ids)"
  shows "codes 1 (wrecord (encode_field_id_list ids)) (rbind (in_record decode_field_id_list) (\<lambda>ids.
    rbind (check_distinct_file_field_ids ids) (\<lambda>_. rret ids))) ids"
proof -
  have "codes (1 + 0) (wseq [wrecord (encode_field_id_list ids)]) (rbind (in_record decode_field_id_list) (\<lambda>ids.
    rbind (check_distinct_file_field_ids ids) (\<lambda>_. rret ids))) ids"
    unfolding check_distinct_file_field_ids_def
    by (intro codes_step [OF codes_record [OF codes_imp_end [OF codes_ids]]] codes_check codes_done) (use assms in simp_all)
  then show ?thesis by (simp only: wseq_single add_0_right)
qed

lemma codes_segment:
  assumes "segment_codable schema s"
  shows "codes 1 (wrecord (encode_segment s schema)) (decode_segment schema) s"
  unfolding encode_segment_def decode_segment_def check_component_def
  by (intro codes_record end_steps codes_end_step [OF codes_columns] codes_end_step [OF codes_side_files]
      codes_end_step [OF codes_or_empty [OF codes_dir]] codes_end_step [OF codes_or_empty [OF codes_record [OF codes_imp_end [OF codes_ids]]]]
      codes_end_step [OF codes_or_empty [OF codes_file_ids]])
    (use assms in \<open>simp_all add: segment_codable_def list_all2_lengthD\<close>)

lemma codes_segments:
  assumes "length ss \<le> MAX_DECODE_ROWS" "\<forall>s \<in> set ss. segment_codable schema s"
  shows "codes 1 (wrecord (encode_segments ss schema)) (decode_segments schema) ss"
  unfolding encode_segments_def decode_segments_def
  by (rule codes_record, rule codes_imp_end, rule codes_list, rule codes_segment) (use assms in simp_all)

lemma cmp_op_ids [simp]: "cmp_op_from_id (cmp_op_id op) = Some op"
  by (cases op) (simp_all add: cmp_op_id_def cmp_op_from_id_def)

lemma codes_value: "storable ty v \<Longrightarrow> codes 0 (encode_value v ty) (cor (decode_value ty)) v"
  using encode_value_reads [of ty v] unfolding codes_def by (auto intro: reads_cor)

lemma codes_predicate:
  assumes "predicate_codable schema p"
  shows "codes 1 (wrecord (encode_predicate p schema)) (decode_predicate schema) p"
proof -
  from assms obtain f where f: "find_column schema (pr_column p) = Some f" "storable (fd_ty (sf_field f)) (pr_value p)"
    "utf8_valid (pr_column p)" by (auto simp: predicate_codable_def split: option.splits)
  have "codes_end (wseq [encode_value (pr_value p) (fd_ty (sf_field f))])
    (rbind (cor (decode_value (fd_ty (sf_field f)))) (\<lambda>v. rret \<lparr>pr_column = pr_column p, pr_op = pr_op p, pr_value = v\<rparr>)) p"
    by (intro codes_end_step [OF codes_value] codes_end_done f(2)) simp
  then have "codes_end (wseq [w_str (pr_column p), w_u8 (cmp_op_id (pr_op p)), encode_value (pr_value p) (fd_ty (sf_field f))])
    (rbind (cor cur_str) (\<lambda>column. rbind (cor cur_u8) (\<lambda>op_byte.
     case cmp_op_from_id op_byte of
       None \<Rightarrow> rerr (Corrupt ''unknown comparison op'')
     | Some op \<Rightarrow>
         (case find_column schema column of
            None \<Rightarrow> rerr (Corrupt ''tombstone predicate names unknown column'')
          | Some f \<Rightarrow> rbind (cor (decode_value (fd_ty (sf_field f)))) (\<lambda>v.
              rret \<lparr>pr_column = column, pr_op = op, pr_value = v\<rparr>))))) p"
    by (intro codes_end_step [OF codes_str] codes_end_step [OF codes_u8]) (use f in \<open>simp_all del: wseq.simps\<close>)
  then show ?thesis unfolding encode_predicate_def decode_predicate_def using f(1) by (intro codes_record) (simp del: wseq.simps)
qed

lemma codes_predicates:
  assumes "length ps \<le> MAX_DECODE_ROWS" "\<forall>p \<in> set ps. predicate_codable schema p"
  shows "codes 1 (wlist (\<lambda>p. wrecord (encode_predicate p schema)) ps) (rlist 1 (decode_predicate schema)) ps"
  by (rule codes_list, rule codes_predicate) (use assms in simp_all)

lemma codes_tombstone:
  assumes "tombstone_codable schema t"
  shows "codes 1 (wrecord (encode_tombstone t schema)) (decode_tombstone schema) t"
  unfolding encode_tombstone_def decode_tombstone_def
  by (intro codes_record end_steps codes_end_step [OF codes_predicates]) (use assms in \<open>simp_all add: tombstone_codable_def\<close>)

lemma codes_tombstones:
  assumes "length ts \<le> MAX_DECODE_ROWS" "\<forall>t \<in> set ts. tombstone_codable schema t"
  shows "codes 1 (wrecord (encode_tombstones ts schema)) (decode_tombstones schema) ts"
  unfolding encode_tombstones_def decode_tombstones_def
  by (rule codes_record, rule codes_imp_end, rule codes_list, rule codes_tombstone) (use assms in simp_all)

lemma codes_table_entry:
  assumes "table_codable t"
  shows "codes 1 (wrecord (encode_table_entry t)) decode_table_entry t"
  unfolding encode_table_entry_def decode_table_entry_def check_component_def check_definition_ids_def
  by (intro codes_record end_steps codes_end_step [OF codes_schema] codes_end_step [OF codes_segments]
      codes_end_step [OF codes_tombstones] codes_end_step [OF codes_definition])
    (use assms in \<open>simp_all add: table_codable_def name_codable_def definition_codable_def\<close>, simp_all add: def_of_def)

lemma codes_garbage:
  assumes "length (mf_garbage m) \<le> MAX_DECODE_ROWS" "\<forall>g \<in> set (mf_garbage m). garbage_codable g"
  shows "codes 1 (wrecord (encode_garbage m)) decode_garbage (mf_garbage m)"
  unfolding encode_garbage_def decode_garbage_def check_component_def
proof (rule codes_record, rule codes_imp_end, rule codes_list)
  fix g assume "g \<in> set (mf_garbage m)"
  then have "garbage_codable g" using assms(2) by simp
  then show "codes 1 (wrecord (wseq [w_str (tn_db (gb_table g)), w_str (tn_name (gb_table g)), w_nat (gb_removed_at_ms g),
      wrecord (encode_segment (gb_segment g) []), w_nat (gb_removed_at_version g)]))
    (in_record (rbind (cor cur_str) (\<lambda>db. rbind (cor cur_str) (\<lambda>name.
      rbind (check (is_path_component db) ''name is not a single path component'') (\<lambda>_.
      rbind (check (is_path_component name) ''name is not a single path component'') (\<lambda>_.
      rbind r_nat (\<lambda>ms. rbind (decode_segment []) (\<lambda>segment. rbind (or_empty 0 r_nat) (\<lambda>version.
        rret \<lparr>gb_table = \<lparr>tn_db = db, tn_name = name\<rparr>, gb_segment = segment, gb_removed_at_ms = ms,
          gb_removed_at_version = version\<rparr>))))))))) g"
    by (intro codes_record end_steps codes_end_step [OF codes_segment]) (simp_all add: garbage_codable_def name_codable_def)
qed (use assms in simp_all)

lemma retire_reason_ids [simp]: "retire_reason_from_id (retire_reason_id r) = Some r"
  by (cases r) (simp_all add: retire_reason_id_def retire_reason_from_id_def)

lemma codes_job:
  assumes "job_codable n j" "u64_ok n"
  shows "codes 1 (wrecord (encode_job j)) (in_record (decode_job n)) j"
  unfolding encode_job_def decode_job_def
  by (intro codes_record end_steps codes_end_step [OF codes_record [OF codes_imp_end [OF codes_u64_list]]] codes_end_step [OF codes_table_entry])
    (use assms in \<open>simp_all add: job_codable_def\<close>)

lemma codes_retired:
  assumes "retired_codable r"
  shows "codes 1 (wrecord (encode_retired r)) (in_record decode_retired) r"
  unfolding encode_retired_def decode_retired_def
  by (rule codes_record, rule codes_end_step [OF codes_u8], simp only: retire_reason_ids option.case,
      intro end_steps codes_end_step [OF codes_record [OF codes_imp_end [OF codes_u64_list]]] codes_end_step [OF codes_table_entry])
    (use assms in \<open>simp_all add: retired_codable_def\<close>)

lemma codes_jobs:
  assumes "length js \<le> MAX_DECODE_ROWS" "\<forall>j \<in> set js. job_codable n j" "u64_ok n"
  shows "codes 1 (wlist (\<lambda>j. wrecord (encode_job j)) js) (rlist 1 (in_record (decode_job n))) js"
  by (rule codes_list, rule codes_job) (use assms in simp_all)

lemma codes_retireds:
  assumes "length rs \<le> MAX_DECODE_ROWS" "\<forall>r \<in> set rs. retired_codable r"
  shows "codes 1 (wlist (\<lambda>r. wrecord (encode_retired r)) rs) (rlist 1 (in_record decode_retired)) rs"
  by (rule codes_list, rule codes_retired) (use assms in simp_all)

lemma codes_lifecycle:
  assumes "manifest_codable m"
  shows "codes 1 (wrecord (encode_lifecycle m)) decode_lifecycle (mf_next_job_id m, mf_jobs m, mf_retired m)"
  unfolding encode_lifecycle_def decode_lifecycle_def
  by (intro codes_record end_steps codes_end_step [OF codes_jobs] codes_end_step [OF codes_retireds])
    (use assms in \<open>simp_all add: manifest_codable_def\<close>)

lemma codes_migrations:
  assumes "length (mf_migrations m) \<le> MAX_DECODE_ROWS" "\<forall>r \<in> set (mf_migrations m). utf8_valid (mr_name r) \<and> u64_ok (mr_applied_at_ms r)"
  shows "codes 1 (wrecord (encode_migrations m)) decode_migrations (mf_migrations m)"
  unfolding encode_migrations_def decode_migrations_def
proof (rule codes_record, rule codes_imp_end, rule codes_list)
  fix r assume "r \<in> set (mf_migrations m)"
  then have "utf8_valid (mr_name r)" "u64_ok (mr_applied_at_ms r)" using assms(2) by simp_all
  then show "codes 1 (wrecord (wseq [w_str (mr_name r), wt (sink_u64 (mr_checksum r)), w_nat (mr_applied_at_ms r)]))
    (in_record (rbind (cor cur_str) (\<lambda>name. rbind (cor cur_u64) (\<lambda>checksum. rbind r_nat (\<lambda>ms.
       rret \<lparr>mr_name = name, mr_checksum = checksum, mr_applied_at_ms = ms\<rparr>))))) r"
    by (intro codes_record end_steps) simp_all
qed (use assms in simp_all)

lemma codes_tables:
  assumes "length (mf_tables m) \<le> MAX_DECODE_ROWS" "\<forall>t \<in> set (mf_tables m). table_codable t"
  shows "codes 1 (wrecord (encode_tables m)) decode_tables (mf_tables m)"
  unfolding encode_tables_def decode_tables_def
  by (rule codes_record, rule codes_imp_end, rule codes_list, rule codes_table_entry) (use assms in simp_all)

lemma codes_end_step3:
  assumes "codes n w r (a, b, c)" "codes_end (wseq ws) (f a b c) y"
  shows "codes_end (wseq (w # ws)) (rbind r (\<lambda>(a, b, c). f a b c)) y"
  by (rule codes_end_step [OF assms(1)]) (use assms(2) in simp)

lemma codes_body:
  assumes "manifest_codable m"
  shows "codes_end (encode_body m) decode_body m"
  unfolding encode_body_def decode_body_def
  by (intro codes_end_step3 [OF codes_header] codes_end_step [OF codes_tables] codes_end_step [OF codes_garbage]
      codes_end_step3 [OF codes_or_empty [OF codes_lifecycle]] codes_end_step [OF codes_or_empty [OF codes_migrations]] codes_end_done)
    (use assms in \<open>simp_all add: manifest_codable_def\<close>)

lemma manifest_read_back:
  assumes "manifest_codable m"
  shows "\<exists>bytes. manifest_encode m = Some bytes \<and> (length bytes < 2 ^ 32 \<longrightarrow> manifest_decode bytes = Inr m)"
proof -
  from codes_body [OF assms] obtain b where b: "\<And>s. encode_body m s = Some (s @ b)"
    "length b < 2 ^ 64 \<longrightarrow> reads_end decode_body b m" by (auto simp: codes_end_def)
  let ?h = "MANIFEST_MAGIC @ to_le_bytes MANIFEST_VERSION"
  let ?bs = "write_trailer ?h MANIFEST_MAGIC b"
  have enc: "manifest_encode m = Some ?bs" using b(1) [of "[]"] by (simp add: manifest_encode_def sink_new_def)
  have "manifest_decode ?bs = Inr m" if "length ?bs < 2 ^ 32"
  proof -
    have len: "length b < 2 ^ 32" using that by (simp add: write_trailer_def)
    then have "length b < 2 ^ 64" by simp
    with b(2) have "reads_end decode_body b m" by blast
    from reads_end_new [OF this] obtain c where c: "decode_body (cur_new b) = Inr (m, c)" ..
    have h: "length ?h = 8" "length MANIFEST_MAGIC = 6" by (simp_all add: MANIFEST_MAGIC_def)
    have t: "read_trailer ?bs MANIFEST_MAGIC HEADER_LEN = Inr (8, 8 + length b)"
      using read_write_trailer [OF h(2) len, of ?h] h(1) by (simp add: HEADER_LEN_def)
    have v: "take 6 ?bs = MANIFEST_MAGIC" "take 2 (drop 6 ?bs) = to_le_bytes MANIFEST_VERSION"
      "take (length b) (drop 8 ?bs) = b" using h by (simp_all add: write_trailer_def)
    have "\<not> length ?bs < HEADER_LEN" using h(1) by (simp add: write_trailer_def HEADER_LEN_def)
    moreover have "(from_le_bytes (to_le_bytes MANIFEST_VERSION) :: 16 word) = MANIFEST_VERSION" by (simp add: from_to_le_bytes)
    ultimately show ?thesis unfolding manifest_decode_def t v(1,2) using v(3) c by simp
  qed
  with enc show ?thesis by blast
qed

lemma manifest_encode_length:
  "manifest_encode m = Some bytes \<Longrightarrow> \<exists>b. encode_body m sink_new = Some b \<and> length bytes = length b + 24"
  by (auto simp: manifest_encode_def write_trailer_def MANIFEST_MAGIC_def)

lemma storable_code [code]:
  "storable ty v \<longleftrightarrow> type_ok ty \<and> has_type ty v \<and> (case ty of TList _ \<Rightarrow> False | _ \<Rightarrow> True) \<and>
     (case v of VString s \<Rightarrow> length s < 2 ^ 64 | VBytes b \<Rightarrow> length b < 2 ^ 64 | _ \<Rightarrow> True)"
  by (cases ty) (auto simp: storable_def)

lemma type_ok_code [code]:
  "type_ok ty \<longleftrightarrow> (case ty of
      TDecimal dt \<Rightarrow> 0 < dt_precision dt \<and> dt_precision dt \<le> 38 \<and> dt_scale dt \<le> dt_precision dt
    | TList elem \<Rightarrow> \<not> is_list elem \<and> type_ok elem
    | _ \<Rightarrow> True)"
  by (cases ty) (auto simp: is_list_def split: data_type.splits)

section \<open>What is read is safe to follow\<close>

lemma in_record_Inr: "in_record r c = Inr (x, c') \<Longrightarrow> \<exists>b c''. r b = Inr (x, c'')"
proof -
  assume "in_record r c = Inr (x, c')"
  then obtain body k where "(case r body of Inl e \<Rightarrow> Inl e | Inr (x, _) \<Rightarrow> Inr (x, k)) = (Inr (x, c') :: codec_error + _)"
    by (auto simp: record_by_def rbind_eq_Inr_iff)
  then show ?thesis by (cases "r body") auto
qed

lemma read_n_all_P:
  assumes "\<And>c x c'. r c = Inr (x, c') \<Longrightarrow> P x" "read_n r n c = Inr (xs, c')"
  shows "\<forall>x \<in> set xs. P x"
  using assms(2) by (induction n arbitrary: xs c c') (auto simp: rbind_eq_Inr_iff dest: assms(1))

lemma rlist_P:
  assumes "\<And>c x c'. r c = Inr (x, c') \<Longrightarrow> P x" "rlist n r c = Inr (xs, c')"
  shows "\<forall>x \<in> set xs. P x"
  using assms(2) read_n_all_P [of r P, OF assms(1)] by (fastforce simp: list_by_def rbind_eq_Inr_iff)

lemma check_Inr [simp]: "check b d c = Inr (u, c') \<longleftrightarrow> b \<and> c' = c"
  by (auto simp: check_def)

lemma decode_segment_paths:
  assumes "decode_segment schema c = Inr (s, c')"
  shows "is_path_component (sg_partition s) \<and> (sg_dir s = [] \<or> list_all is_path_component (split_on 47 (sg_dir s))) \<and>
    (sg_field_ids s = [] \<or> length (sg_field_ids s) = length (sg_columns s))"
  using in_record_Inr [OF assms [unfolded decode_segment_def]]
  by (auto simp: rbind_eq_Inr_iff check_component_def or_empty_def decode_dir_def split: if_splits)

definition segment_read_ok :: "segment_entry \<Rightarrow> bool" where
  "segment_read_ok s \<longleftrightarrow> is_path_component (sg_partition s) \<and>
     (sg_dir s = [] \<or> list_all is_path_component (split_on 47 (sg_dir s))) \<and>
     (sg_field_ids s = [] \<or> length (sg_field_ids s) = length (sg_columns s))"

definition entry_read_ok :: "table_entry \<Rightarrow> bool" where
  "entry_read_ok t \<longleftrightarrow> is_path_component (tn_db (tb_name t)) \<and> is_path_component (tn_name (tb_name t)) \<and>
     (\<forall>s \<in> set (tb_segments t). segment_read_ok s) \<and> (\<forall>i \<in> set (named_ids (def_of t)). i \<in> sf_id ` set (tb_schema t))"

lemma decode_segments_ok:
  assumes "decode_segments schema c = Inr (ss, c')"
  shows "\<forall>s \<in> set ss. segment_read_ok s"
proof -
  from in_record_Inr [OF assms [unfolded decode_segments_def]] obtain b c'' where "rlist 1 (decode_segment schema) b = Inr (ss, c'')" by blast
  then show ?thesis by (rule rlist_P [rotated]) (simp add: segment_read_ok_def decode_segment_paths)
qed

lemma named_ids_rebuilt [simp]:
  "named_ids \<lparr>df_id = df_id d, df_next_field_id = df_next_field_id d, df_key = df_key d, df_version = df_version d,
     df_order_by = df_order_by d, df_partition_by = df_partition_by d, df_ttl = df_ttl d, df_options = df_options d\<rparr>
   = named_ids d"
  by (cases d) simp

lemma decode_table_entry_ok:
  assumes "decode_table_entry c = Inr (t, c')"
  shows "entry_read_ok t"
  using in_record_Inr [OF assms [unfolded decode_table_entry_def]]
  by (auto simp: rbind_eq_Inr_iff check_component_def check_definition_ids_def entry_read_ok_def def_of_def
      dest: decode_segments_ok)

lemma decode_tables_ok: "decode_tables c = Inr (ts, c') \<Longrightarrow> \<forall>t \<in> set ts. entry_read_ok t"
  unfolding decode_tables_def
  by (drule in_record_Inr, elim exE) (rule rlist_P [OF decode_table_entry_ok])

lemma decode_garbage_ok:
  assumes "decode_garbage c = Inr (gs, c')"
  shows "\<forall>g \<in> set gs. is_path_component (tn_db (gb_table g)) \<and> is_path_component (tn_name (gb_table g)) \<and> segment_read_ok (gb_segment g)"
proof -
  let ?r = "in_record (rbind (cor cur_str) (\<lambda>db. rbind (cor cur_str) (\<lambda>name.
     rbind (check_component db) (\<lambda>_. rbind (check_component name) (\<lambda>_.
     rbind r_nat (\<lambda>ms. rbind (decode_segment []) (\<lambda>segment. rbind (or_empty 0 r_nat) (\<lambda>version.
       rret \<lparr>gb_table = \<lparr>tn_db = db, tn_name = name\<rparr>, gb_segment = segment, gb_removed_at_ms = ms,
         gb_removed_at_version = version\<rparr>))))))))"
  from in_record_Inr [OF assms [unfolded decode_garbage_def]] obtain b c'' where r: "rlist 1 ?r b = Inr (gs, c'')" by blast
  show ?thesis
  proof (rule rlist_P [OF _ r])
    fix c g c'
    assume "?r c = Inr (g, c')"
    from in_record_Inr [OF this]
    show "is_path_component (tn_db (gb_table g)) \<and> is_path_component (tn_name (gb_table g)) \<and> segment_read_ok (gb_segment g)"
      by (auto simp: rbind_eq_Inr_iff check_component_def segment_read_ok_def dest: decode_segment_paths)
  qed
qed

lemma decode_job_ok: "decode_job n c = Inr (j, c') \<Longrightarrow> entry_read_ok (jb_target j) \<and> jb_id j \<noteq> 0 \<and> jb_id j < n"
  by (auto simp: decode_job_def rbind_eq_Inr_iff dest: decode_table_entry_ok)

lemma decode_retired_ok:
  assumes "decode_retired c = Inr (r, c')"
  shows "entry_read_ok (rt_entry r)"
proof -
  from assms obtain b c'' where "decode_table_entry b = Inr (rt_entry r, c'')"
    by (auto simp: decode_retired_def rbind_eq_Inr_iff split: option.splits)
  then show ?thesis by (rule decode_table_entry_ok)
qed

lemma decode_lifecycle_ok:
  assumes "decode_lifecycle c = Inr ((n, js, rs), c')"
  shows "(\<forall>j \<in> set js. entry_read_ok (jb_target j) \<and> jb_id j \<noteq> 0 \<and> jb_id j < n) \<and> (\<forall>r \<in> set rs. entry_read_ok (rt_entry r))"
proof -
  have j: "\<And>c j c'. in_record (decode_job n) c = Inr (j, c') \<Longrightarrow> entry_read_ok (jb_target j) \<and> jb_id j \<noteq> 0 \<and> jb_id j < n"
    by (drule in_record_Inr) (elim exE, rule decode_job_ok)
  have r: "\<And>c r c'. in_record decode_retired c = Inr (r, c') \<Longrightarrow> entry_read_ok (rt_entry r)"
    by (drule in_record_Inr) (elim exE, rule decode_retired_ok)
  from in_record_Inr [OF assms [unfolded decode_lifecycle_def]] obtain a b d e where
    js: "rlist 1 (in_record (decode_job n)) a = Inr (js, b)" and rs: "rlist 1 (in_record decode_retired) d = Inr (rs, e)"
    by (auto simp: rbind_eq_Inr_iff)
  show ?thesis by (intro conjI rlist_P [OF j js] rlist_P [OF r rs])
qed

text \<open>
  C13. Whatever bytes the manifest's file holds, decoding refuses them or gives a manifest that
  is safe to follow: every database, table and partition name and every part of a segment's
  directory is a single path component, so no path made of them leaves the store's root; the
  field ids a segment lists pair off with its column statistics, so projecting it cannot index
  out of range; a table's clauses name columns of its own schema; and job ids are below the
  counter. This holds of the tables, the retired entries, the targets of jobs and the garbage.
\<close>

theorem manifest_decode_safe:
  assumes "manifest_decode bytes = Inr m"
  shows "(\<forall>t \<in> set (mf_tables m). entry_read_ok t) \<and> (\<forall>r \<in> set (mf_retired m). entry_read_ok (rt_entry r)) \<and>
    (\<forall>j \<in> set (mf_jobs m). entry_read_ok (jb_target j) \<and> jb_id j \<noteq> 0 \<and> jb_id j < mf_next_job_id m) \<and>
    (\<forall>g \<in> set (mf_garbage m). is_path_component (tn_db (gb_table g)) \<and> is_path_component (tn_name (gb_table g)) \<and>
       segment_read_ok (gb_segment g))"
proof -
  from assms obtain body c where "decode_body (cur_new body) = Inr (m, c)"
    by (auto simp: manifest_decode_def split: if_splits sum.splits)
  then obtain a b d e n x where
    t: "decode_tables a = Inr (mf_tables m, b)" and g: "decode_garbage b = Inr (mf_garbage m, d)"
    and l: "or_empty (1, [], []) decode_lifecycle d = Inr ((mf_next_job_id m, mf_jobs m, mf_retired m), e)"
    by (auto simp: decode_body_def rbind_eq_Inr_iff)
  have "(\<forall>j \<in> set (mf_jobs m). entry_read_ok (jb_target j) \<and> jb_id j \<noteq> 0 \<and> jb_id j < mf_next_job_id m) \<and>
    (\<forall>r \<in> set (mf_retired m). entry_read_ok (rt_entry r))"
  proof (cases "cur_is_empty d")
    case False
    with l have "decode_lifecycle d = Inr ((mf_next_job_id m, mf_jobs m, mf_retired m), e)" by (simp add: or_empty_def)
    then show ?thesis by (rule decode_lifecycle_ok)
  qed (use l in \<open>simp add: or_empty_def\<close>)
  with decode_tables_ok [OF t] decode_garbage_ok [OF g] show ?thesis by blast
qed

section \<open>An example file\<close>

definition ex_field :: schema_field where
  "ex_field = \<lparr>sf_id = 1, sf_field = \<lparr>fd_name = [97], fd_ty = TInt64\<rparr>\<rparr>"

definition ex_stored_segment :: "nat \<Rightarrow> column_stats list \<Rightarrow> segment_entry" where
  "ex_stored_segment i cols = \<lparr>sg_id = i, sg_partition = [95], sg_seq = 1, sg_rows = 3, sg_bytes = 80, sg_footer_crc = 9,
     sg_columns = cols, sg_side_files = [], sg_dir = [100], sg_field_ids = map (\<lambda>_. 1) cols, sg_file_field_ids = []\<rparr>"

definition ex_stored_table :: "nat \<Rightarrow> table_entry" where
  "ex_stored_table i = \<lparr>tb_id = i, tb_name = \<lparr>tn_db = [100], tn_name = [116]\<rparr>, tb_engine = [97], tb_schema = [ex_field],
     tb_next_field_id = 2, tb_key = [1], tb_version = None, tb_order_by = [1], tb_partition_by = None, tb_ttl = None,
     tb_options = [([107], [118])],
     tb_segments = [ex_stored_segment 4 [\<lparr>st_rows = 3, st_null_count = 1, st_min = Some (VInt64 5), st_max = Some (VInt64 7)\<rparr>]],
     tb_tombstones = [\<lparr>ts_seq = 2, ts_predicates = [\<lparr>pr_column = [97], pr_op = Eq, pr_value = VInt64 6\<rparr>]\<rparr>]\<rparr>"

definition ex_stored :: manifest where
  "ex_stored = \<lparr>mf_version = 3, mf_next_segment_id = 6, mf_next_table_id = 4, mf_tables = [ex_stored_table 1],
     mf_garbage = [\<lparr>gb_table = \<lparr>tn_db = [100], tn_name = [116]\<rparr>, gb_segment = ex_stored_segment 5 [], gb_removed_at_ms = 7,
       gb_removed_at_version = 2\<rparr>],
     mf_next_job_id = 2,
     mf_jobs = [\<lparr>jb_id = 1, jb_source = 1, jb_snapshot = 2, jb_target = ex_stored_table 2, jb_handled = [4], jb_reused = 1,
       jb_rewritten = 0\<rparr>],
     mf_retired = [],
     mf_migrations = [\<lparr>mr_name = [49], mr_checksum = 8, mr_applied_at_ms = 7\<rparr>]\<rparr>"

lemmas ex_stored_defs = ex_stored_def ex_stored_table_def ex_stored_segment_def ex_field_def

lemma ex_stored_codable: "manifest_codable ex_stored"
  by (simp add: ex_stored_defs manifest_codable_def table_codable_def name_codable_def is_path_component_def
   schema_codable_def field_codable_def segment_codable_def stats_codable_def bound_codable_def storable_def
   ids_codable_def tombstone_codable_def predicate_codable_def find_column_def definition_codable_def def_of_def named_ids_def
   garbage_codable_def job_codable_def MAX_DECODE_ROWS_def)

lemma ex_stored_body: "case encode_body ex_stored sink_new of None \<Rightarrow> False | Some b \<Rightarrow> length b < 1000"
  by code_simp

lemma ex_stored_file: "manifest_encode ex_stored = Some bytes \<Longrightarrow> length bytes < 2 ^ 32"
  using manifest_encode_length [of ex_stored bytes] ex_stored_body by auto

theorem manifest_decode_safe_witness:
  "\<exists>bytes. manifest_decode bytes = Inr ex_stored \<and> entry_read_ok (ex_stored_table 1)"
proof -
  obtain bytes where "manifest_decode bytes = Inr ex_stored"
    using manifest_read_back [OF ex_stored_codable] ex_stored_file by blast
  with manifest_decode_safe [OF this] show ?thesis by (auto simp: ex_stored_def)
qed

end
