(* ===== verification/Manifest_Ids.thy ===== *)
theory Manifest_Ids
  imports Manifest_Migrate Manifest_Codec
begin

text \<open>
  Opening a manifest (\<open>src/storage/manifest/ids.rs\<close> and \<open>Manifest::decode\<close> of \<open>mod.rs\<close>): what a
  file written before tables, columns and segments had ids of their own lacks is filled in
  after decoding. Counters wrap at 64 bits, as in a release build. The round trip of the
  manifest's file goes through this step.
\<close>

section \<open>Filling in\<close>

definition succ64 :: "nat \<Rightarrow> nat" where
  "succ64 n = (n + 1) mod 2 ^ 64"

definition first_free :: "nat \<Rightarrow> nat list \<Rightarrow> nat" where
  "first_free counter ids = max (max counter (succ64 (fold max ids 0))) 1"

fun assign_from :: "('a \<Rightarrow> nat) \<Rightarrow> (nat \<Rightarrow> 'a \<Rightarrow> 'a) \<Rightarrow> nat \<Rightarrow> 'a list \<Rightarrow> 'a list \<times> nat" where
  "assign_from get set_id nxt [] = ([], nxt)"
| "assign_from get set_id nxt (x # xs) =
     (if get x = 0 then map_prod (Cons (set_id nxt x)) id (assign_from get set_id (succ64 nxt) xs)
      else map_prod (Cons x) id (assign_from get set_id nxt xs))"

definition assign_field_ids :: "table_entry \<Rightarrow> table_entry" where
  "assign_field_ids t =
     (let (schema, nxt) = assign_from sf_id (\<lambda>i f. f\<lparr>sf_id := i\<rparr>)
            (first_free (tb_next_field_id t) (map sf_id (tb_schema t))) (tb_schema t)
      in t\<lparr>tb_schema := schema, tb_next_field_id := nxt\<rparr>)"

definition legacy_dir :: "table_name \<Rightarrow> rstr" where
  "legacy_dir n = tn_db n @ 47 # tn_name n"

definition assign_segment_dirs :: "table_entry \<Rightarrow> table_entry" where
  "assign_segment_dirs t =
     t\<lparr>tb_segments := map (\<lambda>s.
        let s = (if sg_dir s = [] then s\<lparr>sg_dir := legacy_dir (tb_name t)\<rparr> else s)
        in if sg_field_ids s = [] \<and> sg_columns s \<noteq> [] then s\<lparr>sg_field_ids := map sf_id (tb_schema t)\<rparr> else s)
      (tb_segments t)\<rparr>"

definition assign_garbage_dir :: "garbage \<Rightarrow> garbage" where
  "assign_garbage_dir g =
     (if sg_dir (gb_segment g) = [] then g\<lparr>gb_segment := (gb_segment g)\<lparr>sg_dir := legacy_dir (gb_table g)\<rparr>\<rparr> else g)"

definition assign_missing :: "manifest \<Rightarrow> manifest" where
  "assign_missing m =
     (let (tables, nxt) = assign_from tb_id (\<lambda>i t. t\<lparr>tb_id := i\<rparr>)
            (first_free (mf_next_table_id m) (map tb_id (mf_tables m))) (mf_tables m)
      in m\<lparr>mf_tables := map (\<lambda>t. assign_segment_dirs (assign_field_ids t)) tables, mf_next_table_id := nxt,
           mf_garbage := map assign_garbage_dir (mf_garbage m)\<rparr>)"

definition open_manifest :: "byte list \<Rightarrow> codec_error + manifest" where
  "open_manifest bytes = map_sum id assign_missing (manifest_decode bytes)"

section \<open>Assigned ids\<close>

text \<open>A counter with room for the ids that are missing, and one that lies above ids all given.\<close>

definition counter_room :: "nat \<Rightarrow> nat list \<Rightarrow> bool" where
  "counter_room counter ids \<longleftrightarrow> max counter (fold max ids 0 + 1) + length ids < 2 ^ 64"

definition counter_above :: "nat \<Rightarrow> nat list \<Rightarrow> bool" where
  "counter_above counter ids \<longleftrightarrow> 0 < counter \<and> counter < 2 ^ 64 \<and> (\<forall>i \<in> set ids. 0 < i \<and> i < counter)"

lemma fold_max_start: "a \<le> fold max xs (a :: nat)"
  by (induction xs arbitrary: a) (auto intro: order_trans [OF max.cobounded2])

lemma le_fold_max: "x \<in> set xs \<Longrightarrow> x \<le> fold max xs (a :: nat)"
  by (induction xs arbitrary: a) (auto intro: order_trans [OF max.cobounded1 fold_max_start])

lemma fold_max_less: "\<forall>x \<in> set xs. x < n \<Longrightarrow> a < n \<Longrightarrow> fold max xs a < (n :: nat)"
  by (induction xs arbitrary: a) auto

lemma first_free_above:
  assumes "counter_above counter ids"
  shows "first_free counter ids = counter"
proof -
  have "fold max ids 0 < counter" using assms by (intro fold_max_less) (auto simp: counter_above_def)
  then have "succ64 (fold max ids 0) \<le> counter" using assms by (simp add: succ64_def counter_above_def)
  then show ?thesis using assms by (simp add: first_free_def counter_above_def)
qed

lemma first_free_room:
  assumes "counter_room counter ids"
  shows "first_free counter ids = max counter (fold max ids 0 + 1)"
  using assms by (simp add: first_free_def counter_room_def succ64_def)

lemma assign_from_given: "\<forall>x \<in> set xs. get x \<noteq> 0 \<Longrightarrow> assign_from get set_id nxt xs = (xs, nxt)"
  by (induction xs) auto

lemma assign_from_ids:
  assumes "\<And>i x. get (set_id i x) = i" "assign_from get set_id nxt xs = (ys, n)" "nxt + length xs < 2 ^ 64" "0 < nxt"
    "\<forall>x \<in> set xs. get x < nxt"
  shows "nxt \<le> n \<and> n \<le> nxt + length xs \<and> list_all2 (\<lambda>x y. if get x = 0 then nxt \<le> get y \<and> y = set_id (get y) x else y = x) xs ys \<and>
    (\<forall>y \<in> set ys. 0 < get y \<and> get y < n \<and> (get y < nxt \<longrightarrow> y \<in> set xs)) \<and>
    (distinct (filter (\<lambda>i. i \<noteq> 0) (map get xs)) \<longrightarrow> distinct (map get ys))"
  using assms(2-5)
proof (induction xs arbitrary: nxt ys)
  case (Cons x xs)
  show ?case
  proof (cases "get x = 0")
    case True
    then obtain zs where zs: "assign_from get set_id (succ64 nxt) xs = (zs, n)" "ys = set_id nxt x # zs"
      using Cons.prems(1) by (auto simp: map_prod_def split: prod.splits)
    have nx: "succ64 nxt = nxt + 1" using Cons.prems(2) by (simp add: succ64_def)
    have pre: "succ64 nxt + length xs < 2 ^ 64" "0 < succ64 nxt" "\<forall>x \<in> set xs. get x < succ64 nxt"
      using Cons.prems nx by auto
    note ih = Cons.IH [OF zs(1) pre, unfolded nx]
    from ih have l: "list_all2 (\<lambda>x y. if get x = 0 then nxt + 1 \<le> get y \<and> y = set_id (get y) x else y = x) xs zs" by blast
    have "list_all2 (\<lambda>x y. if get x = 0 then nxt \<le> get y \<and> y = set_id (get y) x else y = x) xs zs"
      by (rule list_all2_mono [OF l]) (auto split: if_splits)
    moreover have "nxt \<notin> get ` set zs" using ih Cons.prems(4) by fastforce
    ultimately show ?thesis using ih Cons.prems(3,4) zs(2) True assms(1) by auto
  next
    case False
    then obtain zs where zs: "assign_from get set_id nxt xs = (zs, n)" "ys = x # zs"
      using Cons.prems(1) by (auto simp: map_prod_def split: prod.splits)
    have pre: "nxt + length xs < 2 ^ 64" "0 < nxt" "\<forall>x \<in> set xs. get x < nxt" using Cons.prems by auto
    note ih = Cons.IH [OF zs(1) pre]
    have "get x \<notin> get ` set zs" if "get x \<notin> get ` {y \<in> set xs. get y \<noteq> 0}"
    proof
      assume "get x \<in> get ` set zs"
      then obtain z where z: "z \<in> set zs" "get z = get x" by auto
      moreover have "get x < nxt" using Cons.prems(4) by simp
      ultimately have "z \<in> set xs" using ih by (metis (no_types, lifting))
      with z(2) False have "get x \<in> get ` {y \<in> set xs. get y \<noteq> 0}" by (auto simp: image_iff intro: bexI [of _ z])
      with that show False by contradiction
    qed
    then have d: "distinct (filter (\<lambda>i. i \<noteq> 0) (map get (x # xs))) \<longrightarrow> distinct (map get ys)"
      using ih zs(2) False by (auto simp: image_iff)
    have l: "nxt \<le> n" "n \<le> nxt + length xs"
      "list_all2 (\<lambda>x y. if get x = 0 then nxt \<le> get y \<and> y = set_id (get y) x else y = x) xs zs"
      "\<forall>y \<in> set zs. 0 < get y \<and> get y < n \<and> (get y < nxt \<longrightarrow> y \<in> set xs)" using ih by blast+
    have "get x < n" using l(1) Cons.prems(4) by simp
    then show ?thesis using l d zs(2) False by simp
  qed
qed auto


definition entry_given :: "table_entry \<Rightarrow> bool" where
  "entry_given t \<longleftrightarrow> counter_above (tb_next_field_id t) (map sf_id (tb_schema t)) \<and>
     (\<forall>s \<in> set (tb_segments t). sg_dir s \<noteq> [] \<and> (sg_field_ids s = [] \<and> sg_columns s \<noteq> [] \<longrightarrow> tb_schema t = []))"

definition ids_given :: "manifest \<Rightarrow> bool" where
  "ids_given m \<longleftrightarrow> counter_above (mf_next_table_id m) (map tb_id (mf_tables m)) \<and> (\<forall>t \<in> set (mf_tables m). entry_given t) \<and>
     (\<forall>g \<in> set (mf_garbage m). sg_dir (gb_segment g) \<noteq> [])"

definition ids_room :: "manifest \<Rightarrow> bool" where
  "ids_room m \<longleftrightarrow> counter_room (mf_next_table_id m) (map tb_id (mf_tables m)) \<and>
     (\<forall>t \<in> set (mf_tables m). counter_room (tb_next_field_id t) (map sf_id (tb_schema t)))"

lemma assign_field_ids_given: "entry_given t \<Longrightarrow> assign_field_ids t = t"
  by (auto simp: assign_field_ids_def entry_given_def first_free_above counter_above_def
      assign_from_given [of "tb_schema t" sf_id] split: prod.splits)

lemma assign_segment_dirs_given: "entry_given t \<Longrightarrow> assign_segment_dirs t = t"
  by (cases t) (auto simp: assign_segment_dirs_def entry_given_def Let_def intro!: map_idI)

lemma assign_missing_given:
  assumes "ids_given m"
  shows "assign_missing m = m"
proof -
  have "assign_from tb_id (\<lambda>i t. t\<lparr>tb_id := i\<rparr>) (mf_next_table_id m) (mf_tables m) = (mf_tables m, mf_next_table_id m)"
    using assms by (intro assign_from_given) (auto simp: ids_given_def counter_above_def)
  moreover have "map (\<lambda>t. assign_segment_dirs (assign_field_ids t)) (mf_tables m) = mf_tables m"
    using assms by (intro map_idI) (simp add: ids_given_def assign_field_ids_given assign_segment_dirs_given)
  moreover have "map assign_garbage_dir (mf_garbage m) = mf_garbage m"
    using assms by (intro map_idI) (simp add: ids_given_def assign_garbage_dir_def)
  moreover have "first_free (mf_next_table_id m) (map tb_id (mf_tables m)) = mf_next_table_id m"
    using assms by (simp add: ids_given_def first_free_above)
  ultimately show ?thesis by (simp add: assign_missing_def)
qed

lemma assign_from_room:
  assumes "\<And>i x. get (set_id i x) = i" "counter_room counter (map get xs)"
    "assign_from get set_id (first_free counter (map get xs)) xs = (ys, n)"
  shows "counter_above n (map get ys) \<and>
    list_all2 (\<lambda>x y. y = (if get x = 0 then set_id (get y) x else x) \<and> (get x = 0 \<longrightarrow> counter \<le> get y)) xs ys \<and>
    (distinct (filter (\<lambda>i. i \<noteq> 0) (map get xs)) \<longrightarrow> distinct (map get ys))"
proof -
  note free = first_free_room [OF assms(2)]
  have pre: "first_free counter (map get xs) + length xs < 2 ^ 64" "0 < first_free counter (map get xs)"
    "\<forall>x \<in> set xs. get x < first_free counter (map get xs)"
    using assms(2) le_fold_max [of "get _" "map get xs" 0] by (auto simp: free counter_room_def less_Suc_eq_le less_max_iff_disj)
  note ids = assign_from_ids [OF assms(1,3) pre]
  then have l: "list_all2 (\<lambda>x y. if get x = 0 then first_free counter (map get xs) \<le> get y \<and> y = set_id (get y) x else y = x) xs ys" by blast
  have "list_all2 (\<lambda>x y. y = (if get x = 0 then set_id (get y) x else x) \<and> (get x = 0 \<longrightarrow> counter \<le> get y)) xs ys"
    by (rule list_all2_mono [OF l]) (auto simp: free split: if_splits)
  moreover have "0 < n" "n < 2 ^ 64" using ids pre by linarith+
  ultimately show ?thesis using ids by (auto simp: counter_above_def)
qed

lemma assign_field_ids_gives:
  assumes "counter_room (tb_next_field_id t) (map sf_id (tb_schema t))"
  shows "entry_given (assign_segment_dirs (assign_field_ids t))"
proof -
  obtain schema n where a: "assign_from sf_id (\<lambda>i f. f\<lparr>sf_id := i\<rparr>)
     (first_free (tb_next_field_id t) (map sf_id (tb_schema t))) (tb_schema t) = (schema, n)" by fastforce
  have "counter_above n (map sf_id schema)" using assign_from_room [OF _ assms a] by simp
  then show ?thesis using a
    by (auto simp: entry_given_def assign_segment_dirs_def assign_field_ids_def Let_def legacy_dir_def
        split: if_splits)
qed

lemma renumbered: "t' = t\<lparr>tb_id := i\<rparr> \<Longrightarrow> tb_name t' = tb_name t \<and> tb_next_field_id t' = tb_next_field_id t \<and> tb_schema t' = tb_schema t"
  by simp


section \<open>Round trip\<close>

lemma codable_given:
  assumes "store_ok m" "manifest_codable m"
  shows "ids_given m"
proof -
  have dir: "sg_dir s \<noteq> []" if "segment_codable sch s" for sch s
    using that by (auto simp: segment_codable_def is_path_component_def)
  have "entry_given t" if t: "t \<in> set (mf_tables m)" for t
  proof -
    have wf: "entry_wf t" using assms(1) t by (simp add: store_ok_def entries_def)
    moreover have c: "table_codable t" using assms(2) t by (simp add: manifest_codable_def)
    ultimately have "counter_above (tb_next_field_id t) (map sf_id (tb_schema t))"
      by (auto simp: entry_wf_def schema_ok_def counter_above_def table_codable_def schema_codable_def field_codable_def
          definition_codable_def def_of_def)
    moreover have "sg_dir s \<noteq> [] \<and> (sg_field_ids s = [] \<longrightarrow> sg_columns s = [])" if "s \<in> set (tb_segments t)" for s
      using wf c that dir by (auto simp: entry_wf_def segment_ok_def table_codable_def)
    ultimately show ?thesis by (auto simp: entry_given_def)
  qed
  moreover have "counter_above (mf_next_table_id m) (map tb_id (mf_tables m))"
    using assms by (auto simp: store_ok_def ids_ok_def tids_def counter_above_def manifest_codable_def table_codable_def
        definition_codable_def def_of_def)
  ultimately show ?thesis using assms(2) dir by (auto simp: ids_given_def manifest_codable_def garbage_codable_def)
qed

text \<open>
  C12. A manifest survives its file: whatever commits made it, encoding it does not panic and
  opening the file gives that very manifest back: tables, segments with their statistics,
  tombstones, garbage, jobs, retired entries and the migration ledger. This holds within the
  limits of the format: ids and counts in 64 bits, lists of at most \<open>MAX_DECODE_ROWS\<close>
  entries, statistics that have their column's type, and a file below 4 GiB.
\<close>

theorem manifest_roundtrip:
  assumes "reachable m" "manifest_codable m"
  shows "\<exists>bytes. manifest_encode m = Some bytes \<and> (length bytes < 2 ^ 32 \<longrightarrow> open_manifest bytes = Inr m)"
  using manifest_read_back [OF assms(2)] assign_missing_given [OF codable_given [OF store_safe.holds [OF assms(1)] assms(2)]]
  by (auto simp: open_manifest_def)

lemma ex_manifest_is:
  "ex_manifest = \<lparr>mf_version = 1, mf_next_segment_id = 2, mf_next_table_id = 2,
     mf_tables = [\<lparr>tb_id = 1, tb_name = ex_name, tb_engine = [97, 112, 112, 101, 110, 100],
       tb_schema = [\<lparr>sf_id = 1, sf_field = \<lparr>fd_name = [97], fd_ty = TInt64\<rparr>\<rparr>], tb_next_field_id = 2, tb_key = [],
       tb_version = None, tb_order_by = [], tb_partition_by = None, tb_ttl = None, tb_options = [],
       tb_segments = [ex_segment 1], tb_tombstones = []\<rparr>],
     mf_garbage = [\<lparr>gb_table = ex_name, gb_segment = (ex_segment 0)\<lparr>sg_columns := [], sg_field_ids := [], sg_file_field_ids := []\<rparr>,
       gb_removed_at_ms = 7, gb_removed_at_version = 1\<rparr>],
     mf_next_job_id = 1, mf_jobs = [], mf_retired = [], mf_migrations = []\<rparr>"
  by code_simp

lemma ex_manifest_codable: "manifest_codable ex_manifest"
  unfolding ex_manifest_is
  by (simp add: ex_name_def ex_segment_def manifest_codable_def table_codable_def name_codable_def is_path_component_def
      schema_codable_def field_codable_def segment_codable_def stats_codable_def bound_codable_def ids_codable_def
      definition_codable_def def_of_def named_ids_def garbage_codable_def MAX_DECODE_ROWS_def)

lemma ex_manifest_body: "case encode_body ex_manifest sink_new of None \<Rightarrow> False | Some b \<Rightarrow> length b < 1000"
  unfolding ex_manifest_is by code_simp

theorem manifest_roundtrip_witness:
  "reachable ex_manifest \<and> manifest_codable ex_manifest \<and>
   (\<exists>bytes. manifest_encode ex_manifest = Some bytes \<and> open_manifest bytes = Inr ex_manifest)"
proof -
  obtain bytes where b: "manifest_encode ex_manifest = Some bytes" "length bytes < 2 ^ 32 \<longrightarrow> open_manifest bytes = Inr ex_manifest"
    using manifest_roundtrip [OF ex_reachable ex_manifest_codable] by blast
  have "length bytes < 2 ^ 32" using manifest_encode_length [OF b(1)] ex_manifest_body by auto
  with b ex_reachable ex_manifest_codable show ?thesis by blast
qed

text \<open>A table of a file without ids, opened.\<close>

definition ex_old :: manifest where
  "ex_old = ex_manifest\<lparr>mf_next_table_id := 0, mf_tables := map (\<lambda>t. t\<lparr>tb_id := 0, tb_next_field_id := 0,
     tb_schema := map (\<lambda>f. f\<lparr>sf_id := 0\<rparr>) (tb_schema t),
     tb_segments := map (\<lambda>s. s\<lparr>sg_dir := [], sg_field_ids := []\<rparr>) (tb_segments t)\<rparr>) (mf_tables ex_manifest)\<rparr>"


end
