(* ===== verification/Spec2Isabelle.thy ===== *)
theory Spec2Isabelle
  imports Scan_Props Manifest_Ids
begin

text \<open>
  A verification development for the columnar store Adelie. All paths are below \<open>src/src/\<close>.

  \<^bold>\<open>Program.\<close> Adelie keeps tables as immutable segment files of column chunks. Values
  (\<open>types/\<close>) live in typed columns (\<open>exec/column.rs\<close>) with a validity bitmap
  (\<open>exec/bitmap.rs\<close>), columns in batches (\<open>exec/batch.rs\<close>). The segment layer
  (\<open>storage/segment/\<close>) turns batches into files of row groups with statistics and skip
  indexes, and reads them back. The manifest (\<open>storage/manifest/\<close>) says which segments make
  up which table under which schema; every change of it is a commit of edits. A scan
  (\<open>storage/scan.rs\<close>) takes a table of the manifest, skips segments and row groups by the
  predicate (\<open>storage/prune.rs\<close>), realigns what it reads onto the table's schema and drops
  the rows that tombstones delete; the executor evaluates expressions (\<open>exec/expr/\<close>) and
  kernels (\<open>exec/kernels/\<close>) over the batches.

  \<^bold>\<open>Conventions.\<close> A panic is \<open>None\<close>; an error is the left of a sum, in the order the code
  raises it; machine integers are words where they can wrap, and natural numbers for lengths,
  ids, versions and times. Strings are their UTF-8 bytes, doubles their 64-bit patterns with
  the exact value as a scaled integer. Messages of errors that only format are left out.

  \<^bold>\<open>Values and columns.\<close>
  \<^item> \<open>Prelude\<close>: the integer types, lists, division and words.
  \<^item> \<open>Types\<close>, \<open>Value_Order\<close>, \<open>Fit\<close>: \<open>types/\<close>. The total order is one on every type (locale
    \<open>cmp_on\<close>, interpreted on bytes, values and table names), SQL equality agrees with it,
    decimals compare exactly within 128 bits, coercion loses nothing.
  \<^item> \<open>Bitmap\<close>: \<open>exec/bitmap.rs\<close>, words refining a list of booleans (locale \<open>bool_seq\<close>).
  \<^item> \<open>Column\<close>, \<open>Column_Ops\<close>, \<open>Column_Concat\<close>, \<open>Builder\<close>, \<open>Stats\<close>: \<open>exec/column.rs\<close>. The
    invariant \<open>col_wf\<close> is exactly what \<open>from_parts\<close> accepts; slices, concatenation and
    builders keep it and give the expected rows; statistics are exact.
  \<^item> \<open>Sorting_By\<close>: sorting, deduplication and binary search of the standard library.

  \<^bold>\<open>Encodings.\<close>
  \<^item> \<open>Wire\<close>: \<open>storage/segment/wire.rs\<close>. A sink is the list of bytes written so far, a cursor
    a buffer with a position, a read a function from a cursor to an error or a value with
    the advanced cursor. The locale \<open>codec\<close> is the contract of a writer and its reader; the
    pairs of the layer are interpretations of it. \<open>Codecs\<close> composes them.
  \<^item> \<open>Bitpack\<close>, \<open>Int_Encodings\<close>, \<open>Nulls\<close>, \<open>Xor\<close>, \<open>Dict\<close>: the encodings of
    \<open>storage/segment/encode/\<close>; run-length encoding is proved once in the locale \<open>rle_runs\<close>.
  \<^item> \<open>Encode\<close>, \<open>Decode_Safe\<close>: \<open>encode/mod.rs\<close>, \<open>plain.rs\<close>, \<open>select.rs\<close>; the round trip of a
    whole chunk under every encoding, and the safety of the decoder on arbitrary bytes.
  \<^item> \<open>Value_Codec\<close>, \<open>Checksum\<close>: values, type descriptors, CRC32C as polynomial division, XXH64.

  \<^bold>\<open>Segments.\<close>
  \<^item> \<open>Frames\<close>, \<open>Segment_Footer\<close>: trailers, records, the footer and the index directory
    (\<open>footer.rs\<close>, \<open>directory.rs\<close>).
  \<^item> \<open>Skip_Index\<close>: \<open>storage/segment/index/\<close>, BLOOM, VALUE_SET and NGRAM. Nothing present is
    denied, up to the byte equality of BLOOM, which hides -0.0 from a search for 0.0.
  \<^item> \<open>Segment_File\<close>: the writer and the reader (\<open>writer.rs\<close>, \<open>reader.rs\<close>); \<open>Segment_Write\<close>
    proves the writer's invariant, \<open>Segment_Read\<close> that the reader accepts what it leaves,
    \<open>Segment_Props\<close> the round trip, that every stored range covers its column, and that every
    stored index is sound.

  \<^bold>\<open>Manifest.\<close>
  \<^item> \<open>Manifest_Model\<close>, \<open>Manifest_Commit\<close>: the manifest and the sixteen edits of a commit
    (\<open>mod.rs\<close>, \<open>commit.rs\<close>, \<open>alter.rs\<close>, \<open>spec.rs\<close>, \<open>lifecycle.rs\<close>, \<open>ledger.rs\<close>).
  \<^item> \<open>Manifest_Shape\<close>, \<open>Manifest_Ledger\<close>, \<open>Manifest_Jobs\<close>, \<open>Manifest_Migrate\<close>: what each edit
    does, a ledger of segment ids that commits refine, and invariants over all histories of
    commits (locale \<open>commit_invariant\<close>): nothing referenced is garbage, definitions and ids are
    consistent, a migration can always be finished and undone.
  \<^item> \<open>Manifest_Codec\<close>, \<open>Manifest_Ids\<close>: \<open>codec.rs\<close>, \<open>ids.rs\<close>, the file of a manifest, its round
    trip, and the safety of decoding.

  \<^bold>\<open>Execution and scans.\<close>
  \<^item> \<open>Kernels\<close>, \<open>Select\<close>: comparison, Kleene logic, and the choice of rows (\<open>boolean.rs\<close>,
    \<open>compare.rs\<close>, \<open>select.rs\<close>): the chosen rows and no others, in order.
  \<^item> \<open>Expr\<close>, \<open>Eval\<close>, \<open>Like\<close>: expressions, their typing and evaluation, LIKE.
  \<^item> \<open>Prune\<close>: \<open>storage/prune.rs\<close>; both tests are instances of the locale \<open>conjunct_test\<close>, and
    neither rejects a predicate that is true on some row.
  \<^item> \<open>Scan\<close>: \<open>storage/read.rs\<close> and \<open>scan.rs\<close>; tombstones row by row. \<open>Realign\<close>: reading under a
    changed schema. \<open>Scan_Props\<close>: deletes are exact, and pruning drops no batch with a match,
    from the batches given to the segment writer to those the scan returns.

  \<^bold>\<open>Loops and bounds.\<close> Every loop is structural or has a termination proof, but for LIKE's
  matcher, a \<open>partial_function\<close> that is proved to return. \<open>seg_limits\<close> and the limits of the
  manifest's round trip are those the readers enforce (\<open>MAX_DECODE_ROWS\<close>); a segment file is
  assumed below 4 GiB, as its 32-bit footer length requires. Chosen rows have to fit 32-bit offsets.

  \<^bold>\<open>Parameters.\<close> The bytes of files are arguments, with no file as \<open>None\<close>. \<open>Column::byte_size\<close>,
  which counts allocated capacity, is an argument of the segment writer. The kernels of
  arithmetic, casts and named functions and the Unicode lower-casing of ILIKE are fields of a
  record that evaluation is given; what is proved holds for all of them.

  \<^bold>\<open>Not modelled.\<close> The file system, locks, threads and the memory budget (\<open>io.rs\<close>, \<open>lock.rs\<close>,
  \<open>publish.rs\<close>, \<open>snapshot.rs\<close>, \<open>context.rs\<close>), being services of the operating system; the
  write buffer, flushing, compaction and garbage collection, which interleave threads and
  files around the edits that are modelled; side files (\<open>idx.rs\<close>); hashing, row keys,
  joins, aggregates, sketches and pipelines of \<open>exec/\<close>; text forms of values; the SQL front
  end, CSV and JSON input, and the binary.
\<close>

end
